(* ===== verification/Prelude.thy ===== *)
theory Prelude
  imports Main "HOL-Library.Word"
begin

text \<open>
  Shared vocabulary of the development: the machine types of the simulator, the results of
  operations that can fail, little-endian views of byte buffers and the copies between them.
  The collections \<open>res_simps\<close>, \<open>buf_simps\<close> and \<open>op_defs\<close> carry most component proofs.
\<close>

unbundle bit_operations_syntax

named_theorems res_simps "evaluation of fallible operations"
named_theorems buf_simps "byte buffers and copies between them"
named_theorems op_defs "definitions of operations, for unfolding by name of the collection"

section \<open>Machine types\<close>

type_synonym byte = "8 word"
type_synonym u16 = "16 word"
type_synonym u32 = "32 word"
type_synonym u64 = "64 word"
type_synonym Addr = "64 word"
type_synonym Tick = "64 word"

section \<open>Failure\<close>

text \<open>
  An assertion, a \<open>panic\<close> or a \<open>fatal\<close> ends the simulation. \<open>OutOfRange\<close> stands for an access
  past the end of a vector, a buffer or the host memory, which C++ leaves undefined, and
  \<open>BadPtr\<close> for a dereference of a null or freed pointer. \<open>Exit\<close> is a call of \<open>exit\<close> with its code, and
  \<open>DivByZero\<close> the trap of a division by zero. \<open>Diverges\<close> is a loop that would not end.
\<close>

datatype err = Panic string | AssertFail string | Fatal string | OutOfRange | BadPtr | Exit nat | DivByZero | Diverges

type_synonym 'a res = "err + 'a"

definition bindR :: "'a res \<Rightarrow> ('a \<Rightarrow> 'b res) \<Rightarrow> 'b res" where
  "bindR m f = (case m of Inl e \<Rightarrow> Inl e | Inr x \<Rightarrow> f x)"

definition assertR :: "bool \<Rightarrow> string \<Rightarrow> 'a res \<Rightarrow> 'a res" where
  "assertR b msg m = (if b then m else Inl (AssertFail msg))"

lemma bindR_Inr [simp, res_simps]: "bindR (Inr x) f = f x"
  by (simp add: bindR_def)

lemma bindR_Inl [simp, res_simps]: "bindR (Inl e) f = Inl e"
  by (simp add: bindR_def)

lemma bindR_eq_Inr: "bindR m f = Inr y \<longleftrightarrow> (\<exists>x. m = Inr x \<and> f x = Inr y)"
  by (cases m) auto

lemma bindR_assoc: "bindR (bindR m f) g = bindR m (\<lambda>x. bindR (f x) g)"
  by (cases m) simp_all

lemma bindR_InrE [elim!]:
  assumes "bindR m f = Inr y"
  obtains x where "m = Inr x" and "f x = Inr y"
  using assms by (auto simp: bindR_eq_Inr)

lemma assertR_True [simp, res_simps]: "b \<Longrightarrow> assertR b msg m = m"
  by (simp add: assertR_def)

lemma assertR_False [simp, res_simps]: "\<not> b \<Longrightarrow> assertR b msg m = Inl (AssertFail msg)"
  by (simp add: assertR_def)

lemma assertR_eq_Inr: "assertR b msg m = Inr y \<longleftrightarrow> b \<and> m = Inr y"
  by (simp add: assertR_def)

lemma assertR_InrE [elim!]:
  assumes "assertR b msg m = Inr y"
  obtains "b" and "m = Inr y"
  using assms by (auto simp: assertR_eq_Inr)

lemma if_Inl_eq_Inr: "(if b then Inl e else m) = Inr y \<longleftrightarrow> \<not> b \<and> m = Inr y"
  by simp

lemma if_Inl_eq_Inr': "(if b then m else Inl e) = Inr y \<longleftrightarrow> b \<and> m = Inr y"
  by simp

lemmas res_iffs = bindR_eq_Inr assertR_eq_Inr if_Inl_eq_Inr if_Inl_eq_Inr'

section \<open>Little-endian values\<close>

fun le_to_nat :: "byte list \<Rightarrow> nat" where
  "le_to_nat [] = 0"
| "le_to_nat (b # bs) = unat b + 256 * le_to_nat bs"

fun nat_to_le :: "nat \<Rightarrow> nat \<Rightarrow> byte list" where
  "nat_to_le 0 v = []"
| "nat_to_le (Suc n) v = of_nat v # nat_to_le n (v div 256)"

lemma length_nat_to_le [simp, buf_simps]: "length (nat_to_le n v) = n"
  by (induction n arbitrary: v) auto

lemma le_to_nat_bound: "le_to_nat bs < 256 ^ length bs"
proof (induction bs)
  case Nil
  then show ?case by simp
next
  case (Cons b bs)
  have "unat b < 256" using unsigned_less [of b] by simp
  with Cons show ?case by simp
qed

lemma le_to_nat_of_nat_to_le [buf_simps]: "le_to_nat (nat_to_le n v) = v mod 256 ^ n"
proof (induction n arbitrary: v)
  case 0
  then show ?case by simp
next
  case (Suc n)
  have "unat (of_nat v :: byte) = v mod 256" by (simp add: unat_of_nat)
  then show ?case using Suc by (simp add: mod_mult2_eq)
qed

lemma nat_to_le_of_le_to_nat [buf_simps]: "nat_to_le (length bs) (le_to_nat bs) = bs"
proof (induction bs)
  case Nil
  then show ?case by simp
next
  case (Cons b bs)
  have lt: "unat b < 256" using unsigned_less [of b] by simp
  have "(256 :: byte) = 0" by simp
  then have "(of_nat (256 * le_to_nat bs) :: byte) = 0"
    by (metis mult_zero_left of_nat_mult of_nat_numeral)
  then show ?case using Cons lt by simp
qed

lemma nat_to_le_mod: "nat_to_le n (v mod 256 ^ n) = nat_to_le n v"
  using nat_to_le_of_le_to_nat [of "nat_to_le n v"] by (simp add: le_to_nat_of_nat_to_le)

lemma nat_to_le_eq_iff: "nat_to_le (length bs) v = bs \<longleftrightarrow> le_to_nat bs = v mod 256 ^ length bs"
proof
  assume "nat_to_le (length bs) v = bs"
  from arg_cong [OF this, of le_to_nat] show "le_to_nat bs = v mod 256 ^ length bs"
    by (simp add: le_to_nat_of_nat_to_le)
next
  assume "le_to_nat bs = v mod 256 ^ length bs"
  then have "nat_to_le (length bs) v = nat_to_le (length bs) (le_to_nat bs)"
    by (simp only: nat_to_le_mod)
  then show "nat_to_le (length bs) v = bs" by (simp only: nat_to_le_of_le_to_nat)
qed

section \<open>Copies between buffers\<close>

text \<open>
  \<open>read_bytes m off n\<close> is what \<open>memcpy\<close> reads, \<open>write_bytes m off bs\<close> what it leaves behind.
  Both are \<open>None\<close> when the copy leaves the buffer.
\<close>

definition read_bytes :: "byte list \<Rightarrow> nat \<Rightarrow> nat \<Rightarrow> byte list option" where
  "read_bytes m off n = (if off + n \<le> length m then Some (take n (drop off m)) else None)"

definition write_bytes :: "byte list \<Rightarrow> nat \<Rightarrow> byte list \<Rightarrow> byte list option" where
  "write_bytes m off bs =
     (if off + length bs \<le> length m then Some (take off m @ bs @ drop (off + length bs) m) else None)"

definition ofOpt :: "'a option \<Rightarrow> 'a res" where
  "ofOpt x = (case x of None \<Rightarrow> Inl OutOfRange | Some y \<Rightarrow> Inr y)"

lemma ofOpt_simps [simp, res_simps]: "ofOpt None = Inl OutOfRange" "ofOpt (Some y) = Inr y"
  by (simp_all add: ofOpt_def)

lemma ofOpt_eq_Inr [simp]: "ofOpt x = Inr y \<longleftrightarrow> x = Some y"
  by (cases x) auto

lemma read_bytes_length [buf_simps]: "read_bytes m off n = Some bs \<Longrightarrow> length bs = n"
  by (auto simp: read_bytes_def split: if_splits)

lemma write_bytes_length [buf_simps]: "write_bytes m off bs = Some m' \<Longrightarrow> length m' = length m"
  by (auto simp: write_bytes_def split: if_splits)

lemma read_write_same [buf_simps]:
  "write_bytes m off bs = Some m' \<Longrightarrow> read_bytes m' off (length bs) = Some bs"
  by (auto simp: write_bytes_def read_bytes_def split: if_splits)

lemma nth_write_bytes:
  assumes "write_bytes m off bs = Some m'" and "i < length m"
  shows "m' ! i = (if off \<le> i \<and> i < off + length bs then bs ! (i - off) else m ! i)"
proof -
  from assms(1) have le: "off + length bs \<le> length m"
    and m': "m' = take off m @ bs @ drop (off + length bs) m"
    by (auto simp: write_bytes_def split: if_splits)
  show ?thesis
  proof (cases "i < off")
    case True
    then show ?thesis using le m' by (simp add: nth_append)
  next
    case False
    then show ?thesis using le m' assms(2) by (auto simp: nth_append)
  qed
qed

lemma read_write_other [buf_simps]:
  assumes w: "write_bytes m off bs = Some m'"
    and dis: "o2 + n \<le> off \<or> off + length bs \<le> o2"
  shows "read_bytes m' o2 n = read_bytes m o2 n"
proof (cases "o2 + n \<le> length m")
  case True
  have "take n (drop o2 m') = take n (drop o2 m)"
  proof (rule nth_equalityI)
    show "length (take n (drop o2 m')) = length (take n (drop o2 m))"
      using write_bytes_length [OF w] by simp
    fix i assume "i < length (take n (drop o2 m'))"
    then have "i < n" "o2 + i < length m" using True write_bytes_length [OF w] by auto
    moreover from this have "m' ! (o2 + i) = m ! (o2 + i)"
      using nth_write_bytes [OF w, of "o2 + i"] dis by auto
    ultimately show "take n (drop o2 m') ! i = take n (drop o2 m) ! i"
      using write_bytes_length [OF w] by simp
  qed
  then show ?thesis using write_bytes_length [OF w] by (simp add: read_bytes_def)
next
  case False
  then show ?thesis using write_bytes_length [OF w] by (simp add: read_bytes_def)
qed

section \<open>Words\<close>

lemma word_diff_add_cancel [simp]: "(a :: 'a::len word) - b + b = a"
  by simp

text \<open>The conversion of an unsigned 64-bit value to a 32-bit \<open>int\<close>.\<close>

definition to_int :: "u64 \<Rightarrow> int" where
  "to_int w = sint (ucast w :: u32)"

lemma to_int_small: "uint w < 2 ^ 31 \<Longrightarrow> to_int w = uint w"
proof -
  assume "uint w < 2 ^ 31"
  moreover have "- (2 ^ 31) \<le> uint w" by (rule order_trans [OF _ uint_ge_0]) simp
  ultimately show ?thesis by (simp add: to_int_def signed_ucast_eq signed_take_bit_int_eq_self)
qed

lemma unat_of_nat_small: "n < 2 ^ LENGTH('a) \<Longrightarrow> unat (of_nat n :: 'a::len word) = n"
  by (rule of_nat_inverse) simp_all

lemma unat_pow2_small: "n < 64 \<Longrightarrow> unat (push_bit n 1 :: u64) = 2 ^ n"
proof -
  assume "n < 64"
  then have "(2::nat) ^ n < 2 ^ 64" by (intro power_strict_increasing) simp_all
  then have "unat (of_nat (2 ^ n) :: u64) = 2 ^ n" by (intro unat_of_nat_small) simp
  then show ?thesis by (simp add: push_bit_eq_mult)
qed

lemma unat_diff_le: "b \<le> (a :: 'a::len word) \<Longrightarrow> unat (a - b) = unat a - unat b"
  by (simp add: unat_sub)

lemma unat_range_end:
  fixes a :: u64
  assumes "0 < n" and "unat a + n \<le> 2 ^ 64"
  shows "unat (a + of_nat n - 1) = unat a + n - 1"
proof -
  have "a + of_nat n - 1 = of_nat (unat a + (n - 1))"
    using assms(1) by (simp add: of_nat_diff)
  moreover have "unat (of_nat (unat a + (n - 1)) :: u64) = unat a + (n - 1)"
    using assms by (intro unat_of_nat_small) simp
  ultimately show ?thesis using assms(1) by simp
qed

lemma to_int_diff:
  fixes a b :: u64
  assumes "\<bar>int (unat a) - int (unat b)\<bar> < 2 ^ 31"
  shows "to_int (a - b) = int (unat a) - int (unat b)"
proof -
  have "to_int (a - b) = signed_take_bit 31 (take_bit 64 (uint a - uint b))"
    by (simp add: to_int_def signed_ucast_eq uint_word_ariths(2) take_bit_eq_mod)
  also have "\<dots> = signed_take_bit 31 (int (unat a) - int (unat b))"
    by (simp add: signed_take_bit_take_bit)
  also have "\<dots> = int (unat a) - int (unat b)"
    using assms by (intro signed_take_bit_int_eq_self) auto
  finally show ?thesis .
qed

lemma uint_span:
  fixes x y :: u64
  assumes "y \<le> x" "unat x - unat y + 1 < 2 ^ 64"
  shows "uint (x - y + 1) = int (unat x) - int (unat y) + 1"
proof -
  have le: "unat y \<le> unat x" using assms(1) by (simp add: word_le_nat_alt)
  have "x - y + 1 = of_nat (unat x - unat y + 1)" using le by (simp add: of_nat_diff)
  moreover have "unat (of_nat (unat x - unat y + 1) :: u64) = unat x - unat y + 1"
    using assms(2) by (intro unat_of_nat_small) simp
  ultimately have "unat (x - y + 1) = unat x - unat y + 1" by (simp only:)
  moreover have "uint (x - y + 1) = int (unat (x - y + 1))" by simp
  ultimately show ?thesis using le by (simp only: of_nat_add of_nat_diff of_nat_1)
qed

lemma ucast_eq_of_nat: "(ucast (w :: u32) :: u64) = of_nat (unat w)"
  by simp

lemma unat_diff_less_iff:
  fixes x a :: u64
  assumes "unat a + n \<le> 2 ^ 64"
  shows "unat (x - a) < n \<longleftrightarrow> unat a \<le> unat x \<and> unat x < unat a + n"
proof (cases "a \<le> x")
  case True
  then show ?thesis by (auto simp: unat_diff_le word_le_nat_alt)
next
  case False
  then have lt: "unat x < unat a" by (simp add: word_le_nat_alt)
  let ?k = "2 ^ 64 + unat x - unat a"
  have le: "unat a \<le> 2 ^ 64 + unat x" using unsigned_less [of a, where 'a = nat] by simp
  have "of_nat ?k = x - a" unfolding of_nat_diff [OF le] by simp
  moreover have "unat (of_nat ?k :: u64) = ?k" using lt by (intro unat_of_nat_small) simp
  ultimately have "unat (x - a) = ?k" by (simp only:)
  then show ?thesis using lt assms by linarith
qed

lemma unat_add_of_nat:
  fixes a :: u64
  assumes "unat a + n < 2 ^ 64"
  shows "unat (a + of_nat n) = unat a + n"
  using unat_of_nat_small [where 'a = 64, of "unat a + n"] assms by simp

end
