(* ===== verification/AddrRange.thy ===== *)
theory AddrRange
  imports Prelude
begin

text \<open>
  Address ranges with optional interleaving: the class \<open>AddrRange\<close> of
  \<open>src/SMC_original/GEM5/gem5/src/base/addr_range.hh\<close> and the two bit-field helpers it calls.
  The main facts: an undecorated range holds exactly the addresses between its bounds, the
  intersection test is exact on undecorated ranges, and merging the stripes of an interleaved
  range yields the union of their addresses.
\<close>

section \<open>Bit fields\<close>

definition mask_c :: "nat \<Rightarrow> u64" where
  "mask_c nbits = (if nbits = 64 then -1 else push_bit nbits 1 - 1)"

text \<open>\<open>bits val first last\<close>; the shift distances are non-negative in every call below.\<close>

definition bits :: "u64 \<Rightarrow> nat \<Rightarrow> nat \<Rightarrow> u64" where
  "bits val first lst = drop_bit lst val AND mask_c (first + 1 - lst)"

section \<open>The range\<close>

record addr_range =
  ar_start :: Addr
  ar_end :: Addr
  intlvHighBit :: byte
  intlvBits :: byte
  intlvMatch :: byte

definition AddrRange_default :: addr_range where
  "AddrRange_default = \<lparr>ar_start = 1, ar_end = 0, intlvHighBit = 0, intlvBits = 0, intlvMatch = 0\<rparr>"

definition AddrRange_intlv :: "Addr \<Rightarrow> Addr \<Rightarrow> byte \<Rightarrow> byte \<Rightarrow> byte \<Rightarrow> addr_range" where
  "AddrRange_intlv s e hi b m =
     \<lparr>ar_start = s, ar_end = e, intlvHighBit = hi, intlvBits = b, intlvMatch = m\<rparr>"

definition mkAddrRange :: "Addr \<Rightarrow> Addr \<Rightarrow> addr_range" where
  "mkAddrRange s e =
     \<lparr>ar_start = s, ar_end = e, intlvHighBit = 0, intlvBits = 0, intlvMatch = 0\<rparr>"

definition interleaved :: "addr_range \<Rightarrow> bool" where
  "interleaved r \<longleftrightarrow> intlvBits r \<noteq> 0"

text \<open>The lowest bit of the interleaving slice, \<open>intlvHighBit - intlvBits + 1\<close> as an int.\<close>

definition intlvLowBit :: "addr_range \<Rightarrow> nat" where
  "intlvLowBit r = nat (uint (intlvHighBit r) - uint (intlvBits r) + 1)"

definition granularity :: "addr_range \<Rightarrow> u64" where
  "granularity r = push_bit (intlvLowBit r) 1"

definition stripes :: "addr_range \<Rightarrow> u32" where
  "stripes r = ucast (push_bit (unat (intlvBits r)) (1 :: u64))"

definition range_size :: "addr_range \<Rightarrow> Addr" where
  "range_size r = drop_bit (unat (intlvBits r)) (ar_end r - ar_start r + 1)"

definition range_valid :: "addr_range \<Rightarrow> bool" where
  "range_valid r \<longleftrightarrow> ar_start r \<le> ar_end r"

definition mergesWith :: "addr_range \<Rightarrow> addr_range \<Rightarrow> bool" where
  "mergesWith self r \<longleftrightarrow> ar_start r = ar_start self \<and> ar_end r = ar_end self \<and>
     intlvHighBit r = intlvHighBit self \<and> intlvBits r = intlvBits self"

definition contains :: "addr_range \<Rightarrow> Addr \<Rightarrow> bool" where
  "contains r a \<longleftrightarrow> a \<ge> ar_start r \<and> a \<le> ar_end r \<and>
     (\<not> interleaved r \<or>
      bits a (unat (intlvHighBit r)) (intlvLowBit r) = ucast (intlvMatch r))"

definition intersects :: "addr_range \<Rightarrow> addr_range \<Rightarrow> bool res" where
  "intersects self r =
     (if \<not> interleaved self
      then Inr (ar_start self \<le> ar_end r \<and> ar_end self \<ge> ar_start r)
      else if range_size r = 1 then Inr (contains self (ar_start r))
      else if \<not> interleaved r
      then Inr (ar_start self \<le> ar_end r \<and> ar_end self \<ge> ar_start r)
      else if mergesWith self r then Inr (intlvMatch self = intlvMatch r)
      else Inl (Panic ''Cannot test intersection of interleaved range''))"

definition isSubset :: "addr_range \<Rightarrow> addr_range \<Rightarrow> bool res" where
  "isSubset self r =
     (if interleaved self then Inl (Panic ''Cannot test subset of interleaved range'')
      else Inr (ar_start self \<ge> ar_start r \<and> ar_end self \<le> ar_end r))"

definition range_less :: "addr_range \<Rightarrow> addr_range \<Rightarrow> bool" where
  "range_less self r =
     (if ar_start self \<noteq> ar_start r then ar_start self < ar_start r
      else intlvMatch self < intlvMatch r)"

text \<open>The loop of the merging constructor: \<open>match\<close> is an 8-bit counter.\<close>

fun merge_check :: "addr_range \<Rightarrow> byte \<Rightarrow> addr_range list \<Rightarrow> unit res" where
  "merge_check self match [] = Inr ()"
| "merge_check self match (r # rs) =
     (if \<not> mergesWith self r
      then Inl (Fatal ''Can only merge ranges with the same start, end and interleaving bits'')
      else if intlvMatch r \<noteq> match
      then Inl (Fatal ''Expected interleave match'')
      else merge_check self (match + 1) rs)"

definition AddrRange_merge :: "addr_range list \<Rightarrow> addr_range res" where
  "AddrRange_merge ranges =
     (case ranges of
        [] \<Rightarrow> Inr AddrRange_default
      | f # _ \<Rightarrow>
          let self = AddrRange_default\<lparr>ar_start := ar_start f, ar_end := ar_end f,
                       intlvHighBit := intlvHighBit f, intlvBits := intlvBits f\<rparr> in
          if of_nat (length ranges) \<noteq> (push_bit (unat (intlvBits self)) 1 :: u64)
          then Inl (Fatal ''Got ranges spanning interleaving bits'')
          else bindR (merge_check self 0 ranges)
                 (\<lambda>_. Inr (self\<lparr>intlvHighBit := 0, intlvBits := 0\<rparr>)))"

definition RangeEx :: "Addr \<Rightarrow> Addr \<Rightarrow> addr_range" where
  "RangeEx s e = mkAddrRange s (e - 1)"

definition RangeIn :: "Addr \<Rightarrow> Addr \<Rightarrow> addr_range" where
  "RangeIn s e = mkAddrRange s e"

definition RangeSize :: "Addr \<Rightarrow> Addr \<Rightarrow> addr_range" where
  "RangeSize s n = mkAddrRange s (s + n - 1)"

lemmas range_ctor_defs = AddrRange_default_def AddrRange_intlv_def mkAddrRange_def
  RangeEx_def RangeIn_def RangeSize_def

section \<open>Undecorated ranges\<close>

lemma mkAddrRange_sel [simp]:
  "ar_start (mkAddrRange s e) = s" "ar_end (mkAddrRange s e) = e"
  "\<not> interleaved (mkAddrRange s e)" "intlvBits (mkAddrRange s e) = 0"
  by (simp_all add: mkAddrRange_def interleaved_def)

lemma contains_plain [simp]:
  "\<not> interleaved r \<Longrightarrow> contains r a \<longleftrightarrow> ar_start r \<le> a \<and> a \<le> ar_end r"
  by (simp add: contains_def)

lemma contains_bounds: "contains r a \<Longrightarrow> ar_start r \<le> a \<and> a \<le> ar_end r"
  by (simp add: contains_def)

lemma range_size_plain [simp]: "\<not> interleaved r \<Longrightarrow> range_size r = ar_end r - ar_start r + 1"
  by (simp add: range_size_def interleaved_def)

lemma contains_range_set: "\<not> interleaved r \<Longrightarrow> {a. contains r a} = {ar_start r..ar_end r}"
  by auto

lemma intersects_plain_iff:
  assumes "\<not> interleaved r" "\<not> interleaved s" "range_valid r" "range_valid s"
  shows "intersects r s = Inr (\<exists>a. contains r a \<and> contains s a)"
proof -
  have "(ar_start r \<le> ar_end s \<and> ar_end r \<ge> ar_start s)
        \<longleftrightarrow> (\<exists>a. contains r a \<and> contains s a)"
  proof
    assume h: "ar_start r \<le> ar_end s \<and> ar_end r \<ge> ar_start s"
    let ?a = "max (ar_start r) (ar_start s)"
    have "contains r ?a \<and> contains s ?a"
      using h assms by (auto simp: range_valid_def max_def)
    then show "\<exists>a. contains r a \<and> contains s a" ..
  next
    assume "\<exists>a. contains r a \<and> contains s a"
    then show "ar_start r \<le> ar_end s \<and> ar_end r \<ge> ar_start s"
      using assms by auto
  qed
  then show ?thesis using assms(1) by (simp add: intersects_def)
qed

lemma isSubset_plain_iff:
  assumes "\<not> interleaved r" "range_valid r" "\<not> interleaved s"
  shows "isSubset r s = Inr (\<forall>a. contains r a \<longrightarrow> contains s a)"
proof -
  have "(ar_start r \<ge> ar_start s \<and> ar_end r \<le> ar_end s)
        \<longleftrightarrow> (\<forall>a. contains r a \<longrightarrow> contains s a)" (is "?A \<longleftrightarrow> ?B")
  proof
    assume ?A
    then show ?B using assms by (auto intro: order_trans)
  next
    assume h: ?B
    have "contains r (ar_start r)" and "contains r (ar_end r)"
      using assms by (simp_all add: range_valid_def)
    with h have "contains s (ar_start r)" "contains s (ar_end r)" by blast+
    then show ?A using assms by simp
  qed
  then show ?thesis using assms(1) by (simp add: isSubset_def)
qed

lemma range_less_irrefl: "\<not> range_less r r"
  by (simp add: range_less_def)

lemma range_less_trans: "range_less r s \<Longrightarrow> range_less s t \<Longrightarrow> range_less r t"
  by (auto simp: range_less_def split: if_splits)

section \<open>Merging interleaved ranges\<close>

lemma bits_eq_take_bit:
  "bits val first lst = take_bit (first + 1 - lst) (drop_bit lst val)"
proof -
  have "mask_c n = mask n" for n
    by (cases "n = 64") (simp_all add: mask_c_def mask_eq_exp_minus_1 push_bit_eq_mult)
  then show ?thesis by (simp add: bits_def take_bit_eq_mask)
qed

lemma merge_check_sound:
  "merge_check self m rs = Inr () \<Longrightarrow> i < length rs \<Longrightarrow>
     mergesWith self (rs ! i) \<and> intlvMatch (rs ! i) = m + of_nat i"
proof (induction rs arbitrary: m i)
  case Nil
  then show ?case by simp
next
  case (Cons r rs)
  then show ?case by (cases i) (auto split: if_splits simp: algebra_simps)
qed

text \<open>
  The slice fits the address and the match values fit their byte: what the configuration
  scripts guarantee, and what the shifts of \<open>contains\<close> need to be defined.
\<close>

definition slice_ok :: "addr_range \<Rightarrow> bool" where
  "slice_ok r \<longleftrightarrow> unat (intlvBits r) \<le> unat (intlvHighBit r) + 1 \<and>
     unat (intlvHighBit r) < 64 \<and> unat (intlvBits r) \<le> 8"

lemma slice_width:
  "slice_ok r \<Longrightarrow> unat (intlvHighBit r) + 1 - intlvLowBit r = unat (intlvBits r)"
proof -
  assume ok: "slice_ok r"
  have "uint (intlvHighBit r) = int (unat (intlvHighBit r))"
    and "uint (intlvBits r) = int (unat (intlvBits r))" by simp_all
  then show ?thesis using ok unfolding slice_ok_def intlvLowBit_def by arith
qed

lemma bits_slice_less:
  assumes "slice_ok r"
  shows "unat (bits a (unat (intlvHighBit r)) (intlvLowBit r)) < 2 ^ unat (intlvBits r)"
  using slice_width [OF assms] by (simp add: bits_eq_take_bit unsigned_take_bit_eq)

lemma ucast_byte_eq_iff: "(w :: u64) = ucast (of_nat n :: byte) \<longleftrightarrow> unat w = n" if "n < 256"
  using that by (auto simp: word_unat_eq_iff unat_of_nat unsigned_ucast_eq take_bit_nat_eq_self)

lemma contains_mergesWith:
  assumes "mergesWith self r" and "slice_ok self"
    and m: "intlvMatch r = of_nat i" and i: "i < 256"
  shows "contains r a \<longleftrightarrow> ar_start self \<le> a \<and> a \<le> ar_end self \<and>
     (intlvBits self = 0 \<or>
      unat (bits a (unat (intlvHighBit self)) (intlvLowBit self)) = i)"
  using assms(1) ucast_byte_eq_iff [OF i] m
  by (simp add: contains_def mergesWith_def interleaved_def intlvLowBit_def)

text \<open>C32: when the merging constructor accepts a list of interleaved ranges whose slice fits
  an address, the merged range holds exactly the addresses that some stripe holds, and every
  such address belongs to exactly one stripe.\<close>

theorem AddrRange_merge_partition:
  assumes merged: "AddrRange_merge rs = Inr r" and ne: "rs \<noteq> []"
    and ok: "slice_ok (hd rs)" and il: "interleaved (hd rs)" and fits: "length rs < 2 ^ 64"
  shows "contains r a \<longleftrightarrow> (\<exists>!i. i < length rs \<and> contains (rs ! i) a)"
proof -
  obtain f rest where rs: "rs = f # rest" using ne by (cases rs) auto
  define self where "self = AddrRange_default\<lparr>ar_start := ar_start f, ar_end := ar_end f,
      intlvHighBit := intlvHighBit f, intlvBits := intlvBits f\<rparr>"
  let ?b = "unat (intlvBits self)"
  let ?v = "unat (bits a (unat (intlvHighBit self)) (intlvLowBit self))"
  have sok: "slice_ok self" using ok by (simp add: rs self_def slice_ok_def)
  from merged have len: "of_nat (length rs) = (push_bit ?b 1 :: u64)"
    and chk: "merge_check self 0 rs = Inr ()"
    and r: "r = self\<lparr>intlvHighBit := 0, intlvBits := 0\<rparr>"
    by (auto simp: AddrRange_merge_def rs self_def Let_def split: if_splits)
  have nz: "intlvBits self \<noteq> 0" using il by (simp add: rs self_def interleaved_def)
  have stripe: "contains (rs ! i) a \<longleftrightarrow>
      ar_start self \<le> a \<and> a \<le> ar_end self \<and> ?v = i" if "i < length rs" "i < 256" for i
    using contains_mergesWith [OF _ sok _ that(2)] merge_check_sound [OF chk that(1)] nz by simp
  have whole: "contains r a \<longleftrightarrow> ar_start self \<le> a \<and> a \<le> ar_end self"
    by (simp add: r contains_def interleaved_def)
  have lrs: "length rs = 2 ^ ?b"
    using arg_cong [OF len, of unat] fits sok unat_pow2_small [of ?b]
    by (simp add: slice_ok_def unat_of_nat_small)
  have "(2::nat) ^ ?b \<le> 2 ^ 8"
    using sok by (intro power_increasing) (simp_all add: slice_ok_def)
  then have stripes: "i < length rs \<Longrightarrow> contains (rs ! i) a \<longleftrightarrow>
      ar_start self \<le> a \<and> a \<le> ar_end self \<and> ?v = i" for i
    using stripe [of i] lrs by simp
  have v: "?v < length rs" using bits_slice_less [OF sok] lrs by simp
  show ?thesis
  proof
    assume "contains r a"
    then show "\<exists>!i. i < length rs \<and> contains (rs ! i) a"
      using v whole stripes by (intro ex1I [of _ ?v]) auto
  next
    assume "\<exists>!i. i < length rs \<and> contains (rs ! i) a"
    then show "contains r a" using whole stripes by auto
  qed
qed

text \<open>Two stripes of a two-way interleaved range merge into the whole range.\<close>

theorem AddrRange_merge_partition_witness:
  "let rs = [AddrRange_intlv 0 255 6 1 0, AddrRange_intlv 0 255 6 1 1] in
   contains (mkAddrRange 0 255) 70 \<longleftrightarrow> (\<exists>!i. i < length rs \<and> contains (rs ! i) 70)"
proof -
  let ?rs = "[AddrRange_intlv 0 255 6 1 0, AddrRange_intlv 0 255 6 1 1]"
  have "AddrRange_merge ?rs = Inr (mkAddrRange 0 255)"
    by (simp add: AddrRange_merge_def range_ctor_defs mergesWith_def)
  moreover have "slice_ok (hd ?rs)" "interleaved (hd ?rs)"
    by (simp_all add: slice_ok_def interleaved_def AddrRange_intlv_def)
  ultimately show ?thesis
    using AddrRange_merge_partition [of ?rs "mkAddrRange 0 255" 70] by (simp add: Let_def)
qed

end
