(* ===== verification/Request.thy ===== *)
theory Request
  imports Prelude
begin

text \<open>
  Flag sets (\<open>base/flags.hh\<close>) and memory requests (\<open>mem/request.hh\<close>, both under
  \<open>src/SMC_original/GEM5/gem5/src\<close>). The record keeps the fields that the memory system of
  the processing-in-memory device reads; the accessors carry the assertions of the source.
\<close>

section \<open>Flags\<close>

definition fl_isSet :: "'a::len word \<Rightarrow> 'a word \<Rightarrow> bool" where
  "fl_isSet f m \<longleftrightarrow> f AND m \<noteq> 0"

definition fl_allSet :: "'a::len word \<Rightarrow> 'a word \<Rightarrow> bool" where
  "fl_allSet f m \<longleftrightarrow> f AND m = m"

definition fl_noneSet :: "'a::len word \<Rightarrow> 'a word \<Rightarrow> bool" where
  "fl_noneSet f m \<longleftrightarrow> f AND m = 0"

definition fl_clear :: "'a::len word \<Rightarrow> 'a word \<Rightarrow> 'a word" where
  "fl_clear f m = f AND NOT m"

definition fl_set :: "'a::len word \<Rightarrow> 'a word \<Rightarrow> 'a word" where
  "fl_set f m = f OR m"

definition fl_setTo :: "'a::len word \<Rightarrow> 'a word \<Rightarrow> bool \<Rightarrow> 'a word" where
  "fl_setTo f m v = (f AND NOT m) OR (if v then m else 0)"

definition fl_update :: "'a::len word \<Rightarrow> 'a word \<Rightarrow> 'a word \<Rightarrow> 'a word" where
  "fl_update f g m = (f AND NOT m) OR (g AND m)"

lemmas fl_defs = fl_isSet_def fl_allSet_def fl_noneSet_def fl_clear_def fl_set_def
  fl_setTo_def fl_update_def

lemma fl_noneSet_iff: "fl_noneSet f m \<longleftrightarrow> \<not> fl_isSet f m"
  by (simp add: fl_defs)

lemma fl_isSet_set: "fl_isSet (fl_set f m) n \<longleftrightarrow> fl_isSet f n \<or> m AND n \<noteq> 0"
  unfolding fl_isSet_def fl_set_def bit.conj_disj_distrib2 by (auto simp: or_eq_0_iff)

lemma fl_isSet_clear_other: "m AND n = 0 \<Longrightarrow> fl_isSet (fl_clear f m) n \<longleftrightarrow> fl_isSet f n"
proof -
  assume d: "m AND n = 0"
  have "(f AND NOT m) AND n = f AND n"
  proof (rule bit_word_eqI)
    fix i assume "i < LENGTH('a)"
    have "\<not> bit (m AND n) i" by (simp add: d)
    then have "\<not> (bit m i \<and> bit n i)" by (simp add: bit_simps)
    then show "bit ((f AND NOT m) AND n) i = bit (f AND n) i"
      using \<open>i < LENGTH('a)\<close> by (auto simp: bit_simps)
  qed
  then show ?thesis by (simp add: fl_defs)
qed

lemma fl_isSet_clear_self: "\<not> fl_isSet (fl_clear f m) m"
  by (simp add: fl_defs word_bw_assocs)

section \<open>Requests\<close>

definition INST_FETCH :: u32 where "INST_FETCH = 0x100"
definition UNCACHEABLE :: u32 where "UNCACHEABLE = 0x1000"
definition LLSC :: u32 where "LLSC = 0x200000"
definition MEM_SWAP :: u32 where "MEM_SWAP = 0x400000"
definition MEM_SWAP_COND :: u32 where "MEM_SWAP_COND = 0x800000"
definition PREFETCH :: u32 where "PREFETCH = 0x1000000"
definition SECURE :: u32 where "SECURE = 0x10000000"
definition STICKY_FLAGS :: u32 where "STICKY_FLAGS = INST_FETCH"

definition RQ_VALID_SIZE :: byte where "RQ_VALID_SIZE = 0x01"
definition RQ_VALID_PADDR :: byte where "RQ_VALID_PADDR = 0x02"
definition RQ_VALID_VADDR :: byte where "RQ_VALID_VADDR = 0x04"
definition RQ_VALID_PC :: byte where "RQ_VALID_PC = 0x10"
definition RQ_VALID_CONTEXT_ID :: byte where "RQ_VALID_CONTEXT_ID = 0x20"
definition RQ_VALID_THREAD_ID :: byte where "RQ_VALID_THREAD_ID = 0x40"
definition RQ_VALID_EXTRA_DATA :: byte where "RQ_VALID_EXTRA_DATA = 0x80"
definition STICKY_PRIVATE_FLAGS :: byte where
  "STICKY_PRIVATE_FLAGS = RQ_VALID_CONTEXT_ID OR RQ_VALID_THREAD_ID"

lemmas rq_flag_defs = INST_FETCH_def UNCACHEABLE_def LLSC_def MEM_SWAP_def MEM_SWAP_COND_def
  PREFETCH_def SECURE_def STICKY_FLAGS_def RQ_VALID_SIZE_def RQ_VALID_PADDR_def
  RQ_VALID_VADDR_def RQ_VALID_PC_def RQ_VALID_CONTEXT_ID_def RQ_VALID_THREAD_ID_def
  RQ_VALID_EXTRA_DATA_def STICKY_PRIVATE_FLAGS_def

text \<open>
  The fields of a request. \<open>_taskId\<close> is a statistics tag; \<open>translateDelta\<close>, \<open>depth\<close> and
  \<open>accessDelta\<close>, which only statistics read, are left out.
\<close>

record request =
  rq_paddr :: Addr
  rq_size :: int
  rq_masterId :: nat
  rq_flags :: u32
  rq_privateFlags :: byte
  rq_time :: Tick
  rq_taskId :: u32
  rq_asid :: int
  rq_vaddr :: Addr
  rq_extraData :: u64
  rq_contextId :: int
  rq_threadId :: int
  rq_pc :: Addr

text \<open>\<open>Request()\<close>: the default constructor; \<open>USHRT_MAX\<close> is the invalid master.\<close>

definition Request0 :: request where
  "Request0 = \<lparr>rq_paddr = 0, rq_size = 0, rq_masterId = 65535, rq_flags = 0,
     rq_privateFlags = 0, rq_time = 0, rq_taskId = 1024, rq_asid = 0, rq_vaddr = 0, rq_extraData = 0,
     rq_contextId = 0, rq_threadId = 0, rq_pc = 0\<rparr>"

definition setPhys :: "request \<Rightarrow> Addr \<Rightarrow> int \<Rightarrow> u32 \<Rightarrow> nat \<Rightarrow> Tick \<Rightarrow> request res" where
  "setPhys r paddr sz flags mid time =
     assertR (sz \<ge> 0) ''size >= 0''
       (Inr (r\<lparr>rq_paddr := paddr, rq_size := sz, rq_time := time, rq_masterId := mid,
               rq_flags := fl_set (fl_clear (rq_flags r) (NOT STICKY_FLAGS)) flags,
               rq_privateFlags :=
                 fl_set (fl_clear (rq_privateFlags r) (NOT STICKY_PRIVATE_FLAGS))
                   (RQ_VALID_PADDR OR RQ_VALID_SIZE)\<rparr>))"

definition setVirt ::
    "request \<Rightarrow> int \<Rightarrow> Addr \<Rightarrow> int \<Rightarrow> u32 \<Rightarrow> nat \<Rightarrow> Addr \<Rightarrow> Tick \<Rightarrow> request res" where
  "setVirt r asid vaddr sz flags mid pc curTick =
     assertR (sz \<ge> 0) ''size >= 0''
       (Inr (r\<lparr>rq_asid := asid, rq_vaddr := vaddr, rq_size := sz, rq_masterId := mid,
               rq_pc := pc, rq_time := curTick,
               rq_flags := fl_set (fl_clear (rq_flags r) (NOT STICKY_FLAGS)) flags,
               rq_privateFlags :=
                 fl_set (fl_clear (rq_privateFlags r) (NOT STICKY_PRIVATE_FLAGS))
                   (RQ_VALID_VADDR OR RQ_VALID_SIZE OR RQ_VALID_PC)\<rparr>))"

definition setThreadContext :: "request \<Rightarrow> int \<Rightarrow> int \<Rightarrow> request" where
  "setThreadContext r cid tid =
     r\<lparr>rq_contextId := cid, rq_threadId := tid,
       rq_privateFlags := fl_set (rq_privateFlags r) (RQ_VALID_CONTEXT_ID OR RQ_VALID_THREAD_ID)\<rparr>"

definition setPaddr :: "request \<Rightarrow> Addr \<Rightarrow> request" where
  "setPaddr r a = r\<lparr>rq_paddr := a, rq_privateFlags := fl_set (rq_privateFlags r) RQ_VALID_PADDR\<rparr>"

text \<open>\<open>Request(paddr, size, flags, mid)\<close> and \<open>Request(asid, vaddr, size, flags, mid, pc, cid, tid)\<close>.\<close>

definition Request_phys :: "Addr \<Rightarrow> int \<Rightarrow> u32 \<Rightarrow> nat \<Rightarrow> Tick \<Rightarrow> request res" where
  "Request_phys paddr sz flags mid curTick = setPhys Request0 paddr sz flags mid curTick"

definition Request_virt ::
    "int \<Rightarrow> Addr \<Rightarrow> int \<Rightarrow> u32 \<Rightarrow> nat \<Rightarrow> Addr \<Rightarrow> int \<Rightarrow> int \<Rightarrow> Tick \<Rightarrow> request res" where
  "Request_virt asid vaddr sz flags mid pc cid tid curTick =
     bindR (setVirt Request0 asid vaddr sz flags mid pc curTick)
       (\<lambda>r. Inr (setThreadContext r cid tid))"

definition splitOnVaddr :: "request \<Rightarrow> Addr \<Rightarrow> (request \<times> request) res" where
  "splitOnVaddr r split_addr =
     assertR (fl_isSet (rq_privateFlags r) RQ_VALID_VADDR) ''VALID_VADDR''
    (assertR (fl_noneSet (rq_privateFlags r) RQ_VALID_PADDR) ''noneSet(VALID_PADDR)''
    (assertR (split_addr > rq_vaddr r \<and> split_addr < rq_vaddr r + of_int (rq_size r)) ''split_addr''
       (let s1 = to_int (split_addr - rq_vaddr r) in
        Inr (r\<lparr>rq_size := s1\<rparr>,
             r\<lparr>rq_vaddr := split_addr, rq_size := rq_size r - s1\<rparr>))))"

definition hasPaddr :: "request \<Rightarrow> bool" where
  "hasPaddr r \<longleftrightarrow> fl_isSet (rq_privateFlags r) RQ_VALID_PADDR"

definition hasSize :: "request \<Rightarrow> bool" where
  "hasSize r \<longleftrightarrow> fl_isSet (rq_privateFlags r) RQ_VALID_SIZE"

definition getPaddr :: "request \<Rightarrow> Addr res" where
  "getPaddr r = assertR (fl_isSet (rq_privateFlags r) RQ_VALID_PADDR) ''VALID_PADDR'' (Inr (rq_paddr r))"

definition rq_getSize :: "request \<Rightarrow> int res" where
  "rq_getSize r = assertR (fl_isSet (rq_privateFlags r) RQ_VALID_SIZE) ''VALID_SIZE'' (Inr (rq_size r))"

definition getExtraData :: "request \<Rightarrow> u64 res" where
  "getExtraData r =
     assertR (fl_isSet (rq_privateFlags r) RQ_VALID_EXTRA_DATA) ''VALID_EXTRA_DATA'' (Inr (rq_extraData r))"

definition setExtraData :: "request \<Rightarrow> u64 \<Rightarrow> request" where
  "setExtraData r v =
     r\<lparr>rq_extraData := v, rq_privateFlags := fl_set (rq_privateFlags r) RQ_VALID_EXTRA_DATA\<rparr>"

definition contextId :: "request \<Rightarrow> int res" where
  "contextId r =
     assertR (fl_isSet (rq_privateFlags r) RQ_VALID_CONTEXT_ID) ''VALID_CONTEXT_ID'' (Inr (rq_contextId r))"

definition rq_isUncacheable :: "request \<Rightarrow> bool" where
  "rq_isUncacheable r \<longleftrightarrow> fl_isSet (rq_flags r) UNCACHEABLE"

definition rq_isInstFetch :: "request \<Rightarrow> bool" where
  "rq_isInstFetch r \<longleftrightarrow> fl_isSet (rq_flags r) INST_FETCH"

definition rq_isPrefetch :: "request \<Rightarrow> bool" where
  "rq_isPrefetch r \<longleftrightarrow> fl_isSet (rq_flags r) PREFETCH"

definition rq_isLLSC :: "request \<Rightarrow> bool" where
  "rq_isLLSC r \<longleftrightarrow> fl_isSet (rq_flags r) LLSC"

definition rq_isSwap :: "request \<Rightarrow> bool" where
  "rq_isSwap r \<longleftrightarrow> fl_isSet (rq_flags r) (MEM_SWAP OR MEM_SWAP_COND)"

definition rq_isCondSwap :: "request \<Rightarrow> bool" where
  "rq_isCondSwap r \<longleftrightarrow> fl_isSet (rq_flags r) MEM_SWAP_COND"

definition rq_isSecure :: "request \<Rightarrow> bool" where
  "rq_isSecure r \<longleftrightarrow> fl_isSet (rq_flags r) SECURE"

lemmas rq_test_defs = rq_isUncacheable_def rq_isInstFetch_def rq_isPrefetch_def rq_isLLSC_def
  rq_isSwap_def rq_isCondSwap_def rq_isSecure_def hasPaddr_def hasSize_def getPaddr_def
  rq_getSize_def getExtraData_def contextId_def

lemma Request_phys_sel:
  assumes "Request_phys a n fl mid t = Inr r"
  shows "rq_paddr r = a" "rq_size r = n" "rq_masterId r = mid" "rq_flags r = fl"
    "hasPaddr r" "hasSize r" "0 \<le> n"
  using assms
  by (auto simp: Request_phys_def setPhys_def Request0_def fl_defs rq_flag_defs hasPaddr_def hasSize_def)

lemma Request_phys_ok: "0 \<le> n \<Longrightarrow> \<exists>r. Request_phys a n fl mid t = Inr r"
  by (simp add: Request_phys_def setPhys_def)

text \<open>C39: splitting an untranslated request at an interior address yields two requests whose
  virtual ranges are adjacent and together cover exactly the range of the original one.\<close>

theorem splitOnVaddr_covers:
  assumes split: "splitOnVaddr r s = Inr (r1, r2)"
    and fits: "uint (rq_vaddr r) + rq_size r < 2 ^ 64"
    and int: "0 \<le> rq_size r" "rq_size r < 2 ^ 31"
  shows "rq_vaddr r1 = rq_vaddr r \<and> rq_vaddr r2 = s \<and>
    rq_vaddr r1 + of_int (rq_size r1) = rq_vaddr r2 \<and>
    rq_size r1 + rq_size r2 = rq_size r \<and> 0 < rq_size r1 \<and> 0 < rq_size r2"
proof -
  from split have lt: "rq_vaddr r < s" "s < rq_vaddr r + of_int (rq_size r)"
    and r1: "r1 = r\<lparr>rq_size := to_int (s - rq_vaddr r)\<rparr>"
    and r2: "r2 = r\<lparr>rq_vaddr := s, rq_size := rq_size r - to_int (s - rq_vaddr r)\<rparr>"
    by (auto simp: splitOnVaddr_def Let_def)
  have d: "uint (s - rq_vaddr r) = uint s - uint (rq_vaddr r)"
    using lt(1) uint_sub_lem [of "rq_vaddr r" s] by (simp add: word_less_def)
  have "uint (rq_vaddr r + of_int (rq_size r)) = uint (rq_vaddr r) + rq_size r"
    using fits int by (simp add: uint_word_ariths(1) uint_word_of_int)
  then have s: "uint s < uint (rq_vaddr r) + rq_size r" using lt(2) by (simp add: word_less_def)
  then have "to_int (s - rq_vaddr r) = uint s - uint (rq_vaddr r)"
    using to_int_small [of "s - rq_vaddr r"] d int by simp
  moreover have "word_of_int (uint s - uint (rq_vaddr r)) = s - rq_vaddr r"
    by (simp add: d [symmetric])
  ultimately show ?thesis using lt(1) s by (simp add: r1 r2 word_less_def)
qed

text \<open>An eight-byte access at 0x1ffc, split at the page boundary.\<close>

theorem splitOnVaddr_covers_witness:
  "\<exists>r r1 r2. splitOnVaddr r 0x2000 = Inr (r1, r2) \<and> rq_vaddr r = 0x1ffc \<and> rq_size r = 8 \<and>
     rq_size r1 + rq_size r2 = 8"
proof -
  obtain r where r: "Request_virt 0 0x1ffc 8 0 0 0 0 0 0 = Inr r"
    and sel: "rq_vaddr r = 0x1ffc" "rq_size r = 8"
    by (simp add: Request_virt_def setVirt_def setThreadContext_def Request0_def)
  have "rq_privateFlags r = 0x75"
    using r by (auto simp: Request_virt_def setVirt_def setThreadContext_def Request0_def fl_defs rq_flag_defs)
  then obtain r1 r2 where "splitOnVaddr r 0x2000 = Inr (r1, r2)"
    using sel by (simp add: splitOnVaddr_def fl_defs rq_flag_defs Let_def)
  then show ?thesis using splitOnVaddr_covers [of r "0x2000" r1 r2] sel by auto
qed

end
