(* ===== verification/Packet.thy ===== *)
theory Packet
  imports Request
begin

text \<open>
  Packets of the memory system: \<open>mem/packet.hh\<close> and \<open>mem/packet.cc\<close> under
  \<open>src/SMC_original/GEM5/gem5/src\<close>. A packet carries a command from the table \<open>commandInfo\<close>, an
  address, a payload held by value and a stack of sender states. The assertions of the
  accessors \<open>getAddr\<close> and \<open>getSize\<close> hold of every packet the constructors make
  (\<open>Packet_new_wf\<close>) and no operation clears the flags they test, so later theories read the
  fields directly. Printing (\<open>PrintReqState\<close>) is left out: it only writes to a stream.
\<close>

section \<open>Commands\<close>

datatype mem_cmd =
    InvalidCmd | ReadReq | ReadResp | ReadRespWithInvalidate | WriteReq | WriteResp | Writeback
  | SoftPFReq | HardPFReq | SoftPFResp | HardPFResp | WriteInvalidateReq | WriteInvalidateResp
  | UpgradeReq | SCUpgradeReq | UpgradeResp | SCUpgradeFailReq | UpgradeFailResp
  | ReadExReq | ReadExResp | LoadLockedReq | StoreCondReq | StoreCondFailReq | StoreCondResp
  | SwapReq | SwapResp | MessageReq | MessageResp
  | InvalidDestError | BadAddressError | FunctionalReadError | FunctionalWriteError
  | PrintReq | FlushReq | InvalidationReq

datatype cmd_attr =
    IsRead | IsWrite | IsUpgrade | IsInvalidate | NeedsExclusive | IsRequest | IsResponse
  | NeedsResponse | IsSWPrefetch | IsHWPrefetch | IsLlsc | HasData | IsError | IsPrint | IsFlush

record command_info =
  attributes :: "cmd_attr list"
  response :: mem_cmd
  cmd_str :: string

definition CmdInfo :: "cmd_attr list \<Rightarrow> mem_cmd \<Rightarrow> string \<Rightarrow> command_info" where
  "CmdInfo as r s = \<lparr>attributes = as, response = r, cmd_str = s\<rparr>"

fun commandInfo :: "mem_cmd \<Rightarrow> command_info" where
  "commandInfo InvalidCmd = CmdInfo [] InvalidCmd ''InvalidCmd''"
| "commandInfo ReadReq = CmdInfo [IsRead, IsRequest, NeedsResponse] ReadResp ''ReadReq''"
| "commandInfo ReadResp = CmdInfo [IsRead, IsResponse, HasData] InvalidCmd ''ReadResp''"
| "commandInfo ReadRespWithInvalidate =
     CmdInfo [IsRead, IsResponse, HasData, IsInvalidate] InvalidCmd ''ReadRespWithInvalidate''"
| "commandInfo WriteReq =
     CmdInfo [IsWrite, NeedsExclusive, IsRequest, NeedsResponse, HasData] WriteResp ''WriteReq''"
| "commandInfo WriteResp = CmdInfo [IsWrite, NeedsExclusive, IsResponse] InvalidCmd ''WriteResp''"
| "commandInfo Writeback =
     CmdInfo [IsWrite, NeedsExclusive, IsRequest, HasData] InvalidCmd ''Writeback''"
| "commandInfo SoftPFReq =
     CmdInfo [IsRead, IsRequest, IsSWPrefetch, NeedsResponse] SoftPFResp ''SoftPFReq''"
| "commandInfo HardPFReq =
     CmdInfo [IsRead, IsRequest, IsHWPrefetch, NeedsResponse] HardPFResp ''HardPFReq''"
| "commandInfo SoftPFResp =
     CmdInfo [IsRead, IsResponse, IsSWPrefetch, HasData] InvalidCmd ''SoftPFResp''"
| "commandInfo HardPFResp =
     CmdInfo [IsRead, IsResponse, IsHWPrefetch, HasData] InvalidCmd ''HardPFResp''"
| "commandInfo WriteInvalidateReq =
     CmdInfo [IsWrite, NeedsExclusive, IsInvalidate, IsRequest, HasData, NeedsResponse]
       WriteInvalidateResp ''WriteInvalidateReq''"
| "commandInfo WriteInvalidateResp =
     CmdInfo [IsWrite, NeedsExclusive, IsResponse] InvalidCmd ''WriteInvalidateResp''"
| "commandInfo UpgradeReq =
     CmdInfo [IsInvalidate, NeedsExclusive, IsUpgrade, IsRequest, NeedsResponse]
       UpgradeResp ''UpgradeReq''"
| "commandInfo SCUpgradeReq =
     CmdInfo [IsInvalidate, NeedsExclusive, IsUpgrade, IsLlsc, IsRequest, NeedsResponse]
       UpgradeResp ''SCUpgradeReq''"
| "commandInfo UpgradeResp =
     CmdInfo [NeedsExclusive, IsUpgrade, IsResponse] InvalidCmd ''UpgradeResp''"
| "commandInfo SCUpgradeFailReq =
     CmdInfo [IsRead, NeedsExclusive, IsInvalidate, IsLlsc, IsRequest, NeedsResponse]
       UpgradeFailResp ''SCUpgradeFailReq''"
| "commandInfo UpgradeFailResp =
     CmdInfo [IsRead, NeedsExclusive, IsResponse, HasData] InvalidCmd ''UpgradeFailResp''"
| "commandInfo ReadExReq =
     CmdInfo [IsRead, NeedsExclusive, IsInvalidate, IsRequest, NeedsResponse]
       ReadExResp ''ReadExReq''"
| "commandInfo ReadExResp =
     CmdInfo [IsRead, NeedsExclusive, IsResponse, HasData] InvalidCmd ''ReadExResp''"
| "commandInfo LoadLockedReq =
     CmdInfo [IsRead, IsLlsc, IsRequest, NeedsResponse] ReadResp ''LoadLockedReq''"
| "commandInfo StoreCondReq =
     CmdInfo [IsWrite, NeedsExclusive, IsLlsc, IsRequest, NeedsResponse, HasData]
       StoreCondResp ''StoreCondReq''"
| "commandInfo StoreCondFailReq =
     CmdInfo [IsWrite, NeedsExclusive, IsLlsc, IsRequest, NeedsResponse, HasData]
       StoreCondResp ''StoreCondFailReq''"
| "commandInfo StoreCondResp =
     CmdInfo [IsWrite, NeedsExclusive, IsLlsc, IsResponse] InvalidCmd ''StoreCondResp''"
| "commandInfo SwapReq =
     CmdInfo [IsRead, IsWrite, NeedsExclusive, IsRequest, HasData, NeedsResponse]
       SwapResp ''SwapReq''"
| "commandInfo SwapResp =
     CmdInfo [IsRead, IsWrite, NeedsExclusive, IsResponse, HasData] InvalidCmd ''SwapResp''"
| "commandInfo MessageReq =
     CmdInfo [IsWrite, IsRequest, NeedsResponse, HasData] MessageResp ''MessageReq''"
| "commandInfo MessageResp = CmdInfo [IsWrite, IsResponse] InvalidCmd ''MessageResp''"
| "commandInfo InvalidDestError = CmdInfo [IsResponse, IsError] InvalidCmd ''InvalidDestError''"
| "commandInfo BadAddressError = CmdInfo [IsResponse, IsError] InvalidCmd ''BadAddressError''"
| "commandInfo FunctionalReadError =
     CmdInfo [IsRead, IsResponse, IsError] InvalidCmd ''FunctionalReadError''"
| "commandInfo FunctionalWriteError =
     CmdInfo [IsWrite, IsResponse, IsError] InvalidCmd ''FunctionalWriteError''"
| "commandInfo PrintReq = CmdInfo [IsRequest, IsPrint] InvalidCmd ''PrintReq''"
| "commandInfo FlushReq = CmdInfo [IsRequest, IsFlush, NeedsExclusive] InvalidCmd ''FlushReq''"
| "commandInfo InvalidationReq =
     CmdInfo [NeedsExclusive, IsInvalidate, IsRequest] InvalidCmd ''InvalidationReq''"

definition testCmdAttrib :: "mem_cmd \<Rightarrow> cmd_attr \<Rightarrow> bool" where
  "testCmdAttrib c a \<longleftrightarrow> a \<in> set (attributes (commandInfo c))"

definition responseCommand :: "mem_cmd \<Rightarrow> mem_cmd" where
  "responseCommand c = response (commandInfo c)"

definition cmd_isRead :: "mem_cmd \<Rightarrow> bool" where "cmd_isRead c = testCmdAttrib c IsRead"
definition cmd_isWrite :: "mem_cmd \<Rightarrow> bool" where "cmd_isWrite c = testCmdAttrib c IsWrite"
definition cmd_isRequest :: "mem_cmd \<Rightarrow> bool" where "cmd_isRequest c = testCmdAttrib c IsRequest"
definition cmd_isResponse :: "mem_cmd \<Rightarrow> bool" where "cmd_isResponse c = testCmdAttrib c IsResponse"
definition cmd_needsResponse :: "mem_cmd \<Rightarrow> bool" where
  "cmd_needsResponse c = testCmdAttrib c NeedsResponse"
definition cmd_isInvalidate :: "mem_cmd \<Rightarrow> bool" where
  "cmd_isInvalidate c = testCmdAttrib c IsInvalidate"
definition cmd_hasData :: "mem_cmd \<Rightarrow> bool" where "cmd_hasData c = testCmdAttrib c HasData"
definition cmd_isLLSC :: "mem_cmd \<Rightarrow> bool" where "cmd_isLLSC c = testCmdAttrib c IsLlsc"
definition cmd_isError :: "mem_cmd \<Rightarrow> bool" where "cmd_isError c = testCmdAttrib c IsError"
definition cmd_isPrint :: "mem_cmd \<Rightarrow> bool" where "cmd_isPrint c = testCmdAttrib c IsPrint"

lemmas cmd_defs = testCmdAttrib_def responseCommand_def cmd_isRead_def cmd_isWrite_def
  cmd_isRequest_def cmd_isResponse_def cmd_needsResponse_def cmd_isInvalidate_def
  cmd_hasData_def cmd_isLLSC_def cmd_isError_def cmd_isPrint_def CmdInfo_def

section \<open>Packets\<close>

definition SHARED :: u32 where "SHARED = 0x1"
definition EXPRESS_SNOOP :: u32 where "EXPRESS_SNOOP = 0x2"
definition SUPPLY_EXCLUSIVE :: u32 where "SUPPLY_EXCLUSIVE = 0x4"
definition MEM_INHIBIT :: u32 where "MEM_INHIBIT = 0x8"
definition VALID_ADDR :: u32 where "VALID_ADDR = 0x100"
definition VALID_SIZE :: u32 where "VALID_SIZE = 0x200"
definition STATIC_DATA :: u32 where "STATIC_DATA = 0x1000"
definition DYNAMIC_DATA :: u32 where "DYNAMIC_DATA = 0x2000"
definition ARRAY_DATA :: u32 where "ARRAY_DATA = 0x4000"
definition COPY_FLAGS :: u32 where "COPY_FLAGS = 0xF"

lemmas pkt_flag_defs = SHARED_def EXPRESS_SNOOP_def SUPPLY_EXCLUSIVE_def MEM_INHIBIT_def
  VALID_ADDR_def VALID_SIZE_def STATIC_DATA_def DYNAMIC_DATA_def ARRAY_DATA_def COPY_FLAGS_def

type_synonym PortID = int

definition InvalidPortID :: PortID where "InvalidPortID = -1"

text \<open>
  The sender states of the components that are modelled, named after their classes; the
  stack through the \<open>predecessor\<close> pointers is a list with its top first. \<open>DmaReqState\<close>
  refers to a state object that all packets of a DMA action share.
\<close>

datatype sender_state =
    AddrMapperSenderState Addr
  | RequestState PortID
  | DmaReqState nat
  | PrintReqState
  | OtherState nat

record packet =
  IS_REMAPPED :: bool
  ATOMIC_HMC_COMMAND :: byte
  ATOMIC_HMC_OPERAND :: u64
  pk_flags :: u32
  pk_cmd :: mem_cmd
  pk_req :: request
  pk_data :: "byte list option"
  pk_addr :: Addr
  pk_isSecure :: bool
  pk_size :: u32
  pk_src :: PortID
  pk_dest :: PortID
  pk_origCmd :: mem_cmd
  bytesValidStart :: u16
  bytesValidEnd :: u16
  firstWordDelay :: u32
  lastWordDelay :: u32
  senderState :: "sender_state list"

definition isRead :: "packet \<Rightarrow> bool" where "isRead p = cmd_isRead (pk_cmd p)"
definition isWrite :: "packet \<Rightarrow> bool" where "isWrite p = cmd_isWrite (pk_cmd p)"
definition isRequest :: "packet \<Rightarrow> bool" where "isRequest p = cmd_isRequest (pk_cmd p)"
definition isResponse :: "packet \<Rightarrow> bool" where "isResponse p = cmd_isResponse (pk_cmd p)"
definition needsResponse :: "packet \<Rightarrow> bool" where "needsResponse p = cmd_needsResponse (pk_cmd p)"
definition isInvalidate :: "packet \<Rightarrow> bool" where "isInvalidate p = cmd_isInvalidate (pk_cmd p)"
definition hasData :: "packet \<Rightarrow> bool" where "hasData p = cmd_hasData (pk_cmd p)"
definition isLLSC :: "packet \<Rightarrow> bool" where "isLLSC p = cmd_isLLSC (pk_cmd p)"
definition isError :: "packet \<Rightarrow> bool" where "isError p = cmd_isError (pk_cmd p)"
definition isPrint :: "packet \<Rightarrow> bool" where "isPrint p = cmd_isPrint (pk_cmd p)"

definition memInhibitAsserted :: "packet \<Rightarrow> bool" where
  "memInhibitAsserted p = fl_isSet (pk_flags p) MEM_INHIBIT"

definition sharedAsserted :: "packet \<Rightarrow> bool" where
  "sharedAsserted p = fl_isSet (pk_flags p) SHARED"

lemmas pkt_test_defs = isRead_def isWrite_def isRequest_def isResponse_def needsResponse_def
  isInvalidate_def hasData_def isLLSC_def isError_def isPrint_def

definition setBadAddress :: "packet \<Rightarrow> packet res" where
  "setBadAddress p = assertR (isResponse p) ''isResponse()'' (Inr (p\<lparr>pk_cmd := BadAddressError\<rparr>))"

definition copyError :: "packet \<Rightarrow> packet \<Rightarrow> packet res" where
  "copyError self p = assertR (isError p) ''pkt->isError()'' (Inr (self\<lparr>pk_cmd := pk_cmd p\<rparr>))"

definition getSrc :: "packet \<Rightarrow> PortID res" where
  "getSrc p = assertR (pk_src p \<noteq> InvalidPortID) ''isSrcValid()'' (Inr (pk_src p))"

definition getDest :: "packet \<Rightarrow> PortID res" where
  "getDest p = assertR (pk_dest p \<noteq> InvalidPortID) ''isDestValid()'' (Inr (pk_dest p))"

definition getAddr :: "packet \<Rightarrow> Addr res" where
  "getAddr p = assertR (fl_isSet (pk_flags p) VALID_ADDR) ''VALID_ADDR'' (Inr (pk_addr p))"

definition setAddr :: "packet \<Rightarrow> Addr \<Rightarrow> packet res" where
  "setAddr p a = assertR (fl_isSet (pk_flags p) VALID_ADDR) ''VALID_ADDR'' (Inr (p\<lparr>pk_addr := a\<rparr>))"

definition getSize :: "packet \<Rightarrow> u32 res" where
  "getSize p = assertR (fl_isSet (pk_flags p) VALID_SIZE) ''VALID_SIZE'' (Inr (pk_size p))"

definition getOffset :: "packet \<Rightarrow> int \<Rightarrow> Addr res" where
  "getOffset p blkSize = bindR (getAddr p) (\<lambda>a. Inr (a AND of_int (blkSize - 1)))"

definition convertScToWrite :: "packet \<Rightarrow> packet res" where
  "convertScToWrite p =
     assertR (isLLSC p) ''isLLSC()'' (assertR (isWrite p) ''isWrite()'' (Inr (p\<lparr>pk_cmd := WriteReq\<rparr>)))"

definition convertLlToRead :: "packet \<Rightarrow> packet res" where
  "convertLlToRead p =
     assertR (isLLSC p) ''isLLSC()'' (assertR (isRead p) ''isRead()'' (Inr (p\<lparr>pk_cmd := ReadReq\<rparr>)))"

text \<open>The members every constructor initialises alike.\<close>

definition Packet_blank :: "request \<Rightarrow> mem_cmd \<Rightarrow> packet" where
  "Packet_blank r c =
     \<lparr>IS_REMAPPED = False, ATOMIC_HMC_COMMAND = 0, ATOMIC_HMC_OPERAND = 0, pk_flags = 0,
      pk_cmd = c, pk_req = r, pk_data = None, pk_addr = 0, pk_isSecure = False, pk_size = 0,
      pk_src = InvalidPortID, pk_dest = InvalidPortID, pk_origCmd = InvalidCmd,
      bytesValidStart = 0, bytesValidEnd = 0, firstWordDelay = 0, lastWordDelay = 0,
      senderState = []\<rparr>"

definition Packet_new :: "request \<Rightarrow> mem_cmd \<Rightarrow> packet" where
  "Packet_new r c =
     (let p = Packet_blank r c;
          p = (if hasPaddr r
               then p\<lparr>pk_addr := rq_paddr r, pk_flags := fl_set (pk_flags p) VALID_ADDR,
                      pk_isSecure := rq_isSecure r\<rparr>
               else p)
      in if hasSize r
         then p\<lparr>pk_size := of_int (rq_size r), pk_flags := fl_set (pk_flags p) VALID_SIZE\<rparr>
         else p)"

definition Packet_block :: "request \<Rightarrow> mem_cmd \<Rightarrow> int \<Rightarrow> packet" where
  "Packet_block r c blkSize =
     (let p = Packet_blank r c;
          p = (if hasPaddr r
               then p\<lparr>pk_addr := rq_paddr r AND NOT (of_int (blkSize - 1)),
                      pk_flags := fl_set (pk_flags p) VALID_ADDR, pk_isSecure := rq_isSecure r\<rparr>
               else p)
      in p\<lparr>pk_size := of_int blkSize, pk_flags := fl_set (pk_flags p) VALID_SIZE\<rparr>)"

definition Packet_copy :: "packet \<Rightarrow> bool \<Rightarrow> packet" where
  "Packet_copy o1 clearFlags =
     (let f = (if clearFlags then 0 else fl_set 0 (pk_flags o1 AND COPY_FLAGS));
          f = fl_set f (pk_flags o1 AND (VALID_ADDR OR VALID_SIZE));
          f = fl_set f (pk_flags o1 AND STATIC_DATA)
      in o1\<lparr>IS_REMAPPED := False, ATOMIC_HMC_COMMAND := 0, ATOMIC_HMC_OPERAND := 0,
            pk_flags := f, pk_origCmd := InvalidCmd,
            pk_data := (if fl_isSet (pk_flags o1) STATIC_DATA then pk_data o1 else None)\<rparr>)"

definition refineCommand :: "packet \<Rightarrow> packet" where
  "refineCommand p =
     (if pk_cmd p = ReadReq then
        (if rq_isLLSC (pk_req p) then p\<lparr>pk_cmd := LoadLockedReq\<rparr>
         else if rq_isPrefetch (pk_req p) then p\<lparr>pk_cmd := SoftPFReq\<rparr> else p)
      else if pk_cmd p = WriteReq then
        (if rq_isLLSC (pk_req p) then p\<lparr>pk_cmd := StoreCondReq\<rparr>
         else if rq_isSwap (pk_req p) then p\<lparr>pk_cmd := SwapReq\<rparr> else p)
      else p)"

definition createRead :: "request \<Rightarrow> packet" where
  "createRead r = refineCommand (Packet_new r ReadReq)"

definition createWrite :: "request \<Rightarrow> packet" where
  "createWrite r = refineCommand (Packet_new r WriteReq)"

definition deleteData :: "packet \<Rightarrow> packet" where
  "deleteData p =
     p\<lparr>pk_flags := fl_clear (pk_flags p) (STATIC_DATA OR DYNAMIC_DATA OR ARRAY_DATA),
       pk_data := None\<rparr>"

definition reinitFromRequest :: "packet \<Rightarrow> packet res" where
  "reinitFromRequest p =
     assertR (hasPaddr (pk_req p)) ''req->hasPaddr()''
    (bindR (rq_getSize (pk_req p)) (\<lambda>n.
       Inr (deleteData
         (p\<lparr>pk_flags := fl_set 0 (VALID_ADDR OR VALID_SIZE), pk_addr := rq_paddr (pk_req p),
            pk_isSecure := rq_isSecure (pk_req p), pk_size := of_int n,
            pk_src := InvalidPortID, pk_dest := InvalidPortID, bytesValidStart := 0,
            bytesValidEnd := 0, firstWordDelay := 0, lastWordDelay := 0\<rparr>))))"

definition makeResponse :: "packet \<Rightarrow> packet res" where
  "makeResponse p =
     assertR (needsResponse p) ''needsResponse()''
    (assertR (isRequest p) ''isRequest()''
      (Inr (p\<lparr>pk_origCmd := pk_cmd p, pk_cmd := responseCommand (pk_cmd p),
              pk_flags := fl_clear (pk_flags p) EXPRESS_SNOOP,
              pk_dest := pk_src p, pk_src := InvalidPortID\<rparr>)))"

definition setFunctionalResponseStatus :: "packet \<Rightarrow> bool \<Rightarrow> packet" where
  "setFunctionalResponseStatus p success =
     (if \<not> success then
        (if isWrite p then p\<lparr>pk_cmd := FunctionalWriteError\<rparr> else p\<lparr>pk_cmd := FunctionalReadError\<rparr>)
      else p)"

definition setSize :: "packet \<Rightarrow> u32 \<Rightarrow> packet res" where
  "setSize p n =
     assertR (\<not> fl_isSet (pk_flags p) VALID_SIZE) ''!VALID_SIZE''
       (Inr (p\<lparr>pk_size := n, pk_flags := fl_set (pk_flags p) VALID_SIZE\<rparr>))"

definition dataStatic :: "packet \<Rightarrow> byte list \<Rightarrow> packet res" where
  "dataStatic p d =
     assertR (fl_noneSet (pk_flags p) (STATIC_DATA OR DYNAMIC_DATA OR ARRAY_DATA)) ''noneSet(DATA)''
       (Inr (p\<lparr>pk_data := Some d, pk_flags := fl_set (pk_flags p) STATIC_DATA\<rparr>))"

definition dataDynamicArray :: "packet \<Rightarrow> byte list \<Rightarrow> packet res" where
  "dataDynamicArray p d =
     assertR (fl_noneSet (pk_flags p) (STATIC_DATA OR DYNAMIC_DATA OR ARRAY_DATA)) ''noneSet(DATA)''
       (Inr (p\<lparr>pk_data := Some d, pk_flags := fl_set (pk_flags p) (DYNAMIC_DATA OR ARRAY_DATA)\<rparr>))"

definition dataDynamic :: "packet \<Rightarrow> byte list \<Rightarrow> packet res" where
  "dataDynamic p d =
     assertR (fl_noneSet (pk_flags p) (STATIC_DATA OR DYNAMIC_DATA OR ARRAY_DATA)) ''noneSet(DATA)''
       (Inr (p\<lparr>pk_data := Some d, pk_flags := fl_set (pk_flags p) DYNAMIC_DATA\<rparr>))"

text \<open>\<open>getPtr\<close> as used by every caller below (\<open>null_ok\<close> false): the payload, when there is one.\<close>

definition getPtr :: "packet \<Rightarrow> byte list res" where
  "getPtr p =
     assertR (fl_isSet (pk_flags p) (STATIC_DATA OR DYNAMIC_DATA)) ''STATIC_DATA|DYNAMIC_DATA''
       (case pk_data p of None \<Rightarrow> Inl BadPtr | Some d \<Rightarrow> Inr d)"

definition setData :: "packet \<Rightarrow> byte list \<Rightarrow> packet res" where
  "setData p src =
     bindR (getPtr p) (\<lambda>d.
     bindR (ofOpt (read_bytes src 0 (unat (pk_size p)))) (\<lambda>bs.
     bindR (ofOpt (write_bytes d 0 bs)) (\<lambda>d'. Inr (p\<lparr>pk_data := Some d'\<rparr>))))"

definition writeData :: "packet \<Rightarrow> byte list \<Rightarrow> nat \<Rightarrow> byte list res" where
  "writeData p dst off =
     bindR (getPtr p) (\<lambda>d.
     bindR (ofOpt (read_bytes d 0 (unat (pk_size p)))) (\<lambda>bs. ofOpt (write_bytes dst off bs)))"

text \<open>\<open>new uint8_t[n]\<close> leaves the bytes unspecified; the model fills them with zeros.\<close>

definition allocate :: "packet \<Rightarrow> packet res" where
  "allocate p =
     (case pk_data p of
        Some d \<Rightarrow> assertR (fl_isSet (pk_flags p) (STATIC_DATA OR DYNAMIC_DATA)) ''DATA'' (Inr p)
      | None \<Rightarrow>
          assertR (fl_noneSet (pk_flags p) (STATIC_DATA OR DYNAMIC_DATA)) ''noneSet(DATA)''
            (Inr (p\<lparr>pk_flags := fl_set (pk_flags p) (DYNAMIC_DATA OR ARRAY_DATA),
                    pk_data := Some (replicate (unat (pk_size p)) 0)\<rparr>)))"

definition pushSenderState :: "packet \<Rightarrow> sender_state \<Rightarrow> packet" where
  "pushSenderState p s = p\<lparr>senderState := s # senderState p\<rparr>"

definition popSenderState :: "packet \<Rightarrow> (sender_state \<times> packet) res" where
  "popSenderState p =
     (case senderState p of
        [] \<Rightarrow> Inl (AssertFail ''senderState != NULL'')
      | s # ss \<Rightarrow> Inr (s, p\<lparr>senderState := ss\<rparr>))"

section \<open>Functional accesses against a buffered value\<close>

definition memcpyR :: "byte list \<Rightarrow> int \<Rightarrow> byte list \<Rightarrow> int \<Rightarrow> int \<Rightarrow> byte list res" where
  "memcpyR dst doff src soff n =
     (if n < 0 \<or> doff < 0 \<or> soff < 0 then Inl OutOfRange
      else bindR (ofOpt (read_bytes src (nat soff) (nat n)))
             (\<lambda>bs. ofOpt (write_bytes dst (nat doff) bs)))"

text \<open>
  Offsets and sizes of a partial overlap, as triples \<open>(val_offset, func_offset, overlap_size)\<close>.
\<close>

definition partial_overlap ::
    "Addr \<Rightarrow> Addr \<Rightarrow> Addr \<Rightarrow> Addr \<Rightarrow> int \<Rightarrow> (int \<times> int \<times> int) res" where
  "partial_overlap func_start func_end val_start val_end sz =
     (if val_start < func_start \<and> val_end \<le> func_end then
        Inr (to_int (func_start - val_start), 0, to_int (val_end - func_start))
      else if val_start \<ge> func_start \<and> val_end > func_end then
        Inr (0, to_int (val_start - func_start), to_int (func_end - val_start))
      else if val_start \<ge> func_start \<and> val_end \<le> func_end then
        Inr (0, to_int (val_start - func_start), sz)
      else Inl (Panic ''BUG: Missed a case for a partial functional request''))"

text \<open>
  How much of the overlap is new: the payload after the first half of a split copy, the new
  \<open>bytesValid\<close> indices, and the offsets and size of the copy that remains.
\<close>

definition merge_bytesValid ::
    "byte list \<Rightarrow> byte list \<Rightarrow> u16 \<Rightarrow> u16 \<Rightarrow> int \<Rightarrow> int \<Rightarrow> int \<Rightarrow>
       (byte list \<times> u16 \<times> u16 \<times> int \<times> int \<times> int) res" where
  "merge_bytesValid pd vd bvs bve val_offset func_offset overlap_size =
     (if bvs = 0 \<and> bve = 0 then
        Inr (pd, of_int func_offset, of_int (func_offset + overlap_size),
             val_offset, func_offset, overlap_size)
      else
        let a = func_offset - uint bvs;
            b = (func_offset + overlap_size) - uint bve;
            c = func_offset - uint bve;
            d = (func_offset + overlap_size) - uint bvs
        in if a \<ge> 0 \<and> b \<le> 0 then Inr (pd, bvs, bve, val_offset, func_offset, 0)
           else if a < 0 \<and> d \<ge> 0 \<and> b \<le> 0 then
             Inr (pd, of_int func_offset, bve, val_offset, func_offset, uint bvs - func_offset)
           else if b > 0 \<and> c \<le> 0 \<and> a \<ge> 0 then
             let ov = (func_offset + overlap_size) - uint bve in
             Inr (pd, bvs, bve + of_int ov, val_offset + (uint bve - func_offset), uint bve, ov)
           else if a < 0 \<and> b > 0 then
             bindR (memcpyR pd func_offset vd val_offset (uint bvs - func_offset)) (\<lambda>pd'.
             let ov = (func_offset + overlap_size) - uint bve in
             Inr (pd', of_int func_offset, bve + of_int ov,
                  val_offset + (uint bve - func_offset), uint bve, ov))
           else if (c > 0 \<and> b > 0) \<or> (a < 0 \<and> d < 0) then
             Inl (Panic ''BUG: Discontiguous bytes foundfor functional copying!'')
           else Inr (pd, bvs, bve, val_offset, func_offset, overlap_size))"

definition checkFunctional_partial ::
    "packet \<Rightarrow> Addr \<Rightarrow> Addr \<Rightarrow> Addr \<Rightarrow> Addr \<Rightarrow> int \<Rightarrow> byte list \<Rightarrow> (bool \<times> packet) res" where
  "checkFunctional_partial p func_start func_end val_start val_end sz vd =
     bindR (partial_overlap func_start func_end val_start val_end sz) (\<lambda>(vo, fo, ov).
     bindR (getPtr p) (\<lambda>pd.
     bindR (merge_bytesValid pd vd (bytesValidStart p) (bytesValidEnd p) vo fo ov)
       (\<lambda>(pd1, bvs, bve, vo1, fo1, ov1).
     assertR (uint bve \<le> uint (pk_size p)) ''bytesValidEnd <= getSize()''
    (bindR (memcpyR pd1 fo1 vd vo1 ov1) (\<lambda>pd2.
       Inr (bvs = 0 \<and> uint bve = uint (pk_size p),
            p\<lparr>pk_data := Some pd2, bytesValidStart := bvs, bytesValidEnd := bve\<rparr>))))))"

definition checkFunctional_read ::
    "packet \<Rightarrow> Addr \<Rightarrow> Addr \<Rightarrow> Addr \<Rightarrow> Addr \<Rightarrow> int \<Rightarrow> byte list \<Rightarrow> (bool \<times> packet) res" where
  "checkFunctional_read p func_start func_end val_start val_end sz vd =
     (if func_start \<ge> val_start \<and> func_end \<le> val_end then
        bindR (allocate p) (\<lambda>p.
        bindR (getPtr p) (\<lambda>pd.
        bindR (memcpyR pd 0 vd (to_int (func_start - val_start)) (uint (pk_size p))) (\<lambda>pd'.
          Inr (True, p\<lparr>pk_data := Some pd'\<rparr>))))
      else checkFunctional_partial p func_start func_end val_start val_end sz vd)"

definition checkFunctional_write ::
    "packet \<Rightarrow> Addr \<Rightarrow> Addr \<Rightarrow> Addr \<Rightarrow> Addr \<Rightarrow> byte list \<Rightarrow> byte list res" where
  "checkFunctional_write p func_start func_end val_start val_end vd =
     bindR (getPtr p) (\<lambda>pd.
       if to_int (func_start - val_start) \<ge> 0 then
         memcpyR vd (to_int (func_start - val_start)) pd 0
           (uint (min func_end val_end - func_start + 1))
       else
         memcpyR vd 0 pd (- to_int (func_start - val_start))
           (uint (min func_end val_end - val_start + 1)))"

text \<open>The result: whether the access is satisfied, the packet, and the buffered value.\<close>

definition checkFunctional ::
    "packet \<Rightarrow> Addr \<Rightarrow> bool \<Rightarrow> int \<Rightarrow> byte list option \<Rightarrow> (bool \<times> packet \<times> byte list option) res" where
  "checkFunctional p a is_secure sz vdata =
     (let func_start = pk_addr p;
          func_end = pk_addr p + ucast (pk_size p) - 1;
          val_start = a;
          val_end = val_start + of_int sz - 1
      in if is_secure \<noteq> pk_isSecure p \<or> func_start > val_end \<or> val_start > func_end
         then Inr (False, p, vdata)
         else if isPrint p then Inr (False, p, vdata)
         else case vdata of
           None \<Rightarrow> Inr (False, p, vdata)
         | Some vd \<Rightarrow>
             if isRead p then
               bindR (checkFunctional_read p func_start func_end val_start val_end sz vd)
                 (\<lambda>(found, p'). Inr (found, p', vdata))
             else if isWrite p then
               bindR (checkFunctional_write p func_start func_end val_start val_end vd)
                 (\<lambda>vd'. Inr (False, p, Some vd'))
             else Inl (Panic ''Don't know how to handle command''))"

text \<open>\<open>checkFunctional(PacketPtr other)\<close>: against the payload of a packet in transit.\<close>

definition checkFunctional_pkt :: "packet \<Rightarrow> packet \<Rightarrow> (bool \<times> packet \<times> packet) res" where
  "checkFunctional_pkt p other =
     bindR (if hasData other then bindR (getPtr other) (\<lambda>d. Inr (Some d)) else Inr None) (\<lambda>vdata.
     bindR (checkFunctional p (pk_addr other) (pk_isSecure other) (uint (pk_size other)) vdata)
       (\<lambda>(found, p', vdata').
         Inr (found, p', (case vdata' of None \<Rightarrow> other | Some d \<Rightarrow> other\<lparr>pk_data := Some d\<rparr>))))"

lemmas checkFunctional_defs = checkFunctional_def checkFunctional_read_def
  checkFunctional_partial_def checkFunctional_write_def partial_overlap_def
  merge_bytesValid_def memcpyR_def Let_def

section \<open>Facts about packets\<close>

definition wf_packet :: "packet \<Rightarrow> bool" where
  "wf_packet p \<longleftrightarrow> fl_isSet (pk_flags p) VALID_ADDR \<and> fl_isSet (pk_flags p) VALID_SIZE"

lemma wf_packet_accessors:
  "wf_packet p \<Longrightarrow> getAddr p = Inr (pk_addr p)"
  "wf_packet p \<Longrightarrow> getSize p = Inr (pk_size p)"
  "wf_packet p \<Longrightarrow> setAddr p a = Inr (p\<lparr>pk_addr := a\<rparr>)"
  by (simp_all add: wf_packet_def getAddr_def getSize_def setAddr_def)

lemma Packet_new_wf: "hasPaddr r \<Longrightarrow> hasSize r \<Longrightarrow> wf_packet (Packet_new r c)"
  by (simp add: wf_packet_def Packet_new_def Packet_blank_def Let_def fl_defs pkt_flag_defs)

lemma Packet_new_sel [simp]:
  assumes "hasPaddr r" "hasSize r"
  shows "pk_addr (Packet_new r c) = rq_paddr r" "pk_size (Packet_new r c) = of_int (rq_size r)"
    "pk_cmd (Packet_new r c) = c" "pk_req (Packet_new r c) = r"
    "senderState (Packet_new r c) = []" "pk_data (Packet_new r c) = None"
    "pk_src (Packet_new r c) = InvalidPortID" "pk_dest (Packet_new r c) = InvalidPortID"
    "\<not> IS_REMAPPED (Packet_new r c)" "ATOMIC_HMC_COMMAND (Packet_new r c) = 0"
    "pk_flags (Packet_new r c) = VALID_ADDR OR VALID_SIZE"
  using assms by (simp_all add: Packet_new_def Packet_blank_def Let_def fl_defs)

lemma wf_packet_ops:
  "wf_packet p \<Longrightarrow> makeResponse p = Inr q \<Longrightarrow> wf_packet q"
  "wf_packet p \<Longrightarrow> wf_packet (pushSenderState p s)"
  "wf_packet p \<Longrightarrow> popSenderState p = Inr (s, q) \<Longrightarrow> wf_packet q"
  "wf_packet p \<Longrightarrow> wf_packet (deleteData p)"
  "wf_packet p \<Longrightarrow> wf_packet (refineCommand p)"
  by (auto simp: wf_packet_def makeResponse_def pushSenderState_def popSenderState_def
      deleteData_def refineCommand_def fl_isSet_clear_other pkt_flag_defs split: list.splits)

lemma push_pop [simp]: "popSenderState (pushSenderState p s) = Inr (s, p)"
  by (simp add: popSenderState_def pushSenderState_def)

text \<open>C40: turning any request that needs a response around succeeds, yields a response of the
  same direction of data flow that carries a payload exactly when data flows to the
  requester, and routes it to the port the request came from.\<close>

theorem makeResponse_turns_around:
  assumes "isRequest p" and "needsResponse p"
  shows "\<exists>q. makeResponse p = Inr q \<and> isResponse q \<and> \<not> isRequest q \<and> \<not> isError q \<and>
    isRead q = isRead p \<and> isWrite q = isWrite p \<and> hasData q = isRead p \<and>
    pk_dest q = pk_src p \<and> pk_src q = InvalidPortID \<and> pk_addr q = pk_addr p \<and>
    senderState q = senderState p"
  using assms
  by (cases "pk_cmd p") (simp_all add: makeResponse_def pkt_test_defs cmd_defs)

theorem makeResponse_turns_around_witness:
  "\<exists>q. makeResponse (Packet_blank Request0 SwapReq) = Inr q \<and> isResponse q \<and> hasData q"
proof -
  have "isRequest (Packet_blank Request0 SwapReq)" "needsResponse (Packet_blank Request0 SwapReq)"
    and "isRead (Packet_blank Request0 SwapReq)"
    by (simp_all add: Packet_blank_def pkt_test_defs cmd_defs)
  with makeResponse_turns_around [of "Packet_blank Request0 SwapReq"] show ?thesis by auto
qed

lemma getPtr_makeResponse:
  assumes "makeResponse p = Inr q"
  shows "getPtr q = getPtr p"
proof -
  have "fl_isSet (fl_clear (pk_flags p) EXPRESS_SNOOP) (STATIC_DATA OR DYNAMIC_DATA) =
      fl_isSet (pk_flags p) (STATIC_DATA OR DYNAMIC_DATA)"
    by (rule fl_isSet_clear_other) (simp add: pkt_flag_defs)
  then show ?thesis using assms by (auto simp: makeResponse_def getPtr_def)
qed

lemma makeResponse_ok:
  assumes "isRequest p" "needsResponse p"
  obtains q where "makeResponse p = Inr q" "isResponse q"
  using assms by (cases "pk_cmd p") (auto simp: makeResponse_def pkt_test_defs cmd_defs)

text \<open>A packet with a static payload, as the concrete examples below use it.\<close>

definition plain_packet :: "mem_cmd \<Rightarrow> Addr \<Rightarrow> byte list \<Rightarrow> packet" where
  "plain_packet c a d = (Packet_blank Request0 c)\<lparr>pk_addr := a, pk_size := of_nat (length d),
     pk_flags := VALID_ADDR OR VALID_SIZE OR STATIC_DATA, pk_data := Some d\<rparr>"

lemma plain_packet_sel [simp]:
  "pk_addr (plain_packet c a d) = a" "pk_size (plain_packet c a d) = of_nat (length d)"
  "pk_cmd (plain_packet c a d) = c" "pk_data (plain_packet c a d) = Some d"
  "pk_isSecure (plain_packet c a d) = False" "senderState (plain_packet c a d) = []"
  "pk_req (plain_packet c a d) = Request0" "ATOMIC_HMC_COMMAND (plain_packet c a d) = 0"
  "\<not> IS_REMAPPED (plain_packet c a d)" "pk_src (plain_packet c a d) = InvalidPortID"
  "getPtr (plain_packet c a d) = Inr d" "wf_packet (plain_packet c a d)"
  "\<not> memInhibitAsserted (plain_packet c a d)" "\<not> sharedAsserted (plain_packet c a d)"
  by (simp_all add: plain_packet_def Packet_blank_def getPtr_def wf_packet_def fl_defs
      pkt_flag_defs memInhibitAsserted_def sharedAsserted_def)

section \<open>Functional writes\<close>

lemma memcpyR_ok:
  assumes "d + k \<le> length dst" "s + k \<le> length src"
  shows "\<exists>r. memcpyR dst (int d) src (int s) (int k) = Inr r \<and> length r = length dst \<and>
     (\<forall>i < length dst. r ! i = (if d \<le> i \<and> i < d + k then src ! (i - d + s) else dst ! i))"
proof -
  define bs where "bs = take k (drop s src)"
  have rd: "read_bytes src s k = Some bs" using assms by (simp add: read_bytes_def bs_def)
  have len: "length bs = k" using read_bytes_length [OF rd] .
  then obtain r where w: "write_bytes dst d bs = Some r"
    using assms by (auto simp: write_bytes_def)
  have "memcpyR dst (int d) src (int s) (int k) = Inr r" using rd w by (simp add: memcpyR_def)
  moreover have "bs ! (i - d) = src ! (i - d + s)" if "d \<le> i" "i < d + k" for i
    using that assms(2) by (simp add: bs_def add.commute)
  ultimately show ?thesis
    using nth_write_bytes [OF w] write_bytes_length [OF w] len by auto
qed

text \<open>
  The copy a functional write makes into a buffered value it overlaps: from \<open>fo\<close> bytes into the
  packet to \<open>vo\<close> bytes into the value, over the common addresses.
\<close>

lemma checkFunctional_write_copy:
  assumes pd: "getPtr p = Inr pd"
    and fs: "0 < length pd" "unat (pk_addr p) + length pd \<le> 2 ^ 64" "int (length pd) < 2 ^ 31"
    and vs: "0 < length vd" "unat a + length vd \<le> 2 ^ 64" "int (length vd) < 2 ^ 31"
    and ov: "unat (pk_addr p) < unat a + length vd" "unat a < unat (pk_addr p) + length pd"
  shows "checkFunctional_write p (pk_addr p) (pk_addr p + of_nat (length pd) - 1) a
      (a + of_nat (length vd) - 1) vd =
    memcpyR vd (int (unat (pk_addr p) - unat a)) pd (int (unat a - unat (pk_addr p)))
      (int (min (unat (pk_addr p) + length pd) (unat a + length vd)
        - max (unat (pk_addr p)) (unat a)))"
proof -
  let ?F = "unat (pk_addr p)" and ?V = "unat a" and ?n = "length pd" and ?m = "length vd"
  let ?fe = "pk_addr p + of_nat ?n - 1" and ?ve = "a + of_nat ?m - 1"
  let ?e = "min (?F + ?n) (?V + ?m)" and ?s = "if ?V \<le> ?F then pk_addr p else a"
  have off: "to_int (pk_addr p - a) = int ?F - int ?V"
    using ov fs vs by (intro to_int_diff) linarith
  have mn: "unat (min ?fe ?ve) = ?e - 1"
    using unat_range_end [of ?n "pk_addr p"] unat_range_end [of ?m a] fs vs
    by (auto simp: min_def word_le_nat_alt)
  have us: "unat ?s = max ?F ?V" by simp
  have "?s \<le> min ?fe ?ve" using ov fs vs unfolding word_le_nat_alt us mn by linarith
  moreover have "unat (min ?fe ?ve) - unat ?s + 1 < 2 ^ 64" using mn us fs vs by simp
  ultimately have "uint (min ?fe ?ve - ?s + 1) = int (unat (min ?fe ?ve)) - int (unat ?s) + 1"
    by (rule uint_span)
  then have "uint (min ?fe ?ve - ?s + 1) = int (?e - max ?F ?V)"
    unfolding us mn using ov fs vs by linarith
  then show ?thesis
    using off pd
    by (cases "?V \<le> ?F") (simp_all add: checkFunctional_write_def of_nat_diff del: of_nat_unat)
qed

text \<open>A functional write updates a buffered value exactly at the addresses the two share:
  every byte of the value inside the written range takes the written byte, every other byte
  is kept, whatever the relative position and sizes of the two ranges.\<close>

theorem checkFunctional_write_exact:
  assumes cmd: "isWrite p" "\<not> isRead p" "\<not> isPrint p"
    and pd: "getPtr p = Inr pd" "length pd = unat (pk_size p)"
    and fs: "0 < length pd" "unat (pk_addr p) + length pd \<le> 2 ^ 64" "int (length pd) < 2 ^ 31"
    and vs: "0 < length vd" "unat a + length vd \<le> 2 ^ 64" "int (length vd) < 2 ^ 31"
  shows "\<exists>vd'. checkFunctional p a (pk_isSecure p) (int (length vd)) (Some vd) = Inr (False, p, Some vd') \<and>
    length vd' = length vd \<and>
    (\<forall>i < length vd. vd' ! i =
       (if unat (pk_addr p) \<le> unat a + i \<and> unat a + i < unat (pk_addr p) + length pd
        then pd ! (unat a + i - unat (pk_addr p)) else vd ! i))"
proof -
  let ?F = "unat (pk_addr p)" and ?V = "unat a" and ?n = "length pd" and ?m = "length vd"
  let ?fe = "pk_addr p + of_nat ?n - 1" and ?ve = "a + of_nat ?m - 1"
  have fe: "unat ?fe = ?F + ?n - 1" and ve: "unat ?ve = ?V + ?m - 1"
    using unat_range_end fs vs by auto
  have unf: "checkFunctional p a (pk_isSecure p) (int ?m) (Some vd) =
      (if pk_addr p > ?ve \<or> a > ?fe then Inr (False, p, Some vd)
       else bindR (checkFunctional_write p (pk_addr p) ?fe a ?ve vd) (\<lambda>vd'. Inr (False, p, Some vd')))"
    using cmd pd(2) by (simp add: checkFunctional_def Let_def)
  show ?thesis
  proof (cases "pk_addr p > ?ve \<or> a > ?fe")
    case True
    then have "?V + ?m - 1 < ?F \<or> ?F + ?n - 1 < ?V"
      using fe ve by (simp add: word_less_nat_alt)
    then show ?thesis using True unf fs(1) vs(1) by auto
  next
    case False
    then have ov: "?F < ?V + ?m" "?V < ?F + ?n"
      using fe ve fs(1) vs(1) unfolding word_less_nat_alt by linarith+
    let ?vo = "?F - ?V" and ?fo = "?V - ?F" and ?k = "min (?F + ?n) (?V + ?m) - max ?F ?V"
    have "?vo + ?k \<le> ?m" "?fo + ?k \<le> ?n" using ov by linarith+
    then obtain r where r: "memcpyR vd (int ?vo) pd (int ?fo) (int ?k) = Inr r" "length r = ?m"
      "\<forall>i < ?m. r ! i = (if ?vo \<le> i \<and> i < ?vo + ?k then pd ! (i - ?vo + ?fo) else vd ! i)"
      using memcpyR_ok by blast
    have "r ! i = (if ?F \<le> ?V + i \<and> ?V + i < ?F + ?n then pd ! (?V + i - ?F) else vd ! i)"
      if "i < ?m" for i
    proof -
      have c: "?vo \<le> i \<and> i < ?vo + ?k \<longleftrightarrow> ?F \<le> ?V + i \<and> ?V + i < ?F + ?n"
        using that ov by linarith
      have "?F \<le> ?V + i \<Longrightarrow> i - ?vo + ?fo = ?V + i - ?F" by linarith
      then show ?thesis using r(3) [rule_format, OF that] unfolding c by argo
    qed
    then show ?thesis
      using False unf r(1,2) checkFunctional_write_copy [OF pd(1) fs vs ov] by simp
  qed
qed

text \<open>Three bytes written at 6 into a value of four bytes at 4: the last two change.\<close>

theorem checkFunctional_write_exact_witness:
  "\<exists>p vd'. checkFunctional p 4 False 4 (Some [1,2,3,4]) = Inr (False, p, Some vd') \<and>
     pk_addr p = 6 \<and> pk_size p = 3 \<and> vd' ! 1 = 2 \<and> vd' ! 2 = 9"
proof -
  define p where "p = plain_packet WriteReq 6 [9,8,7]"
  have t: "isWrite p" "\<not> isRead p" "\<not> isPrint p" "getPtr p = Inr [9,8,7]"
    and s: "pk_addr p = 6" "pk_size p = 3" "pk_isSecure p = False"
    by (simp_all add: p_def pkt_test_defs cmd_defs)
  obtain vd' where "checkFunctional p 4 False 4 (Some [1,2,3,4]) = Inr (False, p, Some vd')"
    and vd': "\<forall>i < 4. vd' ! i = (if 6 \<le> 4 + i \<and> 4 + i < 9 then [9,8,7] ! (4 + i - 6)
      else [1,2,3,4] ! i)"
    using checkFunctional_write_exact [of p "[9,8,7]" "[1,2,3,4]" 4] t s by auto
  moreover have "vd' ! 1 = 2" "vd' ! 2 = 9" using vd' by simp_all
  ultimately show ?thesis using s by blast
qed

definition read_across :: packet where
  "read_across = (Packet_blank Request0 ReadReq)\<lparr>pk_addr := 4, pk_size := 8,
     pk_flags := VALID_ADDR OR VALID_SIZE OR DYNAMIC_DATA OR ARRAY_DATA,
     pk_data := Some [0,0,0,0,0,0,0,0]\<rparr>"

text \<open>Two buffered values that together hold every byte of a functional read, one up to an
  address and the other from the next address on, do not satisfy it: the copy from the first
  is one byte short, and the second then looks discontiguous and stops the simulation.\<close>

theorem checkFunctional_adjacent_values_panic:
  "\<exists>p'. checkFunctional read_across 0 False 8 (Some [0,1,2,3,4,5,6,7]) =
      Inr (False, p', Some [0,1,2,3,4,5,6,7]) \<and>
    pk_data p' = Some [4,5,6,0,0,0,0,0] \<and> bytesValidEnd p' = 3 \<and>
    checkFunctional p' 8 False 8 (Some [8,9,10,11,12,13,14,15]) =
      Inl (Panic ''BUG: Discontiguous bytes foundfor functional copying!'')"
  by (simp add: read_across_def checkFunctional_defs pkt_test_defs cmd_defs Packet_blank_def
      getPtr_def fl_defs pkt_flag_defs read_bytes_def write_bytes_def to_int_def)

end
