(* ===== verification/Ports.thy ===== *)
theory Ports
  imports AddrRange Packet
begin

text \<open>
  The protocol between a master port and the slave port it is connected to
  (\<open>mem/port.hh\<close> under \<open>src/SMC_original/GEM5/gem5/src\<close>), as seen by a component: the peer is a
  state and an operation on it for each of the three kinds of access. Two contracts are stated
  as locales: a peer that serves functional accesses from a memory, and one that serves atomic
  accesses.
\<close>

type_synonym 's functional_peer = "'s \<Rightarrow> packet \<Rightarrow> (packet \<times> 's) res"
type_synonym 's atomic_peer = "'s \<Rightarrow> packet \<Rightarrow> (Tick \<times> packet \<times> 's) res"
type_synonym 's timing_peer = "'s \<Rightarrow> packet \<Rightarrow> (bool \<times> packet \<times> 's) res"

text \<open>A packet of \<open>n\<close> bytes with a payload buffer to match, inside the address space.\<close>

definition payload_ok :: "packet \<Rightarrow> byte list \<Rightarrow> bool" where
  "payload_ok p d \<longleftrightarrow> getPtr p = Inr d \<and> length d = unat (pk_size p) \<and> d \<noteq> [] \<and>
     unat (pk_addr p) + length d \<le> 2 ^ 64"

definition bytes_at :: "(Addr \<Rightarrow> byte option) \<Rightarrow> Addr \<Rightarrow> byte list \<Rightarrow> bool" where
  "bytes_at v a bs \<longleftrightarrow> (\<forall>i < length bs. v (a + of_nat i) = Some (bs ! i))"

text \<open>The contents of a memory after \<open>bs\<close> has been stored at \<open>a\<close>.\<close>

definition store_at :: "(Addr \<Rightarrow> byte option) \<Rightarrow> Addr \<Rightarrow> byte list \<Rightarrow> Addr \<Rightarrow> byte option" where
  "store_at v a bs x = (if unat (x - a) < length bs then Some (bs ! unat (x - a)) else v x)"

lemma bytes_at_store_at: "length bs \<le> 2 ^ 64 \<Longrightarrow> bytes_at (store_at v a bs) a bs"
  by (simp add: bytes_at_def store_at_def unat_of_nat_small)

lemma bytes_at_store_other:
  assumes "bytes_at v b cs" and "unat a + length bs \<le> unat b \<or> unat b + length cs \<le> unat a"
    and "unat a + length bs \<le> 2 ^ 64" "unat b + length cs \<le> 2 ^ 64"
  shows "bytes_at (store_at v a bs) b cs"
proof -
  have "\<not> unat (b + of_nat i - a) < length bs" if "i < length cs" for i
    using that assms(2,4) unat_add_of_nat [of b i]
    unfolding unat_diff_less_iff [OF assms(3)] by auto
  then show ?thesis using assms(1) by (simp add: bytes_at_def store_at_def)
qed

lemma plain_payload_ok:
  "d \<noteq> [] \<Longrightarrow> length d < 2 ^ 32 \<Longrightarrow> unat a + length d \<le> 2 ^ 64 \<Longrightarrow> payload_ok (plain_packet c a d) d"
  by (simp add: payload_ok_def unat_of_nat_small)

section \<open>A memory behind a functional port\<close>

text \<open>
  The contract of a functional port as its clients use it: \<open>inv\<close> holds of the peer's states and
  \<open>view\<close> gives their contents. Reads return the contents and change nothing, writes store
  their payload, and both turn the packet into a response.
\<close>

locale functional_memory =
  fixes facc :: "'s \<Rightarrow> packet \<Rightarrow> (packet \<times> 's) res"
    and view :: "'s \<Rightarrow> Addr \<Rightarrow> byte option"
    and inv :: "'s \<Rightarrow> bool"
  assumes read_law:
    "inv s \<Longrightarrow> wf_packet p \<Longrightarrow> isRead p \<Longrightarrow> isRequest p \<Longrightarrow> needsResponse p \<Longrightarrow> payload_ok p d \<Longrightarrow>
     bytes_at (view s) (pk_addr p) bs \<Longrightarrow> length bs = length d \<Longrightarrow>
     \<exists>q. facc s p = Inr (q, s) \<and> getPtr q = Inr bs \<and> isResponse q \<and>
       wf_packet q \<and> pk_size q = pk_size p"
    and write_law:
    "inv s \<Longrightarrow> wf_packet p \<Longrightarrow> isWrite p \<Longrightarrow> \<not> isRead p \<Longrightarrow> isRequest p \<Longrightarrow> needsResponse p \<Longrightarrow>
     payload_ok p d \<Longrightarrow> bytes_at (view s) (pk_addr p) old \<Longrightarrow> length old = length d \<Longrightarrow>
     \<exists>q s'. facc s p = Inr (q, s') \<and> isResponse q \<and> wf_packet q \<and> inv s' \<and>
       view s' = store_at (view s) (pk_addr p) d"
begin

lemma read_after_write:
  assumes "inv s" "wf_packet w" "isWrite w" "\<not> isRead w" "isRequest w" "needsResponse w" "payload_ok w d"
    "bytes_at (view s) (pk_addr w) old" "length old = length d"
    and "wf_packet p" "isRead p" "isRequest p" "needsResponse p" "payload_ok p e"
    "pk_addr p = pk_addr w" "length e = length d"
  shows "\<exists>q s' r. facc s w = Inr (q, s') \<and> facc s' p = Inr (r, s') \<and> getPtr r = Inr d"
proof -
  obtain q s' where w: "facc s w = Inr (q, s')" "inv s'"
    "view s' = store_at (view s) (pk_addr w) d"
    using write_law [OF assms(1-9)] by blast
  have "length d \<le> 2 ^ 64" using assms(7) by (simp add: payload_ok_def)
  then have "bytes_at (view s') (pk_addr p) d"
    using bytes_at_store_at w(3) assms(15) by simp
  then show ?thesis
    using read_law [OF w(2) assms(10-14)] assms(16) w(1) by fastforce
qed

lemma read_beside_write:
  assumes "inv s" "wf_packet w" "isWrite w" "\<not> isRead w" "isRequest w" "needsResponse w" "payload_ok w d"
    "bytes_at (view s) (pk_addr w) old" "length old = length d"
    and "wf_packet p" "isRead p" "isRequest p" "needsResponse p" "payload_ok p e"
    "bytes_at (view s) (pk_addr p) bs" "length bs = length e"
    "unat (pk_addr w) + length d \<le> unat (pk_addr p) \<or> unat (pk_addr p) + length e \<le> unat (pk_addr w)"
  shows "\<exists>q s' r. facc s w = Inr (q, s') \<and> facc s' p = Inr (r, s') \<and> getPtr r = Inr bs"
proof -
  obtain q s' where w: "facc s w = Inr (q, s')" "inv s'"
    "view s' = store_at (view s) (pk_addr w) d"
    using write_law [OF assms(1-9)] by blast
  have "bytes_at (view s') (pk_addr p) bs"
    using bytes_at_store_other [OF assms(15), of "pk_addr w" d] w(3) assms(7,14,16,17)
    by (simp add: payload_ok_def)
  then show ?thesis
    using read_law [OF w(2) assms(10-14)] assms(16) w(1) by fastforce
qed

end

section \<open>A memory behind an atomic port\<close>

text \<open>
  A packet on its way through the memory system keeps its sender state and the size of its
  request. A plain request is a read or write without reservations or atomic commands.
\<close>

definition same_txn :: "packet \<Rightarrow> packet \<Rightarrow> bool" where
  "same_txn p q \<longleftrightarrow> senderState q = senderState p \<and> rq_size (pk_req q) = rq_size (pk_req p) \<and>
     hasSize (pk_req q) = hasSize (pk_req p)"

definition plain_request :: "mem_cmd \<Rightarrow> packet \<Rightarrow> byte list \<Rightarrow> bool" where
  "plain_request c p d \<longleftrightarrow> pk_cmd p = c \<and> \<not> memInhibitAsserted p \<and> ATOMIC_HMC_COMMAND p = 0 \<and>
     hasPaddr (pk_req p) \<and> \<not> rq_isInstFetch (pk_req p) \<and> payload_ok p d \<and> wf_packet p"

text \<open>
  The contract of an atomic port in front of a memory: one call performs the whole access, in
  \<open>lat\<close> ticks.
\<close>

locale atomic_memory =
  fixes aacc :: "'s \<Rightarrow> packet \<Rightarrow> (Tick \<times> packet \<times> 's) res"
    and view :: "'s \<Rightarrow> Addr \<Rightarrow> byte option"
    and inv :: "'s \<Rightarrow> bool"
    and lat :: "'s \<Rightarrow> Tick"
  assumes atomic_read_law:
    "inv s \<Longrightarrow> plain_request ReadReq p d \<Longrightarrow> bytes_at (view s) (pk_addr p) bs \<Longrightarrow> length bs = length d \<Longrightarrow>
     \<exists>q s'. aacc s p = Inr (lat s, q, s') \<and> isResponse q \<and> same_txn p q \<and> getPtr q = Inr bs \<and>
       inv s' \<and> view s' = view s \<and> lat s' = lat s"
    and atomic_write_law:
    "inv s \<Longrightarrow> plain_request WriteReq p d \<Longrightarrow> bytes_at (view s) (pk_addr p) old \<Longrightarrow> length old = length d \<Longrightarrow>
     \<exists>q s'. aacc s p = Inr (lat s, q, s') \<and> isResponse q \<and> same_txn p q \<and>
       inv s' \<and> view s' = store_at (view s) (pk_addr p) d \<and> lat s' = lat s"
begin

lemma atomic_read_after_write:
  assumes "inv s" "plain_request WriteReq w d" "bytes_at (view s) (pk_addr w) old" "length old = length d"
    and "plain_request ReadReq p e" "pk_addr p = pk_addr w" "length e = length d"
  shows "\<exists>q s1 r s2. aacc s w = Inr (lat s, q, s1) \<and> view s1 = store_at (view s) (pk_addr w) d \<and>
    aacc s1 p = Inr (lat s, r, s2) \<and> getPtr r = Inr d \<and> view s2 = view s1"
proof -
  obtain q s1 where w: "aacc s w = Inr (lat s, q, s1)" "inv s1" "view s1 = store_at (view s) (pk_addr w) d" "lat s1 = lat s"
    using atomic_write_law [OF assms(1-4)] by blast
  have "length d \<le> 2 ^ 64" using assms(2) by (simp add: plain_request_def payload_ok_def)
  then have "bytes_at (view s1) (pk_addr p) d" using bytes_at_store_at w(3) assms(6) by simp
  then show ?thesis using atomic_read_law [OF w(2) assms(5)] assms(7) w by fastforce
qed

end

end
