(* ===== verification/AddrMapper.thy ===== *)
theory AddrMapper
  imports Ports
begin

text \<open>
  The address mapper between two ports (\<open>mem/addr_mapper.cc\<close> and \<open>mem/addr_mapper.hh\<close> under
  \<open>src/SMC_original/GEM5/gem5/src\<close>): it remaps the address of every packet on the way in and
  restores it on the way out, through the call stack for functional and atomic accesses and
  through a sender state for timing ones. The peers on both sides are parameters. Port lookup
  by name (\<open>getMasterPort\<close>, \<open>getSlavePort\<close>) is configuration and is left out.
\<close>

record range_addr_mapper =
  originalRanges :: "addr_range list"
  remappedRanges :: "addr_range list"

definition RangeAddrMapper :: "addr_range list \<Rightarrow> addr_range list \<Rightarrow> range_addr_mapper res" where
  "RangeAddrMapper os rs =
     (if length os \<noteq> length rs
      then Inl (Fatal ''AddrMapper: original and shadowed range list must be same size'')
      else if list_ex (\<lambda>(o1, r1). range_size o1 \<noteq> range_size r1) (zip os rs)
      then Inl (Fatal ''AddrMapper: original and shadowed range list elements aren't all of the same size'')
      else Inr \<lparr>originalRanges = os, remappedRanges = rs\<rparr>)"

definition mapper_init :: "bool \<Rightarrow> bool \<Rightarrow> unit res" where
  "mapper_init slave_connected master_connected =
     (if \<not> slave_connected \<or> \<not> master_connected
      then Inl (Fatal ''Address mapper is not connected on both sides.'') else Inr ())"

text \<open>The loop of \<open>remapAddr\<close> over the two vectors; the constructor made them equally long.\<close>

fun remap_loop :: "(addr_range \<times> addr_range) list \<Rightarrow> Addr \<Rightarrow> Addr" where
  "remap_loop [] a = a"
| "remap_loop ((o1, r1) # rest) a =
     (if contains o1 a then a - ar_start o1 + ar_start r1 else remap_loop rest a)"

definition remapAddr :: "range_addr_mapper \<Rightarrow> Addr \<Rightarrow> Addr" where
  "remapAddr m a = remap_loop (zip (originalRanges m) (remappedRanges m)) a"

definition mapper_getAddrRanges :: "range_addr_mapper \<Rightarrow> addr_range list" where
  "mapper_getAddrRanges m = originalRanges m"

section \<open>Accesses\<close>

definition mapper_recvFunctional ::
    "range_addr_mapper \<Rightarrow> 's functional_peer \<Rightarrow> 's functional_peer" where
  "mapper_recvFunctional m sendFunctional s p =
     bindR (getAddr p) (\<lambda>orig_addr.
     bindR (setAddr p (remapAddr m orig_addr)) (\<lambda>p1.
     bindR (sendFunctional s p1) (\<lambda>(p2, s').
     bindR (setAddr p2 orig_addr) (\<lambda>p3. Inr (p3, s')))))"

text \<open>The snoop variant does the same through the slave port.\<close>

definition mapper_recvFunctionalSnoop ::
    "range_addr_mapper \<Rightarrow> 's functional_peer \<Rightarrow> 's functional_peer" where
  "mapper_recvFunctionalSnoop m sendFunctionalSnoop s p =
     bindR (getAddr p) (\<lambda>orig_addr.
     bindR (setAddr p (remapAddr m orig_addr)) (\<lambda>p1.
     bindR (sendFunctionalSnoop s p1) (\<lambda>(p2, s').
     bindR (setAddr p2 orig_addr) (\<lambda>p3. Inr (p3, s')))))"

definition mapper_recvAtomic :: "range_addr_mapper \<Rightarrow> 's atomic_peer \<Rightarrow> 's atomic_peer" where
  "mapper_recvAtomic m sendAtomic s p =
     bindR (getAddr p) (\<lambda>orig_addr.
     bindR (setAddr p (remapAddr m orig_addr)) (\<lambda>p1.
     bindR (sendAtomic s p1) (\<lambda>(ret_tick, p2, s').
     bindR (setAddr p2 orig_addr) (\<lambda>p3. Inr (ret_tick, p3, s')))))"

definition mapper_recvAtomicSnoop :: "range_addr_mapper \<Rightarrow> 's atomic_peer \<Rightarrow> 's atomic_peer" where
  "mapper_recvAtomicSnoop m sendAtomicSnoop s p =
     bindR (getAddr p) (\<lambda>orig_addr.
     bindR (setAddr p (remapAddr m orig_addr)) (\<lambda>p1.
     bindR (sendAtomicSnoop s p1) (\<lambda>(ret_tick, p2, s').
     bindR (setAddr p2 orig_addr) (\<lambda>p3. Inr (ret_tick, p3, s')))))"

text \<open>
  Timing accesses. \<open>new\<close> and \<open>delete\<close> of the sender state are the push and pop of the stack,
  which holds sender states by value.
\<close>

definition mapper_recvTimingReq :: "range_addr_mapper \<Rightarrow> 's timing_peer \<Rightarrow> 's timing_peer" where
  "mapper_recvTimingReq m sendTimingReq s p =
     bindR (getAddr p) (\<lambda>orig_addr.
     let nr = needsResponse p;
         p1 = (if nr \<and> \<not> memInhibitAsserted p
               then pushSenderState p (AddrMapperSenderState orig_addr) else p)
     in
     bindR (if \<not> IS_REMAPPED p1
            then bindR (setAddr p1 (remapAddr m orig_addr)) (\<lambda>p2. Inr (p2\<lparr>IS_REMAPPED := True\<rparr>))
            else Inr p1) (\<lambda>p2.
     bindR (sendTimingReq s p2) (\<lambda>(successful, p3, s').
       if \<not> successful \<and> nr
       then bindR (popSenderState p3) (\<lambda>(_, p4). Inr (successful, p4, s'))
       else Inr (successful, p3, s'))))"

definition mapper_recvTimingResp :: "'s timing_peer \<Rightarrow> 's timing_peer" where
  "mapper_recvTimingResp sendTimingResp s p =
     (case senderState p of
        AddrMapperSenderState origAddr # predecessor \<Rightarrow>
          bindR (getAddr p) (\<lambda>remapped_addr.
          bindR (setAddr (p\<lparr>senderState := predecessor\<rparr>) origAddr) (\<lambda>p1.
          bindR (sendTimingResp s p1) (\<lambda>(successful, p2, s').
            if successful then Inr (successful, p2, s')
            else bindR (setAddr (p2\<lparr>senderState := AddrMapperSenderState origAddr # predecessor\<rparr>)
                          remapped_addr) (\<lambda>p3. Inr (successful, p3, s')))))
      | _ \<Rightarrow> Inl (Panic ''AddrMapper got a response without sender state''))"

definition mapper_recvTimingSnoopReq :: "'s functional_peer \<Rightarrow> 's functional_peer" where
  "mapper_recvTimingSnoopReq sendTimingSnoopReq s p = sendTimingSnoopReq s p"

definition mapper_recvTimingSnoopResp :: "'s timing_peer \<Rightarrow> 's timing_peer" where
  "mapper_recvTimingSnoopResp sendTimingSnoopResp s p = sendTimingSnoopResp s p"

definition mapper_isSnooping :: "bool \<Rightarrow> bool res" where
  "mapper_isSnooping slave_snooping =
     (if slave_snooping
      then Inl (Fatal ''AddrMapper doesn't support remapping of snooping requests'')
      else Inr False)"

section \<open>Remapping\<close>

lemma RangeAddrMapper_ok:
  assumes "RangeAddrMapper os rs = Inr m"
  shows "originalRanges m = os" "remappedRanges m = rs" "length os = length rs"
    "\<And>i. i < length os \<Longrightarrow> range_size (os ! i) = range_size (rs ! i)"
  using assms by (auto simp: RangeAddrMapper_def list_ex_iff in_set_zip split: if_splits)

lemma remap_loop_hit:
  assumes "contains o1 a" "(o1, r1) \<in> set prs"
  shows "\<exists>(o2, r2) \<in> set prs. contains o2 a \<and> remap_loop prs a = a - ar_start o2 + ar_start r2"
  using assms
proof (induction prs)
  case Nil
  then show ?case by simp
next
  case (Cons pr prs)
  then show ?case by (cases pr) auto
qed

lemma remap_loop_miss: "(\<forall>(o1, r1) \<in> set prs. \<not> contains o1 a) \<Longrightarrow> remap_loop prs a = a"
  by (induction prs) auto

lemma shift_into_range:
  assumes pl: "\<not> interleaved r" "\<not> interleaved t" and v: "range_valid t"
    and sz: "range_size r = range_size t" and c: "contains r a"
  shows "contains t (a - ar_start r + ar_start t)"
proof -
  have b: "ar_start r \<le> a" "a \<le> ar_end r" using c pl by simp_all
  have d: "ar_end r - ar_start r = ar_end t - ar_start t" using sz pl by simp
  have "unat (a - ar_start r) \<le> unat (ar_end r - ar_start r)"
    using b by (simp add: unat_diff_le word_le_nat_alt)
  also have "\<dots> = unat (ar_end t) - unat (ar_start t)"
    using d v by (simp add: unat_diff_le range_valid_def)
  finally have le: "unat (a - ar_start r) + unat (ar_start t) \<le> unat (ar_end t)"
    using v by (simp add: range_valid_def word_le_nat_alt)
  then have "unat (a - ar_start r + ar_start t) = unat (a - ar_start r) + unat (ar_start t)"
    using unsigned_less [of "ar_end t", where 'a = nat] by (simp add: unat_word_ariths(1))
  then show ?thesis using le pl by (simp add: word_le_nat_alt)
qed

lemma remapAddr_covered:
  assumes m: "RangeAddrMapper os rs = Inr m"
    and pl: "\<forall>r \<in> set os \<union> set rs. \<not> interleaved r \<and> range_valid r"
    and cov: "\<exists>r \<in> set os. contains r a"
  shows "\<exists>i < length os. contains (os ! i) a \<and> contains (rs ! i) (remapAddr m a) \<and>
    remapAddr m a = a - ar_start (os ! i) + ar_start (rs ! i)"
proof -
  note ok = RangeAddrMapper_ok [OF m]
  obtain o1 r1 where "contains o1 a" "(o1, r1) \<in> set (zip os rs)"
    using cov ok(3) by (metis in_set_impl_in_set_zip1)
  from remap_loop_hit [OF this] obtain i where i: "i < length os" "contains (os ! i) a"
    "remapAddr m a = a - ar_start (os ! i) + ar_start (rs ! i)"
    by (auto simp: remapAddr_def ok(1,2) set_zip)
  moreover have "contains (rs ! i) (a - ar_start (os ! i) + ar_start (rs ! i))"
    using i pl ok(3,4) by (intro shift_into_range) auto
  ultimately show ?thesis by metis
qed

text \<open>A mapper whose remapped ranges are pairwise disjoint never sends two addresses of
  its original ranges to the same place, and sends each into a remapped range.\<close>

theorem remapAddr_injective:
  assumes m: "RangeAddrMapper os rs = Inr m"
    and pl: "\<forall>r \<in> set os \<union> set rs. \<not> interleaved r \<and> range_valid r"
    and dis: "\<forall>i < length rs. \<forall>j < length rs. i \<noteq> j \<longrightarrow> intersects (rs ! i) (rs ! j) = Inr False"
    and a: "\<exists>r \<in> set os. contains r a" and b: "\<exists>r \<in> set os. contains r b"
  shows "(remapAddr m a = remapAddr m b \<longleftrightarrow> a = b) \<and> (\<exists>r \<in> set rs. contains r (remapAddr m a))"
proof -
  note len = RangeAddrMapper_ok(3) [OF m]
  obtain i where i: "i < length os" "contains (rs ! i) (remapAddr m a)"
    "remapAddr m a = a - ar_start (os ! i) + ar_start (rs ! i)"
    using remapAddr_covered [OF m pl a] by blast
  obtain j where j: "j < length os" "contains (rs ! j) (remapAddr m b)"
    "remapAddr m b = b - ar_start (os ! j) + ar_start (rs ! j)"
    using remapAddr_covered [OF m pl b] by blast
  have "a = b" if eq: "remapAddr m a = remapAddr m b"
  proof -
    have "i = j"
    proof (rule ccontr)
      assume "i \<noteq> j"
      then have "\<not> (\<exists>x. contains (rs ! i) x \<and> contains (rs ! j) x)"
        using dis i(1) j(1) pl len intersects_plain_iff [of "rs ! i" "rs ! j"] by auto
      then show False using i(2) j(2) eq by auto
    qed
    then show ?thesis using eq i(3) j(3) by simp
  qed
  then show ?thesis using i(1,2) len by auto
qed

text \<open>Two windows of 256 bytes mapped to different places.\<close>

theorem remapAddr_injective_witness:
  "\<exists>m. RangeAddrMapper [mkAddrRange 0 255, mkAddrRange 256 511]
        [mkAddrRange 0x1000 0x10ff, mkAddrRange 0x3000 0x30ff] = Inr m \<and>
      remapAddr m 7 \<noteq> remapAddr m 263"
proof -
  let ?os = "[mkAddrRange 0 255, mkAddrRange 256 511]"
    and ?rs = "[mkAddrRange 0x1000 0x10ff, mkAddrRange 0x3000 0x30ff]"
  obtain m where m: "RangeAddrMapper ?os ?rs = Inr m" by (simp add: RangeAddrMapper_def)
  have pl: "\<forall>r \<in> set ?os \<union> set ?rs. \<not> interleaved r \<and> range_valid r"
    by (simp add: range_valid_def)
  have dis: "\<forall>i < length ?rs. \<forall>j < length ?rs. i \<noteq> j \<longrightarrow> intersects (?rs ! i) (?rs ! j) = Inr False"
    by (auto simp: less_Suc_eq intersects_def)
  have "remapAddr m 7 \<noteq> remapAddr m 263"
    using remapAddr_injective [OF m pl dis, of 7 263] by simp
  with m show ?thesis by blast
qed

section \<open>Timing accesses\<close>

text \<open>What the mapper hands to its master port.\<close>

definition mapped_pkt :: "range_addr_mapper \<Rightarrow> packet \<Rightarrow> packet" where
  "mapped_pkt m p = p\<lparr>senderState := AddrMapperSenderState (pk_addr p) # senderState p,
     pk_addr := (if IS_REMAPPED p then pk_addr p else remapAddr m (pk_addr p)), IS_REMAPPED := True\<rparr>"

lemma mapper_recvTimingReq_unfold:
  assumes "wf_packet p" "needsResponse p" "\<not> memInhibitAsserted p"
  shows "mapper_recvTimingReq m send s p =
     bindR (send s (mapped_pkt m p)) (\<lambda>(ok, q, s').
       if ok then Inr (ok, q, s') else bindR (popSenderState q) (\<lambda>(_, q'). Inr (ok, q', s')))"
proof -
  have "wf_packet (pushSenderState p st)" for st using assms(1) by (rule wf_packet_ops)
  then show ?thesis
    using assms
    by (cases p) (auto simp: mapper_recvTimingReq_def Let_def wf_packet_accessors mapped_pkt_def
        pushSenderState_def wf_packet_def setAddr_def intro!: arg_cong2 [where f = bindR] ext)
qed

text \<open>
  The address at which the master side sees a packet: a packet that was remapped before, by this mapper on an
  attempt that was refused or by another one, keeps its address. The packet as it is after a number of attempts that the
  master side refused.
\<close>

definition mapped_addr :: "range_addr_mapper \<Rightarrow> packet \<Rightarrow> Addr" where
  "mapped_addr m p = (if IS_REMAPPED p then pk_addr p else remapAddr m (pk_addr p))"

fun mapper_refusals :: "range_addr_mapper \<Rightarrow> nat \<Rightarrow> packet \<Rightarrow> packet res" where
  "mapper_refusals m 0 p = Inr p"
| "mapper_refusals m (Suc n) p =
     bindR (mapper_recvTimingReq m (\<lambda>s q. Inr (False, q, s)) () p) (\<lambda>(_, p', _). mapper_refusals m n p')"

definition refused_pkt :: "range_addr_mapper \<Rightarrow> packet \<Rightarrow> packet" where
  "refused_pkt m p = p\<lparr>pk_addr := mapped_addr m p, IS_REMAPPED := True\<rparr>"

lemma refused_pkt_sel:
  "wf_packet (refused_pkt m p) = wf_packet p" "needsResponse (refused_pkt m p) = needsResponse p"
  "memInhibitAsserted (refused_pkt m p) = memInhibitAsserted p" "refused_pkt m (refused_pkt m p) = refused_pkt m p"
  "pk_addr (refused_pkt m p) = mapped_addr m p" "senderState (refused_pkt m p) = senderState p"
  "mapped_addr m (refused_pkt m p) = mapped_addr m p"
  by (simp_all add: refused_pkt_def mapped_addr_def wf_packet_def pkt_test_defs memInhibitAsserted_def)

lemma mapper_refusals_result:
  assumes "wf_packet p" "needsResponse p" "\<not> memInhibitAsserted p"
  shows "mapper_refusals m n p = Inr (if n = 0 then p else refused_pkt m p)"
  using assms
proof (induction n arbitrary: p)
  case (Suc n)
  have "mapper_recvTimingReq m (\<lambda>s q. Inr (False, q, s)) () p = Inr (False, refused_pkt m p, ())"
    by (simp add: mapper_recvTimingReq_unfold [OF Suc.prems] popSenderState_def mapped_pkt_def refused_pkt_def mapped_addr_def)
  then show ?case using Suc.IH [of "refused_pkt m p"] Suc.prems by (simp add: refused_pkt_sel)
qed simp

text \<open>C10: a timing request may be refused by the master side any number of times (\<open>n\<close>) before it is accepted. Each
  time it is seen there at the same address, the remapped one (or its own, if it comes from a mapper and is marked as remapped).
  A response that comes back with the sender states of that request is delivered to the slave side with the original
  sender states, and, if the first attempt was accepted, with the original address. After a refusal the packet
  comes again at its remapped address, and that is then the address of the response.\<close>

theorem mapper_timing_roundtrip:
  assumes wf: "wf_packet p" and nr: "needsResponse p" "\<not> memInhibitAsserted p"
  shows "\<exists>p'. mapper_refusals m n p = Inr p' \<and>
    (mapper_recvTimingReq m send s p' = Inr (True, q, s') \<longrightarrow>
      (\<exists>sent. send s sent = Inr (True, q, s') \<and> pk_addr sent = mapped_addr m p \<and>
        (\<forall>t r t' r'. wf_packet r \<and> senderState r = senderState sent \<and>
           resp t (r\<lparr>senderState := senderState p, pk_addr := (if n = 0 then pk_addr p else mapped_addr m p)\<rparr>) = Inr (True, r', t') \<longrightarrow>
           mapper_recvTimingResp resp t r = Inr (True, r', t'))))"
proof -
  let ?p = "if n = 0 then p else refused_pkt m p"
  have p': "wf_packet ?p" "needsResponse ?p" "\<not> memInhibitAsserted ?p" "mapped_addr m ?p = mapped_addr m p"
    "senderState ?p = senderState p" "pk_addr ?p = (if n = 0 then pk_addr p else mapped_addr m p)"
    using assms by (simp_all add: refused_pkt_sel)
  have "\<exists>sent. send s sent = Inr (True, q, s') \<and> pk_addr sent = mapped_addr m p \<and>
        (\<forall>t r t' r'. wf_packet r \<and> senderState r = senderState sent \<and>
           resp t (r\<lparr>senderState := senderState p, pk_addr := (if n = 0 then pk_addr p else mapped_addr m p)\<rparr>) = Inr (True, r', t') \<longrightarrow>
           mapper_recvTimingResp resp t r = Inr (True, r', t'))"
    if "mapper_recvTimingReq m send s ?p = Inr (True, q, s')"
  proof -
    have "send s (mapped_pkt m ?p) = Inr (True, q, s')"
      using that unfolding mapper_recvTimingReq_unfold [OF p'(1-3)] by (auto split: prod.splits if_splits)
    moreover have "pk_addr (mapped_pkt m ?p) = mapped_addr m p"
      "senderState (mapped_pkt m ?p) = AddrMapperSenderState (pk_addr ?p) # senderState p"
      using p'(4,5) by (simp_all add: mapped_pkt_def mapped_addr_def)
    ultimately show ?thesis
      by (intro exI [of _ "mapped_pkt m ?p"])
        (auto simp: mapper_recvTimingResp_def wf_packet_accessors setAddr_def wf_packet_def p'(6))
  qed
  then show ?thesis using mapper_refusals_result [OF assms, of m n] by blast
qed

text \<open>A read at address 7 that is accepted at once, and one that is refused twice before.\<close>

theorem mapper_timing_roundtrip_witness:
  "\<exists>m. RangeAddrMapper [mkAddrRange 0 255] [mkAddrRange 0x1000 0x10ff] = Inr m \<and>
     (\<forall>n \<in> {0, 2}. \<exists>p sent r'. mapper_refusals m n (plain_packet ReadReq 7 [0]) = Inr p \<and>
       mapper_recvTimingReq m (\<lambda>s q. Inr (True, q, s)) () p = Inr (True, sent, ()) \<and> pk_addr sent = 0x1007 \<and>
       mapper_recvTimingResp (\<lambda>s q. Inr (True, q, s)) () sent = Inr (True, r', ()) \<and> pk_addr r' = (if n = 0 then 7 else 0x1007))"
proof -
  let ?p = "plain_packet ReadReq 7 [0]" and ?ok = "\<lambda>s q. Inr (True, q, s) :: (bool \<times> packet \<times> unit) res"
  define m where "m = \<lparr>originalRanges = [mkAddrRange 0 255], remappedRanges = [mkAddrRange 0x1000 0x10ff]\<rparr>"
  have m: "RangeAddrMapper [mkAddrRange 0 255] [mkAddrRange 0x1000 0x10ff] = Inr m"
    by (simp add: RangeAddrMapper_def m_def)
  have nr: "wf_packet ?p" "needsResponse ?p" "\<not> memInhibitAsserted ?p" by (simp_all add: pkt_test_defs cmd_defs)
  have a: "mapped_addr m ?p = 0x1007" by (simp add: mapped_addr_def remapAddr_def m_def)
  have "\<exists>p sent r'. mapper_refusals m n ?p = Inr p \<and> mapper_recvTimingReq m ?ok () p = Inr (True, sent, ()) \<and>
       pk_addr sent = 0x1007 \<and> mapper_recvTimingResp ?ok () sent = Inr (True, r', ()) \<and> pk_addr r' = (if n = 0 then 7 else 0x1007)" for n
  proof -
    let ?p' = "if n = 0 then ?p else refused_pkt m ?p"
    have r: "mapper_refusals m n ?p = Inr ?p'" by (rule mapper_refusals_result [OF nr])
    have "wf_packet ?p'" "needsResponse ?p'" "\<not> memInhibitAsserted ?p'" using nr by (simp_all add: refused_pkt_sel)
    then have acc: "mapper_recvTimingReq m ?ok () ?p' = Inr (True, mapped_pkt m ?p', ())" "wf_packet (mapped_pkt m ?p')"
      by (simp_all add: mapper_recvTimingReq_unfold mapped_pkt_def wf_packet_def)
    obtain p' where p': "mapper_refusals m n ?p = Inr p'" and
      rt: "mapper_recvTimingReq m ?ok () p' = Inr (True, mapped_pkt m ?p', ()) \<longrightarrow>
        (\<exists>sent. ?ok () sent = Inr (True, mapped_pkt m ?p', ()) \<and> pk_addr sent = mapped_addr m ?p \<and>
        (\<forall>t r t' r'. wf_packet r \<and> senderState r = senderState sent \<and>
           ?ok t (r\<lparr>senderState := senderState ?p, pk_addr := (if n = 0 then pk_addr ?p else mapped_addr m ?p)\<rparr>) = Inr (True, r', t') \<longrightarrow>
           mapper_recvTimingResp ?ok t r = Inr (True, r', t')))"
      using mapper_timing_roundtrip [OF nr, of m n ?ok "()" "mapped_pkt m ?p'" "()" ?ok] by (elim exE conjE) (rule that)
    have pe: "p' = ?p'" using p' unfolding r by simp
    obtain sent where sent: "?ok () sent = Inr (True, mapped_pkt m ?p', ())" "pk_addr sent = mapped_addr m ?p"
      and rs: "\<forall>t r t' r'. wf_packet r \<and> senderState r = senderState sent \<and>
           ?ok t (r\<lparr>senderState := senderState ?p, pk_addr := (if n = 0 then pk_addr ?p else mapped_addr m ?p)\<rparr>) = Inr (True, r', t') \<longrightarrow>
           mapper_recvTimingResp ?ok t r = Inr (True, r', t')"
      using mp [OF rt [unfolded pe] acc(1)] by (elim exE conjE) (rule that)
    have eq: "sent = mapped_pkt m ?p'" using sent(1) by simp
    have "mapper_recvTimingResp ?ok () (mapped_pkt m ?p') = Inr (True, (mapped_pkt m ?p')\<lparr>senderState := senderState ?p,
         pk_addr := (if n = 0 then pk_addr ?p else mapped_addr m ?p)\<rparr>, ())"
      by (rule rs [rule_format]) (simp_all add: acc(2) eq)
    moreover have "pk_addr (mapped_pkt m ?p') = 0x1007" using sent(2) a eq by simp
    ultimately show ?thesis using r acc(1) a by (intro exI conjI) (assumption | simp)+
  qed
  with m show ?thesis by blast
qed

text \<open>When the master side rejects a request, the packet keeps its remapped address; the
  retry of that packet then records the remapped address as the one to restore, so its response
  is delivered at the remapped address instead of the address of the request.\<close>

theorem mapper_retry_forgets_address:
  assumes wf: "wf_packet p" and nr: "needsResponse p" "\<not> memInhibitAsserted p" "\<not> IS_REMAPPED p"
    and rej: "send s (mapped_pkt m p) = Inr (False, mapped_pkt m p, s')"
  shows "\<exists>q. mapper_recvTimingReq m send s p = Inr (False, q, s') \<and>
    pk_addr q = remapAddr m (pk_addr p) \<and> senderState q = senderState p \<and>
    (\<forall>retry t t' r. retry t (mapped_pkt m q) = Inr (True, r, t') \<longrightarrow>
       mapper_recvTimingReq m retry t q = Inr (True, r, t') \<and>
       senderState (mapped_pkt m q) = AddrMapperSenderState (remapAddr m (pk_addr p)) # senderState p)"
proof -
  define q where "q = (mapped_pkt m p)\<lparr>senderState := senderState p\<rparr>"
  have req: "mapper_recvTimingReq m send s p = Inr (False, q, s')"
    using rej by (simp add: mapper_recvTimingReq_unfold [OF wf nr(1,2)] popSenderState_def q_def
        mapped_pkt_def)
  have q: "wf_packet q" "needsResponse q" "\<not> memInhibitAsserted q"
    using wf nr by (simp_all add: q_def mapped_pkt_def wf_packet_def pkt_test_defs memInhibitAsserted_def)
  have a: "pk_addr q = remapAddr m (pk_addr p)" "senderState q = senderState p"
    using nr(3) by (simp_all add: q_def mapped_pkt_def)
  then have "senderState (mapped_pkt m q) = AddrMapperSenderState (remapAddr m (pk_addr p)) # senderState p"
    by (simp add: mapped_pkt_def)
  then show ?thesis
    using req a by (auto intro!: exI [of _ q] simp: mapper_recvTimingReq_unfold [OF q])
qed

theorem mapper_retry_forgets_address_witness:
  "\<exists>m q. RangeAddrMapper [mkAddrRange 0 255] [mkAddrRange 0x1000 0x10ff] = Inr m \<and>
     mapper_recvTimingReq m (\<lambda>s q. Inr (False, q, s)) () (plain_packet ReadReq 7 [0]) = Inr (False, q, ()) \<and>
     pk_addr q = 0x1007"
proof -
  let ?p = "plain_packet ReadReq 7 [0]" and ?no = "\<lambda>s q. Inr (False, q, s) :: (bool \<times> packet \<times> unit) res"
  define m where "m = \<lparr>originalRanges = [mkAddrRange 0 255], remappedRanges = [mkAddrRange 0x1000 0x10ff]\<rparr>"
  have "RangeAddrMapper [mkAddrRange 0 255] [mkAddrRange 0x1000 0x10ff] = Inr m"
    by (simp add: RangeAddrMapper_def m_def)
  moreover have "needsResponse ?p" by (simp add: pkt_test_defs cmd_defs)
  moreover have "remapAddr m 7 = 0x1007" by (simp add: remapAddr_def m_def)
  ultimately show ?thesis
    using mapper_retry_forgets_address [of ?p ?no "()" m "()"] by auto
qed

section \<open>Functional accesses\<close>

context functional_memory
begin

lemma mapped_read:
  assumes "inv s" "wf_packet p" "isRead p" "isRequest p" "needsResponse p"
    and pl: "payload_ok (p\<lparr>pk_addr := remapAddr m (pk_addr p)\<rparr>) d"
    and bs: "bytes_at (view s) (remapAddr m (pk_addr p)) bs" "length bs = length d"
  shows "\<exists>q. mapper_recvFunctional m facc s p = Inr (q, s) \<and> getPtr q = Inr bs \<and>
    isResponse q \<and> pk_addr q = pk_addr p"
proof -
  let ?p = "p\<lparr>pk_addr := remapAddr m (pk_addr p)\<rparr>"
  have "wf_packet ?p" "isRead ?p" "isRequest ?p" "needsResponse ?p"
    using assms(2-5) by (simp_all add: wf_packet_def pkt_test_defs)
  then obtain q where "facc s ?p = Inr (q, s)" "getPtr q = Inr bs" "isResponse q" "wf_packet q"
    using read_law [OF assms(1) _ _ _ _ pl, of bs] bs by auto
  then show ?thesis
    using assms(2)
    by (auto simp: mapper_recvFunctional_def wf_packet_accessors getPtr_def pkt_test_defs)
qed

end

end
