(* ===== verification/Float32.thy ===== *)
theory Float32
  imports Prelude
begin

text \<open>
  Addition of C++ \<open>float\<close> values on their 32-bit encodings, as the memory applies it for the
  atomic float-add command: IEEE 754 single precision, rounding to nearest with ties to even.
  A finite magnitude is a natural number in units of the smallest subnormal, so sums are exact
  before the one rounding. A not-a-number operand is returned with its quiet bit set.
\<close>

definition f32_neg :: "nat \<Rightarrow> bool" where "f32_neg n \<longleftrightarrow> 2 ^ 31 \<le> n"
definition f32_exp :: "nat \<Rightarrow> nat" where "f32_exp n = n div 2 ^ 23 mod 256"
definition f32_man :: "nat \<Rightarrow> nat" where "f32_man n = n mod 2 ^ 23"

definition f32_isNaN :: "nat \<Rightarrow> bool" where
  "f32_isNaN n \<longleftrightarrow> f32_exp n = 255 \<and> f32_man n \<noteq> 0"

definition f32_isInf :: "nat \<Rightarrow> bool" where
  "f32_isInf n \<longleftrightarrow> f32_exp n = 255 \<and> f32_man n = 0"

definition f32_mag :: "nat \<Rightarrow> nat" where
  "f32_mag n = (if f32_exp n = 0 then f32_man n else (2 ^ 23 + f32_man n) * 2 ^ (f32_exp n - 1))"

definition f32_val :: "nat \<Rightarrow> int" where
  "f32_val n = (if f32_neg n then - int (f32_mag n) else int (f32_mag n))"

fun bitlen :: "nat \<Rightarrow> nat" where
  "bitlen n = (if n = 0 then 0 else Suc (bitlen (n div 2)))"

declare bitlen.simps [simp del]

definition f32_round :: "nat \<Rightarrow> nat" where
  "f32_round N =
     (if N < 2 ^ 24 then N
      else let k = bitlen N - 24; q = N div 2 ^ k; r = N mod 2 ^ k; half = 2 ^ (k - 1);
               q' = (if r > half \<or> (r = half \<and> odd q) then q + 1 else q)
           in min (k * 2 ^ 23 + q') 0x7f800000)"

definition f32_quiet :: "nat \<Rightarrow> nat" where
  "f32_quiet n = (if n div 2 ^ 22 mod 2 = 0 then n + 2 ^ 22 else n)"

definition f32_add_nat :: "nat \<Rightarrow> nat \<Rightarrow> nat" where
  "f32_add_nat a b =
     (if f32_isNaN a then f32_quiet a
      else if f32_isNaN b then f32_quiet b
      else if f32_isInf a then (if f32_isInf b \<and> f32_neg a \<noteq> f32_neg b then 0xffc00000 else a)
      else if f32_isInf b then b
      else let s = f32_val a + f32_val b in
        if s = 0 then (if f32_neg a \<and> f32_neg b then 2 ^ 31 else 0)
        else (if s < 0 then 2 ^ 31 else 0) + f32_round (nat \<bar>s\<bar>))"

definition f32_add :: "u32 \<Rightarrow> u32 \<Rightarrow> u32" where
  "f32_add a b = of_nat (f32_add_nat (unat a) (unat b))"

section \<open>Rounding is exact on representable values\<close>

lemma bitlen_mult_pow2: "0 < n \<Longrightarrow> bitlen (n * 2 ^ k) = bitlen n + k"
proof (induction k)
  case 0
  then show ?case by simp
next
  case (Suc k)
  have "bitlen (n * 2 ^ Suc k) = Suc (bitlen (n * 2 ^ k))"
    using Suc.prems by (subst bitlen.simps) simp
  then show ?case using Suc by simp
qed

lemma bitlen_exact: "2 ^ k \<le> n \<Longrightarrow> n < 2 ^ Suc k \<Longrightarrow> bitlen n = Suc k"
proof (induction k arbitrary: n)
  case 0
  then have "n = 1" by simp
  then show ?case by (simp add: bitlen.simps)
next
  case (Suc k)
  have "bitlen (n div 2) = Suc k" using Suc.prems by (intro Suc.IH) auto
  moreover have "n \<noteq> 0" using Suc.prems(1) by (metis le_zero_eq power_not_zero zero_neq_numeral)
  ultimately show ?case by (subst bitlen.simps) simp
qed

lemma f32_round_mag:
  assumes "c < 2 ^ 31" "f32_exp c < 255"
  shows "f32_round (f32_mag c) = c"
proof -
  let ?e = "f32_exp c" and ?m = "f32_man c"
  have e: "?e = c div 2 ^ 23" using assms(1) by (simp add: f32_exp_def)
  have c: "c = ?e * 2 ^ 23 + ?m" unfolding e f32_man_def by (simp only: div_mult_mod_eq)
  have m: "?m < 2 ^ 23" by (simp add: f32_man_def)
  show ?thesis
  proof (cases "?e \<le> 1")
    case True
    then have "?e = 0 \<or> ?e = 1" by auto
    then have "f32_mag c = c" using c by (auto simp: f32_mag_def)
    moreover have "c < 2 ^ 24" using c m True by auto
    ultimately show ?thesis by (simp add: f32_round_def)
  next
    case False
    let ?q = "2 ^ 23 + ?m" and ?k = "?e - 1"
    have N: "f32_mag c = ?q * 2 ^ ?k" using False by (simp add: f32_mag_def)
    have k: "?k = Suc (?k - 1)" using False by simp
    have "bitlen ?q = 24" using bitlen_exact [of 23 ?q] m by simp
    then have bl: "bitlen (f32_mag c) - 24 = ?k" using bitlen_mult_pow2 [of ?q ?k] N by simp
    have big: "\<not> f32_mag c < 2 ^ 24"
    proof -
      have "(2::nat) ^ 23 * 2 \<le> ?q * 2 ^ ?k"
        by (rule mult_le_mono) (simp, subst k, simp)
      then show ?thesis using N by simp
    qed
    have "f32_round (f32_mag c) = min (?k * 2 ^ 23 + ?q) 0x7f800000"
      unfolding f32_round_def using big bl by (simp add: Let_def N)
    moreover have "?k * 2 ^ 23 + ?q = c" using c False by (cases ?e) simp_all
    moreover have "c < 0x7f800000" using c m assms(2) by simp
    ultimately show ?thesis by simp
  qed
qed

lemma f32_drop_sign: "f32_exp (2 ^ 31 + x) = f32_exp x" "f32_man (2 ^ 31 + x) = f32_man x"
proof -
  have eq: "2 ^ 31 + x = x + 256 * 2 ^ 23" by simp
  show "f32_exp (2 ^ 31 + x) = f32_exp x"
    unfolding f32_exp_def eq by (subst div_mult_self1) simp_all
  show "f32_man (2 ^ 31 + x) = f32_man x"
    unfolding f32_man_def eq by (rule mod_mult_self1)
qed

text \<open>Adding two finite floats whose exact sum is a non-zero representable value yields the
  encoding of that value, and the operands may be swapped.\<close>

lemma f32_add_exact:
  assumes fin: "f32_exp (unat a) < 255" "f32_exp (unat b) < 255" "f32_exp (unat c) < 255"
    and sum: "f32_val (unat a) + f32_val (unat b) = f32_val (unat c)" "f32_val (unat c) \<noteq> 0"
  shows "f32_add a b = c \<and> f32_add b a = c"
proof -
  let ?c = "unat c"
  define c0 where "c0 = (if f32_neg ?c then ?c - 2 ^ 31 else ?c)"
  have ub: "?c < 2 ^ 32" using unsigned_less [of c, where 'a = nat] by simp
  have split: "?c = (if f32_neg ?c then 2 ^ 31 else 0) + c0" "c0 < 2 ^ 31"
    using ub by (auto simp: c0_def f32_neg_def)
  have "f32_exp ?c = f32_exp c0 \<and> f32_man ?c = f32_man c0"
    using split f32_drop_sign [of c0] by (cases "f32_neg ?c") simp_all
  then have mag: "f32_mag ?c = f32_mag c0" and "f32_exp c0 < 255"
    using fin(3) by (simp_all add: f32_mag_def)
  then have rnd: "f32_round (f32_mag ?c) = c0" using f32_round_mag [OF split(2)] by simp
  have "f32_add_nat (unat x) (unat y) = ?c"
    if "f32_exp (unat x) < 255" "f32_exp (unat y) < 255"
      "f32_val (unat x) + f32_val (unat y) = f32_val ?c" for x y :: u32
  proof -
    have "f32_add_nat (unat x) (unat y) =
        (if f32_val ?c < 0 then 2 ^ 31 else 0) + f32_round (nat \<bar>f32_val ?c\<bar>)"
      using that sum(2) by (simp add: f32_add_nat_def f32_isNaN_def f32_isInf_def)
    moreover have "f32_val ?c < 0 \<longleftrightarrow> f32_neg ?c" "nat \<bar>f32_val ?c\<bar> = f32_mag ?c"
      using sum(2) by (auto simp: f32_val_def split: if_splits)
    ultimately show ?thesis using rnd split(1) by simp
  qed
  then show ?thesis
    using fin sum by (simp add: f32_add_def add.commute)
qed

text \<open>1.5 + 2.25 = 3.75.\<close>

lemma f32_add_example: "f32_add 0x3fc00000 0x40100000 = 0x40700000"
proof -
  have "f32_val 0x3fc00000 + f32_val 0x40100000 = f32_val 0x40700000"
    "f32_val 0x40700000 \<noteq> 0" "f32_exp 0x3fc00000 < 255" "f32_exp 0x40100000 < 255"
    "f32_exp 0x40700000 < 255"
    by (simp_all add: f32_val_def f32_mag_def f32_exp_def f32_man_def f32_neg_def)
  then show ?thesis
    using f32_add_exact [of "0x3fc00000" "0x40100000" "0x40700000"] by simp
qed

section \<open>The other operations of the coprocessor\<close>

text \<open>Rounding of a quotient to the nearest natural number, ties to even.\<close>

definition rne :: "nat \<Rightarrow> nat \<Rightarrow> nat" where
  "rne n d = (let q = n div d; r = n mod d in if 2 * r > d \<or> (2 * r = d \<and> odd q) then q + 1 else q)"

text \<open>The encoding of the magnitude \<open>n / d\<close>, again in units of the smallest subnormal.\<close>

definition f32_round_quot :: "nat \<Rightarrow> nat \<Rightarrow> nat" where
  "f32_round_quot n d = (let k = bitlen (n div d) - 24 in min (k * 2 ^ 23 + rne n (d * 2 ^ k)) 0x7f800000)"

definition f32_sign :: "bool \<Rightarrow> nat" where
  "f32_sign s = (if s then 2 ^ 31 else 0)"

definition f32_uminus :: "u32 \<Rightarrow> u32" where
  "f32_uminus a = a XOR 0x80000000"

definition f32_sub :: "u32 \<Rightarrow> u32 \<Rightarrow> u32" where
  "f32_sub a b = (if f32_isNaN (unat b) then f32_add a b else f32_add a (f32_uminus b))"

definition f32_mul_nat :: "nat \<Rightarrow> nat \<Rightarrow> nat" where
  "f32_mul_nat a b =
     (if f32_isNaN a then f32_quiet a
      else if f32_isNaN b then f32_quiet b
      else if f32_isInf a \<or> f32_isInf b
      then (if f32_mag a = 0 \<or> f32_mag b = 0 then 0xffc00000 else f32_sign (f32_neg a \<noteq> f32_neg b) + 0x7f800000)
      else f32_sign (f32_neg a \<noteq> f32_neg b) + f32_round_quot (f32_mag a * f32_mag b) (2 ^ 149))"

definition f32_mul :: "u32 \<Rightarrow> u32 \<Rightarrow> u32" where
  "f32_mul a b = of_nat (f32_mul_nat (unat a) (unat b))"

definition f32_div_nat :: "nat \<Rightarrow> nat \<Rightarrow> nat" where
  "f32_div_nat a b =
     (if f32_isNaN a then f32_quiet a
      else if f32_isNaN b then f32_quiet b
      else if f32_isInf a then (if f32_isInf b then 0xffc00000 else f32_sign (f32_neg a \<noteq> f32_neg b) + 0x7f800000)
      else if f32_isInf b then f32_sign (f32_neg a \<noteq> f32_neg b)
      else if f32_mag b = 0
      then (if f32_mag a = 0 then 0xffc00000 else f32_sign (f32_neg a \<noteq> f32_neg b) + 0x7f800000)
      else f32_sign (f32_neg a \<noteq> f32_neg b) + f32_round_quot (f32_mag a * 2 ^ 149) (f32_mag b))"

definition f32_div :: "u32 \<Rightarrow> u32 \<Rightarrow> u32" where
  "f32_div a b = of_nat (f32_div_nat (unat a) (unat b))"

text \<open>Comparison; the magnitude of an infinity exceeds every finite one.\<close>

definition f32_less :: "u32 \<Rightarrow> u32 \<Rightarrow> bool" where
  "f32_less a b \<longleftrightarrow> \<not> f32_isNaN (unat a) \<and> \<not> f32_isNaN (unat b) \<and> f32_val (unat a) < f32_val (unat b)"

definition f32_le :: "u32 \<Rightarrow> u32 \<Rightarrow> bool" where
  "f32_le a b \<longleftrightarrow> \<not> f32_isNaN (unat a) \<and> \<not> f32_isNaN (unat b) \<and> f32_val (unat a) \<le> f32_val (unat b)"

definition f32_of_uint :: "nat \<Rightarrow> u32" where
  "f32_of_uint n = of_nat (f32_round (n * 2 ^ 149))"

text \<open>
  \<open>f *= 1000000.0\<close>: the product in double precision is exact (24 and 14 significant bits), so there is one rounding,
  to single precision.
\<close>

definition f32_scale :: "nat \<Rightarrow> nat \<Rightarrow> nat" where
  "f32_scale c a =
     (if f32_isNaN a then f32_quiet a else if f32_isInf a then a
      else f32_sign (f32_neg a) + f32_round (c * f32_mag a))"

text \<open>\<open>(uint32_t) f\<close>, which is defined only when the truncated value fits.\<close>

definition f32_to_u32 :: "nat \<Rightarrow> u32 option" where
  "f32_to_u32 a =
     (let v = f32_mag a div 2 ^ 149 in
      if f32_exp a = 255 \<or> v \<ge> 2 ^ 32 \<or> (f32_neg a \<and> v \<noteq> 0) then None else Some (of_nat v))"

text \<open>
  \<open>0.15 / (float) n\<close>: a division in double precision, rounded to 53 bits, then rounded to single precision. The
  literal is 5404319552844595 / 2 ^ 55.
\<close>

definition f64_div_015 :: "nat \<Rightarrow> nat \<times> nat" where
  "f64_div_015 v =
     (let s = bitlen v; k = (if 5404319552844595 * 2 ^ s div v < 2 ^ 53 then s else s - 1)
      in (rne (5404319552844595 * 2 ^ k) v, 55 + k))"

definition f32_damping :: "nat \<Rightarrow> u32" where
  "f32_damping n =
     (let v = f32_mag (unat (f32_of_uint n)) div 2 ^ 149 in
      if v = 0 then 0x7f800000
      else case f64_div_015 v of (q, e) \<Rightarrow> of_nat (f32_round (q * 2 ^ (149 - e))))"

lemma rne_exact [simp]: "0 < d \<Longrightarrow> rne (q * d) d = q"
  by (simp add: rne_def Let_def)

lemma bitlen_gt_iff: "k < bitlen n \<longleftrightarrow> 2 ^ k \<le> n"
proof (induction k arbitrary: n)
  case 0
  then show ?case by (subst bitlen.simps) auto
next
  case (Suc k)
  show ?case
  proof (cases "n = 0")
    case False
    then have "Suc k < bitlen n \<longleftrightarrow> 2 ^ k \<le> n div 2" using Suc [of "n div 2"] by (subst bitlen.simps) simp
    also have "\<dots> \<longleftrightarrow> 2 ^ Suc k \<le> n" by (auto simp: less_eq_div_iff_mult_less_eq mult.commute)
    finally show ?thesis .
  qed (simp add: bitlen.simps)
qed

lemma rne_mult [simp]: "0 < c \<Longrightarrow> rne (n * c) (d * c) = rne n d"
proof -
  assume c: "0 < c"
  have "2 * (n * c mod (d * c)) = 2 * (n mod d) * c" by (simp add: mult_mod_left)
  then show ?thesis using c by (simp add: rne_def Let_def)
qed

lemma rne_pow2:
  "rne n (2 ^ Suc j) = (let q = n div 2 ^ Suc j; r = n mod 2 ^ Suc j in if r > 2 ^ j \<or> (r = 2 ^ j \<and> odd q) then q + 1 else q)"
  by (simp add: rne_def Let_def)

lemma f32_round_quot_exact:
  assumes "0 < d"
  shows "f32_round_quot (n * d) d = f32_round n"
proof -
  let ?k = "bitlen n - 24"
  have q: "f32_round_quot (n * d) d = min (?k * 2 ^ 23 + rne n (2 ^ ?k)) 0x7f800000"
    using rne_mult [OF assms, of n "2 ^ ?k"] assms by (simp add: f32_round_quot_def Let_def mult.commute)
  show ?thesis
  proof (cases "n < 2 ^ 24")
    case True
    then have "?k = 0" using bitlen_gt_iff [of 24 n] by simp
    then show ?thesis using True q by (simp add: f32_round_def rne_def Let_def)
  next
    case False
    then obtain j where k: "?k = Suc j" using bitlen_gt_iff [of 24 n] by (cases ?k) simp_all
    show ?thesis using False unfolding q f32_round_def k Let_def by (simp add: rne_pow2 Let_def del: power_Suc)
  qed
qed

text \<open>Multiplying or dividing a finite number by 1.0 gives it back.\<close>

lemma f32_one:
  assumes "f32_exp (unat a) < 255"
  shows "f32_mul a 0x3f800000 = a" "f32_div a 0x3f800000 = a"
proof -
  let ?a = "unat a"
  define a0 where "a0 = (if f32_neg ?a then ?a - 2 ^ 31 else ?a)"
  have ub: "?a < 2 ^ 32" using unsigned_less [of a, where 'a = nat] by simp
  have split: "?a = f32_sign (f32_neg ?a) + a0" "a0 < 2 ^ 31"
    using ub by (auto simp: a0_def f32_neg_def f32_sign_def)
  have "f32_exp ?a = f32_exp a0 \<and> f32_man ?a = f32_man a0"
    using split f32_drop_sign [of a0] by (cases "f32_neg ?a") (simp_all add: f32_sign_def)
  then have "f32_mag ?a = f32_mag a0" "f32_exp a0 < 255" using assms by (simp_all add: f32_mag_def)
  then have rnd: "f32_round (f32_mag ?a) = a0" using f32_round_mag [OF split(2)] by simp
  have one: "f32_mag 0x3f800000 = 2 ^ 149" "\<not> f32_isNaN 0x3f800000" "\<not> f32_isInf 0x3f800000" "\<not> f32_neg 0x3f800000"
    by (simp_all add: f32_mag_def f32_exp_def f32_man_def f32_isNaN_def f32_isInf_def f32_neg_def)
  have fin: "\<not> f32_isNaN ?a" "\<not> f32_isInf ?a" using assms by (simp_all add: f32_isNaN_def f32_isInf_def)
  have "f32_mul_nat ?a 0x3f800000 = ?a" "f32_div_nat ?a 0x3f800000 = ?a"
    using fin one rnd split(1) f32_round_quot_exact [of "2 ^ 149" "f32_mag ?a"]
    by (simp_all add: f32_mul_nat_def f32_div_nat_def)
  then show "f32_mul a 0x3f800000 = a" "f32_div a 0x3f800000 = a" by (simp_all add: f32_mul_def f32_div_def)
qed

text \<open>The damping term of PageRank for 1 and for 10 nodes: 0.15 and 0.015.\<close>

lemmas f32_eval = f32_damping_def f64_div_015_def f32_of_uint_def f32_isNaN_def f32_isInf_def f32_exp_def f32_man_def
  f32_neg_def f32_sign_def f32_mag_def f32_round_quot_def rne_def Let_def bitlen.simps f32_round_def

lemma f32_damping_examples: "f32_damping 1 = 0x3e19999a" "f32_damping 10 = 0x3c75c28f"
  by (simp_all add: f32_eval)

end
