(* ===== verification/AbstractMem.thy ===== *)
theory AbstractMem
  imports Ports AddrMapper Float32
begin

text \<open>
  The untimed memory (\<open>mem/abstract_mem.hh\<close> and \<open>mem/abstract_mem.cc\<close> under
  \<open>src/SMC_original/GEM5/gem5/src\<close>): load-locked reservations, reads, writes, swaps and the
  atomic commands of the memory cube, and functional accesses. The host memory behind
  \<open>pmemAddr\<close> is a byte list, absent for a null memory. Registration of statistics and the
  tracing macros are left out; the counters themselves are kept. The wake-up calls made when a
  reservation is cleared are recorded in \<open>wakeups\<close>. Packets arrive with a valid address and size: the
  flag checks that \<open>getAddr\<close> and \<open>getSize\<close> make on every call are not repeated here.
\<close>

section \<open>State\<close>

record locked_addr =
  la_addr :: Addr
  la_contextId :: int

definition LockedAddr_mask :: "Addr \<Rightarrow> Addr" where
  "LockedAddr_mask paddr = paddr AND NOT 0xf"

definition matchesContext :: "locked_addr \<Rightarrow> request \<Rightarrow> bool res" where
  "matchesContext l r = bindR (contextId r) (\<lambda>c. Inr (la_contextId l = c))"

definition mkLockedAddr :: "request \<Rightarrow> locked_addr res" where
  "mkLockedAddr r = bindR (getPaddr r) (\<lambda>a. bindR (contextId r) (\<lambda>c.
     Inr \<lparr>la_addr = LockedAddr_mask a, la_contextId = c\<rparr>))"

record abstract_mem =
  am_range :: addr_range
  pmem :: "byte list option"
  lockedAddrList :: "locked_addr list"
  atomic_fadd_count :: nat
  atomic_min_count :: nat
  atomic_inc_count :: nat
  bytesRead :: "nat \<Rightarrow> nat"
  bytesInstRead :: "nat \<Rightarrow> nat"
  bytesWritten :: "nat \<Rightarrow> nat"
  numReads :: "nat \<Rightarrow> nat"
  numWrites :: "nat \<Rightarrow> nat"
  numOther :: "nat \<Rightarrow> nat"
  wakeups :: "int list"

definition AbstractMemory :: "addr_range \<Rightarrow> abstract_mem" where
  "AbstractMemory r =
     \<lparr>am_range = r, pmem = None, lockedAddrList = [], atomic_fadd_count = 0,
      atomic_min_count = 0, atomic_inc_count = 0, bytesRead = (\<lambda>_. 0), bytesInstRead = (\<lambda>_. 0),
      bytesWritten = (\<lambda>_. 0), numReads = (\<lambda>_. 0), numWrites = (\<lambda>_. 0), numOther = (\<lambda>_. 0),
      wakeups = []\<rparr>"

definition AbstractMemory_init :: "abstract_mem \<Rightarrow> Addr \<Rightarrow> unit res" where
  "AbstractMemory_init m pageBytes =
     (if range_size (am_range m) mod pageBytes \<noteq> 0
      then Inl (Panic ''Memory Size not divisible by page size'') else Inr ())"

definition setBackingStore :: "abstract_mem \<Rightarrow> byte list \<Rightarrow> abstract_mem" where
  "setBackingStore m pmem_addr = m\<lparr>pmem := Some pmem_addr\<rparr>"

definition addLockedAddr :: "abstract_mem \<Rightarrow> locked_addr \<Rightarrow> abstract_mem" where
  "addLockedAddr m l = m\<lparr>lockedAddrList := lockedAddrList m @ [l]\<rparr>"

text \<open>A counter of the statistics vector of one master.\<close>

definition bump :: "nat \<Rightarrow> nat \<Rightarrow> (nat \<Rightarrow> nat) \<Rightarrow> nat \<Rightarrow> nat" where
  "bump i k f = f(i := f i + k)"

section \<open>Load-locked reservations\<close>

fun update_lock :: "int \<Rightarrow> Addr \<Rightarrow> locked_addr list \<Rightarrow> locked_addr list option" where
  "update_lock c a [] = None"
| "update_lock c a (l # ls) =
     (if la_contextId l = c then Some (l\<lparr>la_addr := a\<rparr> # ls)
      else map_option ((#) l) (update_lock c a ls))"

definition trackLoadLocked :: "abstract_mem \<Rightarrow> packet \<Rightarrow> abstract_mem res" where
  "trackLoadLocked m p =
     bindR (getPaddr (pk_req p)) (\<lambda>a.
     bindR (contextId (pk_req p)) (\<lambda>c.
       case update_lock c (LockedAddr_mask a) (lockedAddrList m) of
         Some ls \<Rightarrow> Inr (m\<lparr>lockedAddrList := ls\<rparr>)
       | None \<Rightarrow> bindR (mkLockedAddr (pk_req p)) (\<lambda>l.
                  Inr (m\<lparr>lockedAddrList := l # lockedAddrList m\<rparr>))))"

text \<open>The search of a store-conditional for its own reservation.\<close>

fun find_lock :: "Addr \<Rightarrow> request \<Rightarrow> locked_addr list \<Rightarrow> bool res" where
  "find_lock a r [] = Inr False"
| "find_lock a r (l # ls) =
     (if la_addr l = a
      then bindR (matchesContext l r) (\<lambda>mt. if mt then Inr True else find_lock a r ls)
      else find_lock a r ls)"

definition checkLockedAddrList :: "abstract_mem \<Rightarrow> packet \<Rightarrow> (bool \<times> packet \<times> abstract_mem) res" where
  "checkLockedAddrList m p =
     bindR (getPaddr (pk_req p)) (\<lambda>pa.
     let a = LockedAddr_mask pa in
     bindR (if isLLSC p
            then bindR (find_lock a (pk_req p) (lockedAddrList m)) (\<lambda>found.
              Inr (found, p\<lparr>pk_req := setExtraData (pk_req p) (if found then 1 else 0)\<rparr>))
            else Inr (True, p)) (\<lambda>(allowStore, p').
       if allowStore
       then Inr (True, p',
              m\<lparr>lockedAddrList := filter (\<lambda>l. la_addr l \<noteq> a) (lockedAddrList m),
                wakeups := wakeups m @
                  map la_contextId (filter (\<lambda>l. la_addr l = a) (lockedAddrList m))\<rparr>)
       else Inr (False, p', m)))"

definition writeOK :: "abstract_mem \<Rightarrow> packet \<Rightarrow> (bool \<times> packet \<times> abstract_mem) res" where
  "writeOK m p =
     (if lockedAddrList m = []
      then Inr (\<not> isLLSC p,
                (if isLLSC p then p\<lparr>pk_req := setExtraData (pk_req p) 0\<rparr> else p), m)
      else checkLockedAddrList m p)"

section \<open>Accesses\<close>

text \<open>\<open>hostAddr\<close>, as an offset into the host memory.\<close>

definition host_off :: "abstract_mem \<Rightarrow> packet \<Rightarrow> nat" where
  "host_off m p = unat (pk_addr p - ar_start (am_range m))"

definition in_range_check :: "abstract_mem \<Rightarrow> packet \<Rightarrow> 'a res \<Rightarrow> 'a res" where
  "in_range_check m p k =
     bindR (isSubset (mkAddrRange (pk_addr p) (pk_addr p + ucast (pk_size p) - 1)) (am_range m))
       (\<lambda>b. assertR b ''isSubset(range)'' k)"

definition swap_condition :: "packet \<Rightarrow> byte list \<Rightarrow> bool res" where
  "swap_condition p old =
     (if rq_isCondSwap (pk_req p) then
        (if pk_size p = 8 then
           bindR (getExtraData (pk_req p)) (\<lambda>x. Inr (nat_to_le 8 (unat x) = old))
         else if pk_size p = 4 then
           bindR (getExtraData (pk_req p)) (\<lambda>x. Inr (nat_to_le 4 (unat x) = old))
         else Inl (Panic ''Invalid size for conditional read/write''))
      else Inr True)"

definition access_swap :: "abstract_mem \<Rightarrow> packet \<Rightarrow> (packet \<times> abstract_mem) res" where
  "access_swap m p =
     (case pmem m of
        None \<Rightarrow> Inl (Panic ''Swap only works if there is real memory (i.e. null=False)'')
      | Some mem \<Rightarrow>
          bindR (getPtr p) (\<lambda>d.
          bindR (ofOpt (read_bytes d 0 (unat (pk_size p)))) (\<lambda>overwrite_val.
          bindR (ofOpt (read_bytes mem (host_off m p) (unat (pk_size p)))) (\<lambda>old.
          bindR (ofOpt (write_bytes d 0 old)) (\<lambda>d'.
          bindR (swap_condition p old) (\<lambda>overwrite_mem.
          bindR (if overwrite_mem then ofOpt (write_bytes mem (host_off m p) overwrite_val)
                 else Inr mem) (\<lambda>mem'.
          assertR (\<not> rq_isInstFetch (pk_req p)) ''!isInstFetch()''
            (Inr (p\<lparr>pk_data := Some d'\<rparr>,
                  m\<lparr>pmem := Some mem', numOther := bump (rq_masterId (pk_req p)) 1 (numOther m)\<rparr>)))))))))"

definition load_payload :: "abstract_mem \<Rightarrow> packet \<Rightarrow> packet res" where
  "load_payload m p =
     (case pmem m of
        None \<Rightarrow> Inr p
      | Some mem \<Rightarrow>
          bindR (getPtr p) (\<lambda>d.
          bindR (ofOpt (read_bytes mem (host_off m p) (unat (pk_size p)))) (\<lambda>bs.
          bindR (ofOpt (write_bytes d 0 bs)) (\<lambda>d'. Inr (p\<lparr>pk_data := Some d'\<rparr>)))))"

definition access_read :: "abstract_mem \<Rightarrow> packet \<Rightarrow> (packet \<times> abstract_mem) res" where
  "access_read m p =
     assertR (\<not> isWrite p) ''!isWrite()''
    (bindR (if isLLSC p then trackLoadLocked m p else Inr m) (\<lambda>m1.
     bindR (load_payload m1 p) (\<lambda>p1.
     let i = rq_masterId (pk_req p); n = unat (pk_size p) in
       Inr (p1, m1\<lparr>numReads := bump i 1 (numReads m1), bytesRead := bump i n (bytesRead m1),
                   bytesInstRead := (if rq_isInstFetch (pk_req p)
                     then bump i n (bytesInstRead m1) else bytesInstRead m1)\<rparr>))))"

definition HMC_CMD_INC :: byte where "HMC_CMD_INC = 0x31"
definition HMC_CMD_FADD :: byte where "HMC_CMD_FADD = 0x32"
definition HMC_CMD_MIN :: byte where "HMC_CMD_MIN = 0x33"

lemmas hmc_cmd_defs = HMC_CMD_INC_def HMC_CMD_FADD_def HMC_CMD_MIN_def

text \<open>A read-modify-write of \<open>n\<close> bytes, as an operation on their little-endian value.\<close>

definition update_le :: "byte list \<Rightarrow> nat \<Rightarrow> nat \<Rightarrow> (nat \<Rightarrow> nat) \<Rightarrow> byte list res" where
  "update_le mem off n f =
     bindR (ofOpt (read_bytes mem off n)) (\<lambda>bs. ofOpt (write_bytes mem off (nat_to_le n (f (le_to_nat bs)))))"

definition hmc_command :: "abstract_mem \<Rightarrow> packet \<Rightarrow> byte list \<Rightarrow> abstract_mem res" where
  "hmc_command m p mem =
     (if ATOMIC_HMC_COMMAND p = HMC_CMD_INC then
        (if pk_size p = 4 \<or> pk_size p = 8
         then bindR (update_le mem (host_off m p) (unat (pk_size p)) (\<lambda>v. v + 1)) (\<lambda>mem'.
           Inr (m\<lparr>pmem := Some mem', atomic_inc_count := atomic_inc_count m + 1\<rparr>))
         else Inl (Panic ''Unsupported size for atomic increment''))
      else if ATOMIC_HMC_COMMAND p = HMC_CMD_FADD then
        bindR (update_le mem (host_off m p) 4
          (\<lambda>v. unat (f32_add (of_nat v) (ucast (ATOMIC_HMC_OPERAND p))))) (\<lambda>mem'.
          Inr (m\<lparr>pmem := Some mem', atomic_fadd_count := atomic_fadd_count m + 1\<rparr>))
      else if ATOMIC_HMC_COMMAND p = HMC_CMD_MIN then
        (if pk_size p = 4
         then bindR (update_le mem (host_off m p) 4
           (\<lambda>v. let n = unat (ucast (ATOMIC_HMC_OPERAND p) :: u32) in if n < v then n else v)) (\<lambda>mem'.
           Inr (m\<lparr>pmem := Some mem', atomic_min_count := atomic_min_count m + 1\<rparr>))
         else if pk_size p = 8 then Inl (Panic ''not implemented yet!'')
         else Inl (Panic ''Unsupported size for atomic increment''))
      else Inl (Panic ''Unsupported atomic command!''))"

definition access_write :: "abstract_mem \<Rightarrow> packet \<Rightarrow> (packet \<times> abstract_mem) res" where
  "access_write m p =
     bindR (writeOK m p) (\<lambda>(ok, p1, m1).
       if ok then
         bindR (case pmem m1 of
                  None \<Rightarrow> Inr (p1, m1)
                | Some mem \<Rightarrow>
                    if ATOMIC_HMC_COMMAND p1 \<noteq> 0
                    then bindR (hmc_command m1 p1 mem) (\<lambda>m2. Inr (p1\<lparr>ATOMIC_HMC_COMMAND := 0\<rparr>, m2))
                    else bindR (writeData p1 mem (host_off m1 p1)) (\<lambda>mem'.
                           Inr (p1, m1\<lparr>pmem := Some mem'\<rparr>))) (\<lambda>(p2, m2).
         assertR (\<not> rq_isInstFetch (pk_req p2)) ''!isInstFetch()''
           (let i = rq_masterId (pk_req p2) in
            Inr (p2, m2\<lparr>numWrites := bump i 1 (numWrites m2),
                        bytesWritten := bump i (unat (pk_size p2)) (bytesWritten m2)\<rparr>)))
       else Inr (p1, m1))"

definition access :: "abstract_mem \<Rightarrow> packet \<Rightarrow> (packet \<times> abstract_mem) res" where
  "access m p =
     in_range_check m p
      (if memInhibitAsserted p then Inr (p, m)
       else
         bindR (if pk_cmd p = SwapReq then access_swap m p
                else if isRead p then access_read m p
                else if isWrite p then access_write m p
                else if isInvalidate p then Inr (p, m)
                else Inl (Panic ''unimplemented'')) (\<lambda>(p1, m1).
           if needsResponse p1 then bindR (makeResponse p1) (\<lambda>p2. Inr (p2, m1))
           else Inr (p1, m1)))"

definition functionalAccess :: "abstract_mem \<Rightarrow> packet \<Rightarrow> (packet \<times> abstract_mem) res" where
  "functionalAccess m p =
     in_range_check m p
      (if isRead p then
         bindR (load_payload m p) (\<lambda>p1. bindR (makeResponse p1) (\<lambda>p2. Inr (p2, m)))
       else if isWrite p then
         bindR (case pmem m of
                  None \<Rightarrow> Inr m
                | Some mem \<Rightarrow> bindR (writeData p mem (host_off m p)) (\<lambda>mem'.
                    Inr (m\<lparr>pmem := Some mem'\<rparr>))) (\<lambda>m1.
         bindR (makeResponse p) (\<lambda>p2. Inr (p2, m1)))
       else if isPrint p then
         (case senderState p of
            PrintReqState # _ \<Rightarrow> Inr (p, m)
          | _ \<Rightarrow> Inl (AssertFail ''prs''))
       else Inl (Panic ''AbstractMemory: unimplemented functional command''))"

lemmas access_defs = access_def access_swap_def access_read_def access_write_def load_payload_def
  swap_condition_def in_range_check_def

text \<open>What the evaluation of an access on a concrete memory and packet unfolds.\<close>

lemmas packet_eval_defs = Packet_blank_def Request0_def pkt_test_defs cmd_defs memInhibitAsserted_def
  fl_defs pkt_flag_defs rq_flag_defs rq_test_defs getPtr_def makeResponse_def Let_def

section \<open>The memory as a functional port\<close>

definition mem_inv :: "abstract_mem \<Rightarrow> bool" where
  "mem_inv m \<longleftrightarrow> \<not> interleaved (am_range m) \<and> range_valid (am_range m) \<and>
     (case pmem m of None \<Rightarrow> False
      | Some mem \<Rightarrow> length mem = unat (ar_end (am_range m)) - unat (ar_start (am_range m)) + 1)"

definition mem_view :: "abstract_mem \<Rightarrow> Addr \<Rightarrow> byte option" where
  "mem_view m a =
     (case pmem m of None \<Rightarrow> None
      | Some mem \<Rightarrow> if contains (am_range m) a then Some (mem ! unat (a - ar_start (am_range m))) else None)"

lemma mem_invE:
  assumes "mem_inv m"
  obtains mem where "pmem m = Some mem" "\<not> interleaved (am_range m)"
    "unat (ar_start (am_range m)) \<le> unat (ar_end (am_range m))"
    "length mem = unat (ar_end (am_range m)) - unat (ar_start (am_range m)) + 1"
    "\<And>a. contains (am_range m) a \<longleftrightarrow>
       unat (ar_start (am_range m)) \<le> unat a \<and> unat a \<le> unat (ar_end (am_range m))"
  using assms by (auto simp: mem_inv_def range_valid_def word_le_nat_alt split: option.splits)

lemma bytes_at_mem:
  assumes inv: "mem_inv m" and mem: "pmem m = Some mem"
    and at: "bytes_at (mem_view m) a bs" and ne: "bs \<noteq> []" and fit: "unat a + length bs \<le> 2 ^ 64"
  shows "unat (ar_start (am_range m)) \<le> unat a"
    "unat a + length bs - 1 \<le> unat (ar_end (am_range m))"
    "read_bytes mem (unat (a - ar_start (am_range m))) (length bs) = Some bs"
proof -
  let ?s = "ar_start (am_range m)" and ?e = "ar_end (am_range m)"
  obtain len: "length mem = unat ?e - unat ?s + 1"
    and c: "\<And>a. contains (am_range m) a \<longleftrightarrow> unat ?s \<le> unat a \<and> unat a \<le> unat ?e"
    using inv mem by (elim mem_invE) auto
  have each: "unat ?s \<le> unat a + i \<and> unat a + i \<le> unat ?e \<and> mem ! unat (a + of_nat i - ?s) = bs ! i"
    if "i < length bs" for i
    using that at fit c [of "a + of_nat i"] unat_add_of_nat [of a i] mem
    by (auto simp: bytes_at_def mem_view_def split: if_splits)
  from ne have n: "0 < length bs" "length bs - 1 < length bs" by auto
  show lo: "unat ?s \<le> unat a" using each [OF n(1)] by simp
  show hi: "unat a + length bs - 1 \<le> unat ?e" using each [OF n(2)] n(1) by simp
  have off: "unat (a - ?s) = unat a - unat ?s" using lo by (simp add: unat_diff_le word_le_nat_alt)
  have "take (length bs) (drop (unat (a - ?s)) mem) = bs"
  proof (rule nth_equalityI)
    show "length (take (length bs) (drop (unat (a - ?s)) mem)) = length bs"
      using lo hi len off by simp
    fix i assume "i < length (take (length bs) (drop (unat (a - ?s)) mem))"
    then have i: "i < length bs" by simp
    have "unat (a + of_nat i - ?s) = unat a - unat ?s + i"
      using i lo fit unat_add_of_nat [of a i] by (subst unat_diff_le) (simp_all add: word_le_nat_alt)
    then show "take (length bs) (drop (unat (a - ?s)) mem) ! i = bs ! i"
      using each [OF i] i off lo hi len by simp
  qed
  then show "read_bytes mem (unat (a - ?s)) (length bs) = Some bs"
    using lo hi len off by (simp add: read_bytes_def)
qed

lemma mem_view_write:
  assumes inv: "mem_inv m" and mem: "pmem m = Some mem"
    and at: "bytes_at (mem_view m) a old" and ne: "d \<noteq> []" "length old = length d"
    and fit: "unat a + length d \<le> 2 ^ 64"
  shows "\<exists>mem'. write_bytes mem (unat (a - ar_start (am_range m))) d = Some mem' \<and>
    mem_inv (m\<lparr>pmem := Some mem'\<rparr>) \<and> mem_view (m\<lparr>pmem := Some mem'\<rparr>) = store_at (mem_view m) a d"
proof -
  let ?s = "ar_start (am_range m)" and ?e = "ar_end (am_range m)"
  have one: "old \<noteq> []" using ne by auto
  have fo: "unat a + length old \<le> 2 ^ 64" using fit ne by simp
  note b = bytes_at_mem [OF inv mem at one fo]
  obtain len: "length mem = unat ?e - unat ?s + 1"
    and c: "\<And>a. contains (am_range m) a \<longleftrightarrow> unat ?s \<le> unat a \<and> unat a \<le> unat ?e"
    using inv mem by (elim mem_invE) auto
  have off: "unat (a - ?s) = unat a - unat ?s"
    using b(1) by (simp add: unat_diff_le word_le_nat_alt)
  obtain mem' where w: "write_bytes mem (unat (a - ?s)) d = Some mem'"
    using b(3) ne by (auto simp: read_bytes_def write_bytes_def split: if_splits)
  have "mem_view (m\<lparr>pmem := Some mem'\<rparr>) x = store_at (mem_view m) a d x" for x
  proof (cases "contains (am_range m) x")
    case True
    then have x: "unat ?s \<le> unat x" "unat x \<le> unat ?e" using c by auto
    then have xo: "unat (x - ?s) = unat x - unat ?s" by (simp add: unat_diff_le word_le_nat_alt)
    have "mem' ! unat (x - ?s) = (if unat a \<le> unat x \<and> unat x < unat a + length d
        then d ! (unat x - unat a) else mem ! unat (x - ?s))"
      using nth_write_bytes [OF w, of "unat (x - ?s)"] x xo off len b(1)
      by (auto simp: less_diff_conv2)
    then show ?thesis
      using True mem fit
      by (auto simp: mem_view_def store_at_def unat_diff_less_iff unat_diff_le word_le_nat_alt)
  next
    case False
    then have "\<not> (unat a \<le> unat x \<and> unat x < unat a + length d)" using c [of x] b(1,2) ne by auto
    then show ?thesis using False mem fit by (simp add: mem_view_def store_at_def unat_diff_less_iff)
  qed
  moreover have "mem_inv (m\<lparr>pmem := Some mem'\<rparr>)"
    using inv mem write_bytes_length [OF w] by (simp add: mem_inv_def)
  ultimately show ?thesis using w by blast
qed

lemma in_range_check_ok:
  assumes inv: "mem_inv m" and pl: "payload_ok p d"
    and at: "bytes_at (mem_view m) (pk_addr p) bs" "length bs = length d"
  shows "in_range_check m p k = k"
proof -
  obtain mem where mem: "pmem m = Some mem" using inv by (elim mem_invE)
  have pl': "bs \<noteq> []" "unat (pk_addr p) + length bs \<le> 2 ^ 64"
    using pl at(2) by (auto simp: payload_ok_def)
  note b = bytes_at_mem [OF inv mem at(1) pl']
  have "pk_addr p + ucast (pk_size p) - 1 = pk_addr p + of_nat (length bs) - 1"
    using pl at(2) by (simp add: payload_ok_def)
  then have "unat (pk_addr p + ucast (pk_size p) - 1) = unat (pk_addr p) + length bs - 1"
    using unat_range_end [of "length bs" "pk_addr p"] pl' by auto
  then show ?thesis
    using b by (simp add: in_range_check_def isSubset_def word_le_nat_alt)
qed

lemma load_payload_ok:
  assumes inv: "mem_inv m" and pl: "payload_ok p d"
    and at: "bytes_at (mem_view m) (pk_addr p) bs" "length bs = length d"
  shows "load_payload m p = Inr (p\<lparr>pk_data := Some bs\<rparr>)"
proof -
  obtain mem where mem: "pmem m = Some mem" using inv by (elim mem_invE)
  have pl': "bs \<noteq> []" "unat (pk_addr p) + length bs \<le> 2 ^ 64"
    using pl at(2) by (auto simp: payload_ok_def)
  show ?thesis
    using bytes_at_mem(3) [OF inv mem at(1) pl'] pl at(2) mem
    by (simp add: load_payload_def host_off_def payload_ok_def write_bytes_def)
qed

lemma writeData_ok:
  assumes "payload_ok p d"
  shows "writeData p mem off = ofOpt (write_bytes mem off d)"
  using assms by (simp add: writeData_def payload_ok_def read_bytes_def)

lemma functionalAccess_read:
  assumes "mem_inv m" "wf_packet p" "isRead p" "isRequest p" "needsResponse p" "payload_ok p d"
    "bytes_at (mem_view m) (pk_addr p) bs" "length bs = length d"
  shows "\<exists>q. functionalAccess m p = Inr (q, m) \<and> getPtr q = Inr bs \<and> isResponse q \<and>
    wf_packet q \<and> pk_size q = pk_size p"
proof -
  let ?p = "p\<lparr>pk_data := Some bs\<rparr>"
  have "isRequest ?p" "needsResponse ?p" "wf_packet ?p" "getPtr ?p = Inr bs"
    using assms(2,4-6) by (auto simp: pkt_test_defs wf_packet_def payload_ok_def getPtr_def)
  then obtain q where q: "makeResponse ?p = Inr q" "isResponse q" "wf_packet q" "getPtr q = Inr bs"
    by (metis makeResponse_ok wf_packet_ops(1) getPtr_makeResponse)
  moreover have "pk_size q = pk_size p" using q(1) by (auto simp: makeResponse_def)
  ultimately show ?thesis
    using load_payload_ok [OF assms(1,6-8)] assms(3)
    by (simp add: functionalAccess_def in_range_check_ok [OF assms(1,6-8)])
qed

lemma functionalAccess_write:
  assumes "mem_inv m" "wf_packet p" "isWrite p" "\<not> isRead p" "isRequest p" "needsResponse p"
    "payload_ok p d" "bytes_at (mem_view m) (pk_addr p) old" "length old = length d"
  shows "\<exists>q m'. functionalAccess m p = Inr (q, m') \<and> isResponse q \<and> wf_packet q \<and> mem_inv m' \<and>
    mem_view m' = store_at (mem_view m) (pk_addr p) d"
proof -
  obtain mem where mem: "pmem m = Some mem" using assms(1) by (elim mem_invE)
  have d: "d \<noteq> []" "unat (pk_addr p) + length d \<le> 2 ^ 64"
    using assms(7) by (auto simp: payload_ok_def)
  obtain mem' where "write_bytes mem (host_off m p) d = Some mem'" "mem_inv (m\<lparr>pmem := Some mem'\<rparr>)"
    "mem_view (m\<lparr>pmem := Some mem'\<rparr>) = store_at (mem_view m) (pk_addr p) d"
    using mem_view_write [OF assms(1) mem assms(8) d(1) assms(9) d(2)] by (auto simp: host_off_def)
  moreover obtain q where "makeResponse p = Inr q" "isResponse q" "wf_packet q"
    using assms(2,5,6) by (metis makeResponse_ok wf_packet_ops(1))
  ultimately show ?thesis
    using assms(3,4) mem
    by (simp add: functionalAccess_def in_range_check_ok [OF assms(1,7-9)] writeData_ok [OF assms(7)])
qed

interpretation am: functional_memory functionalAccess mem_view mem_inv
  by unfold_locales (rule functionalAccess_read functionalAccess_write; assumption)+

text \<open>Functional writes and reads of the memory through an address mapper behave like a
  store: after a write of \<open>d\<close>, a read of the same range through a mapper that sends its address
  there returns \<open>d\<close> at the address the reader asked for.\<close>

theorem functional_write_then_mapped_read:
  assumes inv: "mem_inv m"
    and w: "wf_packet w" "isWrite w" "\<not> isRead w" "isRequest w" "needsResponse w" "payload_ok w d"
    and old: "bytes_at (mem_view m) (pk_addr w) old" "length old = length d"
    and p: "wf_packet p" "isRead p" "isRequest p" "needsResponse p"
    and pl: "payload_ok (p\<lparr>pk_addr := remapAddr am (pk_addr p)\<rparr>) e" "length e = length d"
    and to: "remapAddr am (pk_addr p) = pk_addr w"
  shows "\<exists>q m' r. functionalAccess m w = Inr (q, m') \<and>
    mapper_recvFunctional am functionalAccess m' p = Inr (r, m') \<and> getPtr r = Inr d \<and>
    isResponse r \<and> pk_addr r = pk_addr p"
proof -
  obtain q m' where 1: "functionalAccess m w = Inr (q, m')" "mem_inv m'"
    "mem_view m' = store_at (mem_view m) (pk_addr w) d"
    using am.write_law [OF inv w old] by blast
  have "length d \<le> 2 ^ 64" using w(6) by (simp add: payload_ok_def)
  then have "bytes_at (mem_view m') (remapAddr am (pk_addr p)) d"
    using bytes_at_store_at 1(3) to by simp
  then show ?thesis
    using am.mapped_read [OF 1(2) p pl(1)] pl(2) 1(1) by fastforce
qed

theorem functional_write_then_mapped_read_witness:
  "\<exists>m m' q r am. RangeAddrMapper [mkAddrRange 0 15] [mkAddrRange 0x100 0x10f] = Inr am \<and>
     m = setBackingStore (AbstractMemory (mkAddrRange 0x100 0x10f)) (replicate 16 0) \<and>
     functionalAccess m (plain_packet WriteReq 0x104 [1,2]) = Inr (q, m') \<and>
     mapper_recvFunctional am functionalAccess m' (plain_packet ReadReq 4 [0,0]) = Inr (r, m') \<and>
     getPtr r = Inr [1,2]"
proof -
  let ?w = "plain_packet WriteReq 0x104 [1,2]" and ?p = "plain_packet ReadReq 4 [0,0]"
  define m where "m = setBackingStore (AbstractMemory (mkAddrRange 0x100 0x10f)) (replicate 16 0)"
  define am where "am = \<lparr>originalRanges = [mkAddrRange 0 15], remappedRanges = [mkAddrRange 0x100 0x10f]\<rparr>"
  have am: "RangeAddrMapper [mkAddrRange 0 15] [mkAddrRange 0x100 0x10f] = Inr am"
    by (simp add: RangeAddrMapper_def am_def)
  have to: "remapAddr am (pk_addr ?p) = pk_addr ?w" by (simp add: remapAddr_def am_def)
  have inv: "mem_inv m" by (simp add: mem_inv_def m_def setBackingStore_def AbstractMemory_def range_valid_def)
  have old: "bytes_at (mem_view m) (pk_addr ?w) [0,0]"
    by (auto simp: bytes_at_def mem_view_def m_def setBackingStore_def AbstractMemory_def less_Suc_eq)
  have pl: "payload_ok (?p\<lparr>pk_addr := remapAddr am (pk_addr ?p)\<rparr>) [0,0]"
    using plain_packet_sel(11) [of ReadReq 4 "[0,0]"] to by (simp add: payload_ok_def getPtr_def)
  have t: "isWrite ?w" "\<not> isRead ?w" "isRequest ?w" "needsResponse ?w"
    "isRead ?p" "isRequest ?p" "needsResponse ?p" by (simp_all add: pkt_test_defs cmd_defs)
  have "\<exists>q m' r. functionalAccess m ?w = Inr (q, m') \<and>
    mapper_recvFunctional am functionalAccess m' ?p = Inr (r, m') \<and> getPtr r = Inr [1,2] \<and>
    isResponse r \<and> pk_addr r = pk_addr ?p"
    using functional_write_then_mapped_read [OF inv _ t(1-4) _ old _ _ t(5-7) pl _ to]
      plain_payload_ok [of "[1,2]" "0x104" WriteReq] by simp
  then show ?thesis using am m_def by blast
qed

section \<open>Reservations\<close>

text \<open>
  What the reservation list promises: at most one reservation per context, so that the list
  is a finite map from contexts to lines.
\<close>

definition locks_ok :: "abstract_mem \<Rightarrow> bool" where
  "locks_ok m \<longleftrightarrow> distinct (map la_contextId (lockedAddrList m))"

definition locks_map :: "locked_addr list \<Rightarrow> int \<rightharpoonup> Addr" where
  "locks_map ls = map_of (map (\<lambda>l. (la_contextId l, la_addr l)) ls)"

definition drop_line :: "Addr \<Rightarrow> (int \<rightharpoonup> Addr) \<Rightarrow> int \<rightharpoonup> Addr" where
  "drop_line a f c = (if f c = Some a then None else f c)"

lemma locks_map_simps [simp]:
  "locks_map [] = Map.empty"
  "locks_map (l # ls) = (locks_map ls)(la_contextId l \<mapsto> la_addr l)"
  by (simp_all add: locks_map_def)

lemma update_lock_spec:
  "case update_lock c a ls of
     None \<Rightarrow> c \<notin> la_contextId ` set ls
   | Some ls' \<Rightarrow> map la_contextId ls' = map la_contextId ls \<and> c \<in> la_contextId ` set ls \<and>
       locks_map ls' = (locks_map ls)(c \<mapsto> a)"
  by (induction ls) (auto split: option.splits)

lemma locks_map_None: "locks_map ls c = None \<longleftrightarrow> c \<notin> la_contextId ` set ls"
  by (induction ls) auto

lemma locks_map_filter:
  "distinct (map la_contextId ls) \<Longrightarrow>
     locks_map (filter (\<lambda>l. la_addr l \<noteq> a) ls) = drop_line a (locks_map ls)"
proof (induction ls)
  case Nil
  then show ?case by (auto simp: drop_line_def)
next
  case (Cons l ls)
  have "locks_map ls (la_contextId l) = None" using Cons.prems by (simp add: locks_map_None)
  then show ?case using Cons by (auto simp: drop_line_def fun_eq_iff)
qed

lemma find_lock_spec:
  assumes "contextId r = Inr c" "distinct (map la_contextId ls)"
  shows "find_lock a r ls = Inr (locks_map ls c = Some a)"
  using assms(2)
proof (induction ls)
  case Nil
  then show ?case by simp
next
  case (Cons l ls)
  have "locks_map ls (la_contextId l) = None" using Cons.prems by (simp add: locks_map_None)
  then show ?case using Cons assms(1) by (auto simp: matchesContext_def)
qed

lemma trackLoadLocked_spec:
  assumes "locks_ok m" "getPaddr (pk_req p) = Inr a" "contextId (pk_req p) = Inr c"
  shows "\<exists>m'. trackLoadLocked m p = Inr m' \<and> locks_ok m' \<and> pmem m' = pmem m \<and>
    am_range m' = am_range m \<and>
    locks_map (lockedAddrList m') = (locks_map (lockedAddrList m))(c \<mapsto> LockedAddr_mask a)"
proof (cases "update_lock c (LockedAddr_mask a) (lockedAddrList m)")
  case None
  then show ?thesis
    using assms update_lock_spec [where c = c and a = "LockedAddr_mask a" and ls = "lockedAddrList m"]
    by (simp add: trackLoadLocked_def mkLockedAddr_def locks_ok_def)
next
  case (Some ls)
  then show ?thesis
    using assms update_lock_spec [where c = c and a = "LockedAddr_mask a" and ls = "lockedAddrList m"]
    by (simp add: trackLoadLocked_def locks_ok_def)
qed

text \<open>Whether a write goes ahead, and the packet with the outcome of a store-conditional.\<close>

definition store_allowed :: "abstract_mem \<Rightarrow> packet \<Rightarrow> bool" where
  "store_allowed m p \<longleftrightarrow> (isLLSC p \<longrightarrow>
     locks_map (lockedAddrList m) (rq_contextId (pk_req p)) = Some (LockedAddr_mask (rq_paddr (pk_req p))))"

definition sc_marked :: "packet \<Rightarrow> bool \<Rightarrow> packet" where
  "sc_marked p ok =
     (if isLLSC p then p\<lparr>pk_req := setExtraData (pk_req p) (if ok then 1 else 0)\<rparr> else p)"

definition locks_after_write :: "abstract_mem \<Rightarrow> packet \<Rightarrow> int \<rightharpoonup> Addr" where
  "locks_after_write m p =
     (if store_allowed m p
      then drop_line (LockedAddr_mask (rq_paddr (pk_req p))) (locks_map (lockedAddrList m))
      else locks_map (lockedAddrList m))"

lemma checkLockedAddrList_spec:
  assumes "locks_ok m" "hasPaddr (pk_req p)" "isLLSC p \<Longrightarrow> \<exists>c. contextId (pk_req p) = Inr c"
  shows "\<exists>m'. checkLockedAddrList m p = Inr (store_allowed m p, sc_marked p (store_allowed m p), m') \<and>
    locks_ok m' \<and> pmem m' = pmem m \<and> am_range m' = am_range m \<and>
    locks_map (lockedAddrList m') = locks_after_write m p"
proof -
  let ?a = "LockedAddr_mask (rq_paddr (pk_req p))"
  have d: "distinct (map la_contextId (lockedAddrList m))" using assms(1) by (simp add: locks_ok_def)
  then have d': "distinct (map la_contextId (filter (\<lambda>l. la_addr l \<noteq> ?a) (lockedAddrList m)))"
    by (simp add: distinct_map_filter)
  have pa: "getPaddr (pk_req p) = Inr (rq_paddr (pk_req p))"
    using assms(2) by (simp add: getPaddr_def hasPaddr_def)
  have "isLLSC p \<Longrightarrow> find_lock ?a (pk_req p) (lockedAddrList m) = Inr (store_allowed m p)"
  proof -
    assume ll: "isLLSC p"
    then have "contextId (pk_req p) = Inr (rq_contextId (pk_req p))"
      using assms(3) by (auto simp: contextId_def)
    from find_lock_spec [OF this d] show ?thesis using ll by (simp add: store_allowed_def)
  qed
  then show ?thesis
    using assms(1) pa d' locks_map_filter [OF d, of ?a]
    by (cases "isLLSC p"; cases "store_allowed m p")
      (simp_all add: checkLockedAddrList_def Let_def locks_ok_def locks_after_write_def sc_marked_def
        store_allowed_def)
qed

lemma writeOK_spec:
  assumes "locks_ok m" "hasPaddr (pk_req p)" "isLLSC p \<Longrightarrow> \<exists>c. contextId (pk_req p) = Inr c"
  shows "\<exists>m'. writeOK m p = Inr (store_allowed m p, sc_marked p (store_allowed m p), m') \<and>
    locks_ok m' \<and> pmem m' = pmem m \<and> am_range m' = am_range m \<and>
    locks_map (lockedAddrList m') = locks_after_write m p"
proof (cases "lockedAddrList m = []")
  case True
  then show ?thesis
    using assms(1)
    by (auto simp: writeOK_def store_allowed_def sc_marked_def locks_after_write_def drop_line_def)
next
  case False
  then show ?thesis using checkLockedAddrList_spec [OF assms] by (simp add: writeOK_def)
qed

section \<open>Invariants of accesses\<close>

definition am_inv :: "abstract_mem \<Rightarrow> bool" where
  "am_inv m \<longleftrightarrow> mem_inv m \<and> locks_ok m"

text \<open>What an access may change of the memory besides the counters.\<close>

definition same_shape :: "abstract_mem \<Rightarrow> abstract_mem \<Rightarrow> bool" where
  "same_shape m m' \<longleftrightarrow> am_range m' = am_range m \<and> map_option length (pmem m') = map_option length (pmem m)"

lemma same_shape_refl [simp]: "same_shape m m"
  by (simp add: same_shape_def)

lemma same_shape_inv: "same_shape m m' \<Longrightarrow> mem_inv m \<Longrightarrow> mem_inv m'"
  by (auto simp: same_shape_def mem_inv_def split: option.splits)

lemma update_le_length: "update_le mem off n f = Inr mem' \<Longrightarrow> length mem' = length mem"
  by (auto simp: update_le_def dest: write_bytes_length)

lemma writeData_length: "writeData p mem off = Inr mem' \<Longrightarrow> length mem' = length mem"
  by (auto simp: writeData_def dest: write_bytes_length)

lemma trackLoadLocked_inv:
  assumes "trackLoadLocked m p = Inr m'" "locks_ok m"
  shows "same_shape m m'" "locks_ok m'"
proof -
  obtain a c where "getPaddr (pk_req p) = Inr a" "contextId (pk_req p) = Inr c"
    using assms(1) by (auto simp: trackLoadLocked_def)
  from trackLoadLocked_spec [OF assms(2) this] assms(1)
  show "same_shape m m'" "locks_ok m'" by (auto simp: same_shape_def)
qed

lemma writeOK_inv:
  assumes "writeOK m p = Inr (ok, p', m')" "locks_ok m"
  shows "same_shape m m'" "locks_ok m'"
  using assms
  by (auto simp: writeOK_def checkLockedAddrList_def Let_def same_shape_def locks_ok_def
      distinct_map_filter split: if_splits prod.splits)

lemma hmc_command_inv:
  assumes "hmc_command m p mem = Inr m'" "pmem m = Some mem"
  shows "same_shape m m'" "lockedAddrList m' = lockedAddrList m"
  using assms
  by (auto simp: hmc_command_def same_shape_def dest: update_le_length split: if_splits)

lemma access_swap_inv:
  assumes "access_swap m p = Inr (q, m')"
  shows "same_shape m m'" "lockedAddrList m' = lockedAddrList m"
  using assms
  by (auto simp: access_swap_def same_shape_def dest: write_bytes_length split: option.splits if_splits)

lemma access_read_inv:
  assumes "access_read m p = Inr (q, m')" "locks_ok m"
  shows "same_shape m m'" "locks_ok m'"
proof -
  obtain m1 where m1: "(if isLLSC p then trackLoadLocked m p else Inr m) = Inr m1"
    and m': "am_range m' = am_range m1" "pmem m' = pmem m1" "lockedAddrList m' = lockedAddrList m1"
    using assms(1) by (auto simp: access_read_def Let_def simp del: split_paired_Ex)
  have "same_shape m m1 \<and> locks_ok m1"
    using m1 trackLoadLocked_inv [of m p m1] assms(2) by (auto split: if_splits)
  with m' show "same_shape m m'" "locks_ok m'" by (simp_all add: same_shape_def locks_ok_def)
qed

lemma access_write_inv:
  assumes "access_write m p = Inr (q, m')" "locks_ok m"
  shows "same_shape m m'" "locks_ok m'"
proof -
  obtain ok p1 m1 where w: "writeOK m p = Inr (ok, p1, m1)"
    using assms(1) by (auto simp: access_write_def)
  note i = writeOK_inv [OF w assms(2)]
  have "same_shape m1 m' \<and> lockedAddrList m' = lockedAddrList m1"
    using assms(1) w hmc_command_inv [of m1 p1]
    by (auto simp: access_write_def Let_def same_shape_def dest!: writeData_length
        split: if_splits option.splits)
  with i show "same_shape m m'" "locks_ok m'" by (auto simp: same_shape_def locks_ok_def)
qed

lemma access_shape:
  assumes "access m p = Inr (q, m')" and "locks_ok m"
  shows "same_shape m m' \<and> locks_ok m'"
  using assms access_swap_inv [of m p] access_read_inv [of m p] access_write_inv [of m p]
  by (auto simp: access_def in_range_check_def locks_ok_def split: if_splits)

text \<open>Every access the memory completes, whatever its command, keeps the address range and
  the size of the host memory and leaves at most one reservation per context.\<close>

theorem access_preserves_am_inv:
  assumes "access m p = Inr (q, m')" and "am_inv m"
  shows "am_inv m' \<and> am_range m' = am_range m"
  using access_shape [OF assms(1)] assms(2) same_shape_inv by (auto simp: am_inv_def same_shape_def)

theorem access_preserves_am_inv_witness:
  "\<exists>m q m'. m = setBackingStore (AbstractMemory (mkAddrRange 0 15)) (replicate 16 0) \<and>
     access m (plain_packet WriteReq 4 [7]) = Inr (q, m') \<and> am_inv m'"
proof -
  define m where "m = setBackingStore (AbstractMemory (mkAddrRange 0 15)) (replicate 16 0)"
  have inv: "am_inv m"
    by (simp add: am_inv_def locks_ok_def mem_inv_def m_def setBackingStore_def AbstractMemory_def range_valid_def)
  obtain q m' where "access m (plain_packet WriteReq 4 [7]) = Inr (q, m')"
    by (simp add: access_defs m_def setBackingStore_def AbstractMemory_def isSubset_def writeOK_def
        pkt_test_defs cmd_defs writeData_def read_bytes_def write_bytes_def host_off_def
        rq_isInstFetch_def Request0_def fl_defs rq_flag_defs makeResponse_def Let_def)
  moreover from access_preserves_am_inv [OF this inv] have "am_inv m'" ..
  ultimately show ?thesis using m_def by blast
qed

section \<open>Functional behaviour of accesses\<close>

lemma setExtraData_sel [simp]:
  "rq_masterId (setExtraData r v) = rq_masterId r" "rq_flags (setExtraData r v) = rq_flags r"
  "rq_extraData (setExtraData r v) = v" "rq_paddr (setExtraData r v) = rq_paddr r"
  "rq_contextId (setExtraData r v) = rq_contextId r"
  by (simp_all add: setExtraData_def)

lemma sc_marked_sel [simp]:
  "pk_cmd (sc_marked p ok) = pk_cmd p" "pk_addr (sc_marked p ok) = pk_addr p"
  "pk_size (sc_marked p ok) = pk_size p" "ATOMIC_HMC_COMMAND (sc_marked p ok) = ATOMIC_HMC_COMMAND p"
  "ATOMIC_HMC_OPERAND (sc_marked p ok) = ATOMIC_HMC_OPERAND p"
  "getPtr (sc_marked p ok) = getPtr p" "payload_ok (sc_marked p ok) d = payload_ok p d"
  "rq_isInstFetch (pk_req (sc_marked p ok)) = rq_isInstFetch (pk_req p)"
  "pk_flags (sc_marked p ok) = pk_flags p"
  by (simp_all add: sc_marked_def getPtr_def payload_ok_def rq_isInstFetch_def)

lemma mem_cong:
  assumes "pmem m' = pmem m" "am_range m' = am_range m"
  shows "mem_inv m' = mem_inv m" "mem_view m' = mem_view m"
  using assms by (cases "pmem m"; auto simp: mem_inv_def mem_view_def fun_eq_iff)+

text \<open>A store request the memory serves, other than a swap and an atomic command.\<close>

definition store_request :: "abstract_mem \<Rightarrow> packet \<Rightarrow> byte list \<Rightarrow> bool" where
  "store_request m p d \<longleftrightarrow> isWrite p \<and> \<not> isRead p \<and> isRequest p \<and> \<not> memInhibitAsserted p \<and>
     ATOMIC_HMC_COMMAND p = 0 \<and> payload_ok p d \<and> hasPaddr (pk_req p) \<and>
     (isLLSC p \<longrightarrow> (\<exists>c. contextId (pk_req p) = Inr c)) \<and> \<not> rq_isInstFetch (pk_req p) \<and>
     (\<exists>old. bytes_at (mem_view m) (pk_addr p) old \<and> length old = length d)"

lemma access_write_store:
  assumes inv: "mem_inv m" "locks_ok m" and st: "store_request m p d"
  shows "\<exists>m'. access_write m p = Inr (sc_marked p (store_allowed m p), m') \<and> am_inv m' \<and>
    am_range m' = am_range m \<and>
    locks_map (lockedAddrList m') = locks_after_write m p \<and>
    mem_view m' = (if store_allowed m p then store_at (mem_view m) (pk_addr p) d else mem_view m)"
proof -
  obtain mem where mem: "pmem m = Some mem" using inv(1) by (elim mem_invE)
  obtain old where old: "bytes_at (mem_view m) (pk_addr p) old" "length old = length d"
    using st by (auto simp: store_request_def)
  have pl: "payload_ok p d" "d \<noteq> []" "unat (pk_addr p) + length d \<le> 2 ^ 64"
    using st by (auto simp: store_request_def payload_ok_def)
  obtain m1 where ok: "writeOK m p = Inr (store_allowed m p, sc_marked p (store_allowed m p), m1)"
    and m1: "locks_ok m1" "pmem m1 = pmem m" "am_range m1 = am_range m"
      "locks_map (lockedAddrList m1) = locks_after_write m p"
    using writeOK_spec [OF inv(2)] st unfolding store_request_def by meson
  have inv1: "mem_inv m1" and view1: "mem_view m1 = mem_view m"
    using inv(1) mem_cong [OF m1(2,3)] by simp_all
  obtain mem' where w: "write_bytes mem (host_off m1 p) d = Some mem'" "mem_inv (m1\<lparr>pmem := Some mem'\<rparr>)"
    "mem_view (m1\<lparr>pmem := Some mem'\<rparr>) = store_at (mem_view m) (pk_addr p) d"
    using mem_view_write [OF inv1 _ _ pl(2) old(2) pl(3), of mem] old(1) view1 m1(2) mem
    by (auto simp: host_off_def)
  have ho: "host_off m1 (sc_marked p ok) = host_off m1 p" for ok by (simp add: host_off_def)
  show ?thesis
  proof (cases "store_allowed m p")
    case False
    then show ?thesis using ok m1 inv1 view1 by (simp add: access_write_def am_inv_def)
  next
    case True
    have "mem_inv (m1\<lparr>pmem := Some mem', numWrites := x, bytesWritten := y\<rparr>)"
      "mem_view (m1\<lparr>pmem := Some mem', numWrites := x, bytesWritten := y\<rparr>) = store_at (mem_view m) (pk_addr p) d"
      for x y using w(2,3) mem_cong [of "m1\<lparr>pmem := Some mem', numWrites := x, bytesWritten := y\<rparr>"
          "m1\<lparr>pmem := Some mem'\<rparr>"] by simp_all
    then show ?thesis
      using True ok m1 w(1) st mem ho
      by (simp add: access_write_def Let_def writeData_ok [where d = d] pl(1) store_request_def
          am_inv_def locks_ok_def)
  qed
qed

lemma access_store_spec:
  assumes inv: "am_inv m" and st: "store_request m p d"
  shows "\<exists>q m'. access m p = Inr (q, m') \<and> isResponse q = needsResponse p \<and>
    (isLLSC p \<longrightarrow> rq_extraData (pk_req q) = (if store_allowed m p then 1 else 0)) \<and>
    locks_map (lockedAddrList m') = locks_after_write m p \<and>
    mem_view m' = (if store_allowed m p then store_at (mem_view m) (pk_addr p) d else mem_view m)"
proof -
  let ?q = "sc_marked p (store_allowed m p)"
  obtain old where old: "bytes_at (mem_view m) (pk_addr p) old" "length old = length d"
    and pl: "payload_ok p d" and c: "isWrite p" "\<not> isRead p" "isRequest p" "\<not> memInhibitAsserted p"
    using st by (auto simp: store_request_def)
  have inv': "mem_inv m" "locks_ok m" using inv by (simp_all add: am_inv_def)
  obtain m' where w: "access_write m p = Inr (?q, m')"
    and m': "locks_map (lockedAddrList m') = locks_after_write m p"
    "mem_view m' = (if store_allowed m p then store_at (mem_view m) (pk_addr p) d else mem_view m)"
    using access_write_store [OF inv' st] by blast
  have ns: "pk_cmd p \<noteq> SwapReq" using c by (auto simp: pkt_test_defs cmd_defs)
  have acc: "access m p = (if needsResponse ?q then bindR (makeResponse ?q) (\<lambda>p2. Inr (p2, m')) else Inr (?q, m'))"
    using w c ns by (simp add: access_def in_range_check_ok [OF inv'(1) pl old])
  have sc: "isLLSC p \<longrightarrow> rq_extraData (pk_req ?q) = (if store_allowed m p then 1 else 0)"
    by (simp add: sc_marked_def)
  have nr: "needsResponse ?q = needsResponse p" "isRequest ?q" "isResponse p = False"
    using c by (auto simp: pkt_test_defs, cases "pk_cmd p") (simp_all add: cmd_defs)
  show ?thesis
  proof (cases "needsResponse p")
    case True
    then obtain q where "makeResponse ?q = Inr q" "isResponse q" using nr makeResponse_ok by metis
    moreover from this have "pk_req q = pk_req ?q" by (auto simp: makeResponse_def)
    ultimately show ?thesis using acc True nr(1) m' sc by auto
  next
    case False
    then show ?thesis using acc nr m' sc by (auto simp: isResponse_def)
  qed
qed

text \<open>C1: a store writes its payload exactly when it is allowed: always for a plain store, and
  for a store-conditional when its context still holds a reservation on the line. The outcome is
  reported in the request, a store that goes ahead clears every reservation on its line, a failed
  store-conditional changes neither the contents nor the reservations, and the packet becomes a
  response when one is due.\<close>

theorem access_store:
  assumes inv: "am_inv m" and st: "store_request m p d"
  shows "\<exists>q m'. access m p = Inr (q, m') \<and> isResponse q = needsResponse p \<and>
    (isLLSC p \<longrightarrow> rq_extraData (pk_req q) = (if store_allowed m p then 1 else 0)) \<and>
    locks_map (lockedAddrList m') = locks_after_write m p \<and>
    mem_view m' = (if store_allowed m p then store_at (mem_view m) (pk_addr p) d else mem_view m)"
  by (rule access_store_spec [OF assms])

lemmas mem_eval_defs = access_defs functionalAccess_def writeOK_def writeData_def host_off_def
  isSubset_def setBackingStore_def AbstractMemory_def read_bytes_def write_bytes_def mem_view_def

text \<open>Packets and a memory for concrete examples: context \<open>ctx\<close> accesses the bytes at \<open>a\<close>.\<close>

definition ctx_packet :: "mem_cmd \<Rightarrow> Addr \<Rightarrow> byte list \<Rightarrow> int \<Rightarrow> packet" where
  "ctx_packet c a d ctx = (plain_packet c a d)\<lparr>pk_req := Request0\<lparr>rq_paddr := a,
     rq_size := int (length d), rq_contextId := ctx,
     rq_privateFlags := RQ_VALID_PADDR OR RQ_VALID_SIZE OR RQ_VALID_CONTEXT_ID\<rparr>\<rparr>"

definition example_mem :: abstract_mem where
  "example_mem = setBackingStore (AbstractMemory (mkAddrRange 0 31)) (replicate 32 0)"

lemma example_mem_inv [simp]: "am_inv example_mem" "lockedAddrList example_mem = []"
  by (simp_all add: am_inv_def locks_ok_def mem_inv_def example_mem_def setBackingStore_def
      AbstractMemory_def range_valid_def)

lemma example_mem_zero: "unat a + n \<le> 32 \<Longrightarrow> bytes_at (mem_view example_mem) a (replicate n 0)"
proof -
  assume le: "unat a + n \<le> 32"
  have "mem_view example_mem (a + of_nat i) = Some 0" if "i < n" for i
  proof -
    have "unat (a + of_nat i) = unat a + i" using that le by (intro unat_add_of_nat) simp
    then show ?thesis
      using that le
      by (simp add: mem_view_def example_mem_def setBackingStore_def AbstractMemory_def word_le_nat_alt)
  qed
  then show ?thesis by (simp add: bytes_at_def)
qed

lemma ctx_packet_sel [simp]:
  "pk_addr (ctx_packet c a d x) = a" "pk_size (ctx_packet c a d x) = of_nat (length d)"
  "pk_cmd (ctx_packet c a d x) = c" "rq_paddr (pk_req (ctx_packet c a d x)) = a"
  "rq_contextId (pk_req (ctx_packet c a d x)) = x" "getPtr (ctx_packet c a d x) = Inr d"
  "\<not> memInhibitAsserted (ctx_packet c a d x)" "ATOMIC_HMC_COMMAND (ctx_packet c a d x) = 0"
  "hasPaddr (pk_req (ctx_packet c a d x))" "contextId (pk_req (ctx_packet c a d x)) = Inr x"
  "\<not> rq_isInstFetch (pk_req (ctx_packet c a d x))" "\<not> rq_isCondSwap (pk_req (ctx_packet c a d x))"
  using plain_packet_sel(11,13) [of c a d]
  by (simp_all add: ctx_packet_def getPtr_def memInhibitAsserted_def hasPaddr_def contextId_def
      rq_isInstFetch_def rq_isCondSwap_def Request0_def fl_defs rq_flag_defs)

lemma ctx_payload_ok:
  "d \<noteq> [] \<Longrightarrow> length d < 2 ^ 32 \<Longrightarrow> unat a + length d \<le> 2 ^ 64 \<Longrightarrow> payload_ok (ctx_packet c a d x) d"
  by (simp add: payload_ok_def unat_of_nat_small)

lemma ctx_store_request:
  assumes "cmd_isWrite c" "\<not> cmd_isRead c" "cmd_isRequest c" "d \<noteq> []" "unat a + length d \<le> 32"
  shows "store_request example_mem (ctx_packet c a d x) d"
  using assms example_mem_zero [of a "length d"] ctx_payload_ok [of d a c x]
  by (auto simp: store_request_def pkt_test_defs intro: exI [of _ "replicate (length d) 0"])

theorem access_store_witness:
  "\<exists>q m'. access example_mem (ctx_packet StoreCondReq 4 [7] 0) = Inr (q, m') \<and>
     rq_extraData (pk_req q) = 0 \<and> mem_view m' 4 = Some 0"
proof -
  let ?p = "ctx_packet StoreCondReq 4 [7] 0"
  have st: "store_request example_mem ?p [7]" by (rule ctx_store_request) (simp_all add: cmd_defs)
  have na: "\<not> store_allowed example_mem ?p" "isLLSC ?p"
    by (simp_all add: store_allowed_def pkt_test_defs cmd_defs)
  have "mem_view example_mem 4 = Some 0"
    using example_mem_zero [of 4 1] by (simp add: bytes_at_def)
  then show ?thesis using access_store [OF example_mem_inv(1) st] na by auto
qed

lemma access_load_spec:
  assumes inv: "am_inv m"
    and c: "isRead p" "\<not> isWrite p" "isRequest p" "needsResponse p" "\<not> memInhibitAsserted p"
    and pl: "payload_ok p d" and at: "bytes_at (mem_view m) (pk_addr p) bs" "length bs = length d"
    and rq: "isLLSC p \<longrightarrow> hasPaddr (pk_req p) \<and> contextId (pk_req p) = Inr (rq_contextId (pk_req p))"
  shows "\<exists>q m'. access m p = Inr (q, m') \<and> isResponse q \<and> getPtr q = Inr bs \<and>
    mem_view m' = mem_view m \<and>
    locks_map (lockedAddrList m') =
      (if isLLSC p then (locks_map (lockedAddrList m))(rq_contextId (pk_req p) \<mapsto> LockedAddr_mask (rq_paddr (pk_req p)))
       else locks_map (lockedAddrList m))"
proof -
  have inv': "mem_inv m" "locks_ok m" using inv by (simp_all add: am_inv_def)
  obtain m1 where m1: "(if isLLSC p then trackLoadLocked m p else Inr m) = Inr m1"
    "pmem m1 = pmem m" "am_range m1 = am_range m"
    "locks_map (lockedAddrList m1) = (if isLLSC p
       then (locks_map (lockedAddrList m))(rq_contextId (pk_req p) \<mapsto> LockedAddr_mask (rq_paddr (pk_req p)))
       else locks_map (lockedAddrList m))"
    using trackLoadLocked_spec [OF inv'(2), of p "rq_paddr (pk_req p)" "rq_contextId (pk_req p)"] rq
    by (cases "isLLSC p") (auto simp: getPaddr_def hasPaddr_def)
  have view: "mem_inv m1" "mem_view m1 = mem_view m" using mem_cong [OF m1(2,3)] inv' by simp_all
  let ?p = "p\<lparr>pk_data := Some bs\<rparr>"
  have "load_payload m1 p = Inr ?p" using load_payload_ok [OF view(1) pl _ at(2)] at(1) view(2) by simp
  then obtain m2 where r: "access_read m p = Inr (?p, m2)" "pmem m2 = pmem m1" "am_range m2 = am_range m1"
    "lockedAddrList m2 = lockedAddrList m1"
    using m1(1) c(2) by (auto simp: access_read_def Let_def)
  have "isRequest ?p" "needsResponse ?p" "getPtr ?p = Inr bs"
    using c(3,4) pl by (auto simp: pkt_test_defs payload_ok_def getPtr_def)
  then obtain q where "makeResponse ?p = Inr q" "isResponse q" "getPtr q = Inr bs" "needsResponse ?p"
    by (metis makeResponse_ok getPtr_makeResponse)
  moreover have "pk_cmd p \<noteq> SwapReq" using c by (auto simp: pkt_test_defs cmd_defs)
  ultimately have "access m p = Inr (q, m2)" "isResponse q" "getPtr q = Inr bs"
    using r(1) c(1,5) by (simp_all add: access_def in_range_check_ok [OF inv'(1) pl at])
  then show ?thesis using mem_cong [OF r(2,3)] view(2) m1(4) r(4) by auto
qed

text \<open>A load returns the contents of its range and changes nothing of them; a load-locked
  records a reservation of its line for its context, replacing the one it had, and any other load
  leaves the reservations alone.\<close>

theorem access_load:
  assumes inv: "am_inv m"
    and c: "isRead p" "\<not> isWrite p" "isRequest p" "needsResponse p" "\<not> memInhibitAsserted p"
    and pl: "payload_ok p d" and at: "bytes_at (mem_view m) (pk_addr p) bs" "length bs = length d"
    and rq: "isLLSC p \<longrightarrow> hasPaddr (pk_req p) \<and> contextId (pk_req p) = Inr (rq_contextId (pk_req p))"
  shows "\<exists>q m'. access m p = Inr (q, m') \<and> isResponse q \<and> getPtr q = Inr bs \<and>
    mem_view m' = mem_view m \<and>
    locks_map (lockedAddrList m') =
      (if isLLSC p then (locks_map (lockedAddrList m))(rq_contextId (pk_req p) \<mapsto> LockedAddr_mask (rq_paddr (pk_req p)))
       else locks_map (lockedAddrList m))"
  by (rule access_load_spec [OF assms])

theorem access_load_witness:
  "\<exists>q m'. access example_mem (ctx_packet LoadLockedReq 20 [9,9] 3) = Inr (q, m') \<and>
     getPtr q = Inr [0,0] \<and> locks_map (lockedAddrList m') = [3 \<mapsto> 16]"
proof -
  let ?p = "ctx_packet LoadLockedReq 20 [9,9] 3"
  have c: "isRead ?p" "\<not> isWrite ?p" "isRequest ?p" "needsResponse ?p" "\<not> memInhibitAsserted ?p" "isLLSC ?p"
    by (simp_all add: pkt_test_defs cmd_defs)
  have pl: "payload_ok ?p [9,9]" by (rule ctx_payload_ok) simp_all
  have at: "bytes_at (mem_view example_mem) (pk_addr ?p) [0,0]"
    using example_mem_zero [of 20 "Suc (Suc 0)"] by simp
  have "LockedAddr_mask 20 = 16" by (simp add: LockedAddr_mask_def)
  then show ?thesis using access_load [OF example_mem_inv(1) c(1-5) pl at] c(6) by auto
qed



section \<open>Swaps and atomic commands\<close>

text \<open>The operands of a swap: real memory, the payload and the old contents of the range.\<close>

lemma access_swap_spec:
  assumes inv: "mem_inv m" and pl: "payload_ok p d"
    and at: "bytes_at (mem_view m) (pk_addr p) old" "length old = length d"
    and nif: "\<not> rq_isInstFetch (pk_req p)" and cond: "swap_condition p old = Inr b"
  shows "\<exists>m'. access_swap m p = Inr (p\<lparr>pk_data := Some old\<rparr>, m') \<and>
    lockedAddrList m' = lockedAddrList m \<and> am_range m' = am_range m \<and> mem_inv m' \<and>
    mem_view m' = (if b then store_at (mem_view m) (pk_addr p) d else mem_view m)"
proof -
  obtain mem where mem: "pmem m = Some mem" using inv by (elim mem_invE)
  have d: "d \<noteq> []" "unat (pk_addr p) + length d \<le> 2 ^ 64" "getPtr p = Inr d" "length d = unat (pk_size p)"
    using pl by (auto simp: payload_ok_def)
  have old: "old \<noteq> []" "unat (pk_addr p) + length old \<le> 2 ^ 64" using d at(2) by auto
  have rd: "read_bytes mem (host_off m p) (unat (pk_size p)) = Some old"
    using bytes_at_mem(3) [OF inv mem at(1) old] at(2) d(4) by (simp add: host_off_def)
  have dd: "read_bytes d 0 (unat (pk_size p)) = Some d" "write_bytes d 0 old = Some old"
    using d(4) at(2) by (simp_all add: read_bytes_def write_bytes_def)
  obtain mem' where w: "write_bytes mem (host_off m p) d = Some mem'" "mem_inv (m\<lparr>pmem := Some mem'\<rparr>)"
    "mem_view (m\<lparr>pmem := Some mem'\<rparr>) = store_at (mem_view m) (pk_addr p) d"
    using mem_view_write [OF inv mem at(1) d(1) at(2) d(2)] by (auto simp: host_off_def)
  define mm where "mm = (if b then mem' else mem)"
  have acc: "access_swap m p = Inr (p\<lparr>pk_data := Some old\<rparr>,
      m\<lparr>pmem := Some mm, numOther := bump (rq_masterId (pk_req p)) 1 (numOther m)\<rparr>)"
    using mem d(3) rd dd w(1) cond nif by (cases b) (simp_all add: access_swap_def mm_def)
  have "mem_inv (m\<lparr>pmem := Some mm\<rparr>)"
    "mem_view (m\<lparr>pmem := Some mm\<rparr>) = (if b then store_at (mem_view m) (pk_addr p) d else mem_view m)"
    using w(2,3) inv mem_cong [of "m\<lparr>pmem := Some mem\<rparr>" m] mem by (auto simp: mm_def)
  moreover have "mem_inv (m\<lparr>pmem := Some mm, numOther := x\<rparr>) = mem_inv (m\<lparr>pmem := Some mm\<rparr>)"
    "mem_view (m\<lparr>pmem := Some mm, numOther := x\<rparr>) = mem_view (m\<lparr>pmem := Some mm\<rparr>)" for x
    by (rule mem_cong; simp)+
  ultimately show ?thesis using acc by simp
qed

lemma access_swap_whole:
  assumes inv: "mem_inv m" and c: "pk_cmd p = SwapReq" "\<not> memInhibitAsserted p" and pl: "payload_ok p d"
    and at: "bytes_at (mem_view m) (pk_addr p) old" "length old = length d"
    and nif: "\<not> rq_isInstFetch (pk_req p)" and cond: "swap_condition p old = Inr b"
  shows "\<exists>q m'. access m p = Inr (q, m') \<and> isResponse q \<and> getPtr q = Inr old \<and>
    lockedAddrList m' = lockedAddrList m \<and>
    mem_view m' = (if b then store_at (mem_view m) (pk_addr p) d else mem_view m)"
proof -
  let ?p = "p\<lparr>pk_data := Some old\<rparr>"
  obtain m' where m': "access_swap m p = Inr (?p, m')" "lockedAddrList m' = lockedAddrList m"
    "mem_view m' = (if b then store_at (mem_view m) (pk_addr p) d else mem_view m)"
    using access_swap_spec [OF inv pl at nif cond] by blast
  have "isRequest ?p" "needsResponse ?p" "getPtr ?p = Inr old"
    using c pl by (auto simp: pkt_test_defs cmd_defs payload_ok_def getPtr_def)
  then obtain q where "makeResponse ?p = Inr q" "isResponse q" "getPtr q = Inr old" "needsResponse ?p"
    by (metis makeResponse_ok getPtr_makeResponse)
  then show ?thesis
    using m' c by (simp add: access_def in_range_check_ok [OF inv pl at])
qed

text \<open>A swap returns the old contents of its range in one step with storing its payload; a
  conditional swap of four or eight bytes stores only when the old contents equal the comparison
  value of the request in little-endian order.\<close>

theorem access_swap_exchanges:
  assumes inv: "am_inv m" and c: "pk_cmd p = SwapReq" "\<not> memInhibitAsserted p"
    and pl: "payload_ok p d" and at: "bytes_at (mem_view m) (pk_addr p) old" "length old = length d"
    and rq: "\<not> rq_isInstFetch (pk_req p)"
      "rq_isCondSwap (pk_req p) \<longrightarrow> pk_size p \<in> {4, 8} \<and> getExtraData (pk_req p) = Inr x"
  shows "\<exists>q m'. access m p = Inr (q, m') \<and> isResponse q \<and> getPtr q = Inr old \<and>
    mem_view m' =
      (if rq_isCondSwap (pk_req p) \<and> le_to_nat old \<noteq> unat x mod 256 ^ length old
       then mem_view m else store_at (mem_view m) (pk_addr p) d)"
proof -
  let ?b = "\<not> (rq_isCondSwap (pk_req p) \<and> le_to_nat old \<noteq> unat x mod 256 ^ length old)"
  have len: "length old = unat (pk_size p)" using pl at(2) by (simp add: payload_ok_def)
  have "swap_condition p old = Inr ?b"
  proof (cases "rq_isCondSwap (pk_req p)")
    case True
    then have x: "getExtraData (pk_req p) = Inr x" and "pk_size p = 4 \<or> pk_size p = 8" using rq(2) by auto
    then have "swap_condition p old = Inr (nat_to_le (length old) (unat x) = old)"
      using True len by (elim disjE) (simp_all add: swap_condition_def)
    then show ?thesis using True by (simp only: nat_to_le_eq_iff) simp
  next
    case False
    then show ?thesis by (simp add: swap_condition_def)
  qed
  from access_swap_whole [OF _ c pl at rq(1) this] inv show ?thesis
    by (auto simp: am_inv_def)
qed

theorem access_swap_exchanges_witness:
  "\<exists>q m'. access example_mem (ctx_packet SwapReq 8 [1,2] 0) = Inr (q, m') \<and>
     getPtr q = Inr [0,0] \<and> mem_view m' 9 = Some 2"
proof -
  let ?p = "ctx_packet SwapReq 8 [1,2] 0"
  have pl: "payload_ok ?p [1,2]" by (rule ctx_payload_ok) simp_all
  have at: "bytes_at (mem_view example_mem) (pk_addr ?p) [0,0]"
    using example_mem_zero [of 8 "Suc (Suc 0)"] by simp
  show ?thesis
    using access_swap_exchanges [OF example_mem_inv(1) _ _ pl at] by (auto simp: store_at_def)
qed

text \<open>A swap leaves the reservations on its line in place, so a store-conditional succeeds
  although another master has overwritten the line since the load-locked: the stores of swaps are
  not compared with the locked addresses.\<close>

theorem swap_keeps_reservation:
  "\<exists>q1 m1 q2 m2. access example_mem (ctx_packet LoadLockedReq 4 [0] 1) = Inr (q1, m1) \<and>
     access m1 (ctx_packet SwapReq 4 [5] 2) = Inr (q2, m2) \<and> mem_view m2 4 = Some 5 \<and>
     store_allowed m2 (ctx_packet StoreCondReq 4 [6] 1)"
proof -
  let ?ll = "ctx_packet LoadLockedReq 4 [0] 1" and ?w = "ctx_packet SwapReq 4 [5] 2"
  have pl: "payload_ok ?ll [0]" "payload_ok ?w [5]" by (rule ctx_payload_ok; simp)+
  have at: "bytes_at (mem_view example_mem) 4 [0]" using example_mem_zero [of 4 "Suc 0"] by simp
  have c: "isRead ?ll" "\<not> isWrite ?ll" "isRequest ?ll" "needsResponse ?ll" "isLLSC ?ll"
    by (simp_all add: pkt_test_defs cmd_defs)
  obtain q1 m1 where 1: "access example_mem ?ll = Inr (q1, m1)" "mem_view m1 = mem_view example_mem"
    "locks_map (lockedAddrList m1) = [1 \<mapsto> LockedAddr_mask 4]"
    using access_load_spec [OF example_mem_inv(1) c(1-4) _ pl(1), of "[0]"] at c(5) by auto
  have inv: "mem_inv m1"
    using access_shape [OF 1(1)] same_shape_inv example_mem_inv(1) by (auto simp: am_inv_def)
  obtain q2 m2 where 2: "access m1 ?w = Inr (q2, m2)" "lockedAddrList m2 = lockedAddrList m1"
    "mem_view m2 = store_at (mem_view m1) 4 [5]"
    using access_swap_whole [OF inv _ _ pl(2), of "[0]" True] at 1(2) by (auto simp: swap_condition_def)
  then have "store_allowed m2 (ctx_packet StoreCondReq 4 [6] 1)" "mem_view m2 4 = Some 5"
    using 1(3) by (simp_all add: store_allowed_def store_at_def)
  then show ?thesis using 1(1) 2(1) by blast
qed

text \<open>The value an atomic command leaves in an \<open>n\<close>-byte cell that held \<open>v\<close>.\<close>

definition hmc_result :: "byte \<Rightarrow> u64 \<Rightarrow> nat \<Rightarrow> nat \<Rightarrow> nat" where
  "hmc_result cmd operand n v =
     (if cmd = HMC_CMD_INC then (v + 1) mod 256 ^ n
      else if cmd = HMC_CMD_FADD then unat (f32_add (of_nat v) (ucast operand))
      else min v (unat operand mod 2 ^ 32))"

lemma update_le_spec:
  assumes inv: "mem_inv m" and mem: "pmem m = Some mem" and ne: "old \<noteq> []"
    and at: "bytes_at (mem_view m) a old" and fit: "unat a + length old \<le> 2 ^ 64"
  shows "\<exists>mem'. update_le mem (unat (a - ar_start (am_range m))) (length old) f = Inr mem' \<and>
    mem_view (m\<lparr>pmem := Some mem'\<rparr>) =
      store_at (mem_view m) a (nat_to_le (length old) (f (le_to_nat old)))"
proof -
  let ?d = "nat_to_le (length old) (f (le_to_nat old))"
  have d: "?d \<noteq> []" "length old = length ?d" "unat a + length ?d \<le> 2 ^ 64"
    using ne fit by (simp_all, metis length_0_conv length_nat_to_le)
  show ?thesis
    using mem_view_write [OF inv mem at d] bytes_at_mem(3) [OF inv mem at ne fit]
    by (auto simp: update_le_def)
qed

lemma hmc_command_spec:
  assumes inv: "mem_inv m" and mem: "pmem m = Some mem" and ne: "old \<noteq> []"
    and at: "bytes_at (mem_view m) (pk_addr p) old" and fit: "unat (pk_addr p) + length old \<le> 2 ^ 64"
    and len: "length old = unat (pk_size p)"
    and cmd: "ATOMIC_HMC_COMMAND p \<in> {HMC_CMD_INC, HMC_CMD_FADD, HMC_CMD_MIN}"
    and sz: "pk_size p = 4 \<or> pk_size p = 8 \<and> ATOMIC_HMC_COMMAND p = HMC_CMD_INC"
  shows "\<exists>m'. hmc_command m p mem = Inr m' \<and> mem_view m' = store_at (mem_view m) (pk_addr p)
    (nat_to_le (length old) (hmc_result (ATOMIC_HMC_COMMAND p) (ATOMIC_HMC_OPERAND p) (length old) (le_to_nat old)))"
proof -
  define f where "f = (if ATOMIC_HMC_COMMAND p = HMC_CMD_INC then (\<lambda>v. v + 1)
    else if ATOMIC_HMC_COMMAND p = HMC_CMD_FADD
    then (\<lambda>v. unat (f32_add (of_nat v) (ucast (ATOMIC_HMC_OPERAND p))))
    else (\<lambda>v. let n = unat (ucast (ATOMIC_HMC_OPERAND p) :: u32) in if n < v then n else v))"
  obtain mem' where u: "update_le mem (host_off m p) (length old) f = Inr mem'"
    "mem_view (m\<lparr>pmem := Some mem'\<rparr>) = store_at (mem_view m) (pk_addr p) (nat_to_le (length old) (f (le_to_nat old)))"
    using update_le_spec [OF inv mem ne at fit, of f] by (auto simp: host_off_def)
  have "\<exists>m'. hmc_command m p mem = Inr m' \<and> pmem m' = Some mem' \<and> am_range m' = am_range m"
    using u(1) cmd sz len
    by (elim insertE disjE) (auto simp: hmc_command_def f_def hmc_cmd_defs)
  then obtain m' where m': "hmc_command m p mem = Inr m'" "pmem m' = Some mem'" "am_range m' = am_range m"
    by blast
  have "mem_view m' = mem_view (m\<lparr>pmem := Some mem'\<rparr>)" using m' by (intro mem_cong) simp_all
  moreover have "nat_to_le (length old) (f (le_to_nat old)) = nat_to_le (length old)
      (hmc_result (ATOMIC_HMC_COMMAND p) (ATOMIC_HMC_OPERAND p) (length old) (le_to_nat old))"
    using cmd by (auto simp: f_def hmc_result_def nat_to_le_mod hmc_cmd_defs Let_def min_def
        unsigned_ucast_eq take_bit_nat_def)
  ultimately show ?thesis using m'(1) u(2) by auto
qed

text \<open>An atomic command of the memory cube replaces the cell it addresses, and nothing else,
  by the result of its operation on the old value: increment modulo the size of the cell, float
  addition, or unsigned minimum with the low word of the operand. The packet comes back as a
  plain response.\<close>

theorem access_atomic_command:
  assumes inv: "am_inv m" and c: "pk_cmd p = WriteReq" "\<not> memInhibitAsserted p"
    and rq: "hasPaddr (pk_req p)" "\<not> rq_isInstFetch (pk_req p)"
    and pl: "payload_ok p d" and at: "bytes_at (mem_view m) (pk_addr p) old" "length old = length d"
    and cmd: "ATOMIC_HMC_COMMAND p \<in> {HMC_CMD_INC, HMC_CMD_FADD, HMC_CMD_MIN}"
    and sz: "pk_size p = 4 \<or> pk_size p = 8 \<and> ATOMIC_HMC_COMMAND p = HMC_CMD_INC"
  shows "\<exists>q m'. access m p = Inr (q, m') \<and> isResponse q \<and> ATOMIC_HMC_COMMAND q = 0 \<and>
    mem_view m' = store_at (mem_view m) (pk_addr p) (nat_to_le (length old)
      (hmc_result (ATOMIC_HMC_COMMAND p) (ATOMIC_HMC_OPERAND p) (length old) (le_to_nat old)))"
proof -
  have inv': "mem_inv m" "locks_ok m" using inv by (simp_all add: am_inv_def)
  have t: "isWrite p" "\<not> isRead p" "isRequest p" "needsResponse p" "\<not> isLLSC p"
    using c(1) by (simp_all add: pkt_test_defs cmd_defs)
  then have al: "store_allowed m p" "sc_marked p True = p" by (simp_all add: store_allowed_def sc_marked_def)
  obtain m1 where ok: "writeOK m p = Inr (True, p, m1)" "pmem m1 = pmem m" "am_range m1 = am_range m"
    using writeOK_spec [OF inv'(2) rq(1)] t(5) al by auto
  have v: "mem_inv m1" "mem_view m1 = mem_view m" using mem_cong [OF ok(2,3)] inv' by simp_all
  obtain mem where mem: "pmem m1 = Some mem" using v(1) by (elim mem_invE)
  have old: "old \<noteq> []" "unat (pk_addr p) + length old \<le> 2 ^ 64" "length old = unat (pk_size p)"
    using pl at(2) by (auto simp: payload_ok_def)
  have at1: "bytes_at (mem_view m1) (pk_addr p) old" using at(1) v(2) by simp
  obtain m2 where h: "hmc_command m1 p mem = Inr m2"
    "mem_view m2 = store_at (mem_view m) (pk_addr p) (nat_to_le (length old)
      (hmc_result (ATOMIC_HMC_COMMAND p) (ATOMIC_HMC_OPERAND p) (length old) (le_to_nat old)))"
    using hmc_command_spec [OF v(1) mem old(1) at1 old(2,3) cmd sz] v(2) by auto
  have nz: "ATOMIC_HMC_COMMAND p \<noteq> 0" using cmd by (auto simp: hmc_cmd_defs)
  let ?p = "p\<lparr>ATOMIC_HMC_COMMAND := 0\<rparr>"
  obtain m3 where w: "access_write m p = Inr (?p, m3)" "pmem m3 = pmem m2" "am_range m3 = am_range m2"
    using ok(1) mem h(1) nz rq(2) by (simp add: access_write_def Let_def)
  have "isRequest ?p" "needsResponse ?p" using t by (simp_all add: pkt_test_defs)
  then obtain q where "makeResponse ?p = Inr q" "isResponse q" "needsResponse ?p" by (metis makeResponse_ok)
  moreover from this have "ATOMIC_HMC_COMMAND q = 0" by (auto simp: makeResponse_def)
  ultimately show ?thesis
    using w(1) c t(1,2) h(2) mem_cong(2) [OF w(2,3)]
    by (simp add: access_def in_range_check_ok [OF inv'(1) pl at])
qed

theorem access_atomic_command_witness:
  "\<exists>p q m'. ATOMIC_HMC_COMMAND p = HMC_CMD_INC \<and> access example_mem p = Inr (q, m') \<and>
     ATOMIC_HMC_COMMAND q = 0 \<and> mem_view m' 8 = Some 1"
proof -
  let ?p = "(ctx_packet WriteReq 8 [0,0,0,0] 0)\<lparr>ATOMIC_HMC_COMMAND := HMC_CMD_INC\<rparr>"
  have pl: "payload_ok ?p [0,0,0,0]"
    using ctx_packet_sel(6) [of WriteReq 8 "[0,0,0,0]" 0] by (simp add: payload_ok_def getPtr_def)
  have at: "bytes_at (mem_view example_mem) (pk_addr ?p) [0,0,0,0]"
    using example_mem_zero [of 8 "Suc (Suc (Suc (Suc 0)))"] by simp
  have c: "pk_cmd ?p = WriteReq" "\<not> memInhibitAsserted ?p" "hasPaddr (pk_req ?p)" "\<not> rq_isInstFetch (pk_req ?p)"
    using ctx_packet_sel(7) [of WriteReq 8 "[0,0,0,0]" 0] by (simp_all add: memInhibitAsserted_def)
  have res: "hmc_result HMC_CMD_INC x n 0 = 1" if "0 < n" for x n
    using that by (simp add: hmc_result_def)
  have "\<exists>q m'. access example_mem ?p = Inr (q, m') \<and> ATOMIC_HMC_COMMAND q = 0 \<and> mem_view m' 8 = Some 1"
    using access_atomic_command [OF example_mem_inv(1) c pl at]
    by (auto simp: res store_at_def)
  moreover have "ATOMIC_HMC_COMMAND ?p = HMC_CMD_INC" by simp
  ultimately show ?thesis by blast
qed

end
