(* ===== verification/PimCoproc.thy ===== *)
theory PimCoproc
  imports AbstractMem
begin

text \<open>
  The coprocessor of the PIM memory (\<open>run_coprocessor_32b\<close> and \<open>run_coprocessor_64b\<close> in
  \<open>mem/ethz_pim_memory.cc\<close> under \<open>src/SMC_original/GEM5/gem5/src\<close>): floating-point operations on the
  scalar registers and one pass of PageRank over nodes in the vector registers. Both kinds of register
  lie in the memory's backing store; an access past its end, which C++ leaves undefined, is \<open>OutOfRange\<close>,
  and so is a conversion whose result does not fit. What the commands print is left out.
\<close>

section \<open>Parameters\<close>

text \<open>The addresses and sizes that the constructor copies from the configuration.\<close>

record pim_params =
  PIM_ADDRESS_BASE :: u64
  PIM_DEBUG_ADDR :: u64
  PIM_ERROR_ADDR :: u64
  PIM_INTR_ADDR :: u64
  PIM_SLICETABLE_ADDR :: u64
  PIM_SLICECOUNT_ADDR :: u64
  PIM_SLICEVSTART_ADDR :: u64
  PIM_M5_ADDR :: u64
  PIM_M5_D1_ADDR :: u64
  PIM_M5_D2_ADDR :: u64
  PIM_VREG_ADDR :: u64
  PIM_VREG_SIZE :: u64
  PIM_SREG_ADDR :: u64
  PIM_DTLB_IDEAL_REFILL_ADDR :: u64
  PIM_DMA_MEM_ADDR_ADDR :: u64
  PIM_DMA_SPM_ADDR_ADDR :: u64
  PIM_DMA_NUMBYTES_ADDR :: u64
  PIM_DMA_COMMAND_ADDR :: u64
  PIM_DMA_CLI_ADDR :: u64
  PIM_COPROCESSOR_CMD_ADDR :: u64
  HMC_ATOMIC_INCR_ADDR :: u64
  pm_arch :: nat

section \<open>Registers\<close>

text \<open>A 32-bit access through a pointer into the backing store.\<close>

definition mem_read32 :: "byte list \<Rightarrow> nat \<Rightarrow> u32 res" where
  "mem_read32 mem off = bindR (ofOpt (read_bytes mem off 4)) (\<lambda>bs. Inr (of_nat (le_to_nat bs)))"

definition mem_write32 :: "byte list \<Rightarrow> nat \<Rightarrow> u32 \<Rightarrow> byte list res" where
  "mem_write32 mem off v = ofOpt (write_bytes mem off (nat_to_le 4 (unat v)))"

text \<open>The pointer to the scalar register \<open>k\<close>, as an offset into the backing store.\<close>

definition sreg :: "pim_params \<Rightarrow> Addr \<Rightarrow> nat \<Rightarrow> nat" where
  "sreg pp start k = unat (PIM_SREG_ADDR pp + of_nat (k * (pm_arch pp div 8)) - start)"

definition CMD_NOP :: byte where "CMD_NOP = 0"
definition CMD_TO_FLOAT :: byte where "CMD_TO_FLOAT = 1"
definition CMD_FDIV :: byte where "CMD_FDIV = 2"
definition CMD_FMUL :: byte where "CMD_FMUL = 3"
definition CMD_FCMP :: byte where "CMD_FCMP = 4"
definition CMD_FACC :: byte where "CMD_FACC = 5"
definition CMD_FSUB :: byte where "CMD_FSUB = 6"
definition CMD_FABS :: byte where "CMD_FABS = 7"
definition CMD_FPRINT :: byte where "CMD_FPRINT = 8"
definition CMD_TO_FIXED :: byte where "CMD_TO_FIXED = 9"
definition CMD_CUSTOM_PR1 :: byte where "CMD_CUSTOM_PR1 = 10"

lemmas coproc_cmd_defs = CMD_NOP_def CMD_TO_FLOAT_def CMD_FDIV_def CMD_FMUL_def CMD_FCMP_def CMD_FACC_def
  CMD_FSUB_def CMD_FABS_def CMD_FPRINT_def CMD_TO_FIXED_def CMD_CUSTOM_PR1_def

section \<open>PageRank\<close>

text \<open>
  The loop over the nodes. A node takes 20 bytes: the rank, the next rank and three words that are not
  touched.
\<close>

fun pr1_loop :: "nat \<Rightarrow> nat \<Rightarrow> nat \<Rightarrow> u32 \<Rightarrow> byte list \<Rightarrow> (u32 \<times> byte list) res" where
  "pr1_loop nodes 0 off diff mem = Inr (diff, mem)"
| "pr1_loop nodes (Suc count) off diff mem =
     bindR (mem_read32 mem (off + 4)) (\<lambda>next.
     bindR (mem_read32 mem off) (\<lambda>rank.
     let f = f32_sub next rank;
         f = (if f32_less f 0 then f32_uminus f else f)
     in bindR (mem_write32 mem off next) (\<lambda>mem1.
        bindR (mem_write32 mem1 (off + 4) (f32_damping nodes)) (\<lambda>mem2.
          pr1_loop nodes count (off + 20) (f32_add diff f) mem2))))"

definition custom_pr1 :: "pim_params \<Rightarrow> Addr \<Rightarrow> byte list \<Rightarrow> byte list res" where
  "custom_pr1 pp start mem =
     bindR (mem_read32 mem (sreg pp start 0)) (\<lambda>s0.
     bindR (mem_read32 mem (sreg pp start 1)) (\<lambda>count.
     bindR (mem_read32 mem (sreg pp start 2)) (\<lambda>nodes.
     let addr = ucast s0 + PIM_ADDRESS_BASE pp in
     assertR (addr \<ge> PIM_VREG_ADDR pp) ''addr >= PIM_VREG_ADDR''
    (assertR (addr < PIM_VREG_ADDR pp + PIM_VREG_SIZE pp) ''addr < PIM_VREG_ADDR + PIM_VREG_SIZE''
      (bindR (pr1_loop (unat nodes) (unat count) (unat (addr - start)) 0 mem) (\<lambda>(diff, mem').
        mem_write32 mem' (sreg pp start 3) diff))))))"

section \<open>The commands\<close>

text \<open>An operation with two operands, the registers 0 and 1, and its result register.\<close>

definition binary_op :: "(u32 \<Rightarrow> u32 \<Rightarrow> u32) \<Rightarrow> nat \<Rightarrow> pim_params \<Rightarrow> Addr \<Rightarrow> byte list \<Rightarrow> byte list res" where
  "binary_op f k pp start mem =
     bindR (mem_read32 mem (sreg pp start 0)) (\<lambda>op0.
     bindR (mem_read32 mem (sreg pp start 1)) (\<lambda>op1.
       mem_write32 mem (sreg pp start k) (f op0 op1)))"

definition coproc_32b :: "pim_params \<Rightarrow> Addr \<Rightarrow> byte \<Rightarrow> byte list \<Rightarrow> byte list res" where
  "coproc_32b pp start cmd mem =
     (if cmd = CMD_NOP then Inr mem
      else if cmd = CMD_TO_FLOAT then
        bindR (mem_read32 mem (sreg pp start 0)) (\<lambda>u. mem_write32 mem (sreg pp start 1) (f32_of_uint (unat u)))
      else if cmd = CMD_TO_FIXED then
        bindR (mem_read32 mem (sreg pp start 0)) (\<lambda>f.
        bindR (ofOpt (f32_to_u32 (f32_scale 1000000 (unat f)))) (\<lambda>u. mem_write32 mem (sreg pp start 1) u))
      else if cmd = CMD_FDIV then binary_op f32_div 2 pp start mem
      else if cmd = CMD_FMUL then binary_op f32_mul 2 pp start mem
      else if cmd = CMD_FCMP then binary_op (\<lambda>a b. if f32_less b a then 0x3f800000 else 0) 2 pp start mem
      else if cmd = CMD_FSUB then binary_op f32_sub 2 pp start mem
      else if cmd = CMD_FACC then binary_op f32_add 1 pp start mem
      else if cmd = CMD_FABS then
        bindR (mem_read32 mem (sreg pp start 0)) (\<lambda>a.
          mem_write32 mem (sreg pp start 1) (if f32_le 0 a then a else f32_uminus a))
      else if cmd = CMD_FPRINT then bindR (mem_read32 mem (sreg pp start 0)) (\<lambda>_. Inr mem)
      else if cmd = CMD_CUSTOM_PR1 then custom_pr1 pp start mem
      else Inl (Panic ''Illegal command! (run_coprocessor_32b)''))"

text \<open>The two functions on the memory; without a backing store \<open>pmemAddr\<close> is null.\<close>

definition run_coprocessor_32b :: "pim_params \<Rightarrow> abstract_mem \<Rightarrow> byte \<Rightarrow> abstract_mem res" where
  "run_coprocessor_32b pp m cmd =
     (case pmem m of
        None \<Rightarrow> if cmd = CMD_NOP then Inr m else if cmd > CMD_CUSTOM_PR1
          then Inl (Panic ''Illegal command! (run_coprocessor_32b)'') else Inl BadPtr
      | Some mem \<Rightarrow> bindR (coproc_32b pp (ar_start (am_range m)) cmd mem) (\<lambda>mem'. Inr (m\<lparr>pmem := Some mem'\<rparr>)))"

definition run_coprocessor_64b :: "abstract_mem \<Rightarrow> byte \<Rightarrow> abstract_mem res" where
  "run_coprocessor_64b m cmd =
     (if cmd = CMD_NOP then Inr m else Inl (Panic ''Not implemented yet! (run_coprocessor_64b)''))"

section \<open>Accesses\<close>

lemma mem_read32_at:
  assumes "length pre = off" "length bs = 4"
  shows "mem_read32 (pre @ bs @ post) off = Inr (of_nat (le_to_nat bs))"
  using assms by (simp add: mem_read32_def read_bytes_def)

lemma mem_write32_at:
  assumes "length pre = off" "length bs = 4"
  shows "mem_write32 (pre @ bs @ post) off v = Inr (pre @ nat_to_le 4 (unat v) @ post)"
  using assms by (simp add: mem_write32_def write_bytes_def)

lemma le_u32 [simp]: "of_nat (le_to_nat (nat_to_le 4 (unat v))) = (v :: u32)"
proof -
  have "unat v < 256 ^ 4" using unsigned_less [of v, where 'a = nat] by simp
  then show ?thesis by (simp add: le_to_nat_of_nat_to_le)
qed

lemma mem_write32_length: "mem_write32 mem off v = Inr mem' \<Longrightarrow> length mem' = length mem"
  by (auto simp: mem_write32_def dest: write_bytes_length)

lemma mem_write32_read: "mem_write32 mem off v = Inr mem' \<Longrightarrow> mem_read32 mem' off = Inr v"
  by (auto simp: mem_write32_def mem_read32_def dest!: read_write_same)

lemma mem_write32_ok: "off + 4 \<le> length mem \<Longrightarrow> \<exists>mem'. mem_write32 mem off v = Inr mem'"
  by (simp add: mem_write32_def write_bytes_def)

lemma pr1_loop_length: "pr1_loop nodes count off diff mem = Inr (d', mem') \<Longrightarrow> length mem' = length mem"
  by (induction nodes count off diff mem arbitrary: d' mem' rule: pr1_loop.induct)
    (fastforce simp: Let_def dest: mem_write32_length)+

lemma custom_pr1_length: "custom_pr1 pp start mem = Inr mem' \<Longrightarrow> length mem' = length mem"
  by (auto simp: custom_pr1_def Let_def dest!: pr1_loop_length mem_write32_length)

lemma binary_op_length: "binary_op f k pp start mem = Inr mem' \<Longrightarrow> length mem' = length mem"
  by (auto simp: binary_op_def dest: mem_write32_length)

lemma coproc_32b_length: "coproc_32b pp start cmd mem = Inr mem' \<Longrightarrow> length mem' = length mem"
  by (auto simp: coproc_32b_def dest: mem_write32_length binary_op_length custom_pr1_length split: if_split_asm)

section \<open>One pass of PageRank\<close>

text \<open>A node as the kernel sees it: its rank, its next rank, and the bytes of its other fields.\<close>

record pr_node =
  page_rank :: u32
  next_rank :: u32
  node_rest :: "byte list"

definition node_bytes :: "pr_node \<Rightarrow> byte list" where
  "node_bytes n = nat_to_le 4 (unat (page_rank n)) @ nat_to_le 4 (unat (next_rank n)) @ node_rest n"

definition node_step :: "nat \<Rightarrow> pr_node \<Rightarrow> pr_node" where
  "node_step nodes n = n\<lparr>page_rank := next_rank n, next_rank := f32_damping nodes\<rparr>"

definition node_change :: "pr_node \<Rightarrow> u32" where
  "node_change n =
     (let f = f32_sub (next_rank n) (page_rank n) in if f32_less f 0 then f32_uminus f else f)"

lemma pr1_loop_nodes:
  assumes "\<forall>n \<in> set ns. length (node_rest n) = 12"
  shows "pr1_loop nodes (length ns) (length pre) diff (pre @ concat (map node_bytes ns) @ post) =
    Inr (foldl (\<lambda>d n. f32_add d (node_change n)) diff ns, pre @ concat (map (\<lambda>n. node_bytes (node_step nodes n)) ns) @ post)"
  using assms
proof (induction ns arbitrary: pre diff)
  case Nil
  then show ?case by simp
next
  case (Cons n ns)
  let ?r = "nat_to_le 4 (unat (page_rank n))" and ?x = "nat_to_le 4 (unat (next_rank n))"
  let ?post = "node_rest n @ concat (map node_bytes ns) @ post"
  let ?d = "nat_to_le 4 (unat (f32_damping nodes))"
  let ?mem = "pre @ ?r @ ?x @ ?post"
  have rd: "mem_read32 ?mem (length pre + 4) = Inr (next_rank n)" "mem_read32 ?mem (length pre) = Inr (page_rank n)"
    using mem_read32_at [of "pre @ ?r" "length pre + 4" ?x ?post] mem_read32_at [of pre "length pre" ?r "?x @ ?post"]
    by simp_all
  have wr: "mem_write32 ?mem (length pre) (next_rank n) = Inr (pre @ ?x @ ?x @ ?post)"
    "mem_write32 (pre @ ?x @ ?x @ ?post) (length pre + 4) (f32_damping nodes) = Inr (pre @ ?x @ ?d @ ?post)"
    using mem_write32_at [of pre "length pre" ?r "?x @ ?post"] mem_write32_at [of "pre @ ?x" "length pre + 4" ?x ?post]
    by simp_all
  have nb: "node_bytes n = ?r @ ?x @ node_rest n" "node_bytes (node_step nodes n) = ?x @ ?d @ node_rest n"
    by (simp_all add: node_bytes_def node_step_def)
  have ih: "pr1_loop nodes (length ns) (length pre + 20) (f32_add diff (node_change n)) (pre @ ?x @ ?d @ ?post) =
    Inr (foldl (\<lambda>d n. f32_add d (node_change n)) diff (n # ns),
         pre @ concat (map (\<lambda>n. node_bytes (node_step nodes n)) (n # ns)) @ post)"
    using Cons.IH [of "pre @ ?x @ ?d @ node_rest n" "f32_add diff (node_change n)"] Cons.prems
    by (simp add: nb)
  have mem: "pre @ concat (map node_bytes (n # ns)) @ post = ?mem" by (simp add: nb)
  show ?case unfolding mem using rd wr ih by (simp add: node_change_def Let_def)
qed

text \<open>C19: one pass of the PageRank command over the nodes in the vector registers: every node's rank becomes its
  next rank, its next rank becomes 0.15 divided by the number of nodes, the other fields and all other memory
  keep their contents, and scalar register 3 receives the sum of the absolute changes of rank.\<close>

theorem custom_pr1_pass:
  assumes regs: "mem_read32 mem (sreg pp start 0) = Inr s0" "mem_read32 mem (sreg pp start 1) = Inr count"
      "mem_read32 mem (sreg pp start 2) = Inr nodes" "sreg pp start 3 + 4 \<le> length mem"
    and vreg: "PIM_VREG_ADDR pp \<le> ucast s0 + PIM_ADDRESS_BASE pp"
      "ucast s0 + PIM_ADDRESS_BASE pp < PIM_VREG_ADDR pp + PIM_VREG_SIZE pp"
    and mem: "mem = pre @ concat (map node_bytes ns) @ post" "unat (ucast s0 + PIM_ADDRESS_BASE pp - start) = length pre"
      "unat count = length ns" "\<forall>n \<in> set ns. length (node_rest n) = 12"
  shows "\<exists>m1 m2. m1 = pre @ concat (map (\<lambda>n. node_bytes (node_step (unat nodes) n)) ns) @ post \<and>
    write_bytes m1 (sreg pp start 3) (nat_to_le 4 (unat (foldl (\<lambda>d n. f32_add d (node_change n)) 0 ns))) = Some m2 \<and>
    coproc_32b pp start CMD_CUSTOM_PR1 mem = Inr m2"
proof -
  let ?m1 = "pre @ concat (map (\<lambda>n. node_bytes (node_step (unat nodes) n)) ns) @ post"
  let ?d = "foldl (\<lambda>d n. f32_add d (node_change n)) 0 ns"
  have loop: "pr1_loop (unat nodes) (unat count) (unat (ucast s0 + PIM_ADDRESS_BASE pp - start)) 0 mem = Inr (?d, ?m1)"
    using pr1_loop_nodes [OF mem(4), of "unat nodes" pre 0 post] mem by simp
  have "length ?m1 = length mem" using pr1_loop_length [OF loop] .
  then obtain m2 where m2: "mem_write32 ?m1 (sreg pp start 3) ?d = Inr m2" using mem_write32_ok regs(4) by metis
  have "coproc_32b pp start CMD_CUSTOM_PR1 mem = Inr m2"
    using regs vreg loop m2 by (simp add: coproc_32b_def coproc_cmd_defs custom_pr1_def Let_def)
  then show ?thesis using m2 by (auto simp: mem_write32_def)
qed


definition ex_pp :: pim_params where
  "ex_pp = \<lparr>PIM_ADDRESS_BASE = 0, PIM_DEBUG_ADDR = 0x80, PIM_ERROR_ADDR = 0x81, PIM_INTR_ADDR = 0x82,
     PIM_SLICETABLE_ADDR = 0x84, PIM_SLICECOUNT_ADDR = 0x88, PIM_SLICEVSTART_ADDR = 0x8c, PIM_M5_ADDR = 0x90,
     PIM_M5_D1_ADDR = 0x94, PIM_M5_D2_ADDR = 0x98, PIM_VREG_ADDR = 0x10, PIM_VREG_SIZE = 0x40, PIM_SREG_ADDR = 0,
     PIM_DTLB_IDEAL_REFILL_ADDR = 0x9c, PIM_DMA_MEM_ADDR_ADDR = 0xa0, PIM_DMA_SPM_ADDR_ADDR = 0xa4,
     PIM_DMA_NUMBYTES_ADDR = 0xa8, PIM_DMA_COMMAND_ADDR = 0xac, PIM_DMA_CLI_ADDR = 0xad,
     PIM_COPROCESSOR_CMD_ADDR = 0xae, HMC_ATOMIC_INCR_ADDR = 0xb0, pm_arch = 32\<rparr>"

text \<open>Scalar registers for one node at 16, then the node: rank 1.0, next rank 0.5.\<close>

definition ex_regs :: "byte list" where
  "ex_regs = [16,0,0,0, 1,0,0,0, 1,0,0,0, 0,0,0,0]"

definition ex_node :: pr_node where
  "ex_node = \<lparr>page_rank = 0x3f800000, next_rank = 0x3f000000, node_rest = replicate 12 0\<rparr>"

lemma ex_node_change: "node_change ex_node = 0x3f000000"
  by (simp add: node_change_def ex_node_def f32_sub_def f32_uminus_def f32_less_def f32_add_def f32_add_nat_def
      f32_val_def f32_eval)

theorem custom_pr1_pass_witness:
  "\<exists>m1 m2. m1 = ex_regs @ node_bytes (node_step 1 ex_node) \<and>
    write_bytes m1 12 (nat_to_le 4 0x3f000000) = Some m2 \<and>
    coproc_32b ex_pp 0 CMD_CUSTOM_PR1 (ex_regs @ node_bytes ex_node) = Inr m2"
proof -
  let ?mem = "ex_regs @ node_bytes ex_node"
  have sr: "sreg ex_pp 0 0 = 0" "sreg ex_pp 0 (Suc 0) = 4" "sreg ex_pp 0 2 = 8" "sreg ex_pp 0 3 = 12"
    by (simp_all add: sreg_def ex_pp_def)
  have len: "length (node_bytes ex_node) = 20" by (simp add: node_bytes_def ex_node_def)
  have rd: "mem_read32 ?mem (sreg ex_pp 0 0) = Inr 16" "mem_read32 ?mem (sreg ex_pp 0 1) = Inr 1"
    "mem_read32 ?mem (sreg ex_pp 0 2) = Inr 1" "sreg ex_pp 0 3 + 4 \<le> length ?mem"
    using len by (simp_all add: sr mem_read32_def read_bytes_def ex_regs_def)
  have acc: "f32_add 0 0x3f000000 = 0x3f000000"
    by (simp add: f32_add_def f32_add_nat_def f32_val_def f32_eval)
  have par: "PIM_VREG_ADDR ex_pp = 16" "PIM_ADDRESS_BASE ex_pp = 0" "PIM_VREG_SIZE ex_pp = 0x40" "length ex_regs = 16"
    "length (node_rest ex_node) = 12"
    by (simp_all add: ex_pp_def ex_regs_def ex_node_def)
  show ?thesis
    using custom_pr1_pass [OF rd, where pre = ex_regs and ns = "[ex_node]" and post = "[]"] ex_node_change acc
    by (simp add: sr par)
qed

text \<open>The absolute-value command is not \<open>fabsf\<close>: it leaves the negative zero as it is, because -0.0 >= 0 holds.\<close>

theorem fabs_keeps_negative_zero:
  "\<exists>mem'. coproc_32b ex_pp 0 CMD_FABS (nat_to_le 4 0x80000000 @ replicate 12 0) = Inr mem' \<and>
     mem_read32 mem' (sreg ex_pp 0 1) = Inr 0x80000000"
proof -
  have "f32_le 0 0x80000000" by (simp add: f32_le_def f32_val_def f32_eval)
  moreover have "mem_read32 (nat_to_le 4 0x80000000 @ replicate 12 0) 0 = Inr 0x80000000"
    using mem_read32_at [of "[]" 0 "nat_to_le 4 0x80000000" "replicate 12 0"] le_u32 [of "0x80000000"] by simp
  moreover obtain mem' where "mem_write32 (nat_to_le 4 0x80000000 @ replicate 12 0) 4 0x80000000 = Inr mem'"
    using mem_write32_ok [of 4 "nat_to_le 4 0x80000000 @ replicate 12 0"] by auto
  ultimately show ?thesis
    using mem_write32_read [of _ 4 "0x80000000" mem']
    by (simp add: coproc_32b_def coproc_cmd_defs sreg_def ex_pp_def)
qed

end
