(* ===== verification/SimpleMem.thy ===== *)
theory SimpleMem
  imports AbstractMem
begin

text \<open>
  The timed memory (\<open>mem/simple_mem.hh\<close> and \<open>mem/simple_mem.cc\<close> under
  \<open>src/SMC_original/GEM5/gem5/src\<close>): it accepts one request at a time, is busy for as long as
  its bandwidth asks, and returns the responses in order after its latency. The simulation time
  and the random part of the latency are arguments; an event is the tick it is scheduled for.
  The number of ticks a request keeps the memory busy is the product of its size and the
  bandwidth, a \<open>double\<close>, cut to a whole number: the field \<open>busy_ticks\<close> holds that function.
  The operations are generic in further fields, because the memory of the PIM device extends this
  one and overrides \<open>recvAtomic\<close>.
\<close>

record simple_mem =
  sm_mem :: abstract_mem
  packetQueue :: "(packet \<times> Tick) list"
  latency :: Tick
  latency_var :: Tick
  busy_ticks :: "u32 \<Rightarrow> Tick"
  isBusy :: bool
  retryReq :: bool
  retryResp :: bool
  releaseEvent :: "Tick option"
  dequeueEvent :: "Tick option"
  pendingDelete :: "packet list"
  drainManager :: bool
  drained_signals :: nat

definition SimpleMemory :: "abstract_mem \<Rightarrow> Tick \<Rightarrow> Tick \<Rightarrow> (u32 \<Rightarrow> Tick) \<Rightarrow> simple_mem" where
  "SimpleMemory m l lv bw =
     \<lparr>sm_mem = m, packetQueue = [], latency = l, latency_var = lv, busy_ticks = bw,
      isBusy = False, retryReq = False, retryResp = False, releaseEvent = None,
      dequeueEvent = None, pendingDelete = [], drainManager = False, drained_signals = 0\<rparr>"

text \<open>\<open>schedule\<close> of an event: not in the past and not scheduled already.\<close>

definition schedule_event :: "Tick option \<Rightarrow> Tick \<Rightarrow> Tick \<Rightarrow> Tick option res" where
  "schedule_event ev now when =
     assertR (when \<ge> now) ''when >= getCurTick()''
    (assertR (ev = None) ''!event->scheduled()'' (Inr (Some when)))"

definition getLatency :: "'a simple_mem_scheme \<Rightarrow> Tick \<Rightarrow> Tick" where
  "getLatency m rnd = latency m + (if latency_var m \<noteq> 0 then rnd else 0)"

definition sm_access :: "'a simple_mem_scheme \<Rightarrow> packet \<Rightarrow> (packet \<times> 'a simple_mem_scheme) res" where
  "sm_access m p = bindR (access (sm_mem m) p) (\<lambda>(p', am'). Inr (p', m\<lparr>sm_mem := am'\<rparr>))"

definition sm_recvAtomic ::
    "Tick \<Rightarrow> 'a simple_mem_scheme \<Rightarrow> packet \<Rightarrow> (Tick \<times> packet \<times> 'a simple_mem_scheme) res" where
  "sm_recvAtomic rnd m p =
     bindR (sm_access m p) (\<lambda>(p', m').
       Inr ((if memInhibitAsserted p' then 0 else getLatency m' rnd), p', m'))"

text \<open>The scan of the queue by a functional access, which stops once the access is satisfied.\<close>

fun scan_queue :: "packet \<Rightarrow> (packet \<times> Tick) list \<Rightarrow> (packet \<times> (packet \<times> Tick) list) res" where
  "scan_queue p [] = Inr (p, [])"
| "scan_queue p ((q, t) # rest) =
     bindR (checkFunctional_pkt p q) (\<lambda>(found, p', q').
       if found then Inr (p', (q', t) # rest)
       else bindR (scan_queue p' rest) (\<lambda>(p2, rest'). Inr (p2, (q', t) # rest')))"

definition sm_recvFunctional ::
    "'a simple_mem_scheme \<Rightarrow> packet \<Rightarrow> (packet \<times> 'a simple_mem_scheme) res" where
  "sm_recvFunctional m p =
     bindR (functionalAccess (sm_mem m) p) (\<lambda>(p1, am').
     bindR (scan_queue p1 (packetQueue m)) (\<lambda>(p2, pq').
       Inr (p2, m\<lparr>sm_mem := am', packetQueue := pq'\<rparr>)))"

text \<open>
  \<open>recvTimingReq\<close> in its three parts: occupying the memory, the access itself and the queueing
  of the response. The argument \<open>atomic\<close> is the virtual \<open>recvAtomic\<close>; its tick is not used. On
  acceptance the packet returned is the one the memory holds.
\<close>

definition sm_occupy ::
    "Tick \<Rightarrow> 'a simple_mem_scheme \<Rightarrow> packet \<Rightarrow> 'a simple_mem_scheme res" where
  "sm_occupy now m p =
     (let duration = busy_ticks m (pk_size p) in
      if (isRead p \<or> isWrite p) \<and> duration \<noteq> 0
      then bindR (schedule_event (releaseEvent m) now (now + duration)) (\<lambda>ev.
             Inr (m\<lparr>releaseEvent := ev, isBusy := True\<rparr>))
      else Inr m)"

definition sm_respond ::
    "bool \<Rightarrow> Tick \<Rightarrow> Tick \<Rightarrow> 'a simple_mem_scheme \<Rightarrow> packet \<Rightarrow> (bool \<times> packet \<times> 'a simple_mem_scheme) res" where
  "sm_respond needs_response now rnd m p =
     (if needs_response then
        assertR (isResponse p) ''pkt->isResponse()''
         (let t = now + getLatency m rnd;
              m1 = m\<lparr>packetQueue := packetQueue m @ [(p, t)]\<rparr> in
          if \<not> retryResp m1 \<and> dequeueEvent m1 = None
          then bindR (schedule_event (dequeueEvent m1) now t) (\<lambda>ev. Inr (True, p, m1\<lparr>dequeueEvent := ev\<rparr>))
          else Inr (True, p, m1))
      else Inr (True, p, m\<lparr>pendingDelete := pendingDelete m @ [p]\<rparr>))"

definition sm_recvTimingReq ::
    "('a simple_mem_scheme \<Rightarrow> packet \<Rightarrow> (Tick \<times> packet \<times> 'a simple_mem_scheme) res) \<Rightarrow>
     Tick \<Rightarrow> Tick \<Rightarrow> 'a simple_mem_scheme \<Rightarrow> packet \<Rightarrow> (bool \<times> packet \<times> 'a simple_mem_scheme) res" where
  "sm_recvTimingReq atomic now rnd m p =
     (let m = m\<lparr>pendingDelete := []\<rparr> in
      if memInhibitAsserted p then Inr (True, p, m\<lparr>pendingDelete := [p]\<rparr>)
      else if retryReq m then Inr (False, p, m)
      else if isBusy m then Inr (False, p, m\<lparr>retryReq := True\<rparr>)
      else
        let p = p\<lparr>firstWordDelay := 0, lastWordDelay := 0\<rparr> in
        bindR (sm_occupy now m p) (\<lambda>m1.
        bindR (atomic m1 p) (\<lambda>(_, p', m2). sm_respond (needsResponse p) now rnd m2 p')))"

text \<open>\<open>release\<close>: the memory is free again; the flag says whether a retry is sent.\<close>

definition sm_release :: "'a simple_mem_scheme \<Rightarrow> (bool \<times> 'a simple_mem_scheme) res" where
  "sm_release m =
     assertR (isBusy m) ''isBusy''
       (Inr (retryReq m, m\<lparr>isBusy := False, retryReq := False\<rparr>))"

text \<open>
  \<open>dequeue\<close>: \<open>accepted\<close> is the answer of the peer to \<open>sendTimingResp\<close>. The result carries the
  packet that was offered. \<open>reschedule\<close> with its last argument true schedules the event whether
  or not it was scheduled.
\<close>

definition sm_dequeue ::
    "Tick \<Rightarrow> bool \<Rightarrow> 'a simple_mem_scheme \<Rightarrow> (packet \<times> 'a simple_mem_scheme) res" where
  "sm_dequeue now accepted m =
     (case packetQueue m of
        [] \<Rightarrow> Inl (AssertFail ''!packetQueue.empty()'')
      | (p, _) # rest \<Rightarrow>
          let m1 = m\<lparr>retryResp := \<not> accepted\<rparr> in
          if accepted then
            (let m2 = m1\<lparr>packetQueue := rest\<rparr> in
             case rest of
               (_, t) # _ \<Rightarrow> Inr (p, m2\<lparr>dequeueEvent := Some (max t now)\<rparr>)
             | [] \<Rightarrow>
                 if drainManager m2
                 then Inr (p, m2\<lparr>drainManager := False, drained_signals := drained_signals m2 + 1\<rparr>)
                 else Inr (p, m2))
          else Inr (p, m1))"

definition sm_recvRetry ::
    "Tick \<Rightarrow> bool \<Rightarrow> 'a simple_mem_scheme \<Rightarrow> (packet \<times> 'a simple_mem_scheme) res" where
  "sm_recvRetry now accepted m = assertR (retryResp m) ''retryResp'' (sm_dequeue now accepted m)"

definition sm_drain :: "'a simple_mem_scheme \<Rightarrow> nat \<times> 'a simple_mem_scheme" where
  "sm_drain m = (if packetQueue m \<noteq> [] then (1, m\<lparr>drainManager := True\<rparr>) else (0, m))"

definition sm_getAddrRanges :: "'a simple_mem_scheme \<Rightarrow> addr_range list" where
  "sm_getAddrRanges m = [am_range (sm_mem m)]"

section \<open>The memory as a state machine\<close>

text \<open>
  What the rest of the simulator sees: a request accepted or refused, a retry sent to the requester, a
  response delivered or refused by the peer, and a functional access, which also reads and writes the queued responses. The label of
  an accepted request is the request, whatever the memory does with it. An event that fires is no longer
  scheduled.
\<close>

datatype sm_label =
    Accepted packet | Refused | RetrySent | Released | Delivered packet | Undelivered packet
  | FunctionalDone | DrainRequested nat

inductive sm_step :: "simple_mem \<Rightarrow> sm_label \<Rightarrow> simple_mem \<Rightarrow> bool" where
  Request: "sm_recvTimingReq (sm_recvAtomic r0) now rnd m p = Inr (ok, q, m') \<Longrightarrow>
     sm_step m (if ok then Accepted p else Refused) m'"
| Functional: "sm_recvFunctional m p = Inr (q, m') \<Longrightarrow> sm_step m FunctionalDone m'"
| Release: "releaseEvent m = Some t \<Longrightarrow> sm_release (m\<lparr>releaseEvent := None\<rparr>) = Inr (b, m') \<Longrightarrow>
     sm_step m (if b then RetrySent else Released) m'"
| Dequeue: "dequeueEvent m = Some t \<Longrightarrow> t \<le> now \<Longrightarrow>
     sm_dequeue now ok (m\<lparr>dequeueEvent := None\<rparr>) = Inr (p, m') \<Longrightarrow>
     sm_step m (if ok then Delivered p else Undelivered p) m'"
| Retry: "sm_recvRetry now ok m = Inr (p, m') \<Longrightarrow>
     sm_step m (if ok then Delivered p else Undelivered p) m'"
| Drain: "sm_drain m = (n, m') \<Longrightarrow> sm_step m (DrainRequested n) m'"

inductive sm_run :: "simple_mem \<Rightarrow> sm_label list \<Rightarrow> simple_mem \<Rightarrow> bool" where
  run_nil: "sm_run m [] m"
| run_snoc: "sm_run m ls m1 \<Longrightarrow> sm_step m1 l m2 \<Longrightarrow> sm_run m (ls @ [l]) m2"

inductive_cases sm_stepE: "sm_step m l m'"

section \<open>Invariant and order of responses\<close>

text \<open>
  The response queue: a dequeue event is scheduled exactly when there is something to send and no
  retry to wait for.
\<close>

definition queue_ok :: "(packet \<times> Tick) list \<Rightarrow> bool \<Rightarrow> Tick option \<Rightarrow> bool" where
  "queue_ok q waiting ev \<longleftrightarrow> (ev = None \<longleftrightarrow> q = [] \<or> waiting) \<and> (waiting \<longrightarrow> q \<noteq> []) \<and>
     list_all (\<lambda>(p, t). isResponse p) q"

definition sm_inv :: "'a simple_mem_scheme \<Rightarrow> bool" where
  "sm_inv m \<longleftrightarrow> am_inv (sm_mem m) \<and> (isBusy m \<longleftrightarrow> releaseEvent m \<noteq> None) \<and> (retryReq m \<longrightarrow> isBusy m) \<and>
     queue_ok (packetQueue m) (retryResp m) (dequeueEvent m)"

lemma queue_ok_push:
  "queue_ok q w ev \<Longrightarrow> isResponse p \<Longrightarrow>
     queue_ok (q @ [(p, t)]) w (if w \<or> ev \<noteq> None then ev else Some t)"
  by (cases ev) (auto simp: queue_ok_def)

lemma queue_ok_pop: "queue_ok ((p, t) # q) w ev \<Longrightarrow> (ev' = None \<longleftrightarrow> q = []) \<Longrightarrow> queue_ok q False ev'"
  by (auto simp: queue_ok_def)

lemma queue_ok_refused: "queue_ok ((p, t) # q) w ev \<Longrightarrow> queue_ok ((p, t) # q) True None"
  by (auto simp: queue_ok_def)

text \<open>What the virtual \<open>recvAtomic\<close> may change: the contents of the memory only.\<close>

lemma sm_recvAtomic_frame:
  assumes "sm_recvAtomic r m p = Inr (t, p', m')"
  shows "\<exists>am'. access (sm_mem m) p = Inr (p', am') \<and> m' = m\<lparr>sm_mem := am'\<rparr>"
  using assms by (auto simp: sm_recvAtomic_def sm_access_def split: prod.splits)

lemma sm_recvAtomic_inv:
  assumes "sm_recvAtomic r m p = Inr (t, p', m')" "am_inv (sm_mem m)"
  shows "am_inv (sm_mem m')"
proof -
  obtain am' where am': "access (sm_mem m) p = Inr (p', am')" "m' = m\<lparr>sm_mem := am'\<rparr>"
    using sm_recvAtomic_frame [OF assms(1)] by blast
  from access_shape [OF am'(1)] assms(2) show ?thesis
    using am'(2) same_shape_inv by (auto simp: am_inv_def)
qed

lemma schedule_event_Inr [simp]:
  "schedule_event ev now when = Inr x \<longleftrightarrow> now \<le> when \<and> ev = None \<and> x = Some when"
  by (auto simp: schedule_event_def)

lemma sm_occupy_cases:
  assumes "sm_occupy now m p = Inr m'"
  shows "m' = m \<or> releaseEvent m = None \<and> (\<exists>w. m' = m\<lparr>releaseEvent := Some w, isBusy := True\<rparr>)"
  using assms by (auto simp: sm_occupy_def Let_def split: if_splits)

lemma sm_respond_cases:
  assumes "sm_respond nr now rnd m p = Inr (b, q, m')"
  shows "b \<and> q = p \<and> (if nr then isResponse p \<and> (\<exists>t. m' = m\<lparr>packetQueue := packetQueue m @ [(p, t)],
       dequeueEvent := (if retryResp m \<or> dequeueEvent m \<noteq> None then dequeueEvent m else Some t)\<rparr>)
     else m' = m\<lparr>pendingDelete := pendingDelete m @ [p]\<rparr>)"
  using assms by (auto simp: sm_respond_def Let_def split: if_splits)

lemma sm_occupy_inv: "sm_occupy now m p = Inr m' \<Longrightarrow> sm_inv m \<Longrightarrow> \<not> isBusy m \<Longrightarrow> sm_inv m'"
  by (drule sm_occupy_cases) (auto simp: sm_inv_def)

lemma sm_respond_inv:
  assumes "sm_respond nr now rnd m p = Inr (b, q, m')" "sm_inv m"
  shows "sm_inv m'"
  using sm_respond_cases [OF assms(1)] assms(2)
    queue_ok_push [of "packetQueue m" "retryResp m" "dequeueEvent m" p]
  by (cases nr) (auto simp: sm_inv_def)

lemma sm_recvAtomic_sm_inv:
  assumes "sm_recvAtomic r m p = Inr (t, p', m')" "sm_inv m"
  shows "sm_inv m' \<and> packetQueue m' = packetQueue m"
  using sm_recvAtomic_frame [OF assms(1)] sm_recvAtomic_inv [OF assms(1)] assms(2)
  by (auto simp: sm_inv_def)

text \<open>
  What of a packet decides where it goes and what it answers, and the same of the response a request is
  owed. A request is owed a response unless it needs none or a cache has taken it over.
\<close>

type_synonym header = "mem_cmd \<times> Addr \<times> u32 \<times> PortID \<times> sender_state list"

definition header :: "packet \<Rightarrow> header" where
  "header q = (pk_cmd q, pk_addr q, pk_size q, pk_dest q, senderState q)"

definition answer_header :: "packet \<Rightarrow> header" where
  "answer_header p = (responseCommand (pk_cmd p), pk_addr p, pk_size p, pk_src p, senderState p)"

definition is_owed :: "packet \<Rightarrow> bool" where
  "is_owed p \<longleftrightarrow> needsResponse p \<and> \<not> memInhibitAsserted p"

definition same_request :: "packet \<Rightarrow> packet \<Rightarrow> bool" where
  "same_request p q \<longleftrightarrow> pk_cmd q = pk_cmd p \<and> pk_addr q = pk_addr p \<and> pk_size q = pk_size p \<and>
     pk_src q = pk_src p \<and> senderState q = senderState p"

lemma same_request_branches:
  "access_swap m p = Inr (q, m') \<Longrightarrow> same_request p q"
  "access_read m p = Inr (q, m') \<Longrightarrow> same_request p q"
  "access_write m p = Inr (q, m') \<Longrightarrow> same_request p q"
  by (auto simp: same_request_def access_swap_def access_read_def load_payload_def access_write_def writeOK_def
      checkLockedAddrList_def Let_def split: option.splits if_splits)

lemma access_answers:
  assumes "access m p = Inr (q, m')" "is_owed p"
  shows "header q = answer_header p"
proof -
  obtain p1 m1 where b: "(if pk_cmd p = SwapReq then access_swap m p else if isRead p then access_read m p
      else if isWrite p then access_write m p else if isInvalidate p then Inr (p, m) else Inl (Panic ''unimplemented'')) = Inr (p1, m1)"
    and k: "(if needsResponse p1 then bindR (makeResponse p1) (\<lambda>p2. Inr (p2, m1)) else Inr (p1, m1)) = Inr (q, m')"
    using assms by (auto simp: access_def in_range_check_def is_owed_def)
  have s: "same_request p p1"
    using b same_request_branches [of m p p1 m1] by (auto simp: same_request_def split: if_splits)
  then have "needsResponse p1" using assms(2) by (simp add: is_owed_def needsResponse_def same_request_def)
  with k have "makeResponse p1 = Inr q" by auto
  with s have "same_request p p1" "makeResponse p1 = Inr q" by auto
  then show ?thesis by (auto simp: makeResponse_def same_request_def header_def answer_header_def)
qed

lemma sm_recvTimingReq_cases:
  assumes "sm_recvTimingReq (sm_recvAtomic r0) now rnd m p = Inr (ok, q, m')" "sm_inv m"
  shows "sm_inv m' \<and> map header (map fst (packetQueue m')) =
    map header (map fst (packetQueue m)) @ (if ok \<and> is_owed p then [answer_header p] else [])"
proof -
  have i0: "sm_inv (m\<lparr>pendingDelete := x\<rparr>)" "isBusy m \<Longrightarrow> sm_inv (m\<lparr>pendingDelete := x, retryReq := True\<rparr>)"
    for x using assms(2) by (auto simp: sm_inv_def)
  consider "memInhibitAsserted p" | "\<not> memInhibitAsserted p" "retryReq m"
    | "\<not> memInhibitAsserted p" "\<not> retryReq m" "isBusy m"
    | "\<not> memInhibitAsserted p" "\<not> retryReq m" "\<not> isBusy m" by blast
  then show ?thesis
  proof cases
    case 4
    let ?p = "p\<lparr>firstWordDelay := 0, lastWordDelay := 0\<rparr>"
    obtain m1 t p' m2 where
      1: "sm_occupy now (m\<lparr>pendingDelete := []\<rparr>) ?p = Inr m1"
      and 2: "sm_recvAtomic r0 m1 ?p = Inr (t, p', m2)"
      and 3: "sm_respond (needsResponse ?p) now rnd m2 p' = Inr (ok, q, m')"
      using assms(1) 4 by (auto simp: sm_recvTimingReq_def Let_def)
    have q1: "packetQueue m1 = packetQueue m" using sm_occupy_cases [OF 1] by auto
    have s1: "sm_inv m1" using sm_occupy_inv [OF 1 i0(1)] 4 by simp
    from sm_recvAtomic_sm_inv [OF 2 this] have s2: "sm_inv m2" "packetQueue m2 = packetQueue m1" by auto
    have o: "is_owed ?p = is_owed p" "answer_header ?p = answer_header p" "needsResponse ?p = is_owed p"
      using 4 by (auto simp: is_owed_def answer_header_def pkt_test_defs memInhibitAsserted_def)
    have h: "header p' = answer_header p" if "is_owed p"
      using sm_recvAtomic_frame [OF 2] access_answers [of _ ?p] that o by auto
    show ?thesis
      using sm_respond_cases [OF 3] sm_respond_inv [OF 3 s2(1)] s2(2) q1 h o(3) by (auto split: if_splits)
  qed (use assms i0 in \<open>auto simp: sm_recvTimingReq_def Let_def is_owed_def\<close>)
qed

text \<open>A functional access changes the payload of the queued responses at most.\<close>

lemma checkFunctional_pkt_header:
  assumes "checkFunctional_pkt p q = Inr (found, p', q')"
  shows "header q' = header q \<and> isResponse q' = isResponse q"
  using assms by (auto simp: checkFunctional_pkt_def header_def pkt_test_defs split: option.splits)

lemma scan_queue_header:
  assumes "scan_queue p pq = Inr (p', pq')"
  shows "map header (map fst pq') = map header (map fst pq) \<and> list_all (\<lambda>(q, t). isResponse q) pq' = list_all (\<lambda>(q, t). isResponse q) pq \<and>
    (pq' = [] \<longleftrightarrow> pq = [])"
  using assms
proof (induction p pq arbitrary: p' pq' rule: scan_queue.induct)
  case (2 p q t rest)
  from 2(2) obtain found p1 q1 where c: "checkFunctional_pkt p q = Inr (found, p1, q1)"
    and k: "(if found then Inr (p1, (q1, t) # rest) else bindR (scan_queue p1 rest) (\<lambda>(p2, rest'). Inr (p2, (q1, t) # rest'))) = Inr (p', pq')"
    by auto
  show ?case using k 2(1) checkFunctional_pkt_header [OF c] by (cases found) (auto simp del: map_map)
qed auto

lemma sm_recvFunctional_cases:
  assumes "sm_recvFunctional m p = Inr (q, m')" "sm_inv m"
  shows "sm_inv m' \<and> map header (map fst (packetQueue m')) = map header (map fst (packetQueue m))"
proof -
  obtain p1 am' pq' where 1: "functionalAccess (sm_mem m) p = Inr (p1, am')" "scan_queue p1 (packetQueue m) = Inr (q, pq')"
    "m' = m\<lparr>sm_mem := am', packetQueue := pq'\<rparr>"
    using assms(1) by (auto simp: sm_recvFunctional_def)
  have "same_shape (sm_mem m) am' \<and> lockedAddrList am' = lockedAddrList (sm_mem m)" using 1(1)
    by (auto simp: functionalAccess_def in_range_check_def same_shape_def writeData_def dest: write_bytes_length split: if_splits option.splits list.splits sender_state.splits)
  then have "am_inv am'" using assms(2) same_shape_inv by (auto simp: sm_inv_def am_inv_def locks_ok_def)
  then show ?thesis using 1(3) assms(2) scan_queue_header [OF 1(2)] by (auto simp: sm_inv_def queue_ok_def)
qed

lemma sm_dequeue_cases:
  assumes dq: "sm_dequeue now ok m = Inr (p, m')" and inv: "sm_inv (m\<lparr>dequeueEvent := ev\<rparr>)"
    and ev: "dequeueEvent m = None"
  shows "sm_inv m' \<and> map fst (packetQueue m) = (if ok then p # map fst (packetQueue m') else map fst (packetQueue m'))"
proof -
  obtain t q where pq: "packetQueue m = (p, t) # q"
    using dq by (auto simp: sm_dequeue_def Let_def split: list.splits if_splits)
  have qo: "queue_ok ((p, t) # q) (retryResp m) ev" using inv pq by (simp add: sm_inv_def)
  show ?thesis
  proof (cases ok)
    case False
    then have "m' = m\<lparr>retryResp := True\<rparr>" using dq pq by (simp add: sm_dequeue_def Let_def)
    then show ?thesis using False inv ev pq queue_ok_refused [OF qo] by (auto simp: sm_inv_def)
  next
    case True
    have "sm_mem m' = sm_mem m \<and> isBusy m' = isBusy m \<and> releaseEvent m' = releaseEvent m \<and>
        retryReq m' = retryReq m \<and> packetQueue m' = q \<and> \<not> retryResp m' \<and>
        (dequeueEvent m' = None \<longleftrightarrow> q = [])"
      using dq pq True ev
      by (cases q) (auto simp: sm_dequeue_def Let_def split: if_splits prod.splits)
    then show ?thesis using True inv pq queue_ok_pop [OF qo, of "dequeueEvent m'"] by (auto simp: sm_inv_def)
  qed
qed

text \<open>The two projections of a history that the order of responses is about.\<close>

fun owed :: "sm_label list \<Rightarrow> packet list" where
  "owed [] = []"
| "owed (Accepted p # ls) = (if is_owed p then p # owed ls else owed ls)"
| "owed (_ # ls) = owed ls"

fun delivered :: "sm_label list \<Rightarrow> packet list" where
  "delivered [] = []"
| "delivered (Delivered p # ls) = p # delivered ls"
| "delivered (_ # ls) = delivered ls"

lemma owed_append [simp]: "owed (xs @ ys) = owed xs @ owed ys"
  by (induction xs rule: owed.induct) auto

lemma delivered_append [simp]: "delivered (xs @ ys) = delivered xs @ delivered ys"
  by (induction xs rule: delivered.induct) auto

lemma sm_step_spec:
  assumes "sm_step m l m'" "sm_inv m"
  shows "sm_inv m' \<and> map header (map fst (packetQueue m)) @ map answer_header (owed [l]) =
    map header (delivered [l] @ map fst (packetQueue m'))"
  using assms
proof (cases rule: sm_step.cases)
  case (Request r0 now rnd p ok q)
  then show ?thesis using sm_recvTimingReq_cases [OF Request(2) assms(2)] by auto
next
  case (Functional p q)
  then show ?thesis using sm_recvFunctional_cases [OF Functional(2) assms(2)] by auto
next
  case (Release t b)
  then show ?thesis using assms(2) by (auto simp: sm_release_def sm_inv_def)
next
  case (Dequeue t now ok p)
  have "sm_inv (m\<lparr>dequeueEvent := Some t\<rparr>)" using assms(2) Dequeue(2) by (auto simp: sm_inv_def)
  then show ?thesis using sm_dequeue_cases [OF Dequeue(4), of "Some t"] Dequeue(1) by (auto simp del: map_map)
next
  case (Retry now ok p)
  then have "sm_dequeue now ok m = Inr (p, m')" "retryResp m" by (auto simp: sm_recvRetry_def)
  moreover from this have "dequeueEvent m = None" "sm_inv (m\<lparr>dequeueEvent := None\<rparr>)"
    using assms(2) by (auto simp: sm_inv_def queue_ok_def)
  ultimately show ?thesis using sm_dequeue_cases [of now ok m p m' None] Retry(1) by (auto simp del: map_map)
next
  case (Drain n)
  then show ?thesis using assms(2) by (auto simp: sm_drain_def sm_inv_def split: if_splits)
qed

lemma sm_run_spec:
  assumes "sm_run m ls m'" "sm_inv m" "packetQueue m = []"
  shows "sm_inv m' \<and> map answer_header (owed ls) = map header (delivered ls @ map fst (packetQueue m'))"
  using assms
proof (induction rule: sm_run.induct)
  case (run_nil m)
  then show ?case by simp
next
  case (run_snoc m ls m1 l m2)
  then show ?case using sm_step_spec [OF run_snoc.hyps(2)] by simp
qed

text \<open>C3: whatever requests arrive, whatever the peer accepts and whatever functional accesses come in between, every
  accepted request that needs a response (and that no cache has taken over) is answered, once and
  in order: at any time the responses delivered so far followed by those in the queue are,
  one for one, those owed to the accepted requests: of the matching command, for the same address and size, directed to
  the port the request came from, and with its sender states.\<close>

theorem simple_mem_in_order:
  assumes "am_inv am" "sm_run (SimpleMemory am l lv bw) ls m"
  shows "map header (delivered ls @ map fst (packetQueue m)) = map answer_header (owed ls)"
proof -
  have "sm_inv (SimpleMemory am l lv bw)"
    using assms(1) by (simp add: sm_inv_def queue_ok_def SimpleMemory_def)
  then show ?thesis using sm_run_spec [OF assms(2)] by (simp add: SimpleMemory_def)
qed

text \<open>A memory without bandwidth limit and a read it serves.\<close>

definition example_sm :: simple_mem where
  "example_sm = SimpleMemory example_mem 10 0 (\<lambda>_. 0)"

lemma example_sm_read:
  "\<exists>q m'. sm_recvTimingReq (sm_recvAtomic 0) 0 0 example_sm (ctx_packet ReadReq 4 [9] 0) = Inr (True, q, m') \<and>
     sm_step example_sm (Accepted (ctx_packet ReadReq 4 [9] 0)) m' \<and> packetQueue m' = [(q, 10)] \<and> getPtr q = Inr [0]"
proof -
  let ?p = "ctx_packet ReadReq 4 [9] 0"
  let ?q = "?p\<lparr>firstWordDelay := 0, lastWordDelay := 0\<rparr>"
  have t: "isRead ?q" "\<not> isWrite ?q" "isRequest ?q" "needsResponse ?q" "\<not> memInhibitAsserted ?q" "\<not> isLLSC ?q"
    "needsResponse ?p"
    using ctx_packet_sel(7) [of ReadReq 4 "[9]" 0]
    by (simp_all add: pkt_test_defs cmd_defs memInhibitAsserted_def)
  have pl: "payload_ok ?q [9]"
    using ctx_packet_sel(6) [of ReadReq 4 "[9]" 0] by (simp add: payload_ok_def getPtr_def)
  have at: "bytes_at (mem_view example_mem) (pk_addr ?q) [0]" using example_mem_zero [of 4 "Suc 0"] by simp
  obtain q am' where a: "access example_mem ?q = Inr (q, am')" "isResponse q" "getPtr q = Inr [0]"
    using access_load_spec [OF example_mem_inv(1) t(1-5) pl at] t(6) by auto
  have r: "sm_recvTimingReq (sm_recvAtomic 0) 0 0 example_sm ?p = Inr (True, q,
      example_sm\<lparr>sm_mem := am', packetQueue := [(q, 10)], dequeueEvent := Some 10\<rparr>)"
    using a t
    by (simp add: sm_recvTimingReq_def example_sm_def SimpleMemory_def sm_occupy_def sm_recvAtomic_def
        sm_access_def sm_respond_def Let_def getLatency_def schedule_event_def)
  then have "sm_step example_sm (Accepted ?p) (example_sm\<lparr>sm_mem := am', packetQueue := [(q, 10)], dequeueEvent := Some 10\<rparr>)"
    by (drule_tac sm_step.Request) simp
  then show ?thesis using r a(3) by (intro exI conjI) (assumption, simp_all)
qed

theorem simple_mem_in_order_witness:
  "\<exists>q m'. sm_run example_sm [Accepted (ctx_packet ReadReq 4 [9] 0)] m' \<and> map fst (packetQueue m') = [q] \<and>
     header q = (ReadResp, 4, 1, pk_src (ctx_packet ReadReq 4 [9] 0), senderState (ctx_packet ReadReq 4 [9] 0))"
proof -
  let ?p = "ctx_packet ReadReq 4 [9] 0"
  obtain q m' where s: "sm_step example_sm (Accepted ?p) m'" "packetQueue m' = [(q, 10)]" using example_sm_read by blast
  from sm_run.run_snoc [OF sm_run.run_nil s(1)] have r: "sm_run example_sm [Accepted ?p] m'" by simp
  have "map header (delivered [Accepted ?p] @ map fst (packetQueue m')) = map answer_header (owed [Accepted ?p])"
    using simple_mem_in_order [OF example_mem_inv(1)] r unfolding example_sm_def by blast
  moreover have "is_owed ?p" "answer_header ?p = (ReadResp, 4, 1, pk_src ?p, senderState ?p)"
    using ctx_packet_sel [of ReadReq 4 "[9]" 0] by (simp_all add: is_owed_def answer_header_def pkt_test_defs cmd_defs memInhibitAsserted_def)
  ultimately show ?thesis using r s(2) by (intro exI conjI) auto
qed

text \<open>C33: the memory never gets stuck: while a refused requester waits for a retry the release
  event is scheduled and sends it, and while a response waits either the dequeue event is
  scheduled or the peer owes a retry; both find the queue in order.\<close>

theorem simple_mem_progress:
  assumes "am_inv am" "sm_run (SimpleMemory am l lv bw) ls m"
  shows "(retryReq m \<longrightarrow> (\<exists>t m'. releaseEvent m = Some t \<and>
       sm_release (m\<lparr>releaseEvent := None\<rparr>) = Inr (True, m') \<and> \<not> isBusy m' \<and> \<not> retryReq m')) \<and>
    (packetQueue m \<noteq> [] \<longrightarrow> (\<exists>t. dequeueEvent m = Some t) \<noteq> retryResp m) \<and>
    (dequeueEvent m \<noteq> None \<longrightarrow> (\<exists>p m'. sm_dequeue now ok (m\<lparr>dequeueEvent := None\<rparr>) = Inr (p, m'))) \<and>
    (retryResp m \<longrightarrow> (\<exists>p m'. sm_recvRetry now ok m = Inr (p, m')))"
proof -
  have "sm_inv (SimpleMemory am l lv bw)"
    using assms(1) by (simp add: sm_inv_def queue_ok_def SimpleMemory_def)
  then have inv: "sm_inv m" using sm_run_spec [OF assms(2)] by (simp add: SimpleMemory_def)
  have dq: "\<exists>p m'. sm_dequeue now ok x = Inr (p, m')" if "packetQueue x \<noteq> []" for x :: simple_mem
    using that by (cases "packetQueue x") (auto simp: sm_dequeue_def Let_def split: list.splits)
  have q: "packetQueue m \<noteq> [] \<longrightarrow> (\<exists>t. dequeueEvent m = Some t) \<noteq> retryResp m"
    "dequeueEvent m \<noteq> None \<Longrightarrow> packetQueue m \<noteq> []" "retryResp m \<Longrightarrow> packetQueue m \<noteq> []"
    using inv by (auto simp: sm_inv_def queue_ok_def)
  have rel: "retryReq m \<longrightarrow> (\<exists>t m'. releaseEvent m = Some t \<and>
       sm_release (m\<lparr>releaseEvent := None\<rparr>) = Inr (True, m') \<and> \<not> isBusy m' \<and> \<not> retryReq m')"
    using inv by (auto simp: sm_inv_def sm_release_def)
  show ?thesis using rel q dq [of m] dq [of "m\<lparr>dequeueEvent := None\<rparr>"]
    by (auto simp: sm_recvRetry_def)
qed

theorem simple_mem_progress_witness:
  "\<exists>m'. sm_run example_sm [Accepted (ctx_packet ReadReq 4 [9] 0)] m' \<and> packetQueue m' \<noteq> [] \<and>
     (\<exists>t. dequeueEvent m' = Some t) \<noteq> retryResp m'"
proof -
  obtain q m' where s: "sm_step example_sm (Accepted (ctx_packet ReadReq 4 [9] 0)) m'" "packetQueue m' = [(q, 10)]"
    using example_sm_read by blast
  from sm_run.run_snoc [OF sm_run.run_nil s(1)] have r: "sm_run example_sm [Accepted (ctx_packet ReadReq 4 [9] 0)] m'" by simp
  have "packetQueue m' \<noteq> [] \<longrightarrow> (\<exists>t. dequeueEvent m' = Some t) \<noteq> retryResp m'"
    using simple_mem_progress [OF example_mem_inv(1)] r unfolding example_sm_def by blast
  moreover have "packetQueue m' \<noteq> []" using s(2) by simp
  ultimately show ?thesis using r by blast
qed

lemmas sm_defs = SimpleMemory_def sm_recvTimingReq_def sm_occupy_def sm_recvAtomic_def sm_access_def
  sm_respond_def sm_recvFunctional_def getLatency_def schedule_event_def

text \<open>A functional read is answered from a queued read response rather than from the memory:
  after a read and a later write of the same byte have been accepted, it returns the byte from
  before the write, although the memory holds the new one.\<close>

theorem functional_read_stale:
  "\<exists>q1 m1 q2 m2 r m3.
     sm_recvTimingReq (sm_recvAtomic 0) 0 0 example_sm (ctx_packet ReadReq 4 [9] 0) = Inr (True, q1, m1) \<and>
     sm_recvTimingReq (sm_recvAtomic 0) 0 0 m1 (ctx_packet WriteReq 4 [5] 0) = Inr (True, q2, m2) \<and>
     mem_view (sm_mem m2) 4 = Some 5 \<and>
     sm_recvFunctional m2 (ctx_packet ReadReq 4 [9] 0) = Inr (r, m3) \<and> getPtr r = Inr [0]"
  by (simp add: sm_defs mem_eval_defs packet_eval_defs example_sm_def example_mem_def ctx_packet_def
      plain_packet_def checkFunctional_pkt_def checkFunctional_defs to_int_def allocate_def nth_append)

section \<open>The memory as an atomic port\<close>

text \<open>What every access keeps of its packet.\<close>

definition kept :: "packet \<Rightarrow> packet \<Rightarrow> bool" where
  "kept p q \<longleftrightarrow> same_txn p q \<and> memInhibitAsserted q = memInhibitAsserted p"

lemmas kept_defs = kept_def same_txn_def memInhibitAsserted_def

lemma setExtraData_frame: "rq_size (setExtraData r v) = rq_size r" "hasSize (setExtraData r v) = hasSize r"
  by (simp_all add: setExtraData_def hasSize_def fl_defs rq_flag_defs bit.conj_disj_distrib2)

lemma writeOK_kept: "writeOK m p = Inr (ok, q, m') \<Longrightarrow> kept p q"
  by (auto simp: writeOK_def checkLockedAddrList_def kept_defs setExtraData_frame Let_def split: if_splits)

lemma makeResponse_kept: "makeResponse p = Inr q \<Longrightarrow> kept p q"
  by (auto simp: makeResponse_def kept_defs fl_isSet_clear_other pkt_flag_defs)

lemma load_payload_kept: "load_payload m p = Inr q \<Longrightarrow> kept p q"
  by (auto simp: load_payload_def kept_defs split: option.splits)

lemma access_swap_kept: "access_swap m p = Inr (q, m') \<Longrightarrow> kept p q"
  by (auto simp: access_swap_def kept_defs split: option.splits)

lemma access_read_kept: "access_read m p = Inr (q, m') \<Longrightarrow> kept p q"
  by (auto simp: access_read_def Let_def dest: load_payload_kept)

lemma access_write_kept:
  assumes "access_write m p = Inr (q, m')"
  shows "kept p q"
proof -
  obtain ok p1 m1 where w: "writeOK m p = Inr (ok, p1, m1)" and "q = p1 \<or> q = p1\<lparr>ATOMIC_HMC_COMMAND := 0\<rparr>"
    using assms by (auto simp: access_write_def Let_def split: if_splits option.splits prod.splits)
  then show ?thesis using writeOK_kept [OF w] by (auto simp: kept_defs)
qed

lemma access_kept:
  assumes a: "access m p = Inr (q, m')"
  shows "kept p q"
proof (cases "memInhibitAsserted p")
  case True
  then show ?thesis using a by (auto simp: access_def in_range_check_def kept_defs)
next
  case False
  then obtain p1 m1 where p1: "(if pk_cmd p = SwapReq then access_swap m p else if isRead p then access_read m p
      else if isWrite p then access_write m p else if isInvalidate p then Inr (p, m)
      else Inl (Panic ''unimplemented'')) = Inr (p1, m1)"
    and q: "(if needsResponse p1 then bindR (makeResponse p1) (\<lambda>p2. Inr (p2, m1)) else Inr (p1, m1)) = Inr (q, m')"
    using a by (auto simp: access_def in_range_check_def)
  from p1 have "kept p p1"
    using access_swap_kept access_read_kept access_write_kept by (auto simp: kept_def same_txn_def split: if_splits)
  moreover from q have "kept p1 q" using makeResponse_kept by (auto simp: kept_def same_txn_def split: if_splits)
  ultimately show ?thesis by (simp add: kept_def same_txn_def)
qed

text \<open>SimpleMemory provides the contract of an atomic port; its latency is drawn once, as \<open>rnd\<close>.\<close>

lemma sm_atomic:
  assumes "access (sm_mem m) p = Inr (q, am')" "\<not> memInhibitAsserted q"
  shows "sm_recvAtomic rnd m p = Inr (getLatency m rnd, q, m\<lparr>sm_mem := am'\<rparr>)"
  using assms by (simp add: sm_recvAtomic_def sm_access_def getLatency_def)

interpretation sm: atomic_memory "sm_recvAtomic rnd" "\<lambda>m. mem_view (sm_mem m)" sm_inv "\<lambda>m. getLatency m rnd"
proof unfold_locales
  fix m :: "'a simple_mem_scheme" and p d bs
  assume inv: "sm_inv m" and p: "plain_request ReadReq p d"
    and at: "bytes_at (mem_view (sm_mem m)) (pk_addr p) bs" "length bs = length d"
  have am: "am_inv (sm_mem m)" using inv by (simp add: sm_inv_def)
  have c: "isRead p" "\<not> isWrite p" "isRequest p" "needsResponse p" "\<not> memInhibitAsserted p" "\<not> isLLSC p" "payload_ok p d"
    using p by (simp_all add: plain_request_def pkt_test_defs cmd_defs)
  obtain q am' where a: "access (sm_mem m) p = Inr (q, am')" "isResponse q" "getPtr q = Inr bs"
    "mem_view am' = mem_view (sm_mem m)"
    using access_load_spec [OF am c(1-5,7) at] c(6) by auto
  show "\<exists>q s'. sm_recvAtomic rnd m p = Inr (getLatency m rnd, q, s') \<and> isResponse q \<and> same_txn p q \<and>
      getPtr q = Inr bs \<and> sm_inv s' \<and> mem_view (sm_mem s') = mem_view (sm_mem m) \<and> getLatency s' rnd = getLatency m rnd"
    using sm_atomic [OF a(1), of rnd] c(5) a access_kept [OF a(1)]
      sm_recvAtomic_sm_inv [of rnd m p] inv
    by (auto simp: getLatency_def kept_def)
next
  fix m :: "'a simple_mem_scheme" and p d old
  assume inv: "sm_inv m" and p: "plain_request WriteReq p d"
    and at: "bytes_at (mem_view (sm_mem m)) (pk_addr p) old" "length old = length d"
  have am: "am_inv (sm_mem m)" using inv by (simp add: sm_inv_def)
  have c: "isWrite p" "needsResponse p" "\<not> isLLSC p" "\<not> memInhibitAsserted p"
    using p by (simp_all add: plain_request_def pkt_test_defs cmd_defs)
  have st: "store_request (sm_mem m) p d"
    using p at by (auto simp: store_request_def plain_request_def pkt_test_defs cmd_defs)
  obtain q am' where a: "access (sm_mem m) p = Inr (q, am')" "isResponse q"
    "mem_view am' = store_at (mem_view (sm_mem m)) (pk_addr p) d"
    using access_store_spec [OF am st] c by (auto simp: store_allowed_def)
  show "\<exists>q s'. sm_recvAtomic rnd m p = Inr (getLatency m rnd, q, s') \<and> isResponse q \<and> same_txn p q \<and>
      sm_inv s' \<and> mem_view (sm_mem s') = store_at (mem_view (sm_mem m)) (pk_addr p) d \<and> getLatency s' rnd = getLatency m rnd"
    using sm_atomic [OF a(1), of rnd] c(4) a access_kept [OF a(1)]
      sm_recvAtomic_sm_inv [of rnd m p] inv
    by (auto simp: getLatency_def kept_def)
qed

end
