(* ===== verification/EthzTLB.thy ===== *)
theory EthzTLB
  imports SimpleMem
begin

text \<open>
  The TLB of the processing-in-memory device (\<open>mem/ethz_tlb.hh\<close> and \<open>mem/ethz_tlb.cc\<close> under
  \<open>src/SMC_original/GEM5/gem5/src\<close>): an address mapper whose rules after the first are filled
  from the slice table in memory and replaced in least-recently-used order, and which turns writes
  to its command registers into atomic commands. The current tick is an argument, the master port
  a peer. Address dumps to a file, printing and the registration of statistics are left out; the
  counters, the queue of responses to refill requests and the retries sent are kept.
\<close>

section \<open>State\<close>

record ethz_tlb = range_addr_mapper +
  PIM_SLICETABLE_PTR :: u64
  PIM_SLICECOUNT :: u64
  PIM_SLICEVSTART :: u64
  OS_PAGE_SHIFT :: nat
  TLB_SIZE :: nat
  IDEAL_REFILL :: bool
  lastUsed :: "Tick list"
  pending_refills :: "Addr list"
  PIM_DTLB_IDEAL_REFILL_REG :: u64
  HMC_ATOMIC_INCR :: u64
  HMC_ATOMIC_IMIN :: u64
  HMC_ATOMIC_FADD :: u64
  HMC_OPERAND :: u64
  hmc_operand :: u64
  tlb_masterId :: nat
  pim_arch :: nat
  TLBAccess :: nat
  TLBDynamicAccess :: nat
  TLBMiss :: nat
  tlb_packetQueue :: "packet list"
  tlb_dequeueEvent :: "Tick option"
  tlb_retries :: nat

text \<open>The parameters of the configuration script.\<close>

record tlb_params =
  p_original_ranges :: "addr_range list"
  p_remapped_ranges :: "addr_range list"
  p_OS_PAGE_SHIFT :: nat
  p_TLB_SIZE :: nat
  p_IDEAL_REFILL :: bool
  p_PIM_DTLB_IDEAL_REFILL_REG :: u64
  p_HMC_ATOMIC_INCR :: u64
  p_HMC_ATOMIC_IMIN :: u64
  p_HMC_ATOMIC_FADD :: u64
  p_HMC_OPERAND :: u64
  p_pim_arch :: nat

text \<open>
  The constructor. \<open>PIM_SLICEVSTART\<close> is not initialised; its value is the argument \<open>vstart0\<close>.
\<close>

definition mkTLB :: "tlb_params \<Rightarrow> nat \<Rightarrow> u64 \<Rightarrow> ethz_tlb res" where
  "mkTLB p mid vstart0 =
     bindR (RangeAddrMapper (p_original_ranges p) (p_remapped_ranges p)) (\<lambda>m.
       Inr \<lparr>originalRanges = originalRanges m, remappedRanges = remappedRanges m,
            PIM_SLICETABLE_PTR = 0, PIM_SLICECOUNT = 0, PIM_SLICEVSTART = vstart0,
            OS_PAGE_SHIFT = p_OS_PAGE_SHIFT p, TLB_SIZE = p_TLB_SIZE p,
            IDEAL_REFILL = p_IDEAL_REFILL p, lastUsed = [-1], pending_refills = [],
            PIM_DTLB_IDEAL_REFILL_REG = p_PIM_DTLB_IDEAL_REFILL_REG p,
            HMC_ATOMIC_INCR = p_HMC_ATOMIC_INCR p, HMC_ATOMIC_IMIN = p_HMC_ATOMIC_IMIN p,
            HMC_ATOMIC_FADD = p_HMC_ATOMIC_FADD p, HMC_OPERAND = p_HMC_OPERAND p, hmc_operand = 0,
            tlb_masterId = mid, pim_arch = p_pim_arch p, TLBAccess = 0, TLBDynamicAccess = 0,
            TLBMiss = 0, tlb_packetQueue = [], tlb_dequeueEvent = None, tlb_retries = 0\<rparr>)"

section \<open>Lookup\<close>

text \<open>The scan of the rules: the index of the first one that contains the address.\<close>

fun rule_index :: "addr_range list \<Rightarrow> Addr \<Rightarrow> nat option" where
  "rule_index [] a = None"
| "rule_index (r # rs) a = (if contains r a then Some 0 else map_option Suc (rule_index rs a))"

definition nth_res :: "'a list \<Rightarrow> nat \<Rightarrow> 'a res" where
  "nth_res xs i = (if i < length xs then Inr (xs ! i) else Inl OutOfRange)"

definition translate :: "ethz_tlb \<Rightarrow> Addr \<Rightarrow> nat \<Rightarrow> Addr res" where
  "translate t a i =
     bindR (nth_res (remappedRanges t) i) (\<lambda>r. Inr (a - ar_start (originalRanges t ! i) + ar_start r))"

definition remap_check :: "ethz_tlb \<Rightarrow> Addr \<Rightarrow> Addr res" where
  "remap_check t a =
     (case rule_index (originalRanges t) a of Some i \<Rightarrow> translate t a i | None \<Rightarrow> Inr (-1))"

definition slice_vend :: "ethz_tlb \<Rightarrow> Addr \<Rightarrow> Addr res" where
  "slice_vend t a =
     (case rule_index (originalRanges t) a of
        Some i \<Rightarrow> Inr (ar_start (originalRanges t ! i) + range_size (originalRanges t ! i) - 1)
      | None \<Rightarrow> Inl (Panic ''This method should never fail: slice_vend() ''))"

definition slice_vstart :: "ethz_tlb \<Rightarrow> Addr \<Rightarrow> Addr res" where
  "slice_vstart t a =
     (case rule_index (originalRanges t) a of
        Some i \<Rightarrow> Inr (ar_start (originalRanges t ! i))
      | None \<Rightarrow> Inl (Panic ''This method should never fail: slice_vstart() ''))"

definition touch :: "Tick \<Rightarrow> ethz_tlb \<Rightarrow> nat \<Rightarrow> ethz_tlb res" where
  "touch now t i =
     (if i > 0 then
        (if i < length (lastUsed t)
         then Inr (t\<lparr>lastUsed := (lastUsed t)[i := now], TLBDynamicAccess := TLBDynamicAccess t + 1\<rparr>)
         else Inl OutOfRange)
      else Inr t)"

definition remap :: "Tick \<Rightarrow> ethz_tlb \<Rightarrow> Addr \<Rightarrow> (Addr \<times> ethz_tlb) res" where
  "remap now t a =
     (let t = t\<lparr>TLBAccess := TLBAccess t + 1\<rparr> in
      case rule_index (originalRanges t) a of
        Some i \<Rightarrow> bindR (touch now t i) (\<lambda>t'. bindR (translate t' a i) (\<lambda>x. Inr (x, t')))
      | None \<Rightarrow>
          if PIM_SLICETABLE_PTR t \<noteq> 0 then Inr (-1, t\<lparr>TLBMiss := TLBMiss t + 1\<rparr>)
          else Inl (Panic ''TLB: Unresolvable address!''))"

section \<open>Replacement and refill\<close>

text \<open>The scan for the least recently used rule, from rule 1 on.\<close>

fun lru_scan :: "nat \<Rightarrow> Tick \<Rightarrow> nat \<Rightarrow> Tick list \<Rightarrow> nat" where
  "lru_scan i mn mi [] = mi"
| "lru_scan i mn mi (x # xs) = (if mn > x then lru_scan (Suc i) x i xs else lru_scan (Suc i) mn mi xs)"

definition lru_index :: "Tick list \<Rightarrow> nat" where
  "lru_index us = lru_scan 1 (us ! 1) 1 (tl us)"

definition erase_at :: "nat \<Rightarrow> 'a list \<Rightarrow> 'a list" where
  "erase_at i xs = take i xs @ drop (Suc i) xs"

definition evict :: "ethz_tlb \<Rightarrow> ethz_tlb res" where
  "evict t =
     (if length (lastUsed t) < 2 then Inl OutOfRange
      else let i = lru_index (lastUsed t) in
        if i < length (originalRanges t) \<and> i < length (remappedRanges t)
        then Inr (t\<lparr>lastUsed := erase_at i (lastUsed t), originalRanges := erase_at i (originalRanges t),
                    remappedRanges := erase_at i (remappedRanges t)\<rparr>)
        else Inl OutOfRange)"

definition updateTLB :: "Tick \<Rightarrow> ethz_tlb \<Rightarrow> u64 \<Rightarrow> u64 \<Rightarrow> u64 \<Rightarrow> ethz_tlb res" where
  "updateTLB now t vaddr paddr sz =
     bindR (if length (originalRanges t) \<ge> TLB_SIZE t then evict t else Inr t) (\<lambda>t1.
       Inr (t1\<lparr>originalRanges := originalRanges t1 @ [mkAddrRange vaddr (vaddr + sz - 1)],
               remappedRanges := remappedRanges t1 @ [mkAddrRange paddr (paddr + sz - 1)],
               lastUsed := lastUsed t1 @ [now]\<rparr>))"

definition pending_refill :: "ethz_tlb \<Rightarrow> Addr \<Rightarrow> bool" where
  "pending_refill t a \<longleftrightarrow> a \<in> set (pending_refills t)"

definition remove_pending_refill :: "ethz_tlb \<Rightarrow> Addr \<Rightarrow> bool \<times> ethz_tlb" where
  "remove_pending_refill t a =
     (if pending_refill t a then (True, t\<lparr>pending_refills := remove1 a (pending_refills t)\<rparr>)
      else (False, t))"

definition entry_bytes :: "ethz_tlb \<Rightarrow> nat" where
  "entry_bytes t = 3 * pim_arch t div 8"

text \<open>The address of the slice-table entry for a virtual address, and the packet that reads it.\<close>

definition entry_addr :: "ethz_tlb \<Rightarrow> Addr \<Rightarrow> Addr" where
  "entry_addr t a =
     PIM_SLICETABLE_PTR t + drop_bit (OS_PAGE_SHIFT t) (a - PIM_SLICEVSTART t) * of_nat (entry_bytes t)"

definition refill_packet :: "Tick \<Rightarrow> ethz_tlb \<Rightarrow> Addr \<Rightarrow> packet res" where
  "refill_packet now t a =
     bindR (Request_phys (entry_addr t a) (int (entry_bytes t)) 0 (tlb_masterId t) now) (\<lambda>r.
       dataDynamicArray ((Packet_new r ReadReq)\<lparr>pk_src := 0\<rparr>) (replicate (entry_bytes t) 0))"

text \<open>Word \<open>k\<close> of a payload seen as an array of words of \<open>n\<close> bytes.\<close>

definition ptr_word :: "packet \<Rightarrow> nat \<Rightarrow> nat \<Rightarrow> u64 res" where
  "ptr_word p n k =
     bindR (getPtr p) (\<lambda>d. bindR (ofOpt (read_bytes d (k * n) n)) (\<lambda>bs. Inr (of_nat (le_to_nat bs))))"

definition word_bytes :: "ethz_tlb \<Rightarrow> nat" where
  "word_bytes t = (if pim_arch t = 32 then 4 else 8)"

definition refill_from :: "Tick \<Rightarrow> ethz_tlb \<Rightarrow> packet \<Rightarrow> ethz_tlb res" where
  "refill_from now t p =
     assertR (pk_size p = of_nat (entry_bytes t)) ''getSize() == 3*pim_arch/8''
    (bindR (ptr_word p (word_bytes t) 0) (\<lambda>vaddr.
     bindR (ptr_word p (word_bytes t) 1) (\<lambda>paddr.
     bindR (ptr_word p (word_bytes t) 2) (\<lambda>sz. updateTLB now t vaddr paddr sz))))"

definition refillTLB_functional ::
    "'s functional_peer \<Rightarrow> Tick \<Rightarrow> ethz_tlb \<Rightarrow> 's \<Rightarrow> Addr \<Rightarrow> (ethz_tlb \<times> 's) res" where
  "refillTLB_functional sendFunctional now t s a =
     assertR (a \<ge> PIM_SLICEVSTART t) ''addr >= PIM_SLICEVSTART''
    (if pending_refill t (entry_addr t a)
     then Inl (Panic ''refillTLB_functional: this situation is not very bad, but we avoid it for now'')
     else
       bindR (refill_packet now t a) (\<lambda>p.
       bindR (sendFunctional s p) (\<lambda>(p', s').
       bindR (refill_from now t p') (\<lambda>t'. Inr (t', s')))))"

definition refillTLB_atomic ::
    "'s atomic_peer \<Rightarrow> Tick \<Rightarrow> ethz_tlb \<Rightarrow> 's \<Rightarrow> Addr \<Rightarrow> (ethz_tlb \<times> 's) res" where
  "refillTLB_atomic sendAtomic now t s a =
     assertR (a \<ge> PIM_SLICEVSTART t) ''addr >= PIM_SLICEVSTART''
    (if pending_refill t (entry_addr t a)
     then Inl (Panic ''refillTLB_atomic: atomic and timing cannot coexist!'')
     else
       bindR (refill_packet now t a) (\<lambda>p.
       bindR (sendAtomic s p) (\<lambda>(_, p', s').
       bindR (refill_from now t p') (\<lambda>t'. Inr (t', s')))))"

text \<open>\<open>refillTLB_timing\<close>: the request is sent, and its answer comes back to \<open>recvTimingResp\<close>.\<close>

definition refillTLB_timing ::
    "'s timing_peer \<Rightarrow> Tick \<Rightarrow> ethz_tlb \<Rightarrow> 's \<Rightarrow> Addr \<Rightarrow> (bool \<times> ethz_tlb \<times> 's) res" where
  "refillTLB_timing sendTimingReq now t s a =
     assertR (a \<ge> PIM_SLICEVSTART t) ''addr >= PIM_SLICEVSTART''
    (if pending_refill t (entry_addr t a) then Inr (True, t, s)
     else
       bindR (refill_packet now t a) (\<lambda>p.
       bindR (sendTimingReq s p) (\<lambda>(successful, _, s').
         if successful
         then Inr (True, t\<lparr>pending_refills := pending_refills t @ [entry_addr t a]\<rparr>, s')
         else Inr (False, t, s'))))"

section \<open>Command registers\<close>

text \<open>
  A write to a command register: the word written is the virtual address of the operand. The
  result is that address, zero when there is nothing to do.
\<close>

definition hmc_target :: "ethz_tlb \<Rightarrow> packet \<Rightarrow> u64 res" where
  "hmc_target t p =
     assertR (pk_size p = of_nat (pim_arch t div 8)) ''getSize() == pim_arch/8''
    (bindR (ptr_word p (word_bytes t) 0) (\<lambda>a. assertR (a \<noteq> -1) ''remapped_addr!=(Addr)-1'' (Inr a)))"

definition write_operand :: "ethz_tlb \<Rightarrow> packet \<Rightarrow> ethz_tlb res" where
  "write_operand t p =
     (if pk_addr p = HMC_OPERAND t \<and> isWrite p
      then bindR (ptr_word p 4 0) (\<lambda>v. Inr (t\<lparr>hmc_operand := v\<rparr>))
      else Inr t)"

definition check_hmc_command :: "ethz_tlb \<Rightarrow> packet \<Rightarrow> (Addr \<times> packet \<times> ethz_tlb) res" where
  "check_hmc_command t p =
     (let a = pk_addr p in
      if a = 0 then Inr (0, p, t)
      else if a = HMC_ATOMIC_INCR t \<and> isWrite p then
        bindR (hmc_target t p) (\<lambda>x.
          if x = 0 then Inr (0, p, t)
          else bindR (write_operand t p) (\<lambda>t'. Inr (x, p\<lparr>ATOMIC_HMC_COMMAND := HMC_CMD_INC\<rparr>, t')))
      else if a = HMC_ATOMIC_FADD t \<and> isWrite p then
        bindR (hmc_target t p) (\<lambda>x.
          if x = 0 then Inr (0, p, t)
          else bindR (write_operand t p) (\<lambda>t'.
            Inr (x, p\<lparr>ATOMIC_HMC_COMMAND := HMC_CMD_FADD, ATOMIC_HMC_OPERAND := hmc_operand t\<rparr>, t')))
      else if a = HMC_ATOMIC_IMIN t \<and> isWrite p then
        bindR (hmc_target t p) (\<lambda>x.
          if x = 0 then Inr (0, p, t)
          else bindR (write_operand t p) (\<lambda>t'.
            Inr (x, p\<lparr>ATOMIC_HMC_COMMAND := HMC_CMD_MIN, ATOMIC_HMC_OPERAND := hmc_operand t\<rparr>, t')))
      else bindR (write_operand t p) (\<lambda>t'. Inr (0, p, t')))"

section \<open>Accesses\<close>

definition is_refill_reg :: "ethz_tlb \<Rightarrow> Addr \<Rightarrow> bool" where
  "is_refill_reg t a \<longleftrightarrow> PIM_DTLB_IDEAL_REFILL_REG t \<noteq> 0 \<and> a = PIM_DTLB_IDEAL_REFILL_REG t"

definition tlb_recvFunctional ::
    "'s functional_peer \<Rightarrow> Tick \<Rightarrow> ethz_tlb \<Rightarrow> 's \<Rightarrow> packet \<Rightarrow> (packet \<times> ethz_tlb \<times> 's) res" where
  "tlb_recvFunctional sendFunctional now t s p =
     bindR (getAddr p) (\<lambda>orig_addr.
     if is_refill_reg t orig_addr
     then Inl (Panic ''Not implemented! (ethz_TLB::recvFunctional - DTLB Ideal Refill'')
     else
       bindR (remap now t orig_addr) (\<lambda>(ra, t').
       if ra = -1 then Inl (Panic ''Not implemented yet:ethz_TLB::recvFunctional'')
       else
         bindR (setAddr p ra) (\<lambda>p1.
         bindR (sendFunctional s p1) (\<lambda>(p2, s').
         bindR (setAddr p2 orig_addr) (\<lambda>p3. Inr (p3, t', s'))))))"

text \<open>The refill a write to the refill register asks for, as both kinds of access do it.\<close>

definition ideal_refill ::
    "'s functional_peer \<Rightarrow> Tick \<Rightarrow> ethz_tlb \<Rightarrow> 's \<Rightarrow> packet \<Rightarrow> (ethz_tlb \<times> 's) res" where
  "ideal_refill sendFunctional now t s p =
     bindR (ptr_word p (word_bytes t) 0) (\<lambda>a.
       if a = 0 then Inr (t, s)
       else bindR (remap_check t a) (\<lambda>x.
         if x = -1 then refillTLB_functional sendFunctional now t s a else Inr (t, s)))"

definition tlb_recvAtomic ::
    "'s functional_peer \<Rightarrow> 's atomic_peer \<Rightarrow> Tick \<Rightarrow> ethz_tlb \<Rightarrow> 's \<Rightarrow> packet \<Rightarrow>
     (Tick \<times> packet \<times> ethz_tlb \<times> 's) res" where
  "tlb_recvAtomic sendFunctional sendAtomic now t s p =
     bindR (getAddr p) (\<lambda>orig_addr.
     if is_refill_reg t orig_addr then
       assertR (pk_size p = of_nat (pim_arch t div 8)) ''getSize() == pim_arch/8''
      (assertR (isWrite p) ''isWrite()''
      (bindR (ideal_refill sendFunctional now t s p) (\<lambda>(t', s'). Inr (1, p, t', s'))))
     else
       bindR (check_hmc_command t p) (\<lambda>(h, p, t).
       bindR (remap now t (if h = 0 then orig_addr else h)) (\<lambda>(ra, t).
       bindR (if ra = -1 then
                bindR (refillTLB_atomic sendAtomic now t s orig_addr) (\<lambda>(t, s).
                bindR (remap now t orig_addr) (\<lambda>(ra, t).
                  if ra = -1 then Inl (Panic ''TLB refill was not successful! (ethz_TLB::recvAtomic)'')
                  else Inr (ra, t, s)))
              else Inr (ra, t, s)) (\<lambda>(ra, t, s).
       bindR (setAddr p ra) (\<lambda>p1.
       bindR (sendAtomic s p1) (\<lambda>(ret_tick, p2, s').
       bindR (setAddr p2 orig_addr) (\<lambda>p3. Inr (ret_tick, p3, t, s'))))))))"

text \<open>
  \<open>recvTimingReq\<close>. The first part remaps the packet; \<open>None\<close> means that a refill is under way and
  the request has to be retried.
\<close>

definition tlb_remap_pkt ::
    "'s functional_peer \<Rightarrow> 's timing_peer \<Rightarrow> Tick \<Rightarrow> ethz_tlb \<Rightarrow> 's \<Rightarrow> packet \<Rightarrow> Addr \<Rightarrow>
     ((Addr option) \<times> packet \<times> ethz_tlb \<times> 's) res" where
  "tlb_remap_pkt sendFunctional sendTimingReq now t s p orig_addr =
     (if \<not> IS_REMAPPED p then
        bindR (check_hmc_command t p) (\<lambda>(h, p, t).
        let orig_addr = (if h \<noteq> 0 then h else orig_addr) in
        bindR (remap now t orig_addr) (\<lambda>(ra, t).
        bindR (if ra = -1 then
                 (if IDEAL_REFILL t then
                    bindR (refillTLB_functional sendFunctional now t s orig_addr) (\<lambda>(t, s).
                    bindR (remap now t orig_addr) (\<lambda>(ra, t).
                      assertR (ra \<noteq> -1) ''remapped_addr != (Addr)-1'' (Inr (Some ra, t, s))))
                  else bindR (refillTLB_timing sendTimingReq now t s orig_addr)
                         (\<lambda>(_, t, s). Inr (None, t, s)))
               else Inr (Some ra, t, s)) (\<lambda>(ra, t, s).
          case ra of
            None \<Rightarrow> Inr (None, p, t, s)
          | Some x \<Rightarrow> bindR (setAddr p x) (\<lambda>p. Inr (Some orig_addr, p\<lparr>IS_REMAPPED := True\<rparr>, t, s)))))
      else Inr (Some orig_addr, p, t, s))"

definition tlb_recvTimingReq ::
    "'s functional_peer \<Rightarrow> 's timing_peer \<Rightarrow> Tick \<Rightarrow> ethz_tlb \<Rightarrow> 's \<Rightarrow> packet \<Rightarrow>
     (bool \<times> packet \<times> ethz_tlb \<times> 's) res" where
  "tlb_recvTimingReq sendFunctional sendTimingReq now t s p =
     bindR (getAddr p) (\<lambda>orig_addr.
     if is_refill_reg t orig_addr then
       (let p = p\<lparr>firstWordDelay := 0, lastWordDelay := 0\<rparr> in
        assertR (isWrite p) ''isWrite()''
       (assertR (pk_size p = of_nat (pim_arch t div 8)) ''getSize() == pim_arch/8''
       (if needsResponse p then
          bindR (makeResponse p) (\<lambda>p.
          bindR (schedule_event (tlb_dequeueEvent t) now (now + 1)) (\<lambda>ev.
          bindR (ideal_refill sendFunctional now
                   (t\<lparr>tlb_packetQueue := tlb_packetQueue t @ [p], tlb_dequeueEvent := ev\<rparr>) s p)
            (\<lambda>(t', s'). Inr (True, p, t', s'))))
        else Inl (Panic ''Only WRITE should happen to this register''))))
     else
       let needs_response = needsResponse p; inhibited = memInhibitAsserted p in
       bindR (tlb_remap_pkt sendFunctional sendTimingReq now t s p orig_addr) (\<lambda>(oa, p, t, s).
         case oa of
           None \<Rightarrow> Inr (False, p, t, s)
         | Some orig_addr \<Rightarrow>
             let p1 = (if needs_response \<and> \<not> inhibited
                       then pushSenderState p (AddrMapperSenderState orig_addr) else p) in
             bindR (sendTimingReq s p1) (\<lambda>(successful, p2, s').
               if \<not> successful \<and> needs_response
               then bindR (popSenderState p2) (\<lambda>(_, p3). Inr (successful, p3, t, s'))
               else Inr (successful, p2, t, s'))))"

definition tlb_recvTimingResp ::
    "'s timing_peer \<Rightarrow> Tick \<Rightarrow> ethz_tlb \<Rightarrow> 's \<Rightarrow> packet \<Rightarrow> (bool \<times> packet \<times> ethz_tlb \<times> 's) res" where
  "tlb_recvTimingResp sendTimingResp now t s p =
     (case senderState p of
        AddrMapperSenderState origAddr # predecessor \<Rightarrow>
          bindR (mapper_recvTimingResp sendTimingResp s p) (\<lambda>(ok, p', s'). Inr (ok, p', t, s'))
      | _ \<Rightarrow>
          assertR (pk_size p = of_nat (entry_bytes t)) ''getSize() == 3*pim_arch/8''
         (bindR (getAddr p) (\<lambda>a.
            case remove_pending_refill t a of
              (False, _) \<Rightarrow> Inl (Panic ''success = remove_pending_refill(pkt->getAddr()) failed!'')
            | (True, t1) \<Rightarrow>
                bindR (refill_from now t1 p) (\<lambda>t2.
                  Inr (True, p, t2\<lparr>tlb_retries := tlb_retries t2 + 1\<rparr>, s)))))"

text \<open>\<open>dequeue\<close>: the answer to a refill request; \<open>ok\<close> is the answer of the processor.\<close>

definition tlb_dequeue :: "bool \<Rightarrow> ethz_tlb \<Rightarrow> (packet \<times> ethz_tlb) res" where
  "tlb_dequeue ok t =
     (case tlb_packetQueue t of
        [] \<Rightarrow> Inl (AssertFail ''!packetQueue.empty()'')
      | p # rest \<Rightarrow>
          if ok
          then assertR (rest = []) ''packetQueue.empty()'' (Inr (p, t\<lparr>tlb_packetQueue := rest\<rparr>))
          else Inl (Panic ''Response from TLB cannot be rejected by the processor! (No retry mechanism has been implemented)''))"

section \<open>Rules and their replacement\<close>

definition tlb_inv :: "ethz_tlb \<Rightarrow> bool" where
  "tlb_inv t \<longleftrightarrow> length (remappedRanges t) = length (originalRanges t) \<and>
     length (lastUsed t) = length (originalRanges t) \<and> originalRanges t \<noteq> [] \<and>
     length (originalRanges t) \<le> TLB_SIZE t \<and> 2 \<le> TLB_SIZE t"

text \<open>What no operation changes: the configuration and the first rule, which is never replaced.\<close>

definition tlb_keeps :: "ethz_tlb \<Rightarrow> ethz_tlb \<Rightarrow> bool" where
  "tlb_keeps t t' \<longleftrightarrow> tlb_inv t' \<and> TLB_SIZE t' = TLB_SIZE t \<and> hd (originalRanges t') = hd (originalRanges t) \<and>
     hd (remappedRanges t') = hd (remappedRanges t)"

lemma tlb_keeps_refl: "tlb_inv t \<Longrightarrow> tlb_keeps t t"
  by (simp add: tlb_keeps_def)

lemma tlb_keeps_trans: "tlb_keeps t t' \<Longrightarrow> tlb_keeps t' t'' \<Longrightarrow> tlb_keeps t t''"
  by (simp add: tlb_keeps_def)

lemma tlb_keepsD: "tlb_keeps t t' \<Longrightarrow> tlb_inv t'"
  by (simp add: tlb_keeps_def)

lemma rule_index_Some:
  "rule_index rs a = Some i \<longleftrightarrow> i < length rs \<and> contains (rs ! i) a \<and> (\<forall>j < i. \<not> contains (rs ! j) a)"
proof (induction rs arbitrary: i)
  case Nil
  then show ?case by simp
next
  case (Cons r rs)
  then show ?case by (cases i) (auto simp: less_Suc_eq_0_disj)
qed

lemma rule_index_None: "rule_index rs a = None \<longleftrightarrow> (\<forall>r \<in> set rs. \<not> contains r a)"
  by (induction rs) auto

lemma nth_res_ok [simp]: "i < length xs \<Longrightarrow> nth_res xs i = Inr (xs ! i)"
  by (simp add: nth_res_def)

lemma remap_cases:
  assumes "tlb_inv t"
  shows "case rule_index (originalRanges t) a of
      Some i \<Rightarrow> \<exists>t'. remap now t a = Inr (a - ar_start (originalRanges t ! i) + ar_start (remappedRanges t ! i), t') \<and>
        tlb_keeps t t' \<and> originalRanges t' = originalRanges t \<and> remappedRanges t' = remappedRanges t \<and>
        lastUsed t' = (if i = 0 then lastUsed t else (lastUsed t)[i := now])
    | None \<Rightarrow> remap now t a = (if PIM_SLICETABLE_PTR t = 0 then Inl (Panic ''TLB: Unresolvable address!'')
        else Inr (-1, t\<lparr>TLBAccess := TLBAccess t + 1, TLBMiss := TLBMiss t + 1\<rparr>))"
proof (cases "rule_index (originalRanges t) a")
  case None
  then show ?thesis by (simp add: remap_def Let_def)
next
  case (Some i)
  then have "i < length (originalRanges t)" by (simp add: rule_index_Some)
  then show ?thesis
    using Some assms
    by (cases "i = 0") (simp_all add: remap_def Let_def touch_def translate_def tlb_inv_def tlb_keeps_def)
qed

lemma remap_keeps: "remap now t a = Inr (x, t') \<Longrightarrow> tlb_inv t \<Longrightarrow> tlb_keeps t t'"
  using remap_cases [where t = t and a = a and now = now]
  by (auto simp: tlb_keeps_def tlb_inv_def split: option.splits if_splits)

lemma lru_scan_spec:
  assumes "xs = drop i us" "1 \<le> i" "1 \<le> mi" "mi < length us" "mn = us ! mi"
    and "\<forall>j. 1 \<le> j \<and> j < i \<longrightarrow> us ! mi \<le> us ! j"
  shows "1 \<le> lru_scan i mn mi xs \<and> lru_scan i mn mi xs < length us \<and>
    (\<forall>j. 1 \<le> j \<and> j < length us \<longrightarrow> us ! lru_scan i mn mi xs \<le> us ! j)"
  using assms
proof (induction xs arbitrary: i mn mi)
  case Nil
  then have "length us \<le> i" by simp
  then show ?case using Nil by auto
next
  case (Cons x xs)
  have i: "i < length us" using Cons.prems(1) by (metis drop_eq_Nil2 leI list.simps(3))
  have x: "x = us ! i" "xs = drop (Suc i) us"
    using Cons.prems(1) i by (simp_all add: Cons_nth_drop_Suc [symmetric])
  show ?case
  proof (cases "mn > x")
    case True
    have "\<forall>j. 1 \<le> j \<and> j < Suc i \<longrightarrow> us ! i \<le> us ! j"
      using True Cons.prems(5,6) x(1) by (auto simp: less_Suc_eq intro: order.trans [OF less_imp_le])
    then show ?thesis using Cons.IH [OF x(2), of i x] True x(1) i Cons.prems(2) by simp
  next
    case False
    have "\<forall>j. 1 \<le> j \<and> j < Suc i \<longrightarrow> us ! mi \<le> us ! j"
      using False Cons.prems(5,6) x(1) by (auto simp: less_Suc_eq)
    then show ?thesis using Cons.IH [OF x(2), of mi mn] False Cons.prems(2-5) by simp
  qed
qed

lemma lru_index_spec:
  assumes "2 \<le> length us"
  shows "1 \<le> lru_index us" "lru_index us < length us"
    "1 \<le> j \<Longrightarrow> j < length us \<Longrightarrow> us ! lru_index us \<le> us ! j"
  using lru_scan_spec [of "tl us" 1 us 1 "us ! 1"] assms
  by (auto simp: lru_index_def drop_Suc)

lemma erase_at_facts:
  "i < length xs \<Longrightarrow> length (erase_at i xs) = length xs - 1"
  "1 \<le> i \<Longrightarrow> i < length xs \<Longrightarrow> hd (erase_at i xs) = hd xs"
  "1 \<le> i \<Longrightarrow> i < length xs \<Longrightarrow> erase_at i xs \<noteq> []"
  by (auto simp: erase_at_def hd_append hd_take)

lemma updateTLB_spec:
  assumes inv: "tlb_inv t"
  defines "full \<equiv> length (originalRanges t) \<ge> TLB_SIZE t" and "k \<equiv> lru_index (lastUsed t)"
  shows "\<exists>t'. updateTLB now t v p n = Inr t' \<and> tlb_keeps t t' \<and>
    originalRanges t' = (if full then erase_at k (originalRanges t) else originalRanges t) @ [mkAddrRange v (v + n - 1)] \<and>
    remappedRanges t' = (if full then erase_at k (remappedRanges t) else remappedRanges t) @ [mkAddrRange p (p + n - 1)] \<and>
    lastUsed t' = (if full then erase_at k (lastUsed t) else lastUsed t) @ [now]"
proof (cases full)
  case True
  then have 2: "2 \<le> length (lastUsed t)" using inv by (simp add: tlb_inv_def full_def)
  note k = lru_index_spec(1,2) [OF 2, folded k_def]
  have "evict t = Inr (t\<lparr>lastUsed := erase_at k (lastUsed t), originalRanges := erase_at k (originalRanges t),
      remappedRanges := erase_at k (remappedRanges t)\<rparr>)"
    using 2 k inv by (simp add: evict_def Let_def tlb_inv_def k_def)
  then show ?thesis
    using True k inv
    by (auto simp: updateTLB_def tlb_keeps_def tlb_inv_def full_def erase_at_facts hd_append)
next
  case False
  then show ?thesis
    using inv by (auto simp: updateTLB_def tlb_keeps_def tlb_inv_def full_def hd_append)
qed

lemma updateTLB_keeps: "updateTLB now t v p n = Inr t' \<Longrightarrow> tlb_inv t \<Longrightarrow> tlb_keeps t t'"
  using updateTLB_spec [of t now v p n] by auto

section \<open>Invariant of the handlers\<close>

lemma tlb_keeps_fields [simp]:
  "tlb_keeps t (t'\<lparr>hmc_operand := x\<rparr>) = tlb_keeps t t'"
  "tlb_keeps t (t'\<lparr>pending_refills := ps\<rparr>) = tlb_keeps t t'"
  "tlb_keeps t (t'\<lparr>tlb_packetQueue := q, tlb_dequeueEvent := ev\<rparr>) = tlb_keeps t t'"
  "tlb_keeps t (t'\<lparr>tlb_retries := n\<rparr>) = tlb_keeps t t'"
  "tlb_inv (t\<lparr>tlb_packetQueue := q, tlb_dequeueEvent := ev\<rparr>) = tlb_inv t"
  "tlb_inv (t\<lparr>pending_refills := ps\<rparr>) = tlb_inv t"
  "tlb_keeps (t\<lparr>tlb_packetQueue := q, tlb_dequeueEvent := ev\<rparr>) t' = tlb_keeps t t'"
  "tlb_keeps (t\<lparr>pending_refills := ps\<rparr>) t' = tlb_keeps t t'"
  by (simp_all add: tlb_keeps_def tlb_inv_def)

lemma check_hmc_keeps:
  assumes "check_hmc_command t p = Inr (h, p', t')" "tlb_inv t"
  shows "tlb_keeps t t'"
proof -
  have w: "write_operand t p = Inr x \<Longrightarrow> tlb_keeps t x" for x
    using assms(2) by (auto simp: write_operand_def tlb_keeps_refl split: if_splits)
  show ?thesis
    using assms w by (auto simp: check_hmc_command_def Let_def tlb_keeps_refl split: if_splits)
qed

lemma refill_from_keeps: "refill_from now t p = Inr t' \<Longrightarrow> tlb_inv t \<Longrightarrow> tlb_keeps t t'"
  by (auto simp: refill_from_def dest: updateTLB_keeps)

lemma refillTLB_functional_keeps:
  "refillTLB_functional send now t s a = Inr (t', s') \<Longrightarrow> tlb_inv t \<Longrightarrow> tlb_keeps t t'"
  by (auto simp: refillTLB_functional_def dest: refill_from_keeps split: if_splits)

lemma refillTLB_atomic_keeps:
  "refillTLB_atomic send now t s a = Inr (t', s') \<Longrightarrow> tlb_inv t \<Longrightarrow> tlb_keeps t t'"
  by (auto simp: refillTLB_atomic_def dest: refill_from_keeps split: if_splits)

lemma refillTLB_timing_keeps:
  "refillTLB_timing send now t s a = Inr (b, t', s') \<Longrightarrow> tlb_inv t \<Longrightarrow> tlb_keeps t t'"
  by (auto simp: refillTLB_timing_def tlb_keeps_refl split: if_splits)

lemma ideal_refill_keeps:
  "ideal_refill send now t s p = Inr (t', s') \<Longrightarrow> tlb_inv t \<Longrightarrow> tlb_keeps t t'"
  by (auto simp: ideal_refill_def tlb_keeps_refl split: if_splits) (erule (1) refillTLB_functional_keeps)

lemmas keeps_rules = remap_keeps check_hmc_keeps refillTLB_functional_keeps refillTLB_atomic_keeps
  refillTLB_timing_keeps ideal_refill_keeps

lemma tlb_remap_pkt_keeps:
  assumes "tlb_remap_pkt sf st now t s p a = Inr (oa, p', t', s')" "tlb_inv t"
  shows "tlb_keeps t t'"
proof (cases "IS_REMAPPED p")
  case True
  then show ?thesis using assms by (simp add: tlb_remap_pkt_def tlb_keeps_refl)
next
  case False
  then obtain h p1 t1 ra t2 where 1: "check_hmc_command t p = Inr (h, p1, t1)"
    and 2: "remap now t1 (if h \<noteq> 0 then h else a) = Inr (ra, t2)"
    using assms(1) by (auto simp: tlb_remap_pkt_def Let_def)
  have k2: "tlb_keeps t t2"
    using check_hmc_keeps [OF 1 assms(2)] remap_keeps [OF 2] tlb_keepsD tlb_keeps_trans by blast
  have "tlb_keeps t2 t'"
    using assms(1) False 1 2 tlb_keepsD [OF k2]
    by (auto simp: tlb_remap_pkt_def Let_def tlb_keeps_refl
        dest!: refillTLB_functional_keeps refillTLB_timing_keeps remap_keeps
        split: if_splits option.splits intro: tlb_keeps_trans tlb_keepsD)
  then show ?thesis using k2 tlb_keeps_trans by blast
qed

lemma tlb_recvTimingReq_keeps:
  assumes "tlb_recvTimingReq sf st now t s p = Inr (b, q, t', s')" "tlb_inv t"
  shows "tlb_keeps t t'"
proof (cases "is_refill_reg t (pk_addr p)")
  case True
  then obtain q1 ev where "ideal_refill sf now
      (t\<lparr>tlb_packetQueue := tlb_packetQueue t @ [q1], tlb_dequeueEvent := ev\<rparr>) s q1 = Inr (t', s')"
    using assms(1) by (auto simp: tlb_recvTimingReq_def getAddr_def Let_def split: if_splits)
  from ideal_refill_keeps [OF this] show ?thesis using assms(2) by simp
next
  case False
  then obtain oa p1 s1 where "tlb_remap_pkt sf st now t s p (pk_addr p) = Inr (oa, p1, t', s1)"
    using assms(1)
    by (auto simp: tlb_recvTimingReq_def getAddr_def Let_def split: if_splits option.splits)
  from tlb_remap_pkt_keeps [OF this assms(2)] show ?thesis .
qed

lemma tlb_recvAtomic_keeps:
  assumes "tlb_recvAtomic sf sa now t s p = Inr (k, q, t', s')" "tlb_inv t"
  shows "tlb_keeps t t'"
proof (cases "is_refill_reg t (pk_addr p)")
  case True
  then show ?thesis
    using assms by (auto simp: tlb_recvAtomic_def getAddr_def intro: ideal_refill_keeps)
next
  case False
  then obtain h p1 t1 ra t2 where 1: "check_hmc_command t p = Inr (h, p1, t1)"
    and 2: "remap now t1 (if h = 0 then pk_addr p else h) = Inr (ra, t2)"
    using assms(1) by (auto simp: tlb_recvAtomic_def getAddr_def)
  have k2: "tlb_keeps t t2"
    using check_hmc_keeps [OF 1 assms(2)] remap_keeps [OF 2] tlb_keepsD tlb_keeps_trans by blast
  have "t' = t2 \<or> (\<exists>t3 s3 x. refillTLB_atomic sa now t2 s (pk_addr p) = Inr (t3, s3) \<and>
      remap now t3 (pk_addr p) = Inr (x, t'))"
    using assms(1) False 1 2
    by (auto simp: tlb_recvAtomic_def getAddr_def split: if_splits)
  then have "tlb_keeps t2 t'"
  proof (elim disjE exE conjE)
    fix t3 s3 x
    assume r: "refillTLB_atomic sa now t2 s (pk_addr p) = Inr (t3, s3)" "remap now t3 (pk_addr p) = Inr (x, t')"
    note k3 = refillTLB_atomic_keeps [OF r(1) tlb_keepsD [OF k2]]
    show ?thesis by (rule tlb_keeps_trans [OF k3 remap_keeps [OF r(2) tlb_keepsD [OF k3]]])
  qed (use tlb_keepsD [OF k2] tlb_keeps_refl in simp)
  then show ?thesis using k2 tlb_keeps_trans by blast
qed

lemma tlb_recvTimingResp_keeps:
  assumes "tlb_recvTimingResp sr now t s p = Inr (b, q, t', s')" "tlb_inv t"
  shows "tlb_keeps t t'"
  using assms
  by (auto simp: tlb_recvTimingResp_def remove_pending_refill_def tlb_keeps_refl
      dest!: refill_from_keeps split: list.splits sender_state.splits if_splits)

text \<open>No access ever replaces the first rule of the TLB or grows it beyond its size, and the
  three arrays of rules, translations and time stamps stay in step, whatever the master port
  answers.\<close>

theorem tlb_invariant:
  assumes "tlb_inv t"
    and "tlb_recvTimingReq sf st now t s p = Inr (b, q, t', s') \<or>
      tlb_recvAtomic sf sa now t s p = Inr (k, q, t', s') \<or>
      tlb_recvFunctional sf now t s p = Inr (q, t', s') \<or>
      tlb_recvTimingResp sr now t s p = Inr (b, q, t', s')"
  shows "length (originalRanges t') \<le> TLB_SIZE t \<and>
    length (remappedRanges t') = length (originalRanges t') \<and>
    length (lastUsed t') = length (originalRanges t') \<and>
    hd (originalRanges t') = hd (originalRanges t) \<and> hd (remappedRanges t') = hd (remappedRanges t)"
proof -
  have "tlb_recvFunctional sf now t s p = Inr (q, t', s') \<Longrightarrow> tlb_keeps t t'"
    using assms(1) remap_keeps
    by (auto simp: tlb_recvFunctional_def getAddr_def split: if_splits)
  then have "tlb_keeps t t'"
    using assms(2) tlb_recvTimingReq_keeps [OF _ assms(1)] tlb_recvAtomic_keeps [OF _ assms(1)]
      tlb_recvTimingResp_keeps [OF _ assms(1)] by metis
  then show ?thesis by (simp add: tlb_keeps_def tlb_inv_def)
qed

section \<open>Refills from the slice table\<close>

lemma refill_packet_ok:
  assumes "0 < entry_bytes t" "entry_bytes t < 2 ^ 31"
    and "unat (entry_addr t a) + entry_bytes t \<le> 2 ^ 64"
  shows "\<exists>p. refill_packet now t a = Inr p \<and> wf_packet p \<and> isRead p \<and> isRequest p \<and> needsResponse p \<and>
    pk_addr p = entry_addr t a \<and> pk_size p = of_nat (entry_bytes t) \<and>
    payload_ok p (replicate (entry_bytes t) 0) \<and> senderState p = []"
proof -
  obtain r where r: "Request_phys (entry_addr t a) (int (entry_bytes t)) 0 (tlb_masterId t) now = Inr r"
    using Request_phys_ok [of "int (entry_bytes t)" "entry_addr t a" 0 "tlb_masterId t" now] by auto
  note rs = Request_phys_sel [OF r]
  have sz: "unat (of_nat (entry_bytes t) :: u32) = entry_bytes t"
    using assms(2) by (intro unat_of_nat_small) simp
  show ?thesis
    using r rs sz assms(1,3)
    by (auto simp: refill_packet_def dataDynamicArray_def Packet_new_wf wf_packet_def pkt_test_defs cmd_defs
        payload_ok_def getPtr_def fl_defs pkt_flag_defs)
qed

lemma rule_index_append:
  "rule_index rs a = None \<Longrightarrow> contains r a \<Longrightarrow> rule_index (rs @ [r]) a = Some (length rs)"
  by (induction rs) (auto split: if_splits)

lemma remap_check_after_update:
  assumes inv: "tlb_inv t" and up: "updateTLB now t v p n = Inr t'"
    and miss: "rule_index (originalRanges t) a = None" and hit: "contains (mkAddrRange v (v + n - 1)) a"
  shows "remap_check t' a = Inr (a - v + p)"
proof -
  let ?os = "if TLB_SIZE t \<le> length (originalRanges t) then erase_at (lru_index (lastUsed t)) (originalRanges t)
      else originalRanges t"
  let ?rs = "if TLB_SIZE t \<le> length (originalRanges t) then erase_at (lru_index (lastUsed t)) (remappedRanges t)
      else remappedRanges t"
  have t': "originalRanges t' = ?os @ [mkAddrRange v (v + n - 1)]"
    "remappedRanges t' = ?rs @ [mkAddrRange p (p + n - 1)]" "tlb_inv t'"
    using updateTLB_spec [OF inv, of now v p n] up by (auto dest: tlb_keepsD)
  have "rule_index ?os a = None"
    using miss by (auto simp: rule_index_None erase_at_def dest: in_set_takeD in_set_dropD)
  from rule_index_append [OF this hit] have ri: "rule_index (originalRanges t') a = Some (length ?os)"
    using t'(1) by simp
  have "length ?rs = length ?os" using t' by (simp add: tlb_inv_def)
  then show ?thesis
    using ri t'(1,2) by (simp add: remap_check_def translate_def nth_res_def nth_append)
qed

lemma word_at:
  assumes "length bs = 3 * n" "k < 3"
  shows "read_bytes bs (k * n) n = Some (take n (drop (k * n) bs))"
proof -
  have "k * n + n \<le> 3 * n" using assms(2) by (metis Suc_leI add.commute mult_Suc mult_le_mono1)
  then show ?thesis using assms(1) by (simp add: read_bytes_def)
qed

text \<open>The three words of a slice-table entry.\<close>

definition entry_word :: "ethz_tlb \<Rightarrow> byte list \<Rightarrow> nat \<Rightarrow> u64" where
  "entry_word t bs k = of_nat (le_to_nat (take (word_bytes t) (drop (k * word_bytes t) bs)))"

lemma refill_from_ok:
  assumes "getPtr p = Inr bs" "length bs = 3 * word_bytes t" "pk_size p = of_nat (entry_bytes t)"
  shows "refill_from now t p = updateTLB now t (entry_word t bs 0) (entry_word t bs 1) (entry_word t bs 2)"
proof -
  have "ptr_word p (word_bytes t) k = Inr (entry_word t bs k)" if "k < 3" for k
    using word_at [OF assms(2) that] assms(1) by (simp add: ptr_word_def entry_word_def)
  then show ?thesis using assms(3) by (simp add: refill_from_def)
qed

context functional_memory
begin

lemma refill_translates:
  assumes s: "inv s" and t: "tlb_inv t" "pim_arch t \<in> {32, 64}"
    and a: "PIM_SLICEVSTART t \<le> a" "\<not> pending_refill t (entry_addr t a)"
      "unat (entry_addr t a) + entry_bytes t \<le> 2 ^ 64"
    and e: "bytes_at (view s) (entry_addr t a) bs" "length bs = entry_bytes t"
    and hit: "contains (mkAddrRange (entry_word t bs 0) (entry_word t bs 0 + entry_word t bs 2 - 1)) a"
    and miss: "rule_index (originalRanges t) a = None"
  shows "\<exists>t'. refillTLB_functional facc now t s a = Inr (t', s) \<and> tlb_keeps t t' \<and>
    remap_check t' a = Inr (a - entry_word t bs 0 + entry_word t bs 1)"
proof -
  have eb: "entry_bytes t = 3 * word_bytes t" "0 < entry_bytes t" "entry_bytes t < 2 ^ 31"
    using t(2) by (auto simp: entry_bytes_def word_bytes_def)
  obtain p where p: "refill_packet now t a = Inr p" "wf_packet p" "isRead p" "isRequest p" "needsResponse p"
    "pk_addr p = entry_addr t a" "pk_size p = of_nat (entry_bytes t)" "payload_ok p (replicate (entry_bytes t) 0)"
    using refill_packet_ok [OF eb(2,3) a(3)] by blast
  obtain q where q: "facc s p = Inr (q, s)" "getPtr q = Inr bs" "pk_size q = pk_size p"
    using read_law [OF s p(2-5,8), of bs] e p(6) by auto
  obtain t' where up: "updateTLB now t (entry_word t bs 0) (entry_word t bs 1) (entry_word t bs 2) = Inr t'"
    and k: "tlb_keeps t t'"
    using updateTLB_spec [OF t(1)] by blast
  have "refillTLB_functional facc now t s a = Inr (t', s)"
    using a p(1,7) q up refill_from_ok [OF q(2), of t now] e(2) eb(1) by (simp add: refillTLB_functional_def)
  then show ?thesis using k remap_check_after_update [OF t(1) up miss hit] by blast
qed

end

text \<open>
  A TLB with one fixed rule and room for one more, on a 32-bit device with pages of 16 bytes, and
  a memory that holds its slice table: virtual page 0x100 lies at 0x40.
\<close>

definition example_tlb :: ethz_tlb where
  "example_tlb = \<lparr>originalRanges = [mkAddrRange 0 0xff], remappedRanges = [mkAddrRange 0x1000 0x10ff],
     PIM_SLICETABLE_PTR = 8, PIM_SLICECOUNT = 1, PIM_SLICEVSTART = 0x100, OS_PAGE_SHIFT = 4,
     TLB_SIZE = 2, IDEAL_REFILL = True, lastUsed = [-1], pending_refills = [],
     PIM_DTLB_IDEAL_REFILL_REG = 0, HMC_ATOMIC_INCR = 0x10, HMC_ATOMIC_IMIN = 0x14,
     HMC_ATOMIC_FADD = 0x18, HMC_OPERAND = 0x1c, hmc_operand = 0, tlb_masterId = 0, pim_arch = 32,
     TLBAccess = 0, TLBDynamicAccess = 0, TLBMiss = 0, tlb_packetQueue = [], tlb_dequeueEvent = None,
     tlb_retries = 0\<rparr>"

definition slice_entry :: "byte list" where
  "slice_entry = [0,1,0,0, 0x40,0,0,0, 0x10,0,0,0]"

lemma length_slice_entry [simp]: "length slice_entry = 12"
  by (simp add: slice_entry_def)

definition slice_mem :: abstract_mem where
  "slice_mem = setBackingStore (AbstractMemory (mkAddrRange 0 31))
     (replicate 8 0 @ slice_entry @ replicate 12 0)"

lemma slice_mem_inv: "mem_inv slice_mem"
  by (simp add: mem_inv_def slice_mem_def setBackingStore_def AbstractMemory_def range_valid_def)

lemma example_tlb_inv: "tlb_inv example_tlb"
  by (simp add: tlb_inv_def example_tlb_def)

lemma slice_mem_entry:
  "bytes_at (mem_view slice_mem) 8 slice_entry"
proof -
  have e: "mem_view slice_mem (of_nat (8 + i)) = Some (slice_entry ! i)" if "i < 12" for i
    using that unat_of_nat_small [where 'a = 64, of "8 + i"]
    by (simp add: mem_view_def slice_mem_def setBackingStore_def AbstractMemory_def word_le_nat_alt nth_append
        del: of_nat_add)
  have "(8 :: u64) + of_nat i = of_nat (8 + i)" for i by simp
  then show ?thesis using e unfolding bytes_at_def by simp
qed

text \<open>C2: after a refill from the memory that holds the slice table, the address that missed is
  translated the way its entry says: from the start of the slice to its physical address, at the
  same offset. The memory is unchanged and the fixed rule kept.\<close>

theorem tlb_refill_translates:
  assumes "mem_inv m" "tlb_inv t" "pim_arch t \<in> {32, 64}" "PIM_SLICEVSTART t \<le> a"
    "\<not> pending_refill t (entry_addr t a)" "unat (entry_addr t a) + entry_bytes t \<le> 2 ^ 64"
    "bytes_at (mem_view m) (entry_addr t a) bs" "length bs = entry_bytes t"
    "contains (mkAddrRange (entry_word t bs 0) (entry_word t bs 0 + entry_word t bs 2 - 1)) a"
    "rule_index (originalRanges t) a = None"
  shows "\<exists>t'. refillTLB_functional functionalAccess now t m a = Inr (t', m) \<and> tlb_keeps t t' \<and>
    remap_check t' a = Inr (a - entry_word t bs 0 + entry_word t bs 1)"
  by (rule am.refill_translates [OF assms])

theorem tlb_refill_translates_witness:
  "\<exists>t'. refillTLB_functional functionalAccess 5 example_tlb slice_mem 0x105 = Inr (t', slice_mem) \<and>
     remap_check t' 0x105 = Inr 0x45"
proof -
  let ?bs = "slice_entry"
  have a: "entry_addr example_tlb 0x105 = 8" "entry_bytes example_tlb = 12"
    by (simp_all add: entry_addr_def entry_bytes_def example_tlb_def)
  have w: "entry_word example_tlb ?bs 0 = 0x100" "entry_word example_tlb ?bs 1 = 0x40"
    "entry_word example_tlb ?bs 2 = 0x10"
    by (simp_all add: entry_word_def word_bytes_def example_tlb_def slice_entry_def)
  have "pim_arch example_tlb \<in> {32, 64}" "PIM_SLICEVSTART example_tlb \<le> 0x105"
    "\<not> pending_refill example_tlb 8" "rule_index (originalRanges example_tlb) 0x105 = None"
    by (simp_all add: example_tlb_def pending_refill_def)
  then show ?thesis
    using tlb_refill_translates [OF slice_mem_inv example_tlb_inv, of "0x105" ?bs 5] slice_mem_entry
    unfolding a w by auto
qed

text \<open>C8: a full TLB makes room for a new rule by dropping one rule, never the first, whose last
  use is not later than that of any other rule that may be dropped; all others stay in order.\<close>

theorem updateTLB_evicts_lru:
  assumes inv: "tlb_inv t" and full: "length (originalRanges t) = TLB_SIZE t"
  shows "\<exists>k t'. updateTLB now t v p n = Inr t' \<and> 1 \<le> k \<and> k < length (lastUsed t) \<and>
    (\<forall>j. 1 \<le> j \<and> j < length (lastUsed t) \<longrightarrow> lastUsed t ! k \<le> lastUsed t ! j) \<and>
    originalRanges t' = take k (originalRanges t) @ drop (Suc k) (originalRanges t) @ [mkAddrRange v (v + n - 1)] \<and>
    remappedRanges t' = take k (remappedRanges t) @ drop (Suc k) (remappedRanges t) @ [mkAddrRange p (p + n - 1)] \<and>
    lastUsed t' = take k (lastUsed t) @ drop (Suc k) (lastUsed t) @ [now]"
proof -
  have 2: "2 \<le> length (lastUsed t)" using inv full by (simp add: tlb_inv_def)
  show ?thesis
    using updateTLB_spec [OF inv, of now v p n] full lru_index_spec [OF 2]
    by (auto simp: erase_at_def intro!: exI [of _ "lru_index (lastUsed t)"])
qed

theorem updateTLB_evicts_lru_witness:
  "\<exists>k t1 t2. updateTLB 5 example_tlb 0x100 0x40 0x10 = Inr t1 \<and> updateTLB 6 t1 0x110 0x80 0x10 = Inr t2 \<and>
     1 \<le> k \<and> originalRanges t2 = take k (originalRanges t1) @ drop (Suc k) (originalRanges t1) @ [mkAddrRange 0x110 0x11f]"
proof -
  obtain t1 where t1: "updateTLB 5 example_tlb 0x100 0x40 0x10 = Inr t1" "length (originalRanges t1) = 2"
    "TLB_SIZE t1 = 2" by (simp add: updateTLB_def example_tlb_def)
  have "tlb_inv t1" using updateTLB_keeps [OF t1(1) example_tlb_inv] by (rule tlb_keepsD)
  then show ?thesis
    using updateTLB_evicts_lru [of t1 6 "0x110" "0x80" "0x10"] t1 by fastforce
qed

text \<open>The only thing an access to no register asks for is a translation.\<close>

lemma check_hmc_none:
  assumes "pk_addr p \<notin> {HMC_ATOMIC_INCR t, HMC_ATOMIC_FADD t, HMC_ATOMIC_IMIN t, HMC_OPERAND t} \<or> \<not> isWrite p"
  shows "check_hmc_command t p = Inr (0, p, t)"
  using assms by (auto simp: check_hmc_command_def write_operand_def Let_def)

lemma tlb_hit_sends:
  assumes wf: "wf_packet p" and p: "needsResponse p" "\<not> memInhibitAsserted p" "\<not> IS_REMAPPED p"
    and nr: "\<not> is_refill_reg t (pk_addr p)" and inv: "tlb_inv t"
    and chk: "check_hmc_command t p = Inr (h, p1, t1)"
    and va: "va = (if h \<noteq> 0 then h else pk_addr p)"
    and hit: "rule_index (originalRanges t1) va = Some i" "a = va - ar_start (originalRanges t1 ! i) + ar_start (remappedRanges t1 ! i)"
    and ne: "a \<noteq> -1"
  shows "\<exists>t'. tlb_recvTimingReq sf st now t s p =
    bindR (st s (p1\<lparr>pk_addr := a, IS_REMAPPED := True, senderState := AddrMapperSenderState va # senderState p1\<rparr>))
      (\<lambda>(ok, q, s'). if \<not> ok then bindR (popSenderState q) (\<lambda>(_, q'). Inr (ok, q', t', s')) else Inr (ok, q, t', s'))"
proof -
  have "tlb_inv t1" using check_hmc_keeps [OF chk inv] by (rule tlb_keepsD)
  then obtain t' where rm: "remap now t1 va = Inr (a, t')"
    using remap_cases [where t = t1 and now = now and a = va] hit by auto
  have "pk_flags p1 = pk_flags p"
    using chk by (auto simp: check_hmc_command_def Let_def split: if_splits)
  then have set: "setAddr p1 a = Inr (p1\<lparr>pk_addr := a\<rparr>)" using wf by (simp add: setAddr_def wf_packet_def)
  have "tlb_remap_pkt sf st now t s p (pk_addr p) = Inr (Some va, p1\<lparr>pk_addr := a, IS_REMAPPED := True\<rparr>, t', s)"
    using p(3) chk va rm ne set by (simp add: tlb_remap_pkt_def)
  then show ?thesis
    using wf p(1,2) nr
    by (auto simp: tlb_recvTimingReq_def Let_def wf_packet_accessors pushSenderState_def intro!: exI [of _ t'])
qed

text \<open>
  The address that an access is about and its translation: the address of the packet, or, for a write to the
  register of an atomic command, the address written there. A packet that is marked as remapped is not translated again.
\<close>

definition tlb_place :: "ethz_tlb \<Rightarrow> packet \<Rightarrow> (Addr \<times> Addr) res" where
  "tlb_place t p =
     (if IS_REMAPPED p then Inr (pk_addr p, pk_addr p)
      else bindR (check_hmc_command t p) (\<lambda>(h, _, t1).
        let va = (if h \<noteq> 0 then h else pk_addr p) in bindR (remap_check t1 va) (\<lambda>a. Inr (va, a))))"

lemma check_hmc_pkt:
  assumes "check_hmc_command t p = Inr (h, q, t')"
  shows "pk_flags q = pk_flags p" "senderState q = senderState p" "pk_cmd q = pk_cmd p" "is_refill_reg t' = is_refill_reg t"
  using assms by (auto simp: check_hmc_command_def write_operand_def is_refill_reg_def fun_eq_iff Let_def split: if_splits)

lemma remap_reg: "remap now t a = Inr (x, t') \<Longrightarrow> is_refill_reg t' = is_refill_reg t"
  by (auto simp: remap_def touch_def is_refill_reg_def fun_eq_iff Let_def split: option.splits if_splits)

lemma tlb_place_sends:
  assumes wf: "wf_packet p" and p: "needsResponse p" "\<not> memInhibitAsserted p"
    and nr: "\<not> is_refill_reg t (pk_addr p)" and inv: "tlb_inv t" and pl: "tlb_place t p = Inr (va, a)" "a \<noteq> -1"
  shows "\<exists>q t'. (\<forall>st. tlb_recvTimingReq sf st now t s p =
      bindR (st s (q\<lparr>senderState := AddrMapperSenderState va # senderState p\<rparr>))
        (\<lambda>(ok, q, s'). if \<not> ok then bindR (popSenderState q) (\<lambda>(_, q'). Inr (ok, q', t', s')) else Inr (ok, q, t', s'))) \<and>
    pk_addr q = a \<and> IS_REMAPPED q \<and> senderState q = senderState p \<and> wf_packet q \<and> needsResponse q \<and> \<not> memInhibitAsserted q \<and>
    tlb_inv t' \<and> is_refill_reg t' = is_refill_reg t"
proof (cases "IS_REMAPPED p")
  case True
  then have "va = pk_addr p" "a = pk_addr p" using pl by (auto simp: tlb_place_def)
  then show ?thesis using True wf p nr inv
    by (intro exI [of _ p] exI [of _ t])
      (auto simp: tlb_recvTimingReq_def tlb_remap_pkt_def Let_def wf_packet_accessors pushSenderState_def)
next
  case False
  obtain h p1 t1 where c: "check_hmc_command t p = Inr (h, p1, t1)" and va: "va = (if h \<noteq> 0 then h else pk_addr p)"
    and ck: "remap_check t1 va = Inr a"
    using pl(1) False by (auto simp: tlb_place_def Let_def)
  note pk = check_hmc_pkt [OF c]
  have i1: "tlb_inv t1" by (rule tlb_keepsD [OF check_hmc_keeps [OF c inv]])
  obtain i where i: "rule_index (originalRanges t1) va = Some i" using ck pl(2) by (auto simp: remap_check_def split: option.splits)
  then have ai: "a = va - ar_start (originalRanges t1 ! i) + ar_start (remappedRanges t1 ! i)"
    using ck i1 rule_index_Some [of "originalRanges t1" va i] by (simp add: remap_check_def translate_def tlb_inv_def)
  then obtain t' where rm: "remap now t1 va = Inr (a, t')" using remap_cases [OF i1, where a = va and now = now] i by auto
  let ?q = "p1\<lparr>pk_addr := a, IS_REMAPPED := True\<rparr>"
  have "setAddr p1 a = Inr (p1\<lparr>pk_addr := a\<rparr>)" using wf pk(1) by (simp add: setAddr_def wf_packet_def)
  then have "tlb_remap_pkt sf st now t s p (pk_addr p) = Inr (Some va, ?q, t', s)" for st
    using False c va rm pl(2) by (simp add: tlb_remap_pkt_def)
  moreover have "wf_packet ?q" "needsResponse ?q" "\<not> memInhibitAsserted ?q"
    using wf p pk by (simp_all add: wf_packet_def pkt_test_defs memInhibitAsserted_def)
  moreover have "tlb_inv t'" "is_refill_reg t' = is_refill_reg t"
    using tlb_keepsD [OF remap_keeps [OF rm i1]] remap_reg [OF rm] pk(4) by simp_all
  ultimately show ?thesis using wf p nr pk(2)
    by (intro exI [of _ ?q] exI [of _ t']) (simp add: tlb_recvTimingReq_def Let_def wf_packet_accessors pushSenderState_def)
qed

text \<open>The packet and the TLB after attempts, at the given ticks, that the master side refused.\<close>

fun tlb_refusals :: "'s functional_peer \<Rightarrow> 's \<Rightarrow> Tick list \<Rightarrow> ethz_tlb \<Rightarrow> packet \<Rightarrow> (packet \<times> ethz_tlb) res" where
  "tlb_refusals sf s [] t p = Inr (p, t)"
| "tlb_refusals sf s (now # ts) t p =
     bindR (tlb_recvTimingReq sf (\<lambda>s q. Inr (False, q, s)) now t s p) (\<lambda>(_, p', t', _). tlb_refusals sf s ts t' p')"

lemma tlb_refusals_result:
  assumes "wf_packet p" "needsResponse p" "\<not> memInhibitAsserted p" "\<not> is_refill_reg t (pk_addr p)"
    "ts \<noteq> [] \<longrightarrow> \<not> is_refill_reg t a" "tlb_inv t" "tlb_place t p = Inr (va, a)" "a \<noteq> -1"
  shows "\<exists>p' t'. tlb_refusals sf s ts t p = Inr (p', t') \<and> wf_packet p' \<and> needsResponse p' \<and> \<not> memInhibitAsserted p' \<and>
    \<not> is_refill_reg t' (pk_addr p') \<and> tlb_inv t' \<and> tlb_place t' p' = Inr (if ts = [] then va else a, a) \<and> senderState p' = senderState p"
  using assms
proof (induction ts arbitrary: t p va)
  case (Cons now ts)
  obtain q t' where q: "tlb_recvTimingReq sf (\<lambda>s q. Inr (False, q, s)) now t s p = Inr (False, q, t', s)"
    "pk_addr q = a" "IS_REMAPPED q" "senderState q = senderState p" "wf_packet q" "needsResponse q" "\<not> memInhibitAsserted q"
    "tlb_inv t'" "is_refill_reg t' = is_refill_reg t"
    using tlb_place_sends [OF Cons.prems(1-4,6-8), of sf now s]
    by (auto simp: popSenderState_def wf_packet_def pkt_test_defs memInhibitAsserted_def)
  have "tlb_place t' q = Inr (a, a)" using q(2,3) by (simp add: tlb_place_def)
  then show ?case using Cons.IH [of q t' a] q Cons.prems(5,8) by (auto split: if_splits)
qed simp

text \<open>C11: a timing access that hits in the TLB may be refused by the master side any number of times (at the ticks \<open>ts\<close>) before it is
  accepted; it always reaches the master side at its translated address. If the first attempt is accepted, its response is delivered
  with the virtual address it was translated from and its sender states, even if the rule has been replaced in the
  meantime; for an atomic command that is the address written to the register, not the address of the register. After a
  refusal the access comes again at its translated address, and that is then the address of the response. Excluded are writes to
  the refill register, also a translated address that is by chance the one of the register.\<close>

theorem tlb_timing_roundtrip:
  assumes wf: "wf_packet p" and p: "needsResponse p" "\<not> memInhibitAsserted p"
    and reg: "\<not> is_refill_reg t (pk_addr p)" "ts \<noteq> [] \<longrightarrow> \<not> is_refill_reg t a"
    and inv: "tlb_inv t" and hit: "tlb_place t p = Inr (va, a)" "a \<noteq> -1"
  shows "\<exists>p' t1. tlb_refusals sf s0 ts t p = Inr (p', t1) \<and>
    (tlb_recvTimingReq sf st now t1 s p' = Inr (True, q, t', s') \<longrightarrow>
      (\<exists>sent. st s sent = Inr (True, q, s') \<and> pk_addr sent = a \<and>
        (\<forall>t2 s2 r r' s3. wf_packet r \<and> senderState r = senderState sent \<and>
           resp s2 (r\<lparr>senderState := senderState p, pk_addr := (if ts = [] then va else a)\<rparr>) = Inr (True, r', s3) \<longrightarrow>
           tlb_recvTimingResp resp later t2 s2 r = Inr (True, r', t2, s3))))"
proof -
  let ?v = "if ts = [] then va else a"
  obtain p' t1 where 1: "tlb_refusals sf s0 ts t p = Inr (p', t1)" "wf_packet p'" "needsResponse p'" "\<not> memInhibitAsserted p'"
    "\<not> is_refill_reg t1 (pk_addr p')" "tlb_inv t1" "tlb_place t1 p' = Inr (?v, a)" "senderState p' = senderState p"
    using tlb_refusals_result [OF wf p reg inv hit, of sf s0] by blast
  obtain x tx where eq: "\<And>st. tlb_recvTimingReq sf st now t1 s p' = bindR (st s (x\<lparr>senderState := AddrMapperSenderState ?v # senderState p'\<rparr>))
      (\<lambda>(ok, q, s'). if \<not> ok then bindR (popSenderState q) (\<lambda>(_, q'). Inr (ok, q', tx, s')) else Inr (ok, q, tx, s'))" and x: "pk_addr x = a"
    using tlb_place_sends [OF 1(2-7) hit(2), of sf now s] by blast
  let ?sent = "x\<lparr>senderState := AddrMapperSenderState ?v # senderState p'\<rparr>"
  have "st s ?sent = Inr (True, q, s')" if "tlb_recvTimingReq sf st now t1 s p' = Inr (True, q, t', s')"
    using that unfolding eq by (auto split: if_splits)
  moreover have "tlb_recvTimingResp resp later t2 s2 r = Inr (True, r', t2, s3)"
    if "wf_packet r" "senderState r = senderState ?sent"
      "resp s2 (r\<lparr>senderState := senderState p, pk_addr := ?v\<rparr>) = Inr (True, r', s3)" for t2 s2 r r' s3
    using that 1(8) by (simp add: tlb_recvTimingResp_def mapper_recvTimingResp_def wf_packet_accessors setAddr_def wf_packet_def)
  ultimately show ?thesis using 1(1) x by (intro exI [of _ p'] exI [of _ t1]) (auto intro!: exI [of _ ?sent])
qed

lemma example_tlb_sel [simp]:
  "HMC_ATOMIC_INCR example_tlb = 0x10" "HMC_ATOMIC_FADD example_tlb = 0x18"
  "HMC_ATOMIC_IMIN example_tlb = 0x14" "HMC_OPERAND example_tlb = 0x1c"
  "PIM_DTLB_IDEAL_REFILL_REG example_tlb = 0" "PIM_SLICETABLE_PTR example_tlb = 8"
  "PIM_SLICEVSTART example_tlb = 0x100" "originalRanges example_tlb = [mkAddrRange 0 0xff]"
  "remappedRanges example_tlb = [mkAddrRange 0x1000 0x10ff]" "pim_arch example_tlb = 32"
  by (simp_all add: example_tlb_def)

text \<open>A read that is refused at tick 4 and accepted at tick 5.\<close>

theorem tlb_timing_roundtrip_witness:
  "\<exists>p' t1 t' q r'. tlb_refusals functionalAccess slice_mem [4] example_tlb (plain_packet ReadReq 0x20 [0]) = Inr (p', t1) \<and>
     tlb_recvTimingReq functionalAccess (\<lambda>s q. Inr (True, q, s)) 5 t1 slice_mem p' = Inr (True, q, t', slice_mem) \<and> pk_addr q = 0x1020 \<and>
     tlb_recvTimingResp (\<lambda>s q. Inr (True, q, s)) 9 t' slice_mem q = Inr (True, r', t', slice_mem) \<and> pk_addr r' = 0x1020"
proof -
  let ?p = "plain_packet ReadReq 0x20 [0]" and ?ok = "\<lambda>s q. Inr (True, q, s) :: (bool \<times> packet \<times> abstract_mem) res"
  have p: "wf_packet ?p" "needsResponse ?p" "\<not> memInhibitAsserted ?p" by (simp_all add: pkt_test_defs cmd_defs)
  have reg: "\<not> is_refill_reg example_tlb (pk_addr ?p)" "[4 :: Tick] \<noteq> [] \<longrightarrow> \<not> is_refill_reg example_tlb 0x1020"
    by (simp_all add: is_refill_reg_def)
  have hit: "tlb_place example_tlb ?p = Inr (0x20, 0x1020)" "(0x1020 :: Addr) \<noteq> -1"
    by (simp_all add: tlb_place_def check_hmc_none remap_check_def translate_def)
  obtain x t1 where 1: "tlb_refusals functionalAccess slice_mem [4] example_tlb ?p = Inr (x, t1)" "wf_packet x" "needsResponse x"
    "\<not> memInhibitAsserted x" "\<not> is_refill_reg t1 (pk_addr x)" "tlb_inv t1" "tlb_place t1 x = Inr (0x1020, 0x1020)"
    using tlb_refusals_result [OF p reg example_tlb_inv hit, of functionalAccess slice_mem] by auto
  obtain q t' where acc: "tlb_recvTimingReq functionalAccess ?ok 5 t1 slice_mem x = Inr (True, q, t', slice_mem)" "wf_packet q"
    using tlb_place_sends [OF 1(2-7) hit(2), of functionalAccess 5 slice_mem] by (auto simp: wf_packet_def)
  obtain y t2 where y: "tlb_refusals functionalAccess slice_mem [4] example_tlb ?p = Inr (y, t2)" and
    rt: "tlb_recvTimingReq functionalAccess ?ok 5 t2 slice_mem y = Inr (True, q, t', slice_mem) \<longrightarrow>
      (\<exists>sent. ?ok slice_mem sent = Inr (True, q, slice_mem) \<and> pk_addr sent = 0x1020 \<and>
        (\<forall>t2 s2 r r' s3. wf_packet r \<and> senderState r = senderState sent \<and>
           ?ok s2 (r\<lparr>senderState := senderState ?p, pk_addr := (if [4 :: Tick] = [] then 0x20 else 0x1020)\<rparr>) = Inr (True, r', s3) \<longrightarrow>
           tlb_recvTimingResp ?ok 9 t2 s2 r = Inr (True, r', t2, s3)))"
    using tlb_timing_roundtrip [OF p reg example_tlb_inv hit, of functionalAccess slice_mem ?ok 5 slice_mem q t' slice_mem ?ok 9]
    by (elim exE conjE) (rule that)
  have e: "y = x" "t2 = t1" using 1(1) unfolding y by simp_all
  obtain sent where sent: "?ok slice_mem sent = Inr (True, q, slice_mem)" "pk_addr sent = 0x1020"
    and rs: "\<forall>t2 s2 r r' s3. wf_packet r \<and> senderState r = senderState sent \<and>
           ?ok s2 (r\<lparr>senderState := senderState ?p, pk_addr := (if [4 :: Tick] = [] then 0x20 else 0x1020)\<rparr>) = Inr (True, r', s3) \<longrightarrow>
           tlb_recvTimingResp ?ok 9 t2 s2 r = Inr (True, r', t2, s3)"
    using mp [OF rt [unfolded e] acc(1)] by (elim exE conjE) (rule that)
  have q: "sent = q" using sent(1) by simp
  have "tlb_recvTimingResp ?ok 9 t' slice_mem q = Inr (True, q\<lparr>senderState := senderState ?p, pk_addr := 0x1020\<rparr>, t', slice_mem)"
    by (rule rs [rule_format]) (simp_all add: acc(2) q)
  then show ?thesis using 1(1) acc(1) sent(2) q by (intro exI conjI) (assumption | simp)+
qed

text \<open>An atomic command in timing mode is forwarded at the translation of the address written to
  the register, but what its response restores is that virtual address, not the address of the
  register the processor wrote to.\<close>

theorem tlb_command_response_address:
  assumes wf: "wf_packet p" and p: "needsResponse p" "\<not> memInhibitAsserted p" "\<not> IS_REMAPPED p" "isWrite p"
    and reg: "pk_addr p = HMC_ATOMIC_INCR t" "pk_addr p \<noteq> 0" "pk_addr p \<noteq> HMC_OPERAND t" "\<not> is_refill_reg t (pk_addr p)"
    and tgt: "hmc_target t p = Inr x" "x \<noteq> 0"
    and inv: "tlb_inv t" and hit: "remap_check t x = Inr a" "a \<noteq> -1"
    and acc: "tlb_recvTimingReq sf st now t s p = Inr (True, q, t', s')"
  shows "\<exists>sent. st s sent = Inr (True, q, s') \<and> pk_addr sent = a \<and> ATOMIC_HMC_COMMAND sent = HMC_CMD_INC \<and>
    senderState sent = AddrMapperSenderState x # senderState p"
proof -
  let ?p = "p\<lparr>ATOMIC_HMC_COMMAND := HMC_CMD_INC\<rparr>"
  let ?sent = "?p\<lparr>pk_addr := a, IS_REMAPPED := True, senderState := AddrMapperSenderState x # senderState p\<rparr>"
  have c: "check_hmc_command t p = Inr (x, ?p, t)"
    using reg tgt p(4) by (simp add: check_hmc_command_def write_operand_def)
  obtain i where i: "rule_index (originalRanges t) x = Some i"
    using hit by (auto simp: remap_check_def split: option.splits)
  then have a: "a = x - ar_start (originalRanges t ! i) + ar_start (remappedRanges t ! i)"
    using hit(1) inv i rule_index_Some [of "originalRanges t" x i]
    by (simp add: remap_check_def translate_def tlb_inv_def)
  obtain tx where eq: "tlb_recvTimingReq sf st now t s p = bindR (st s ?sent)
      (\<lambda>(ok, q, s'). if \<not> ok then bindR (popSenderState q) (\<lambda>(_, q'). Inr (ok, q', tx, s')) else Inr (ok, q, tx, s'))"
    using tlb_hit_sends [OF wf p(1-3) reg(4) inv c refl, of i a sf st now s] i a hit(2) tgt(2) by auto
  have "st s ?sent = Inr (True, q, s')" using acc unfolding eq by (auto split: if_splits)
  then show ?thesis by (intro exI [of _ ?sent]) simp
qed

lemma example_command:
  fixes p :: packet
  defines "p \<equiv> plain_packet WriteReq 0x10 [0x20,0,0,0]"
  shows "needsResponse p" "isWrite p" "hmc_target example_tlb p = Inr 0x20"
    "\<not> is_refill_reg example_tlb (pk_addr p)"
    "\<exists>q t' s'. tlb_recvTimingReq functionalAccess (\<lambda>s q. Inr (True, q, s)) 5 example_tlb slice_mem p =
       Inr (True, q, t', s')"
proof -
  let ?ok = "\<lambda>s q. Inr (True, q, s) :: (bool \<times> packet \<times> abstract_mem) res"
  show t: "needsResponse p" "isWrite p" by (simp_all add: p_def pkt_test_defs cmd_defs)
  show tgt: "hmc_target example_tlb p = Inr 0x20"
    by (simp add: p_def hmc_target_def ptr_word_def word_bytes_def read_bytes_def)
  show nr: "\<not> is_refill_reg example_tlb (pk_addr p)" by (simp add: is_refill_reg_def)
  have c: "check_hmc_command example_tlb p = Inr (0x20, p\<lparr>ATOMIC_HMC_COMMAND := HMC_CMD_INC\<rparr>, example_tlb)"
    using tgt t(2) by (simp add: p_def check_hmc_command_def write_operand_def)
  show "\<exists>q t' s'. tlb_recvTimingReq functionalAccess ?ok 5 example_tlb slice_mem p = Inr (True, q, t', s')"
    using tlb_hit_sends [OF _ t(1) _ _ nr example_tlb_inv c refl, of 0 "0x1020" functionalAccess ?ok 5 slice_mem]
    by (auto simp: p_def)
qed

theorem tlb_command_response_address_witness:
  "\<exists>q t' s'. tlb_recvTimingReq functionalAccess (\<lambda>s q. Inr (True, q, s)) 5 example_tlb slice_mem
        (plain_packet WriteReq 0x10 [0x20,0,0,0]) = Inr (True, q, t', s') \<and>
     senderState q = [AddrMapperSenderState 0x20]"
proof -
  have hit: "remap_check example_tlb 0x20 = Inr 0x1020" by (simp add: remap_check_def translate_def)
  obtain q t' s' where acc: "tlb_recvTimingReq functionalAccess (\<lambda>s q. Inr (True, q, s)) 5 example_tlb slice_mem
      (plain_packet WriteReq 0x10 [0x20,0,0,0]) = Inr (True, q, t', s')"
    using example_command(5) by blast
  have "senderState q = [AddrMapperSenderState 0x20]"
    using tlb_command_response_address [OF _ example_command(1) _ _ example_command(2) _ _ _
        example_command(4,3) _ example_tlb_inv hit _ acc] by auto
  with acc show ?thesis by blast
qed

text \<open>In atomic mode an atomic command whose operand misses in the TLB is not served: the refill
  is done for the address of the register instead of the operand, and stops the simulation when
  the register lies below the slices.\<close>

theorem tlb_atomic_command_miss_fails:
  assumes wf: "wf_packet p" "isWrite p"
    and reg: "pk_addr p = HMC_ATOMIC_INCR t" "pk_addr p \<noteq> 0" "pk_addr p \<noteq> HMC_OPERAND t" "\<not> is_refill_reg t (pk_addr p)"
    and tgt: "hmc_target t p = Inr x" "x \<noteq> 0" "PIM_SLICEVSTART t \<le> x"
    and miss: "rule_index (originalRanges t) x = None" "PIM_SLICETABLE_PTR t \<noteq> 0"
    and low: "pk_addr p < PIM_SLICEVSTART t"
  shows "tlb_recvAtomic sf sa now t s p = Inl (AssertFail ''addr >= PIM_SLICEVSTART'')"
proof -
  have c: "check_hmc_command t p = Inr (x, p\<lparr>ATOMIC_HMC_COMMAND := HMC_CMD_INC\<rparr>, t)"
    using reg tgt wf(2) by (simp add: check_hmc_command_def write_operand_def)
  have r: "remap now t x = Inr (-1, t\<lparr>TLBAccess := TLBAccess t + 1, TLBMiss := TLBMiss t + 1\<rparr>)"
    using miss by (simp add: remap_def Let_def)
  show ?thesis
    using wf(1) reg(4) c r tgt(2) low by (simp add: tlb_recvAtomic_def wf_packet_accessors refillTLB_atomic_def)
qed

theorem tlb_atomic_command_miss_fails_witness:
  "tlb_recvAtomic sm_recvFunctional (sm_recvAtomic 0) 5 example_tlb example_sm
     (plain_packet WriteReq 0x10 [0,1,0,0]) = Inl (AssertFail ''addr >= PIM_SLICEVSTART'')"
proof -
  let ?p = "plain_packet WriteReq 0x10 [0,1,0,0]"
  have "isWrite ?p" by (simp add: pkt_test_defs cmd_defs)
  moreover have "hmc_target example_tlb ?p = Inr 0x100"
    by (simp add: hmc_target_def ptr_word_def word_bytes_def read_bytes_def)
  ultimately show ?thesis
    by (intro tlb_atomic_command_miss_fails [where x = "0x100"]) (simp_all add: is_refill_reg_def)
qed

text \<open>The invariant holds of the example, and a miss that is refilled keeps it.\<close>

theorem tlb_invariant_witness:
  "\<exists>q t' s'. tlb_recvTimingReq functionalAccess (\<lambda>s q. Inr (True, q, s)) 5 example_tlb slice_mem
        (plain_packet WriteReq 0x10 [0x20,0,0,0]) = Inr (True, q, t', s') \<and>
     hd (originalRanges t') = mkAddrRange 0 0xff"
proof -
  obtain q t' s' where acc: "tlb_recvTimingReq functionalAccess (\<lambda>s q. Inr (True, q, s)) 5 example_tlb slice_mem
      (plain_packet WriteReq 0x10 [0x20,0,0,0]) = Inr (True, q, t', s')"
    using example_command(5) by blast
  have "hd (originalRanges t') = hd (originalRanges example_tlb)"
    using tlb_invariant [OF example_tlb_inv disjI1 [OF acc]] by blast
  with acc show ?thesis by (intro exI conjI) (assumption, simp)
qed

end
