(* ===== verification/ChunkGen.thy ===== *)
theory ChunkGen
  imports Prelude
begin

text \<open>
  The generator that cuts a memory region into pieces that do not cross a block boundary
  (\<open>base/chunk_generator.hh\<close>, with \<open>roundUp\<close> and \<open>isPowerOf2\<close> of \<open>base/intmath.hh\<close>, under
  \<open>src/SMC_original/GEM5/gem5/src\<close>), and the proof that the pieces tile the region.
\<close>

definition isPowerOf2 :: "'a::len word \<Rightarrow> bool" where
  "isPowerOf2 n \<longleftrightarrow> n \<noteq> 0 \<and> n AND NOT (n - 1) = n"

definition roundUp :: "u64 \<Rightarrow> u32 \<Rightarrow> u64" where
  "roundUp val align = (let msk = ucast align - 1 in (val + msk) AND NOT msk)"

record chunk_generator =
  curAddr :: Addr
  nextAddr :: Addr
  curSize :: u32
  sizeLeft :: u32
  startAddr :: Addr
  chunkSize :: u32

definition ChunkGenerator :: "Addr \<Rightarrow> u32 \<Rightarrow> u32 \<Rightarrow> chunk_generator res" where
  "ChunkGenerator start totalSize chunk =
     assertR (chunk = 0 \<or> isPowerOf2 chunk) ''chunkSize == 0 || isPowerOf2(chunkSize)''
       (let nxt = (if chunk = 0 then start + ucast totalSize
                   else let r = roundUp start chunk in if start = r then r + ucast chunk else r);
            left_in_chunk = ucast (nxt - start);
            cur = min totalSize left_in_chunk
        in Inr \<lparr>curAddr = start, nextAddr = nxt, curSize = cur, sizeLeft = totalSize - cur,
                startAddr = start, chunkSize = chunk\<rparr>)"

definition gen_complete :: "chunk_generator \<Rightarrow> u32" where
  "gen_complete g = ucast (curAddr g - startAddr g)"

definition gen_done :: "chunk_generator \<Rightarrow> bool" where
  "gen_done g \<longleftrightarrow> curSize g = 0"

definition gen_next :: "chunk_generator \<Rightarrow> bool \<times> chunk_generator" where
  "gen_next g =
     (if sizeLeft g = 0 then (False, g\<lparr>curSize := 0\<rparr>)
      else let cur = min (sizeLeft g) (chunkSize g) in
        (True, g\<lparr>curAddr := nextAddr g, curSize := cur, sizeLeft := sizeLeft g - cur,
                 nextAddr := nextAddr g + ucast cur\<rparr>))"

text \<open>The states of the generator that the loop \<open>for (...; !gen.done(); gen.next())\<close> runs its
  body in.\<close>

function chunks :: "chunk_generator \<Rightarrow> chunk_generator list" where
  "chunks g = (if gen_done g then [] else g # chunks (snd (gen_next g)))"
  by auto

lemma gen_next_measure:
  assumes "\<not> gen_done g"
  shows "unat (sizeLeft (snd (gen_next g))) + of_bool (\<not> gen_done (snd (gen_next g)))
    < unat (sizeLeft g) + 1"
proof (cases "sizeLeft g = 0 \<or> min (sizeLeft g) (chunkSize g) = 0")
  case True
  then show ?thesis by (auto simp: gen_next_def gen_done_def Let_def)
next
  case False
  let ?c = "min (sizeLeft g) (chunkSize g)"
  have "unat ?c \<le> unat (sizeLeft g)" by (simp add: word_le_nat_alt [symmetric])
  then have "unat (sizeLeft g - ?c) = unat (sizeLeft g) - unat ?c"
    by (simp add: unat_sub word_le_nat_alt)
  moreover have "0 < unat ?c" using False by (auto simp: unat_gt_0)
  ultimately show ?thesis using False \<open>unat ?c \<le> _\<close>
    by (auto simp: gen_next_def Let_def)
qed

termination chunks
  by (relation "measure (\<lambda>g. unat (sizeLeft g) + of_bool (\<not> gen_done g))")
    (use gen_next_measure in auto)

declare chunks.simps [simp del]

lemma bit_top_nat: "2 ^ h \<le> n \<Longrightarrow> n < 2 ^ Suc h \<Longrightarrow> bit n h" for n :: nat
proof -
  assume "2 ^ h \<le> n" "n < 2 ^ Suc h"
  then have "n div 2 ^ h = 1" by (intro div_nat_eqI) simp_all
  then show "bit n h" by (simp add: bit_iff_odd)
qed

lemma pow2_between: "0 < n \<Longrightarrow> \<exists>h. 2 ^ h \<le> n \<and> n < 2 ^ Suc h" for n :: nat
  using ex_power_ivl1 [of 2 n] by auto

lemma isPowerOf2_pow:
  assumes "isPowerOf2 (n :: 'a::len word)"
  obtains k where "unat n = 2 ^ k" "k < LENGTH('a)"
proof -
  have nz: "n \<noteq> 0" and an: "n AND NOT (n - 1) = n" using assms by (auto simp: isPowerOf2_def)
  then obtain h where h: "2 ^ h \<le> unat n" "unat n < 2 ^ Suc h"
    using pow2_between [of "unat n"] by (auto simp: unat_gt_0)
  have u1: "unat (n - 1) = unat n - 1" using nz by (simp add: unat_minus_one)
  have "unat n = 2 ^ h"
  proof (rule ccontr)
    assume "unat n \<noteq> 2 ^ h"
    then have "bit (unat (n - 1)) h" "bit (unat n) h"
      using h bit_top_nat [of h "unat n"] bit_top_nat [of h "unat n - 1"] by (auto simp: u1)
    then have "bit n h" "bit (n - 1) h" by (simp_all add: bit_unsigned_iff)
    moreover have "bit (n AND NOT (n - 1)) h" using \<open>bit n h\<close> an by simp
    ultimately show False by (simp add: bit_and_iff bit_not_iff)
  qed
  moreover have "h < LENGTH('a)"
    using h(1) unsigned_less [of n] power_strict_increasing_iff [of "2::nat" h "LENGTH('a)"]
    by (metis le_less_trans one_less_numeral_iff semiring_norm(76))
  ultimately show ?thesis using that by blast
qed

lemma and_not_mask_minus: "x AND NOT (mask k) = x - take_bit k x" for x :: "'a::len word"
proof -
  have "(x AND NOT (mask k)) + (x AND mask k) = (x AND NOT (mask k)) OR (x AND mask k)"
    by (rule disjunctive_add) (simp add: bit_simps)
  also have "\<dots> = x" by (rule bit_word_eqI) (auto simp: bit_simps)
  finally show ?thesis by (simp add: take_bit_eq_mask eq_diff_eq)
qed

lemma unat_add_mod_pow2:
  fixes a b :: u64
  assumes "k \<le> 64"
  shows "unat (a + b) mod 2 ^ k = (unat a + unat b) mod 2 ^ k"
proof -
  have "unat (a + b) mod 2 ^ k = (unat a + unat b) mod 2 ^ 64 mod 2 ^ k" by (simp add: unat_word_ariths(1))
  also have "\<dots> = (unat a + unat b) mod 2 ^ k" using assms by (intro mod_mod_cancel le_imp_power_dvd)
  finally show ?thesis .
qed

lemma unat_mask_u64:
  assumes "k < 64"
  shows "unat (mask k :: u64) = 2 ^ k - 1"
proof -
  have "(2::nat) ^ k \<le> 2 ^ 63" using assms by (intro power_increasing) simp_all
  then have "unat (of_nat (mask k) :: u64) = mask k" by (intro unat_of_nat_small) (simp add: mask_nat_def)
  then show ?thesis by (simp add: mask_nat_def mask_eq_exp_minus_1)
qed

lemma add_pred_mod: "0 < c \<Longrightarrow> (a + (c - 1)) mod c = (if a mod c = 0 then c - 1 else a mod c - 1)" for a c :: nat
proof -
  assume c: "0 < c"
  have "(a + (c - 1)) mod c = (a mod c + (c - 1)) mod c" by (rule mod_add_left_eq [symmetric])
  moreover have "a mod c < c" using c by simp
  ultimately show ?thesis by (cases "a mod c = 0") (simp_all add: le_mod_geq)
qed

lemma roundUp_eq:
  assumes c: "unat c = 2 ^ k" and k: "k < 32"
  shows "roundUp a c = (if unat a mod 2 ^ k = 0 then a else a + (2 ^ k - of_nat (unat a mod 2 ^ k)))"
proof -
  let ?m = "unat a mod 2 ^ k"
  have "ucast c = (of_nat (unat c) :: u64)" by simp
  then have uc: "ucast c = (2 ^ k :: u64)" by (simp add: c)
  have um: "unat (mask k :: u64) = 2 ^ k - 1" using k by (simp add: unat_mask_u64)
  have r: "roundUp a c = a + mask k - take_bit k (a + mask k)"
    by (simp add: roundUp_def Let_def uc mask_eq_exp_minus_1 [symmetric] and_not_mask_minus)
  have "unat (take_bit k (a + mask k)) = unat (a + mask k) mod 2 ^ k"
    using unsigned_take_bit_eq [of k "a + mask k", where 'a = nat] by (simp only: take_bit_nat_def)
  also have "\<dots> = (if ?m = 0 then 2 ^ k - 1 else ?m - 1)"
    using unat_add_mod_pow2 [of k a "mask k"] add_pred_mod [of "2 ^ k" "unat a"] k um by simp
  finally have "of_nat (unat (take_bit k (a + mask k))) = (of_nat (if ?m = 0 then 2 ^ k - 1 else ?m - 1) :: u64)"
    by simp
  then have "take_bit k (a + mask k) = (if ?m = 0 then mask k else of_nat ?m - 1)"
    by (auto simp: of_nat_diff mask_eq_exp_minus_1 split: if_splits)
  then show ?thesis by (auto simp: r mask_eq_exp_minus_1)
qed

text \<open>
  The invariant of the generator: \<open>n\<close> bytes lie before the current piece, the rest add up to the
  region, a piece stays inside its block, and the next one starts on a block boundary.
\<close>

definition gen_inv :: "Addr \<Rightarrow> nat \<Rightarrow> nat \<Rightarrow> nat \<Rightarrow> chunk_generator \<Rightarrow> bool" where
  "gen_inv a tot c n g \<longleftrightarrow> startAddr g = a \<and> curAddr g = a + of_nat n \<and> unat (chunkSize g) = c \<and>
     n + unat (curSize g) + unat (sizeLeft g) = tot \<and> tot < 2 ^ 32 \<and>
     (0 < c \<longrightarrow> unat (curAddr g) mod c + unat (curSize g) \<le> c) \<and>
     (sizeLeft g \<noteq> 0 \<longrightarrow> nextAddr g = curAddr g + ucast (curSize g) \<and> 0 < c \<and> unat (nextAddr g) mod c = 0)"

lemma unat_ucast_u32 [simp]: "unat (ucast (w :: u32) :: u64) = unat w"
  using unsigned_less [of w, where 'a = nat] by (simp add: unsigned_ucast_eq take_bit_nat_eq_self)

lemma unat_min_u32: "unat (min a b) = min (unat a) (unat b)" for a b :: u32
  by (simp add: min_def word_le_nat_alt)

lemma gen_next_inv:
  assumes inv: "gen_inv a tot (2 ^ k) n g" and k: "k < 32" and left: "sizeLeft g \<noteq> 0"
  shows "gen_inv a tot (2 ^ k) (n + unat (curSize g)) (snd (gen_next g)) \<and>
    unat (curSize (snd (gen_next g))) = min (unat (sizeLeft g)) (2 ^ k)"
proof -
  let ?c = "min (sizeLeft g) (chunkSize g)"
  have c: "unat ?c = min (unat (sizeLeft g)) (2 ^ k)" using inv by (simp add: unat_min_u32 gen_inv_def)
  then have sub: "unat (sizeLeft g - ?c) = unat (sizeLeft g) - unat ?c"
    by (intro unat_sub) (simp add: word_le_nat_alt)
  have al: "unat (nextAddr g) mod 2 ^ k = 0" "nextAddr g = curAddr g + ucast (curSize g)"
    using inv left by (auto simp: gen_inv_def)
  have cur: "nextAddr g = a + of_nat (n + unat (curSize g))"
    using inv al(2) by (simp add: gen_inv_def add.assoc)
  then have cur2: "a + (of_nat n + ucast (curSize g)) = nextAddr g" by simp
  have "unat (nextAddr g + ucast ?c) mod 2 ^ k = 0" if "sizeLeft g - ?c \<noteq> 0"
  proof -
    have "unat (sizeLeft g - ?c) \<noteq> 0" using that by (simp add: unat_eq_0)
    then have "unat ?c = 2 ^ k" using c sub by linarith
    then show ?thesis using al(1) k unat_add_mod_pow2 [of k "nextAddr g" "ucast ?c"] by simp
  qed
  moreover have "n + unat (curSize g) + unat (sizeLeft g) = tot" "tot < 2 ^ 32" "startAddr g = a"
    "unat (chunkSize g) = 2 ^ k"
    using inv by (auto simp: gen_inv_def)
  ultimately show ?thesis using left al(1) c sub
    by (simp add: gen_inv_def gen_next_def Let_def cur2)
qed

lemma chunks_step:
  "curSize g \<noteq> 0 \<Longrightarrow> sizeLeft g = 0 \<Longrightarrow> chunks g = [g]"
  "curSize g \<noteq> 0 \<Longrightarrow> sizeLeft g \<noteq> 0 \<Longrightarrow> chunks g = g # chunks (snd (gen_next g))"
  "curSize g = 0 \<Longrightarrow> chunks g = []"
  by (simp_all add: chunks.simps [of g] chunks.simps [of "g\<lparr>curSize := 0\<rparr>"] gen_done_def gen_next_def)

lemma unat_boundary:
  fixes a :: u64
  assumes k: "k < 32"
  shows "unat (2 ^ k - of_nat (unat a mod 2 ^ k) :: u64) = 2 ^ k - unat a mod 2 ^ k"
proof -
  have "(2::nat) ^ k \<le> 2 ^ 32" using k by (intro power_increasing) simp_all
  then have "unat (of_nat (2 ^ k - unat a mod 2 ^ k) :: u64) = 2 ^ k - unat a mod 2 ^ k"
    by (intro unat_of_nat_small) simp
  then show ?thesis by (simp add: of_nat_diff)
qed

text \<open>The distance from the start of the region to the boundary that the constructor computes.\<close>

lemma ChunkGenerator_next:
  assumes c: "unat c = 2 ^ k" and k: "k < 32"
    and nxt: "nxt = (let r = roundUp a c in if a = r then r + ucast c else r)"
  shows "nxt - a = of_nat (2 ^ k - unat a mod 2 ^ k)" "unat nxt mod 2 ^ k = 0"
    "unat (ucast (nxt - a) :: u32) = 2 ^ k - unat a mod 2 ^ k"
proof -
  let ?m = "unat a mod 2 ^ k"
  have "ucast c = (of_nat (unat c) :: u64)" by simp
  then have uc: "ucast c = (2 ^ k :: u64)" by (simp add: c)
  have ub: "unat (2 ^ k - of_nat ?m :: u64) = 2 ^ k - ?m" by (rule unat_boundary [OF k])
  have lt: "?m < 2 ^ k" by simp
  then have ne: "(2 ^ k - of_nat ?m :: u64) \<noteq> 0" using ub by (metis unat_0 zero_less_diff less_irrefl)
  have n: "nxt = a + (2 ^ k - of_nat ?m)"
    using nxt ne by (auto simp: Let_def roundUp_eq [OF c k] uc split: if_splits)
  then show d: "nxt - a = of_nat (2 ^ k - ?m)" using lt by (simp add: of_nat_diff)
  have "unat nxt mod 2 ^ k = (unat a + (2 ^ k - ?m)) mod 2 ^ k"
    using unat_add_mod_pow2 [of k a "2 ^ k - of_nat ?m"] k by (simp add: ub n)
  also have "\<dots> = (?m + (2 ^ k - ?m)) mod 2 ^ k" by (rule mod_add_left_eq [symmetric])
  finally show "unat nxt mod 2 ^ k = 0" using lt by simp
  have "2 ^ k - ?m \<le> (2::nat) ^ k" by simp
  also have "\<dots> \<le> 2 ^ 31" using k by (intro power_increasing) simp_all
  finally have "2 ^ k - ?m < (2::nat) ^ 32" by simp
  moreover have "unat (nxt - a) = 2 ^ k - ?m" using n ub by simp
  ultimately show "unat (ucast (nxt - a) :: u32) = 2 ^ k - ?m"
    by (simp add: unsigned_ucast_eq take_bit_nat_eq_self)
qed

lemma unat_ucast_to_u32: "unat x < 2 ^ 32 \<Longrightarrow> unat (ucast (x :: u64) :: u32) = unat x"
  by (simp add: unsigned_ucast_eq take_bit_nat_eq_self)

lemma ucast_ucast_u32 [simp]: "ucast (ucast (w :: u32) :: u64) = w"
  using unsigned_less [of w, where 'a = nat] by (simp add: word_unat_eq_iff unat_ucast_to_u32)

lemma ChunkGenerator_inv:
  assumes "ChunkGenerator a tot c = Inr g"
  obtains (whole) "c = 0" "gen_inv a (unat tot) 0 0 g" "curSize g = tot" "sizeLeft g = 0"
    | (blocks) k where "unat c = 2 ^ k" "k < 32" "gen_inv a (unat tot) (2 ^ k) 0 g"
      "curSize g = 0 \<Longrightarrow> tot = 0"
proof (cases "c = 0")
  case True
  then show ?thesis using assms unsigned_less [of tot, where 'a = nat]
    by (intro whole) (auto simp: ChunkGenerator_def Let_def gen_inv_def)
next
  case False
  then have "isPowerOf2 c" using assms by (auto simp: ChunkGenerator_def)
  then obtain k where k: "unat c = 2 ^ k" "k < 32" by (elim isPowerOf2_pow) auto
  define nxt where "nxt = (let r = roundUp a c in if a = r then r + ucast c else r)"
  note nx = ChunkGenerator_next [OF k nxt_def]
  let ?m = "unat a mod 2 ^ k"
  have g: "g = \<lparr>curAddr = a, nextAddr = nxt, curSize = min tot (ucast (nxt - a)),
      sizeLeft = tot - min tot (ucast (nxt - a)), startAddr = a, chunkSize = c\<rparr>"
    using assms False by (auto simp: ChunkGenerator_def Let_def nxt_def)
  have cs: "unat (curSize g) = min (unat tot) (2 ^ k - ?m)" by (simp add: g unat_min_u32 nx(3))
  have sl: "unat (sizeLeft g) = unat tot - unat (curSize g)"
    by (simp add: g, intro unat_sub) simp
  have m: "?m < 2 ^ k" by simp
  have "nxt = a + ucast (curSize g)" if "sizeLeft g \<noteq> 0"
  proof -
    have "unat (sizeLeft g) \<noteq> 0" using that by (simp add: unat_eq_0)
    then have "unat (curSize g) = 2 ^ k - ?m" using cs sl by linarith
    then have "nxt - a = of_nat (unat (curSize g))" using nx(1) by simp
    then show ?thesis by (simp add: diff_eq_eq add.commute)
  qed
  moreover have "tot = 0" if "curSize g = 0"
  proof -
    have "unat (curSize g) = 0" using that by simp
    then have "unat tot = 0" using cs m by linarith
    then show ?thesis by (simp add: unat_eq_0)
  qed
  moreover have "unat tot < 2 ^ 32" using unsigned_less [of tot, where 'a = nat] by simp
  moreover have "startAddr g = a" "curAddr g = a" "nextAddr g = nxt" "chunkSize g = c" by (simp_all add: g)
  moreover have "?m + unat (curSize g) \<le> 2 ^ k" "unat (curSize g) + unat (sizeLeft g) = unat tot"
    using cs sl m by linarith+
  ultimately show ?thesis using k nx(2)
    by (intro blocks [OF k]) (auto simp: gen_inv_def)
qed

text \<open>What the pieces of a region of \<open>tot\<close> bytes at \<open>a\<close> look like from offset \<open>n\<close> on.\<close>

definition tiles :: "Addr \<Rightarrow> nat \<Rightarrow> nat \<Rightarrow> nat \<Rightarrow> chunk_generator list \<Rightarrow> bool" where
  "tiles a tot c n gs \<longleftrightarrow>
     concat (map (\<lambda>g. [unat (gen_complete g)..<unat (gen_complete g) + unat (curSize g)]) gs) = [n..<tot] \<and>
     (\<forall>g \<in> set gs. curAddr g = a + of_nat (unat (gen_complete g)) \<and> curSize g \<noteq> 0 \<and>
        (0 < c \<longrightarrow> unat (curAddr g) mod c + unat (curSize g) \<le> c))"

lemma gen_inv_complete: "gen_inv a tot c n g \<Longrightarrow> unat (gen_complete g) = n"
proof -
  assume g: "gen_inv a tot c n g"
  then have n: "n < 2 ^ 32" by (simp add: gen_inv_def)
  then have u: "unat (of_nat n :: u64) = n" by (simp add: unat_of_nat_small)
  have "curAddr g - startAddr g = of_nat n" using g by (simp add: gen_inv_def)
  then show ?thesis using n u unat_ucast_to_u32 [of "of_nat n"] by (simp add: gen_complete_def)
qed

lemma tiles_Cons:
  assumes g: "gen_inv a tot c n g" "curSize g \<noteq> 0" and gs: "tiles a tot c (n + unat (curSize g)) gs"
  shows "tiles a tot c n (g # gs)"
proof -
  have "n + unat (curSize g) \<le> tot" using g by (simp add: gen_inv_def)
  then have "[n..<n + unat (curSize g)] @ [n + unat (curSize g)..<tot] = [n..<tot]"
    using upt_add_eq_append [of n "n + unat (curSize g)" "tot - (n + unat (curSize g))"] by simp
  then show ?thesis using gs g gen_inv_complete [OF g(1)] by (auto simp: tiles_def gen_inv_def)
qed

lemma tiles_Nil: "tot \<le> n \<Longrightarrow> tiles a tot c n []"
  by (simp add: tiles_def)

lemma tiles_last:
  "gen_inv a tot c n g \<Longrightarrow> curSize g \<noteq> 0 \<Longrightarrow> sizeLeft g = 0 \<Longrightarrow> tiles a tot c n (chunks g)"
proof -
  assume g: "gen_inv a tot c n g" "curSize g \<noteq> 0" "sizeLeft g = 0"
  then have "tot \<le> n + unat (curSize g)" by (auto simp: gen_inv_def)
  then have "tiles a tot c n [g]" using g(1,2) by (intro tiles_Cons tiles_Nil)
  then show ?thesis using g by (simp add: chunks_step(1))
qed

lemma chunks_tile_from:
  assumes "gen_inv a tot (2 ^ k) n g" and "k < 32" and "curSize g \<noteq> 0"
  shows "tiles a tot (2 ^ k) n (chunks g)"
  using assms
proof (induction "unat (sizeLeft g)" arbitrary: g n rule: less_induct)
  case less
  show ?case
  proof (cases "sizeLeft g = 0")
    case True
    then show ?thesis using less.prems by (intro tiles_last)
  next
    case False
    let ?h = "snd (gen_next g)"
    have h: "gen_inv a tot (2 ^ k) (n + unat (curSize g)) ?h" "unat (curSize ?h) = min (unat (sizeLeft g)) (2 ^ k)"
      using gen_next_inv [OF less.prems(1,2) False] by auto
    have nz: "unat (curSize ?h) \<noteq> 0" using h(2) False unat_eq_0 [of "sizeLeft g"] by auto
    have "unat (sizeLeft ?h) < unat (sizeLeft g)"
      using h(1) less.prems(1) nz by (simp add: gen_inv_def)
    then have "tiles a tot (2 ^ k) (n + unat (curSize g)) (chunks ?h)"
      using less.hyps h(1) nz less.prems(2) by (simp add: unat_eq_0)
    then show ?thesis using tiles_Cons less.prems False by (simp add: chunks_step(2))
  qed
qed

lemma chunks_tile:
  assumes "ChunkGenerator a tot c = Inr g"
  shows "tiles a (unat tot) (unat c) 0 (chunks g)"
  using assms
proof (cases rule: ChunkGenerator_inv)
  case whole
  then show ?thesis using tiles_last [of a "unat tot" 0 0 g] by (cases "tot = 0") (simp_all add: chunks_step(3) tiles_Nil)
next
  case (blocks k)
  then show ?thesis
    by (cases "curSize g = 0") (auto simp: chunks_step tiles_Nil intro: chunks_tile_from)
qed

text \<open>C12: the loop over a chunk generator ends, and its pieces, taken in order, cover the bytes
  \<open>0, ..., totalSize - 1\<close> of the region exactly once; each piece is non-empty, starts at its own
  offset from the start of the region, and lies inside one aligned block.\<close>

theorem ChunkGenerator_tiles:
  assumes "chunk = 0 \<or> isPowerOf2 chunk"
  shows "\<exists>g. ChunkGenerator start totalSize chunk = Inr g \<and>
    concat (map (\<lambda>h. [unat (gen_complete h)..<unat (gen_complete h) + unat (curSize h)]) (chunks g))
      = [0..<unat totalSize] \<and>
    (\<forall>h \<in> set (chunks g). curAddr h = start + ucast (gen_complete h) \<and> curSize h \<noteq> 0 \<and>
       (chunk \<noteq> 0 \<longrightarrow> unat (curAddr h) mod unat chunk + unat (curSize h) \<le> unat chunk))"
proof -
  obtain g where g: "ChunkGenerator start totalSize chunk = Inr g"
    using assms by (simp add: ChunkGenerator_def Let_def)
  then show ?thesis using chunks_tile [OF g] by (auto simp: tiles_def unat_gt_0)
qed

text \<open>Ten bytes at 0x3c in 64-byte blocks: the pieces 0x3c-0x3f and 0x40-0x45.\<close>

theorem ChunkGenerator_tiles_witness:
  "isPowerOf2 (64 :: u32) \<and> (\<exists>g. ChunkGenerator 0x3c 10 64 = Inr g \<and>
     map (\<lambda>h. (curAddr h, curSize h)) (chunks g) = [(0x3c, 4), (0x40, 6)] \<and>
     (\<forall>h \<in> set (chunks g). unat (curAddr h) mod 64 + unat (curSize h) \<le> 64))"
proof -
  have p: "isPowerOf2 (64 :: u32)" by (simp add: isPowerOf2_def)
  let ?g = "\<lparr>curAddr = 0x3c, nextAddr = 0x40, curSize = 4, sizeLeft = 6, startAddr = 0x3c, chunkSize = 64\<rparr>"
  have g: "ChunkGenerator 0x3c 10 64 = Inr ?g"
    by (simp add: ChunkGenerator_def Let_def p roundUp_def min_def)
  have "map (\<lambda>h. (curAddr h, curSize h)) (chunks ?g) = [(0x3c, 4), (0x40, 6)]"
    by (simp add: chunks.simps gen_done_def gen_next_def min_def)
  then show ?thesis using ChunkGenerator_tiles [of 64 "0x3c" 10] p g by auto
qed

end
