(* ===== verification/DmaPort.thy ===== *)
theory DmaPort
  imports ChunkGen SimpleMem
begin

text \<open>
  The DMA port of a device (\<open>dev/dma_device.hh\<close>, \<open>dev/dma_device.cc\<close> under
  \<open>src/SMC_original/GEM5/gem5/src\<close>): an action is cut into packets of one cache line each that
  share one \<open>DmaReqState\<close>; packets are sent one at a time, and the last response of an action
  schedules its completion event.

  The states that \<open>new DmaReqState\<close> allocates live in \<open>reqStates\<close>, indexed by the reference
  the packets carry; \<open>delete state\<close> removes the entry. The device's events are numbers,
  \<open>doneEvents\<close> holds the scheduled ones. The device behind the port is a state of its own with
  its \<open>handle_packet\<close> as an argument (\<open>None\<close> when \<open>handle_packet_required\<close> is false). A buffer
  that packets point into is its list of bytes from the pointer on; a packet carries its slice.
\<close>

section \<open>State\<close>

record dma_req_state =
  completionEvent :: "nat option"
  totBytes :: u64
  numBytes :: u64
  st_delay :: Tick
  transaction_id :: u32

record dma_port =
  transmitList :: "packet list"
  sendEvent :: "Tick option"
  dma_masterId :: nat
  pendingCount :: u32
  dma_drainManager :: bool
  inRetry :: bool
  reqStates :: "nat \<Rightarrow> dma_req_state option"
  nextState_ref :: nat
  doneEvents :: "(nat \<times> Tick) list"
  drainsDone :: nat

datatype mem_mode = TimingMode | AtomicMode | OtherMode

definition mkDmaPort :: "nat \<Rightarrow> dma_port" where
  "mkDmaPort mid = \<lparr>transmitList = [], sendEvent = None, dma_masterId = mid, pendingCount = 0,
     dma_drainManager = False, inRetry = False, reqStates = (\<lambda>_. None), nextState_ref = 0,
     doneEvents = [], drainsDone = 0\<rparr>"

section \<open>Responses\<close>

definition schedule_done :: "Tick \<Rightarrow> Tick \<Rightarrow> nat \<Rightarrow> dma_port \<Rightarrow> dma_port res" where
  "schedule_done now when e s =
     assertR (when \<ge> now) ''when >= getCurTick()''
    (assertR (e \<notin> fst ` set (doneEvents s)) ''!event->scheduled()''
      (Inr (s\<lparr>doneEvents := doneEvents s @ [(e, when)]\<rparr>)))"

text \<open>The state at the end of an action: its event is scheduled and the state is deleted.\<close>

definition finish_action :: "Tick \<Rightarrow> Tick \<Rightarrow> nat \<Rightarrow> dma_req_state \<Rightarrow> dma_port \<Rightarrow> dma_port res" where
  "finish_action now delay i st s =
     bindR (case completionEvent st of
              None \<Rightarrow> Inr s
            | Some e \<Rightarrow> schedule_done now (now + (delay + st_delay st)) e s)
       (\<lambda>s'. Inr (s'\<lparr>reqStates := (reqStates s')(i := None)\<rparr>))"

definition signal_drain :: "dma_port \<Rightarrow> dma_port" where
  "signal_drain s =
     (if pendingCount s = 0 \<and> dma_drainManager s
      then s\<lparr>drainsDone := drainsDone s + 1, dma_drainManager := False\<rparr> else s)"

text \<open>
  \<open>handle_packet\<close> is given \<open>state->transaction_id\<close>, also after \<open>delete state\<close>; what that read of a
  freed object yields is the argument \<open>stale\<close>.
\<close>

definition handleResp ::
    "('d \<Rightarrow> packet \<Rightarrow> bool \<Rightarrow> u32 \<Rightarrow> 'd res) option \<Rightarrow> u32 \<Rightarrow> Tick \<Rightarrow> dma_port \<Rightarrow> 'd \<Rightarrow> packet \<Rightarrow> Tick \<Rightarrow>
     (dma_port \<times> 'd) res" where
  "handleResp handle_packet stale now s dev p delay =
     assertR (isResponse p) ''isResponse()''
      (case senderState p of
         DmaReqState i # _ \<Rightarrow>
          (case reqStates s i of
             None \<Rightarrow> Inl BadPtr
           | Some st0 \<Rightarrow>
               assertR (pendingCount s \<noteq> 0) ''pendingCount != 0''
              (bindR (rq_getSize (pk_req p)) (\<lambda>n.
                 let s1 = s\<lparr>pendingCount := pendingCount s - 1\<rparr>;
                     st = st0\<lparr>numBytes := numBytes st0 + of_int n\<rparr>;
                     last_packet = (totBytes st = numBytes st)
                 in assertR (totBytes st \<ge> numBytes st) ''totBytes >= numBytes''
                   (bindR (if last_packet then finish_action now delay i st s1
                           else Inr (s1\<lparr>reqStates := (reqStates s1)(i \<mapsto> st)\<rparr>)) (\<lambda>s2.
                    bindR (case handle_packet of
                             None \<Rightarrow> Inr dev
                           | Some h \<Rightarrow> h dev p last_packet
                               (if last_packet then stale else transaction_id st)) (\<lambda>dev'.
                    Inr (signal_drain s2, dev')))))))
       | _ \<Rightarrow> Inl (AssertFail ''state''))"

definition dma_recvTimingResp ::
    "('d \<Rightarrow> packet \<Rightarrow> bool \<Rightarrow> u32 \<Rightarrow> 'd res) option \<Rightarrow> u32 \<Rightarrow> Tick \<Rightarrow> dma_port \<Rightarrow> 'd \<Rightarrow> packet \<Rightarrow>
     (bool \<times> dma_port \<times> 'd) res" where
  "dma_recvTimingResp handle_packet stale now s dev p =
     assertR (\<not> (memInhibitAsserted p \<and> \<not> sharedAsserted p)) ''!(memInhibitAsserted() && !sharedAsserted())''
       (bindR (handleResp handle_packet stale now s dev p 0) (\<lambda>(s', dev'). Inr (True, s', dev')))"

definition dma_drain :: "dma_port \<Rightarrow> nat \<times> dma_port" where
  "dma_drain s = (if pendingCount s = 0 then (0, s) else (1, s\<lparr>dma_drainManager := True\<rparr>))"

definition dmaPending :: "dma_port \<Rightarrow> bool" where
  "dmaPending s \<longleftrightarrow> pendingCount s > 0"

section \<open>Sending\<close>

definition queueDma :: "packet \<Rightarrow> dma_port \<Rightarrow> dma_port" where
  "queueDma p s = s\<lparr>transmitList := transmitList s @ [p], pendingCount := pendingCount s + 1\<rparr>"

text \<open>\<open>edge\<close> is the next clock edge of the device, \<open>sendTimingReq\<close> the peer of the port.\<close>

definition trySendTimingReq ::
    "'s timing_peer \<Rightarrow> Tick \<Rightarrow> Tick \<Rightarrow> dma_port \<Rightarrow> 's \<Rightarrow> (dma_port \<times> 's) res" where
  "trySendTimingReq sendTimingReq now edge s peer =
     (case transmitList s of
        [] \<Rightarrow> Inl OutOfRange
      | p # rest \<Rightarrow>
          bindR (sendTimingReq peer p) (\<lambda>(ok, p', peer').
            if ok
            then let s1 = s\<lparr>inRetry := False, transmitList := rest\<rparr> in
              if rest \<noteq> []
              then bindR (schedule_event (sendEvent s1) now edge) (\<lambda>ev. Inr (s1\<lparr>sendEvent := ev\<rparr>, peer'))
              else Inr (s1, peer')
            else Inr (s\<lparr>inRetry := True, transmitList := p' # rest\<rparr>, peer')))"

text \<open>\<open>sendDma\<close> in timing mode, also the action of \<open>sendEvent\<close>.\<close>

definition sendDma_timing ::
    "'s timing_peer \<Rightarrow> Tick \<Rightarrow> Tick \<Rightarrow> dma_port \<Rightarrow> 's \<Rightarrow> (dma_port \<times> 's) res" where
  "sendDma_timing sendTimingReq now edge s peer =
     assertR (transmitList s \<noteq> []) ''transmitList.size()''
       (if inRetry s \<or> sendEvent s \<noteq> None then Inr (s, peer)
        else trySendTimingReq sendTimingReq now edge s peer)"

text \<open>The loop of \<open>sendDma\<close> in atomic mode over the packets of the transmit list.\<close>

fun send_atomic ::
    "('d \<Rightarrow> packet \<Rightarrow> bool \<Rightarrow> u32 \<Rightarrow> 'd res) option \<Rightarrow> u32 \<Rightarrow> 's atomic_peer \<Rightarrow> Tick \<Rightarrow> packet list \<Rightarrow>
     dma_port \<Rightarrow> 'd \<Rightarrow> 's \<Rightarrow> (dma_port \<times> 'd \<times> 's) res" where
  "send_atomic h stale sendAtomic now [] s dev peer = Inr (s, dev, peer)"
| "send_atomic h stale sendAtomic now (p # ps) s dev peer =
     bindR (sendAtomic peer p) (\<lambda>(lat, p', peer').
     bindR (handleResp h stale now (s\<lparr>transmitList := ps\<rparr>) dev p' lat) (\<lambda>(s', dev').
       send_atomic h stale sendAtomic now ps s' dev' peer'))"

definition sendDma ::
    "mem_mode \<Rightarrow> ('d \<Rightarrow> packet \<Rightarrow> bool \<Rightarrow> u32 \<Rightarrow> 'd res) option \<Rightarrow> u32 \<Rightarrow> 's timing_peer \<Rightarrow> 's atomic_peer \<Rightarrow>
     Tick \<Rightarrow> Tick \<Rightarrow> dma_port \<Rightarrow> 'd \<Rightarrow> 's \<Rightarrow> (dma_port \<times> 'd \<times> 's) res" where
  "sendDma mode h stale sendTimingReq sendAtomic now edge s dev peer =
     (case mode of
        TimingMode \<Rightarrow>
          bindR (sendDma_timing sendTimingReq now edge s peer) (\<lambda>(s', peer'). Inr (s', dev, peer'))
      | AtomicMode \<Rightarrow>
          assertR (transmitList s \<noteq> []) ''transmitList.size()''
            (send_atomic h stale sendAtomic now (transmitList s) s dev peer)
      | OtherMode \<Rightarrow>
          assertR (transmitList s \<noteq> []) ''transmitList.size()'' (Inl (Panic ''Unknown memory mode.'')))"

definition dma_recvRetry ::
    "'s timing_peer \<Rightarrow> Tick \<Rightarrow> Tick \<Rightarrow> dma_port \<Rightarrow> 's \<Rightarrow> (dma_port \<times> 's) res" where
  "dma_recvRetry sendTimingReq now edge s peer =
     assertR (transmitList s \<noteq> []) ''transmitList.size()'' (trySendTimingReq sendTimingReq now edge s peer)"

section \<open>Actions\<close>

text \<open>The packet for one piece of an action; 1023 is \<open>ContextSwitchTaskId::DMA\<close>.\<close>

definition dma_packet ::
    "nat \<Rightarrow> Tick \<Rightarrow> mem_cmd \<Rightarrow> u32 \<Rightarrow> byte list option \<Rightarrow> nat \<Rightarrow> chunk_generator \<Rightarrow> packet res" where
  "dma_packet mid now cmd flag data i g =
     bindR (Request_phys (curAddr g) (sint (curSize g)) flag mid now) (\<lambda>req.
       let pkt = Packet_new (req\<lparr>rq_taskId := 1023\<rparr>) cmd in
       bindR (case data of
                None \<Rightarrow> Inr pkt
              | Some d \<Rightarrow> dataStatic pkt (take (unat (curSize g)) (drop (unat (gen_complete g)) d)))
         (\<lambda>pkt. Inr (pkt\<lparr>senderState := [DmaReqState i]\<rparr>)))"

fun queue_chunks ::
    "Tick \<Rightarrow> mem_cmd \<Rightarrow> u32 \<Rightarrow> byte list option \<Rightarrow> nat \<Rightarrow> chunk_generator list \<Rightarrow> dma_port \<Rightarrow> dma_port res" where
  "queue_chunks now cmd flag data i [] s = Inr s"
| "queue_chunks now cmd flag data i (g # gs) s =
     bindR (dma_packet (dma_masterId s) now cmd flag data i g) (\<lambda>p.
       queue_chunks now cmd flag data i gs (queueDma p s))"

definition new_state :: "dma_req_state \<Rightarrow> dma_port \<Rightarrow> dma_port" where
  "new_state st s = s\<lparr>reqStates := (reqStates s)(nextState_ref s \<mapsto> st), nextState_ref := nextState_ref s + 1\<rparr>"

text \<open>
  The common body of \<open>dmaAction\<close> and \<open>dmaAction_augmented\<close> up to the call of \<open>sendDma\<close>; they differ in
  \<open>tid\<close> only, which the former leaves uninitialised.
\<close>

definition queue_action ::
    "u32 \<Rightarrow> Tick \<Rightarrow> u32 \<Rightarrow> mem_cmd \<Rightarrow> Addr \<Rightarrow> int \<Rightarrow> nat option \<Rightarrow> byte list option \<Rightarrow> Tick \<Rightarrow> u32 \<Rightarrow>
     dma_port \<Rightarrow> dma_port res" where
  "queue_action tid now line cmd a sz event data delay flag s =
     bindR (ChunkGenerator a (of_int sz) line) (\<lambda>g.
       queue_chunks now cmd flag data (nextState_ref s) (chunks g)
         (new_state \<lparr>completionEvent = event, totBytes = of_int sz, numBytes = 0, st_delay = delay,
                     transaction_id = tid\<rparr> s))"

definition dmaAction_augmented ::
    "u32 \<Rightarrow> mem_mode \<Rightarrow> ('d \<Rightarrow> packet \<Rightarrow> bool \<Rightarrow> u32 \<Rightarrow> 'd res) option \<Rightarrow> u32 \<Rightarrow> 's timing_peer \<Rightarrow> 's atomic_peer \<Rightarrow>
     Tick \<Rightarrow> Tick \<Rightarrow> u32 \<Rightarrow> mem_cmd \<Rightarrow> Addr \<Rightarrow> int \<Rightarrow> nat option \<Rightarrow> byte list option \<Rightarrow> Tick \<Rightarrow> u32 \<Rightarrow>
     dma_port \<Rightarrow> 'd \<Rightarrow> 's \<Rightarrow> (dma_port \<times> 'd \<times> 's) res" where
  "dmaAction_augmented tid mode h stale sendTimingReq sendAtomic now edge line cmd a sz event data delay flag
     s dev peer =
     bindR (queue_action tid now line cmd a sz event data delay flag s) (\<lambda>s'.
       sendDma mode h stale sendTimingReq sendAtomic now edge s' dev peer)"

definition dmaAction ::
    "u32 \<Rightarrow> mem_mode \<Rightarrow> ('d \<Rightarrow> packet \<Rightarrow> bool \<Rightarrow> u32 \<Rightarrow> 'd res) option \<Rightarrow> u32 \<Rightarrow> 's timing_peer \<Rightarrow> 's atomic_peer \<Rightarrow>
     Tick \<Rightarrow> Tick \<Rightarrow> u32 \<Rightarrow> mem_cmd \<Rightarrow> Addr \<Rightarrow> int \<Rightarrow> nat option \<Rightarrow> byte list option \<Rightarrow> Tick \<Rightarrow> u32 \<Rightarrow>
     dma_port \<Rightarrow> 'd \<Rightarrow> 's \<Rightarrow> (dma_port \<times> 'd \<times> 's) res" where
  "dmaAction uninit mode h stale sendTimingReq sendAtomic now edge line cmd a sz event data delay flag
     s dev peer =
     bindR (queue_action uninit now line cmd a sz event data delay flag s) (\<lambda>s'.
       sendDma mode h stale sendTimingReq sendAtomic now edge s' dev peer)"

section \<open>The packets of an action\<close>

definition pkt_ref :: "packet \<Rightarrow> nat option" where
  "pkt_ref p = (case senderState p of DmaReqState i # _ \<Rightarrow> Some i | _ \<Rightarrow> None)"

definition pkt_bytes :: "packet \<Rightarrow> nat" where
  "pkt_bytes p = nat (rq_size (pk_req p))"

definition dma_pkt_ok :: "packet \<Rightarrow> bool" where
  "dma_pkt_ok p \<longleftrightarrow> pkt_ref p \<noteq> None \<and> hasSize (pk_req p) \<and> 0 < rq_size (pk_req p)"

text \<open>The bytes of action \<open>i\<close> that packets of \<open>ps\<close> still have to transfer.\<close>

definition bytes_of :: "nat \<Rightarrow> packet list \<Rightarrow> nat" where
  "bytes_of i ps = sum_list (map pkt_bytes (filter (\<lambda>p. pkt_ref p = Some i) ps))"

lemma bytes_of_simps [simp]:
  "bytes_of i [] = 0"
  "bytes_of i (p # ps) = (if pkt_ref p = Some i then pkt_bytes p else 0) + bytes_of i ps"
  "bytes_of i (ps @ qs) = bytes_of i ps + bytes_of i qs"
  by (simp_all add: bytes_of_def)

lemma bytes_of_pos: "p \<in> set ps \<Longrightarrow> dma_pkt_ok p \<Longrightarrow> pkt_ref p = Some i \<Longrightarrow> 0 < bytes_of i ps"
  by (induction ps) (auto simp: dma_pkt_ok_def pkt_bytes_def)

lemma bytes_of_zero: "(\<And>p. p \<in> set ps \<Longrightarrow> pkt_ref p \<noteq> Some i) \<Longrightarrow> bytes_of i ps = 0"
  by (induction ps) auto

lemma sint_u32_small: "unat (w :: u32) < 2 ^ 31 \<Longrightarrow> sint w = int (unat w)"
proof -
  assume "unat w < 2 ^ 31"
  then have "int (unat w) < 2 ^ 31" by (simp only: of_nat_less_numeral_power_cancel_iff)
  then have u: "uint w < 2 ^ 31" by simp
  have "- (2 ^ 31) \<le> uint w" by (rule order_trans [OF _ uint_ge_0]) simp
  then have "signed_take_bit 31 (uint w) = uint w" using u by (rule signed_take_bit_int_eq_self)
  then show ?thesis by (simp add: sint_uint)
qed

lemma dma_packet_ok:
  assumes "unat (curSize g) < 2 ^ 31"
  obtains p where "dma_packet mid now cmd flag data i g = Inr p" "senderState p = [DmaReqState i]"
    "rq_size (pk_req p) = int (unat (curSize g))" "hasSize (pk_req p)" "hasPaddr (pk_req p)"
    "rq_flags (pk_req p) = flag"
    "pk_addr p = curAddr g" "pk_size p = curSize g" "pk_cmd p = cmd" "wf_packet p"
    "ATOMIC_HMC_COMMAND p = 0" "\<not> memInhibitAsserted p" "\<not> sharedAsserted p"
    "\<And>d. data = Some d \<Longrightarrow> getPtr p = Inr (take (unat (curSize g)) (drop (unat (gen_complete g)) d))"
proof -
  have s: "sint (curSize g) = int (unat (curSize g))" by (rule sint_u32_small [OF assms])
  obtain r where r: "Request_phys (curAddr g) (sint (curSize g)) flag mid now = Inr r"
    using Request_phys_ok [of "sint (curSize g)" "curAddr g" flag mid now] s by auto
  note sel = Request_phys_sel [OF r]
  let ?r = "r\<lparr>rq_taskId := 1023\<rparr>"
  have ok: "hasPaddr ?r" "hasSize ?r" using sel by (simp_all add: hasPaddr_def hasSize_def)
  let ?p = "Packet_new ?r cmd"
  let ?q = "(case data of None \<Rightarrow> ?p | Some d \<Rightarrow> ?p\<lparr>pk_data := Some (take (unat (curSize g)) (drop (unat (gen_complete g)) d)),
      pk_flags := fl_set (pk_flags ?p) STATIC_DATA\<rparr>)\<lparr>senderState := [DmaReqState i]\<rparr>"
  have "dma_packet mid now cmd flag data i g = Inr ?q"
    using ok by (simp add: dma_packet_def r Let_def dataStatic_def Packet_new_def Packet_blank_def fl_defs
        pkt_flag_defs split: option.splits)
  then show thesis
  proof (rule that)
    show "wf_packet ?q" "\<not> memInhibitAsserted ?q" "\<not> sharedAsserted ?q" "ATOMIC_HMC_COMMAND ?q = 0"
      using ok by (simp_all add: wf_packet_def memInhibitAsserted_def sharedAsserted_def Packet_new_def Packet_blank_def
          Let_def fl_defs pkt_flag_defs split: option.splits)
    show "\<And>d. data = Some d \<Longrightarrow> getPtr ?q = Inr (take (unat (curSize g)) (drop (unat (gen_complete g)) d))"
      using ok by (simp add: getPtr_def Packet_new_def Packet_blank_def Let_def fl_defs pkt_flag_defs)
  qed (use ok sel s in \<open>simp_all add: hasPaddr_def hasSize_def split: option.splits\<close>)
qed

text \<open>Queueing adds one packet per piece and changes nothing else of the port.\<close>

lemma queue_chunks_ok:
  assumes "\<forall>g \<in> set gs. curSize g \<noteq> 0 \<and> unat (curSize g) < 2 ^ 31"
  shows "\<exists>ps. queue_chunks now cmd flag data i gs s = Inr (s\<lparr>transmitList := transmitList s @ ps,
      pendingCount := pendingCount s + of_nat (length ps)\<rparr>) \<and>
    list_all2 (\<lambda>g p. dma_packet (dma_masterId s) now cmd flag data i g = Inr p) gs ps"
  using assms
proof (induction gs arbitrary: s)
  case Nil
  then show ?case by simp
next
  case (Cons g gs)
  obtain p where p: "dma_packet (dma_masterId s) now cmd flag data i g = Inr p"
    using Cons.prems by (metis dma_packet_ok list.set_intros(1))
  obtain ps where "queue_chunks now cmd flag data i gs (queueDma p s) =
      Inr ((queueDma p s)\<lparr>transmitList := transmitList (queueDma p s) @ ps,
        pendingCount := pendingCount (queueDma p s) + of_nat (length ps)\<rparr>)"
    "list_all2 (\<lambda>g p. dma_packet (dma_masterId s) now cmd flag data i g = Inr p) gs ps"
    using Cons.IH [of "queueDma p s"] Cons.prems by (auto simp: queueDma_def)
  then show ?case using p
    by (intro exI [of _ "p # ps"]) (simp add: queueDma_def add.assoc)
qed

lemma dma_packet_facts:
  assumes "dma_packet mid now cmd flag data i g = Inr p" "unat (curSize g) < 2 ^ 31" "curSize g \<noteq> 0"
  shows "pkt_ref p = Some i" "pkt_bytes p = unat (curSize g)" "dma_pkt_ok p"
proof -
  have "uint (curSize g) \<noteq> 0" using assms(3) by (simp add: uint_0_iff)
  then have "0 < uint (curSize g)" using uint_ge_0 [of "curSize g"] by linarith
  moreover have "senderState p = [DmaReqState i]" "rq_size (pk_req p) = int (unat (curSize g))" "hasSize (pk_req p)"
    using assms(1) by (auto intro: dma_packet_ok [OF assms(2), of mid now cmd flag data i])
  ultimately show "pkt_ref p = Some i" "pkt_bytes p = unat (curSize g)" "dma_pkt_ok p"
    by (simp_all add: pkt_ref_def pkt_bytes_def dma_pkt_ok_def)
qed

lemma list_all2_bytes:
  assumes "list_all2 (\<lambda>g p. dma_packet mid now cmd flag data i g = Inr p) gs ps"
    and "\<forall>g \<in> set gs. curSize g \<noteq> 0 \<and> unat (curSize g) < 2 ^ 31"
  shows "bytes_of i ps = sum_list (map (\<lambda>g. unat (curSize g)) gs) \<and>
    (\<forall>p \<in> set ps. dma_pkt_ok p \<and> pkt_ref p = Some i)"
  using assms
  by (induction rule: list_all2_induct) (auto simp: dma_packet_facts)

lemma tiles_sum: "tiles a tot c n gs \<Longrightarrow> sum_list (map (\<lambda>g. unat (curSize g)) gs) = tot - n"
proof -
  assume "tiles a tot c n gs"
  then have "length (concat (map (\<lambda>g. [unat (gen_complete g)..<unat (gen_complete g) + unat (curSize g)]) gs)) = tot - n"
    by (simp add: tiles_def)
  then show ?thesis by (simp add: length_concat comp_def)
qed

lemma tiles_small:
  assumes "tiles a tot c n gs" "tot < 2 ^ 31"
  shows "\<forall>g \<in> set gs. curSize g \<noteq> 0 \<and> unat (curSize g) < 2 ^ 31"
proof
  fix g assume g: "g \<in> set gs"
  have "unat (curSize g) \<le> sum_list (map (\<lambda>g. unat (curSize g)) gs)"
    using g by (intro member_le_sum_list) auto
  then have "unat (curSize g) < 2 ^ 31" using tiles_sum [OF assms(1)] assms(2) by linarith
  then show "curSize g \<noteq> 0 \<and> unat (curSize g) < 2 ^ 31" using assms(1) g by (simp add: tiles_def)
qed

lemma unat_of_int_small:
  "0 \<le> n \<Longrightarrow> n < 2 ^ LENGTH('a) \<Longrightarrow> unat (of_int n :: 'a::len word) = nat n"
  by (simp add: unat_eq_nat_uint uint_word_of_int)

lemma queue_action_ok:
  assumes sz: "0 < sz" "sz < 2 ^ 31" and line: "line = 0 \<or> isPowerOf2 line"
  obtains g ps where "ChunkGenerator a (of_int sz) line = Inr g"
    "tiles a (nat sz) (unat line) 0 (chunks g)"
    "list_all2 (\<lambda>g p. dma_packet (dma_masterId s) now cmd flag data (nextState_ref s) g = Inr p) (chunks g) ps"
    "queue_action tid now line cmd a sz event data delay flag s =
       Inr ((new_state \<lparr>completionEvent = event, totBytes = of_int sz, numBytes = 0, st_delay = delay,
          transaction_id = tid\<rparr> s)\<lparr>transmitList := transmitList s @ ps,
            pendingCount := pendingCount s + of_nat (length ps)\<rparr>)"
    "bytes_of (nextState_ref s) ps = nat sz"
    "\<forall>p \<in> set ps. dma_pkt_ok p \<and> pkt_ref p = Some (nextState_ref s)"
proof -
  obtain g where g: "ChunkGenerator a (of_int sz) line = Inr g"
    using line by (simp add: ChunkGenerator_def Let_def)
  have "unat (of_int sz :: u32) = nat sz" using sz by (intro unat_of_int_small) simp_all
  then have t: "tiles a (nat sz) (unat line) 0 (chunks g)" using chunks_tile [OF g] by simp
  have small: "\<forall>g \<in> set (chunks g). curSize g \<noteq> 0 \<and> unat (curSize g) < 2 ^ 31"
    using tiles_small [OF t] sz by simp
  let ?s = "new_state \<lparr>completionEvent = event, totBytes = of_int sz, numBytes = 0, st_delay = delay,
          transaction_id = tid\<rparr> s"
  obtain ps where ps: "queue_chunks now cmd flag data (nextState_ref s) (chunks g) ?s =
      Inr (?s\<lparr>transmitList := transmitList s @ ps, pendingCount := pendingCount s + of_nat (length ps)\<rparr>)"
    "list_all2 (\<lambda>g p. dma_packet (dma_masterId s) now cmd flag data (nextState_ref s) g = Inr p) (chunks g) ps"
    using queue_chunks_ok [OF small, of now cmd flag data "nextState_ref s" ?s] by (auto simp: new_state_def)
  show thesis
    using that [OF g t ps(2)] list_all2_bytes [OF ps(2) small] tiles_sum [OF t] ps(1) g
    by (simp add: queue_action_def)
qed

section \<open>The port in timing mode\<close>

text \<open>
  Packets that the peer has accepted are in flight until their responses arrive, in any order.
  The peer may change a packet in many ways, but a packet keeps its sender state and the size
  of its request (\<open>same_txn\<close>), and the peer decides freely whether to accept.
\<close>

definition port_peer :: "bool \<Rightarrow> packet \<Rightarrow> packet list timing_peer" where
  "port_peer ok q fl p = Inr (ok, q, if ok then fl @ [q] else fl)"

lemma same_txn_facts:
  assumes "same_txn p q"
  shows "pkt_ref q = pkt_ref p" "pkt_bytes q = pkt_bytes p" "dma_pkt_ok q = dma_pkt_ok p"
  using assms by (auto simp: same_txn_def pkt_ref_def pkt_bytes_def dma_pkt_ok_def)

inductive dma_step ::
    "('d \<Rightarrow> packet \<Rightarrow> bool \<Rightarrow> u32 \<Rightarrow> 'd res) option \<Rightarrow> u32 \<Rightarrow>
     dma_port \<times> packet list \<times> 'd \<Rightarrow> dma_port \<times> packet list \<times> 'd \<Rightarrow> bool"
  for h stale where
  Action: "0 < sz \<Longrightarrow> sz < 2 ^ 31 \<Longrightarrow> queue_action tid now line cmd a sz event data delay flag s = Inr s1 \<Longrightarrow>
     same_txn (hd (transmitList s1)) q \<Longrightarrow>
     sendDma_timing (port_peer ok q) now edge s1 fl = Inr (s', fl') \<Longrightarrow>
     dma_step h stale (s, fl, dev) (s', fl', dev)"
| SendEvent: "sendEvent s = Some now \<Longrightarrow> same_txn (hd (transmitList s)) q \<Longrightarrow>
     sendDma_timing (port_peer ok q) now edge (s\<lparr>sendEvent := None\<rparr>) fl = Inr (s', fl') \<Longrightarrow>
     dma_step h stale (s, fl, dev) (s', fl', dev)"
| RecvRetry: "inRetry s \<Longrightarrow> same_txn (hd (transmitList s)) q \<Longrightarrow>
     dma_recvRetry (port_peer ok q) now edge s fl = Inr (s', fl') \<Longrightarrow>
     dma_step h stale (s, fl, dev) (s', fl', dev)"
| Response: "same_txn p q \<Longrightarrow> dma_recvTimingResp h stale now s dev q = Inr (b, s', dev') \<Longrightarrow>
     dma_step h stale (s, xs @ p # ys, dev) (s', xs @ ys, dev')"
| DoneEvent: "doneEvents s = xs @ (e, t) # ys \<Longrightarrow>
     dma_step h stale (s, fl, dev) (s\<lparr>doneEvents := xs @ ys\<rparr>, fl, dev)"
| DrainRequest: "dma_drain s = (n, s') \<Longrightarrow> dma_step h stale (s, fl, dev) (s', fl, dev)"

inductive dma_reachable ::
    "('d \<Rightarrow> packet \<Rightarrow> bool \<Rightarrow> u32 \<Rightarrow> 'd res) option \<Rightarrow> u32 \<Rightarrow> nat \<Rightarrow> 'd \<Rightarrow> dma_port \<times> packet list \<times> 'd \<Rightarrow> bool"
  for h stale mid dev0 where
  Init: "dma_reachable h stale mid dev0 (mkDmaPort mid, [], dev0)"
| Step: "dma_reachable h stale mid dev0 x \<Longrightarrow> dma_step h stale x y \<Longrightarrow> dma_reachable h stale mid dev0 y"

text \<open>
  Every outstanding packet refers to a live state; the bytes acknowledged and the bytes
  outstanding of an action add up to its size; a live state has packets outstanding; and the
  port waits either for its own event or for a retry exactly when it has something to send.
\<close>

definition accounted :: "packet list \<Rightarrow> dma_port \<Rightarrow> bool" where
  "accounted ps s \<longleftrightarrow>
     (\<forall>p \<in> set ps. dma_pkt_ok p \<and> (\<exists>i st. pkt_ref p = Some i \<and> reqStates s i = Some st)) \<and>
     (\<forall>i st. reqStates s i = Some st \<longrightarrow> i < nextState_ref s \<and> 0 < bytes_of i ps \<and>
        unat (numBytes st) + bytes_of i ps = unat (totBytes st)) \<and>
     pendingCount s = of_nat (length ps)"

definition send_ok :: "dma_port \<Rightarrow> bool" where
  "send_ok s \<longleftrightarrow> (transmitList s \<noteq> [] \<longleftrightarrow> inRetry s \<or> sendEvent s \<noteq> None) \<and>
     \<not> (inRetry s \<and> sendEvent s \<noteq> None)"

definition dma_inv :: "dma_port \<Rightarrow> packet list \<Rightarrow> bool" where
  "dma_inv s fl \<longleftrightarrow> accounted (transmitList s @ fl) s \<and> send_ok s"

lemma accounted_upd [simp]:
  "accounted ps (s\<lparr>transmitList := x\<rparr>) = accounted ps s"
  "accounted ps (s\<lparr>inRetry := r\<rparr>) = accounted ps s"
  "accounted ps (s\<lparr>sendEvent := e\<rparr>) = accounted ps s"
  "accounted ps (s\<lparr>doneEvents := es\<rparr>) = accounted ps s"
  "accounted ps (s\<lparr>drainsDone := n\<rparr>) = accounted ps s"
  "accounted ps (s\<lparr>dma_drainManager := m\<rparr>) = accounted ps s"
  by (simp_all add: accounted_def)

text \<open>Accounting depends only on the references and sizes of the packets, in whatever order.\<close>

lemma accounted_move:
  assumes "accounted (p # rest @ fl) s" "same_txn p q"
  shows "accounted (rest @ fl @ [q]) s" "accounted (q # rest @ fl) s"
  using assms(1) same_txn_facts [OF assms(2)]
  by (auto simp: accounted_def algebra_simps split: if_splits)

lemma trySend_inv:
  assumes t: "trySendTimingReq (port_peer ok q) now edge s fl = Inr (s', fl')"
    and ev: "sendEvent s = None" and q: "same_txn (hd (transmitList s)) q"
    and acc: "accounted (transmitList s @ fl) s"
  shows "dma_inv s' fl'"
proof -
  obtain p rest where pr: "transmitList s = p # rest"
    using t by (cases "transmitList s") (simp_all add: trySendTimingReq_def)
  have a: "accounted (rest @ fl @ [q]) s" "accounted (q # rest @ fl) s"
    using accounted_move [of p rest fl s q] acc q pr by simp_all
  show ?thesis
  proof (cases ok)
    case True
    then show ?thesis using t a(1) pr ev
      by (auto simp: trySendTimingReq_def port_peer_def Let_def dma_inv_def send_ok_def split: if_splits)
  next
    case False
    then show ?thesis using t a(2) pr ev
      by (auto simp: trySendTimingReq_def port_peer_def dma_inv_def send_ok_def)
  qed
qed

lemma accountedD:
  assumes "accounted ps s"
  shows "z \<in> set ps \<Longrightarrow> dma_pkt_ok z"
    "z \<in> set ps \<Longrightarrow> \<exists>j t. pkt_ref z = Some j \<and> reqStates s j = Some t"
    "reqStates s j = Some t \<Longrightarrow> j < nextState_ref s"
    "reqStates s j = Some t \<Longrightarrow> 0 < bytes_of j ps"
    "reqStates s j = Some t \<Longrightarrow> unat (numBytes t) + bytes_of j ps = unat (totBytes t)"
    "pendingCount s = of_nat (length ps)"
  using assms unfolding accounted_def by blast+

lemma resp_counts:
  assumes acc: "accounted (xs @ p # ys) s" and q: "same_txn p q"
  obtains i st l where "senderState q = DmaReqState i # l" "reqStates s i = Some st" "pkt_ref p = Some i"
    "rq_getSize (pk_req q) = Inr (rq_size (pk_req p))"
    "unat (numBytes st + of_int (rq_size (pk_req p))) = unat (numBytes st) + pkt_bytes p"
    "numBytes st + of_int (rq_size (pk_req p)) \<le> totBytes st"
    "(totBytes st = numBytes st + of_int (rq_size (pk_req p))) = (bytes_of i (xs @ ys) = 0)"
proof -
  obtain i st where i: "pkt_ref p = Some i" "reqStates s i = Some st" and ok: "dma_pkt_ok p"
    using accountedD(1,2) [OF acc, of p] by auto
  have b: "unat (numBytes st) + (pkt_bytes p + bytes_of i (xs @ ys)) = unat (totBytes st)"
    using accountedD(5) [OF acc i(2)] i(1) by simp
  let ?n = "of_int (rq_size (pk_req p)) :: u64"
  have lt: "unat (totBytes st) < 2 ^ 64" using unsigned_less [of "totBytes st", where 'a = nat] by simp
  have "nat (rq_size (pk_req p)) < 2 ^ 64" using b lt by (simp add: pkt_bytes_def)
  then have "rq_size (pk_req p) < 2 ^ 64" by (simp add: nat_less_iff)
  then have n: "unat ?n = pkt_bytes p"
    using ok by (simp add: pkt_bytes_def dma_pkt_ok_def unat_of_int_small)
  have u: "unat (numBytes st + ?n) = unat (numBytes st) + pkt_bytes p"
  proof -
    have "unat (numBytes st) + unat ?n < 2 ^ 64" using n b lt by linarith
    then show ?thesis by (simp add: unat_word_ariths(1) n)
  qed
  have "numBytes st + ?n \<le> totBytes st"
    unfolding word_le_nat_alt u using b by linarith
  moreover have "(totBytes st = numBytes st + ?n) = (bytes_of i (xs @ ys) = 0)"
    unfolding word_unat_eq_iff u using b by linarith
  moreover obtain l where "senderState q = DmaReqState i # l"
    using i(1) q by (auto simp: pkt_ref_def same_txn_def split: list.splits sender_state.splits)
  moreover have "rq_getSize (pk_req q) = Inr (rq_size (pk_req p))"
    using ok q by (simp add: same_txn_def dma_pkt_ok_def rq_getSize_def hasSize_def)
  ultimately show thesis using i u by (intro that)
qed

text \<open>After a response, the remaining packets are accounted for.\<close>

lemma accounted_shrink:
  assumes acc: "accounted (xs @ p # ys) s" and i: "pkt_ref p = Some i" "reqStates s i = Some st"
    and n: "unat nb = unat (numBytes st) + pkt_bytes p"
    and r: "reqStates s' = (if bytes_of i (xs @ ys) = 0 then (reqStates s)(i := None)
        else (reqStates s)(i \<mapsto> st\<lparr>numBytes := nb\<rparr>))"
    and f: "nextState_ref s' = nextState_ref s" "pendingCount s' = pendingCount s - 1"
  shows "accounted (xs @ ys) s'"
proof -
  have ok: "dma_pkt_ok z" if "z \<in> set (xs @ ys)" for z
    using accountedD(1) [OF acc, of z] that by auto
  have live: "\<exists>j t. pkt_ref z = Some j \<and> reqStates s' j = Some t" if z: "z \<in> set (xs @ ys)" for z
  proof -
    obtain j t where j: "pkt_ref z = Some j" "reqStates s j = Some t"
      using accountedD(2) [OF acc, of z] z by auto
    have "bytes_of i (xs @ ys) \<noteq> 0" if "j = i"
      using bytes_of_pos [OF z ok [OF z], of i] j(1) that by simp
    then show ?thesis using j r by auto
  qed
  have st: "j < nextState_ref s' \<and> 0 < bytes_of j (xs @ ys) \<and>
      unat (numBytes t) + bytes_of j (xs @ ys) = unat (totBytes t)" if j: "reqStates s' j = Some t" for j t
  proof (cases "j = i")
    case True
    then show ?thesis using j r f(1) n accountedD(3,5) [OF acc i(2)] i(1) by (auto split: if_splits)
  next
    case False
    then have "reqStates s j = Some t" using j r by (simp split: if_splits)
    then show ?thesis using accountedD(3,4,5) [OF acc, of j t] False i(1) f(1) by simp
  qed
  have "pendingCount s' = of_nat (length (xs @ ys))"
    using accountedD(6) [OF acc] f(2) by simp
  then show ?thesis unfolding accounted_def using ok live st by blast
qed

text \<open>What a response does: either its action goes on, or its event is scheduled and its state gone.\<close>

definition after_resp :: "Tick \<Rightarrow> Tick \<Rightarrow> nat \<Rightarrow> dma_req_state \<Rightarrow> bool \<Rightarrow> dma_port \<Rightarrow> dma_port res" where
  "after_resp now delay i st lst s =
     bindR (if lst then finish_action now delay i st (s\<lparr>pendingCount := pendingCount s - 1\<rparr>)
            else Inr (s\<lparr>pendingCount := pendingCount s - 1, reqStates := (reqStates s)(i \<mapsto> st)\<rparr>))
       (\<lambda>s'. Inr (signal_drain s'))"

lemma handleResp_eq:
  assumes acc: "accounted (xs @ p # ys) s" and q: "same_txn p q" "isResponse q" and pc: "pendingCount s \<noteq> 0"
  obtains i st nb where "pkt_ref p = Some i" "reqStates s i = Some st"
    "unat nb = unat (numBytes st) + pkt_bytes p"
    "handleResp h stale now s dev q delay =
       bindR (after_resp now delay i (st\<lparr>numBytes := nb\<rparr>) (bytes_of i (xs @ ys) = 0) s) (\<lambda>s'.
         bindR (case h of None \<Rightarrow> Inr dev
                | Some h \<Rightarrow> h dev q (bytes_of i (xs @ ys) = 0)
                    (if bytes_of i (xs @ ys) = 0 then stale else transaction_id st))
           (\<lambda>dev'. Inr (s', dev')))"
proof -
  obtain i st l where i: "senderState q = DmaReqState i # l" "reqStates s i = Some st" "pkt_ref p = Some i"
    "rq_getSize (pk_req q) = Inr (rq_size (pk_req p))"
    "unat (numBytes st + of_int (rq_size (pk_req p))) = unat (numBytes st) + pkt_bytes p"
    "numBytes st + of_int (rq_size (pk_req p)) \<le> totBytes st"
    "(totBytes st = numBytes st + of_int (rq_size (pk_req p))) = (bytes_of i (xs @ ys) = 0)"
    by (rule resp_counts [OF acc q(1)])
  show thesis
    by (rule that [OF i(3,2,5)])
      (use i q(2) pc in \<open>simp add: handleResp_def after_resp_def Let_def bindR_assoc cong: option.case_cong del: bytes_of_simps\<close>)
qed


lemma signal_drain_sel [simp]:
  "transmitList (signal_drain s) = transmitList s" "inRetry (signal_drain s) = inRetry s"
  "sendEvent (signal_drain s) = sendEvent s" "pendingCount (signal_drain s) = pendingCount s"
  "reqStates (signal_drain s) = reqStates s" "nextState_ref (signal_drain s) = nextState_ref s"
  "doneEvents (signal_drain s) = doneEvents s" "dma_masterId (signal_drain s) = dma_masterId s"
  by (simp_all add: signal_drain_def)

lemma after_resp_sel:
  assumes "after_resp now delay i st lst s = Inr s'"
  shows "transmitList s' = transmitList s" "inRetry s' = inRetry s" "sendEvent s' = sendEvent s"
    "pendingCount s' = pendingCount s - 1" "nextState_ref s' = nextState_ref s"
    "dma_masterId s' = dma_masterId s"
    "reqStates s' = (if lst then (reqStates s)(i := None) else (reqStates s)(i \<mapsto> st))"
    "doneEvents s' = doneEvents s @
      (case (lst, completionEvent st) of (True, Some e) \<Rightarrow> [(e, now + (delay + st_delay st))] | _ \<Rightarrow> [])"
  using assms
  by (auto simp: after_resp_def finish_action_def schedule_done_def split: if_splits option.splits)

lemma handleResp_inv:
  assumes acc: "accounted (xs @ p # ys) s" and q: "same_txn p q"
    and r: "handleResp h stale now s (dev :: 'd) q delay = Inr (s', dev')"
  shows "accounted (xs @ ys) s'" "transmitList s' = transmitList s" "inRetry s' = inRetry s"
    "sendEvent s' = sendEvent s"
proof -
  have qr: "isResponse q" "pendingCount s \<noteq> 0"
    using r by (auto simp: handleResp_def split: list.splits sender_state.splits option.splits)
  obtain i st nb where i: "pkt_ref p = Some i" "reqStates s i = Some st"
    "unat nb = unat (numBytes st) + pkt_bytes p"
    and eq: "handleResp h stale now s dev q delay =
       bindR (after_resp now delay i (st\<lparr>numBytes := nb\<rparr>) (bytes_of i (xs @ ys) = 0) s) (\<lambda>s'.
         bindR (case h of None \<Rightarrow> Inr dev
                | Some h \<Rightarrow> h dev q (bytes_of i (xs @ ys) = 0)
                    (if bytes_of i (xs @ ys) = 0 then stale else transaction_id st))
           (\<lambda>dev'. Inr (s', dev')))"
    by (rule handleResp_eq [OF acc q qr])
  have a: "after_resp now delay i (st\<lparr>numBytes := nb\<rparr>) (bytes_of i (xs @ ys) = 0) s = Inr s'"
    using r unfolding eq by (auto simp del: bytes_of_simps)
  note sel = after_resp_sel [OF a]
  show "accounted (xs @ ys) s'" by (rule accounted_shrink [OF acc i sel(7,5,4)])
  show "transmitList s' = transmitList s" "inRetry s' = inRetry s" "sendEvent s' = sendEvent s"
    by (rule sel)+
qed

lemma queue_action_inv:
  assumes r: "queue_action tid now line cmd a sz event data delay flag s = Inr s'" and sz: "0 < sz" "sz < 2 ^ 31"
    and acc: "accounted (transmitList s @ fl) s"
  shows "accounted (transmitList s' @ fl) s'" "transmitList s' \<noteq> []"
    "\<exists>ps. transmitList s' = transmitList s @ ps" "inRetry s' = inRetry s" "sendEvent s' = sendEvent s"
proof -
  have line: "line = 0 \<or> isPowerOf2 line" using r by (auto simp: queue_action_def ChunkGenerator_def)
  let ?i = "nextState_ref s"
  obtain ps where s': "s' = (new_state \<lparr>completionEvent = event, totBytes = of_int sz, numBytes = 0, st_delay = delay,
          transaction_id = tid\<rparr> s)\<lparr>transmitList := transmitList s @ ps,
            pendingCount := pendingCount s + of_nat (length ps)\<rparr>"
    and b: "bytes_of ?i ps = nat sz" and ok: "\<forall>p \<in> set ps. dma_pkt_ok p \<and> pkt_ref p = Some ?i"
    by (rule queue_action_ok [OF sz line, of a s now cmd flag data tid event delay]) (use r in simp)
  have old: "j < ?i" if "p \<in> set (transmitList s @ fl)" "pkt_ref p = Some j" for p j
    using accountedD(2,3) [OF acc] that by fastforce
  have z: "bytes_of ?i (transmitList s @ fl) = 0" by (rule bytes_of_zero) (use old in blast)
  have zj: "bytes_of j ps = 0" if "j \<noteq> ?i" for j using ok that by (intro bytes_of_zero) auto
  have tot: "unat (of_int sz :: u64) = nat sz" using sz by (intro unat_of_int_small) simp_all
  show "accounted (transmitList s' @ fl) s'"
    unfolding accounted_def
  proof (intro conjI ballI allI impI)
    fix p assume p: "p \<in> set (transmitList s' @ fl)"
    then have "p \<in> set ps \<or> p \<in> set (transmitList s @ fl)" by (auto simp: s')
    then show "dma_pkt_ok p" using ok accountedD(1) [OF acc] by blast
    from \<open>p \<in> set ps \<or> _\<close> obtain j where "pkt_ref p = Some j" "j = ?i \<or> reqStates s j \<noteq> None"
      using ok accountedD(2) [OF acc, of p] by blast
    then show "\<exists>i st. pkt_ref p = Some i \<and> reqStates s' i = Some st" by (auto simp: s' new_state_def)
  next
    fix i st assume i: "reqStates s' i = Some st"
    have "i < nextState_ref s' \<and> 0 < bytes_of i (transmitList s' @ fl) \<and>
      unat (numBytes st) + bytes_of i (transmitList s' @ fl) = unat (totBytes st)"
    proof (cases "i = ?i")
      case True
      then show ?thesis using i b z tot sz by (auto simp: s' new_state_def)
    next
      case False
      then have "reqStates s i = Some st" using i by (simp add: s' new_state_def)
      then show ?thesis using accountedD(3,4,5) [OF acc, of i st] zj [OF False] by (simp add: s' new_state_def)
    qed
    then show "i < nextState_ref s'" "0 < bytes_of i (transmitList s' @ fl)"
      "unat (numBytes st) + bytes_of i (transmitList s' @ fl) = unat (totBytes st)" by simp_all
  next
    show "pendingCount s' = of_nat (length (transmitList s' @ fl))"
      using accountedD(6) [OF acc] by (simp add: s' add_ac)
  qed
  show "transmitList s' \<noteq> []" using b sz by (auto simp: s')
  show "\<exists>ps. transmitList s' = transmitList s @ ps" "inRetry s' = inRetry s" "sendEvent s' = sendEvent s"
    by (simp_all add: s' new_state_def)
qed


lemma sendDma_timing_inv:
  assumes r: "sendDma_timing (port_peer ok q) now edge s fl = Inr (s', fl')"
    and q: "same_txn (hd (transmitList s)) q" and acc: "accounted (transmitList s @ fl) s"
    and ex: "\<not> (inRetry s \<and> sendEvent s \<noteq> None)"
  shows "dma_inv s' fl'"
proof (cases "inRetry s \<or> sendEvent s \<noteq> None")
  case True
  then show ?thesis using r acc ex by (auto simp: sendDma_timing_def dma_inv_def send_ok_def)
next
  case False
  then show ?thesis using r trySend_inv [OF _ _ q acc] by (auto simp: sendDma_timing_def)
qed

lemma dma_step_inv:
  "dma_step h stale x y \<Longrightarrow> dma_inv (fst x) (fst (snd x)) \<Longrightarrow> dma_inv (fst y) (fst (snd y))"
proof (induction rule: dma_step.induct)
  case (Action sz tid now line cmd a event data delay flag s s1 q ok edge fl s' fl' dev)
  then have inv: "dma_inv s fl" by simp
  then have acc: "accounted (transmitList s @ fl) s" by (simp add: dma_inv_def)
  note qa = queue_action_inv [OF Action(3,1,2) acc]
  have "dma_inv s' fl'"
    using sendDma_timing_inv [OF Action(5,4) qa(1)] inv qa(4,5) by (simp add: dma_inv_def send_ok_def)
  then show ?case by simp
next
  case (SendEvent s now q ok edge fl s' fl' dev)
  then have "dma_inv s fl" by simp
  then have "dma_inv s' fl'"
    using sendDma_timing_inv [OF SendEvent(3)] SendEvent(2) by (simp add: dma_inv_def send_ok_def)
  then show ?case by simp
next
  case (RecvRetry s q ok now edge fl s' fl' dev)
  then have inv: "dma_inv s fl" by simp
  then have ev: "sendEvent s = None" and acc: "accounted (transmitList s @ fl) s"
    using RecvRetry(1) by (auto simp: dma_inv_def send_ok_def)
  have "trySendTimingReq (port_peer ok q) now edge s fl = Inr (s', fl')"
    using RecvRetry(3) by (auto simp: dma_recvRetry_def)
  then have "dma_inv s' fl'" by (rule trySend_inv [OF _ ev RecvRetry(2) acc])
  then show ?case by simp
next
  case (Response p q now s dev b s' dev' xs ys)
  then have inv: "dma_inv s (xs @ p # ys)" by simp
  then have acc: "accounted ((transmitList s @ xs) @ p # ys) s" by (simp add: dma_inv_def)
  have r: "handleResp h stale now s dev q 0 = Inr (s', dev')"
    using Response(2) by (auto simp: dma_recvTimingResp_def)
  have "dma_inv s' (xs @ ys)"
    using handleResp_inv [OF acc Response(1) r] inv by (simp add: dma_inv_def send_ok_def)
  then show ?case by simp
next
  case (DoneEvent s xs e t ys fl dev)
  then have "dma_inv s fl" by simp
  then show ?case by (auto simp: dma_inv_def send_ok_def)
next
  case (DrainRequest s n s' fl dev)
  then have "dma_inv s fl" by simp
  then have "dma_inv s' fl" using DrainRequest(1)
    by (auto simp: dma_drain_def dma_inv_def send_ok_def split: if_splits)
  then show ?case by simp
qed

lemma dma_inv_init: "dma_inv (mkDmaPort mid) []"
  by (simp add: dma_inv_def accounted_def send_ok_def mkDmaPort_def)

lemma dma_reachable_inv:
  "dma_reachable h stale mid dev0 x \<Longrightarrow> dma_inv (fst x) (fst (snd x))"
proof (induction rule: dma_reachable.induct)
  case Init
  then show ?case by (simp add: dma_inv_init)
next
  case (Step x y)
  from dma_step_inv [OF Step(2) Step(3)] show ?case .
qed

text \<open>C15: in timing mode, whatever actions the device starts and in whatever order the peer accepts
  packets, asks for retries and returns responses, the port accounts for everything outstanding:
  \<open>pendingCount\<close> is the number of packets queued or in flight, each of them refers to a live
  action, the bytes acknowledged and outstanding of every live action add up to its size, and
  while packets are queued the port waits for either its send event or a retry, never neither
  and never both.\<close>

theorem dma_port_accounts:
  assumes "dma_reachable h stale mid dev0 (s, fl, dev)"
  shows "pendingCount s = of_nat (length (transmitList s) + length fl) \<and>
    (\<forall>p \<in> set (transmitList s @ fl). \<exists>i st. pkt_ref p = Some i \<and> reqStates s i = Some st) \<and>
    (\<forall>i st. reqStates s i = Some st \<longrightarrow>
       unat (numBytes st) + bytes_of i (transmitList s) + bytes_of i fl = unat (totBytes st) \<and>
       unat (numBytes st) < unat (totBytes st)) \<and>
    (transmitList s \<noteq> [] \<longleftrightarrow> inRetry s \<or> sendEvent s \<noteq> None) \<and> \<not> (inRetry s \<and> sendEvent s \<noteq> None)"
proof -
  have inv: "dma_inv s fl" using dma_reachable_inv [OF assms] by simp
  then have acc: "accounted (transmitList s @ fl) s" by (simp add: dma_inv_def)
  have b: "unat (numBytes st) + bytes_of i (transmitList s) + bytes_of i fl = unat (totBytes st) \<and>
     unat (numBytes st) < unat (totBytes st)" if "reqStates s i = Some st" for i st
    using accountedD(4,5) [OF acc that] by auto
  have t: "(transmitList s \<noteq> [] \<longleftrightarrow> inRetry s \<or> sendEvent s \<noteq> None) \<and> \<not> (inRetry s \<and> sendEvent s \<noteq> None)"
    using inv by (auto simp: dma_inv_def send_ok_def)
  have p: "\<forall>p \<in> set (transmitList s @ fl). \<exists>i st. pkt_ref p = Some i \<and> reqStates s i = Some st"
    using accountedD(2) [OF acc] by blast
  have "pendingCount s = of_nat (length (transmitList s) + length fl)"
    using accountedD(6) [OF acc] by simp
  then show ?thesis using b t p by (intro conjI allI impI) auto
qed

lemma after_resp_ok:
  assumes "completionEvent st = Some e" "e \<notin> fst ` set (doneEvents s)" "now \<le> now + st_delay st"
  shows "\<exists>s'. after_resp now 0 i st lst s = Inr s'"
  using assms by (cases lst) (simp_all add: after_resp_def finish_action_def schedule_done_def)

text \<open>In every reachable state, a response to any packet in flight is processed without an
  assertion failure (as long as its event can be scheduled), and the completion event of the action
  is scheduled, after the action's delay, exactly if no other packet of the action is outstanding;
  the state of the action is deleted at that moment and not before.\<close>

theorem dma_last_response_completes:
  assumes reach: "dma_reachable None stale mid dev0 (s, xs @ p # ys, dev)"
    and q: "same_txn p q" "isResponse q" "\<not> memInhibitAsserted q"
    and i: "pkt_ref p = Some i" "reqStates s i = Some st" "completionEvent st = Some e"
    and few: "length (transmitList s @ xs @ p # ys) < 2 ^ 32"
    and ev: "e \<notin> fst ` set (doneEvents s)" "now \<le> now + st_delay st"
  shows "\<exists>s'. dma_recvTimingResp None stale now s dev q = Inr (True, s', dev) \<and>
    (if bytes_of i (transmitList s @ xs @ ys) = 0
     then doneEvents s' = doneEvents s @ [(e, now + st_delay st)] \<and> reqStates s' i = None
     else doneEvents s' = doneEvents s \<and> reqStates s' i \<noteq> None)"
proof -
  have acc: "accounted ((transmitList s @ xs) @ p # ys) s"
    using dma_reachable_inv [OF reach] by (simp add: dma_inv_def)
  have "unat (pendingCount s) = length (transmitList s @ xs @ p # ys)"
    unfolding accountedD(6) [OF acc] using few by (simp add: unat_of_nat_small del: of_nat_add of_nat_Suc)
  then have pc: "pendingCount s \<noteq> 0" by auto
  let ?last = "bytes_of i ((transmitList s @ xs) @ ys) = 0"
  obtain j st' nb where j: "pkt_ref p = Some j" "reqStates s j = Some st'"
    and "unat nb = unat (numBytes st') + pkt_bytes p"
    and eq: "handleResp None stale now s dev q 0 =
       bindR (after_resp now 0 j (st'\<lparr>numBytes := nb\<rparr>) (bytes_of j ((transmitList s @ xs) @ ys) = 0) s) (\<lambda>s'.
         bindR (case None of None \<Rightarrow> Inr dev
                | Some h \<Rightarrow> h dev q (bytes_of j ((transmitList s @ xs) @ ys) = 0)
                    (if bytes_of j ((transmitList s @ xs) @ ys) = 0 then stale else transaction_id st'))
           (\<lambda>dev'. Inr (s', dev')))"
    by (rule handleResp_eq [OF acc q(1,2) pc])
  have ji: "j = i" "st' = st" using j i by auto
  obtain s' where s': "after_resp now 0 i (st\<lparr>numBytes := nb\<rparr>) ?last s = Inr s'"
    using after_resp_ok [of "st\<lparr>numBytes := nb\<rparr>" e s now i ?last] i(3) ev by auto
  have "dma_recvTimingResp None stale now s dev q = Inr (True, s', dev)"
    using eq s' q(3) unfolding ji by (simp add: dma_recvTimingResp_def)
  then show ?thesis using after_resp_sel(7,8) [OF s'] i(3) by (auto split: if_splits)
qed


text \<open>A read of four bytes in one packet, sent and then answered.\<close>

lemmas dma_eval_defs = queue_action_def ChunkGenerator_def isPowerOf2_def roundUp_def min_def
  chunks.simps gen_done_def gen_next_def gen_complete_def mkDmaPort_def new_state_def queueDma_def
  dma_packet_def dataStatic_def Request_phys_def setPhys_def Packet_new_def

lemma dma_example_action:
  "\<exists>s p. queue_action 0 0 64 ReadReq 0x40 4 (Some 7) (Some [0, 0, 0, 0]) 5 0 (mkDmaPort 1) = Inr s \<and>
     transmitList s = [p] \<and> pkt_ref p = Some 0 \<and> pk_cmd p = ReadReq \<and> \<not> memInhibitAsserted p \<and>
     inRetry s = False \<and> sendEvent s = None \<and> doneEvents s = [] \<and>
     (\<exists>st. reqStates s 0 = Some st \<and> completionEvent st = Some 7 \<and> st_delay st = 5)"
  by (simp add: dma_eval_defs Let_def packet_eval_defs pkt_ref_def)

lemma dma_example_sent:
  "\<exists>s p st. dma_reachable None 0 1 () (s, [p], ()) \<and> transmitList s = [] \<and> pkt_ref p = Some 0 \<and>
     pk_cmd p = ReadReq \<and> \<not> memInhibitAsserted p \<and> reqStates s 0 = Some st \<and>
     completionEvent st = Some 7 \<and> st_delay st = 5 \<and> doneEvents s = []"
proof -
  obtain s p st where s: "queue_action 0 0 64 ReadReq 0x40 4 (Some 7) (Some [0, 0, 0, 0]) 5 0 (mkDmaPort 1) = Inr s"
    "transmitList s = [p]" "\<not> inRetry s" "sendEvent s = None"
    and p: "pkt_ref p = Some 0" "pk_cmd p = ReadReq" "\<not> memInhibitAsserted p" "doneEvents s = []"
    "reqStates s 0 = Some st" "completionEvent st = Some 7" "st_delay st = 5"
    using dma_example_action by auto
  let ?s = "s\<lparr>inRetry := False, transmitList := []\<rparr>"
  have "sendDma_timing (port_peer True p) 0 0 s [] = Inr (?s, [p])"
    using s by (simp add: sendDma_timing_def trySendTimingReq_def port_peer_def)
  then have "dma_step None 0 (mkDmaPort 1, [], ()) (?s, [p], ())"
    by (rule dma_step.Action [OF _ _ s(1), rotated 3]) (simp_all add: s(2) same_txn_def)
  then have "dma_reachable None 0 1 () (?s, [p], ())" by (rule dma_reachable.Step [OF dma_reachable.Init])
  then show ?thesis using p by (intro exI [of _ ?s] exI [of _ p] exI [of _ st]) simp
qed

theorem dma_port_accounts_witness:
  "\<exists>s p. dma_reachable None 0 1 () (s, [p], ()) \<and> pendingCount s = 1 \<and> \<not> inRetry s \<and> sendEvent s = None"
proof -
  obtain s p st where s: "dma_reachable None 0 1 () (s, [p], ())" "transmitList s = []" "reqStates s 0 = Some st"
    using dma_example_sent by blast
  from dma_port_accounts [OF s(1)] s(2,3) have "pendingCount s = 1" "\<not> inRetry s" "sendEvent s = None" by auto
  then show ?thesis using s(1) by blast
qed

theorem dma_last_response_completes_witness:
  "\<exists>s p q s'. dma_reachable None 0 1 () (s, [p], ()) \<and> makeResponse p = Inr q \<and>
     dma_recvTimingResp None 0 100 s () q = Inr (True, s', ()) \<and> doneEvents s' = [(7, 105)] \<and>
     reqStates s' 0 = None"
proof -
  obtain s p st where s: "dma_reachable None 0 1 () (s, [p], ())" "transmitList s = []" "pkt_ref p = Some 0"
    "pk_cmd p = ReadReq" "\<not> memInhibitAsserted p" "reqStates s 0 = Some st"
    "completionEvent st = Some 7" "st_delay st = 5" "doneEvents s = []"
    using dma_example_sent by blast
  obtain q where q: "makeResponse p = Inr q"
    using s(4) by (simp add: makeResponse_def pkt_test_defs cmd_defs)
  have "same_txn p q" "isResponse q" "\<not> memInhibitAsserted q"
    using q s(4,5) by (auto simp: makeResponse_def same_txn_def pkt_test_defs cmd_defs memInhibitAsserted_def
        fl_isSet_clear_other pkt_flag_defs fl_defs and.assoc)
  then show ?thesis
    using dma_last_response_completes [of 0 1 "()" s "[]" p "[]" "()" q 0 st 7 100] s q by auto
qed

section \<open>The port in atomic mode\<close>

lemma tiles_ConsD:
  assumes "tiles a tot c n (g # gs)"
  shows "unat (gen_complete g) = n" "n + unat (curSize g) \<le> tot" "tiles a tot c (n + unat (curSize g)) gs"
    "curAddr g = a + of_nat n" "curSize g \<noteq> 0"
proof -
  let ?f = "\<lambda>g. [unat (gen_complete g)..<unat (gen_complete g) + unat (curSize g)]"
  have nz: "0 < unat (curSize g)" using assms by (simp add: tiles_def unat_gt_0)
  have eq: "?f g @ concat (map ?f gs) = [n..<tot]" using assms by (simp add: tiles_def)
  then have "n < tot" using nz by (cases "n < tot") auto
  have hd: "unat (gen_complete g) = n" using eq nz \<open>n < tot\<close> by (simp add: upt_conv_Cons)
  then show "unat (gen_complete g) = n" .
  have "length (?f g @ concat (map ?f gs)) = tot - n" unfolding eq by simp
  then have le: "n + unat (curSize g) \<le> tot" using \<open>n < tot\<close> by simp
  then show "n + unat (curSize g) \<le> tot" .
  have "concat (map ?f gs) = drop (unat (curSize g)) [n..<tot]"
    using eq [symmetric] hd by simp
  then have "concat (map ?f gs) = [n + unat (curSize g)..<tot]" by simp
  then show "tiles a tot c (n + unat (curSize g)) gs" using assms by (auto simp: tiles_def)
  show "curSize g \<noteq> 0" using assms by (simp add: tiles_def)
  have "curAddr g = a + of_nat (unat (gen_complete g))" using assms by (simp add: tiles_def)
  then show "curAddr g = a + of_nat n" by (simp only: hd)
qed

lemma store_at_append:
  assumes "length (xs @ ys) < 2 ^ 64"
  shows "store_at (store_at v b xs) (b + of_nat (length xs)) ys = store_at v b (xs @ ys)"
proof
  fix x
  let ?u = "unat (x - b)"
  have "unat (of_nat (length xs) :: u64) = length xs" using assms by (intro unat_of_nat_small) simp
  then have sub: "unat (x - (b + of_nat (length xs))) =
      (if length xs \<le> ?u then ?u - length xs else ?u + 2 ^ 64 - length xs)"
    using unat_sub_if' [of "x - b" "of_nat (length xs)"] by (simp add: diff_diff_eq)
  show "store_at (store_at v b xs) (b + of_nat (length xs)) ys x = store_at v b (xs @ ys) x"
    using assms by (auto simp: store_at_def sub nth_append)
qed

lemma bytes_at_drop:
  "bytes_at v a bs \<Longrightarrow> n \<le> length bs \<Longrightarrow> bytes_at v (a + of_nat n) (take k (drop n bs))"
  by (auto simp: bytes_at_def add.assoc of_nat_add [symmetric] simp del: of_nat_add)


text \<open>Between actions in atomic mode nothing is outstanding.\<close>

definition dma_idle :: "dma_port \<Rightarrow> bool" where
  "dma_idle s \<longleftrightarrow> transmitList s = [] \<and> accounted [] s"

lemma dma_idle_iff: "dma_idle s \<longleftrightarrow> transmitList s = [] \<and> reqStates s = (\<lambda>_. None) \<and> pendingCount s = 0"
  by (auto simp: dma_idle_def accounted_def)

text \<open>
  The packets of one action: what is left of it from offset \<open>n\<close> on. Its state is live while
  there are packets, and its event can be scheduled.
\<close>

definition action_left :: "nat \<Rightarrow> dma_req_state \<Rightarrow> packet list \<Rightarrow> dma_port \<Rightarrow> bool" where
  "action_left i st ps s \<longleftrightarrow> accounted ps s \<and> length ps < 2 ^ 32 \<and> (\<forall>p \<in> set ps. pkt_ref p = Some i) \<and>
     (ps \<noteq> [] \<longrightarrow> (\<exists>nb. reqStates s i = Some (st\<lparr>numBytes := nb\<rparr>)))"

text \<open>One response in atomic mode; only the last one schedules the event of the action.\<close>

lemma handleResp_atomic:
  assumes l: "action_left i st (p # ps) s" and q: "same_txn p q" "isResponse q"
    and ev: "completionEvent st = Some e" "e \<notin> fst ` set (doneEvents s)" "now \<le> now + (lat + st_delay st)"
    and h: "case h of None \<Rightarrow> dev' = dev | Some f \<Rightarrow> (\<forall>b t. f dev q b t = Inr dev')"
  shows "\<exists>s'. handleResp h stale now (s\<lparr>transmitList := ps\<rparr>) dev q lat = Inr (s', dev') \<and>
    transmitList s' = ps \<and> action_left i st ps s' \<and>
    doneEvents s' = doneEvents s @ (if ps = [] then [(e, now + (lat + st_delay st))] else [])"
proof -
  let ?s = "s\<lparr>transmitList := ps\<rparr>"
  obtain nb where nb: "reqStates s i = Some (st\<lparr>numBytes := nb\<rparr>)" and refs: "\<forall>p \<in> set (p # ps). pkt_ref p = Some i"
    using l by (auto simp: action_left_def)
  have acc: "accounted ([] @ p # ps) ?s" and few: "length (p # ps) < 2 ^ 32" using l by (simp_all add: action_left_def)
  have "unat (pendingCount ?s) = length (p # ps)"
    unfolding accountedD(6) [OF acc] using few by (simp add: unat_of_nat_small del: of_nat_Suc)
  then have pc: "pendingCount ?s \<noteq> 0" by auto
  obtain j st' nb' where j: "pkt_ref p = Some j" "reqStates ?s j = Some st'" "unat nb' = unat (numBytes st') + pkt_bytes p"
    and eq: "handleResp h stale now ?s dev q lat =
       bindR (after_resp now lat j (st'\<lparr>numBytes := nb'\<rparr>) (bytes_of j ([] @ ps) = 0) ?s) (\<lambda>s'.
         bindR (case h of None \<Rightarrow> Inr dev
                | Some h \<Rightarrow> h dev q (bytes_of j ([] @ ps) = 0)
                    (if bytes_of j ([] @ ps) = 0 then stale else transaction_id st'))
           (\<lambda>dev'. Inr (s', dev')))"
    by (rule handleResp_eq [OF acc q pc])
  have ji: "j = i" "st'\<lparr>numBytes := nb'\<rparr> = st\<lparr>numBytes := nb'\<rparr>" using j(1,2) nb refs by auto
  have lst: "(bytes_of i ps = 0) = (ps = [])"
    using accountedD(1) [OF acc] refs bytes_of_pos [of "hd ps" ps i] by (cases ps) auto
  obtain s' where s': "after_resp now lat i (st\<lparr>numBytes := nb'\<rparr>) (ps = []) ?s = Inr s'"
    using ev by (cases ps) (simp_all add: after_resp_def finish_action_def schedule_done_def)
  note sel = after_resp_sel [OF s']
  have "accounted ([] @ ps) s'"
    by (rule accounted_shrink [OF acc j(1,2,3)]) (use sel lst ji in simp_all)
  then have "action_left i st ps s'" using l sel(7) by (auto simp: action_left_def)
  moreover have "handleResp h stale now ?s dev q lat = Inr (s', dev')"
    using eq s' h unfolding ji by (auto simp: lst split: option.splits)
  ultimately show ?thesis using sel(1,8) ev(1) by auto
qed

lemma tiles_NilD: "tiles a tot c n [] \<Longrightarrow> tot \<le> n"
  by (auto simp: tiles_def eq_commute [of "[]"])

lemma dma_packet_plain:
  assumes g: "tiles a tot c n (g # gs)" and p: "dma_packet mid now cmd flag (Some d) i g = Inr p"
    and d: "length d = tot" "tot < 2 ^ 31" "unat a + tot \<le> 2 ^ 64" and f: "\<not> fl_isSet flag INST_FETCH"
  shows "plain_request cmd p (take (unat (curSize g)) (drop n d))" "pk_addr p = a + of_nat n"
proof -
  note t = tiles_ConsD [OF g]
  have sm: "unat (curSize g) < 2 ^ 31" using t(2) d(2) by linarith
  have nz: "0 < unat (curSize g)" using t(5) by (simp add: unat_gt_0)
  obtain p' where p': "dma_packet mid now cmd flag (Some d) i g = Inr p'" "hasPaddr (pk_req p')" "rq_flags (pk_req p') = flag"
    "pk_addr p' = curAddr g" "pk_size p' = curSize g" "pk_cmd p' = cmd" "ATOMIC_HMC_COMMAND p' = 0" "\<not> memInhibitAsserted p'" "wf_packet p'"
    "getPtr p' = Inr (take (unat (curSize g)) (drop (unat (gen_complete g)) d))"
    using dma_packet_ok [OF sm, of mid now cmd flag "Some d" i] by metis
  have "unat (a + of_nat n) = unat a + n" using d(3) t(2) nz by (intro unat_add_of_nat) linarith
  then have "payload_ok p' (take (unat (curSize g)) (drop n d))"
    using p' t d nz by (auto simp: payload_ok_def min_def)
  then show "plain_request cmd p (take (unat (curSize g)) (drop n d))" "pk_addr p = a + of_nat n"
    using p p' t f by (simp_all add: plain_request_def rq_isInstFetch_def)
qed

text \<open>The memory has all \<open>n\<close> bytes from \<open>a\<close> on.\<close>

definition backed :: "(Addr \<Rightarrow> byte option) \<Rightarrow> Addr \<Rightarrow> nat \<Rightarrow> bool" where
  "backed v a n \<longleftrightarrow> (\<forall>k < n. v (a + of_nat k) \<noteq> None)"

lemma backed_store: "backed v a n \<Longrightarrow> backed (store_at v b bs) a n"
  by (auto simp: backed_def store_at_def)

lemma backed_bytes:
  assumes "backed v a tot" "n + k \<le> tot"
  shows "\<exists>bs. bytes_at v (a + of_nat n) bs \<and> length bs = k"
proof -
  have "v (a + of_nat n + of_nat j) \<noteq> None" if "j < k" for j
    using assms that unfolding backed_def by (metis add.assoc add_less_cancel_left of_nat_add order_less_le_trans)
  then have "bytes_at v (a + of_nat n) (map (\<lambda>j. the (v (a + of_nat n + of_nat j))) [0..<k])"
    by (auto simp: bytes_at_def)
  then show ?thesis by (intro exI conjI) (assumption, simp)
qed

lemma bytes_at_backed: "bytes_at v a bs \<Longrightarrow> backed v a (length bs)"
  by (simp add: bytes_at_def backed_def)

context atomic_memory
begin

lemma send_atomic_write:
  assumes "list_all2 (\<lambda>g p. dma_packet mid now WriteReq flag (Some d) i g = Inr p) gs ps"
    and "tiles a tot c n gs" "length d = tot" "tot < 2 ^ 31" "unat a + tot \<le> 2 ^ 64" "\<not> fl_isSet flag INST_FETCH"
    and "inv m" "backed (view m) a tot"
    and "action_left i st ps s" "completionEvent st = Some e" "e \<notin> fst ` set (doneEvents s)"
      "now \<le> now + (lat m + st_delay st)"
  shows "\<exists>s' m'. send_atomic None stale aacc now ps s dev m = Inr (s', dev, m') \<and> inv m' \<and>
    view m' = store_at (view m) (a + of_nat n) (drop n d) \<and> lat m' = lat m \<and> action_left i st [] s' \<and>
    (ps = [] \<longrightarrow> s' = s) \<and>
    (ps \<noteq> [] \<longrightarrow> transmitList s' = [] \<and> doneEvents s' = doneEvents s @ [(e, now + (lat m + st_delay st))])"
  using assms
proof (induction arbitrary: n m s rule: list_all2_induct)
  case Nil
  then have "tot \<le> n" by (intro tiles_NilD)
  then show ?case using Nil by (auto simp: store_at_def)
next
  case (Cons g gs p ps)
  note pl = dma_packet_plain [OF Cons.prems(1) Cons.hyps(1) Cons.prems(2-5)]
  note t = tiles_ConsD [OF Cons.prems(1)]
  let ?k = "unat (curSize g)" and ?d = "take (unat (curSize g)) (drop n d)"
  have ld: "length ?d = ?k" using Cons.prems(2) t(2) by simp
  obtain old where "bytes_at (view m) (pk_addr p) old" "length old = length ?d"
    using backed_bytes [OF Cons.prems(7) t(2)] ld pl(2) by auto
  then obtain q m1 where m1: "aacc m p = Inr (lat m, q, m1)" "isResponse q" "same_txn p q" "inv m1"
    "view m1 = store_at (view m) (a + of_nat n) ?d" "lat m1 = lat m"
    using atomic_write_law [OF Cons.prems(6) pl(1)] pl(2) by metis
  obtain s1 where s1: "handleResp None stale now (s\<lparr>transmitList := ps\<rparr>) dev q (lat m) = Inr (s1, dev)"
    "transmitList s1 = ps" "action_left i st ps s1"
    "doneEvents s1 = doneEvents s @ (if ps = [] then [(e, now + (lat m + st_delay st))] else [])"
    using handleResp_atomic [OF Cons.prems(8) m1(3,2) Cons.prems(9-11), where h = None and dev = dev and dev' = dev and stale = stale] by auto
  have dn: "drop n d = ?d @ drop (n + ?k) d" using append_take_drop_id [of ?k "drop n d"] by (simp add: add.commute)
  have "length (?d @ drop (n + ?k) d) < 2 ^ 64" unfolding dn [symmetric] using Cons.prems(2,3) by simp
  then have st: "store_at (store_at (view m) (a + of_nat n) ?d) (a + of_nat (n + ?k)) (drop (n + ?k) d)
      = store_at (view m) (a + of_nat n) (drop n d)"
    using store_at_append [of ?d "drop (n + ?k) d" "view m" "a + of_nat n"] ld dn by (simp add: add.assoc)
  show ?case
  proof (cases ps)
    case Nil
    then have "gs = []" using Cons.hyps(2) by simp
    then have "tot \<le> n + ?k" using t(3) by (intro tiles_NilD) simp
    then have "view m1 = store_at (view m) (a + of_nat n) (drop n d)" using m1(5) Cons.prems(2) by simp
    then show ?thesis using Nil m1 s1 by simp
  next
    case (Cons p2 ps2)
    then have "e \<notin> fst ` set (doneEvents s1)" using s1(4) Cons.prems(10) by simp
    then obtain s2 m2 where "send_atomic None stale aacc now ps s1 dev m1 = Inr (s2, dev, m2)" "inv m2"
      "view m2 = store_at (view m1) (a + of_nat (n + ?k)) (drop (n + ?k) d)" "lat m2 = lat m1" "action_left i st [] s2"
      "transmitList s2 = []" "doneEvents s2 = doneEvents s1 @ [(e, now + (lat m1 + st_delay st))]"
      using Cons.IH [OF t(3) Cons.prems(2-5) m1(4) _ s1(3) Cons.prems(9)] backed_store [OF Cons.prems(7)]
        m1(5,6) Cons.prems(11) Cons by auto
    then show ?thesis using m1 s1 st Cons by simp
  qed
qed

end

text \<open>A device that collects the payloads of the responses it is shown.\<close>

definition collect :: "byte list \<Rightarrow> packet \<Rightarrow> bool \<Rightarrow> u32 \<Rightarrow> byte list res" where
  "collect buf q last_packet tid = bindR (getPtr q) (\<lambda>d. Inr (buf @ d))"

lemma length_le_bytes:
  "(\<forall>p \<in> set ps. dma_pkt_ok p \<and> pkt_ref p = Some i) \<Longrightarrow> length ps \<le> bytes_of i ps"
  by (induction ps) (auto simp: dma_pkt_ok_def pkt_bytes_def)

lemma queue_action_left:
  assumes sz: "0 < sz" "sz < 2 ^ 31" and line: "line = 0 \<or> isPowerOf2 line" and idle: "dma_idle s"
  obtains g ps s1 st where "queue_action tid now line cmd a sz event data delay flag s = Inr s1"
    "tiles a (nat sz) (unat line) 0 (chunks g)" "transmitList s1 = ps" "ps \<noteq> []" "doneEvents s1 = doneEvents s"
    "list_all2 (\<lambda>g p. dma_packet (dma_masterId s) now cmd flag data (nextState_ref s) g = Inr p) (chunks g) ps"
    "action_left (nextState_ref s) st ps s1" "completionEvent st = event" "st_delay st = delay"
proof -
  let ?st = "\<lparr>completionEvent = event, totBytes = of_int sz, numBytes = 0, st_delay = delay, transaction_id = tid\<rparr>"
  obtain g ps where g: "tiles a (nat sz) (unat line) 0 (chunks g)"
    "list_all2 (\<lambda>g p. dma_packet (dma_masterId s) now cmd flag data (nextState_ref s) g = Inr p) (chunks g) ps"
    and q: "queue_action tid now line cmd a sz event data delay flag s = Inr ((new_state ?st s)\<lparr>transmitList := transmitList s @ ps,
            pendingCount := pendingCount s + of_nat (length ps)\<rparr>)" (is "_ = Inr ?s1")
    and b: "bytes_of (nextState_ref s) ps = nat sz" "\<forall>p \<in> set ps. dma_pkt_ok p \<and> pkt_ref p = Some (nextState_ref s)"
    by (rule queue_action_ok [OF sz line])
  have tl: "transmitList s = []" using idle by (simp add: dma_idle_def)
  have "accounted (transmitList ?s1 @ []) ?s1"
    using queue_action_inv(1) [OF q sz, of "[]"] idle tl by (simp add: dma_idle_def)
  moreover have "length ps < 2 ^ 32" using length_le_bytes [OF b(2)] b(1) sz by simp
  moreover have "reqStates ?s1 (nextState_ref s) = Some (?st\<lparr>numBytes := 0\<rparr>)" by (simp add: new_state_def)
  ultimately have "action_left (nextState_ref s) ?st ps ?s1"
    using b(2) tl by (auto simp: action_left_def)
  moreover have "ps \<noteq> []" using b(1) sz by auto
  ultimately show thesis using g q tl by (intro that [of ?s1 g ps ?st]) (simp_all add: new_state_def)
qed

lemma action_left_idle: "action_left i st [] s \<Longrightarrow> transmitList s = [] \<Longrightarrow> dma_idle s"
  by (simp add: action_left_def dma_idle_def)

context atomic_memory
begin

lemma send_atomic_read:
  assumes "list_all2 (\<lambda>g p. dma_packet mid now ReadReq flag (Some d) i g = Inr p) gs ps"
    and "tiles a tot c n gs" "length d = tot" "tot < 2 ^ 31" "unat a + tot \<le> 2 ^ 64" "\<not> fl_isSet flag INST_FETCH"
    and "inv m" "bytes_at (view m) a bs" "length bs = tot"
    and "action_left i st ps s" "completionEvent st = Some e" "e \<notin> fst ` set (doneEvents s)"
      "now \<le> now + (lat m + st_delay st)"
  shows "\<exists>s' m'. send_atomic (Some collect) stale aacc now ps s buf m = Inr (s', buf @ drop n bs, m') \<and> inv m' \<and>
    view m' = view m \<and> lat m' = lat m \<and> action_left i st [] s' \<and>
    (ps \<noteq> [] \<longrightarrow> transmitList s' = [] \<and> doneEvents s' = doneEvents s @ [(e, now + (lat m + st_delay st))])"
  using assms
proof (induction arbitrary: n m s buf rule: list_all2_induct)
  case Nil
  then have "tot \<le> n" by (intro tiles_NilD)
  then show ?case using Nil by simp
next
  case (Cons g gs p ps)
  note pl = dma_packet_plain [OF Cons.prems(1) Cons.hyps(1) Cons.prems(2-5)]
  note t = tiles_ConsD [OF Cons.prems(1)]
  let ?k = "unat (curSize g)" and ?d = "take (unat (curSize g)) (drop n d)" and ?b = "take (unat (curSize g)) (drop n bs)"
  have ld: "length ?b = length ?d" using Cons.prems(2,8) by simp
  have "bytes_at (view m) (pk_addr p) ?b"
    unfolding pl(2) using Cons.prems(7,8) t(2) by (intro bytes_at_drop) simp_all
  then obtain q m1 where m1: "aacc m p = Inr (lat m, q, m1)" "isResponse q" "same_txn p q" "inv m1"
    "view m1 = view m" "lat m1 = lat m" "getPtr q = Inr ?b"
    using atomic_read_law [OF Cons.prems(6) pl(1) _ ld] by metis
  obtain s1 where s1: "handleResp (Some collect) stale now (s\<lparr>transmitList := ps\<rparr>) buf q (lat m) = Inr (s1, buf @ ?b)"
    "transmitList s1 = ps" "action_left i st ps s1"
    "doneEvents s1 = doneEvents s @ (if ps = [] then [(e, now + (lat m + st_delay st))] else [])"
    using handleResp_atomic [OF Cons.prems(9) m1(3,2) Cons.prems(10-12),
        where h = "Some collect" and dev = buf and dev' = "buf @ ?b" and stale = stale] m1(7)
    by (auto simp: collect_def)
  have dn: "?b @ drop (n + ?k) bs = drop n bs"
    using append_take_drop_id [of ?k "drop n bs"] by (simp add: add.commute)
  show ?case
  proof (cases ps)
    case Nil
    then have "gs = []" using Cons.hyps(2) by simp
    then have "tot \<le> n + ?k" using t(3) by (intro tiles_NilD) simp
    then have "?b = drop n bs" using Cons.prems(8) by simp
    then show ?thesis using Nil m1 s1 by simp
  next
    case (Cons p2 ps2)
    then have "e \<notin> fst ` set (doneEvents s1)" using s1(4) Cons.prems(11) by simp
    then obtain s2 m2 where "send_atomic (Some collect) stale aacc now ps s1 (buf @ ?b) m1 = Inr (s2, (buf @ ?b) @ drop (n + ?k) bs, m2)"
      "inv m2" "view m2 = view m1" "lat m2 = lat m1" "action_left i st [] s2"
      "transmitList s2 = []" "doneEvents s2 = doneEvents s1 @ [(e, now + (lat m1 + st_delay st))]"
      using Cons.IH [OF t(3) Cons.prems(2-5) m1(4) _ Cons.prems(8) s1(3) Cons.prems(10), of "buf @ ?b"]
        m1(5,6) Cons.prems(7,12) Cons by auto
    then show ?thesis using m1 s1 dn Cons by simp
  qed
qed

lemma dma_write_atomic:
  assumes sz: "0 < sz" "sz < 2 ^ 31" and line: "line = 0 \<or> isPowerOf2 line" and idle: "dma_idle s"
    and d: "int (length d) = sz" "unat a + length d \<le> 2 ^ 64" and f: "\<not> fl_isSet flag INST_FETCH"
    and m: "inv m" "backed (view m) a (length d)"
    and ev: "e \<notin> fst ` set (doneEvents s)" "now \<le> now + (lat m + delay)"
  shows "\<exists>s' m'. dmaAction uninit AtomicMode None stale st aacc now edge line WriteReq a sz (Some e) (Some d) delay flag
      s dev m = Inr (s', dev, m') \<and> dma_idle s' \<and> inv m' \<and> lat m' = lat m \<and> view m' = store_at (view m) a d \<and>
    doneEvents s' = doneEvents s @ [(e, now + (lat m + delay))]"
proof -
  obtain g ps s1 rs where q: "queue_action uninit now line WriteReq a sz (Some e) (Some d) delay flag s = Inr s1"
    "tiles a (nat sz) (unat line) 0 (chunks g)" "transmitList s1 = ps" "ps \<noteq> []" "doneEvents s1 = doneEvents s"
    "list_all2 (\<lambda>g p. dma_packet (dma_masterId s) now WriteReq flag (Some d) (nextState_ref s) g = Inr p) (chunks g) ps"
    "action_left (nextState_ref s) rs ps s1" "completionEvent rs = Some e" "st_delay rs = delay"
    by (rule queue_action_left [OF sz line idle])
  have d': "length d = nat sz" "nat sz < 2 ^ 31" "unat a + nat sz \<le> 2 ^ 64" using d sz by auto
  show ?thesis
    using send_atomic_write [OF q(6,2) d' f m(1) _ q(7,8), of stale dev] d' q m(2) ev action_left_idle
    by (auto simp: dmaAction_def sendDma_def)
qed

lemma dma_read_atomic:
  assumes sz: "0 < sz" "sz < 2 ^ 31" and line: "line = 0 \<or> isPowerOf2 line" and idle: "dma_idle s"
    and d: "int (length d) = sz" "unat a + length d \<le> 2 ^ 64" and f: "\<not> fl_isSet flag INST_FETCH"
    and m: "inv m" "bytes_at (view m) a bs" "length bs = length d"
    and ev: "e \<notin> fst ` set (doneEvents s)" "now \<le> now + (lat m + delay)"
  shows "\<exists>s' m'. dmaAction uninit AtomicMode (Some collect) stale st aacc now edge line ReadReq a sz (Some e) (Some d) delay flag
      s buf m = Inr (s', buf @ bs, m') \<and> dma_idle s' \<and> inv m' \<and> lat m' = lat m \<and> view m' = view m \<and>
    doneEvents s' = doneEvents s @ [(e, now + (lat m + delay))]"
proof -
  obtain g ps s1 rs where q: "queue_action uninit now line ReadReq a sz (Some e) (Some d) delay flag s = Inr s1"
    "tiles a (nat sz) (unat line) 0 (chunks g)" "transmitList s1 = ps" "ps \<noteq> []" "doneEvents s1 = doneEvents s"
    "list_all2 (\<lambda>g p. dma_packet (dma_masterId s) now ReadReq flag (Some d) (nextState_ref s) g = Inr p) (chunks g) ps"
    "action_left (nextState_ref s) rs ps s1" "completionEvent rs = Some e" "st_delay rs = delay"
    by (rule queue_action_left [OF sz line idle])
  have d': "length d = nat sz" "nat sz < 2 ^ 31" "unat a + nat sz \<le> 2 ^ 64" "length bs = nat sz" using d sz m by auto
  show ?thesis
    using send_atomic_read [OF q(6,2) d'(1-3) f m(1,2) d'(4) q(7,8), of stale buf] q ev action_left_idle
    by (auto simp: dmaAction_def sendDma_def)
qed

end


text \<open>C13: in atomic mode against SimpleMemory, a DMA write followed by a DMA read of the same region gives
  back exactly the bytes written, and the write stores them and nothing else; each action runs to
  its end in one call, schedules its own completion event once, after the latency of the memory, and
  leaves nothing outstanding, for every region, size and cache line size.\<close>

theorem dma_atomic_write_read:
  assumes sz: "0 < sz" "sz < 2 ^ 31" and line: "line = 0 \<or> isPowerOf2 line" and idle: "dma_idle s"
    and d: "int (length d) = sz" "length d' = length d" "unat a + length d \<le> 2 ^ 64"
    and f: "\<not> fl_isSet flag INST_FETCH"
    and m: "sm_inv m" "backed (mem_view (sm_mem m)) a (length d)"
    and ev: "e \<notin> fst ` set (doneEvents s)" "e' \<notin> fst ` set (doneEvents s)" "e \<noteq> e'"
      "now \<le> now + (getLatency m rnd + delay)"
  shows "\<exists>s1 m1 s2 m2.
    dmaAction u AtomicMode None stale st (sm_recvAtomic rnd) now edge line WriteReq a sz (Some e) (Some d) delay flag
      s dev m = Inr (s1, dev, m1) \<and>
    dmaAction u AtomicMode (Some collect) stale st (sm_recvAtomic rnd) now edge line ReadReq a sz (Some e') (Some d') delay flag
      s1 [] m1 = Inr (s2, d, m2) \<and>
    mem_view (sm_mem m1) = store_at (mem_view (sm_mem m)) a d \<and> mem_view (sm_mem m2) = mem_view (sm_mem m1) \<and>
    dma_idle s2 \<and>
    doneEvents s2 = doneEvents s @ [(e, now + (getLatency m rnd + delay)), (e', now + (getLatency m rnd + delay))]"
proof -
  obtain s1 m1 where w: "dmaAction u AtomicMode None stale st (sm_recvAtomic rnd) now edge line WriteReq a sz (Some e) (Some d)
      delay flag s dev m = Inr (s1, dev, m1)" "dma_idle s1" "sm_inv m1" "getLatency m1 rnd = getLatency m rnd"
    "mem_view (sm_mem m1) = store_at (mem_view (sm_mem m)) a d"
    "doneEvents s1 = doneEvents s @ [(e, now + (getLatency m rnd + delay))]"
    using sm.dma_write_atomic [OF sz line idle d(1,3) f m ev(1,4), where uninit = u and stale = stale and st = st and edge = edge and dev = dev]
    by blast
  have r: "bytes_at (mem_view (sm_mem m1)) a d" "length d = length d'" "int (length d') = sz" "unat a + length d' \<le> 2 ^ 64"
    "e' \<notin> fst ` set (doneEvents s1)" "now \<le> now + (getLatency m1 rnd + delay)"
    using d ev bytes_at_store_at [of d "mem_view (sm_mem m)" a] by (auto simp: w(4,5,6))
  obtain s2 m2 where "dmaAction u AtomicMode (Some collect) stale st (sm_recvAtomic rnd) now edge line ReadReq a sz
      (Some e') (Some d') delay flag s1 [] m1 = Inr (s2, [] @ d, m2)" "dma_idle s2"
    "mem_view (sm_mem m2) = mem_view (sm_mem m1)"
    "doneEvents s2 = doneEvents s1 @ [(e', now + (getLatency m1 rnd + delay))]"
    using sm.dma_read_atomic [OF sz line w(2) r(3,4) f w(3) r(1,2,5,6), where uninit = u and stale = stale and st = st and
        edge = edge and buf = "[]"] by blast
  then show ?thesis using w by (intro exI [of _ s1] exI [of _ m1] exI [of _ s2] exI [of _ m2]) simp
qed

text \<open>Six bytes across an eight-byte line, in a fresh memory.\<close>

theorem dma_atomic_write_read_witness:
  "\<exists>s1 m1 s2 m2.
    dmaAction 0 AtomicMode None 0 (\<lambda>m p. Inr (True, p, m)) (sm_recvAtomic 0) 0 0 8 WriteReq 5 6 (Some 0) (Some [1,2,3,4,5,6]) 0 UNCACHEABLE
      (mkDmaPort 1) () example_sm = Inr (s1, (), m1) \<and>
    dmaAction 0 AtomicMode (Some collect) 0 (\<lambda>m p. Inr (True, p, m)) (sm_recvAtomic 0) 0 0 8 ReadReq 5 6 (Some 1) (Some [0,0,0,0,0,0]) 0
      UNCACHEABLE s1 [] m1 = Inr (s2, [1,2,3,4,5,6], m2)"
proof -
  have idle: "dma_idle (mkDmaPort 1)" by (simp add: dma_idle_iff mkDmaPort_def)
  have inv: "sm_inv example_sm"
    using example_mem_inv by (simp add: example_sm_def SimpleMemory_def sm_inv_def queue_ok_def)
  have "backed (mem_view example_mem) 5 6"
    using bytes_at_backed [OF example_mem_zero [of 5 6]] by simp
  then have b: "backed (mem_view (sm_mem example_sm)) 5 (length [1, 2, 3, 4, 5, 6 :: byte])"
    by (simp add: example_sm_def SimpleMemory_def eval_nat_numeral)
  have f: "\<not> fl_isSet UNCACHEABLE INST_FETCH" by (simp add: fl_defs rq_flag_defs)
  have line: "(8 :: u32) = 0 \<or> isPowerOf2 (8 :: u32)" by (simp add: isPowerOf2_def)
  have ev: "0 \<notin> fst ` set (doneEvents (mkDmaPort 1))" "1 \<notin> fst ` set (doneEvents (mkDmaPort 1))"
    by (simp_all add: mkDmaPort_def)
  have lat: "(0 :: Tick) \<le> 0 + (getLatency example_sm 0 + 0)" by simp
  show ?thesis
    using dma_atomic_write_read [OF _ _ line idle _ _ _ f inv b ev _ lat, where sz = 6 and d' = "[0,0,0,0,0,0]" and u = 0
        and stale = 0 and st = "\<lambda>m p. Inr (True, p, m)" and edge = 0 and dev = "()"] by (simp; blast)
qed

text \<open>The device is not told the transaction of the last response of an action: the identifier given
  to \<open>dmaAction_augmented\<close> reaches \<open>handle_packet\<close> for every response but the last, for which the port
  reads it from the state it has just deleted.\<close>

theorem dma_last_response_stale_id:
  "\<exists>s m. dmaAction_augmented 42 AtomicMode (Some (\<lambda>dev q l t. Inr (dev @ [(l, t)]))) stale
      (\<lambda>m p. Inr (True, p, m)) (sm_recvAtomic 0) 0 0 8 WriteReq 6 4 None (Some [1, 2, 3, 4]) 0 UNCACHEABLE
      (mkDmaPort 1) [] example_sm = Inr (s, [(False, 42), (True, stale)], m)"
  by (simp add: dmaAction_augmented_def dma_eval_defs Let_def packet_eval_defs sendDma_def handleResp_def
      finish_action_def signal_drain_def sm_defs sm_recvAtomic_def sm_access_def mem_eval_defs example_sm_def
      example_mem_def getLatency_def)

end
