(* ===== verification/EthzDMA.thy ===== *)
theory EthzDMA
  imports EthzTLB DmaPort
begin

text \<open>
  The DMA engine of the PIM device (\<open>dev/ethz_dma.hh\<close>, \<open>dev/ethz_dma.cc\<close> under
  \<open>src/SMC_original/GEM5/gem5/src\<close>), which copies between the vector registers and virtual memory:
  a queue of requests and a state machine that translates the next piece of a request and hands
  it to the DMA port.

  The requests that \<open>new DMARequest\<close> allocates live in \<open>rq_heap\<close>; the vector \<open>requests\<close> holds
  references to them. The device writes its status byte to the PIM memory, whose backing store is
  the field \<open>pim_mem\<close>; a pointer to a vector register is an offset into it. The processor is
  represented by whether its thread is suspended and whether an interrupt is posted. The data of a
  read reaches the vector registers through the packet's pointer when the memory serves it; the
  engine itself never looks at a payload, and only its bookkeeping is modelled here.
\<close>

section \<open>State\<close>

definition DMA_STATE_IDLE :: nat where "DMA_STATE_IDLE = 0"
definition DMA_STATE_TLBREFILL :: nat where "DMA_STATE_TLBREFILL = 1"
definition DMA_STATE_TRANSFER :: nat where "DMA_STATE_TRANSFER = 2"

lemmas dma_state_defs = DMA_STATE_IDLE_def DMA_STATE_TLBREFILL_def DMA_STATE_TRANSFER_def

record dma_request =
  vreg_ptr :: nat
  mem_vstart :: u64
  mem_vend :: u64
  dma_resource :: byte
  RW :: bool
  mem_pstart :: "u64 list"
  mem_pend :: "u64 list"
  bytes_expected :: u64
  bytes_completed :: u64
  issued :: bool

definition DMARequest :: "nat \<Rightarrow> u64 \<Rightarrow> u64 \<Rightarrow> bool \<Rightarrow> byte \<Rightarrow> dma_request" where
  "DMARequest vreg start num_bytes dir dma_res =
     \<lparr>vreg_ptr = vreg, mem_vstart = start, mem_vend = start + num_bytes - 1, dma_resource = dma_res,
      RW = dir, mem_pstart = [], mem_pend = [], bytes_expected = num_bytes, bytes_completed = 0,
      issued = False\<rparr>"

definition nextSubRequest :: "dma_request \<Rightarrow> u64 \<Rightarrow> (bool \<times> dma_request) res" where
  "nextSubRequest r vaddr =
     assertR (vaddr \<ge> mem_vstart r) ''vaddr>= mem_vstart''
       (if vaddr \<ge> mem_vend r then Inr (False, r)
        else let diff = vaddr - mem_vstart r in
          Inr (True, r\<lparr>mem_vstart := mem_vstart r + diff, vreg_ptr := vreg_ptr r + unat diff\<rparr>))"

record ethz_dma =
  requests :: "nat list"
  rq_heap :: "nat \<Rightarrow> dma_request option"
  rq_next :: nat
  current_index :: int
  isTimingMode :: bool
  clk_per_ps :: Tick
  current_state :: nat
  next_state_scheduled :: bool
  nextStateEvent :: "Tick option"
  dma_resources :: byte
  PIM_DMA_STATUS_ADDR :: u64
  dmaDoneEventFree :: "nat list"
  pim_mem :: abstract_mem
  cpu_suspended :: bool
  cpu_interrupt :: bool

text \<open>The constructor, with the pointers that \<open>ethz_PIMMemory::init\<close> sets afterwards.\<close>

definition mkEthzDMA :: "Tick \<Rightarrow> u64 \<Rightarrow> bool \<Rightarrow> abstract_mem \<Rightarrow> ethz_dma" where
  "mkEthzDMA clk status_addr timing pim =
     \<lparr>requests = [], rq_heap = (\<lambda>_. None), rq_next = 0, current_index = -1, isTimingMode = timing,
      clk_per_ps = clk, current_state = DMA_STATE_IDLE, next_state_scheduled = False, nextStateEvent = None,
      dma_resources = 0, PIM_DMA_STATUS_ADDR = status_addr, dmaDoneEventFree = [0..<16], pim_mem = pim,
      cpu_suspended = False, cpu_interrupt = False\<rparr>"

section \<open>The status register\<close>

definition write_mem_1byte :: "abstract_mem \<Rightarrow> u64 \<Rightarrow> byte \<Rightarrow> abstract_mem res" where
  "write_mem_1byte m a v =
     (case pmem m of
        None \<Rightarrow> Inl BadPtr
      | Some mem \<Rightarrow> bindR (ofOpt (write_bytes mem (unat (a - ar_start (am_range m))) [v]))
          (\<lambda>mem'. Inr (m\<lparr>pmem := Some mem'\<rparr>)))"

definition update_status_register :: "ethz_dma \<Rightarrow> ethz_dma res" where
  "update_status_register d =
     bindR (write_mem_1byte (pim_mem d) (PIM_DMA_STATUS_ADDR d) (dma_resources d)) (\<lambda>m. Inr (d\<lparr>pim_mem := m\<rparr>))"

definition postInterrupt :: "ethz_dma \<Rightarrow> ethz_dma" where
  "postInterrupt d = d\<lparr>cpu_interrupt := True, cpu_suspended := False\<rparr>"

definition wait_on_resource :: "ethz_dma \<Rightarrow> byte \<Rightarrow> ethz_dma res" where
  "wait_on_resource d res =
     (if res = 0xFF then Inr (d\<lparr>cpu_interrupt := False\<rparr>) else Inl (Panic ''Illegal value''))"

section \<open>Responses\<close>

text \<open>The sub-transactions of a request that hold the address of a response.\<close>

definition matches :: "dma_request \<Rightarrow> Addr \<Rightarrow> nat" where
  "matches r a = length (filter (\<lambda>(s, e). s \<le> a \<and> a \<le> e) (zip (mem_pstart r) (mem_pend r)))"

text \<open>
  The double loop of \<open>handle_packet\<close> over the requests from index \<open>i\<close> on: the index of the one that
  matches, if there is exactly one match.
\<close>

fun find_match :: "(nat \<Rightarrow> dma_request option) \<Rightarrow> Addr \<Rightarrow> nat list \<Rightarrow> nat \<Rightarrow> nat option \<Rightarrow> nat option res" where
  "find_match hp a [] i found = Inr found"
| "find_match hp a (r # rs) i found =
     (case hp r of
        None \<Rightarrow> Inl BadPtr
      | Some q \<Rightarrow>
          if matches q a = 0 then find_match hp a rs (i + 1) found
          else if matches q a = 1 \<and> found = None then find_match hp a rs (i + 1) (Some i)
          else Inl (Panic ''One response belongs to two different requets. (Overlap between ranges)''))"

definition finish_request :: "nat \<Rightarrow> nat \<Rightarrow> dma_request \<Rightarrow> ethz_dma \<Rightarrow> ethz_dma res" where
  "finish_request i ref r d =
     (let d1 = (if cpu_suspended d then postInterrupt d else d) in
      assertR (dma_resources d1 AND dma_resource r \<noteq> 0) ''dma_resources & curr->dma_resource''
       (bindR (update_status_register (d1\<lparr>dma_resources := dma_resources d1 AND NOT (dma_resource r)\<rparr>)) (\<lambda>d2.
        assertR (dma_resources d2 AND dma_resource r = 0) ''(dma_resources & curr->dma_resource) == 0''
          (Inr (d2\<lparr>requests := take i (requests d2) @ drop (Suc i) (requests d2),
                   rq_heap := (rq_heap d2)(ref := None)\<rparr>)))))"

definition handle_packet :: "ethz_dma \<Rightarrow> packet \<Rightarrow> bool \<Rightarrow> u32 \<Rightarrow> ethz_dma res" where
  "handle_packet d p last_packet tid =
     bindR (getAddr p) (\<lambda>a.
     bindR (find_match (rq_heap d) a (requests d) 0 None) (\<lambda>found.
       case found of
         None \<Rightarrow> Inl (AssertFail ''curr'')
       | Some i \<Rightarrow>
           let ref = requests d ! i in
           (case rq_heap d ref of
              None \<Rightarrow> Inl BadPtr
            | Some r0 \<Rightarrow>
                bindR (getSize p) (\<lambda>n.
                let r = r0\<lparr>bytes_completed := bytes_completed r0 + ucast n\<rparr>;
                    d1 = d\<lparr>rq_heap := (rq_heap d)(ref \<mapsto> r)\<rparr>
                in assertR (bytes_completed r \<le> bytes_expected r) ''bytes_completed <= bytes_expected''
                    (if bytes_completed r = bytes_expected r then finish_request i ref r d1 else Inr d1)))))"

text \<open>\<open>DmaDoneEvent::process\<close>: the event becomes free again; \<open>dmaDone\<close> does nothing.\<close>

definition dma_done_event :: "nat \<Rightarrow> ethz_dma \<Rightarrow> ethz_dma" where
  "dma_done_event e d = d\<lparr>dmaDoneEventFree := dmaDoneEventFree d @ [e]\<rparr>"

section \<open>The state machine\<close>

text \<open>\<open>requests[current_index]\<close>; an index past the end is an access out of range.\<close>

definition current_request :: "ethz_dma \<Rightarrow> nat option res" where
  "current_request d =
     (if current_index d = -1 then Inr None
      else if 0 \<le> current_index d \<and> nat (current_index d) < length (requests d)
      then Inr (Some (requests d ! nat (current_index d)))
      else Inl OutOfRange)"

fun first_unissued :: "(nat \<Rightarrow> dma_request option) \<Rightarrow> nat list \<Rightarrow> int \<Rightarrow> int res" where
  "first_unissued hp [] i = Inr (-1)"
| "first_unissued hp (r # rs) i =
     (case hp r of
        None \<Rightarrow> Inl BadPtr
      | Some q \<Rightarrow> if \<not> issued q then Inr i else first_unissued hp rs (i + 1))"

definition idle_step :: "ethz_dma \<Rightarrow> (bool \<times> ethz_dma) res" where
  "idle_step d =
     (if requests d = [] then Inr (False, d)
      else bindR (first_unissued (rq_heap d) (requests d) 0) (\<lambda>i.
        Inr (True, if i \<noteq> -1 then d\<lparr>current_index := i, current_state := DMA_STATE_TLBREFILL\<rparr>
                   else d\<lparr>current_index := i\<rparr>)))"

definition deref :: "ethz_dma \<Rightarrow> nat option \<Rightarrow> (nat \<times> dma_request) res" where
  "deref d cur =
     (case cur of
        None \<Rightarrow> Inl BadPtr
      | Some ref \<Rightarrow> (case rq_heap d ref of None \<Rightarrow> Inl BadPtr | Some r \<Rightarrow> Inr (ref, r)))"

definition refill_step ::
    "'s functional_peer \<Rightarrow> 's atomic_peer \<Rightarrow> Tick \<Rightarrow> nat option \<Rightarrow> ethz_dma \<Rightarrow> ethz_tlb \<Rightarrow> 's \<Rightarrow>
     (ethz_dma \<times> ethz_tlb \<times> 's) res" where
  "refill_step sf sa now cur d t s =
     assertR (cur \<noteq> None) ''curr''
      (bindR (deref d cur) (\<lambda>(ref, r).
        let d1 = d\<lparr>rq_heap := (rq_heap d)(ref \<mapsto> r\<lparr>issued := True\<rparr>)\<rparr> in
        if mem_vstart r < mem_vend r then
          bindR (remap_check t (mem_vstart r)) (\<lambda>pa.
          bindR (if pa = -1
                 then if isTimingMode d then refillTLB_functional sf now t s (mem_vstart r)
                      else refillTLB_atomic sa now t s (mem_vstart r)
                 else Inr (t, s)) (\<lambda>(t', s').
            Inr (d1\<lparr>current_state := DMA_STATE_TRANSFER\<rparr>, t', s')))
        else Inr (d1\<lparr>current_state := DMA_STATE_IDLE\<rparr>, t, s)))"

text \<open>
  The port's \<open>dmaAction\<close> as the engine uses it: the memory mode, the two peers, the value of the
  uninitialised and of the freed transaction identifier, the clock edge and the cache line.
\<close>

record 's dma_env =
  env_mode :: mem_mode
  env_st :: "'s timing_peer"
  env_sa :: "'s atomic_peer"
  env_sf :: "'s functional_peer"
  env_uninit :: u32
  env_stale :: u32
  env_edge :: Tick
  env_line :: u32

text \<open>The buffer behind \<open>vreg_ptr\<close>: the PIM memory from there on.\<close>

definition vreg_data :: "ethz_dma \<Rightarrow> nat \<Rightarrow> byte list" where
  "vreg_data d off = (case pmem (pim_mem d) of None \<Rightarrow> [] | Some mem \<Rightarrow> drop off mem)"

definition start_transfer ::
    "'s dma_env \<Rightarrow> Tick \<Rightarrow> nat \<Rightarrow> dma_request \<Rightarrow> u64 \<Rightarrow> u64 \<Rightarrow> ethz_dma \<Rightarrow> dma_port \<Rightarrow> 's \<Rightarrow>
     (dma_port \<times> ethz_dma \<times> 's) res" where
  "start_transfer env now ref r pstart pend d port s =
     assertR (dmaDoneEventFree d \<noteq> []) ''!dmaDoneEventFree.empty()''
      (let event = last (dmaDoneEventFree d);
           d1 = d\<lparr>dmaDoneEventFree := butlast (dmaDoneEventFree d)\<rparr>
       in assertR (event \<notin> fst ` set (doneEvents port)) ''!event->scheduled()''
           (let r1 = r\<lparr>mem_pstart := mem_pstart r @ [pstart], mem_pend := mem_pend r @ [pend]\<rparr>;
                d2 = d1\<lparr>rq_heap := (rq_heap d1)(ref \<mapsto> r1)\<rparr>
            in dmaAction (env_uninit env) (env_mode env) (Some handle_packet) (env_stale env) (env_st env) (env_sa env)
                 now (env_edge env) (env_line env) (if RW r then ReadReq else WriteReq) pstart
                 (to_int (pend - pstart + 1)) (Some event) (Some (vreg_data d2 (vreg_ptr r))) 0 UNCACHEABLE
                 port d2 s))"

text \<open>What follows the call of \<open>dmaAction\<close>: the request moves on to its next piece or is done.\<close>

definition end_transfer :: "nat option \<Rightarrow> u64 \<Rightarrow> ethz_dma \<Rightarrow> ethz_dma res" where
  "end_transfer cur vend d =
     bindR (deref d cur) (\<lambda>(ref, r).
     bindR (nextSubRequest r (vend + 1)) (\<lambda>(more, r').
       Inr (d\<lparr>rq_heap := (rq_heap d)(ref \<mapsto> r'),
              current_state := (if more then DMA_STATE_TLBREFILL else DMA_STATE_IDLE)\<rparr>)))"

definition transfer_step ::
    "'s dma_env \<Rightarrow> Tick \<Rightarrow> nat option \<Rightarrow> ethz_dma \<Rightarrow> ethz_tlb \<Rightarrow> dma_port \<Rightarrow> 's \<Rightarrow>
     (ethz_dma \<times> dma_port \<times> 's) res" where
  "transfer_step env now cur d t port s =
     bindR (deref d cur) (\<lambda>(ref, r).
     bindR (remap_check t (mem_vstart r)) (\<lambda>pstart.
     bindR (slice_vend t (mem_vstart r)) (\<lambda>sv.
     let vend = min sv (mem_vend r) in
     bindR (remap_check t vend) (\<lambda>pend.
     assertR (pend - pstart = vend - mem_vstart r) ''pend-pstart == vend - curr->mem_vstart''
      (bindR (start_transfer env now ref r pstart pend d port s) (\<lambda>(port', d', s').
       bindR (end_transfer cur vend d') (\<lambda>d''. Inr (d'', port', s'))))))))"

text \<open>The end of \<open>nextState\<close>: the next step is scheduled, or the processor is interrupted.\<close>

definition reschedule :: "Tick \<Rightarrow> bool \<Rightarrow> ethz_dma \<Rightarrow> ethz_dma res" where
  "reschedule now is_active d =
     (if is_active
      then bindR (schedule_event (nextStateEvent d) now (now + clk_per_ps d)) (\<lambda>ev.
             Inr (d\<lparr>next_state_scheduled := True, nextStateEvent := ev\<rparr>))
      else Inr (postInterrupt (d\<lparr>next_state_scheduled := False\<rparr>)))"

definition nextState ::
    "'s dma_env \<Rightarrow> Tick \<Rightarrow> ethz_dma \<Rightarrow> ethz_tlb \<Rightarrow> dma_port \<Rightarrow> 's \<Rightarrow> (ethz_dma \<times> ethz_tlb \<times> dma_port \<times> 's) res" where
  "nextState env now d0 t port s =
     (let is_active = (requests d0 \<noteq> []);
          d = (if requests d0 = [] then d0\<lparr>current_state := DMA_STATE_IDLE, current_index := -1\<rparr> else d0)
      in bindR (current_request d) (\<lambda>cur.
         bindR (if current_state d = DMA_STATE_IDLE then
                  bindR (idle_step d) (\<lambda>(act, d'). Inr (is_active \<and> act, d', t, port, s))
                else if current_state d = DMA_STATE_TLBREFILL then
                  bindR (refill_step (env_sf env) (env_sa env) now cur d t s) (\<lambda>(d', t', s').
                    Inr (is_active, d', t', port, s'))
                else if current_state d = DMA_STATE_TRANSFER then
                  bindR (transfer_step env now cur d t port s) (\<lambda>(d', port', s').
                    Inr (is_active, d', t, port', s'))
                else Inl (Panic ''Illegal state!'')) (\<lambda>(act, d', t', port', s').
         bindR (reschedule now act d') (\<lambda>d''. Inr (d'', t', port', s')))))"

section \<open>New requests\<close>

definition add_request :: "dma_request \<Rightarrow> ethz_dma \<Rightarrow> ethz_dma" where
  "add_request r d =
     d\<lparr>requests := rq_next d # requests d, rq_heap := (rq_heap d)(rq_next d \<mapsto> r), rq_next := rq_next d + 1\<rparr>"

text \<open>The body that \<open>initiate_read\<close> and \<open>initiate_write\<close> share, with the direction and the message.\<close>

definition initiate ::
    "bool \<Rightarrow> string \<Rightarrow> 's dma_env \<Rightarrow> Tick \<Rightarrow> nat \<Rightarrow> u64 \<Rightarrow> u64 \<Rightarrow> byte \<Rightarrow>
     ethz_dma \<Rightarrow> ethz_tlb \<Rightarrow> dma_port \<Rightarrow> 's \<Rightarrow> (ethz_dma \<times> ethz_tlb \<times> dma_port \<times> 's) res" where
  "initiate dir busy env now vreg vaddr n res d t port s =
     assertR (res \<noteq> 0) ''dma_resource''
      (if dma_resources d AND res \<noteq> 0 then Inl (Panic busy)
       else
         bindR (update_status_register (d\<lparr>dma_resources := dma_resources d OR res\<rparr>)) (\<lambda>d1.
         let d2 = add_request (DMARequest vreg vaddr n dir res) d1 in
         if next_state_scheduled d2 then Inr (d2, t, port, s)
         else nextState env now (d2\<lparr>next_state_scheduled := True\<rparr>) t port s))"

definition initiate_read ::
    "'s dma_env \<Rightarrow> Tick \<Rightarrow> nat \<Rightarrow> u64 \<Rightarrow> u64 \<Rightarrow> byte \<Rightarrow>
     ethz_dma \<Rightarrow> ethz_tlb \<Rightarrow> dma_port \<Rightarrow> 's \<Rightarrow> (ethz_dma \<times> ethz_tlb \<times> dma_port \<times> 's) res" where
  "initiate_read = initiate True ''[PIM-DMA] READ: DMA resource is already busy!''"

definition initiate_write ::
    "'s dma_env \<Rightarrow> Tick \<Rightarrow> nat \<Rightarrow> u64 \<Rightarrow> u64 \<Rightarrow> byte \<Rightarrow>
     ethz_dma \<Rightarrow> ethz_tlb \<Rightarrow> dma_port \<Rightarrow> 's \<Rightarrow> (ethz_dma \<times> ethz_tlb \<times> dma_port \<times> 's) res" where
  "initiate_write = initiate False ''[PIM-DMA] WRITE: DMA resource is already busy!''"

section \<open>Resources\<close>

text \<open>
  The references in the queue are exactly the live requests; a resource bit is busy exactly when a
  pending request holds it, and no two pending requests share one.
\<close>

definition rq_live :: "ethz_dma \<Rightarrow> bool" where
  "rq_live d \<longleftrightarrow> distinct (requests d) \<and> (\<forall>ref. rq_heap d ref \<noteq> None \<longleftrightarrow> ref \<in> set (requests d)) \<and>
     (\<forall>ref \<in> set (requests d). ref < rq_next d)"

definition held :: "ethz_dma \<Rightarrow> nat \<Rightarrow> byte \<Rightarrow> bool" where
  "held d ref b \<longleftrightarrow> (\<exists>r. rq_heap d ref = Some r \<and> dma_resource r = b)"

definition res_exact :: "ethz_dma \<Rightarrow> bool" where
  "res_exact d \<longleftrightarrow> (\<forall>k. bit (dma_resources d) k \<longleftrightarrow> (\<exists>ref b. held d ref b \<and> bit b k)) \<and>
     (\<forall>ref ref' b b'. ref \<noteq> ref' \<longrightarrow> held d ref b \<longrightarrow> held d ref' b' \<longrightarrow> b AND b' = 0)"

definition dma_ok :: "ethz_dma \<Rightarrow> bool" where
  "dma_ok d \<longleftrightarrow> rq_live d \<and> res_exact d"

text \<open>What steps that neither add nor remove requests keep.\<close>

definition same_requests :: "ethz_dma \<Rightarrow> ethz_dma \<Rightarrow> bool" where
  "same_requests d d' \<longleftrightarrow> requests d' = requests d \<and> rq_next d' = rq_next d \<and> dma_resources d' = dma_resources d \<and>
     (\<forall>ref. map_option dma_resource (rq_heap d' ref) = map_option dma_resource (rq_heap d ref))"

lemma held_iff: "held d ref b \<longleftrightarrow> map_option dma_resource (rq_heap d ref) = Some b"
  by (auto simp: held_def)

lemma same_requests_ok: "same_requests d d' \<Longrightarrow> dma_ok d \<Longrightarrow> dma_ok d'"
proof -
  assume s: "same_requests d d'" and ok: "dma_ok d"
  have h: "held d' = held d" using s by (auto simp: same_requests_def held_iff fun_eq_iff)
  have "(rq_heap d' ref = None) = (rq_heap d ref = None)" for ref
    using s by (auto simp: same_requests_def dest: spec [of _ ref])
  then show ?thesis using ok s h by (simp add: dma_ok_def rq_live_def res_exact_def same_requests_def)
qed

lemma same_requests_refl [simp]: "same_requests d d"
  by (simp add: same_requests_def)

lemma same_requests_trans: "same_requests a b \<Longrightarrow> same_requests b c \<Longrightarrow> same_requests a c"
  by (simp add: same_requests_def)

lemma same_requests_heap:
  "rq_heap d ref = Some r \<Longrightarrow> dma_resource r' = dma_resource r \<Longrightarrow>
   same_requests d (d\<lparr>rq_heap := (rq_heap d)(ref \<mapsto> r')\<rparr>)"
  by (simp add: same_requests_def)

lemma update_status_same:
  "update_status_register d = Inr d' \<Longrightarrow> \<exists>m. d' = d\<lparr>pim_mem := m\<rparr>"
  by (auto simp: update_status_register_def)

lemma bit_and_zero: "b AND b' = 0 \<Longrightarrow> bit b k \<Longrightarrow> bit b' k \<Longrightarrow> False" for b b' :: byte
  using bit_and_iff [of b b' k] by simp

lemma finish_request_ok:
  assumes f: "finish_request i ref r d = Inr d'" and ok: "dma_ok d"
    and r: "rq_heap d ref = Some r" "i < length (requests d)" "requests d ! i = ref"
  shows "dma_ok d'"
proof -
  obtain m b c where d': "requests d' = take i (requests d) @ drop (Suc i) (requests d)"
    "rq_heap d' = (rq_heap d)(ref := None)" "rq_next d' = rq_next d"
    "dma_resources d' = dma_resources d AND NOT (dma_resource r)"
    using f by (auto simp: finish_request_def postInterrupt_def Let_def dest!: update_status_same split: if_splits)
  have dis: "distinct (requests d)" using ok by (simp add: dma_ok_def rq_live_def)
  have eq: "requests d = take i (requests d) @ ref # drop (Suc i) (requests d)"
    using r(2,3) id_take_nth_drop by metis
  then have set: "set (requests d') = set (requests d) - {ref}" "distinct (requests d')"
    using dis d'(1) by (metis (no_types, lifting) distinct_append distinct.simps(2) Diff_insert_absorb Un_insert_right
      insert_iff list.simps(15) set_append UnE disjoint_insert(1), metis distinct_append distinct.simps(2) list.simps(15) disjoint_insert(1))
  have live: "rq_live d'" using ok set d' by (auto simp: dma_ok_def rq_live_def)
  have h: "held d' x b \<longleftrightarrow> x \<noteq> ref \<and> held d x b" for x b using d'(2) by (simp add: held_iff)
  have hr: "held d ref (dma_resource r)" using r(1) by (simp add: held_def)
  have ex: "res_exact d" using ok by (simp add: dma_ok_def)
  have "bit (dma_resources d') k \<longleftrightarrow> (\<exists>x b. held d' x b \<and> bit b k)" for k
  proof -
    have "bit (dma_resources d') k \<longleftrightarrow> (\<exists>x b. held d x b \<and> bit b k) \<and> \<not> bit (dma_resource r) k"
      using ex by (auto simp: d'(4) bit_and_iff bit_not_iff res_exact_def dest: bit_imp_le_length)
    also have "\<dots> \<longleftrightarrow> (\<exists>x b. held d' x b \<and> bit b k)"
    proof (intro iffI)
      assume "(\<exists>x b. held d x b \<and> bit b k) \<and> \<not> bit (dma_resource r) k"
      then obtain x b where x: "held d x b" "bit b k" "\<not> bit (dma_resource r) k" by blast
      then have "x \<noteq> ref" using hr by (auto simp: held_def)
      then show "\<exists>x b. held d' x b \<and> bit b k" using x h by blast
    next
      assume "\<exists>x b. held d' x b \<and> bit b k"
      then obtain x b where x: "x \<noteq> ref" "held d x b" "bit b k" using h by blast
      then have "b AND dma_resource r = 0" using ex hr by (simp add: res_exact_def)
      then show "(\<exists>x b. held d x b \<and> bit b k) \<and> \<not> bit (dma_resource r) k" using x bit_and_zero by blast
    qed
    finally show ?thesis .
  qed
  then have "res_exact d'" using ex h by (auto simp: res_exact_def)
  then show ?thesis using live by (simp add: dma_ok_def)
qed


lemma find_match_index:
  "find_match hp a rs i found = Inr res \<Longrightarrow> res = found \<or>
     (\<exists>j r. res = Some (i + j) \<and> j < length rs \<and> hp (rs ! j) = Some r \<and> matches r a = 1)"
proof (induction hp a rs i found rule: find_match.induct)
  case (1 hp a i found)
  then show ?case by simp
next
  case (2 hp a r rs i found)
  then obtain q where q: "hp r = Some q" by (auto split: option.splits)
  have shift: "\<exists>j r'. res = Some (i + j) \<and> j < length (r # rs) \<and> hp ((r # rs) ! j) = Some r' \<and> matches r' a = 1"
    if "res = Some (i + 1 + j)" "j < length rs" "hp (rs ! j) = Some r'" "matches r' a = 1" for j r'
    using that by (intro exI [of _ "Suc j"] exI [of _ r']) simp
  consider (none) "matches q a = 0" | (one) "matches q a = 1" "found = None"
    | (two) "matches q a \<noteq> 0" "\<not> (matches q a = 1 \<and> found = None)" by blast
  then show ?case
  proof cases
    case none
    then show ?thesis using 2(1) [OF q none] 2(3) q shift by fastforce
  next
    case one
    then have "res = Some i \<or> (\<exists>j r'. res = Some (i + 1 + j) \<and> j < length rs \<and> hp (rs ! j) = Some r' \<and> matches r' a = 1)"
      using 2(2) [OF q] 2(3) q by simp
    then show ?thesis using shift one q by (metis add.right_neutral length_greater_0_conv list.distinct(1) nth_Cons_0)
  next
    case two
    then show ?thesis using 2(3) q by auto
  qed
qed

lemma handle_packet_ok:
  assumes h: "handle_packet d p l tid = Inr d'" and ok: "dma_ok d"
  shows "dma_ok d'"
proof -
  obtain a i r0 n where f: "find_match (rq_heap d) a (requests d) 0 None = Inr (Some i)"
    and r0: "rq_heap d (requests d ! i) = Some r0"
    and d': "(let r = r0\<lparr>bytes_completed := bytes_completed r0 + ucast (n :: u32)\<rparr>;
                  d1 = d\<lparr>rq_heap := (rq_heap d)(requests d ! i \<mapsto> r)\<rparr>
              in if bytes_completed r = bytes_expected r then finish_request i (requests d ! i) r d1 else Inr d1) = Inr d'"
    using h by (auto simp: handle_packet_def Let_def split: option.splits)
  have i: "i < length (requests d)" using find_match_index [OF f] by auto
  let ?r = "r0\<lparr>bytes_completed := bytes_completed r0 + ucast n\<rparr>"
  let ?d = "d\<lparr>rq_heap := (rq_heap d)(requests d ! i \<mapsto> ?r)\<rparr>"
  have "dma_ok ?d" using same_requests_ok [OF same_requests_heap [OF r0] ok] by simp
  then show ?thesis using d' i finish_request_ok [of i "requests d ! i" ?r ?d d'] by (auto simp: Let_def split: if_splits)
qed


lemma send_atomic_dev:
  assumes "send_atomic (Some h) stale sa now ps s dev m = Inr (s', dev', m')" "P dev"
    and "\<And>d p l t d'. h d p l t = Inr d' \<Longrightarrow> P d \<Longrightarrow> P d'"
  shows "P dev'"
  using assms(1,2)
proof (induction ps arbitrary: s dev m)
  case Nil
  then show ?case by simp
next
  case (Cons p ps)
  then obtain lat q m1 s1 d1 where r: "handleResp (Some h) stale now (s\<lparr>transmitList := ps\<rparr>) dev q lat = Inr (s1, d1)"
    "send_atomic (Some h) stale sa now ps s1 d1 m1 = Inr (s', dev', m')"
    by auto
  have "P d1" using r(1) Cons.prems(2) assms(3)
    by (auto simp: handleResp_def Let_def split: list.splits sender_state.splits option.splits)
  then show ?case using Cons.IH r(2) by blast
qed

lemma dmaAction_dev:
  assumes "dmaAction u mode (Some h) stale st sa now edge line cmd a sz ev data delay flag s dev m = Inr (s', dev', m')" "P dev"
    and "\<And>d p l t d'. h d p l t = Inr d' \<Longrightarrow> P d \<Longrightarrow> P d'"
  shows "P dev'"
proof (cases mode)
  case AtomicMode
  then show ?thesis using assms(1) send_atomic_dev [where P = P, OF _ assms(2,3)]
    by (auto simp: dmaAction_def sendDma_def)
qed (use assms in \<open>auto simp: dmaAction_def sendDma_def\<close>)

lemma start_transfer_ok:
  assumes "start_transfer env now ref r ps pe d port s = Inr (port', d', s')" "dma_ok d" "rq_heap d ref = Some r"
  shows "dma_ok d'"
proof -
  let ?d = "d\<lparr>dmaDoneEventFree := butlast (dmaDoneEventFree d), rq_heap := (rq_heap d)(ref \<mapsto>
      r\<lparr>mem_pstart := mem_pstart r @ [ps], mem_pend := mem_pend r @ [pe]\<rparr>)\<rparr>"
  have "same_requests d ?d" using assms(3) by (simp add: same_requests_def)
  then have "dma_ok ?d" using assms(2) by (rule same_requests_ok)
  then show ?thesis using assms(1) dmaAction_dev [where P = dma_ok, OF _ _ handle_packet_ok]
    by (auto simp: start_transfer_def Let_def)
qed

lemma derefD: "deref d cur = Inr (ref, r) \<Longrightarrow> cur = Some ref \<and> rq_heap d ref = Some r"
  by (auto simp: deref_def split: option.splits)

lemma nextSubRequest_res: "nextSubRequest r v = Inr (b, r') \<Longrightarrow> dma_resource r' = dma_resource r"
  by (auto simp: nextSubRequest_def Let_def split: if_splits)

lemma end_transfer_same: "end_transfer cur v d = Inr d' \<Longrightarrow> same_requests d d'"
  by (auto simp: end_transfer_def same_requests_def dest!: derefD nextSubRequest_res)

lemma transfer_step_ok:
  assumes "transfer_step env now cur d t port s = Inr (d', port', s')" "dma_ok d"
  shows "dma_ok d'"
  using assms
  by (auto simp: transfer_step_def Let_def
      dest!: derefD start_transfer_ok [OF _ assms(2)] intro: same_requests_ok [OF end_transfer_same])

lemma refill_step_same: "refill_step sf sa now cur d t s = Inr (d', t', s') \<Longrightarrow> same_requests d d'"
  by (auto simp: refill_step_def Let_def same_requests_def dest!: derefD split: if_splits)

lemma idle_step_same: "idle_step d = Inr (b, d') \<Longrightarrow> same_requests d d'"
  by (auto simp: idle_step_def same_requests_def split: if_splits)

lemma reschedule_same: "reschedule now b d = Inr d' \<Longrightarrow> same_requests d d'"
  by (auto simp: reschedule_def postInterrupt_def same_requests_def split: if_splits)

lemma nextState_ok:
  assumes n: "nextState env now d t port s = Inr (d', t', port', s')" and ok: "dma_ok d"
  shows "dma_ok d'"
proof -
  let ?d = "if requests d = [] then d\<lparr>current_state := DMA_STATE_IDLE, current_index := -1\<rparr> else d"
  have "same_requests d ?d" by (simp add: same_requests_def)
  then have ok1: "dma_ok ?d" using ok by (rule same_requests_ok)
  obtain act cur d1 where r: "reschedule now act d1 = Inr d'"
    and s1: "(\<exists>b. idle_step ?d = Inr (b, d1)) \<or>
      (\<exists>t1 s1. refill_step (env_sf env) (env_sa env) now cur ?d t s = Inr (d1, t1, s1)) \<or>
      (\<exists>p1 s1. transfer_step env now cur ?d t port s = Inr (d1, p1, s1))"
    using n unfolding nextState_def Let_def
    by (elim bindR_InrE) (auto split: if_split_asm; blast)
  have "dma_ok d1"
    using s1
  proof (elim disjE exE)
    fix b assume "idle_step ?d = Inr (b, d1)"
    from same_requests_ok [OF idle_step_same [OF this] ok1] show "dma_ok d1" .
  next
    fix t1 s1 assume "refill_step (env_sf env) (env_sa env) now cur ?d t s = Inr (d1, t1, s1)"
    from same_requests_ok [OF refill_step_same [OF this] ok1] show "dma_ok d1" .
  next
    fix p1 s1 assume "transfer_step env now cur ?d t port s = Inr (d1, p1, s1)"
    from transfer_step_ok [OF this ok1] show "dma_ok d1" .
  qed
  then show ?thesis using same_requests_ok [OF reschedule_same [OF r]] by blast
qed

lemma add_request_ok:
  assumes ok: "dma_ok d" and r: "dma_resources d AND dma_resource r = 0"
  shows "dma_ok (add_request r (d\<lparr>dma_resources := dma_resources d OR dma_resource r\<rparr>))" (is "dma_ok ?d")
proof -
  have live: "rq_live d" and ex: "res_exact d" using ok by (simp_all add: dma_ok_def)
  have fresh: "rq_next d \<notin> set (requests d)" "rq_heap d (rq_next d) = None"
    using live by (auto simp: rq_live_def)
  have h: "held ?d x b \<longleftrightarrow> (x = rq_next d \<and> b = dma_resource r) \<or> (x \<noteq> rq_next d \<and> held d x b)" for x b
    by (auto simp: held_def add_request_def)
  have nh: "\<not> held d (rq_next d) b" for b using fresh by (simp add: held_def)
  have "rq_live ?d" using live fresh by (auto simp: rq_live_def add_request_def)
  moreover have "bit (dma_resources ?d) k \<longleftrightarrow> (\<exists>x b. held ?d x b \<and> bit b k)" for k
  proof -
    have "bit (dma_resources ?d) k \<longleftrightarrow> (\<exists>x b. held d x b \<and> bit b k) \<or> bit (dma_resource r) k"
      using ex by (simp add: add_request_def bit_or_iff res_exact_def)
    also have "\<dots> \<longleftrightarrow> (\<exists>x b. held ?d x b \<and> bit b k)" unfolding h using nh by blast
    finally show ?thesis .
  qed
  moreover have "b AND dma_resource r = 0" if "held d x b" for x b
  proof (rule bit_word_eqI)
    fix k assume "k < LENGTH(8)"
    have "bit b k \<Longrightarrow> bit (dma_resources d) k" using that ex by (auto simp: res_exact_def)
    then show "bit (b AND dma_resource r) k = bit 0 k" using bit_and_zero [OF r, of k] by (auto simp: bit_and_iff)
  qed
  ultimately show ?thesis using ex unfolding dma_ok_def res_exact_def h
    by (auto simp: and.commute [of "dma_resource r"])
qed

lemma initiate_ok:
  assumes i: "initiate dir msg env now v a n res d t port s = Inr (d', t', port', s')" and ok: "dma_ok d"
  shows "dma_ok d'"
proof -
  let ?r = "DMARequest v a n dir res"
  obtain m where z: "dma_resources d AND res = 0"
    and rest: "let d2 = add_request ?r ((d\<lparr>dma_resources := dma_resources d OR res\<rparr>)\<lparr>pim_mem := m\<rparr>) in
      (if next_state_scheduled d2 then Inr (d2, t, port, s)
       else nextState env now (d2\<lparr>next_state_scheduled := True\<rparr>) t port s) = Inr (d', t', port', s')"
    using i by (auto simp: initiate_def Let_def dest!: update_status_same split: if_split_asm)
  let ?d = "add_request ?r ((d\<lparr>dma_resources := dma_resources d OR res\<rparr>)\<lparr>pim_mem := m\<rparr>)"
  have "dma_ok (add_request ?r (d\<lparr>dma_resources := dma_resources d OR res\<rparr>))"
    using add_request_ok [OF ok, of ?r] z by (simp add: DMARequest_def)
  then have ok1: "dma_ok ?d" "dma_ok (?d\<lparr>next_state_scheduled := True\<rparr>)"
    by (auto elim!: same_requests_ok [rotated] simp: same_requests_def add_request_def)
  then show ?thesis using rest nextState_ok by (auto simp: Let_def split: if_split_asm)
qed

text \<open>C16: the DMA engine never loses track of its resources: through new requests, steps of the state
  machine in either memory mode, responses and completion events, a resource bit is busy exactly
  when a pending request holds it, and no two pending requests ever hold the same bit.\<close>

theorem dma_resources_exact:
  assumes "dma_ok d"
    and "initiate_read env now v a n res d t port s = Inr (d', t', port', s') \<or>
      initiate_write env now v a n res d t port s = Inr (d', t', port', s') \<or>
      nextState env now d t port s = Inr (d', t', port', s') \<or>
      handle_packet d p l tid = Inr d' \<or> d' = dma_done_event e d"
  shows "(\<forall>k. bit (dma_resources d') k \<longleftrightarrow> (\<exists>ref b. held d' ref b \<and> bit b k)) \<and>
    (\<forall>ref ref' b b'. ref \<noteq> ref' \<longrightarrow> held d' ref b \<longrightarrow> held d' ref' b' \<longrightarrow> b AND b' = 0) \<and> dma_ok d'"
proof -
  have "dma_ok (dma_done_event e d)"
    using assms(1) by (rule same_requests_ok [rotated]) (simp add: same_requests_def dma_done_event_def)
  then have "dma_ok d'"
    using assms initiate_ok nextState_ok handle_packet_ok
    by (auto simp: initiate_read_def initiate_write_def)
  then show ?thesis by (simp add: dma_ok_def res_exact_def)
qed

section \<open>Runs of the state machine\<close>

text \<open>\<open>n\<close> firings of \<open>nextStateEvent\<close>, each at the tick it is scheduled for.\<close>

fun dma_run ::
    "'s dma_env \<Rightarrow> nat \<Rightarrow> ethz_dma \<times> ethz_tlb \<times> dma_port \<times> 's \<Rightarrow> (ethz_dma \<times> ethz_tlb \<times> dma_port \<times> 's) res" where
  "dma_run env 0 x = Inr x"
| "dma_run env (Suc n) (d, t, port, s) =
     (case nextStateEvent d of
        None \<Rightarrow> Inr (d, t, port, s)
      | Some now \<Rightarrow> bindR (nextState env now (d\<lparr>nextStateEvent := None\<rparr>) t port s) (dma_run env n))"

lemma dma_run_numeral:
  "dma_run env (numeral k) (d, t, port, s) =
     (case nextStateEvent d of
        None \<Rightarrow> Inr (d, t, port, s)
      | Some now \<Rightarrow> bindR (nextState env now (d\<lparr>nextStateEvent := None\<rparr>) t port s) (dma_run env (pred_numeral k)))"
  by (simp add: numeral_eq_Suc)

definition ex_env :: "packet list dma_env" where
  "ex_env = \<lparr>env_mode = TimingMode, env_st = (\<lambda>fl p. Inr (True, p, fl @ [p])), env_sa = (\<lambda>fl p. Inr (0, p, fl)),
     env_sf = (\<lambda>fl p. Inr (p, fl)), env_uninit = 0, env_stale = 0, env_edge = 0, env_line = 64\<rparr>"

definition ex_tlb :: ethz_tlb where
  "ex_tlb = example_tlb\<lparr>originalRanges := [mkAddrRange 0 0xff, mkAddrRange 0x100 0x10f, mkAddrRange 0x110 0x11f],
     remappedRanges := [mkAddrRange 0x1000 0x10ff, mkAddrRange 0x200 0x20f, mkAddrRange 0x300 0x30f],
     lastUsed := [-1, 1, 2], TLB_SIZE := 4\<rparr>"

definition ex_dma :: ethz_dma where
  "ex_dma = mkEthzDMA 1 31 True example_mem"

lemmas dma_run_defs = initiate_read_def initiate_write_def initiate_def update_status_register_def write_mem_1byte_def
  add_request_def DMARequest_def nextState_def current_request_def idle_step_def refill_step_def deref_def
  transfer_step_def end_transfer_def start_transfer_def nextSubRequest_def reschedule_def schedule_event_def postInterrupt_def
  vreg_data_def dma_state_defs dmaAction_def sendDma_def sendDma_timing_def trySendTimingReq_def
  remap_check_def slice_vend_def translate_def range_size_def contains_def mkEthzDMA_def ex_env_def ex_tlb_def ex_dma_def
  example_tlb_def to_int_def


lemma upt_16: "[0..<16] = [0, 1, 2, 3, 4, 5, 6, 7, 8, 9, 10, 11, 12, 13, 14, 15]"
  by (simp add: upt_rec)

lemmas dma_scenario = upt_16 dma_run_numeral dma_run_defs mem_eval_defs example_mem_def dma_eval_defs packet_eval_defs Let_def

lemma dma_ok_mkEthzDMA: "dma_ok (mkEthzDMA clk a tm m)"
  by (simp add: dma_ok_def rq_live_def res_exact_def held_def mkEthzDMA_def)

lemma dma_ok_start: "dma_ok ex_dma"
  by (simp add: ex_dma_def dma_ok_mkEthzDMA)

theorem dma_resources_exact_witness:
  "\<exists>d t port s. initiate_read ex_env 0 0 0x100 16 1 ex_dma ex_tlb (mkDmaPort 1) [] = Inr (d, t, port, s) \<and>
     dma_ok ex_dma \<and> dma_resources d = 1 \<and> (\<exists>ref b. held d ref b \<and> bit b 0) \<and> dma_ok d"
proof -
  obtain d t port s where r: "initiate_read ex_env 0 0 0x100 16 1 ex_dma ex_tlb (mkDmaPort 1) [] = Inr (d, t, port, s)"
    "dma_resources d = 1"
    by (simp add: dma_scenario)
  have "bit (dma_resources d) 0 \<longleftrightarrow> (\<exists>ref b. held d ref b \<and> bit b 0)" "dma_ok d"
    using dma_resources_exact [OF dma_ok_start disjI1 [OF r(1)]] by blast+
  then show ?thesis using r dma_ok_start by simp
qed


definition undeliverable :: "ethz_dma \<Rightarrow> bool" where
  "undeliverable d \<longleftrightarrow> (\<exists>ref r. requests d = [ref] \<and> rq_heap d ref = Some r \<and> current_index d \<in> {-1, 0} \<and>
     (current_state d = DMA_STATE_IDLE \<and> (issued r \<or> \<not> mem_vstart r < mem_vend r) \<or>
      current_state d = DMA_STATE_TLBREFILL \<and> \<not> mem_vstart r < mem_vend r \<and> current_index d = 0))"

lemma undeliverable_step:
  assumes "undeliverable d" "nextStateEvent d = None" "now \<le> now + clk_per_ps d"
  shows "\<exists>d'. nextState env now d t port s = Inr (d', t, port, s) \<and> undeliverable d' \<and>
    nextStateEvent d' = Some (now + clk_per_ps d) \<and> clk_per_ps d' = clk_per_ps d \<and>
    dma_resources d' = dma_resources d \<and> requests d' = requests d"
  using assms by (auto simp: undeliverable_def nextState_def current_request_def idle_step_def refill_step_def deref_def
      reschedule_def schedule_event_def dma_state_defs Let_def)

lemma tick_step:
  fixes now c :: Tick
  assumes "unat now + Suc n * unat c < 2 ^ 64"
  shows "now \<le> now + c" "unat (now + c) + n * unat c < 2 ^ 64"
proof -
  have "unat (now + c) = unat now + unat c" using assms by (simp add: unat_word_ariths)
  then show "now \<le> now + c" "unat (now + c) + n * unat c < 2 ^ 64" using assms by (simp_all add: word_le_nat_alt)
qed

lemma undeliverable_run:
  assumes "undeliverable d" "nextStateEvent d = Some now" "unat now + n * unat (clk_per_ps d) < 2 ^ 64"
  shows "\<exists>d'. dma_run env n (d, t, port, s) = Inr (d', t, port, s) \<and> dma_resources d' = dma_resources d \<and>
    requests d' = requests d"
  using assms
proof (induction n arbitrary: d now)
  case 0
  then show ?case by simp
next
  case (Suc n)
  let ?d = "d\<lparr>nextStateEvent := None\<rparr>"
  have u: "undeliverable ?d" using Suc.prems(1) by (simp add: undeliverable_def)
  obtain d1 where d1: "nextState env now ?d t port s = Inr (d1, t, port, s)" "undeliverable d1"
    "nextStateEvent d1 = Some (now + clk_per_ps d)" "clk_per_ps d1 = clk_per_ps d"
    "dma_resources d1 = dma_resources d" "requests d1 = requests d"
    using undeliverable_step [OF u, of now env t port s] tick_step [OF Suc.prems(3)] by auto
  then show ?case using Suc.IH [OF d1(2,3)] tick_step [OF Suc.prems(3)] Suc.prems(2) by auto
qed


text \<open>A request for a single byte is never transferred: after \<open>initiate_read\<close> on an idle engine, however often the
  state machine runs, nothing is sent, the request stays pending and its resource stays busy. (The refill state
  only goes on while \<open>mem_vstart < mem_vend\<close>, and \<open>mem_vend\<close> is the address of the last byte.)\<close>

theorem dma_single_byte_stuck:
  assumes idle: "requests d = []" "current_state d = DMA_STATE_IDLE" "current_index d = -1"
    "\<not> next_state_scheduled d" "nextStateEvent d = None"
    and res: "res \<noteq> 0" "dma_resources d AND res = 0"
    and mem: "pmem (pim_mem d) = Some mem" "unat (PIM_DMA_STATUS_ADDR d - ar_start (am_range (pim_mem d))) < length mem"
    and time: "unat now + Suc n * unat (clk_per_ps d) < 2 ^ 64"
  shows "\<exists>d1 d2. initiate_read env now v a 1 res d t port s = Inr (d1, t, port, s) \<and>
    dma_run env n (d1, t, port, s) = Inr (d2, t, port, s) \<and> dma_resources d2 = dma_resources d OR res \<and>
    requests d2 = [rq_next d]"
proof -
  obtain m where m: "update_status_register (d\<lparr>dma_resources := dma_resources d OR res\<rparr>) =
      Inr (d\<lparr>dma_resources := dma_resources d OR res, pim_mem := m\<rparr>)"
    using mem by (auto simp: update_status_register_def write_mem_1byte_def write_bytes_def)
  let ?d = "(add_request (DMARequest v a 1 True res) (d\<lparr>dma_resources := dma_resources d OR res, pim_mem := m\<rparr>))
    \<lparr>next_state_scheduled := True\<rparr>"
  have "undeliverable ?d" using idle by (simp add: undeliverable_def add_request_def DMARequest_def)
  then obtain d1 where d1: "nextState env now ?d t port s = Inr (d1, t, port, s)" "undeliverable d1"
    "nextStateEvent d1 = Some (now + clk_per_ps d)" "clk_per_ps d1 = clk_per_ps d"
    "dma_resources d1 = dma_resources d OR res" "requests d1 = [rq_next d]"
    using undeliverable_step [of ?d now env t port s] idle tick_step(1) [OF time] by (auto simp: add_request_def)
  have "initiate_read env now v a 1 res d t port s = Inr (d1, t, port, s)"
    using d1(1) m res idle(4) by (simp add: initiate_read_def initiate_def Let_def add_request_def)
  then show ?thesis using undeliverable_run [OF d1(2,3), of n env t port s] d1(4-6) tick_step(2) [OF time] by auto
qed

theorem dma_single_byte_stuck_witness:
  "\<exists>d1 d2. initiate_read ex_env 0 0 0x100 1 1 ex_dma ex_tlb (mkDmaPort 1) [] = Inr (d1, ex_tlb, mkDmaPort 1, []) \<and>
    dma_run ex_env 1000 (d1, ex_tlb, mkDmaPort 1, []) = Inr (d2, ex_tlb, mkDmaPort 1, []) \<and>
    dma_resources d2 = 1 \<and> requests d2 = [0]"
  using dma_single_byte_stuck [of ex_dma 1 "replicate 32 0" 0 1000 ex_env 0 "0x100" ex_tlb "mkDmaPort 1" "[]"]
  by (simp add: ex_dma_def mkEthzDMA_def DMA_STATE_IDLE_def example_mem_def mem_eval_defs)

text \<open>The last byte of a request is lost when it is alone in its slice: of 17 bytes from 0x100, with slices of
  16 bytes, the engine sends 16, and then runs on for ever waiting for the 17th. (\<open>nextSubRequest\<close> stops at
  \<open>vaddr >= mem_vend\<close>, where \<open>mem_vend\<close> is still to be transferred.)\<close>

theorem dma_last_byte_lost:
  "\<exists>d t port s d1 port1 q d2 d3. initiate_read ex_env 0 0 0x100 17 1 ex_dma ex_tlb (mkDmaPort 1) [] = Inr (d, t, port, s) \<and>
     dma_run ex_env 3 (d, t, port, s) = Inr (d1, t, port1, [q]) \<and> pk_addr q = 0x200 \<and> pk_size q = 16 \<and>
     handle_packet d1 q True 0 = Inr d2 \<and> dma_run ex_env 1000 (d2, t, port1, [q]) = Inr (d3, t, port1, [q]) \<and>
     dma_resources d3 = 1 \<and> requests d3 = [0]"
proof -
  have "\<exists>d t port s d1 port1 q d2.
    initiate_read ex_env 0 0 0x100 17 1 ex_dma ex_tlb (mkDmaPort 1) [] = Inr (d, t, port, s) \<and>
    dma_run ex_env 3 (d, t, port, s) = Inr (d1, t, port1, [q]) \<and> pk_addr q = 0x200 \<and> pk_size q = 16 \<and>
    handle_packet d1 q True 0 = Inr d2 \<and> undeliverable d2 \<and> nextStateEvent d2 = Some 4 \<and> clk_per_ps d2 = 1 \<and>
    dma_resources d2 = 1 \<and> requests d2 = [0]"
    by (simp add: dma_scenario handle_packet_def matches_def getAddr_def getSize_def undeliverable_def)
  then obtain d t port s d1 port1 q d2 where r:
    "initiate_read ex_env 0 0 0x100 17 1 ex_dma ex_tlb (mkDmaPort 1) [] = Inr (d, t, port, s)"
    "dma_run ex_env 3 (d, t, port, s) = Inr (d1, t, port1, [q])" "pk_addr q = 0x200" "pk_size q = 16"
    "handle_packet d1 q True 0 = Inr d2" "undeliverable d2" "nextStateEvent d2 = Some 4" "clk_per_ps d2 = 1"
    "dma_resources d2 = 1" "requests d2 = [0]"
    by (elim exE conjE)
  obtain d3 where "dma_run ex_env 1000 (d2, t, port1, [q]) = Inr (d3, t, port1, [q])" "dma_resources d3 = 1"
    "requests d3 = [0]"
    using undeliverable_run [OF r(6,7), of 1000 ex_env t port1 "[q]"] r(8-10) by auto
  with r show ?thesis by (intro exI conjI)
qed

text \<open>A request that arrives during a transfer makes the engine lose the transfer and repeat another: new requests
  enter the vector at the front while \<open>current_index\<close> keeps its value, so it now points to the new request. Here a read
  of 16 bytes is about to be transferred when a write of 16 bytes arrives; both end up marked as issued, but the
  write was sent twice and the read never, and the write's first response is a panic.\<close>

theorem dma_index_shift:
  "\<exists>d t port s d1 d2 d3 port3 q q' ra. initiate_read ex_env 0 0 0x100 16 1 ex_dma ex_tlb (mkDmaPort 1) [] = Inr (d, t, port, s) \<and>
     dma_run ex_env 1 (d, t, port, s) = Inr (d1, t, port, s) \<and>
     initiate_write ex_env 1 16 0x110 16 2 d1 t port s = Inr (d2, t, port, s) \<and>
     dma_run ex_env 8 (d2, t, port, s) = Inr (d3, t, port3, [q, q']) \<and>
     pk_addr q = 0x300 \<and> pk_cmd q = WriteReq \<and> pk_addr q' = 0x300 \<and> pk_cmd q' = WriteReq \<and>
     rq_heap d3 0 = Some ra \<and> issued ra \<and> RW ra \<and> mem_pstart ra = [] \<and> current_state d3 = DMA_STATE_IDLE \<and>
     handle_packet d3 q True 0 = Inl (Panic ''One response belongs to two different requets. (Overlap between ranges)'')"
  by (simp add: dma_scenario handle_packet_def matches_def getAddr_def getSize_def)

section \<open>Completion\<close>

lemma find_match_none:
  "(\<And>ref. ref \<in> set rs \<Longrightarrow> \<exists>r. hp ref = Some r \<and> matches r a = 0) \<Longrightarrow> find_match hp a rs i found = Inr found"
  by (induction rs arbitrary: i) fastforce+

lemma find_match_append:
  "find_match hp a (xs @ ys) i found =
     bindR (find_match hp a xs i found) (\<lambda>f. find_match hp a ys (i + length xs) f)"
  by (induction xs arbitrary: i found) (auto split: option.splits)

lemma find_match_unique:
  assumes "i < length rs" "hp (rs ! i) = Some r" "matches r a = Suc 0"
    and others: "\<And>j. j < length rs \<Longrightarrow> j \<noteq> i \<Longrightarrow> \<exists>q. hp (rs ! j) = Some q \<and> matches q a = 0"
  shows "find_match hp a rs 0 None = Inr (Some i)"
proof -
  have eq: "rs = take i rs @ rs ! i # drop (Suc i) rs" using assms(1) by (rule id_take_nth_drop)
  have 1: "find_match hp a (take i rs) 0 None = Inr None"
    using assms(1) others by (intro find_match_none) (auto simp: in_set_conv_nth)
  have 2: "find_match hp a (drop (Suc i) rs) (Suc i) (Some i) = Inr (Some i)"
    using others by (intro find_match_none) (auto simp: in_set_conv_nth)
  show ?thesis
    by (subst eq) (use assms(1-3) 1 2 in \<open>simp add: find_match_append\<close>)
qed

text \<open>A response that falls into exactly one sub-transaction of exactly one pending request adds its size to that
  request's count. Only when the count reaches the expected number of bytes is the request removed: its resource bits are
  cleared in \<open>dma_resources\<close> and in the status byte of the PIM memory, every other pending request stays, and a
  suspended processor is woken by an interrupt.\<close>

theorem handle_packet_completes:
  assumes p: "getAddr p = Inr a" "getSize p = Inr n"
    and i: "i < length (requests d)" "requests d ! i = ref" "rq_heap d ref = Some r" "matches r a = 1"
    and others: "\<forall>j. j < length (requests d) \<longrightarrow> j \<noteq> i \<longrightarrow> (\<exists>q. rq_heap d (requests d ! j) = Some q \<and> matches q a = 0)"
    and bytes: "bytes_completed r + ucast n \<le> bytes_expected r"
    and ok: "dma_ok d" "dma_resource r \<noteq> 0"
    and mem: "pmem (pim_mem d) = Some mem" "unat (PIM_DMA_STATUS_ADDR d - ar_start (am_range (pim_mem d))) < length mem"
  shows "\<exists>d'. handle_packet d p l tid = Inr d' \<and>
    (if bytes_completed r + ucast n < bytes_expected r
     then d' = d\<lparr>rq_heap := (rq_heap d)(ref \<mapsto> r\<lparr>bytes_completed := bytes_completed r + ucast n\<rparr>)\<rparr>
     else requests d' = take i (requests d) @ drop (Suc i) (requests d) \<and> rq_heap d' = (rq_heap d)(ref := None) \<and>
       dma_resources d' = dma_resources d AND NOT (dma_resource r) \<and>
       pmem (pim_mem d') = Some (mem[unat (PIM_DMA_STATUS_ADDR d - ar_start (am_range (pim_mem d))) := dma_resources d']) \<and>
       (cpu_suspended d \<longrightarrow> cpu_interrupt d') \<and> \<not> cpu_suspended d')"
proof -
  have f: "find_match (rq_heap d) a (requests d) 0 None = Inr (Some i)"
    using i others by (intro find_match_unique [of i _ _ r]) auto
  have busy: "dma_resources d AND dma_resource r \<noteq> 0"
  proof
    assume z: "dma_resources d AND dma_resource r = 0"
    obtain k where "bit (dma_resource r) k" using ok(2) bit_eqI [of "dma_resource r" 0] by auto
    moreover have "held d ref (dma_resource r)" using i(3) by (simp add: held_def)
    ultimately have "bit (dma_resources d) k" using ok(1) by (auto simp: dma_ok_def res_exact_def)
    then show False using bit_and_zero [OF z] \<open>bit (dma_resource r) k\<close> by blast
  qed
  have clr: "(x AND NOT y) AND y = 0" for x y :: byte by (simp add: and.assoc)
  let ?k = "unat (PIM_DMA_STATUS_ADDR d - ar_start (am_range (pim_mem d)))"
  have w: "write_mem_1byte (pim_mem d) (PIM_DMA_STATUS_ADDR d) v = Inr ((pim_mem d)\<lparr>pmem := Some (mem[?k := v])\<rparr>)" for v
    using mem by (simp add: write_mem_1byte_def write_bytes_def upd_conv_take_nth_drop)
  show ?thesis
    using p f i(2,3) bytes busy
    by (auto simp: handle_packet_def Let_def finish_request_def update_status_register_def w clr postInterrupt_def)
qed


definition ex_busy :: ethz_dma where
  "ex_busy = add_request ((DMARequest 0 0x100 16 True 1)\<lparr>mem_pstart := [0x200], mem_pend := [0x20f], issued := True\<rparr>)
     (ex_dma\<lparr>dma_resources := 1, cpu_suspended := True\<rparr>)"

definition ex_resp :: packet where
  "ex_resp = plain_packet ReadResp 0x200 (replicate 16 0)"

lemma dma_ok_ex_busy: "dma_ok ex_busy"
proof -
  have "dma_ok (ex_dma\<lparr>cpu_suspended := True\<rparr>)"
    using dma_ok_start by (rule same_requests_ok [rotated]) (simp add: same_requests_def)
  then show ?thesis
    using add_request_ok [of "ex_dma\<lparr>cpu_suspended := True\<rparr>"
      "(DMARequest 0 0x100 16 True 1)\<lparr>mem_pstart := [0x200], mem_pend := [0x20f], issued := True\<rparr>"]
    by (simp add: ex_busy_def DMARequest_def ex_dma_def mkEthzDMA_def)
qed

theorem handle_packet_completes_witness:
  "\<exists>d'. handle_packet ex_busy ex_resp True 0 = Inr d' \<and> requests d' = [] \<and> dma_resources d' = 0 \<and>
     cpu_interrupt d' \<and> \<not> cpu_suspended d' \<and> pmem (pim_mem d') = Some ((replicate 32 0)[31 := 0])"
  using handle_packet_completes [of ex_resp "0x200" 16 0 ex_busy 0
      "(DMARequest 0 0x100 16 True 1)\<lparr>mem_pstart := [0x200], mem_pend := [0x20f], issued := True\<rparr>" "replicate 32 0" True 0]
    dma_ok_ex_busy
  by (auto simp: ex_busy_def ex_resp_def plain_packet_def add_request_def DMARequest_def dma_scenario matches_def getAddr_def getSize_def)

end
