(* ===== verification/PimMemory.thy ===== *)
theory PimMemory
  imports PimCoproc EthzDMA
begin

text \<open>
  The memory of the PIM device (\<open>mem/ethz_pim_memory.hh\<close> and \<open>mem/ethz_pim_memory.cc\<close> under
  \<open>src/SMC_original/GEM5/gem5/src\<close>): a \<open>SimpleMemory\<close> in which writes to certain addresses act as commands
  to the TLB, the DMA engine, the coprocessor, the processor and the simulator, before they are stored.

  The state extends that of \<open>SimpleMemory\<close> by the registers of the device and by the components the memory
  holds pointers to. The DMA engine shares the backing store: \<open>with_dma\<close> hands it over and takes it back.
  The host's caches are represented by their number and by the flushes asked of them, the dumps of the
  statistics by their identifiers. Printing and the search for the other components by name in
  \<open>init\<close> are left out.
\<close>

section \<open>State\<close>

record 's pim_memory = simple_mem +
  pm_params :: pim_params
  dma_num_bytes :: u64
  dma_mem_addr :: u64
  dma_spm_addr :: u64
  prev_time_stamp :: Tick
  prev_time_stamp_id :: byte
  pm_dtlb :: ethz_tlb
  pm_dma :: ethz_dma
  pm_port :: dma_port
  pm_peer :: 's
  enable_packet_log :: bool
  system_caches :: nat
  cache_flushes :: "(nat \<times> u64 \<times> u64) list"
  stats_dumps :: "byte list"

text \<open>
  The constructor, followed by the part of \<open>init\<close> that connects the components. \<open>_dma_spm_addr\<close> is not
  initialised: its first value is an argument.
\<close>

definition ethz_PIMMemory ::
    "simple_mem \<Rightarrow> pim_params \<Rightarrow> u64 \<Rightarrow> ethz_tlb \<Rightarrow> ethz_dma \<Rightarrow> dma_port \<Rightarrow> 's \<Rightarrow> bool \<Rightarrow> nat \<Rightarrow> 's pim_memory" where
  "ethz_PIMMemory sm pp spm t d port s timing caches =
     simple_mem.extend sm
       \<lparr>pm_params = pp, dma_num_bytes = 0, dma_mem_addr = 0, dma_spm_addr = spm, prev_time_stamp = 0,
        prev_time_stamp_id = 0x3f, pm_dtlb = t, pm_dma = d\<lparr>isTimingMode := timing, pim_mem := sm_mem sm\<rparr>, pm_port = port,
        pm_peer = s, enable_packet_log = False, system_caches = caches, cache_flushes = [], stats_dumps = []\<rparr>"

section \<open>Register values\<close>

text \<open>The payload of a packet read through \<open>getPtr\<close> at a width of \<open>n\<close> bytes.\<close>

definition pkt_value :: "packet \<Rightarrow> nat \<Rightarrow> u64 res" where
  "pkt_value p n = bindR (getPtr p) (\<lambda>d. bindR (ofOpt (read_bytes d 0 n)) (\<lambda>bs. Inr (of_nat (le_to_nat bs))))"

definition reg_word :: "pim_params \<Rightarrow> packet \<Rightarrow> u64 res" where
  "reg_word pp p =
     bindR (getSize p) (\<lambda>n.
     assertR (n = of_nat (pm_arch pp div 8)) ''pkt->getSize() == pim_arch/8''
       (pkt_value p (if pm_arch pp = 32 then 4 else 8)))"

definition reg_byte :: "packet \<Rightarrow> byte res" where
  "reg_byte p =
     bindR (getSize p) (\<lambda>n. assertR (n = 1) ''pkt->getSize() == 1'' (bindR (pkt_value p 1) (\<lambda>v. Inr (ucast v))))"

definition read_mem_1word :: "'s pim_memory \<Rightarrow> u64 \<Rightarrow> u64 res" where
  "read_mem_1word m a =
     (case pmem (sm_mem m) of
        None \<Rightarrow> Inl BadPtr
      | Some mem \<Rightarrow>
          bindR (ofOpt (read_bytes mem (unat (a - ar_start (am_range (sm_mem m)))) (if pm_arch (pm_params m) = 32 then 4 else 8)))
            (\<lambda>bs. Inr (of_nat (le_to_nat bs))))"

section \<open>The commands\<close>

definition with_dma ::
    "(ethz_dma \<Rightarrow> ethz_tlb \<Rightarrow> dma_port \<Rightarrow> 's \<Rightarrow> (ethz_dma \<times> ethz_tlb \<times> dma_port \<times> 's) res) \<Rightarrow>
     's pim_memory \<Rightarrow> 's pim_memory res" where
  "with_dma f m =
     bindR (f ((pm_dma m)\<lparr>pim_mem := sm_mem m\<rparr>) (pm_dtlb m) (pm_port m) (pm_peer m)) (\<lambda>(d, t, port, s).
       Inr (m\<lparr>pm_dma := d, pm_dtlb := t, pm_port := port, pm_peer := s, sm_mem := pim_mem d\<rparr>))"

definition PIM_DMA_READ :: byte where "PIM_DMA_READ = 0"
definition PIM_DMA_WRITE :: byte where "PIM_DMA_WRITE = 0x80"

definition dma_command :: "'s dma_env \<Rightarrow> Tick \<Rightarrow> 's pim_memory \<Rightarrow> byte \<Rightarrow> 's pim_memory res" where
  "dma_command env now m cmd =
     (if cmd = 0 then Inr m
      else
        assertR (dma_num_bytes m \<noteq> 0) ''_dma_num_bytes != 0''
       (assertR (dma_mem_addr m \<noteq> 0) ''_dma_mem_addr != 0''
       (assertR (env_mode env = TimingMode) ''pim_system->isTimingMode()''
         (let pp = pm_params m; spm = dma_spm_addr m + PIM_ADDRESS_BASE pp; m1 = m\<lparr>dma_spm_addr := spm\<rparr> in
          if spm < PIM_VREG_ADDR pp \<or> spm + dma_num_bytes m > PIM_VREG_ADDR pp + PIM_VREG_SIZE pp
          then Inl (Panic ''DMA access must be within the PIM's Vector Register File'')
          else
            let vreg = unat (spm - ar_start (am_range (sm_mem m))) in
            if cmd AND 0x80 = PIM_DMA_READ
            then with_dma (initiate_read env now vreg (dma_mem_addr m) (dma_num_bytes m) (cmd AND 0x7f)) m1
            else if cmd AND 0x80 = PIM_DMA_WRITE
            then with_dma (initiate_write env now vreg (dma_mem_addr m) (dma_num_bytes m) (cmd AND 0x7f)) m1
            else Inl (Panic ''Illegal DMA command!'')))))"

definition dma_cli :: "'s pim_memory \<Rightarrow> byte \<Rightarrow> 's pim_memory res" where
  "dma_cli m cmd =
     (if cmd = 0 then Inr m else bindR (wait_on_resource (pm_dma m) cmd) (\<lambda>d. Inr (m\<lparr>pm_dma := d\<rparr>)))"

definition coprocessor_command :: "'s pim_memory \<Rightarrow> byte \<Rightarrow> 's pim_memory res" where
  "coprocessor_command m cmd =
     bindR (if pm_arch (pm_params m) = 32 then run_coprocessor_32b (pm_params m) (sm_mem m) cmd
            else run_coprocessor_64b (sm_mem m) cmd) (\<lambda>am. Inr (m\<lparr>sm_mem := am\<rparr>))"

text \<open>A value other than zero in the interrupt register posts an interrupt and clears it again.\<close>

definition intr_command :: "'s pim_memory \<Rightarrow> byte \<Rightarrow> 's pim_memory" where
  "intr_command m c =
     (if c = 0 then m else m\<lparr>pm_dma := (postInterrupt (pm_dma m))\<lparr>cpu_interrupt := False\<rparr>\<rparr>)"

definition ask_host_to_flush_the_caches :: "'s pim_memory \<Rightarrow> 's pim_memory res" where
  "ask_host_to_flush_the_caches m =
     bindR (read_mem_1word m (PIM_M5_D1_ADDR (pm_params m))) (\<lambda>start_addr.
     bindR (read_mem_1word m (PIM_M5_D2_ADDR (pm_params m))) (\<lambda>end_addr.
       Inr (m\<lparr>cache_flushes := cache_flushes m @ map (\<lambda>i. (i, start_addr, end_addr)) [0..<system_caches m]\<rparr>)))"

text \<open>\<open>Stats::reset\<close> on the statistics of the components at hand.\<close>

definition stats_reset :: "'s pim_memory \<Rightarrow> 's pim_memory" where
  "stats_reset m =
     m\<lparr>sm_mem := (sm_mem m)\<lparr>atomic_fadd_count := 0, atomic_min_count := 0, atomic_inc_count := 0, bytesRead := (\<lambda>_. 0),
          bytesInstRead := (\<lambda>_. 0), bytesWritten := (\<lambda>_. 0), numReads := (\<lambda>_. 0), numWrites := (\<lambda>_. 0), numOther := (\<lambda>_. 0)\<rparr>,
       pm_dtlb := (pm_dtlb m)\<lparr>TLBAccess := 0, TLBDynamicAccess := 0, TLBMiss := 0\<rparr>\<rparr>"

definition PIM_TIME_STAMP :: byte where "PIM_TIME_STAMP = 0x30"
definition PIM_TIME_STAMP_MAX :: byte where "PIM_TIME_STAMP_MAX = 0x39"
definition PIM_ENABLE_PACKET_LOG :: byte where "PIM_ENABLE_PACKET_LOG = 0x4c"
definition PIM_DISABLE_PACKET_LOG :: byte where "PIM_DISABLE_PACKET_LOG = 0x44"
definition PIM_HOST_CACHE_FLUSH_HACK :: byte where "PIM_HOST_CACHE_FLUSH_HACK = 0x46"
definition PIM_EXIT_GEM5 :: byte where "PIM_EXIT_GEM5 = 0x58"
definition PIM_M5_IGNORE :: byte where "PIM_M5_IGNORE = 0x49"
definition PIM_ERROR_NONE :: byte where "PIM_ERROR_NONE = 0"

definition m5_command :: "Tick \<Rightarrow> 's pim_memory \<Rightarrow> byte \<Rightarrow> 's pim_memory res" where
  "m5_command now m c =
     (if c \<ge> PIM_TIME_STAMP \<and> c \<le> PIM_TIME_STAMP_MAX
      then Inr ((stats_reset (m\<lparr>stats_dumps := stats_dumps m @ [c]\<rparr>))\<lparr>prev_time_stamp := now, prev_time_stamp_id := c\<rparr>)
      else if c = PIM_ENABLE_PACKET_LOG then Inr (m\<lparr>enable_packet_log := True\<rparr>)
      else if c = PIM_DISABLE_PACKET_LOG then Inr (m\<lparr>enable_packet_log := False\<rparr>)
      else if c = PIM_EXIT_GEM5 then Inl (Exit 0)
      else if c = PIM_HOST_CACHE_FLUSH_HACK then ask_host_to_flush_the_caches m
      else if c = PIM_M5_IGNORE then Inr m
      else Inl (Panic ''Command Not implemented!''))"

section \<open>Accesses\<close>

text \<open>The first chain of tests on the address of a write.\<close>

definition register_write :: "'s dma_env \<Rightarrow> Tick \<Rightarrow> 's pim_memory \<Rightarrow> packet \<Rightarrow> 's pim_memory res" where
  "register_write env now m p =
     bindR (getAddr p) (\<lambda>a.
     let pp = pm_params m in
     if a = PIM_DEBUG_ADDR pp then bindR (reg_byte p) (\<lambda>_. Inr m)
     else if a = PIM_ERROR_ADDR pp then
       bindR (reg_byte p) (\<lambda>code. if code \<noteq> PIM_ERROR_NONE then Inl (Exit 1) else Inr m)
     else if a = PIM_INTR_ADDR pp then bindR (reg_byte p) (\<lambda>c. Inr (intr_command m c))
     else if a = PIM_SLICETABLE_ADDR pp then
       bindR (reg_word pp p) (\<lambda>v. Inr (m\<lparr>pm_dtlb := (pm_dtlb m)\<lparr>PIM_SLICETABLE_PTR := v\<rparr>\<rparr>))
     else if a = PIM_SLICECOUNT_ADDR pp then
       bindR (reg_word pp p) (\<lambda>v. Inr (m\<lparr>pm_dtlb := (pm_dtlb m)\<lparr>PIM_SLICECOUNT := v\<rparr>\<rparr>))
     else if a = PIM_SLICEVSTART_ADDR pp then
       bindR (reg_word pp p) (\<lambda>v. Inr (m\<lparr>pm_dtlb := (pm_dtlb m)\<lparr>PIM_SLICEVSTART := v\<rparr>\<rparr>))
     else if a = PIM_DMA_NUMBYTES_ADDR pp then bindR (reg_word pp p) (\<lambda>v. Inr (m\<lparr>dma_num_bytes := v\<rparr>))
     else if a = PIM_DMA_MEM_ADDR_ADDR pp then bindR (reg_word pp p) (\<lambda>v. Inr (m\<lparr>dma_mem_addr := v\<rparr>))
     else if a = PIM_DMA_SPM_ADDR_ADDR pp then bindR (reg_word pp p) (\<lambda>v. Inr (m\<lparr>dma_spm_addr := v\<rparr>))
     else if a = PIM_COPROCESSOR_CMD_ADDR pp then bindR (reg_byte p) (coprocessor_command m)
     else if a = PIM_DMA_COMMAND_ADDR pp then bindR (reg_byte p) (dma_command env now m)
     else if a = PIM_DMA_CLI_ADDR pp then bindR (reg_byte p) (dma_cli m)
     else if a = HMC_ATOMIC_INCR_ADDR pp then
       bindR (reg_word pp p) (\<lambda>v. assertR (v = 0) ''*(pkt->getPtr<uint32_t>()) == 0'' (Inr m))
     else Inr m)"

text \<open>The second chain, which starts anew.\<close>

definition m5_write :: "Tick \<Rightarrow> 's pim_memory \<Rightarrow> packet \<Rightarrow> 's pim_memory res" where
  "m5_write now m p =
     bindR (getAddr p) (\<lambda>a.
     if a = PIM_DTLB_IDEAL_REFILL_ADDR (pm_params m)
     then Inl (Panic ''PIMMemory should never see an access to this register: PIM_DTLB_IDEAL_REFILL_ADDR'')
     else if a = PIM_M5_ADDR (pm_params m) then bindR (reg_byte p) (m5_command now m)
     else Inr m)"

definition pim_recvAtomic ::
    "'s dma_env \<Rightarrow> Tick \<Rightarrow> Tick \<Rightarrow> 's pim_memory \<Rightarrow> packet \<Rightarrow> (Tick \<times> packet \<times> 's pim_memory) res" where
  "pim_recvAtomic env rnd now m p =
     bindR (if isWrite p then bindR (register_write env now m p) (\<lambda>m1. m5_write now m1 p) else Inr m) (\<lambda>m'.
       sm_recvAtomic rnd m' p)"

definition pim_recvFunctional :: "'s pim_memory \<Rightarrow> packet \<Rightarrow> (packet \<times> 's pim_memory) res" where
  "pim_recvFunctional m p = sm_recvFunctional m p"

definition pim_recvTimingReq ::
    "'s dma_env \<Rightarrow> Tick \<Rightarrow> Tick \<Rightarrow> 's pim_memory \<Rightarrow> packet \<Rightarrow> (bool \<times> packet \<times> 's pim_memory) res" where
  "pim_recvTimingReq env rnd now m p = sm_recvTimingReq (pim_recvAtomic env rnd now) now rnd m p"

section \<open>The data region\<close>

text \<open>The addresses whose writes are commands.\<close>

definition command_addrs :: "pim_params \<Rightarrow> u64 list" where
  "command_addrs pp =
     [PIM_DEBUG_ADDR pp, PIM_ERROR_ADDR pp, PIM_INTR_ADDR pp, PIM_SLICETABLE_ADDR pp, PIM_SLICECOUNT_ADDR pp,
      PIM_SLICEVSTART_ADDR pp, PIM_DMA_NUMBYTES_ADDR pp, PIM_DMA_MEM_ADDR_ADDR pp, PIM_DMA_SPM_ADDR_ADDR pp,
      PIM_COPROCESSOR_CMD_ADDR pp, PIM_DMA_COMMAND_ADDR pp, PIM_DMA_CLI_ADDR pp, HMC_ATOMIC_INCR_ADDR pp,
      PIM_DTLB_IDEAL_REFILL_ADDR pp, PIM_M5_ADDR pp]"

definition pim_view :: "'s pim_memory \<Rightarrow> Addr \<Rightarrow> byte option" where
  "pim_view m a = (if a \<in> set (command_addrs (pm_params m)) then None else mem_view (sm_mem m) a)"

lemma pim_plain:
  assumes "pk_addr p \<notin> set (command_addrs (pm_params m))" "wf_packet p"
  shows "pim_recvAtomic env rnd now m p = sm_recvAtomic rnd m p"
  using assms
  by (simp add: pim_recvAtomic_def register_write_def m5_write_def wf_packet_accessors command_addrs_def Let_def)

lemma pim_read: "\<not> isWrite p \<Longrightarrow> pim_recvAtomic env rnd now m p = sm_recvAtomic rnd m p"
  by (simp add: pim_recvAtomic_def)

lemma sm_recvAtomic_only_mem: "sm_recvAtomic rnd m p = Inr (l, q, m') \<Longrightarrow> \<exists>am. m' = m\<lparr>sm_mem := am\<rparr>"
  by (auto simp: sm_recvAtomic_def sm_access_def)

lemma pim_view_bytes: "bytes_at (pim_view m) a bs \<Longrightarrow> bytes_at (mem_view (sm_mem m)) a bs"
  by (auto simp: bytes_at_def pim_view_def split: if_splits)

lemma pim_view_data:
  assumes "bytes_at (pim_view m) a bs" "unat (x - a) < length bs"
  shows "x \<notin> set (command_addrs (pm_params m))"
  using assms(1) [unfolded bytes_at_def, rule_format, OF assms(2)] by (simp add: pim_view_def split: if_splits)

lemma pim_view_store:
  assumes "bytes_at (pim_view m) a old" "length old = length d" "pm_params m' = pm_params m"
    "mem_view (sm_mem m') = store_at (mem_view (sm_mem m)) a d"
  shows "pim_view m' = store_at (pim_view m) a d"
  using pim_view_data [OF assms(1)] assms(2-4) by (auto simp: fun_eq_iff pim_view_def store_at_def)

text \<open>Outside its command registers the device keeps the contract of an atomic memory.\<close>

interpretation pm: atomic_memory "pim_recvAtomic env rnd now" pim_view sm_inv "\<lambda>m. getLatency m rnd"
proof unfold_locales
  fix m :: "'a pim_memory" and p d bs
  assume m: "sm_inv m" and p: "plain_request ReadReq p d" and at: "bytes_at (pim_view m) (pk_addr p) bs" "length bs = length d"
  have "\<not> isWrite p" using p by (simp add: plain_request_def pkt_test_defs cmd_defs)
  moreover obtain q m' where r: "sm_recvAtomic rnd m p = Inr (getLatency m rnd, q, m')" "isResponse q" "same_txn p q"
    "getPtr q = Inr bs" "sm_inv m'" "mem_view (sm_mem m') = mem_view (sm_mem m)" "getLatency m' rnd = getLatency m rnd"
    using sm.atomic_read_law [OF m p pim_view_bytes [OF at(1)] at(2), of rnd] by blast
  moreover have "pim_view m' = pim_view m"
    using sm_recvAtomic_only_mem [OF r(1)] r(6) by (auto simp: fun_eq_iff pim_view_def)
  ultimately show "\<exists>q s'. pim_recvAtomic env rnd now m p = Inr (getLatency m rnd, q, s') \<and> isResponse q \<and> same_txn p q \<and>
      getPtr q = Inr bs \<and> sm_inv s' \<and> pim_view s' = pim_view m \<and> getLatency s' rnd = getLatency m rnd"
    by (simp add: pim_read)
next
  fix m :: "'a pim_memory" and p d old
  assume m: "sm_inv m" and p: "plain_request WriteReq p d" and at: "bytes_at (pim_view m) (pk_addr p) old" "length old = length d"
  have "d \<noteq> []" "wf_packet p" using p by (simp_all add: plain_request_def payload_ok_def)
  then have pl: "pim_recvAtomic env rnd now m p = sm_recvAtomic rnd m p"
    using pim_view_data [OF at(1), of "pk_addr p"] at(2) by (intro pim_plain) auto
  obtain q m' where r: "sm_recvAtomic rnd m p = Inr (getLatency m rnd, q, m')" "isResponse q" "same_txn p q" "sm_inv m'"
    "mem_view (sm_mem m') = store_at (mem_view (sm_mem m)) (pk_addr p) d" "getLatency m' rnd = getLatency m rnd"
    using sm.atomic_write_law [OF m p pim_view_bytes [OF at(1)] at(2), of rnd] by blast
  have "pm_params m' = pm_params m" using sm_recvAtomic_only_mem [OF r(1)] by auto
  then have "pim_view m' = store_at (pim_view m) (pk_addr p) d" using r(5) by (rule pim_view_store [OF at])
  then show "\<exists>q s'. pim_recvAtomic env rnd now m p = Inr (getLatency m rnd, q, s') \<and> isResponse q \<and> same_txn p q \<and>
      sm_inv s' \<and> pim_view s' = store_at (pim_view m) (pk_addr p) d \<and> getLatency s' rnd = getLatency m rnd"
    using r pl by simp
qed


text \<open>C18: outside its command registers the PIM device is memory: a write followed by a read of the same bytes gives
  them back, stores nothing else, and disturbs neither the TLB nor the DMA engine nor a register of the device.\<close>

theorem pim_data_write_read:
  assumes "sm_inv m" "plain_request WriteReq w d" "bytes_at (pim_view m) (pk_addr w) old" "length old = length d"
    and "plain_request ReadReq p e" "pk_addr p = pk_addr w" "length e = length d"
  shows "\<exists>q m1 r m2. pim_recvAtomic env rnd now m w = Inr (getLatency m rnd, q, m1) \<and>
    (\<exists>am. m1 = m\<lparr>sm_mem := am\<rparr> \<and> mem_view am = store_at (mem_view (sm_mem m)) (pk_addr w) d) \<and>
    pim_recvAtomic env rnd now m1 p = Inr (getLatency m rnd, r, m2) \<and> getPtr r = Inr d"
proof -
  obtain q m1 r m2 where r: "pim_recvAtomic env rnd now m w = Inr (getLatency m rnd, q, m1)"
    "pim_recvAtomic env rnd now m1 p = Inr (getLatency m rnd, r, m2)" "getPtr r = Inr d"
    using pm.atomic_read_after_write [OF assms, of env rnd now] by blast
  have "d \<noteq> []" "wf_packet w" using assms(2) by (simp_all add: plain_request_def payload_ok_def)
  then have "pim_recvAtomic env rnd now m w = sm_recvAtomic rnd m w"
    using pim_view_data [OF assms(3), of "pk_addr w"] assms(4) by (intro pim_plain) auto
  then have 1: "sm_recvAtomic rnd m w = Inr (getLatency m rnd, q, m1)" using r(1) by simp
  have "mem_view (sm_mem m1) = store_at (mem_view (sm_mem m)) (pk_addr w) d"
    using sm.atomic_write_law [OF assms(1,2) pim_view_bytes [OF assms(3)] assms(4), of rnd] 1 by auto
  then show ?thesis using r sm_recvAtomic_only_mem [OF 1] by auto
qed

section \<open>Commands\<close>

lemma reg_byte_of:
  assumes "payload_ok p [c]" "wf_packet p"
  shows "reg_byte p = Inr c"
proof -
  have "pk_size p = 1" using assms(1) by (auto simp: payload_ok_def intro: word_unat_eq_iff [THEN iffD2])
  moreover have "(ucast (ucast c :: u64) :: byte) = c" by (rule bit_word_eqI) (simp add: bit_simps)
  ultimately show ?thesis using assms
    by (simp add: reg_byte_def wf_packet_accessors pkt_value_def payload_ok_def read_bytes_def)
qed

lemma reg_word_of:
  assumes "payload_ok p d" "wf_packet p" "pm_arch pp \<in> {32, 64}" "length d = pm_arch pp div 8"
  shows "reg_word pp p = Inr (of_nat (le_to_nat d))"
proof -
  have "pk_size p = of_nat (length d)" using assms(1) by (simp add: payload_ok_def)
  then show ?thesis using assms
    by (auto simp: reg_word_def wf_packet_accessors pkt_value_def payload_ok_def read_bytes_def)
qed

text \<open>Command registers at different addresses.\<close>

definition pim_params_ok :: "pim_params \<Rightarrow> bool" where
  "pim_params_ok pp \<longleftrightarrow> distinct (command_addrs pp) \<and> pm_arch pp \<in> {32, 64}"

text \<open>A store to a command register, after its command.\<close>

lemma command_store:
  assumes p: "plain_request WriteReq p d" and r: "register_write env now m p = Inr m1" "m5_write now m1 p = Inr m2"
    and inv: "sm_inv m2" and at: "bytes_at (mem_view (sm_mem m2)) (pk_addr p) old" "length old = length d"
  shows "\<exists>q am. pim_recvAtomic env rnd now m p = Inr (getLatency m2 rnd, q, m2\<lparr>sm_mem := am\<rparr>) \<and> isResponse q \<and>
    mem_view am = store_at (mem_view (sm_mem m2)) (pk_addr p) d"
proof -
  have w: "isWrite p" using p by (simp add: plain_request_def pkt_test_defs cmd_defs)
  obtain q m' where "sm_recvAtomic rnd m2 p = Inr (getLatency m2 rnd, q, m')" "isResponse q"
    "mem_view (sm_mem m') = store_at (mem_view (sm_mem m2)) (pk_addr p) d"
    using sm.atomic_write_law [OF inv p at, of rnd] by blast
  moreover from this obtain am where "m' = m2\<lparr>sm_mem := am\<rparr>" using sm_recvAtomic_only_mem by blast
  ultimately show ?thesis using w r by (intro exI [of _ q] exI [of _ am]) (simp add: pim_recvAtomic_def)
qed

lemma command_neq:
  assumes "pim_params_ok pp" "i < 15"
  shows "\<forall>x \<in> set (take i (command_addrs pp)) \<union> set (drop (Suc i) (command_addrs pp)). command_addrs pp ! i \<noteq> x"
proof -
  let ?xs = "command_addrs pp"
  have len: "length ?xs = 15" by (simp add: command_addrs_def)
  have "distinct ?xs" using assms(1) by (simp add: pim_params_ok_def)
  then have "distinct (take i ?xs @ ?xs ! i # drop (Suc i) ?xs)" using id_take_nth_drop [of i ?xs] assms(2) len by simp
  then show ?thesis by auto
qed

lemma register_write_slice:
  assumes pp: "pim_params_ok (pm_params m)" and wf: "wf_packet p" and w: "reg_word (pm_params m) p = Inr v"
  shows "pk_addr p = PIM_SLICETABLE_ADDR (pm_params m) \<Longrightarrow>
      register_write env now m p = Inr (m\<lparr>pm_dtlb := (pm_dtlb m)\<lparr>PIM_SLICETABLE_PTR := v\<rparr>\<rparr>) \<and> (\<forall>t. m5_write now (m\<lparr>pm_dtlb := t\<rparr>) p = Inr (m\<lparr>pm_dtlb := t\<rparr>))"
    "pk_addr p = PIM_SLICECOUNT_ADDR (pm_params m) \<Longrightarrow>
      register_write env now m p = Inr (m\<lparr>pm_dtlb := (pm_dtlb m)\<lparr>PIM_SLICECOUNT := v\<rparr>\<rparr>) \<and> (\<forall>t. m5_write now (m\<lparr>pm_dtlb := t\<rparr>) p = Inr (m\<lparr>pm_dtlb := t\<rparr>))"
    "pk_addr p = PIM_SLICEVSTART_ADDR (pm_params m) \<Longrightarrow>
      register_write env now m p = Inr (m\<lparr>pm_dtlb := (pm_dtlb m)\<lparr>PIM_SLICEVSTART := v\<rparr>\<rparr>) \<and> (\<forall>t. m5_write now (m\<lparr>pm_dtlb := t\<rparr>) p = Inr (m\<lparr>pm_dtlb := t\<rparr>))"
  using command_neq [OF pp, of 3] command_neq [OF pp, of 4] command_neq [OF pp, of 5] w wf
  by (simp_all add: register_write_def m5_write_def wf_packet_accessors Let_def command_addrs_def)

lemma register_write_dma_command:
  assumes pp: "pim_params_ok (pm_params m)" and wf: "wf_packet p" and c: "payload_ok p [c]"
    and a: "pk_addr p = PIM_DMA_COMMAND_ADDR (pm_params m)"
  shows "register_write env now m p = dma_command env now m c" "pm_params m' = pm_params m \<Longrightarrow> m5_write now m' p = Inr m'"
  using command_neq [OF pp, of 10] reg_byte_of [OF c wf] wf a
  by (simp_all add: register_write_def m5_write_def wf_packet_accessors Let_def command_addrs_def)

text \<open>The host sets up the translation by writing the three slice registers: each write reaches its field of the TLB,
  as the little-endian value of the word, leaves the rest of the TLB and the whole DMA engine alone, and is
  stored, so that the register reads back what was written.\<close>

theorem pim_slice_registers:
  assumes pp: "pim_params_ok (pm_params m)" and m: "sm_inv m"
    and p: "plain_request WriteReq p d" "length d = pm_arch (pm_params m) div 8"
    and at: "bytes_at (mem_view (sm_mem m)) (pk_addr p) old" "length old = length d"
    and a: "pk_addr p = PIM_SLICETABLE_ADDR (pm_params m) \<and> t' = (pm_dtlb m)\<lparr>PIM_SLICETABLE_PTR := of_nat (le_to_nat d)\<rparr> \<or>
      pk_addr p = PIM_SLICECOUNT_ADDR (pm_params m) \<and> t' = (pm_dtlb m)\<lparr>PIM_SLICECOUNT := of_nat (le_to_nat d)\<rparr> \<or>
      pk_addr p = PIM_SLICEVSTART_ADDR (pm_params m) \<and> t' = (pm_dtlb m)\<lparr>PIM_SLICEVSTART := of_nat (le_to_nat d)\<rparr>"
    and r: "plain_request ReadReq rd e" "pk_addr rd = pk_addr p" "length e = length d"
  shows "\<exists>q am q' m2. pim_recvAtomic env rnd now m p = Inr (getLatency m rnd, q, m\<lparr>pm_dtlb := t', sm_mem := am\<rparr>) \<and>
    mem_view am = store_at (mem_view (sm_mem m)) (pk_addr p) d \<and>
    pim_recvAtomic env rnd now (m\<lparr>pm_dtlb := t', sm_mem := am\<rparr>) rd = Inr (getLatency m rnd, q', m2) \<and> getPtr q' = Inr d"
proof -
  let ?m = "m\<lparr>pm_dtlb := t'\<rparr>"
  have wf: "payload_ok p d" "wf_packet p" using p(1) by (simp_all add: plain_request_def)
  have w: "reg_word (pm_params m) p = Inr (of_nat (le_to_nat d))"
    using pp p(2) wf by (intro reg_word_of) (auto simp: pim_params_ok_def)
  have 1: "register_write env now m p = Inr ?m" "m5_write now ?m p = Inr ?m"
    using register_write_slice [OF pp wf(2) w] a by auto
  have inv: "sm_inv ?m" "bytes_at (mem_view (sm_mem ?m)) (pk_addr p) old" using m at by (auto simp: sm_inv_def)
  obtain q am where q: "pim_recvAtomic env rnd now m p = Inr (getLatency ?m rnd, q, ?m\<lparr>sm_mem := am\<rparr>)"
    "mem_view am = store_at (mem_view (sm_mem ?m)) (pk_addr p) d"
    using command_store [OF p(1) 1 inv at(2), of rnd] by blast
  have s: "sm_recvAtomic rnd ?m p = Inr (getLatency ?m rnd, q, ?m\<lparr>sm_mem := am\<rparr>)"
    using q(1) 1 p(1) by (simp add: pim_recvAtomic_def plain_request_def pkt_test_defs cmd_defs)
  obtain q' m2 where "sm_recvAtomic rnd (?m\<lparr>sm_mem := am\<rparr>) rd = Inr (getLatency ?m rnd, q', m2)" "getPtr q' = Inr d"
    using sm.atomic_read_after_write [OF inv(1) p(1) inv(2) at(2) r, of rnd] s by auto
  moreover have "\<not> isWrite rd" using r(1) by (simp add: plain_request_def pkt_test_defs cmd_defs)
  ultimately show ?thesis using q by (auto simp: pim_read getLatency_def)
qed


lemma top_bit_test:
  fixes c :: byte
  shows "c AND 0x80 = 0 \<longleftrightarrow> \<not> bit c 7" "c AND 0x80 = 0x80 \<longleftrightarrow> bit c 7"
proof -
  have "c AND 2 ^ n = (if bit c n then 2 ^ n else 0)" for n
    by (rule bit_word_eqI) (auto simp: bit_simps)
  from this [of 7] have "c AND 0x80 = (if bit c 7 then 0x80 else 0)" by simp
  then show "c AND 0x80 = 0 \<longleftrightarrow> \<not> bit c 7" "c AND 0x80 = 0x80 \<longleftrightarrow> bit c 7" by simp_all
qed

text \<open>A sequence of accesses, each at its tick.\<close>

fun pim_writes :: "'s dma_env \<Rightarrow> Tick \<Rightarrow> (Tick \<times> packet) list \<Rightarrow> 's pim_memory \<Rightarrow> 's pim_memory res" where
  "pim_writes env rnd [] m = Inr m"
| "pim_writes env rnd ((now, p) # ps) m = bindR (pim_recvAtomic env rnd now m p) (\<lambda>(_, _, m'). pim_writes env rnd ps m')"

definition present :: "(Addr \<Rightarrow> byte option) \<Rightarrow> Addr \<Rightarrow> nat \<Rightarrow> bool" where
  "present v a n \<longleftrightarrow> (\<forall>i < n. v (a + of_nat i) \<noteq> None)"

lemma present_bytes:
  assumes "present v a n"
  obtains old where "bytes_at v a old" "length old = n"
  by (rule that [of "map (\<lambda>i. the (v (a + of_nat i))) [0..<n]"]) (use assms in \<open>auto simp: bytes_at_def present_def\<close>)

lemma present_store: "present v a n \<Longrightarrow> present (store_at v b d) a n"
  by (auto simp: present_def store_at_def)

text \<open>A store to a register keeps the device in order and leaves everything but the memory to the command.\<close>

lemma register_store:
  assumes p: "plain_request WriteReq p d" and r: "register_write env now m p = Inr m1" "m5_write now m1 p = Inr m1"
    and inv: "sm_inv m1" and at: "present (mem_view (sm_mem m1)) (pk_addr p) (length d)"
  shows "\<exists>l q am. pim_recvAtomic env rnd now m p = Inr (l, q, m1\<lparr>sm_mem := am\<rparr>) \<and> sm_inv (m1\<lparr>sm_mem := am\<rparr>) \<and>
    mem_view am = store_at (mem_view (sm_mem m1)) (pk_addr p) d \<and> am_range am = am_range (sm_mem m1)"
proof -
  obtain old where old: "bytes_at (mem_view (sm_mem m1)) (pk_addr p) old" "length old = length d" by (rule present_bytes [OF at])
  obtain q am where q: "pim_recvAtomic env rnd now m p = Inr (getLatency m1 rnd, q, m1\<lparr>sm_mem := am\<rparr>)"
    "mem_view am = store_at (mem_view (sm_mem m1)) (pk_addr p) d"
    using command_store [OF p r inv old, of rnd] by blast
  have s: "sm_recvAtomic rnd m1 p = Inr (getLatency m1 rnd, q, m1\<lparr>sm_mem := am\<rparr>)"
    using q(1) r p by (simp add: pim_recvAtomic_def plain_request_def pkt_test_defs cmd_defs)
  obtain am' where am': "access (sm_mem m1) p = Inr (q, am')" "m1\<lparr>sm_mem := am\<rparr> = m1\<lparr>sm_mem := am'\<rparr>"
    using sm_recvAtomic_frame [OF s] by blast
  have "am_range am' = am_range (sm_mem m1)"
    using access_shape [OF am'(1)] inv by (simp add: sm_inv_def am_inv_def same_shape_def)
  moreover have "am = am'" using arg_cong [OF am'(2), of sm_mem] by simp
  moreover have "sm_inv (m1\<lparr>sm_mem := am\<rparr>)" using sm_recvAtomic_sm_inv [OF s inv] by blast
  ultimately show ?thesis using q by blast
qed

lemma register_write_dma_regs:
  assumes pp: "pim_params_ok (pm_params m)" and wf: "wf_packet p" and w: "reg_word (pm_params m) p = Inr v"
  shows "pk_addr p = PIM_DMA_NUMBYTES_ADDR (pm_params m) \<Longrightarrow>
      register_write env now m p = Inr (m\<lparr>dma_num_bytes := v\<rparr>) \<and> m5_write now (m\<lparr>dma_num_bytes := v\<rparr>) p = Inr (m\<lparr>dma_num_bytes := v\<rparr>)"
    "pk_addr p = PIM_DMA_MEM_ADDR_ADDR (pm_params m) \<Longrightarrow>
      register_write env now m p = Inr (m\<lparr>dma_mem_addr := v\<rparr>) \<and> m5_write now (m\<lparr>dma_mem_addr := v\<rparr>) p = Inr (m\<lparr>dma_mem_addr := v\<rparr>)"
    "pk_addr p = PIM_DMA_SPM_ADDR_ADDR (pm_params m) \<Longrightarrow>
      register_write env now m p = Inr (m\<lparr>dma_spm_addr := v\<rparr>) \<and> m5_write now (m\<lparr>dma_spm_addr := v\<rparr>) p = Inr (m\<lparr>dma_spm_addr := v\<rparr>)"
  using command_neq [OF pp, of 6] command_neq [OF pp, of 7] command_neq [OF pp, of 8] w wf
  by (simp_all add: register_write_def m5_write_def wf_packet_accessors Let_def command_addrs_def)

text \<open>
  The engine takes a new request when its resource is free: when its state machine runs the request waits in front of the
  others, and when it is idle the machine is started.
\<close>

definition engine_idle :: "ethz_dma \<Rightarrow> bool" where
  "engine_idle d \<longleftrightarrow> requests d = [] \<and> current_state d = DMA_STATE_IDLE \<and> current_index d = -1 \<and> nextStateEvent d = None"

definition engine_ready :: "Tick \<Rightarrow> ethz_dma \<Rightarrow> bool" where
  "engine_ready now d \<longleftrightarrow> next_state_scheduled d \<or> engine_idle d \<and> now \<le> now + clk_per_ps d"

lemma initiate_accepts:
  assumes res: "res \<noteq> 0" "dma_resources d AND res = 0" and inv: "am_inv (pim_mem d)"
    and st: "present (mem_view (pim_mem d)) (PIM_DMA_STATUS_ADDR d) 1" and rd: "engine_ready now d"
  shows "\<exists>d'. initiate dir msg env now v a n res d t port s = Inr (d', t, port, s) \<and>
    requests d' = rq_next d # requests d \<and> rq_heap d' = (rq_heap d)(rq_next d \<mapsto> DMARequest v a n dir res) \<and>
    dma_resources d' = dma_resources d OR res \<and> next_state_scheduled d' \<and> am_inv (pim_mem d') \<and> am_range (pim_mem d') = am_range (pim_mem d) \<and>
    mem_view (pim_mem d') = store_at (mem_view (pim_mem d)) (PIM_DMA_STATUS_ADDR d) [dma_resources d OR res]"
proof -
  let ?a = "PIM_DMA_STATUS_ADDR d" and ?b = "dma_resources d OR res"
  obtain mem where mem: "pmem (pim_mem d) = Some mem" using inv by (auto simp: am_inv_def elim: mem_invE)
  obtain old where old: "bytes_at (mem_view (pim_mem d)) ?a old" "length old = length [?b]"
    using present_bytes [OF st] by auto
  have "unat ?a + length [?b] \<le> 2 ^ 64" using unsigned_less [of ?a, where 'a = nat] by simp
  then obtain mem' where w: "write_bytes mem (unat (?a - ar_start (am_range (pim_mem d)))) [?b] = Some mem'"
    "mem_inv ((pim_mem d)\<lparr>pmem := Some mem'\<rparr>)" "mem_view ((pim_mem d)\<lparr>pmem := Some mem'\<rparr>) = store_at (mem_view (pim_mem d)) ?a [?b]"
    using mem_view_write [OF _ mem old(1) _ old(2)] inv by (auto simp: am_inv_def)
  let ?d = "add_request (DMARequest v a n dir res) (d\<lparr>dma_resources := ?b, pim_mem := (pim_mem d)\<lparr>pmem := Some mem'\<rparr>\<rparr>)"
  have u: "update_status_register (d\<lparr>dma_resources := ?b\<rparr>) = Inr (d\<lparr>dma_resources := ?b, pim_mem := (pim_mem d)\<lparr>pmem := Some mem'\<rparr>\<rparr>)"
    using w(1) mem by (simp add: update_status_register_def write_mem_1byte_def)
  have i: "am_inv ((pim_mem d)\<lparr>pmem := Some mem'\<rparr>)" using w(2) inv by (simp add: am_inv_def locks_ok_def)
  show ?thesis
  proof (cases "next_state_scheduled d")
    case True
    then show ?thesis using res u w(3) i by (intro exI [of _ ?d]) (simp add: initiate_def Let_def add_request_def)
  next
    case False
    then have e: "engine_idle d" "now \<le> now + clk_per_ps d" using rd by (auto simp: engine_ready_def)
    have "nextState env now (?d\<lparr>next_state_scheduled := True\<rparr>) t port s =
        Inr (?d\<lparr>next_state_scheduled := True, current_index := 0, current_state := DMA_STATE_TLBREFILL,
          nextStateEvent := Some (now + clk_per_ps d)\<rparr>, t, port, s)"
      using e by (simp add: nextState_def engine_idle_def current_request_def idle_step_def add_request_def DMARequest_def
        reschedule_def schedule_event_def Let_def)
    then show ?thesis using False res u w(3) i
      by (intro exI [of _ "?d\<lparr>next_state_scheduled := True, current_index := 0, current_state := DMA_STATE_TLBREFILL,
          nextStateEvent := Some (now + clk_per_ps d)\<rparr>"]) (simp add: initiate_def Let_def add_request_def)
  qed
qed


lemma spm_sum:
  fixes b s :: u64
  assumes "x < 2 ^ 32" "n < 2 ^ 32" "unat b < 2 ^ 63"
  shows "unat (of_nat x + b) = x + unat b" "unat (of_nat n :: u64) = n" "unat (of_nat x + b) + unat (of_nat n :: u64) < 2 ^ 64"
proof -
  show 1: "unat (of_nat x + b) = x + unat b" "unat (of_nat n :: u64) = n"
    using assms by (simp_all add: unat_word_ariths unat_of_nat)
  show "unat (of_nat x + b) + unat (of_nat n :: u64) < 2 ^ 64" unfolding 1 using assms by simp
qed

text \<open>One word written to a DMA register.\<close>

lemma dma_register_step:
  assumes pp: "pim_params_ok (pm_params m)" "pm_arch (pm_params m) = 32" and m: "sm_inv m"
    and p: "plain_request WriteReq p x" "length x = 4" "present (mem_view (sm_mem m)) (pk_addr p) 4"
    and f: "pk_addr p = PIM_DMA_NUMBYTES_ADDR (pm_params m) \<and> m1 = m\<lparr>dma_num_bytes := of_nat (le_to_nat x)\<rparr> \<or>
      pk_addr p = PIM_DMA_MEM_ADDR_ADDR (pm_params m) \<and> m1 = m\<lparr>dma_mem_addr := of_nat (le_to_nat x)\<rparr> \<or>
      pk_addr p = PIM_DMA_SPM_ADDR_ADDR (pm_params m) \<and> m1 = m\<lparr>dma_spm_addr := of_nat (le_to_nat x)\<rparr>"
  shows "\<exists>l q am. pim_recvAtomic env rnd now m p = Inr (l, q, m1\<lparr>sm_mem := am\<rparr>) \<and> sm_inv (m1\<lparr>sm_mem := am\<rparr>) \<and>
    am_range am = am_range (sm_mem m) \<and> (\<forall>a k. present (mem_view (sm_mem m)) a k \<longrightarrow> present (mem_view am) a k)"
proof -
  have w: "reg_word (pm_params m) p = Inr (of_nat (le_to_nat x))" "wf_packet p"
    using p pp by (auto simp: plain_request_def intro!: reg_word_of)
  have r: "register_write env now m p = Inr m1" "m5_write now m1 p = Inr m1"
    using register_write_dma_regs [OF pp(1) w(2,1)] f by auto
  have e: "sm_mem m1 = sm_mem m" "sm_inv m1" using f m by (auto simp: sm_inv_def)
  have "present (mem_view (sm_mem m1)) (pk_addr p) (length x)" using p e by simp
  from register_store [OF p(1) r e(2) this, of rnd] e(1) show ?thesis using present_store by metis
qed

lemma dma_registers_written:
  assumes pp: "pim_params_ok (pm_params m)" "pm_arch (pm_params m) = 32" and m: "sm_inv m"
    and p1: "plain_request WriteReq p1 d1" "pk_addr p1 = PIM_DMA_NUMBYTES_ADDR (pm_params m)" "length d1 = 4"
    and p2: "plain_request WriteReq p2 d2" "pk_addr p2 = PIM_DMA_MEM_ADDR_ADDR (pm_params m)" "length d2 = 4"
    and p3: "plain_request WriteReq p3 d3" "pk_addr p3 = PIM_DMA_SPM_ADDR_ADDR (pm_params m)" "length d3 = 4"
    and at: "present (mem_view (sm_mem m)) (pk_addr p1) 4" "present (mem_view (sm_mem m)) (pk_addr p2) 4"
      "present (mem_view (sm_mem m)) (pk_addr p3) 4"
  shows "\<exists>am. let m' = m\<lparr>dma_num_bytes := of_nat (le_to_nat d1), dma_mem_addr := of_nat (le_to_nat d2),
      dma_spm_addr := of_nat (le_to_nat d3), sm_mem := am\<rparr> in
    (\<forall>ps. pim_writes env rnd ((t1, p1) # (t2, p2) # (t3, p3) # ps) m = pim_writes env rnd ps m') \<and> sm_inv m' \<and>
    am_range am = am_range (sm_mem m) \<and> (\<forall>a k. present (mem_view (sm_mem m)) a k \<longrightarrow> present (mem_view am) a k)"
proof -
  let ?w1 = "of_nat (le_to_nat d1) :: u64" and ?w2 = "of_nat (le_to_nat d2) :: u64" and ?w3 = "of_nat (le_to_nat d3) :: u64"
  obtain l1 q1 a1 where r1: "pim_recvAtomic env rnd t1 m p1 = Inr (l1, q1, m\<lparr>dma_num_bytes := ?w1, sm_mem := a1\<rparr>)"
    "sm_inv (m\<lparr>dma_num_bytes := ?w1, sm_mem := a1\<rparr>)"
    "am_range a1 = am_range (sm_mem m)" "\<And>a k. present (mem_view (sm_mem m)) a k \<Longrightarrow> present (mem_view a1) a k"
    using dma_register_step [OF pp m p1(1,3) at(1) disjI1 [OF conjI [OF p1(2) refl]], of env rnd t1] by blast
  define y where "y = m\<lparr>dma_num_bytes := ?w1, sm_mem := a1\<rparr>"
  have y: "pm_params y = pm_params m" "sm_mem y = a1" "sm_inv y" using r1(2) by (simp_all add: y_def)
  have at2: "present (mem_view (sm_mem y)) (pk_addr p2) 4" using r1(4) [OF at(2)] y(2) by simp
  obtain l2 q2 a2 where r2: "pim_recvAtomic env rnd t2 y p2 = Inr (l2, q2, y\<lparr>dma_mem_addr := ?w2, sm_mem := a2\<rparr>)"
    "sm_inv (y\<lparr>dma_mem_addr := ?w2, sm_mem := a2\<rparr>)"
    "am_range a2 = am_range a1" "\<And>a k. present (mem_view a1) a k \<Longrightarrow> present (mem_view a2) a k"
    using dma_register_step [OF _ _ y(3) p2(1,3) at2 disjI2 [OF disjI1 [OF conjI [OF _ refl]]], of env rnd t2] pp p2(2)
    unfolding y(1,2) by blast
  define z where "z = y\<lparr>dma_mem_addr := ?w2, sm_mem := a2\<rparr>"
  have z: "pm_params z = pm_params m" "sm_mem z = a2" "sm_inv z" using r2(2) y(1) by (simp_all add: z_def)
  have at3: "present (mem_view (sm_mem z)) (pk_addr p3) 4" using r2(4) [OF r1(4) [OF at(3)]] z(2) by simp
  obtain l3 q3 a3 where r3: "pim_recvAtomic env rnd t3 z p3 = Inr (l3, q3, z\<lparr>dma_spm_addr := ?w3, sm_mem := a3\<rparr>)"
    "sm_inv (z\<lparr>dma_spm_addr := ?w3, sm_mem := a3\<rparr>)"
    "am_range a3 = am_range a2" "\<And>a k. present (mem_view a2) a k \<Longrightarrow> present (mem_view a3) a k"
    using dma_register_step [OF _ _ z(3) p3(1,3) at3 disjI2 [OF disjI2 [OF conjI [OF _ refl]]], of env rnd t3] pp p3(2)
    unfolding z(1,2) by blast
  have e: "z\<lparr>dma_spm_addr := ?w3, sm_mem := a3\<rparr> = m\<lparr>dma_num_bytes := ?w1, dma_mem_addr := ?w2, dma_spm_addr := ?w3, sm_mem := a3\<rparr>"
    by (simp add: z_def y_def)
  have "pim_writes env rnd ((t1, p1) # (t2, p2) # (t3, p3) # ps) m = pim_writes env rnd ps (z\<lparr>dma_spm_addr := ?w3, sm_mem := a3\<rparr>)" for ps
    using r1(1) r2(1) r3(1) by (simp add: y_def [symmetric] z_def [symmetric])
  then show ?thesis using r1(3,4) r2(3,4) r3(2-4) unfolding e Let_def by (intro exI [of _ a3]) auto
qed

text \<open>The command: the request reaches the engine, and the command byte is stored.\<close>

lemma dma_command_accepted:
  assumes pp: "pim_params_ok (pm_params m)" and m: "sm_inv m" "env_mode env = TimingMode" "dma_num_bytes m \<noteq> 0" "dma_mem_addr m \<noteq> 0"
    and p: "plain_request WriteReq p [c]" "pk_addr p = PIM_DMA_COMMAND_ADDR (pm_params m)" "c \<noteq> 0"
    and at: "present (mem_view (sm_mem m)) (pk_addr p) 1" "present (mem_view (sm_mem m)) (PIM_DMA_STATUS_ADDR (pm_dma m)) 1"
      "PIM_DMA_STATUS_ADDR (pm_dma m) \<noteq> pk_addr p"
    and spm: "spm = dma_spm_addr m + PIM_ADDRESS_BASE (pm_params m)" "PIM_VREG_ADDR (pm_params m) \<le> spm"
      "spm + dma_num_bytes m \<le> PIM_VREG_ADDR (pm_params m) + PIM_VREG_SIZE (pm_params m)"
    and res: "c AND 0x7f \<noteq> 0" "dma_resources (pm_dma m) AND (c AND 0x7f) = 0" "engine_ready now (pm_dma m)"
  shows "\<exists>l q m'. pim_recvAtomic env rnd now m p = Inr (l, q, m') \<and> requests (pm_dma m') = rq_next (pm_dma m) # requests (pm_dma m) \<and>
    rq_heap (pm_dma m') = (rq_heap (pm_dma m))(rq_next (pm_dma m) \<mapsto>
      DMARequest (unat (spm - ar_start (am_range (sm_mem m)))) (dma_mem_addr m) (dma_num_bytes m) (\<not> bit c 7) (c AND 0x7f)) \<and>
    next_state_scheduled (pm_dma m') \<and> dma_resources (pm_dma m') = dma_resources (pm_dma m) OR (c AND 0x7f) \<and>
    mem_view (sm_mem m') (PIM_DMA_STATUS_ADDR (pm_dma m)) = Some (dma_resources (pm_dma m) OR (c AND 0x7f))"
proof -
  let ?res = "c AND 0x7f" and ?m = "m\<lparr>dma_spm_addr := spm\<rparr>" and ?d = "(pm_dma m)\<lparr>pim_mem := sm_mem m\<rparr>"
  let ?v = "unat (spm - ar_start (am_range (sm_mem m)))"
  let ?msg = "if bit c 7 then ''[PIM-DMA] WRITE: DMA resource is already busy!'' else ''[PIM-DMA] READ: DMA resource is already busy!''"
  have wf: "payload_ok p [c]" "wf_packet p" using p(1) by (simp_all add: plain_request_def)
  have dir: "c AND 0x80 = PIM_DMA_READ \<longleftrightarrow> \<not> bit c 7" "c AND 0x80 = PIM_DMA_WRITE \<longleftrightarrow> bit c 7"
    by (simp_all add: top_bit_test PIM_DMA_READ_def PIM_DMA_WRITE_def)
  have "am_inv (pim_mem ?d)" "engine_ready now ?d" using m(1) res(3) by (auto simp: sm_inv_def engine_ready_def engine_idle_def)
  then obtain d' where d': "initiate (\<not> bit c 7) ?msg env now ?v (dma_mem_addr m) (dma_num_bytes m) ?res ?d (pm_dtlb m) (pm_port m) (pm_peer m) =
      Inr (d', pm_dtlb m, pm_port m, pm_peer m)" "requests d' = rq_next (pm_dma m) # requests (pm_dma m)"
    "rq_heap d' = (rq_heap (pm_dma m))(rq_next (pm_dma m) \<mapsto> DMARequest ?v (dma_mem_addr m) (dma_num_bytes m) (\<not> bit c 7) ?res)"
    "dma_resources d' = dma_resources (pm_dma m) OR ?res" "next_state_scheduled d'" "am_inv (pim_mem d')" "am_range (pim_mem d') = am_range (sm_mem m)"
    "mem_view (pim_mem d') = store_at (mem_view (sm_mem m)) (PIM_DMA_STATUS_ADDR (pm_dma m)) [dma_resources (pm_dma m) OR ?res]"
    using initiate_accepts [of ?res ?d now "\<not> bit c 7" ?msg env ?v "dma_mem_addr m" "dma_num_bytes m" "pm_dtlb m" "pm_port m" "pm_peer m"] res(1,2) at(2)
    by auto
  define m1 where "m1 = ?m\<lparr>pm_dma := d', pm_dtlb := pm_dtlb m, pm_port := pm_port m, pm_peer := pm_peer m, sm_mem := pim_mem d'\<rparr>"
  have "dma_command env now m c = Inr m1"
    using p(3) m(2-4) spm dir d'(1) unfolding dma_command_def Let_def
    by (cases "bit c 7") (auto simp: with_dma_def initiate_read_def initiate_write_def m1_def not_less)
  then have r: "register_write env now m p = Inr m1" using register_write_dma_command(1) [OF pp wf(2,1) p(2)] by simp
  have r': "m5_write now m1 p = Inr m1" by (rule register_write_dma_command(2) [OF pp wf(2,1) p(2)]) (simp add: m1_def)
  have i: "sm_inv m1" using m(1) d'(6) by (auto simp: m1_def sm_inv_def)
  have "present (mem_view (sm_mem m1)) (pk_addr p) (length [c])" using at(1) d'(8) by (simp add: m1_def present_store)
  then obtain l q am where q: "pim_recvAtomic env rnd now m p = Inr (l, q, m1\<lparr>sm_mem := am\<rparr>)" "mem_view am = store_at (mem_view (sm_mem m1)) (pk_addr p) [c]"
    using register_store [OF p(1) r r' i, of rnd] by blast
  have "mem_view am (PIM_DMA_STATUS_ADDR (pm_dma m)) = Some (dma_resources (pm_dma m) OR ?res)"
    using q(2) d'(8) at(3) by (simp add: store_at_def m1_def unat_eq_zero)
  then show ?thesis using q(1) d' by (intro exI [of _ l] exI [of _ q] exI [of _ "m1\<lparr>sm_mem := am\<rparr>"]) (simp add: m1_def)
qed

text \<open>C17: Programming the DMA engine of a 32-bit device in timing mode: the host writes the number of bytes and the memory address,
  neither of them zero, and the scratchpad address to their registers, each a little-endian word, and then the command, which is not zero. The
  registers lie in the memory, and the vector registers above its start, below the end of the address space. The transfer is accepted exactly when all
  its bytes lie inside the vector registers, in exact arithmetic (a word of a 32-bit device cannot make the sums wrap); otherwise the
  simulation stops. If it is accepted, its resource is free and the engine is idle or running, then the engine has one more request, at the
  front, for precisely these bytes and addresses, in the direction of the top bit of the command, the resource is taken in the engine and in
  the status register, and nothing else is pending that was not before.\<close>

theorem pim_dma_programmed:
  fixes m :: "'s pim_memory"
  defines "pp \<equiv> pm_params m" and "d \<equiv> pm_dma m"
  assumes pp: "pim_params_ok pp" "pm_arch pp = 32" and m: "sm_inv m" "env_mode env = TimingMode"
    and p1: "plain_request WriteReq p1 d1" "pk_addr p1 = PIM_DMA_NUMBYTES_ADDR pp" "length d1 = 4" "le_to_nat d1 \<noteq> 0"
    and p2: "plain_request WriteReq p2 d2" "pk_addr p2 = PIM_DMA_MEM_ADDR_ADDR pp" "length d2 = 4" "le_to_nat d2 \<noteq> 0"
    and p3: "plain_request WriteReq p3 d3" "pk_addr p3 = PIM_DMA_SPM_ADDR_ADDR pp" "length d3 = 4"
    and p4: "plain_request WriteReq p4 [c]" "pk_addr p4 = PIM_DMA_COMMAND_ADDR pp" "c \<noteq> 0"
    and at: "present (mem_view (sm_mem m)) (pk_addr p1) 4" "present (mem_view (sm_mem m)) (pk_addr p2) 4"
      "present (mem_view (sm_mem m)) (pk_addr p3) 4" "present (mem_view (sm_mem m)) (pk_addr p4) 1"
      "present (mem_view (sm_mem m)) (PIM_DMA_STATUS_ADDR d) 1"
    and conf: "unat (PIM_ADDRESS_BASE pp) < 2 ^ 63" "unat (PIM_VREG_ADDR pp) + unat (PIM_VREG_SIZE pp) < 2 ^ 64"
      "ar_start (am_range (sm_mem m)) \<le> PIM_VREG_ADDR pp" "PIM_DMA_STATUS_ADDR d \<noteq> PIM_DMA_COMMAND_ADDR pp"
  shows "let n = le_to_nat d1; spm = le_to_nat d3 + unat (PIM_ADDRESS_BASE pp); res = c AND 0x7f;
      run = pim_writes env rnd [(t1, p1), (t2, p2), (t3, p3), (t4, p4)] m in
    if unat (PIM_VREG_ADDR pp) \<le> spm \<and> spm + n \<le> unat (PIM_VREG_ADDR pp) + unat (PIM_VREG_SIZE pp)
    then res \<noteq> 0 \<and> dma_resources d AND res = 0 \<and> engine_ready t4 d \<longrightarrow>
      (\<exists>m'. run = Inr m' \<and> requests (pm_dma m') = rq_next d # requests d \<and>
        rq_heap (pm_dma m') = (rq_heap d)(rq_next d \<mapsto>
          DMARequest (spm - unat (ar_start (am_range (sm_mem m)))) (of_nat (le_to_nat d2)) (of_nat n) (\<not> bit c 7) res) \<and>
        next_state_scheduled (pm_dma m') \<and> dma_resources (pm_dma m') = dma_resources d OR res \<and>
        mem_view (sm_mem m') (PIM_DMA_STATUS_ADDR d) = Some (dma_resources d OR res))
    else run = Inl (Panic ''DMA access must be within the PIM's Vector Register File'')"
proof -
  let ?b = "PIM_ADDRESS_BASE pp" and ?s = "le_to_nat d3 + unat (PIM_ADDRESS_BASE pp)" and ?n = "le_to_nat d1" and ?res = "c AND 0x7f"
  have len: "le_to_nat x < 2 ^ 32" if "length x = 4" for x using le_to_nat_bound [of x] that by simp
  obtain am where am: "\<And>ps. pim_writes env rnd ((t1, p1) # (t2, p2) # (t3, p3) # ps) m = pim_writes env rnd ps
      (m\<lparr>dma_num_bytes := of_nat ?n, dma_mem_addr := of_nat (le_to_nat d2), dma_spm_addr := of_nat (le_to_nat d3), sm_mem := am\<rparr>)"
    "sm_inv (m\<lparr>dma_num_bytes := of_nat ?n, dma_mem_addr := of_nat (le_to_nat d2), dma_spm_addr := of_nat (le_to_nat d3), sm_mem := am\<rparr>)"
    "am_range am = am_range (sm_mem m)" "\<And>a k. present (mem_view (sm_mem m)) a k \<Longrightarrow> present (mem_view am) a k"
    using dma_registers_written [of m p1 d1 p2 d2 p3 d3 env rnd t1 t2 t3] pp m(1) p1(1-3) p2(1-3) p3 at(1-3)
    unfolding pp_def Let_def by blast
  let ?x = "m\<lparr>dma_num_bytes := of_nat ?n, dma_mem_addr := of_nat (le_to_nat d2), dma_spm_addr := of_nat (le_to_nat d3), sm_mem := am\<rparr>"
  have run: "pim_writes env rnd [(t1, p1), (t2, p2), (t3, p3), (t4, p4)] m = bindR (pim_recvAtomic env rnd t4 ?x p4) (\<lambda>(_, _, m'). Inr m')"
    unfolding am(1) by (cases "pim_recvAtomic env rnd t4 ?x p4") auto
  let ?spm = "of_nat (le_to_nat d3) + ?b"
  note sum = spm_sum [OF len [OF p3(3)] len [OF p1(3)] conf(1)]
  have nz: "(of_nat ?n :: u64) \<noteq> 0" "(of_nat (le_to_nat d2) :: u64) \<noteq> 0"
    using p1(4) p2(4) spm_sum(2) [OF len [OF p3(3)] len [OF p1(3)] conf(1)] spm_sum(2) [OF len [OF p3(3)] len [OF p2(3)] conf(1)]
    by (metis unat_0)+
  have vs: "unat (PIM_VREG_ADDR pp + PIM_VREG_SIZE pp) = unat (PIM_VREG_ADDR pp) + unat (PIM_VREG_SIZE pp)"
    "unat (?spm + of_nat ?n) = ?s + ?n"
    using conf(2) sum by (simp_all add: unat_word_ariths)
  have within: "unat (PIM_VREG_ADDR pp) \<le> ?s \<and> ?s + ?n \<le> unat (PIM_VREG_ADDR pp) + unat (PIM_VREG_SIZE pp) \<longleftrightarrow>
      PIM_VREG_ADDR pp \<le> ?spm \<and> ?spm + of_nat ?n \<le> PIM_VREG_ADDR pp + PIM_VREG_SIZE pp"
    unfolding word_le_nat_alt vs sum(1) ..
  show ?thesis
  proof (cases "PIM_VREG_ADDR pp \<le> ?spm \<and> ?spm + of_nat ?n \<le> PIM_VREG_ADDR pp + PIM_VREG_SIZE pp")
    case False
    have "dma_command env t4 ?x c = Inl (Panic ''DMA access must be within the PIM's Vector Register File'')"
      using False m(2) nz p4(3) by (auto simp: dma_command_def Let_def pp_def not_le)
    moreover have "payload_ok p4 [c]" "wf_packet p4" "isWrite p4" using p4(1) by (simp_all add: plain_request_def pkt_test_defs cmd_defs)
    ultimately have "pim_recvAtomic env rnd t4 ?x p4 = Inl (Panic ''DMA access must be within the PIM's Vector Register File'')"
      using register_write_dma_command(1) [of ?x p4 c env t4] pp(1) p4(2) by (simp add: pim_recvAtomic_def pp_def)
    then show ?thesis unfolding Let_def within if_not_P [OF False] run by simp
  next
    case True
    have "\<exists>m'. bindR (pim_recvAtomic env rnd t4 ?x p4) (\<lambda>(_, _, m'). Inr m') = Inr m' \<and> requests (pm_dma m') = rq_next d # requests d \<and>
        rq_heap (pm_dma m') = (rq_heap d)(rq_next d \<mapsto> DMARequest (unat (?spm - ar_start (am_range am))) (of_nat (le_to_nat d2)) (of_nat ?n) (\<not> bit c 7) ?res) \<and>
        next_state_scheduled (pm_dma m') \<and> dma_resources (pm_dma m') = dma_resources d OR ?res \<and>
        mem_view (sm_mem m') (PIM_DMA_STATUS_ADDR d) = Some (dma_resources d OR ?res)"
      if "?res \<noteq> 0" "dma_resources d AND ?res = 0" "engine_ready t4 d"
      using dma_command_accepted [of ?x env p4 c ?spm t4 rnd] am(2-4) pp(1) m(2) nz p4 at(4,5) conf(4) True that
      by (auto simp: pp_def d_def)
    moreover have "unat (?spm - ar_start (am_range am)) = ?s - unat (ar_start (am_range (sm_mem m)))"
      using conf(3) True am(3) sum(1) by (subst unat_diff_le) auto
    ultimately show ?thesis unfolding Let_def within if_P [OF True] run by auto
  qed
qed

text \<open>
  On a 64-bit device the sum in the check of the borders may wrap: a number of bytes close to \<open>2 ^ 64\<close> is accepted although
  the transfer leaves the vector registers.
\<close>

lemma pim_dma_check_wraps:
  assumes "env_mode env = TimingMode" "dma_mem_addr m \<noteq> 0" "dma_num_bytes m = -1"
    and "dma_spm_addr m + PIM_ADDRESS_BASE (pm_params m) = PIM_VREG_ADDR (pm_params m)" "PIM_VREG_ADDR (pm_params m) \<noteq> 0"
    and "PIM_VREG_ADDR (pm_params m) \<le> PIM_VREG_ADDR (pm_params m) + PIM_VREG_SIZE (pm_params m)"
  shows "dma_command env now m 1 =
    with_dma (initiate_read env now (unat (PIM_VREG_ADDR (pm_params m) - ar_start (am_range (sm_mem m)))) (dma_mem_addr m) (-1) 1)
      (m\<lparr>dma_spm_addr := PIM_VREG_ADDR (pm_params m)\<rparr>)"
proof -
  have "PIM_VREG_ADDR (pm_params m) - 1 \<le> PIM_VREG_ADDR (pm_params m) + PIM_VREG_SIZE (pm_params m)"
    using assms(5,6) unfolding word_le_nat_alt by (simp add: unat_minus_one)
  then show ?thesis using assms unfolding dma_command_def Let_def by (auto simp: PIM_DMA_READ_def dest: leD)
qed

lemma unat_add3: "unat a + unat b + unat c < 2 ^ 64 \<Longrightarrow> unat (a + b + c) = unat a + unat b + unat c" for a b c :: u64
  by (simp add: unat_word_ariths)

text \<open>What a DMA command does to the address register: it keeps the translated address.\<close>

lemma dma_command_spm:
  "dma_command env now m c = Inr m' \<Longrightarrow> c \<noteq> 0 \<Longrightarrow>
   dma_spm_addr m' = dma_spm_addr m + PIM_ADDRESS_BASE (pm_params m) \<and> pm_params m' = pm_params m \<and>
   dma_num_bytes m' = dma_num_bytes m \<and> dma_mem_addr m' = dma_mem_addr m \<and> env_mode env = TimingMode \<and>
   dma_num_bytes m \<noteq> 0 \<and> dma_mem_addr m \<noteq> 0 \<and>
   PIM_VREG_ADDR (pm_params m) \<le> dma_spm_addr m + PIM_ADDRESS_BASE (pm_params m)"
  by (auto simp: dma_command_def Let_def with_dma_def split: if_split_asm)

text \<open>A DMA command cannot be repeated: the first one leaves the translated address in the register, so the same
  command, issued again without rewriting that register, translates it a second time and, when the base lies at
  least the size of the vector registers above zero, stops the simulation with a panic.\<close>

theorem pim_dma_command_not_repeatable:
  assumes pp: "pim_params_ok (pm_params m)"
    and p: "plain_request WriteReq p [c]" "pk_addr p = PIM_DMA_COMMAND_ADDR (pm_params m)" "c \<noteq> 0"
    and p': "plain_request WriteReq p' [c']" "pk_addr p' = pk_addr p" "c' \<noteq> 0"
    and ok: "pim_recvAtomic env rnd now m p = Inr (l, q, m1)"
    and base: "unat (PIM_VREG_SIZE (pm_params m)) \<le> unat (PIM_ADDRESS_BASE (pm_params m))"
      "unat (dma_spm_addr m + PIM_ADDRESS_BASE (pm_params m)) + unat (PIM_ADDRESS_BASE (pm_params m)) + unat (dma_num_bytes m) < 2 ^ 64"
  shows "dma_spm_addr m1 = dma_spm_addr m + PIM_ADDRESS_BASE (pm_params m) \<and>
    pim_recvAtomic env rnd now' m1 p' = Inl (Panic ''DMA access must be within the PIM's Vector Register File'')"
proof -
  let ?pp = "pm_params m" and ?spm = "dma_spm_addr m + PIM_ADDRESS_BASE (pm_params m)"
  have wf: "payload_ok p [c]" "wf_packet p" "isWrite p" and wf': "payload_ok p' [c']" "wf_packet p'" "isWrite p'"
    using p(1) p'(1) by (simp_all add: plain_request_def pkt_test_defs cmd_defs)
  obtain m0 x where m0: "dma_command env now m c = Inr m0" and x: "m5_write now m0 p = Inr x" "sm_recvAtomic rnd x p = Inr (l, q, m1)"
    using ok wf(3) register_write_dma_command(1) [OF pp wf(2,1) p(2)] by (auto simp: pim_recvAtomic_def)
  note r = dma_command_spm [OF m0 p(3)]
  have m0_only: "sm_recvAtomic rnd m0 p = Inr (l, q, m1)"
    using x register_write_dma_command(2) [OF pp wf(2,1) p(2), of m0] r by simp
  obtain am where m1: "m1 = m0\<lparr>sm_mem := am\<rparr>" using sm_recvAtomic_only_mem [OF m0_only] by blast
  have f: "dma_spm_addr m1 = ?spm" "pm_params m1 = ?pp" "dma_num_bytes m1 = dma_num_bytes m" "dma_mem_addr m1 = dma_mem_addr m"
    using r m1 by simp_all
  have "unat (PIM_VREG_ADDR ?pp) \<le> unat ?spm" "0 < unat (dma_num_bytes m)" using r by (simp_all add: word_le_nat_alt unat_gt_0)
  moreover have "unat (?spm + PIM_ADDRESS_BASE ?pp + dma_num_bytes m) = unat ?spm + unat (PIM_ADDRESS_BASE ?pp) + unat (dma_num_bytes m)"
    using base(2) by (rule unat_add3)
  moreover have "unat (PIM_VREG_ADDR ?pp + PIM_VREG_SIZE ?pp) \<le> unat (PIM_VREG_ADDR ?pp) + unat (PIM_VREG_SIZE ?pp)"
    by (simp add: unat_word_ariths)
  ultimately have "PIM_VREG_ADDR ?pp + PIM_VREG_SIZE ?pp < ?spm + PIM_ADDRESS_BASE ?pp + dma_num_bytes m"
    using base(1) unfolding word_less_nat_alt by linarith
  then have "dma_command env now' m1 c' = Inl (Panic ''DMA access must be within the PIM's Vector Register File'')"
    using r p'(3) unfolding dma_command_def f Let_def by simp
  then show ?thesis using f(1) wf'(3) register_write_dma_command(1) [of m1 p' c' env now'] pp p(2) p'(2) wf'(1,2) f(2)
    by (simp add: pim_recvAtomic_def)
qed

section \<open>Timing\<close>

text \<open>In timing mode a command takes effect once: a refused request leaves memory, TLB, DMA engine and registers as
  they are, so the requester may repeat it, and an accepted one has exactly the effect of the atomic access.\<close>

theorem pim_timing_command_once:
  assumes "pim_recvTimingReq env rnd now m p = Inr (b, q, m')" "\<not> memInhibitAsserted p"
  shows "if b
    then \<exists>m1 l m2. sm_mem m1 = sm_mem m \<and> simple_mem.more m1 = simple_mem.more m \<and>
      pim_recvAtomic env rnd now m1 (p\<lparr>firstWordDelay := 0, lastWordDelay := 0\<rparr>) = Inr (l, q, m2) \<and>
      sm_mem m' = sm_mem m2 \<and> simple_mem.more m' = simple_mem.more m2
    else sm_mem m' = sm_mem m \<and> simple_mem.more m' = simple_mem.more m \<and> q = p \<and> retryReq m'"
proof -
  let ?p = "p\<lparr>firstWordDelay := 0, lastWordDelay := 0\<rparr>"
  let ?m = "m\<lparr>pendingDelete := []\<rparr>"
  show ?thesis
  proof (cases "retryReq m \<or> isBusy m")
    case True
    then show ?thesis using assms by (auto simp: pim_recvTimingReq_def sm_recvTimingReq_def Let_def split: if_splits)
  next
    case False
    then obtain m1 l p' m2 where 1: "sm_occupy now ?m ?p = Inr m1" "pim_recvAtomic env rnd now m1 ?p = Inr (l, p', m2)"
      "sm_respond (needsResponse ?p) now rnd m2 p' = Inr (b, q, m')"
      using assms by (auto simp: pim_recvTimingReq_def sm_recvTimingReq_def Let_def)
    have "sm_mem m1 = sm_mem m" "simple_mem.more m1 = simple_mem.more m"
      using sm_occupy_cases [OF 1(1)] by auto
    moreover have "b" "q = p'" "sm_mem m' = sm_mem m2" "simple_mem.more m' = simple_mem.more m2"
      using 1(3) by (auto simp: sm_respond_def Let_def split: if_split_asm)
    ultimately show ?thesis using 1(2) by auto
  qed
qed


section \<open>Examples\<close>

definition ex_pim_mem :: abstract_mem where
  "ex_pim_mem = setBackingStore (AbstractMemory (mkAddrRange 0 0xff)) (replicate 256 0)"

definition ex_pim :: "packet list pim_memory" where
  "ex_pim = ethz_PIMMemory (SimpleMemory ex_pim_mem 10 0 (\<lambda>_. 0)) (ex_pp\<lparr>PIM_ADDRESS_BASE := 0x40, PIM_VREG_ADDR := 0x40\<rparr>) 0
     ex_tlb ex_dma (mkDmaPort 1) [] True 1"

lemma ex_pim_facts:
  "sm_inv ex_pim" "pim_params_ok (pm_params ex_pim)" "sm_mem ex_pim = ex_pim_mem"
  "pm_params ex_pim = ex_pp\<lparr>PIM_ADDRESS_BASE := 0x40, PIM_VREG_ADDR := 0x40\<rparr>"
proof -
  have "am_inv ex_pim_mem"
    by (simp add: am_inv_def locks_ok_def mem_inv_def ex_pim_mem_def setBackingStore_def AbstractMemory_def range_valid_def)
  then show "sm_inv ex_pim"
    by (simp add: ex_pim_def ethz_PIMMemory_def simple_mem.defs SimpleMemory_def sm_inv_def queue_ok_def)
  show "sm_mem ex_pim = ex_pim_mem"
    "pm_params ex_pim = ex_pp\<lparr>PIM_ADDRESS_BASE := 0x40, PIM_VREG_ADDR := 0x40\<rparr>"
    by (simp_all add: ex_pim_def ethz_PIMMemory_def simple_mem.defs SimpleMemory_def)
  then show "pim_params_ok (pm_params ex_pim)" by (simp add: pim_params_ok_def command_addrs_def ex_pp_def)
qed

lemma ex_pim_zero:
  assumes "unat a + n \<le> 256"
  shows "bytes_at (mem_view ex_pim_mem) a (replicate n 0)"
proof -
  have "mem_view ex_pim_mem (a + of_nat i) = Some 0" if "i < n" for i
  proof -
    have "unat (a + of_nat i) = unat a + i" using that assms by (intro unat_add_of_nat) simp
    then show ?thesis
      using that assms by (simp add: mem_view_def ex_pim_mem_def setBackingStore_def AbstractMemory_def word_le_nat_alt)
  qed
  then show ?thesis by (simp add: bytes_at_def)
qed

lemma ex_plain:
  assumes "d \<noteq> []" "unat a + length d \<le> 256"
  shows "plain_request c (ctx_packet c a d 0) d"
proof -
  have "payload_ok (ctx_packet c a d 0) d" using assms by (intro ctx_payload_ok) simp_all
  then show ?thesis
    by (simp add: plain_request_def ctx_packet_def plain_packet_def wf_packet_def packet_eval_defs hasPaddr_def)
qed

theorem pim_data_write_read_witness:
  "\<exists>q m1 r m2. pim_recvAtomic ex_env 0 0 ex_pim (ctx_packet WriteReq 0x20 [1, 2] 0) = Inr (10, q, m1) \<and>
    pim_recvAtomic ex_env 0 0 m1 (ctx_packet ReadReq 0x20 [0, 0] 0) = Inr (10, r, m2) \<and> getPtr r = Inr [1, 2] \<and>
    pm_dma m1 = pm_dma ex_pim"
proof -
  have at: "bytes_at (pim_view ex_pim) (pk_addr (ctx_packet WriteReq 0x20 [1, 2] 0)) (replicate 2 0)"
  proof -
    have "(0x20 :: Addr) + of_nat i \<notin> set (command_addrs (pm_params ex_pim))" if "i < 2" for i
      using that by (cases i) (auto simp: ex_pim_facts command_addrs_def ex_pp_def)
    then show ?thesis using ex_pim_zero [of "0x20" 2] by (simp add: bytes_at_def pim_view_def ex_pim_facts)
  qed
  have lat: "getLatency ex_pim 0 = 10"
    by (simp add: ex_pim_def ethz_PIMMemory_def simple_mem.defs SimpleMemory_def getLatency_def)
  have p: "plain_request WriteReq (ctx_packet WriteReq 0x20 [1, 2] 0) [1, 2]"
    "plain_request ReadReq (ctx_packet ReadReq 0x20 [0, 0] 0) [0, 0]" by (rule ex_plain; simp)+
  obtain q m1 r m2 am where "pim_recvAtomic ex_env 0 0 ex_pim (ctx_packet WriteReq 0x20 [1, 2] 0) = Inr (10, q, m1)"
    "m1 = ex_pim\<lparr>sm_mem := am\<rparr>" "pim_recvAtomic ex_env 0 0 m1 (ctx_packet ReadReq 0x20 [0, 0] 0) = Inr (10, r, m2)"
    "getPtr r = Inr [1, 2]"
    using pim_data_write_read [OF ex_pim_facts(1) p(1) at _ p(2), of ex_env 0 0] lat by auto
  then show ?thesis by (intro exI conjI) (assumption, assumption, assumption, simp)
qed

theorem pim_slice_registers_witness:
  "\<exists>q am. pim_recvAtomic ex_env 0 0 ex_pim (ctx_packet WriteReq 0x84 [8, 1, 0, 0] 0) =
     Inr (10, q, ex_pim\<lparr>pm_dtlb := (pm_dtlb ex_pim)\<lparr>PIM_SLICETABLE_PTR := 0x108\<rparr>, sm_mem := am\<rparr>)"
proof -
  let ?p = "ctx_packet WriteReq 0x84 [8, 1, 0, 0] 0" and ?r = "ctx_packet ReadReq 0x84 [0, 0, 0, 0] 0"
  have p: "plain_request WriteReq ?p [8, 1, 0, 0]" "plain_request ReadReq ?r [0, 0, 0, 0]" by (rule ex_plain; simp)+
  have at: "bytes_at (mem_view (sm_mem ex_pim)) (pk_addr ?p) (replicate 4 0)"
    using ex_pim_zero [of "0x84" 4] by (simp add: ex_pim_facts)
  have lat: "getLatency ex_pim 0 = 10"
    by (simp add: ex_pim_def ethz_PIMMemory_def simple_mem.defs SimpleMemory_def getLatency_def)
  show ?thesis
    using pim_slice_registers [OF ex_pim_facts(2,1) p(1) _ at _ _ p(2), of "(pm_dtlb ex_pim)\<lparr>PIM_SLICETABLE_PTR := 0x108\<rparr>" ex_env 0 0]
      lat by (auto simp: ex_pim_facts ex_pp_def)
qed

definition ex_pim_dma :: "packet list pim_memory" where
  "ex_pim_dma = ex_pim\<lparr>dma_num_bytes := 16, dma_mem_addr := 0x100\<rparr>"

lemma ex_pim_present: "unat a + n \<le> 256 \<Longrightarrow> present (mem_view (sm_mem ex_pim)) a n"
  using ex_pim_zero [of a n] by (simp add: ex_pim_facts present_def bytes_at_def)

text \<open>Sixteen bytes from memory address \<open>0x100\<close> to the start of the vector registers, with resource 1.\<close>

theorem pim_dma_programmed_witness:
  "\<exists>m'. pim_writes ex_env 0 [(0, ctx_packet WriteReq 0xa8 [16, 0, 0, 0] 0), (1, ctx_packet WriteReq 0xa0 [0, 1, 0, 0] 0),
      (2, ctx_packet WriteReq 0xa4 [0, 0, 0, 0] 0), (3, ctx_packet WriteReq 0xac [1] 0)] ex_pim = Inr m' \<and>
    requests (pm_dma m') = [0] \<and> rq_heap (pm_dma m') 0 = Some (DMARequest 0x40 0x100 16 True 1) \<and> dma_resources (pm_dma m') = 1"
proof -
  let ?p1 = "ctx_packet WriteReq 0xa8 [16, 0, 0, 0] 0" and ?p2 = "ctx_packet WriteReq 0xa0 [0, 1, 0, 0] 0"
    and ?p3 = "ctx_packet WriteReq 0xa4 [0, 0, 0, 0] 0" and ?p4 = "ctx_packet WriteReq 0xac [1] 0"
  have p: "plain_request WriteReq ?p1 [16, 0, 0, 0]" "plain_request WriteReq ?p2 [0, 1, 0, 0]" "plain_request WriteReq ?p3 [0, 0, 0, 0]"
    "plain_request WriteReq ?p4 [1]" by (rule ex_plain; simp)+
  have d: "pm_dma ex_pim = ex_dma\<lparr>isTimingMode := True, pim_mem := ex_pim_mem\<rparr>"
    by (simp add: ex_pim_def ethz_PIMMemory_def simple_mem.defs SimpleMemory_def)
  have e: "PIM_DMA_STATUS_ADDR (pm_dma ex_pim) = 31" "dma_resources (pm_dma ex_pim) = 0" "rq_next (pm_dma ex_pim) = 0"
    "requests (pm_dma ex_pim) = []" "engine_ready 3 (pm_dma ex_pim)"
    by (simp_all add: d ex_dma_def mkEthzDMA_def engine_ready_def engine_idle_def)
  have c: "PIM_VREG_SIZE ex_pp = 0x40" "PIM_DMA_COMMAND_ADDR ex_pp = 0xac" "PIM_DMA_NUMBYTES_ADDR ex_pp = 0xa8" "PIM_DMA_MEM_ADDR_ADDR ex_pp = 0xa0"
    "PIM_DMA_SPM_ADDR_ADDR ex_pp = 0xa4" "pm_arch ex_pp = 32" "env_mode ex_env = TimingMode" "ar_start (am_range ex_pim_mem) = 0"
    by (simp_all add: ex_pp_def ex_env_def ex_pim_mem_def setBackingStore_def AbstractMemory_def)
  have pr: "present (mem_view (sm_mem ex_pim)) (pk_addr ?p1) 4" "present (mem_view (sm_mem ex_pim)) (pk_addr ?p2) 4"
    "present (mem_view (sm_mem ex_pim)) (pk_addr ?p3) 4" "present (mem_view (sm_mem ex_pim)) (pk_addr ?p4) 1"
    "present (mem_view (sm_mem ex_pim)) (PIM_DMA_STATUS_ADDR (pm_dma ex_pim)) 1"
    by (simp_all add: ex_pim_present e(1))
  show ?thesis
    using pim_dma_programmed [OF ex_pim_facts(2) _ ex_pim_facts(1) _ p(1) _ _ _ p(2) _ _ _ p(3) _ _ p(4) _ _ pr, of ex_env 0 0 1 2 3]
    by (simp add: ex_pim_facts c e Let_def del: pim_writes.simps) (elim exE conjE, intro exI conjI, assumption, simp_all)
qed

theorem pim_timing_command_once_witness:
  "\<exists>m'. pim_recvTimingReq ex_env 0 0 (ex_pim_dma\<lparr>isBusy := True, retryReq := False\<rparr>) (ctx_packet WriteReq 0xac [1] 0) =
     Inr (False, ctx_packet WriteReq 0xac [1] 0, m') \<and> sm_mem m' = sm_mem ex_pim_dma \<and>
     simple_mem.more m' = simple_mem.more ex_pim_dma \<and> retryReq m'"
proof -
  let ?m = "ex_pim_dma\<lparr>isBusy := True, retryReq := False\<rparr>" and ?p = "ctx_packet WriteReq 0xac [1] 0"
  have ni: "\<not> memInhibitAsserted ?p" using ex_plain [of "[1]" "0xac" WriteReq] by (simp add: plain_request_def)
  have "pim_recvTimingReq ex_env 0 0 ?m ?p = Inr (False, ?p, ?m\<lparr>pendingDelete := [], retryReq := True\<rparr>)"
    using ni by (simp add: pim_recvTimingReq_def sm_recvTimingReq_def Let_def)
  from this pim_timing_command_once [OF this ni] show ?thesis by auto
qed

theorem pim_dma_command_not_repeatable_witness:
  "\<exists>l q m1. pim_recvAtomic ex_env 0 0 ex_pim_dma (ctx_packet WriteReq 0xac [1] 0) = Inr (l, q, m1) \<and>
    dma_spm_addr m1 = 0x40 \<and>
    pim_recvAtomic ex_env 0 1 m1 (ctx_packet WriteReq 0xac [2] 0) =
      Inl (Panic ''DMA access must be within the PIM's Vector Register File'')"
proof -
  let ?p = "ctx_packet WriteReq 0xac [1] 0"
  have par: "pm_params ex_pim_dma = ex_pp\<lparr>PIM_ADDRESS_BASE := 0x40, PIM_VREG_ADDR := 0x40\<rparr>" "dma_spm_addr ex_pim_dma = 0"
    "dma_num_bytes ex_pim_dma = 16"
    by (simp_all add: ex_pim_dma_def ex_pim_facts) (simp add: ex_pim_def ethz_PIMMemory_def simple_mem.defs)
  have c: "PIM_VREG_SIZE ex_pp = 0x40" "PIM_DMA_COMMAND_ADDR ex_pp = 0xac" by (simp_all add: ex_pp_def)
  have ok: "pim_params_ok (pm_params ex_pim_dma)" using ex_pim_facts(2) by (simp add: ex_pim_dma_def)
  have p: "plain_request WriteReq (ctx_packet WriteReq 0xac [v] 0) [v]" for v by (rule ex_plain; simp)
  have "\<exists>m0. dma_command ex_env 0 ex_pim_dma 1 = Inr m0 \<and> pm_params m0 = pm_params ex_pim_dma \<and> 
     (\<exists>l q m1. sm_recvAtomic 0 m0 ?p = Inr (l, q, m1))"
    by (simp add: dma_command_def with_dma_def ex_pim_dma_def ex_pim_def ethz_PIMMemory_def simple_mem.defs SimpleMemory_def
      ex_pp_def PIM_DMA_READ_def ex_pim_mem_def dma_scenario ctx_packet_def plain_packet_def sm_recvAtomic_def sm_access_def)
  then obtain m0 l q m1 where m0: "dma_command ex_env 0 ex_pim_dma 1 = Inr m0" "pm_params m0 = pm_params ex_pim_dma"
    "sm_recvAtomic 0 m0 ?p = Inr (l, q, m1)" by blast
  have m5: "m5_write 0 m0 ?p = Inr m0"
    using register_write_dma_command(2) [OF ok, of ?p 1 m0 0] p [of 1] m0(2) par c by (simp add: plain_request_def)
  have "pim_recvAtomic ex_env 0 0 ex_pim_dma ?p = Inr (l, q, m1)"
    using m0 m5 register_write_dma_command(1) [OF ok, of ?p 1] p [of 1] par c
    by (simp add: pim_recvAtomic_def plain_request_def pkt_test_defs cmd_defs)
  from this pim_dma_command_not_repeatable [OF ok p [of 1] _ _ p [of 2] _ _ this, of 1] show ?thesis
    by (simp add: par c)
qed

end
