(* ===== verification/PimTask.thy ===== *)
theory PimTask
  imports Prelude
begin

text \<open>
  The tasks of the host library (\<open>pim_task.hh\<close> and \<open>pim_task.cc\<close> under \<open>src/SMC_original/SW/HOST/api\<close>): the data
  sets that a kernel works on and the virtual pages they occupy, which the driver turns into the slice
  table of the device. \<open>ulong_t\<close> is modelled at 64 bits. The objects behind the two vectors of pointers are
  owned by the task and never shared, so the vectors hold the objects themselves. The compile-time switch
  \<open>DEBUG_API\<close> is an argument; a failed \<open>ASSERT_DBG\<close> ends the program with code 1. Printing is left out.
\<close>

section \<open>State\<close>

record pim_data =
  v_addr :: u64
  d_size :: u64
  d_reg :: u64

record pim_page =
  v_pn_start :: u64
  v_pn_end :: u64
  pg_count :: u64

record pim_task =
  task_name :: string
  task_data :: "pim_data list"
  vpages :: "pim_page list"
  task_updated :: bool
  stat_datasize :: u64

text \<open>The parameters of the build: the debug switch and the lowest address of offloaded data.\<close>

record task_params =
  DEBUG_API :: bool
  PIM_HOST_OFFSET :: u64
  PAGE_SHIFT :: nat

definition ASSERT_DBG :: "task_params \<Rightarrow> bool \<Rightarrow> 'a res \<Rightarrow> 'a res" where
  "ASSERT_DBG c b k = (if DEBUG_API c \<and> \<not> b then Inl (Exit 1) else k)"

definition PIMTask :: "string \<Rightarrow> pim_task" where
  "PIMTask n = \<lparr>task_name = n, task_data = [], vpages = [], task_updated = False, stat_datasize = 0\<rparr>"

section \<open>Data sets\<close>

text \<open>
  The loop of \<open>addData\<close>: the new data set goes in front of the first one with a greater address; the flag
  tells whether there was one.
\<close>

fun insert_data :: "pim_data \<Rightarrow> pim_data list \<Rightarrow> bool \<times> pim_data list" where
  "insert_data d [] = (False, [d])"
| "insert_data d (x # xs) =
     (if v_addr x > v_addr d then (True, d # x # xs)
      else case insert_data d xs of (early, ys) \<Rightarrow> (early, x # ys))"

definition addData :: "task_params \<Rightarrow> u64 \<Rightarrow> u64 \<Rightarrow> u32 \<Rightarrow> pim_task \<Rightarrow> pim_task res" where
  "addData c addr sz reg t =
     ASSERT_DBG c (addr \<ge> PIM_HOST_OFFSET c)
       (case insert_data \<lparr>v_addr = addr, d_size = sz, d_reg = ucast reg\<rparr> (task_data t) of
          (early, ds) \<Rightarrow>
            Inr (t\<lparr>stat_datasize := stat_datasize t + sz, task_data := ds,
                   task_updated := (if early then task_updated t else False)\<rparr>))"

section \<open>Pages\<close>

definition end_address :: "pim_data \<Rightarrow> u64" where
  "end_address d = v_addr d + d_size d - 1"

definition start_page :: "task_params \<Rightarrow> pim_data \<Rightarrow> u64" where
  "start_page c d = drop_bit (PAGE_SHIFT c) (v_addr d)"

definition end_page :: "task_params \<Rightarrow> pim_data \<Rightarrow> u64" where
  "end_page c d = drop_bit (PAGE_SHIFT c) (end_address d)"

definition new_page :: "task_params \<Rightarrow> pim_data \<Rightarrow> pim_page" where
  "new_page c d =
     \<lparr>v_pn_start = start_page c d, v_pn_end = end_page c d, pg_count = end_page c d - start_page c d + 1\<rparr>"

text \<open>
  The loop over the data sets, with the region under construction, the end of the previous data set and the
  regions that are finished.
\<close>

fun pages_loop ::
    "task_params \<Rightarrow> pim_data list \<Rightarrow> pim_page option \<Rightarrow> u64 \<Rightarrow> pim_page list \<Rightarrow> pim_page list res" where
  "pages_loop c [] pg prev vp = Inr (case pg of None \<Rightarrow> vp | Some p \<Rightarrow> vp @ [p])"
| "pages_loop c (d # ds) pg prev vp =
     (case (case pg of
              None \<Rightarrow> (new_page c d, vp)
            | Some p \<Rightarrow>
                if v_pn_end p \<ge> start_page c d - 1
                then (p\<lparr>v_pn_end := end_page c d, pg_count := end_page c d - v_pn_start p + 1\<rparr>, vp)
                else (new_page c d, vp @ [p])) of
        (p', vp') \<Rightarrow>
          ASSERT_DBG c (\<not> (prev \<noteq> 0 \<and> prev > v_addr d)) (pages_loop c ds (Some p') (end_address d) vp'))"

definition updatePages :: "task_params \<Rightarrow> pim_task \<Rightarrow> pim_task res" where
  "updatePages c t =
     bindR (pages_loop c (task_data t) None 0 (vpages t)) (\<lambda>vp. Inr (t\<lparr>vpages := vp, task_updated := True\<rparr>))"

section \<open>Sorted data\<close>

definition data_sorted :: "pim_data list \<Rightarrow> bool" where
  "data_sorted ds \<longleftrightarrow> sorted (map v_addr ds)"

lemma set_snd_insert_data: "set (snd (insert_data d xs)) = insert d (set xs)"
  by (induction xs) (simp_all add: case_prod_beta insert_commute)

lemma insert_data_set: "insert_data d xs = (e, ys) \<Longrightarrow> set ys = insert d (set xs)"
  using set_snd_insert_data [of d xs] by simp

lemma insert_data_sorted: "insert_data d xs = (e, ys) \<Longrightarrow> data_sorted xs \<Longrightarrow> data_sorted ys"
proof (induction xs arbitrary: e ys)
  case (Cons x xs)
  show ?case
  proof (cases "v_addr x > v_addr d")
    case True
    then have "v_addr d \<le> v_addr x" by (rule less_imp_le)
    moreover have "ys = d # x # xs" using True Cons.prems(1) by simp
    ultimately show ?thesis using Cons.prems(2) order_trans [of "v_addr d" "v_addr x"] by (simp add: data_sorted_def)
  next
    case False
    obtain e' ys' where i: "insert_data d xs = (e', ys')" by fastforce
    have "data_sorted ys'" using Cons.IH [OF i] Cons.prems(2) by (simp add: data_sorted_def)
    moreover have "v_addr x \<le> v_addr y" if "y \<in> set ys'" for y
      using that False insert_data_set [OF i] Cons.prems(2) by (auto simp: data_sorted_def)
    moreover have "ys = x # ys'" using Cons.prems(1) i False by simp
    ultimately show ?thesis by (simp add: data_sorted_def)
  qed
qed (simp add: data_sorted_def)

text \<open>The task that a list of calls of \<open>addData\<close> builds.\<close>

fun add_all :: "task_params \<Rightarrow> (u64 \<times> u64 \<times> u32) list \<Rightarrow> pim_task \<Rightarrow> pim_task res" where
  "add_all c [] t = Inr t"
| "add_all c ((a, n, r) # xs) t = bindR (addData c a n r t) (add_all c xs)"

definition data_of :: "u64 \<times> u64 \<times> u32 \<Rightarrow> pim_data" where
  "data_of x = (case x of (a, n, r) \<Rightarrow> \<lparr>v_addr = a, d_size = n, d_reg = ucast r\<rparr>)"

lemma addData_ok:
  assumes "PIM_HOST_OFFSET c \<le> a"
  shows "\<exists>t'. addData c a n r t = Inr t' \<and> set (task_data t') = insert (data_of (a, n, r)) (set (task_data t)) \<and>
    vpages t' = vpages t \<and> (data_sorted (task_data t) \<longrightarrow> data_sorted (task_data t'))"
proof -
  obtain e ds where i: "insert_data (data_of (a, n, r)) (task_data t) = (e, ds)" by fastforce
  then show ?thesis
    using assms insert_data_set [OF i] insert_data_sorted [OF i] by (simp add: addData_def ASSERT_DBG_def data_of_def)
qed

lemma add_all_ok:
  assumes "\<forall>(a, n, r) \<in> set xs. PIM_HOST_OFFSET c \<le> a"
  shows "\<exists>t'. add_all c xs t = Inr t' \<and> set (task_data t') = data_of ` set xs \<union> set (task_data t) \<and>
    vpages t' = vpages t \<and> (data_sorted (task_data t) \<longrightarrow> data_sorted (task_data t'))"
  using assms
proof (induction xs arbitrary: t)
  case (Cons x xs)
  obtain a n r where x: "x = (a, n, r)" by (cases x) auto
  then have "PIM_HOST_OFFSET c \<le> a" using Cons.prems by auto
  from addData_ok [OF this, of n r t] obtain t1 where t1: "addData c a n r t = Inr t1"
    "set (task_data t1) = insert (data_of (a, n, r)) (set (task_data t))" "vpages t1 = vpages t"
    "data_sorted (task_data t) \<longrightarrow> data_sorted (task_data t1)" by blast
  with Cons.IH [of t1] Cons.prems x show ?case by auto
qed simp

section \<open>Regions\<close>

text \<open>The page numbers of a data set, and of a region.\<close>

definition data_pages :: "task_params \<Rightarrow> pim_data \<Rightarrow> nat set" where
  "data_pages c d = (\<lambda>i. i div 2 ^ PAGE_SHIFT c) ` {unat (v_addr d) ..< unat (v_addr d) + unat (d_size d)}"

definition region_pages :: "pim_page \<Rightarrow> nat set" where
  "region_pages p = {unat (v_pn_start p) .. unat (v_pn_end p)}"

text \<open>A data set that is not empty, does not wrap around and does not touch page 0.\<close>

definition data_ok :: "task_params \<Rightarrow> pim_data \<Rightarrow> bool" where
  "data_ok c d \<longleftrightarrow> 0 < unat (d_size d) \<and> unat (v_addr d) + unat (d_size d) \<le> 2 ^ 64 \<and> 2 ^ PAGE_SHIFT c \<le> unat (v_addr d)"

definition before :: "pim_data \<Rightarrow> pim_data \<Rightarrow> bool" where
  "before x y \<longleftrightarrow> unat (v_addr x) + unat (d_size x) \<le> unat (v_addr y)"

definition region_ok :: "pim_page \<Rightarrow> bool" where
  "region_ok p \<longleftrightarrow> unat (v_pn_start p) \<le> unat (v_pn_end p) \<and> pg_count p = v_pn_end p - v_pn_start p + 1"

definition separated :: "pim_page list \<Rightarrow> bool" where
  "separated rs \<longleftrightarrow> sorted_wrt (\<lambda>r s. unat (v_pn_end r) + 1 < unat (v_pn_start s)) rs \<and> (\<forall>r \<in> set rs. region_ok r)"

lemma unat_drop_bit: "unat (drop_bit k w) = unat w div 2 ^ k" for w :: u64
proof -
  have "take_bit 64 (unat w) = unat w" using unsigned_less [of w, where 'a = nat] by (intro take_bit_nat_eq_self) simp
  then have "unat (drop_bit k w) = drop_bit k (unat w)" by (simp add: unsigned_drop_bit_eq)
  then show ?thesis by (simp only: drop_bit_eq_div)
qed

lemma div_image_interval:
  fixes a n k :: nat
  assumes "0 < n" "0 < k"
  shows "(\<lambda>i. i div k) ` {a ..< a + n} = {a div k .. (a + n - 1) div k}"
proof (intro set_eqI iffI)
  fix q assume "q \<in> (\<lambda>i. i div k) ` {a ..< a + n}"
  then obtain i where "q = i div k" "a \<le> i" "i \<le> a + n - 1" by auto
  then show "q \<in> {a div k .. (a + n - 1) div k}" using div_le_mono by auto
next
  fix q assume q: "q \<in> {a div k .. (a + n - 1) div k}"
  show "q \<in> (\<lambda>i. i div k) ` {a ..< a + n}"
  proof (cases "q = a div k")
    case False
    then have "a div k < q" using q by simp
    then have lo: "a < q * k" using assms(2) by (simp add: div_less_iff_less_mult)
    have "q * k \<le> (a + n - 1) div k * k" using q by simp
    also have "\<dots> \<le> a + n - 1" by (rule div_times_less_eq_dividend)
    finally have "q * k < a + n" using assms(1) by linarith
    then have "q * k \<in> {a ..< a + n}" using lo by simp
    then show ?thesis using assms(2) by (intro image_eqI [of _ _ "q * k"]) simp_all
  qed (use assms in auto)
qed

lemma data_page_ends:
  assumes "data_ok c d"
  shows "unat (start_page c d) = unat (v_addr d) div 2 ^ PAGE_SHIFT c"
    "unat (end_page c d) = (unat (v_addr d) + unat (d_size d) - 1) div 2 ^ PAGE_SHIFT c"
    "data_pages c d = {unat (start_page c d) .. unat (end_page c d)}" "0 < unat (start_page c d)"
    "unat (start_page c d) \<le> unat (end_page c d)"
    "unat (start_page c d - 1) = unat (start_page c d) - 1"
proof -
  have e: "unat (end_address d) = unat (v_addr d) + unat (d_size d) - 1"
    using unat_range_end [of "unat (d_size d)" "v_addr d"] assms by (simp add: end_address_def data_ok_def)
  show s: "unat (start_page c d) = unat (v_addr d) div 2 ^ PAGE_SHIFT c" by (simp add: start_page_def unat_drop_bit)
  show e: "unat (end_page c d) = (unat (v_addr d) + unat (d_size d) - 1) div 2 ^ PAGE_SHIFT c"
    by (simp add: end_page_def unat_drop_bit e)
  show "data_pages c d = {unat (start_page c d) .. unat (end_page c d)}"
    unfolding data_pages_def s e using assms by (intro div_image_interval) (simp_all add: data_ok_def)
  show "0 < unat (start_page c d)" using assms unfolding s data_ok_def by (simp add: div_greater_zero_iff)
  then show "unat (start_page c d - 1) = unat (start_page c d) - 1"
    by (metis unat_minus_one unat_0 less_irrefl)
  show "unat (start_page c d) \<le> unat (end_page c d)"
    unfolding s e using assms by (intro div_le_mono) (auto simp: data_ok_def)
qed

lemma before_pages: "before x y \<Longrightarrow> data_ok c x \<Longrightarrow> data_ok c y \<Longrightarrow> unat (end_page c x) \<le> unat (start_page c y)"
  unfolding data_page_ends(1,2) before_def by (intro div_le_mono) simp

lemma separated_Cons:
  assumes "separated rs" "rs \<noteq> []" "region_ok p" "unat (v_pn_end p) + 1 < unat (v_pn_start (hd rs))"
  shows "separated (p # rs)"
proof -
  have "unat (v_pn_start (hd rs)) \<le> unat (v_pn_start r)" if "r \<in> set rs" for r
    using assms(1,2) that by (cases rs) (auto simp: separated_def region_ok_def)
  then show ?thesis using assms by (fastforce simp: separated_def)
qed

lemma pages_loop_spec:
  assumes "sorted_wrt before (x # ds)" "\<forall>d \<in> set (x # ds). data_ok c d"
    and "region_ok p" "v_pn_end p = end_page c x" "prev = end_address x"
  shows "\<exists>rs. pages_loop c ds (Some p) prev vp = Inr (vp @ rs) \<and> rs \<noteq> [] \<and> v_pn_start (hd rs) = v_pn_start p \<and>
    (\<Union>r \<in> set rs. region_pages r) = region_pages p \<union> (\<Union>d \<in> set ds. data_pages c d) \<and> separated rs"
  using assms
proof (induction ds arbitrary: x p prev vp)
  case Nil
  then show ?case by (intro exI [of _ "[p]"]) (simp add: separated_def)
next
  case (Cons d ds)
  note ok = data_page_ends [of c d]
  have d: "data_ok c d" "data_ok c x" "before x d" using Cons.prems by simp_all
  have ord: "unat (v_pn_end p) \<le> unat (start_page c d)" using before_pages [OF d(3,2,1)] Cons.prems(4) by simp
  have rest: "sorted_wrt before (d # ds)" "\<forall>d \<in> set (d # ds). data_ok c d" using Cons.prems by simp_all
  have "end_address x \<le> v_addr d"
  proof -
    have "unat (end_address x) \<le> unat (v_addr d)"
      using unat_range_end [of "unat (d_size x)" "v_addr x"] d(2,3) by (simp add: end_address_def data_ok_def before_def)
    then show ?thesis by (simp add: word_le_nat_alt)
  qed
  then have ass: "ASSERT_DBG c (\<not> (prev \<noteq> 0 \<and> prev > v_addr d)) k = k" for k :: "pim_page list res"
    using Cons.prems(5) by (auto simp: ASSERT_DBG_def)
  show ?case
  proof (cases "v_pn_end p \<ge> start_page c d - 1")
    case True
    let ?p = "p\<lparr>v_pn_end := end_page c d, pg_count := end_page c d - v_pn_start p + 1\<rparr>"
    have rp: "region_ok ?p" using ord ok(5) d(1) Cons.prems(3) by (simp add: region_ok_def)
    have "region_pages ?p = region_pages p \<union> data_pages c d"
      using True ok d(1) ord Cons.prems(3) by (auto simp: region_pages_def word_le_nat_alt region_ok_def)
    then show ?thesis
      using Cons.IH [OF rest rp, of "end_address d" vp] True ass by auto
  next
    case False
    then have gap: "unat (v_pn_end p) + 1 < unat (start_page c d)" using ok(6) d(1) by (simp add: word_le_nat_alt)
    have rp: "region_ok (new_page c d)" "region_pages (new_page c d) = data_pages c d"
      using ok d(1) by (simp_all add: region_ok_def new_page_def region_pages_def)
    obtain rs where rs: "pages_loop c ds (Some (new_page c d)) (end_address d) (vp @ [p]) = Inr ((vp @ [p]) @ rs)" "rs \<noteq> []"
      "v_pn_start (hd rs) = start_page c d" "separated rs"
      "(\<Union>r \<in> set rs. region_pages r) = data_pages c d \<union> (\<Union>d \<in> set ds. data_pages c d)"
      using Cons.IH [OF rest rp(1), of "end_address d" "vp @ [p]"] rp(2) by (auto simp: new_page_def)
    have "separated (p # rs)" using separated_Cons [OF rs(4,2) Cons.prems(3)] gap rs(3) by simp
    then show ?thesis using rs False ass by (intro exI [of _ "p # rs"]) auto
  qed
qed


text \<open>Two data sets that do not overlap.\<close>

definition apart :: "pim_data \<Rightarrow> pim_data \<Rightarrow> bool" where
  "apart x y \<longleftrightarrow> before x y \<or> before y x"

lemma apart_commute: "apart x y \<longleftrightarrow> apart y x"
  by (auto simp: apart_def)

lemma insert_data_apart:
  "sorted_wrt apart xs \<Longrightarrow> \<forall>x \<in> set xs. apart d x \<Longrightarrow> sorted_wrt apart (snd (insert_data d xs))"
proof (induction xs)
  case (Cons x xs)
  then have "sorted_wrt apart (snd (insert_data d xs))" "apart x d" by (simp_all add: apart_commute [of x])
  then show ?case using Cons.prems by (simp add: case_prod_beta set_snd_insert_data)
qed simp

lemma add_all_apart:
  assumes "sorted_wrt apart (map data_of xs)" "\<forall>(a, n, r) \<in> set xs. PIM_HOST_OFFSET c \<le> a"
    "\<forall>x \<in> set xs. \<forall>y \<in> set (task_data t). apart (data_of x) y" "sorted_wrt apart (task_data t)" "add_all c xs t = Inr t'"
  shows "sorted_wrt apart (task_data t')"
  using assms
proof (induction xs arbitrary: t)
  case (Cons x xs)
  obtain a n r where x: "x = (a, n, r)" by (cases x) auto
  obtain t1 where t1: "addData c a n r t = Inr t1" "add_all c xs t1 = Inr t'" using Cons.prems(5) x by auto
  have ds: "task_data t1 = snd (insert_data (data_of x) (task_data t))"
    using t1(1) x Cons.prems(2) by (auto simp: addData_def ASSERT_DBG_def data_of_def split: prod.splits if_splits)
  have "apart (data_of z) y" if "z \<in> set xs" "y \<in> set (task_data t1)" for z y
    using that ds Cons.prems(1,3) by (auto simp: set_snd_insert_data apart_commute)
  moreover have "sorted_wrt apart (task_data t1)"
    unfolding ds using Cons.prems(3,4) by (intro insert_data_apart) simp_all
  ultimately show ?case using Cons.IH [OF _ _ _ _ t1(2)] Cons.prems(1,2) by simp
qed simp

lemma sorted_apart_before:
  assumes "data_sorted ds" "sorted_wrt apart ds" "\<forall>d \<in> set ds. data_ok c d"
  shows "sorted_wrt before ds"
  using assms
proof (induction ds)
  case (Cons d ds)
  have "before d y" if "y \<in> set ds" for y
  proof -
    have "unat (v_addr d) \<le> unat (v_addr y)" "apart d y" "0 < unat (d_size y)"
      using Cons.prems that by (auto simp: data_sorted_def data_ok_def word_le_nat_alt)
    then show ?thesis by (auto simp: apart_def before_def)
  qed
  then show ?case using Cons by (simp add: data_sorted_def)
qed simp

lemma pages_loop_first:
  assumes "sorted_wrt before ds" "\<forall>d \<in> set ds. data_ok c d"
  shows "\<exists>rs. pages_loop c ds None 0 [] = Inr rs \<and> separated rs \<and>
    (\<Union>r \<in> set rs. region_pages r) = (\<Union>d \<in> set ds. data_pages c d)"
proof (cases ds)
  case Nil
  then show ?thesis by (simp add: separated_def)
next
  case (Cons d ds')
  have "data_ok c d" using assms Cons by simp
  then have rp: "region_ok (new_page c d)" "region_pages (new_page c d) = data_pages c d"
    using data_page_ends [of c d] by (simp_all add: region_ok_def new_page_def region_pages_def)
  show ?thesis
    using pages_loop_spec [of d ds' c "new_page c d" "end_address d" "[]"] assms Cons rp
    by (auto simp: new_page_def ASSERT_DBG_def)
qed

text \<open>C20: whatever the order in which the data sets of a task are added, \<open>updatePages\<close> describes exactly the virtual
  pages they touch: as regions in ascending order, no two of which touch or could be merged, each with the right
  number of pages. It holds for data sets that are not empty, do not overlap and do not lie in page 0.\<close>

theorem task_pages_exact:
  assumes "sorted_wrt apart (map data_of xs)" "\<forall>x \<in> set xs. data_ok c (data_of x)"
    and "\<forall>(a, n, r) \<in> set xs. PIM_HOST_OFFSET c \<le> a"
  shows "\<exists>t t'. add_all c xs (PIMTask nm) = Inr t \<and> updatePages c t = Inr t' \<and>
    (\<Union>r \<in> set (vpages t'). region_pages r) = (\<Union>x \<in> set xs. data_pages c (data_of x)) \<and>
    sorted_wrt (\<lambda>r s. unat (v_pn_end r) + 1 < unat (v_pn_start s)) (vpages t') \<and>
    (\<forall>r \<in> set (vpages t'). unat (v_pn_start r) \<le> unat (v_pn_end r) \<and> pg_count r = v_pn_end r - v_pn_start r + 1)"
proof -
  obtain t where t: "add_all c xs (PIMTask nm) = Inr t" "set (task_data t) = data_of ` set xs" "vpages t = []"
    "data_sorted (task_data t)"
    using add_all_ok [OF assms(3), of "PIMTask nm"] by (auto simp: PIMTask_def data_sorted_def)
  have "sorted_wrt apart (task_data t)"
    using add_all_apart [OF assms(1,3) _ _ t(1)] by (simp add: PIMTask_def)
  then have "sorted_wrt before (task_data t)" using t assms(2) by (intro sorted_apart_before) auto
  then obtain rs where "pages_loop c (task_data t) None 0 [] = Inr rs" "separated rs"
    "(\<Union>r \<in> set rs. region_pages r) = (\<Union>d \<in> set (task_data t). data_pages c d)"
    using pages_loop_first [of "task_data t" c] t(2) assms(2) by auto
  then show ?thesis using t by (auto simp: updatePages_def separated_def region_ok_def)
qed

text \<open>Three data sets, added out of order; the first and the last lie in adjacent pages.\<close>

definition ex_tp :: task_params where
  "ex_tp = \<lparr>DEBUG_API = True, PIM_HOST_OFFSET = 0x1000, PAGE_SHIFT = 12\<rparr>"

theorem task_pages_exact_witness:
  "\<exists>t t'. add_all ex_tp [(0x2000, 0x10, 1), (0x9000, 0x1001, 2), (0x1f00, 0x80, 0)] (PIMTask ''t'') = Inr t \<and>
    updatePages ex_tp t = Inr t' \<and>
    vpages t' = [\<lparr>v_pn_start = 1, v_pn_end = 2, pg_count = 2\<rparr>, \<lparr>v_pn_start = 9, v_pn_end = 10, pg_count = 2\<rparr>] \<and>
    (\<Union>r \<in> set (vpages t'). region_pages r) =
      (\<Union>x \<in> {(0x2000, 0x10, 1), (0x9000, 0x1001, 2), (0x1f00, 0x80, 0)}. data_pages ex_tp (data_of x))"
proof -
  let ?xs = "[(0x2000, 0x10, 1), (0x9000, 0x1001, 2), (0x1f00, 0x80, 0)] :: (u64 \<times> u64 \<times> u32) list"
  have h: "sorted_wrt apart (map data_of ?xs)" "\<forall>x \<in> set ?xs. data_ok ex_tp (data_of x)"
    "\<forall>(a, n, r) \<in> set ?xs. PIM_HOST_OFFSET ex_tp \<le> a"
    by (simp_all add: apart_def before_def data_of_def data_ok_def ex_tp_def)
  obtain t t' where t: "add_all ex_tp ?xs (PIMTask ''t'') = Inr t" "updatePages ex_tp t = Inr t'"
    "(\<Union>r \<in> set (vpages t'). region_pages r) = (\<Union>x \<in> set ?xs. data_pages ex_tp (data_of x))"
    using task_pages_exact [OF h, of "''t''"] by blast
  have "vpages t' = [\<lparr>v_pn_start = 1, v_pn_end = 2, pg_count = 2\<rparr>, \<lparr>v_pn_start = 9, v_pn_end = 10, pg_count = 2\<rparr>]"
    using t(1,2) by (auto simp: addData_def ASSERT_DBG_def PIMTask_def ex_tp_def updatePages_def new_page_def start_page_def
        end_page_def end_address_def drop_bit_eq_div)
  then show ?thesis using t by (intro exI [of _ t] exI [of _ t']) simp
qed

text \<open>Merging loses pages when a data set lies inside the one before it: the end of the region is set to the end of
  the inner data set, so the pages of the outer one behind it are not described any more.\<close>

theorem task_pages_nested_lost:
  "\<exists>t t'. add_all (ex_tp\<lparr>DEBUG_API := False\<rparr>) [(0x1000, 0x3000, 0), (0x1800, 0x10, 1)] (PIMTask ''t'') = Inr t \<and>
    updatePages (ex_tp\<lparr>DEBUG_API := False\<rparr>) t = Inr t' \<and>
    vpages t' = [\<lparr>v_pn_start = 1, v_pn_end = 1, pg_count = 1\<rparr>] \<and>
    data_pages (ex_tp\<lparr>DEBUG_API := False\<rparr>) (data_of (0x1000, 0x3000, 0)) = {1, 2, 3}"
proof -
  have "data_pages (ex_tp\<lparr>DEBUG_API := False\<rparr>) (data_of (0x1000, 0x3000, 0)) = {0x1000 div 0x1000 .. (0x1000 + 0x3000 - 1) div 0x1000}"
    unfolding data_pages_def using div_image_interval [of "0x3000" "0x1000" "0x1000"] by (simp add: data_of_def ex_tp_def)
  also have "\<dots> = {1, 2, 3}" by auto
  finally show ?thesis
    by (simp add: addData_def ASSERT_DBG_def PIMTask_def updatePages_def new_page_def start_page_def
        end_page_def end_address_def drop_bit_eq_div ex_tp_def)
qed

end
