(* ===== verification/PimApi.thy ===== *)
theory PimApi
  imports PimTask
begin

text \<open>
  The host library (\<open>pim_api.hh\<close> and \<open>pim_api.cc\<close> under \<open>src/SMC_original/SW/HOST/api\<close>): it loads kernels into the
  device, hands over tasks and starts the computation, all through the mapped window of the device, the byte
  list \<open>window\<close>. An access outside the window, which faults, is \<open>OutOfRange\<close>. The driver behind \<open>ioctl\<close> is an
  argument. A kernel file is the list of its lines, each the list of its words. Opening and mapping the
  device file, and printing, are left out.
\<close>

section \<open>State\<close>

record api_params = task_params +
  PHY_SIZE :: u64
  PIM_INTR_REG :: u64
  PIM_STATUS_REG :: u64
  PIM_COMMAND_REG :: u64
  PIM_SREG :: u64
  PIM_VREG :: u64
  API_VREG_SIZE :: u64
  PIM_M5_REG :: u64

record pim_api =
  window :: "byte list"
  ioctl_arg :: "u64 list"
  api_tasks :: "pim_task list"
  stat_offload_size :: u64
  current_time_stamp :: u32

text \<open>The loop of the constructor that finds the page shift.\<close>

fun page_shift :: "nat \<Rightarrow> nat" where
  "page_shift p = (if p > 1 then Suc (page_shift (p div 2)) else 0)"

declare page_shift.simps [simp del]

section \<open>Registers\<close>

definition write_byte :: "api_params \<Rightarrow> u64 \<Rightarrow> byte \<Rightarrow> pim_api \<Rightarrow> pim_api res" where
  "write_byte c off v s =
     ASSERT_DBG (task_params.truncate c) (off < PHY_SIZE c)
       (bindR (ofOpt (write_bytes (window s) (unat off) [v])) (\<lambda>w. Inr (s\<lparr>window := w\<rparr>)))"

definition read_byte :: "api_params \<Rightarrow> u64 \<Rightarrow> pim_api \<Rightarrow> byte res" where
  "read_byte c off s =
     ASSERT_DBG (task_params.truncate c) (off < PHY_SIZE c)
       (bindR (ofOpt (read_bytes (window s) (unat off) 1)) (\<lambda>bs. Inr (hd bs)))"

definition write_vreg :: "api_params \<Rightarrow> byte list \<Rightarrow> pim_api \<Rightarrow> pim_api res" where
  "write_vreg c v s =
     ASSERT_DBG (task_params.truncate c) (PIM_VREG c + API_VREG_SIZE c < PHY_SIZE c)
       (bindR (ofOpt (read_bytes v 0 (unat (API_VREG_SIZE c)))) (\<lambda>bs.
        bindR (ofOpt (write_bytes (window s) (unat (PIM_VREG c)) bs)) (\<lambda>w. Inr (s\<lparr>window := w\<rparr>))))"

definition read_vreg :: "api_params \<Rightarrow> pim_api \<Rightarrow> byte list res" where
  "read_vreg c s =
     ASSERT_DBG (task_params.truncate c) (PIM_VREG c + API_VREG_SIZE c < PHY_SIZE c)
       (ofOpt (read_bytes (window s) (unat (PIM_VREG c)) (unat (API_VREG_SIZE c))))"

definition write_sreg :: "api_params \<Rightarrow> u32 \<Rightarrow> u64 \<Rightarrow> pim_api \<Rightarrow> pim_api res" where
  "write_sreg c i v s =
     ASSERT_DBG (task_params.truncate c) (current_time_stamp s = 3)
       (bindR (ofOpt (write_bytes (window s) (unat (PIM_SREG c) + 8 * unat i) (nat_to_le 8 (unat v)))) (\<lambda>w.
          Inr (s\<lparr>window := w\<rparr>)))"

definition read_sreg :: "api_params \<Rightarrow> u32 \<Rightarrow> pim_api \<Rightarrow> u64 res" where
  "read_sreg c i s =
     bindR (ofOpt (read_bytes (window s) (unat (PIM_SREG c) + 8 * unat i) 8)) (\<lambda>bs. Inr (of_nat (le_to_nat bs)))"

definition PIM_COMMAND_NOP :: byte where "PIM_COMMAND_NOP = 0x4e"
definition PIM_STATUS_DONE :: byte where "PIM_STATUS_DONE = 0x44"
definition PIM_INTR_TRIGGER :: byte where "PIM_INTR_TRIGGER = 1"
definition M5_TIME_STAMP :: byte where "M5_TIME_STAMP = 0x30"

definition check_status :: "api_params \<Rightarrow> pim_api \<Rightarrow> byte res" where
  "check_status c s = read_byte c (PIM_STATUS_REG c) s"

definition give_command :: "api_params \<Rightarrow> byte \<Rightarrow> pim_api \<Rightarrow> pim_api res" where
  "give_command c v s = write_byte c (PIM_COMMAND_REG c) v s"

definition give_m5_command :: "api_params \<Rightarrow> byte \<Rightarrow> pim_api \<Rightarrow> pim_api res" where
  "give_m5_command c v s = write_byte c (PIM_M5_REG c) v s"

definition wake_up :: "api_params \<Rightarrow> pim_api \<Rightarrow> pim_api res" where
  "wake_up c s = write_byte c (PIM_INTR_REG c) PIM_INTR_TRIGGER s"

definition record_time_stamp :: "api_params \<Rightarrow> byte \<Rightarrow> pim_api \<Rightarrow> pim_api res" where
  "record_time_stamp c i s =
     give_m5_command c (M5_TIME_STAMP + i) (if DEBUG_API c then s\<lparr>current_time_stamp := ucast i\<rparr> else s)"

definition start_computation :: "api_params \<Rightarrow> byte \<Rightarrow> pim_api \<Rightarrow> pim_api res" where
  "start_computation c cmd s =
     ASSERT_DBG (task_params.truncate c) (current_time_stamp s = 5) (bindR (give_command c cmd s) (wake_up c))"

text \<open>
  The loop of \<open>wait_for_completion\<close>. What the device does to the window while the host sleeps before its poll
  \<open>k\<close> is the argument \<open>dev\<close>; \<open>None\<close> means that the fuel did not suffice.
\<close>

fun wait_loop :: "api_params \<Rightarrow> (nat \<Rightarrow> byte list \<Rightarrow> byte list) \<Rightarrow> nat \<Rightarrow> nat \<Rightarrow> pim_api \<Rightarrow> pim_api res option" where
  "wait_loop c dev 0 k s = None"
| "wait_loop c dev (Suc fuel) k s =
     (let s1 = s\<lparr>window := dev k (window s)\<rparr> in
      case check_status c s1 of
        Inl e \<Rightarrow> Some (Inl e)
      | Inr status \<Rightarrow> if status \<noteq> PIM_STATUS_DONE then wait_loop c dev fuel (Suc k) s1 else Some (Inr s1))"

definition wait_for_completion ::
    "api_params \<Rightarrow> (nat \<Rightarrow> byte list \<Rightarrow> byte list) \<Rightarrow> nat \<Rightarrow> pim_api \<Rightarrow> pim_api res option" where
  "wait_for_completion c dev fuel s =
     (if DEBUG_API c \<and> current_time_stamp s \<noteq> 5 then Some (Inl (Exit 1))
      else map_option (\<lambda>r. bindR r (give_command c PIM_COMMAND_NOP)) (wait_loop c dev fuel 0 s))"

section \<open>Tasks\<close>

text \<open>The array of arguments for the driver: the address and the number of pages of every region.\<close>

fun fill_args :: "nat \<Rightarrow> nat \<Rightarrow> pim_page list \<Rightarrow> u64 list \<Rightarrow> u64 list res" where
  "fill_args sh i [] args = Inr args"
| "fill_args sh i (p # ps) args =
     (if 2 * i + 2 < length args
      then fill_args sh (Suc i) ps (args[2 * i + 1 := push_bit sh (v_pn_start p), 2 * i + 2 := pg_count p])
      else Inl OutOfRange)"

fun send_pointers :: "api_params \<Rightarrow> pim_data list \<Rightarrow> pim_api \<Rightarrow> pim_api res" where
  "send_pointers c [] s = Inr s"
| "send_pointers c (d # ds) s = bindR (write_sreg c (ucast (d_reg d)) (v_addr d) s) (send_pointers c ds)"

definition PIM_IOCTL_MAX_ARGS :: u64 where "PIM_IOCTL_MAX_ARGS = 8"

definition offload_task ::
    "api_params \<Rightarrow> (u64 list \<Rightarrow> 'k \<Rightarrow> int \<times> 'k) \<Rightarrow> pim_task \<Rightarrow> pim_api \<Rightarrow> 'k \<Rightarrow> (int \<times> pim_api \<times> 'k) res" where
  "offload_task c ioctl task s k =
     (let tp = task_params.truncate c in
      ASSERT_DBG tp (current_time_stamp s = 3)
       (bindR (updatePages tp task) (\<lambda>t.
        let s1 = s\<lparr>api_tasks := api_tasks s @ [t]\<rparr>; count = of_nat (length (vpages t)) in
        ASSERT_DBG tp (count * 2 < PIM_IOCTL_MAX_ARGS)
       (ASSERT_DBG tp (count = 1)
         (if length (ioctl_arg s1) = 0 then Inl OutOfRange
          else
            bindR (fill_args (PAGE_SHIFT c) 0 (vpages t) ((ioctl_arg s1)[0 := count * 2])) (\<lambda>args.
            bindR (send_pointers c (task_data t) (s1\<lparr>ioctl_arg := args\<rparr>)) (\<lambda>s2.
              case ioctl (ioctl_arg s2) k of (ret, k') \<Rightarrow> Inr (ret, s2, k'))))))))"

section \<open>Kernels\<close>

definition digit_value :: "char \<Rightarrow> nat option" where
  "digit_value ch =
     (let n = of_char ch :: nat in
      if 48 \<le> n \<and> n \<le> 57 then Some (n - 48)
      else if 97 \<le> n \<and> n \<le> 102 then Some (n - 87)
      else if 65 \<le> n \<and> n \<le> 70 then Some (n - 55)
      else None)"

text \<open>The digits in base \<open>b\<close> at the start of a string, as \<open>strtol\<close> reads them.\<close>

fun digits :: "nat \<Rightarrow> nat \<Rightarrow> string \<Rightarrow> nat" where
  "digits b acc [] = acc"
| "digits b acc (ch # cs) =
     (case digit_value ch of
        Some v \<Rightarrow> if v < b then digits b (acc * b + v) cs else acc
      | None \<Rightarrow> acc)"

definition skip_0x :: "string \<Rightarrow> string" where
  "skip_0x t =
     (case t of
        a # x # h # cs \<Rightarrow>
          if a = CHR ''0'' \<and> (x = CHR ''x'' \<or> x = CHR ''X'') \<and> digit_value h \<noteq> None then h # cs else t
      | _ \<Rightarrow> t)"

definition strtol :: "nat \<Rightarrow> string \<Rightarrow> int" where
  "strtol b t =
     (let body = (\<lambda>cs. int (digits b 0 (if b = 16 then skip_0x cs else cs)));
          v = (case t of
                 [] \<Rightarrow> 0
               | ch # cs \<Rightarrow> if ch = CHR ''-'' then - body cs else if ch = CHR ''+'' then body cs else body t)
      in max (- (2 ^ 63)) (min (2 ^ 63 - 1) v))"

text \<open>\<open>atoi\<close>; a value that does not fit an \<open>int\<close> is undefined.\<close>

definition atoi :: "string \<Rightarrow> int res" where
  "atoi t = (let v = strtol 10 t in if - (2 ^ 31) \<le> v \<and> v < 2 ^ 31 then Inr v else Inl OutOfRange)"

record loader =
  load_offset :: u64
  load_size :: u64
  num_bytes :: u64
  ld_api :: pim_api

text \<open>
  The words of one line. The word after \<open>@ADDR\<close> or \<open>@SIZE\<close> is its argument; at the end of a line there is none, and
  the conversion sees the keyword itself.
\<close>

fun load_line :: "api_params \<Rightarrow> string list \<Rightarrow> loader \<Rightarrow> loader res" where
  "load_line c [] l = Inr l"
| "load_line c (t # ts) l =
     (if t = ''@ADDR'' then
        bindR (atoi (case ts of [] \<Rightarrow> t | a # _ \<Rightarrow> a)) (\<lambda>v. load_line c (tl ts) (l\<lparr>load_offset := of_int v\<rparr>))
      else if t = ''@SIZE'' then
        (if DEBUG_API c
         then bindR (atoi (case ts of [] \<Rightarrow> t | a # _ \<Rightarrow> a)) (\<lambda>v. load_line c (tl ts) (l\<lparr>load_size := of_int v\<rparr>))
         else load_line c (tl ts) l)
      else if t = ''@END'' then
        ASSERT_DBG (task_params.truncate c) (num_bytes l = load_size l) (load_line c ts (l\<lparr>num_bytes := 0\<rparr>))
      else
        bindR (write_byte c (load_offset l) (of_int (strtol 16 t)) (ld_api l)) (\<lambda>s.
          load_line c ts
            (l\<lparr>ld_api := s\<lparr>stat_offload_size := stat_offload_size s + 1\<rparr>, num_bytes := num_bytes l + 1,
               load_offset := load_offset l + 1\<rparr>)))"

fun load_lines :: "api_params \<Rightarrow> string list list \<Rightarrow> loader \<Rightarrow> loader res" where
  "load_lines c [] l = Inr l"
| "load_lines c (x # xs) l = bindR (load_line c x l) (load_lines c xs)"

definition offload_kernel :: "api_params \<Rightarrow> string list list \<Rightarrow> pim_api \<Rightarrow> pim_api res" where
  "offload_kernel c file s =
     ASSERT_DBG (task_params.truncate c) (current_time_stamp s = 1)
       (bindR (load_lines c file \<lparr>load_offset = -1, load_size = -1, num_bytes = 0, ld_api = s\<rparr>) (\<lambda>l. Inr (ld_api l)))"

section \<open>Kernel images\<close>

text \<open>The text of a kernel: sections of bytes, each with its address, spread over lines in any way.\<close>

definition digit_char :: "nat \<Rightarrow> char" where
  "digit_char n = char_of (if n < 10 then 48 + n else 87 + n)"

fun decimal :: "nat \<Rightarrow> string" where
  "decimal n = (if n < 10 then [digit_char n] else decimal (n div 10) @ [digit_char (n mod 10)])"

declare decimal.simps [simp del]

definition byte_word :: "byte \<Rightarrow> string" where
  "byte_word b = [digit_char (unat b div 16), digit_char (unat b mod 16)]"

definition section_lines :: "nat \<times> byte list list \<Rightarrow> string list list" where
  "section_lines sec =
     (case sec of (a, bss) \<Rightarrow>
        [''@ADDR'', decimal a] # [''@SIZE'', decimal (length (concat bss))] # map (map byte_word) bss @ [[''@END'']])"

definition section_store :: "byte list \<Rightarrow> nat \<times> byte list list \<Rightarrow> byte list" where
  "section_store w sec = (case sec of (a, bss) \<Rightarrow> take a w @ concat bss @ drop (a + length (concat bss)) w)"

lemma digit_value_digit_char [simp]: "n < 16 \<Longrightarrow> digit_value (digit_char n) = Some n"
  by (simp add: digit_value_def digit_char_def Let_def)

lemma digit_char_not_sign:
  assumes "n < 16"
  shows "digit_char n \<noteq> CHR ''-''" "digit_char n \<noteq> CHR ''+''"
  using digit_value_digit_char [OF assms] by (auto simp: digit_value_def)

lemma byte_parts: "unat b div 16 < 16" "unat b mod 16 < 16" for b :: byte
  using unsigned_less [of b, where 'a = nat] by simp_all

lemma strtol_byte_word: "of_int (strtol 16 (byte_word b)) = b"
proof -
  have "digits 16 0 (byte_word b) = unat b" using byte_parts [of b] by (simp add: byte_word_def)
  moreover have "- 9223372036854775808 \<le> uint b" by (rule order_trans [OF _ uint_ge_0]) simp
  moreover have "uint b < 256" using unsigned_less [of b, where 'a = int] by simp
  moreover have "strtol 16 (byte_word b) = int (digits 16 0 (byte_word b))"
    using byte_parts [of b] digit_char_not_sign [OF byte_parts(1) [of b]] unsigned_less [of b, where 'a = nat]
      \<open>- 9223372036854775808 \<le> uint b\<close> \<open>uint b < 256\<close>
    by (simp add: strtol_def byte_word_def skip_0x_def Let_def max_def min_def)
  ultimately show ?thesis by simp
qed

lemma digits_append_digit:
  "n < b \<Longrightarrow> n < 16 \<Longrightarrow> (\<forall>ch \<in> set cs. \<exists>v < b. digit_value ch = Some v) \<Longrightarrow>
   digits b acc (cs @ [digit_char n]) = digits b acc cs * b + n"
  by (induction cs arbitrary: acc) (auto split: option.splits)

lemma decimal_digits: "ch \<in> set (decimal n) \<Longrightarrow> \<exists>v < 10. ch = digit_char v"
proof (induction n rule: decimal.induct)
  case (1 n)
  then consider "n < 10" "ch = digit_char n" | "\<not> n < 10" "ch \<in> set (decimal (n div 10))" | "ch = digit_char (n mod 10)"
    by (subst (asm) (2) decimal.simps) (auto split: if_splits)
  then show ?case using 1(1) by cases (auto intro: exI [of _ "n mod 10"])
qed

lemma digits_decimal: "digits 10 0 (decimal n) = n"
proof (induction n rule: decimal.induct)
  case (1 n)
  show ?case
  proof (cases "n < 10")
    case True
    then show ?thesis by (subst decimal.simps) simp
  next
    case False
    have d: "\<forall>ch \<in> set (decimal (n div 10)). \<exists>v < 10. digit_value ch = Some v"
      using decimal_digits [of _ "n div 10"] by fastforce
    show ?thesis using False 1 [OF False] digits_append_digit [OF _ _ d, of "n mod 10" 0]
      by (subst decimal.simps) simp
  qed
qed

lemma decimal_Cons: "\<exists>v cs. decimal n = digit_char v # cs \<and> v < 10"
proof -
  have "decimal n \<noteq> []" by (subst decimal.simps) simp
  then obtain ch cs where "decimal n = ch # cs" by (cases "decimal n") auto
  then show ?thesis using decimal_digits [of ch n] by auto
qed

lemma atoi_decimal:
  assumes "n < 2 ^ 31"
  shows "atoi (decimal n) = Inr (int n)"
proof -
  obtain v cs where d: "decimal n = digit_char v # cs" "v < 10" using decimal_Cons by blast
  have "strtol 10 (decimal n) = int n"
    using digits_decimal [of n] digit_char_not_sign [of v] d assms by (simp add: strtol_def Let_def)
  then show ?thesis using assms by (simp add: atoi_def Let_def)
qed

lemma byte_word_not_keyword: "byte_word b \<noteq> ''@ADDR''" "byte_word b \<noteq> ''@SIZE''" "byte_word b \<noteq> ''@END''"
  by (simp_all add: byte_word_def)


lemma write_byte_ok:
  assumes "unat off < unat (PHY_SIZE c)" "unat (PHY_SIZE c) \<le> length (window s)"
  shows "write_byte c off v s = Inr (s\<lparr>window := (window s)[unat off := v]\<rparr>)"
  using assms by (simp add: write_byte_def ASSERT_DBG_def word_less_nat_alt write_bytes_def upd_conv_take_nth_drop)

text \<open>A line of bytes is stored one after the other.\<close>

lemma load_line_bytes:
  assumes "unat (load_offset l) + length bs < 2 ^ 64" "unat (load_offset l) + length bs \<le> unat (PHY_SIZE c)"
    "unat (PHY_SIZE c) \<le> length (window (ld_api l))"
  shows "load_line c (map byte_word bs) l =
    Inr (l\<lparr>load_offset := load_offset l + of_nat (length bs), num_bytes := num_bytes l + of_nat (length bs),
      ld_api := (ld_api l)\<lparr>window := section_store (window (ld_api l)) (unat (load_offset l), [bs]),
        stat_offload_size := stat_offload_size (ld_api l) + of_nat (length bs)\<rparr>\<rparr>)"
  using assms
proof (induction bs arbitrary: l)
  case Nil
  then show ?case by (simp add: section_store_def)
next
  case (Cons b bs)
  let ?s = "ld_api l" and ?o = "load_offset l"
  let ?w = "(window ?s)[unat ?o := b]"
  let ?l = "l\<lparr>ld_api := ?s\<lparr>window := ?w, stat_offload_size := stat_offload_size ?s + 1\<rparr>, num_bytes := num_bytes l + 1,
    load_offset := ?o + 1\<rparr>"
  have o: "unat (?o + 1) = unat ?o + 1" using unat_add_of_nat [of ?o 1] Cons.prems(1) by simp
  have 1: "load_line c (map byte_word (b # bs)) l = load_line c (map byte_word bs) ?l"
    using write_byte_ok [of ?o c ?s b] Cons.prems(2,3) byte_word_not_keyword [of b] by (simp add: strtol_byte_word)
  have "section_store ?w (unat ?o + 1, [bs]) = section_store (window ?s) (unat ?o, [b # bs])"
    using Cons.prems(2,3) by (simp add: section_store_def upd_conv_take_nth_drop take_Suc_conv_app_nth drop_Suc [symmetric] add.commute)
  then show ?case unfolding 1 using Cons.IH [of ?l] Cons.prems o by (simp add: add_ac)
qed

lemma load_lines_bytes:
  assumes "unat (load_offset l) + length (concat bss) < 2 ^ 64" "unat (load_offset l) + length (concat bss) \<le> unat (PHY_SIZE c)"
    "unat (PHY_SIZE c) \<le> length (window (ld_api l))"
  shows "load_lines c (map (map byte_word) bss @ rest) l =
    load_lines c rest (l\<lparr>load_offset := load_offset l + of_nat (length (concat bss)),
      num_bytes := num_bytes l + of_nat (length (concat bss)),
      ld_api := (ld_api l)\<lparr>window := section_store (window (ld_api l)) (unat (load_offset l), bss),
        stat_offload_size := stat_offload_size (ld_api l) + of_nat (length (concat bss))\<rparr>\<rparr>)"
  using assms
proof (induction bss arbitrary: l)
  case Nil
  then show ?case by (simp add: section_store_def)
next
  case (Cons bs bss)
  let ?s = "ld_api l" and ?o = "load_offset l"
  let ?w = "section_store (window ?s) (unat ?o, [bs])"
  let ?l = "l\<lparr>load_offset := ?o + of_nat (length bs), num_bytes := num_bytes l + of_nat (length bs),
    ld_api := ?s\<lparr>window := ?w, stat_offload_size := stat_offload_size ?s + of_nat (length bs)\<rparr>\<rparr>"
  have o: "unat (?o + of_nat (length bs)) = unat ?o + length bs" using Cons.prems(1) by (intro unat_add_of_nat) simp
  have len: "length ?w = length (window ?s)" using Cons.prems(2,3) by (simp add: section_store_def)
  have 1: "load_lines c (map (map byte_word) (bs # bss) @ rest) l = load_lines c (map (map byte_word) bss @ rest) ?l"
    using load_line_bytes [of l bs c] Cons.prems by simp
  have "section_store ?w (unat ?o + length bs, bss) = section_store (window ?s) (unat ?o, bs # bss)"
    using Cons.prems(2,3) by (simp add: section_store_def add_ac)
  then show ?case unfolding 1 using Cons.IH [of ?l] Cons.prems o len by (simp add: add_ac)
qed


definition section_ok :: "api_params \<Rightarrow> nat \<times> byte list list \<Rightarrow> bool" where
  "section_ok c sec \<longleftrightarrow> (case sec of (a, bss) \<Rightarrow> a < 2 ^ 31 \<and> length (concat bss) < 2 ^ 31 \<and> a + length (concat bss) \<le> unat (PHY_SIZE c))"

definition section_size :: "nat \<times> byte list list \<Rightarrow> nat" where
  "section_size sec = length (concat (snd sec))"

lemma load_section:
  assumes "section_ok c sec" "unat (PHY_SIZE c) \<le> length (window (ld_api l))" "num_bytes l = 0"
  shows "\<exists>l'. load_lines c (section_lines sec @ rest) l = load_lines c rest l' \<and> num_bytes l' = 0 \<and>
    ld_api l' = (ld_api l)\<lparr>window := section_store (window (ld_api l)) sec,
      stat_offload_size := stat_offload_size (ld_api l) + of_nat (section_size sec)\<rparr>"
proof -
  obtain a bss where sec: "sec = (a, bss)" by (cases sec)
  let ?n = "length (concat bss)"
  have ok: "a < 2 ^ 31" "?n < 2 ^ 31" "a + ?n \<le> unat (PHY_SIZE c)" using assms(1) sec by (simp_all add: section_ok_def)
  define l1 where "l1 = l\<lparr>load_offset := of_nat a, load_size := (if DEBUG_API c then of_nat ?n else load_size l)\<rparr>"
  have hdr: "load_lines c ([''@ADDR'', decimal a] # [''@SIZE'', decimal ?n] # ls) l = load_lines c ls l1" for ls
    using atoi_decimal [OF ok(1)] atoi_decimal [OF ok(2)] by (simp add: l1_def)
  have a: "unat (of_nat a :: u64) = a" using ok(1) by (intro unat_of_nat_small) simp
  define l2 where "l2 = l1\<lparr>load_offset := load_offset l1 + of_nat ?n, num_bytes := num_bytes l1 + of_nat ?n,
        ld_api := (ld_api l1)\<lparr>window := section_store (window (ld_api l1)) (unat (load_offset l1), bss),
          stat_offload_size := stat_offload_size (ld_api l1) + of_nat ?n\<rparr>\<rparr>"
  have body: "load_lines c (map (map byte_word) bss @ [[''@END'']] @ rest) l1 = load_lines c ([[''@END'']] @ rest) l2"
    unfolding l2_def using ok a assms(2) by (intro load_lines_bytes) (simp_all add: l1_def)
  have "num_bytes l2 = load_size l2" if "DEBUG_API c" using that assms(3) by (simp add: l1_def l2_def)
  then have fin: "load_lines c ([[''@END'']] @ rest) l2 = load_lines c rest (l2\<lparr>num_bytes := 0\<rparr>)"
    by (auto simp: ASSERT_DBG_def task_params.defs)
  have "section_lines sec @ rest =
      [''@ADDR'', decimal a] # [''@SIZE'', decimal ?n] # (map (map byte_word) bss @ [[''@END'']] @ rest)"
    by (simp add: sec section_lines_def)
  then have "load_lines c (section_lines sec @ rest) l = load_lines c rest (l2\<lparr>num_bytes := 0\<rparr>)"
    by (simp only: hdr body fin)
  then show ?thesis using a
    by (intro exI [of _ "l2\<lparr>num_bytes := 0\<rparr>"]) (simp add: sec section_size_def l1_def l2_def)
qed

lemma section_store_length:
  "section_ok c sec \<Longrightarrow> unat (PHY_SIZE c) \<le> length w \<Longrightarrow> length (section_store w sec) = length w"
  by (cases sec) (simp add: section_store_def section_ok_def)

lemma load_sections:
  assumes "\<forall>sec \<in> set secs. section_ok c sec" "unat (PHY_SIZE c) \<le> length (window (ld_api l))" "num_bytes l = 0"
  shows "\<exists>l'. load_lines c (concat (map section_lines secs)) l = Inr l' \<and>
    ld_api l' = (ld_api l)\<lparr>window := foldl section_store (window (ld_api l)) secs,
      stat_offload_size := stat_offload_size (ld_api l) + of_nat (sum_list (map section_size secs))\<rparr>"
  using assms
proof (induction secs arbitrary: l)
  case Nil
  then show ?case by simp
next
  case (Cons sec secs)
  obtain l1 where l1: "load_lines c (section_lines sec @ concat (map section_lines secs)) l = load_lines c (concat (map section_lines secs)) l1"
    "num_bytes l1 = 0" "ld_api l1 = (ld_api l)\<lparr>window := section_store (window (ld_api l)) sec,
      stat_offload_size := stat_offload_size (ld_api l) + of_nat (section_size sec)\<rparr>"
    using load_section [of c sec l "concat (map section_lines secs)"] Cons.prems by auto
  have "unat (PHY_SIZE c) \<le> length (window (ld_api l1))"
    using l1(3) Cons.prems section_store_length [of c sec "window (ld_api l)"] by simp
  then show ?case using Cons.IH [of l1] Cons.prems(1) l1 by (auto simp: add.assoc)
qed

text \<open>C21: loading a kernel undoes writing it: for every list of sections, however their bytes are spread over lines,
  reading their text with \<open>offload_kernel\<close> stores exactly those bytes at exactly those addresses of the device, leaves
  the rest of the window as it was, and counts the bytes; with debugging on, all its assertions hold.\<close>

theorem kernel_image_roundtrip:
  assumes "DEBUG_API c \<longrightarrow> current_time_stamp s = 1" "unat (PHY_SIZE c) \<le> length (window s)"
    and "\<forall>(a, bss) \<in> set secs. a < 2 ^ 31 \<and> length (concat bss) < 2 ^ 31 \<and> a + length (concat bss) \<le> unat (PHY_SIZE c)"
  shows "offload_kernel c (concat (map section_lines secs)) s =
    Inr (s\<lparr>window := foldl section_store (window s) secs,
           stat_offload_size := stat_offload_size s + of_nat (sum_list (map (\<lambda>(a, bss). length (concat bss)) secs))\<rparr>)"
proof -
  have ok: "\<forall>sec \<in> set secs. section_ok c sec" using assms(3) by (auto simp: section_ok_def)
  have sz: "(\<lambda>(a, bss). length (concat bss)) = section_size" by (auto simp: section_size_def fun_eq_iff)
  let ?l = "\<lparr>load_offset = -1, load_size = -1, num_bytes = 0, ld_api = s\<rparr>"
  obtain l' where "load_lines c (concat (map section_lines secs)) ?l = Inr l'"
    "ld_api l' = s\<lparr>window := foldl section_store (window s) secs,
      stat_offload_size := stat_offload_size s + of_nat (sum_list (map section_size secs))\<rparr>"
    using load_sections [OF ok, of ?l] assms(2) by auto
  then show ?thesis using assms(1) unfolding sz by (simp add: offload_kernel_def ASSERT_DBG_def task_params.defs)
qed

definition ex_ap :: api_params where
  "ex_ap = task_params.extend ex_tp \<lparr>PHY_SIZE = 32, PIM_INTR_REG = 0, PIM_STATUS_REG = 1, PIM_COMMAND_REG = 2, PIM_SREG = 16,
     PIM_VREG = 4, API_VREG_SIZE = 4, PIM_M5_REG = 3\<rparr>"

definition ex_api :: pim_api where
  "ex_api = \<lparr>window = replicate 32 0, ioctl_arg = replicate 8 0, api_tasks = [], stat_offload_size = 0, current_time_stamp = 1\<rparr>"

theorem kernel_image_roundtrip_witness:
  "\<exists>s. offload_kernel ex_ap (concat (map section_lines [(4, [[0xde, 0xad], [0xbe]]), (9, [[1]])])) ex_api = Inr s \<and>
     window s = [0, 0, 0, 0, 0xde, 0xad, 0xbe, 0, 0, 1] @ replicate 22 0 \<and> stat_offload_size s = 4"
proof -
  have r: "replicate 32 (0 :: byte) = [0,0,0,0,0,0,0,0,0,0] @ replicate 22 0" by (simp add: numeral_eq_Suc)
  have "foldl section_store (window ex_api) [(4, [[0xde, 0xad], [0xbe]]), (9, [[1]])] =
      [0, 0, 0, 0, 0xde, 0xad, 0xbe, 0, 0, 1] @ replicate 22 0"
    unfolding ex_api_def by (simp add: section_store_def r)
  then show ?thesis
    using kernel_image_roundtrip [of ex_ap ex_api "[(4, [[0xde, 0xad], [0xbe]]), (9, [[1]])]"]
    by (simp add: ex_ap_def ex_tp_def task_params.defs) (simp add: ex_api_def)
qed

section \<open>Handing over a task\<close>

definition reg_index :: "pim_data \<Rightarrow> u32" where
  "reg_index d = ucast (d_reg d)"

definition sreg_off :: "api_params \<Rightarrow> pim_data \<Rightarrow> nat" where
  "sreg_off c d = unat (PIM_SREG c) + 8 * unat (reg_index d)"

lemma le_u64 [simp]: "of_nat (le_to_nat (nat_to_le 8 (unat v))) = (v :: u64)"
proof -
  have "unat v < 256 ^ 8" using unsigned_less [of v, where 'a = nat] by simp
  then show ?thesis by (simp add: le_to_nat_of_nat_to_le)
qed

lemma write_sreg_ok:
  assumes "DEBUG_API c \<longrightarrow> current_time_stamp s = 3" "unat (PIM_SREG c) + 8 * unat i + 8 \<le> length (window s)"
  obtains w where "write_sreg c i v s = Inr (s\<lparr>window := w\<rparr>)" "length w = length (window s)"
    "write_bytes (window s) (unat (PIM_SREG c) + 8 * unat i) (nat_to_le 8 (unat v)) = Some w"
proof -
  obtain w where w: "write_bytes (window s) (unat (PIM_SREG c) + 8 * unat i) (nat_to_le 8 (unat v)) = Some w"
    using assms(2) by (auto simp: write_bytes_def)
  show thesis using that [OF _ _ w] w write_bytes_length [OF w] assms(1) by (simp add: write_sreg_def ASSERT_DBG_def task_params.defs)
qed

lemma send_pointers_ok:
  assumes "DEBUG_API c \<longrightarrow> current_time_stamp s = 3" "\<forall>d \<in> set ds. sreg_off c d + 8 \<le> length (window s)"
    "distinct (map reg_index ds)"
  shows "\<exists>w. send_pointers c ds s = Inr (s\<lparr>window := w\<rparr>) \<and> length w = length (window s) \<and>
    (\<forall>d \<in> set ds. read_bytes w (sreg_off c d) 8 = Some (nat_to_le 8 (unat (v_addr d)))) \<and>
    (\<forall>j. (\<forall>d \<in> set ds. reg_index d \<noteq> j) \<longrightarrow>
      read_bytes w (unat (PIM_SREG c) + 8 * unat j) 8 = read_bytes (window s) (unat (PIM_SREG c) + 8 * unat j) 8)"
  using assms
proof (induction ds arbitrary: s)
  case Nil
  then show ?case by (intro exI [of _ "window s"]) simp
next
  case (Cons d ds)
  let ?i = "reg_index d"
  have fit: "unat (PIM_SREG c) + 8 * unat ?i + 8 \<le> length (window s)"
    using Cons.prems(2) by (simp add: sreg_off_def)
  obtain w1 where w1: "write_sreg c ?i (v_addr d) s = Inr (s\<lparr>window := w1\<rparr>)" "length w1 = length (window s)"
    "write_bytes (window s) (sreg_off c d) (nat_to_le 8 (unat (v_addr d))) = Some w1"
    by (rule write_sreg_ok [OF Cons.prems(1) fit, of "v_addr d"]) (simp add: sreg_off_def)
  have other: "read_bytes w1 (unat (PIM_SREG c) + 8 * unat j) 8 = read_bytes (window s) (unat (PIM_SREG c) + 8 * unat j) 8"
    if "j \<noteq> ?i" for j
  proof -
    have "unat j \<noteq> unat ?i" using that word_unat_eq_iff [of j ?i] by blast
    then have "unat j < unat ?i \<or> unat ?i < unat j" by linarith
    then have "8 * unat j + 8 \<le> 8 * unat ?i \<or> 8 * unat ?i + 8 \<le> 8 * unat j" by linarith
    then show ?thesis using read_write_other [OF w1(3), of "unat (PIM_SREG c) + 8 * unat j" 8] by (simp add: sreg_off_def)
  qed
  obtain w where w: "send_pointers c ds (s\<lparr>window := w1\<rparr>) = Inr (s\<lparr>window := w\<rparr>)" "length w = length w1"
    "\<forall>d \<in> set ds. read_bytes w (sreg_off c d) 8 = Some (nat_to_le 8 (unat (v_addr d)))"
    "\<forall>j. (\<forall>d \<in> set ds. reg_index d \<noteq> j) \<longrightarrow>
      read_bytes w (unat (PIM_SREG c) + 8 * unat j) 8 = read_bytes w1 (unat (PIM_SREG c) + 8 * unat j) 8"
    using Cons.IH [of "s\<lparr>window := w1\<rparr>"] Cons.prems w1(2) by auto
  have "read_bytes w (sreg_off c d) 8 = read_bytes w1 (sreg_off c d) 8"
  proof -
    have "?i \<notin> reg_index ` set ds" using Cons.prems(3) by simp
    then have "\<forall>e \<in> set ds. reg_index e \<noteq> ?i" by (metis image_eqI)
    then show ?thesis using w(4) [rule_format, of ?i] by (simp add: sreg_off_def)
  qed
  then have "read_bytes w (sreg_off c d) 8 = Some (nat_to_le 8 (unat (v_addr d)))"
    using read_write_same [OF w1(3)] by simp
  moreover have "send_pointers c (d # ds) s = Inr (s\<lparr>window := w\<rparr>)" using w(1) w1(1) by (simp add: reg_index_def)
  ultimately show ?case using w w1(2) other by (intro exI [of _ w]) auto
qed

text \<open>Handing over a task whose data lie in one region calls the driver with exactly that region, its first address
  and its number of pages, after every data set's pointer has been stored in the scalar register chosen for it, where it
  reads back; the driver's answer is returned.\<close>

theorem offload_task_hands_over:
  assumes t: "updatePages (task_params.truncate c) task = Inr t" "vpages t = [p]"
    and s: "DEBUG_API c \<longrightarrow> current_time_stamp s = 3" "2 < length (ioctl_arg s)"
    and d: "distinct (map (\<lambda>d. ucast (d_reg d) :: u32) (task_data t))"
      "\<forall>d \<in> set (task_data t). unat (PIM_SREG c) + 8 * unat (ucast (d_reg d) :: u32) + 8 \<le> length (window s)"
  shows "\<exists>s'. offload_task c ioctl task s k = (case ioctl (ioctl_arg s') k of (ret, k') \<Rightarrow> Inr (ret, s', k')) \<and>
    take 3 (ioctl_arg s') = [2, push_bit (PAGE_SHIFT c) (v_pn_start p), pg_count p] \<and>
    (\<forall>d \<in> set (task_data t). read_sreg c (ucast (d_reg d)) s' = Inr (v_addr d)) \<and>
    api_tasks s' = api_tasks s @ [t]"
proof -
  obtain x0 x1 x2 xs where arg: "ioctl_arg s = x0 # x1 # x2 # xs"
    using s(2) by (cases "ioctl_arg s"; cases "tl (ioctl_arg s)"; cases "tl (tl (ioctl_arg s))") auto
  let ?args = "2 # push_bit (PAGE_SHIFT c) (v_pn_start p) # pg_count p # xs"
  let ?s = "s\<lparr>api_tasks := api_tasks s @ [t], ioctl_arg := ?args\<rparr>"
  have fill: "fill_args (PAGE_SHIFT c) 0 (vpages t) ((ioctl_arg s)[0 := 2]) = Inr ?args"
    by (simp add: arg t(2))
  obtain w where w: "send_pointers c (task_data t) ?s = Inr (?s\<lparr>window := w\<rparr>)"
    "\<forall>d \<in> set (task_data t). read_bytes w (sreg_off c d) 8 = Some (nat_to_le 8 (unat (v_addr d)))"
    using send_pointers_ok [of c ?s "task_data t"] s d by (auto simp: sreg_off_def reg_index_def [abs_def])
  have "read_sreg c (ucast (d_reg d)) (?s\<lparr>window := w\<rparr>) = Inr (v_addr d)" if "d \<in> set (task_data t)" for d
    using w(2) that by (simp add: read_sreg_def sreg_off_def reg_index_def)
  moreover have "offload_task c ioctl task s k = (case ioctl ?args k of (ret, k') \<Rightarrow> Inr (ret, ?s\<lparr>window := w\<rparr>, k'))"
    using t s(1) fill w(1) arg by (auto simp: offload_task_def ASSERT_DBG_def task_params.defs PIM_IOCTL_MAX_ARGS_def Let_def)
  ultimately show ?thesis by (intro exI [of _ "?s\<lparr>window := w\<rparr>"]) simp
qed

theorem offload_task_hands_over_witness:
  "\<exists>t s'. add_all ex_tp [(0x1000, 0x20, 1), (0x2000, 0x10, 0)] (PIMTask ''t'') = Inr t \<and>
    offload_task ex_ap (\<lambda>args k. (1, k @ [args])) t (ex_api\<lparr>current_time_stamp := 3\<rparr>) [] = Inr (1, s', [ioctl_arg s']) \<and>
    take 3 (ioctl_arg s') = [2, 0x1000, 2] \<and> read_sreg ex_ap 1 s' = Inr 0x1000"
proof -
  let ?t = "\<lparr>task_name = ''t'', task_data = [\<lparr>v_addr = 0x1000, d_size = 0x20, d_reg = 1\<rparr>, \<lparr>v_addr = 0x2000, d_size = 0x10, d_reg = 0\<rparr>],
    vpages = [], task_updated = False, stat_datasize = 0x30\<rparr>"
  let ?t' = "?t\<lparr>vpages := [\<lparr>v_pn_start = 1, v_pn_end = 2, pg_count = 2\<rparr>], task_updated := True\<rparr>"
  let ?s = "ex_api\<lparr>current_time_stamp := 3\<rparr>"
  have tp: "task_params.truncate ex_ap = ex_tp" by (simp add: ex_ap_def task_params.defs ex_tp_def)
  have add: "add_all ex_tp [(0x1000, 0x20, 1), (0x2000, 0x10, 0)] (PIMTask ''t'') = Inr ?t"
    by (simp add: addData_def ASSERT_DBG_def PIMTask_def ex_tp_def)
  have up: "updatePages (task_params.truncate ex_ap) ?t = Inr ?t'" unfolding tp
    by (simp add: ex_tp_def ASSERT_DBG_def updatePages_def new_page_def start_page_def end_page_def end_address_def drop_bit_eq_div)
  have ap: "PIM_SREG ex_ap = 16" "PAGE_SHIFT ex_ap = 12" by (simp_all add: ex_ap_def task_params.defs ex_tp_def)
  obtain s' where s': "offload_task ex_ap (\<lambda>args k. (1, k @ [args])) ?t ?s [] = Inr (1, s', [] @ [ioctl_arg s'])"
    "take 3 (ioctl_arg s') = [2, push_bit 12 1, 2]"
    "\<forall>d \<in> set (task_data ?t'). read_sreg ex_ap (ucast (d_reg d)) s' = Inr (v_addr d)"
    using offload_task_hands_over [OF up, of "\<lparr>v_pn_start = 1, v_pn_end = 2, pg_count = 2\<rparr>" ?s "\<lambda>args k. (1, k @ [args])" "[]"] ap
    by (auto simp: ex_api_def)
  then show ?thesis using add by (intro exI [of _ ?t] exI [of _ s']) simp
qed

section \<open>Waiting for the device\<close>

text \<open>The window after the first \<open>n\<close> sleeps, if the host only looks.\<close>

fun dev_run :: "(nat \<Rightarrow> byte list \<Rightarrow> byte list) \<Rightarrow> nat \<Rightarrow> byte list \<Rightarrow> byte list" where
  "dev_run dev 0 w = w"
| "dev_run dev (Suc n) w = dev n (dev_run dev n w)"

lemma check_status_ok:
  assumes "unat (PIM_STATUS_REG c) < unat (PHY_SIZE c)" "unat (PHY_SIZE c) \<le> length (window s)"
  shows "check_status c s = Inr (window s ! unat (PIM_STATUS_REG c))"
proof -
  have "take (Suc 0) (drop (unat (PIM_STATUS_REG c)) (window s)) = [window s ! unat (PIM_STATUS_REG c)]"
    using assms by (simp add: take_Suc_conv_app_nth)
  then show ?thesis using assms
    by (simp add: check_status_def read_byte_def ASSERT_DBG_def word_less_nat_alt read_bytes_def)
qed

lemma wait_loop_polls:
  assumes reg: "unat (PIM_STATUS_REG c) < unat (PHY_SIZE c)"
    and len: "\<forall>i \<le> Suc n. unat (PHY_SIZE c) \<le> length (dev_run dev i w)"
    and busy: "\<forall>i < n. dev_run dev (Suc i) w ! unat (PIM_STATUS_REG c) \<noteq> PIM_STATUS_DONE"
    and ready: "dev_run dev (Suc n) w ! unat (PIM_STATUS_REG c) = PIM_STATUS_DONE"
    and "k \<le> n" "n - k < fuel" "window s = dev_run dev k w"
  shows "wait_loop c dev fuel k s = Some (Inr (s\<lparr>window := dev_run dev (Suc n) w\<rparr>))"
  using assms(5-7)
proof (induction fuel arbitrary: k s)
  case (Suc fuel)
  let ?s = "s\<lparr>window := dev_run dev (Suc k) w\<rparr>"
  have st: "check_status c ?s = Inr (dev_run dev (Suc k) w ! unat (PIM_STATUS_REG c))"
    using check_status_ok [OF reg, of ?s] len [rule_format, of "Suc k"] Suc.prems(1) by simp
  show ?case
  proof (cases "k = n")
    case True
    then show ?thesis using st Suc.prems(3) ready by (simp add: Let_def)
  next
    case False
    then have "wait_loop c dev fuel (Suc k) ?s = Some (Inr (?s\<lparr>window := dev_run dev (Suc n) w\<rparr>))"
      using Suc.prems by (intro Suc.IH) auto
    then show ?thesis using st Suc.prems(1,3) busy False by (simp add: Let_def)
  qed
qed simp

text \<open>Waiting ends when the device is done: if the status register shows the end of the computation for the first time
  at the poll \<open>n\<close>, then with any fuel above \<open>n\<close> the loop ends exactly there, and the command register is reset to the
  empty command in the window the device left.\<close>

theorem wait_for_completion_ends:
  assumes "unat (PIM_STATUS_REG c) < unat (PHY_SIZE c)" "unat (PIM_COMMAND_REG c) < unat (PHY_SIZE c)"
    and "\<forall>i \<le> Suc n. unat (PHY_SIZE c) \<le> length (dev_run dev i (window s))"
    and "\<forall>i < n. dev_run dev (Suc i) (window s) ! unat (PIM_STATUS_REG c) \<noteq> PIM_STATUS_DONE"
    and "dev_run dev (Suc n) (window s) ! unat (PIM_STATUS_REG c) = PIM_STATUS_DONE"
    and "DEBUG_API c \<longrightarrow> current_time_stamp s = 5" "n < fuel"
  shows "wait_for_completion c dev fuel s =
    Some (Inr (s\<lparr>window := (dev_run dev (Suc n) (window s))[unat (PIM_COMMAND_REG c) := PIM_COMMAND_NOP]\<rparr>))"
  using wait_loop_polls [OF assms(1,3-5), of 0 fuel s] assms(2,3,6,7)
    write_byte_ok [of "PIM_COMMAND_REG c" c "s\<lparr>window := dev_run dev (Suc n) (window s)\<rparr>" PIM_COMMAND_NOP]
  by (auto simp: wait_for_completion_def give_command_def)

theorem wait_for_completion_ends_witness:
  "wait_for_completion ex_ap (\<lambda>k w. if k = 2 then w[1 := 0x44] else w) 10 (ex_api\<lparr>current_time_stamp := 5\<rparr>) =
    Some (Inr (ex_api\<lparr>current_time_stamp := 5, window := ((replicate 32 0)[1 := 0x44])[2 := 0x4e]\<rparr>))"
proof -
  have p: "PIM_STATUS_REG ex_ap = 1" "PIM_COMMAND_REG ex_ap = 2" "PHY_SIZE ex_ap = 32" by (simp_all add: ex_ap_def task_params.defs)
  have w: "window (ex_api\<lparr>current_time_stamp := 5\<rparr>) = replicate 32 0" by (simp add: ex_api_def)
  let ?dev = "\<lambda>k w. if k = 2 then w[1 := 0x44] else w :: byte list" and ?w = "replicate 32 0 :: byte list"
  have len: "length (dev_run ?dev i ?w) = 32" for i by (induction i) auto
  have r: "dev_run ?dev (Suc i) ?w = ?w" if "i < 2" for i using that by (cases i) auto
  have r2: "dev_run ?dev (Suc 2) ?w = ?w[1 := 0x44]" using r [of 1] by (simp add: numeral_2_eq_2)
  have h: "unat (PIM_STATUS_REG ex_ap) < unat (PHY_SIZE ex_ap)" "unat (PIM_COMMAND_REG ex_ap) < unat (PHY_SIZE ex_ap)"
    "\<forall>i \<le> Suc 2. unat (PHY_SIZE ex_ap) \<le> length (dev_run ?dev i (window (ex_api\<lparr>current_time_stamp := 5\<rparr>)))"
    "\<forall>i < 2. dev_run ?dev (Suc i) (window (ex_api\<lparr>current_time_stamp := 5\<rparr>)) ! unat (PIM_STATUS_REG ex_ap) \<noteq> PIM_STATUS_DONE"
    "dev_run ?dev (Suc 2) (window (ex_api\<lparr>current_time_stamp := 5\<rparr>)) ! unat (PIM_STATUS_REG ex_ap) = PIM_STATUS_DONE"
    unfolding w p r2 PIM_STATUS_DONE_def using len r by (simp_all del: dev_run.simps)
  show ?thesis
    using wait_for_completion_ends [OF h, of 10] unfolding w p r2 PIM_COMMAND_NOP_def by simp
qed

end
