(* ===== verification/Clock.thy ===== *)
theory Clock
  imports Prelude
begin

text \<open>
  Clocks (\<open>sim/clocked_object.hh\<close>, \<open>sim/clock_domain.hh\<close>, \<open>sim/clock_domain.cc\<close>, \<open>sim/voltage_domain.hh\<close> and
  \<open>sim/voltage_domain.cc\<close> under \<open>src/SMC_original/GEM5/gem5/src\<close>). A clocked object counts the edges of its clock
  lazily; a clock domain is the tree of its period, its divider, the clock state of its members and the domains
  derived from it; a voltage domain holds the source domains that run at one of its operating points. The
  current tick is an argument. A voltage, a finite \<open>double\<close>, is counted in
  units of the least positive one. Since members are values, an object cannot be
  registered twice, which the source asserts. Statistics and names are left out.
\<close>

section \<open>Clocked objects\<close>

record clocked_object =
  co_tick :: Tick
  co_cycle :: u64

definition divCeil :: "u64 \<Rightarrow> u64 \<Rightarrow> u64 res" where
  "divCeil a b = (if b = 0 then Inl DivByZero else Inr ((a + b - 1) div b))"

definition ClockedObject :: clocked_object where
  "ClockedObject = \<lparr>co_tick = 0, co_cycle = 0\<rparr>"

definition co_update :: "Tick \<Rightarrow> Tick \<Rightarrow> clocked_object \<Rightarrow> clocked_object res" where
  "co_update per now c =
     (if co_tick c \<ge> now then Inr c
      else
        let c1 = c\<lparr>co_tick := co_tick c + per, co_cycle := co_cycle c + 1\<rparr> in
        if co_tick c1 \<ge> now then Inr c1
        else bindR (divCeil (now - co_tick c1) per) (\<lambda>elapsed.
               Inr (c1\<lparr>co_cycle := co_cycle c1 + elapsed, co_tick := co_tick c1 + elapsed * per\<rparr>)))"

definition resetClock :: "Tick \<Rightarrow> Tick \<Rightarrow> clocked_object \<Rightarrow> clocked_object res" where
  "resetClock per now c =
     bindR (divCeil now per) (\<lambda>elapsed. Inr (c\<lparr>co_cycle := elapsed, co_tick := elapsed * per\<rparr>))"

definition clockEdge :: "Tick \<Rightarrow> Tick \<Rightarrow> u64 \<Rightarrow> clocked_object \<Rightarrow> (Tick \<times> clocked_object) res" where
  "clockEdge per now cycles c = bindR (co_update per now c) (\<lambda>c'. Inr (co_tick c' + per * cycles, c'))"

definition curCycle :: "Tick \<Rightarrow> Tick \<Rightarrow> clocked_object \<Rightarrow> (u64 \<times> clocked_object) res" where
  "curCycle per now c = bindR (co_update per now c) (\<lambda>c'. Inr (co_cycle c', c'))"

definition nextCycle :: "Tick \<Rightarrow> Tick \<Rightarrow> clocked_object \<Rightarrow> (Tick \<times> clocked_object) res" where
  "nextCycle per now c = clockEdge per now 1 c"

definition ticksToCycles :: "Tick \<Rightarrow> Tick \<Rightarrow> u64 res" where
  "ticksToCycles per t = divCeil t per"

section \<open>Clock domains\<close>

datatype clock_domain =
  Domain (cd_period: Tick) (cd_divider: u64) (cd_members: "clocked_object list") (cd_children: "clock_domain list")

fun update_members :: "Tick \<Rightarrow> Tick \<Rightarrow> clocked_object list \<Rightarrow> clocked_object list res" where
  "update_members per now [] = Inr []"
| "update_members per now (c # cs) =
     bindR (co_update per now c) (\<lambda>c'. bindR (update_members per now cs) (\<lambda>cs'. Inr (c' # cs')))"

text \<open>\<open>DerivedClockDomain::updateClockPeriod\<close> with the period of the parent, and its loop over the children.\<close>

fun updateClockPeriod :: "Tick \<Rightarrow> Tick \<Rightarrow> clock_domain \<Rightarrow> clock_domain res"
  and updateChildren :: "Tick \<Rightarrow> Tick \<Rightarrow> clock_domain list \<Rightarrow> clock_domain list res" where
  "updateClockPeriod pp now (Domain per dv ms cs) =
     bindR (update_members per now ms) (\<lambda>ms'.
     bindR (updateChildren (pp * dv) now cs) (\<lambda>cs'. Inr (Domain (pp * dv) dv ms' cs')))"
| "updateChildren pp now [] = Inr []"
| "updateChildren pp now (d # ds) =
     bindR (updateClockPeriod pp now d) (\<lambda>d'. bindR (updateChildren pp now ds) (\<lambda>ds'. Inr (d' # ds')))"

definition DerivedClockDomain :: "Tick \<Rightarrow> Tick \<Rightarrow> u64 \<Rightarrow> clock_domain res" where
  "DerivedClockDomain pp now dv =
     (if dv < 1 then Inl (Fatal ''Clock divider param cannot be less than 1'')
      else updateClockPeriod pp now (Domain 0 dv [] []))"

fun registerWithClockDomain :: "clocked_object \<Rightarrow> clock_domain \<Rightarrow> clock_domain" where
  "registerWithClockDomain c (Domain per dv ms cs) = Domain per dv (ms @ [c]) cs"

fun addDerivedDomain :: "clock_domain \<Rightarrow> clock_domain \<Rightarrow> clock_domain" where
  "addDerivedDomain d (Domain per dv ms cs) = Domain per dv ms (cs @ [d])"

section \<open>Operating points\<close>

record src_clock_domain =
  src_dom :: clock_domain
  freqOpPoints :: "Tick list"
  src_perfLevel :: u32

record voltage_domain =
  voltageOpPoints :: "int list"
  vd_perfLevel :: u32
  srcClockChildren :: "src_clock_domain list"

text \<open>\<open>SrcClockDomain::clockPeriod\<close>; a source domain has no divider.\<close>

definition src_clockPeriod :: "Tick \<Rightarrow> Tick \<Rightarrow> src_clock_domain \<Rightarrow> src_clock_domain res" where
  "src_clockPeriod now per s =
     (if per = 0 then Inl (Fatal ''clock period of zero'')
      else
        case src_dom s of Domain old dv ms cs \<Rightarrow>
          bindR (update_members old now ms) (\<lambda>ms'.
          bindR (updateChildren per now cs) (\<lambda>cs'. Inr (s\<lparr>src_dom := Domain per dv ms' cs'\<rparr>))))"

definition clkPeriodAtPerfLevel :: "src_clock_domain \<Rightarrow> Tick res" where
  "clkPeriodAtPerfLevel s =
     (if unat (src_perfLevel s) < length (freqOpPoints s) then Inr (freqOpPoints s ! unat (src_perfLevel s))
      else Inl OutOfRange)"

definition numVoltages :: "voltage_domain \<Rightarrow> u32" where
  "numVoltages v = of_nat (length (voltageOpPoints v))"

definition VoltageDomain :: "int list \<Rightarrow> voltage_domain res" where
  "VoltageDomain vs =
     (if vs = [] then Inl (Fatal ''DVFS: Empty set of voltages'')
      else if \<not> sorted_wrt (\<ge>) vs then Inl (Fatal ''DVFS: Voltage operation points not in descending order'')
      else Inr \<lparr>voltageOpPoints = vs, vd_perfLevel = 0, srcClockChildren = []\<rparr>)"

text \<open>The constructor of a source domain, which registers with its voltage domain as its last child.\<close>

definition SrcClockDomain :: "Tick \<Rightarrow> Tick list \<Rightarrow> u32 \<Rightarrow> voltage_domain \<Rightarrow> voltage_domain res" where
  "SrcClockDomain now freqs lvl v =
     (if freqs = [] then Inl (Fatal ''DVFS: Empty set of frequencies'')
      else if unat (numVoltages v) > 1 \<and> unat (numVoltages v) \<noteq> length freqs
      then Inl (Fatal ''DVFS: Number of frequency and voltage scaling points do not match'')
      else if \<not> sorted freqs then Inl (Fatal ''DVFS: Frequency operation points not in descending order'')
      else if unat lvl \<ge> length freqs then Inl (Fatal ''DVFS: Initial DVFS point is outside of list'')
      else
        bindR (src_clockPeriod now (freqs ! unat lvl)
                 \<lparr>src_dom = Domain 0 1 [] [], freqOpPoints = freqs, src_perfLevel = lvl\<rparr>) (\<lambda>s.
          Inr (v\<lparr>srcClockChildren := srcClockChildren v @ [s]\<rparr>)))"

definition vd_setPerfLevel :: "u32 \<Rightarrow> voltage_domain \<Rightarrow> voltage_domain res" where
  "vd_setPerfLevel lvl v =
     assertR (unat lvl < length (voltageOpPoints v)) ''DVFS: Requested voltage ID''
       (Inr (if lvl = vd_perfLevel v then v else v\<lparr>vd_perfLevel := lvl\<rparr>))"

fun perf_max :: "u32 \<Rightarrow> src_clock_domain list \<Rightarrow> u32" where
  "perf_max mx [] = mx"
| "perf_max mx (s # ss) = perf_max (if src_perfLevel s < mx then src_perfLevel s else mx) ss"

definition sanitiseVoltages :: "voltage_domain \<Rightarrow> (bool \<times> voltage_domain) res" where
  "sanitiseVoltages v =
     (if numVoltages v = 1 then Inr (False, v)
      else
        let mx = perf_max (- 1) (srcClockChildren v) in
        if mx \<noteq> vd_perfLevel v then bindR (vd_setPerfLevel mx v) (\<lambda>v'. Inr (True, v')) else Inr (False, v))"

text \<open>\<open>SrcClockDomain::perfLevel\<close> of child \<open>i\<close> of the voltage domain.\<close>

definition set_perfLevel :: "Tick \<Rightarrow> nat \<Rightarrow> u32 \<Rightarrow> voltage_domain \<Rightarrow> voltage_domain res" where
  "set_perfLevel now i lvl v =
     (if i \<ge> length (srcClockChildren v) then Inl BadPtr
      else
        let s = srcClockChildren v ! i in
        assertR (unat lvl < length (freqOpPoints s)) ''validPerfLevel(perf_level)''
         (if lvl = src_perfLevel s then Inr v
          else
            let s1 = s\<lparr>src_perfLevel := lvl\<rparr>; v1 = v\<lparr>srcClockChildren := (srcClockChildren v)[i := s1]\<rparr> in
            bindR (sanitiseVoltages v1) (\<lambda>(_, v2).
            bindR (clkPeriodAtPerfLevel s1) (\<lambda>per.
            bindR (src_clockPeriod now per s1) (\<lambda>s2.
              Inr (v2\<lparr>srcClockChildren := (srcClockChildren v2)[i := s2]\<rparr>))))))"

text \<open>\<open>startup\<close> of a source domain and of a voltage domain, and what is read from a checkpoint before it.\<close>

definition src_startup :: "Tick \<Rightarrow> nat \<Rightarrow> voltage_domain \<Rightarrow> voltage_domain res" where
  "src_startup now i v =
     (if i \<ge> length (srcClockChildren v) then Inl BadPtr
      else set_perfLevel now i (src_perfLevel (srcClockChildren v ! i)) v)"

definition vd_startup :: "voltage_domain \<Rightarrow> voltage_domain res" where
  "vd_startup v = bindR (sanitiseVoltages v) (\<lambda>(_, v'). Inr v')"

definition src_unserialize :: "nat \<Rightarrow> u32 \<Rightarrow> voltage_domain \<Rightarrow> voltage_domain res" where
  "src_unserialize i lvl v =
     (if i \<ge> length (srcClockChildren v) then Inl BadPtr
      else Inr (v\<lparr>srcClockChildren := (srcClockChildren v)[i := (srcClockChildren v ! i)\<lparr>src_perfLevel := lvl\<rparr>]\<rparr>))"

definition vd_unserialize :: "u32 \<Rightarrow> voltage_domain \<Rightarrow> voltage_domain res" where
  "vd_unserialize lvl v = vd_setPerfLevel lvl (v\<lparr>vd_perfLevel := lvl\<rparr>)"

section \<open>Edges\<close>

text \<open>
  The reference for the lazy counter: the edges from \<open>t\<close> to the first one at or after \<open>now\<close>, and the clock that many
  edges later.
\<close>

definition edges :: "Tick \<Rightarrow> Tick \<Rightarrow> Tick \<Rightarrow> nat" where
  "edges per now t = (unat now - unat t + unat per - 1) div unat per"

definition advance :: "Tick \<Rightarrow> nat \<Rightarrow> clocked_object \<Rightarrow> clocked_object" where
  "advance per k c = c\<lparr>co_tick := co_tick c + of_nat k * per, co_cycle := co_cycle c + of_nat k\<rparr>"

lemma ceil_div_bounds:
  fixes n p :: nat
  assumes "0 < p"
  shows "n \<le> (n + p - 1) div p * p" "(n + p - 1) div p * p < n + p"
proof -
  have *: "(n + p - 1) div p * p + (n + p - 1) mod p = n + p - 1" by (rule div_mult_mod_eq)
  have "(n + p - 1) mod p < p" using assms by simp
  then show "n \<le> (n + p - 1) div p * p" using * assms by linarith
  show "(n + p - 1) div p * p < n + p" using * assms by linarith
qed

lemma ceil_div_eq:
  fixes n p k :: nat
  assumes "0 < p" "n \<le> k * p" "k * p < n + p"
  shows "(n + p - 1) div p = k"
proof (rule div_nat_eqI)
  show "p * k \<le> n + p - 1" using assms(1,3) by (simp add: mult.commute)
  show "n + p - 1 < p * Suc k" using assms(1,2) by (simp add: mult.commute)
qed

lemma edges_zero_iff:
  assumes "0 < unat per"
  shows "edges per now t = 0 \<longleftrightarrow> now \<le> t"
  using ceil_div_bounds [OF assms, of "unat now - unat t"] assms
  by (auto simp: edges_def word_le_nat_alt)

lemma edges_zero: "0 < unat per \<Longrightarrow> now \<le> t \<Longrightarrow> edges per now t = 0"
  by (simp add: edges_zero_iff)

lemma edges_step:
  assumes "0 < unat per" "unat t < unat now" "unat t + unat per < 2 ^ 64"
  shows "edges per now t = Suc (edges per now (t + per))"
proof -
  have t: "unat (t + per) = unat t + unat per" using unat_add_of_nat [of t "unat per"] assms(3) by simp
  show ?thesis
  proof (cases "unat now \<le> unat t + unat per")
    case True
    then have "edges per now (t + per) = 0" using edges_zero_iff [OF assms(1)] t by (simp add: word_le_nat_alt)
    moreover have "edges per now t = 1"
      unfolding edges_def using assms(1,2) True by (intro ceil_div_eq) auto
    ultimately show ?thesis by simp
  next
    case False
    then have "unat now - unat t + unat per - 1 = (unat now - (unat t + unat per) + unat per - 1) + unat per"
      using assms(1) by linarith
    then have "edges per now t = ((unat now - (unat t + unat per) + unat per - 1) + unat per) div unat per"
      by (simp only: edges_def)
    also have "\<dots> = Suc ((unat now - (unat t + unat per) + unat per - 1) div unat per)"
      using assms(1) by (metis Suc_eq_plus1 div_add_self2 gr_implies_not0)
    finally show ?thesis by (simp only: edges_def t)
  qed
qed

lemma unat_advance:
  assumes "0 < unat per" "unat now + unat per < 2 ^ 64"
  shows "unat (co_tick (advance per (edges per now (co_tick c)) c)) =
      unat (co_tick c) + edges per now (co_tick c) * unat per"
    "now \<le> co_tick (advance per (edges per now (co_tick c)) c)"
    "co_tick c < now \<Longrightarrow> unat (co_tick (advance per (edges per now (co_tick c)) c)) < unat now + unat per"
proof -
  let ?n = "unat now - unat (co_tick c)" and ?k = "edges per now (co_tick c)"
  have b: "?n \<le> ?k * unat per" "?k * unat per < ?n + unat per"
    using ceil_div_bounds [OF assms(1), of ?n] by (simp_all add: edges_def)
  have lt: "unat (co_tick c) + ?k * unat per < 2 ^ 64"
  proof (cases "now \<le> co_tick c")
    case True
    then show ?thesis using edges_zero [OF assms(1) True] unsigned_less [of "co_tick c", where 'a = nat] by simp
  next
    case False
    then show ?thesis using b(2) assms(2) by (simp add: word_le_nat_alt)
  qed
  have "of_nat (?k * unat per) = of_nat ?k * per" by simp
  then show eq: "unat (co_tick (advance per ?k c)) = unat (co_tick c) + ?k * unat per"
    using unat_add_of_nat [OF lt] by (simp add: advance_def)
  show "now \<le> co_tick (advance per ?k c)" unfolding word_le_nat_alt eq using b(1) by linarith
  show "unat (co_tick (advance per ?k c)) < unat now + unat per" if "co_tick c < now"
    unfolding eq using b(2) that by (simp add: word_less_nat_alt)
qed

text \<open>The three cases of \<open>update\<close> are the one step of the reference.\<close>

lemma co_update_edges:
  assumes "0 < unat per" "unat now + unat per < 2 ^ 64"
  shows "co_update per now c = Inr (advance per (edges per now (co_tick c)) c)"
proof (cases "now \<le> co_tick c")
  case True
  then show ?thesis using edges_zero [OF assms(1) True] by (simp add: co_update_def advance_def)
next
  case False
  then have lt: "unat (co_tick c) < unat now" by (simp add: word_le_nat_alt)
  define t1 where "t1 = co_tick c + per"
  have ut1: "unat t1 = unat (co_tick c) + unat per"
    using unat_add_of_nat [of "co_tick c" "unat per"] lt assms(2) by (simp add: t1_def)
  have e: "edges per now (co_tick c) = Suc (edges per now t1)"
    unfolding t1_def using lt assms by (intro edges_step) auto
  show ?thesis
  proof (cases "now \<le> t1")
    case True
    then show ?thesis using False e edges_zero_iff [OF assms(1), of now t1]
      by (simp add: co_update_def advance_def Let_def t1_def)
  next
    case f1: False
    have nz: "per \<noteq> 0" using assms(1) by auto
    have "unat (now - t1) = unat now - unat t1" using f1 by (intro unat_diff_le) simp
    moreover have "unat (now - t1 + per - 1) = unat (now - t1) + unat per - 1"
      using unat_range_end [of "unat per" "now - t1"] assms calculation by simp
    ultimately have "unat ((now - t1 + per - 1) div per) = edges per now t1"
      by (simp add: unat_div edges_def)
    then have "(now - t1 + per - 1) div per = of_nat (edges per now t1)" by (metis of_nat_unat ucast_id)
    then have d: "divCeil (now - t1) per = Inr (of_nat (edges per now t1))"
      using nz unfolding divCeil_def by simp
    show ?thesis using False f1 unfolding co_update_def e
      by (simp add: Let_def t1_def [symmetric] d advance_def) (simp add: t1_def algebra_simps)
  qed
qed


lemma edges_advance:
  assumes "0 < unat per" "unat t2 + unat per < 2 ^ 64" "t1 \<le> t2"
  shows "advance per (edges per t2 (co_tick (advance per (edges per t1 (co_tick c)) c)))
      (advance per (edges per t1 (co_tick c)) c) = advance per (edges per t2 (co_tick c)) c"
proof -
  let ?k1 = "edges per t1 (co_tick c)" and ?c1 = "advance per (edges per t1 (co_tick c)) c"
  let ?k2 = "edges per t2 (co_tick ?c1)"
  have le: "unat t1 \<le> unat t2" using assms(3) by (simp add: word_le_nat_alt)
  then have o1: "unat t1 + unat per < 2 ^ 64" using assms(2) by simp
  have k: "edges per t2 (co_tick c) = ?k1 + ?k2"
  proof (cases "t2 \<le> co_tick ?c1")
    case True
    then have z: "?k2 = 0" by (rule edges_zero [OF assms(1)])
    show ?thesis
    proof (cases "t1 \<le> co_tick c")
      case t: True
      then have "?k1 = 0" by (rule edges_zero [OF assms(1)])
      then show ?thesis using z True by (simp add: advance_def edges_zero [OF assms(1)])
    next
      case False
      have "edges per t2 (co_tick c) = ?k1"
        unfolding edges_def [of per t2]
        using unat_advance [OF assms(1) o1, of c] True False le assms(1)
        by (intro ceil_div_eq) (auto simp: word_le_nat_alt word_less_nat_alt)
      then show ?thesis using z by simp
    qed
  next
    case False
    have a: "unat (co_tick ?c1) = unat (co_tick c) + ?k1 * unat per" by (rule unat_advance(1) [OF assms(1) o1])
    have b: "unat t2 - unat (co_tick ?c1) \<le> ?k2 * unat per" "?k2 * unat per < unat t2 - unat (co_tick ?c1) + unat per"
      using ceil_div_bounds [OF assms(1), of "unat t2 - unat (co_tick ?c1)"] by (simp_all add: edges_def)
    have lt: "unat (co_tick ?c1) < unat t2" using False by (simp add: word_le_nat_alt)
    show ?thesis unfolding edges_def [of per t2 "co_tick c"]
      using a b lt assms(1) by (intro ceil_div_eq) (auto simp: add_mult_distrib)
  qed
  show ?thesis unfolding k by (simp add: advance_def algebra_simps)
qed

text \<open>C25: however often and whenever the lazy clock was brought up to date before, the edge it computes is
  the one an eager count of the period from the last known edge gives: the first edge that is not in the past,
  plus the requested number of cycles. No update in between changes it.\<close>

theorem clockEdge_exact:
  assumes "0 < unat per" "unat t2 + unat per < 2 ^ 64" "t1 \<le> t2"
  shows "let c' = advance per (edges per t2 (co_tick c)) c in
    clockEdge per t2 n c = Inr (co_tick c' + per * n, c') \<and> bindR (co_update per t1 c) (clockEdge per t2 n) = clockEdge per t2 n c \<and>
    t2 \<le> co_tick c' \<and> (co_tick c < t2 \<longrightarrow> unat (co_tick c') < unat t2 + unat per)"
proof -
  have le: "unat t1 \<le> unat t2" using assms(3) by (simp add: word_le_nat_alt)
  then have o1: "unat t1 + unat per < 2 ^ 64" using assms(2) by simp
  have "bindR (co_update per t1 c) (clockEdge per t2 n) = clockEdge per t2 n c"
    using co_update_edges [OF assms(1) o1] co_update_edges [OF assms(1,2)] edges_advance [OF assms(1-3)]
    by (simp add: clockEdge_def)
  then show ?thesis
    using co_update_edges [OF assms(1,2)] unat_advance(2,3) [OF assms(1,2)] by (simp add: clockEdge_def Let_def)
qed

theorem clockEdge_exact_witness:
  "clockEdge 1000 4500 2 ClockedObject = Inr (7000, \<lparr>co_tick = 5000, co_cycle = 5\<rparr>) \<and>
   bindR (co_update 1000 1200 ClockedObject) (clockEdge 1000 4500 2) = Inr (7000, \<lparr>co_tick = 5000, co_cycle = 5\<rparr>)"
  using clockEdge_exact [where per = 1000 and ?t2.0 = 4500 and ?t1.0 = 1200 and n = 2 and c = ClockedObject]
  by (simp add: ClockedObject_def advance_def edges_def)


section \<open>Domains\<close>

text \<open>A derived domain runs at the period of its parent times its divider, at every level of the tree.\<close>

fun tree_ok :: "Tick \<Rightarrow> clock_domain \<Rightarrow> bool" where
  "tree_ok pp (Domain per dv ms cs) \<longleftrightarrow> per = pp * dv \<and> per \<noteq> 0 \<and> (\<forall>d \<in> set cs. tree_ok per d)"

text \<open>The tree without its clocks, with every period replaced by what the dividers prescribe.\<close>

fun periods_fit :: "Tick \<Rightarrow> clock_domain \<Rightarrow> bool" where
  "periods_fit pp (Domain per dv ms cs) \<longleftrightarrow> pp * dv \<noteq> 0 \<and> (\<forall>d \<in> set cs. periods_fit (pp * dv) d)"

fun clocks_run :: "clock_domain \<Rightarrow> bool" where
  "clocks_run (Domain per dv ms cs) \<longleftrightarrow> per \<noteq> 0 \<and> (\<forall>d \<in> set cs. clocks_run d)"

lemma tree_ok_clocks_run: "tree_ok pp d \<Longrightarrow> clocks_run d"
  by (induction pp d rule: tree_ok.induct) simp

lemma co_update_runs: "per \<noteq> 0 \<Longrightarrow> \<exists>c'. co_update per now c = Inr c'"
  by (simp add: co_update_def divCeil_def Let_def)

lemma update_members_runs: "per \<noteq> 0 \<Longrightarrow> \<exists>ms'. update_members per now ms = Inr ms'"
proof (induction ms)
  case (Cons c cs)
  then show ?case using co_update_runs [OF Cons.prems, of now c] by auto
qed simp

lemma updateClockPeriod_ok:
  "clocks_run d \<Longrightarrow> periods_fit pp d \<Longrightarrow> \<exists>d'. updateClockPeriod pp now d = Inr d' \<and> tree_ok pp d'"
  "\<forall>d \<in> set ds. clocks_run d \<and> periods_fit pp d \<Longrightarrow>
     \<exists>ds'. updateChildren pp now ds = Inr ds' \<and> (\<forall>d \<in> set ds'. tree_ok pp d)"
proof (induction pp now d and pp now ds rule: updateClockPeriod_updateChildren.induct)
  case (1 pp now per dv ms cs)
  then show ?case using update_members_runs [of per now ms] by fastforce
next
  case (3 pp now d ds)
  then show ?case by fastforce
qed simp

lemma updateClockPeriod_fit:
  "updateClockPeriod pp now d = Inr d' \<Longrightarrow> periods_fit q d' = periods_fit q d"
  "updateChildren pp now ds = Inr ds' \<Longrightarrow> (\<forall>d \<in> set ds'. periods_fit q d) = (\<forall>d \<in> set ds. periods_fit q d)"
proof (induction pp now d and pp now ds arbitrary: d' q and ds' q rule: updateClockPeriod_updateChildren.induct)
  case (1 pp now per dv ms cs)
  then show ?case by auto
next
  case (3 pp now d ds)
  then show ?case by (auto elim!: bindR_InrE) blast+
qed auto

text \<open>The voltage follows the fastest, that is the numerically least, level that a domain requests.\<close>

lemma perf_max_Min: "perf_max mx ss = Min (insert mx (src_perfLevel ` set ss))"
proof (induction mx ss rule: perf_max.induct)
  case (2 mx s ss)
  have "(if src_perfLevel s < mx then src_perfLevel s else mx) = min (src_perfLevel s) mx" by (auto simp: min_def)
  then show ?case using 2
    by (cases "set ss = {}") (simp_all add: min.assoc min.left_commute min.commute)
qed simp

lemma perf_max_top: "ss \<noteq> [] \<Longrightarrow> perf_max (- 1) ss = Min (src_perfLevel ` set ss)"
  by (simp add: perf_max_Min min_absorb2 word_order.extremum)

section \<open>Switching the operating point\<close>

definition src_ok :: "src_clock_domain \<Rightarrow> bool" where
  "src_ok s \<longleftrightarrow> unat (src_perfLevel s) < length (freqOpPoints s) \<and>
     cd_period (src_dom s) = freqOpPoints s ! unat (src_perfLevel s) \<and>
     (\<forall>d \<in> set (cd_children (src_dom s)). tree_ok (cd_period (src_dom s)) d) \<and>
     (\<forall>per \<in> set (freqOpPoints s). per \<noteq> 0 \<and> (\<forall>d \<in> set (cd_children (src_dom s)). periods_fit per d))"

definition dvfs_ok :: "voltage_domain \<Rightarrow> bool" where
  "dvfs_ok v \<longleftrightarrow> (\<forall>s \<in> set (srcClockChildren v). src_ok s \<and>
       (numVoltages v \<noteq> 1 \<longrightarrow> length (freqOpPoints s) = length (voltageOpPoints v))) \<and>
     (numVoltages v \<noteq> 1 \<longrightarrow> srcClockChildren v \<noteq> [] \<longrightarrow>
       vd_perfLevel v = Min (src_perfLevel ` set (srcClockChildren v)))"

lemma src_clockPeriod_ok:
  assumes "src_ok s" "unat lvl < length (freqOpPoints s)"
  shows "\<exists>s'. src_clockPeriod now (freqOpPoints s ! unat lvl) (s\<lparr>src_perfLevel := lvl\<rparr>) = Inr s' \<and> src_ok s' \<and>
    src_perfLevel s' = lvl \<and> freqOpPoints s' = freqOpPoints s"
proof -
  let ?per = "freqOpPoints s ! unat lvl"
  obtain old dv ms cs where d: "src_dom s = Domain old dv ms cs" by (cases "src_dom s")
  have fit: "?per \<noteq> 0" "\<forall>d \<in> set cs. periods_fit ?per d" and old: "old \<noteq> 0"
    using assms d by (auto simp: src_ok_def)
  have run: "\<forall>d \<in> set cs. clocks_run d" using assms(1) d tree_ok_clocks_run by (fastforce simp: src_ok_def)
  obtain ms' where ms: "update_members old now ms = Inr ms'" using update_members_runs [OF old] by blast
  obtain cs' where cs: "updateChildren ?per now cs = Inr cs'" "\<forall>d \<in> set cs'. tree_ok ?per d"
    using updateClockPeriod_ok(2) [of cs ?per now] run fit(2) by blast
  have "\<forall>per \<in> set (freqOpPoints s). per \<noteq> 0 \<and> (\<forall>d \<in> set cs'. periods_fit per d)"
    using updateClockPeriod_fit(2) [OF cs(1)] assms(1) d by (simp add: src_ok_def)
  then show ?thesis using fit(1) ms cs d assms(2) by (simp add: src_clockPeriod_def src_ok_def)
qed

lemma sanitiseVoltages_ok:
  assumes "srcClockChildren v \<noteq> []"
    "\<forall>s \<in> set (srcClockChildren v). unat (src_perfLevel s) < length (freqOpPoints s) \<and>
       (numVoltages v \<noteq> 1 \<longrightarrow> length (freqOpPoints s) = length (voltageOpPoints v))"
  shows "\<exists>b lvl. sanitiseVoltages v = Inr (b, v\<lparr>vd_perfLevel := lvl\<rparr>) \<and>
    (numVoltages v \<noteq> 1 \<longrightarrow> lvl = Min (src_perfLevel ` set (srcClockChildren v)))"
proof (cases "numVoltages v = 1")
  case True
  then show ?thesis by (intro exI [of _ False] exI [of _ "vd_perfLevel v"]) (simp add: sanitiseVoltages_def)
next
  case False
  let ?m = "Min (src_perfLevel ` set (srcClockChildren v))"
  have "?m \<in> src_perfLevel ` set (srcClockChildren v)" using assms(1) by (intro Min_in) auto
  then have m: "unat ?m < length (voltageOpPoints v)" using assms(2) False by auto
  have "\<exists>b. sanitiseVoltages v = Inr (b, v\<lparr>vd_perfLevel := ?m\<rparr>)"
    using False m by (auto simp: sanitiseVoltages_def perf_max_top [OF assms(1)] vd_setPerfLevel_def)
  then show ?thesis by blast
qed


text \<open>Switching a source clock domain to a valid performance level always completes. Afterwards the domain runs
  at the frequency of that level, every domain derived from it at the multiple its dividers prescribe, the
  voltage is the one of the fastest level requested, and the other source domains are as before.\<close>

theorem dvfs_switch:
  assumes "dvfs_ok v" "i < length (srcClockChildren v)" "unat lvl < length (freqOpPoints (srcClockChildren v ! i))"
  shows "\<exists>v'. set_perfLevel now i lvl v = Inr v' \<and> dvfs_ok v' \<and> src_perfLevel (srcClockChildren v' ! i) = lvl \<and>
    cd_period (src_dom (srcClockChildren v' ! i)) = freqOpPoints (srcClockChildren v ! i) ! unat lvl \<and>
    (\<forall>j. j \<noteq> i \<longrightarrow> srcClockChildren v' ! j = srcClockChildren v ! j)"
proof (cases "lvl = src_perfLevel (srcClockChildren v ! i)")
  case True
  have "src_ok (srcClockChildren v ! i)" using assms(1,2) by (auto simp: dvfs_ok_def)
  then show ?thesis using True assms by (simp add: set_perfLevel_def src_ok_def)
next
  case False
  let ?s = "srcClockChildren v ! i"
  let ?s1 = "?s\<lparr>src_perfLevel := lvl\<rparr>"
  let ?v1 = "v\<lparr>srcClockChildren := (srcClockChildren v)[i := ?s1]\<rparr>"
  have ok: "src_ok s" "numVoltages v \<noteq> 1 \<Longrightarrow> length (freqOpPoints s) = length (voltageOpPoints v)"
    if "s \<in> set (srcClockChildren v)" for s using that assms(1) by (auto simp: dvfs_ok_def)
  have s: "?s \<in> set (srcClockChildren v)" using assms(2) by simp
  have nv: "numVoltages ?v1 = numVoltages v" by (simp add: numVoltages_def)
  have sub: "x = ?s1 \<or> x \<in> set (srcClockChildren v)" if "x \<in> set ((srcClockChildren v)[i := y])" "y = ?s1" for x y
    using that set_update_subset_insert [of "srcClockChildren v" i] by auto
  obtain s2 where s2: "src_clockPeriod now (freqOpPoints ?s ! unat lvl) ?s1 = Inr s2" "src_ok s2" "src_perfLevel s2 = lvl"
    "freqOpPoints s2 = freqOpPoints ?s"
    using src_clockPeriod_ok [OF ok(1) [OF s] assms(3)] by blast
  have "\<exists>b l. sanitiseVoltages ?v1 = Inr (b, ?v1\<lparr>vd_perfLevel := l\<rparr>) \<and>
      (numVoltages ?v1 \<noteq> 1 \<longrightarrow> l = Min (src_perfLevel ` set (srcClockChildren ?v1)))"
    using assms(2,3) ok s nv by (intro sanitiseVoltages_ok) (auto simp: src_ok_def dest!: sub [OF _ refl])
  then obtain b l where l: "sanitiseVoltages ?v1 = Inr (b, ?v1\<lparr>vd_perfLevel := l\<rparr>)"
    "numVoltages v \<noteq> 1 \<longrightarrow> l = Min (src_perfLevel ` set ((srcClockChildren v)[i := ?s1]))"
    using nv by auto
  let ?v' = "v\<lparr>vd_perfLevel := l, srcClockChildren := (srcClockChildren v)[i := s2]\<rparr>"
  have run: "set_perfLevel now i lvl v = Inr ?v'"
    using False assms(2,3) l(1) s2(1) by (simp add: set_perfLevel_def Let_def clkPeriodAtPerfLevel_def)
  have img: "src_perfLevel ` set ((srcClockChildren v)[i := ?s1]) = src_perfLevel ` set ((srcClockChildren v)[i := s2])"
    using s2(3) by (simp flip: set_map add: map_update)
  have all: "src_ok x \<and> (numVoltages v \<noteq> 1 \<longrightarrow> length (freqOpPoints x) = length (voltageOpPoints v))"
    if "x \<in> set ((srcClockChildren v)[i := s2])" for x
    using set_update_subset_insert [of "srcClockChildren v" i s2] that ok s s2 by auto
  have "dvfs_ok ?v'" using all l(2) img by (auto simp: dvfs_ok_def numVoltages_def)
  then show ?thesis using run s2 assms(2) by (auto simp: src_ok_def)
qed


text \<open>Two operating points, and a domain derived from the source domain by a divider of four.\<close>

definition ex_src :: src_clock_domain where
  "ex_src = \<lparr>src_dom = Domain 500 1 [\<lparr>co_tick = 1000, co_cycle = 2\<rparr>] [Domain 2000 4 [ClockedObject] []],
     freqOpPoints = [500, 1000], src_perfLevel = 0\<rparr>"

definition ex_vd :: voltage_domain where
  "ex_vd = \<lparr>voltageOpPoints = [12, 10], vd_perfLevel = 0, srcClockChildren = [ex_src]\<rparr>"

lemma dvfs_ok_ex: "dvfs_ok ex_vd"
  by (simp add: dvfs_ok_def src_ok_def ex_vd_def ex_src_def numVoltages_def)

theorem dvfs_switch_witness:
  "\<exists>v'. set_perfLevel 1700 0 1 ex_vd = Inr v' \<and> dvfs_ok v' \<and> src_perfLevel (srcClockChildren v' ! 0) = 1 \<and>
    cd_period (src_dom (srcClockChildren v' ! 0)) = 1000"
proof -
  have i: "0 < length (srcClockChildren ex_vd)" "unat (1 :: u32) < length (freqOpPoints (srcClockChildren ex_vd ! 0))"
    "freqOpPoints (srcClockChildren ex_vd ! 0) ! unat (1 :: u32) = 1000"
    by (simp_all add: ex_vd_def ex_src_def)
  show ?thesis using dvfs_switch [OF dvfs_ok_ex i(1,2), of 1700] unfolding i(3) by blast
qed

text \<open>After a checkpoint with another performance level has been read, \<open>startup\<close> of the source domain leaves the
  clock at the old frequency: it calls \<open>perfLevel\<close> with the level that is already stored, which is ignored.\<close>

theorem restored_level_keeps_frequency:
  "\<exists>v'. bindR (src_unserialize 0 1 ex_vd) (src_startup 0 0) = Inr v' \<and> src_perfLevel (srcClockChildren v' ! 0) = 1 \<and>
    cd_period (src_dom (srcClockChildren v' ! 0)) = 500 \<and> \<not> dvfs_ok v'"
  by (simp add: src_unserialize_def src_startup_def set_perfLevel_def ex_vd_def ex_src_def dvfs_ok_def src_ok_def numVoltages_def)

end
