(* ===== verification/Bridge.thy ===== *)
theory Bridge
  imports Clock SimpleMem
begin

text \<open>
  The bridge between two crossbars (\<open>mem/bridge.hh\<close> and \<open>mem/bridge.cc\<close> under \<open>src/SMC_original/GEM5/gem5/src\<close>),
  which also models the serial links of the memory cube: a request queue on its master port, a response queue on
  its slave port, and room for the response reserved when a request is accepted. The simulation time is an
  argument, an event is the tick it is scheduled for, and the answers of the peers to packets offered to
  them are arguments (a packet that a peer refuses stays as it is); a retry that the bridge sends is part of
  the result. The labels that print requests
  carry, the parameter file and the look-up of the ports are left out.
\<close>

section \<open>State\<close>

type_synonym deferred_packet = "packet \<times> Tick"

record bridge_slave_port =
  s_serialization_enable :: u32
  s_serialization_unit :: u32
  s_prev_serial_tick :: Tick
  s_delay :: u64
  s_ranges :: "addr_range list"
  s_transmitList :: "deferred_packet list"
  outstandingResponses :: u32
  s_retryReq :: bool
  respQueueLimit :: u32
  s_sendEvent :: "Tick option"

record bridge_master_port =
  m_serialization_enable :: u32
  m_serialization_unit :: u32
  m_prev_serial_tick :: Tick
  m_delay :: u64
  m_transmitList :: "deferred_packet list"
  reqQueueLimit :: u32
  m_sendEvent :: "Tick option"

record bridge =
  br_period :: Tick
  br_clock :: clocked_object
  slavePort :: bridge_slave_port
  masterPort :: bridge_master_port

record bridge_params =
  bp_delay :: Tick
  bp_resp_size :: u32
  bp_req_size :: u32
  bp_ranges :: "addr_range list"
  bp_serialization_enable :: u32
  bp_serialization_unit :: u32

definition BridgeSlavePort :: "u64 \<Rightarrow> u32 \<Rightarrow> addr_range list \<Rightarrow> u32 \<Rightarrow> u32 \<Rightarrow> bridge_slave_port" where
  "BridgeSlavePort delay resp_limit ranges ser_en ser_unit =
     \<lparr>s_serialization_enable = ser_en, s_serialization_unit = ser_unit, s_prev_serial_tick = 0, s_delay = delay,
      s_ranges = ranges, s_transmitList = [], outstandingResponses = 0, s_retryReq = False,
      respQueueLimit = resp_limit, s_sendEvent = None\<rparr>"

definition BridgeMasterPort :: "u64 \<Rightarrow> u32 \<Rightarrow> u32 \<Rightarrow> u32 \<Rightarrow> bridge_master_port" where
  "BridgeMasterPort delay req_limit ser_en ser_unit =
     \<lparr>m_serialization_enable = ser_en, m_serialization_unit = ser_unit, m_prev_serial_tick = 0, m_delay = delay,
      m_transmitList = [], reqQueueLimit = req_limit, m_sendEvent = None\<rparr>"

definition mkBridge :: "Tick \<Rightarrow> bridge_params \<Rightarrow> bridge res" where
  "mkBridge per p =
     bindR (ticksToCycles per (bp_delay p)) (\<lambda>d.
       Inr \<lparr>br_period = per, br_clock = ClockedObject,
            slavePort = BridgeSlavePort d (bp_resp_size p) (bp_ranges p) (bp_serialization_enable p) (bp_serialization_unit p),
            masterPort = BridgeMasterPort d (bp_req_size p) (bp_serialization_enable p) (bp_serialization_unit p)\<rparr>)"

section \<open>Queues\<close>

definition respQueueFull :: "bridge \<Rightarrow> bool" where
  "respQueueFull b \<longleftrightarrow> outstandingResponses (slavePort b) = respQueueLimit (slavePort b)"

definition reqQueueFull :: "bridge \<Rightarrow> bool" where
  "reqQueueFull b \<longleftrightarrow> length (m_transmitList (masterPort b)) = unat (reqQueueLimit (masterPort b))"

definition expects_response :: "packet \<Rightarrow> bool" where
  "expects_response p \<longleftrightarrow> needsResponse p \<and> \<not> memInhibitAsserted p"

definition br_clockEdge :: "Tick \<Rightarrow> u64 \<Rightarrow> bridge \<Rightarrow> (Tick \<times> bridge) res" where
  "br_clockEdge now n b = bindR (clockEdge (br_period b) now n (br_clock b)) (\<lambda>(t, c). Inr (t, b\<lparr>br_clock := c\<rparr>))"

text \<open>
  When a packet may leave: after the delay and, on a serial link, the time its bits take, but always after
  the packet before it. The product of the size, an unsigned int, wraps at 32 bits.
\<close>

definition link_tick ::
    "Tick \<Rightarrow> u32 \<Rightarrow> u32 \<Rightarrow> u64 \<Rightarrow> Tick \<Rightarrow> packet \<Rightarrow> bridge \<Rightarrow> (Tick \<times> Tick \<times> bridge) res" where
  "link_tick now enable unit delay prev p b =
     bindR (br_clockEdge now delay b) (\<lambda>(t, b1).
       if enable = 0 then Inr (t, prev, b1)
       else
         bindR (getSize p) (\<lambda>n.
           if unit = 0 then Inl DivByZero
           else
             bindR (br_clockEdge now (ucast (n * 8 div unit) + delay) b1) (\<lambda>(t, b2).
               let t' = (if prev \<ge> t then prev + 1 else t) in Inr (t', t', b2))))"

definition schedTimingReq :: "Tick \<Rightarrow> packet \<Rightarrow> Tick \<Rightarrow> bridge \<Rightarrow> bridge res" where
  "schedTimingReq now p when b =
     bindR (if expects_response p then bindR (getSrc p) (\<lambda>src. Inr (pushSenderState p (RequestState src))) else Inr p) (\<lambda>p1.
     let m = masterPort b in
     bindR (if m_transmitList m = [] then schedule_event (m_sendEvent m) now when else Inr (m_sendEvent m)) (\<lambda>ev.
     assertR (length (m_transmitList m) \<noteq> unat (reqQueueLimit m)) ''transmitList.size() != reqQueueLimit''
       (Inr (b\<lparr>masterPort := m\<lparr>m_sendEvent := ev, m_transmitList := m_transmitList m @ [(p1, when)]\<rparr>\<rparr>))))"

definition schedTimingResp :: "Tick \<Rightarrow> packet \<Rightarrow> Tick \<Rightarrow> bridge \<Rightarrow> bridge res" where
  "schedTimingResp now p when b =
     bindR (popSenderState p) (\<lambda>(ss, p1).
       case ss of
         RequestState src \<Rightarrow>
           (let p2 = p1\<lparr>pk_dest := src\<rparr>; s = slavePort b in
            assertR (pk_dest p2 \<noteq> InvalidPortID) ''pkt->isDestValid()''
              (bindR (if s_transmitList s = [] then schedule_event (s_sendEvent s) now when else Inr (s_sendEvent s)) (\<lambda>ev.
                 Inr (b\<lparr>slavePort := s\<lparr>s_sendEvent := ev, s_transmitList := s_transmitList s @ [(p2, when)]\<rparr>\<rparr>))))
       | _ \<Rightarrow> Inl (AssertFail ''req_state != NULL''))"

section \<open>Timing accesses\<close>

definition br_recvTimingResp :: "Tick \<Rightarrow> packet \<Rightarrow> bridge \<Rightarrow> bridge res" where
  "br_recvTimingResp now p b =
     (let p1 = p\<lparr>firstWordDelay := 0, lastWordDelay := 0\<rparr>; m = masterPort b in
      bindR (link_tick now (m_serialization_enable m) (m_serialization_unit m) (m_delay m) (m_prev_serial_tick m) p1 b)
        (\<lambda>(t, prev, b1). schedTimingResp now p1 t (b1\<lparr>masterPort := (masterPort b1)\<lparr>m_prev_serial_tick := prev\<rparr>\<rparr>)))"

definition br_recvTimingReq :: "Tick \<Rightarrow> packet \<Rightarrow> bridge \<Rightarrow> (bool \<times> bridge) res" where
  "br_recvTimingReq now p b =
     (let s = slavePort b in
      assertR (\<not> s_retryReq s) ''!retryReq''
       (if reqQueueFull b \<or> expects_response p \<and> respQueueFull b
        then Inr (False, b\<lparr>slavePort := s\<lparr>s_retryReq := True\<rparr>\<rparr>)
        else
          let s1 = (if expects_response p then s\<lparr>outstandingResponses := outstandingResponses s + 1\<rparr> else s);
              p1 = p\<lparr>firstWordDelay := 0, lastWordDelay := 0\<rparr> in
          bindR (link_tick now (s_serialization_enable s1) (s_serialization_unit s1) (s_delay s1) (s_prev_serial_tick s1)
                   p1 (b\<lparr>slavePort := s1\<rparr>))
            (\<lambda>(t, prev, b1).
               bindR (schedTimingReq now p1 t (b1\<lparr>slavePort := (slavePort b1)\<lparr>s_prev_serial_tick := prev\<rparr>\<rparr>)) (\<lambda>b2.
                 Inr (True, b2)))))"

text \<open>The flag says whether the bridge sends a retry to the requester.\<close>

definition retryStalledReq :: "bridge \<Rightarrow> bool \<times> bridge" where
  "retryStalledReq b =
     (let s = slavePort b in if s_retryReq s then (True, b\<lparr>slavePort := s\<lparr>s_retryReq := False\<rparr>\<rparr>) else (False, b))"

definition m_trySendTiming :: "Tick \<Rightarrow> bool \<Rightarrow> bridge \<Rightarrow> (packet \<times> bool \<times> bridge) res" where
  "m_trySendTiming now ok b =
     (case m_transmitList (masterPort b) of
        [] \<Rightarrow> Inl (AssertFail ''!transmitList.empty()'')
      | (p, t) # rest \<Rightarrow>
          assertR (t \<le> now) ''req.tick <= curTick()''
           (if ok then
              let b1 = b\<lparr>masterPort := (masterPort b)\<lparr>m_transmitList := rest\<rparr>\<rparr> in
              bindR (case rest of
                       [] \<Rightarrow> Inr b1
                     | (_, t') # _ \<Rightarrow>
                         bindR (br_clockEdge now 0 b1) (\<lambda>(e, b2).
                         bindR (schedule_event (m_sendEvent (masterPort b2)) now (max t' e)) (\<lambda>ev.
                           Inr (b2\<lparr>masterPort := (masterPort b2)\<lparr>m_sendEvent := ev\<rparr>\<rparr>))))
                (\<lambda>b2. case retryStalledReq b2 of (r, b3) \<Rightarrow> Inr (p, r, b3))
            else Inr (p, False, b)))"

definition s_trySendTiming :: "Tick \<Rightarrow> bool \<Rightarrow> bridge \<Rightarrow> (packet \<times> bool \<times> bridge) res" where
  "s_trySendTiming now ok b =
     (case s_transmitList (slavePort b) of
        [] \<Rightarrow> Inl (AssertFail ''!transmitList.empty()'')
      | (p, t) # rest \<Rightarrow>
          assertR (t \<le> now) ''resp.tick <= curTick()''
           (if ok then
              assertR (outstandingResponses (slavePort b) \<noteq> 0) ''outstandingResponses != 0''
               (let b1 = b\<lparr>slavePort := (slavePort b)\<lparr>s_transmitList := rest,
                            outstandingResponses := outstandingResponses (slavePort b) - 1\<rparr>\<rparr> in
                bindR (case rest of
                         [] \<Rightarrow> Inr b1
                       | (_, t') # _ \<Rightarrow>
                           bindR (br_clockEdge now 0 b1) (\<lambda>(e, b2).
                           bindR (schedule_event (s_sendEvent (slavePort b2)) now (max t' e)) (\<lambda>ev.
                             Inr (b2\<lparr>slavePort := (slavePort b2)\<lparr>s_sendEvent := ev\<rparr>\<rparr>))))
                  (\<lambda>b2. if \<not> reqQueueFull b2 \<and> s_retryReq (slavePort b2)
                        then Inr (p, True, b2\<lparr>slavePort := (slavePort b2)\<lparr>s_retryReq := False\<rparr>\<rparr>)
                        else Inr (p, False, b2)))
            else Inr (p, False, b)))"

definition m_recvRetry :: "Tick \<Rightarrow> bool \<Rightarrow> bridge \<Rightarrow> (packet \<times> bool \<times> bridge) res" where
  "m_recvRetry now ok b = m_trySendTiming now ok b"

definition s_recvRetry :: "Tick \<Rightarrow> bool \<Rightarrow> bridge \<Rightarrow> (packet \<times> bool \<times> bridge) res" where
  "s_recvRetry now ok b = s_trySendTiming now ok b"

section \<open>Atomic and functional accesses\<close>

definition br_recvAtomic :: "'s atomic_peer \<Rightarrow> bridge \<Rightarrow> 's \<Rightarrow> packet \<Rightarrow> (Tick \<times> packet \<times> 's) res" where
  "br_recvAtomic sendAtomic b s p =
     bindR (sendAtomic s p) (\<lambda>(t, p', s'). Inr (s_delay (slavePort b) * br_period b + t, p', s'))"

text \<open>The scan of one queue, which stops at the first packet that satisfies the access.\<close>

fun br_scan :: "packet \<Rightarrow> deferred_packet list \<Rightarrow> (bool \<times> packet \<times> deferred_packet list) res" where
  "br_scan p [] = Inr (False, p, [])"
| "br_scan p ((q, t) # rest) =
     bindR (checkFunctional_pkt p q) (\<lambda>(found, p', q').
       if found then bindR (makeResponse p') (\<lambda>p2. Inr (True, p2, (q', t) # rest))
       else bindR (br_scan p' rest) (\<lambda>(f, p2, rest'). Inr (f, p2, (q', t) # rest')))"

definition br_checkFunctional :: "packet \<Rightarrow> bridge \<Rightarrow> (bool \<times> packet \<times> bridge) res" where
  "br_checkFunctional p b =
     bindR (br_scan p (m_transmitList (masterPort b))) (\<lambda>(found, p', q).
       Inr (found, p', b\<lparr>masterPort := (masterPort b)\<lparr>m_transmitList := q\<rparr>\<rparr>))"

definition br_recvFunctional :: "'s functional_peer \<Rightarrow> bridge \<Rightarrow> 's \<Rightarrow> packet \<Rightarrow> (packet \<times> bridge \<times> 's) res" where
  "br_recvFunctional sendFunctional b s p =
     bindR (br_scan p (s_transmitList (slavePort b))) (\<lambda>(found, p1, q).
       let b1 = b\<lparr>slavePort := (slavePort b)\<lparr>s_transmitList := q\<rparr>\<rparr> in
       if found then Inr (p1, b1, s)
       else
         bindR (br_checkFunctional p1 b1) (\<lambda>(found2, p2, b2).
           if found2 then Inr (p2, b2, s)
           else bindR (sendFunctional s p2) (\<lambda>(p3, s'). Inr (p3, b2, s'))))"

definition br_getAddrRanges :: "bridge \<Rightarrow> addr_range list" where
  "br_getAddrRanges b = s_ranges (slavePort b)"

section \<open>Effects of the operations\<close>

abbreviation mq :: "bridge \<Rightarrow> deferred_packet list" where "mq b \<equiv> m_transmitList (masterPort b)"
abbreviation sq :: "bridge \<Rightarrow> deferred_packet list" where "sq b \<equiv> s_transmitList (slavePort b)"

text \<open>What leaves the bridge for a request and for a response that entered it.\<close>

definition forwarded :: "packet \<Rightarrow> packet" where
  "forwarded p =
     (let p1 = p\<lparr>firstWordDelay := 0, lastWordDelay := 0\<rparr> in
      if expects_response p then pushSenderState p1 (RequestState (pk_src p)) else p1)"

definition returned :: "packet \<Rightarrow> packet" where
  "returned p =
     (case senderState p of
        RequestState src # ss \<Rightarrow> p\<lparr>firstWordDelay := 0, lastWordDelay := 0, senderState := ss, pk_dest := src\<rparr>
      | _ \<Rightarrow> p)"

lemma expects_response_upd [simp]:
  "expects_response (p\<lparr>firstWordDelay := x, lastWordDelay := y\<rparr>) = expects_response p"
  "expects_response (pushSenderState p s) = expects_response p"
  by (simp_all add: expects_response_def needsResponse_def memInhibitAsserted_def pushSenderState_def)

lemma expects_response_forwarded [simp]: "expects_response (forwarded p) = expects_response p"
  by (simp add: forwarded_def Let_def)

lemma br_clockEdge_frame:
  assumes "br_clockEdge now n b = Inr (t, b')"
  obtains c where "b' = b\<lparr>br_clock := c\<rparr>"
  using assms by (auto simp: br_clockEdge_def)

definition link_ok :: "u32 \<Rightarrow> Tick \<Rightarrow> Tick \<Rightarrow> Tick \<Rightarrow> bool" where
  "link_ok enable prev t prev' \<longleftrightarrow> (if enable = 0 then prev' = prev else prev' = t \<and> (prev \<noteq> - 1 \<longrightarrow> prev < t))"

lemma link_tick_frame:
  assumes "link_tick now en un d prev p b = Inr (t, prev', b')"
  obtains c where "b' = b\<lparr>br_clock := c\<rparr>" "link_ok en prev t prev'"
proof -
  have inc: "prev \<noteq> - 1 \<Longrightarrow> prev < prev + 1" using inc_less_eq_self_iff_eq [of prev] by (simp add: not_le [symmetric])
  have "b' = b\<lparr>br_clock := br_clock b'\<rparr>" "link_ok en prev t prev'" using assms inc
    by (auto simp: link_tick_def link_ok_def Let_def br_clockEdge_def not_le split: if_splits)
  then show thesis by (rule that)
qed

definition event_ok :: "deferred_packet list \<Rightarrow> Tick option \<Rightarrow> Tick \<Rightarrow> Tick option \<Rightarrow> bool" where
  "event_ok q ev t ev' \<longleftrightarrow> (if q = [] then ev = None \<and> ev' = Some t else ev' = ev)"

lemma schedTimingReq_frame:
  assumes "schedTimingReq now p when b = Inr b'"
  obtains ev where "b' = b\<lparr>masterPort := (masterPort b)\<lparr>m_sendEvent := ev,
      m_transmitList := mq b @ [((if expects_response p then pushSenderState p (RequestState (pk_src p)) else p), when)]\<rparr>\<rparr>"
    "event_ok (mq b) (m_sendEvent (masterPort b)) when ev" "\<not> reqQueueFull b"
    "expects_response p \<longrightarrow> pk_src p \<noteq> InvalidPortID"
proof -
  have "b' = b\<lparr>masterPort := (masterPort b)\<lparr>m_sendEvent := m_sendEvent (masterPort b'),
      m_transmitList := mq b @ [((if expects_response p then pushSenderState p (RequestState (pk_src p)) else p), when)]\<rparr>\<rparr>"
    using assms by (auto simp: schedTimingReq_def Let_def getSrc_def split: if_splits)
  moreover have "event_ok (mq b) (m_sendEvent (masterPort b)) when (m_sendEvent (masterPort b'))"
    using assms by (auto simp: schedTimingReq_def Let_def event_ok_def getSrc_def split: if_splits)
  moreover have "\<not> reqQueueFull b" "expects_response p \<longrightarrow> pk_src p \<noteq> InvalidPortID"
    using assms by (auto simp: schedTimingReq_def Let_def reqQueueFull_def getSrc_def split: if_splits)
  ultimately show thesis by (rule that)
qed

lemma schedTimingResp_frame:
  assumes "schedTimingResp now p when b = Inr b'"
  obtains src ss ev where "senderState p = RequestState src # ss" "src \<noteq> InvalidPortID"
    "b' = b\<lparr>slavePort := (slavePort b)\<lparr>s_sendEvent := ev,
      s_transmitList := sq b @ [(p\<lparr>senderState := ss, pk_dest := src\<rparr>, when)]\<rparr>\<rparr>"
    "event_ok (sq b) (s_sendEvent (slavePort b)) when ev"
proof -
  from assms obtain src ss where s: "senderState p = RequestState src # ss"
    by (auto simp: schedTimingResp_def popSenderState_def split: list.splits sender_state.splits)
  have "b' = b\<lparr>slavePort := (slavePort b)\<lparr>s_sendEvent := s_sendEvent (slavePort b'),
      s_transmitList := sq b @ [(p\<lparr>senderState := ss, pk_dest := src\<rparr>, when)]\<rparr>\<rparr>"
    using assms s by (auto simp: schedTimingResp_def Let_def popSenderState_def split: if_splits)
  moreover have "event_ok (sq b) (s_sendEvent (slavePort b)) when (s_sendEvent (slavePort b'))" "src \<noteq> InvalidPortID"
    using assms s by (auto simp: schedTimingResp_def Let_def popSenderState_def event_ok_def split: if_splits)
  ultimately show thesis using s by (intro that)
qed

lemma br_recvTimingReq_refuse:
  assumes "br_recvTimingReq now p b = Inr (False, b')"
  shows "b' = b\<lparr>slavePort := (slavePort b)\<lparr>s_retryReq := True\<rparr>\<rparr>" "reqQueueFull b \<or> respQueueFull b"
  using assms by (auto simp: br_recvTimingReq_def Let_def split: if_splits)

lemma br_recvTimingReq_accept:
  assumes "br_recvTimingReq now p b = Inr (True, b')"
  obtains c t prev ev where "b' = b\<lparr>br_clock := c,
      slavePort := (slavePort b)\<lparr>outstandingResponses := outstandingResponses (slavePort b) + of_bool (expects_response p), s_prev_serial_tick := prev\<rparr>,
      masterPort := (masterPort b)\<lparr>m_sendEvent := ev, m_transmitList := mq b @ [(forwarded p, t)]\<rparr>\<rparr>"
    "\<not> s_retryReq (slavePort b)" "\<not> reqQueueFull b" "expects_response p \<longrightarrow> \<not> respQueueFull b \<and> pk_src p \<noteq> InvalidPortID"
    "link_ok (s_serialization_enable (slavePort b)) (s_prev_serial_tick (slavePort b)) t prev"
    "event_ok (mq b) (m_sendEvent (masterPort b)) t ev"
proof -
  let ?s1 = "(slavePort b)\<lparr>outstandingResponses := outstandingResponses (slavePort b) + of_bool (expects_response p)\<rparr>"
  let ?p1 = "p\<lparr>firstWordDelay := 0, lastWordDelay := 0\<rparr>"
  have s1: "(if expects_response p then (slavePort b)\<lparr>outstandingResponses := outstandingResponses (slavePort b) + 1\<rparr> else slavePort b) = ?s1"
    by simp
  from assms obtain t prev b1 where
    g: "\<not> s_retryReq (slavePort b)" "\<not> reqQueueFull b" "expects_response p \<longrightarrow> \<not> respQueueFull b"
    and l: "link_tick now (s_serialization_enable (slavePort b)) (s_serialization_unit (slavePort b)) (s_delay (slavePort b))
      (s_prev_serial_tick (slavePort b)) ?p1 (b\<lparr>slavePort := ?s1\<rparr>) = Inr (t, prev, b1)"
    and r: "schedTimingReq now ?p1 t (b1\<lparr>slavePort := (slavePort b1)\<lparr>s_prev_serial_tick := prev\<rparr>\<rparr>) = Inr b'"
    unfolding br_recvTimingReq_def Let_def s1 by (auto split: if_splits)
  obtain c where c: "b1 = b\<lparr>slavePort := ?s1, br_clock := c\<rparr>"
    and lo: "link_ok (s_serialization_enable (slavePort b)) (s_prev_serial_tick (slavePort b)) t prev"
    using l by (rule link_tick_frame) simp
  show thesis
    apply (rule schedTimingReq_frame [OF r])
    subgoal for ev
      by (rule that [where c = c and t = t and prev = prev and ev = ev]) (use g lo in \<open>simp_all add: c forwarded_def Let_def split del: if_split\<close>)
    done
qed

lemma br_recvTimingResp_frame:
  assumes "br_recvTimingResp now p b = Inr b'"
  obtains c t prev ev where "b' = b\<lparr>br_clock := c,
      slavePort := (slavePort b)\<lparr>s_sendEvent := ev, s_transmitList := sq b @ [(returned p, t)]\<rparr>,
      masterPort := (masterPort b)\<lparr>m_prev_serial_tick := prev\<rparr>\<rparr>"
    "link_ok (m_serialization_enable (masterPort b)) (m_prev_serial_tick (masterPort b)) t prev"
    "event_ok (sq b) (s_sendEvent (slavePort b)) t ev"
proof -
  let ?p1 = "p\<lparr>firstWordDelay := 0, lastWordDelay := 0\<rparr>"
  from assms obtain t prev b1 where
    l: "link_tick now (m_serialization_enable (masterPort b)) (m_serialization_unit (masterPort b)) (m_delay (masterPort b))
      (m_prev_serial_tick (masterPort b)) ?p1 b = Inr (t, prev, b1)"
    and r: "schedTimingResp now ?p1 t (b1\<lparr>masterPort := (masterPort b1)\<lparr>m_prev_serial_tick := prev\<rparr>\<rparr>) = Inr b'"
    unfolding br_recvTimingResp_def Let_def by auto
  obtain c where c: "b1 = b\<lparr>br_clock := c\<rparr>"
    and lo: "link_ok (m_serialization_enable (masterPort b)) (m_prev_serial_tick (masterPort b)) t prev"
    using l by (rule link_tick_frame)
  show thesis
    apply (rule schedTimingResp_frame [OF r])
    subgoal for src ss ev
      by (rule that [where c = c and t = t and prev = prev and ev = ev]) (use lo in \<open>simp_all add: c returned_def\<close>)
    done
qed


text \<open>After a packet has been sent the event for the next one is scheduled, if there is one.\<close>

definition next_event :: "deferred_packet list \<Rightarrow> Tick option \<Rightarrow> Tick option \<Rightarrow> bool" where
  "next_event rest ev ev' \<longleftrightarrow> (if rest = [] then ev' = ev else ev = None \<and> (\<exists>t \<ge> snd (hd rest). ev' = Some t))"

lemma m_trySend_refused:
  assumes "m_trySendTiming now False b = Inr (p, r, b')"
  shows "b' = b" "\<not> r" "mq b \<noteq> []" "p = fst (hd (mq b))"
  using assms by (auto simp: m_trySendTiming_def split: list.splits)

lemma s_trySend_refused:
  assumes "s_trySendTiming now False b = Inr (p, r, b')"
  shows "b' = b" "\<not> r" "sq b \<noteq> []" "p = fst (hd (sq b))"
  using assms by (auto simp: s_trySendTiming_def split: list.splits)

lemma m_trySend_sent:
  assumes "m_trySendTiming now True b = Inr (p, r, b')"
  obtains t rest c ev where "mq b = (p, t) # rest" "t \<le> now"
    "b' = b\<lparr>br_clock := c, slavePort := (slavePort b)\<lparr>s_retryReq := False\<rparr>,
      masterPort := (masterPort b)\<lparr>m_transmitList := rest, m_sendEvent := ev\<rparr>\<rparr>"
    "r = s_retryReq (slavePort b)" "next_event rest (m_sendEvent (masterPort b)) ev"
proof -
  from assms obtain t rest where q: "mq b = (p, t) # rest" "t \<le> now"
    by (auto simp: m_trySendTiming_def retryStalledReq_def Let_def split: list.splits if_splits)
  have "b' = b\<lparr>br_clock := br_clock b', slavePort := (slavePort b)\<lparr>s_retryReq := False\<rparr>,
      masterPort := (masterPort b)\<lparr>m_transmitList := rest, m_sendEvent := m_sendEvent (masterPort b')\<rparr>\<rparr>"
    "r = s_retryReq (slavePort b)" "next_event rest (m_sendEvent (masterPort b)) (m_sendEvent (masterPort b'))"
    using assms q
    by (auto simp: m_trySendTiming_def retryStalledReq_def Let_def next_event_def br_clockEdge_def split: list.splits if_splits)
  then show thesis using q by (intro that)
qed

lemma s_trySend_sent:
  assumes "s_trySendTiming now True b = Inr (p, r, b')"
  obtains t rest c ev where "sq b = (p, t) # rest" "t \<le> now" "outstandingResponses (slavePort b) \<noteq> 0"
    "b' = b\<lparr>br_clock := c, slavePort := (slavePort b)\<lparr>s_transmitList := rest, outstandingResponses := outstandingResponses (slavePort b) - 1,
      s_sendEvent := ev, s_retryReq := s_retryReq (slavePort b) \<and> reqQueueFull b\<rparr>\<rparr>"
    "r \<longleftrightarrow> s_retryReq (slavePort b) \<and> \<not> reqQueueFull b" "next_event rest (s_sendEvent (slavePort b)) ev"
proof -
  from assms obtain t rest where q: "sq b = (p, t) # rest" "t \<le> now" "outstandingResponses (slavePort b) \<noteq> 0"
    by (auto simp: s_trySendTiming_def Let_def split: list.splits if_splits)
  have "b' = b\<lparr>br_clock := br_clock b', slavePort := (slavePort b)\<lparr>s_transmitList := rest, outstandingResponses := outstandingResponses (slavePort b) - 1,
      s_sendEvent := s_sendEvent (slavePort b'), s_retryReq := s_retryReq (slavePort b) \<and> reqQueueFull b\<rparr>\<rparr>"
    "r \<longleftrightarrow> s_retryReq (slavePort b) \<and> \<not> reqQueueFull b" "next_event rest (s_sendEvent (slavePort b)) (s_sendEvent (slavePort b'))"
    using assms q
    by (auto simp: s_trySendTiming_def Let_def next_event_def br_clockEdge_def reqQueueFull_def split: list.splits if_splits)
  then show thesis using q by (intro that)
qed

section \<open>The bridge as a state machine\<close>

text \<open>
  A state is the bridge together with the requests that it has passed on and that are not answered yet. A
  label records what the rest of the simulator sees; the flags say whether the step also sends a retry to the
  requester. The peers follow the protocol of the ports: an answer carries the sender state of its request,
  and a retry comes only from a peer that has refused the last packet offered to it. Which peer that is follows from the
  history alone: \<open>br_owed\<close> says whether the peer of the master port and that of the slave port owe the bridge a retry. Ticks do not
  run out, which \<open>prev_serial_tick\<close> could not survive. Functional accesses, which may rewrite the
  payload of a waiting packet, are left out.
\<close>

datatype br_label =
    ReqAccepted packet | ReqRefused | ReqSent packet bool | ReqHeld
  | RespAccepted packet | RespSent packet bool | RespHeld

fun br_owed_step :: "br_label \<Rightarrow> bool \<times> bool \<Rightarrow> bool \<times> bool" where
  "br_owed_step (ReqSent p r) (m, s) = (False, s)"
| "br_owed_step ReqHeld (m, s) = (True, s)"
| "br_owed_step (RespSent p r) (m, s) = (m, False)"
| "br_owed_step RespHeld (m, s) = (m, True)"
| "br_owed_step l ow = ow"

definition br_owed :: "br_label list \<Rightarrow> bool \<times> bool" where
  "br_owed ls = fold br_owed_step ls (False, False)"

lemma br_owed_simps [simp]: "br_owed [] = (False, False)" "br_owed (ls @ [l]) = br_owed_step l (br_owed ls)"
  by (simp_all add: br_owed_def)

definition passed_on :: "bool \<Rightarrow> packet \<Rightarrow> packet list \<Rightarrow> packet list" where
  "passed_on ok p fl = (if ok \<and> expects_response p then fl @ [p] else fl)"

inductive br_step :: "bool \<times> bool \<Rightarrow> bridge \<times> packet list \<Rightarrow> br_label \<Rightarrow> bridge \<times> packet list \<Rightarrow> bool" for ow where
  Accept: "br_recvTimingReq now p b = Inr (True, b') \<Longrightarrow> s_prev_serial_tick (slavePort b) \<noteq> - 1 \<Longrightarrow>
     br_step ow (b, fl) (ReqAccepted p) (b', fl)"
| Refuse: "br_recvTimingReq now p b = Inr (False, b') \<Longrightarrow> br_step ow (b, fl) ReqRefused (b', fl)"
| SendReq: "m_sendEvent (masterPort b) = Some t \<Longrightarrow>
     m_trySendTiming t ok (b\<lparr>masterPort := (masterPort b)\<lparr>m_sendEvent := None\<rparr>\<rparr>) = Inr (p, r, b') \<Longrightarrow>
     br_step ow (b, fl) (if ok then ReqSent p r else ReqHeld) (b', passed_on ok p fl)"
| RetryReq: "fst ow \<Longrightarrow> m_recvRetry now ok b = Inr (p, r, b') \<Longrightarrow>
     br_step ow (b, fl) (if ok then ReqSent p r else ReqHeld) (b', passed_on ok p fl)"
| Response: "q \<in> set fl \<Longrightarrow> senderState p = senderState q \<Longrightarrow> m_prev_serial_tick (masterPort b) \<noteq> - 1 \<Longrightarrow>
     br_recvTimingResp now p b = Inr b' \<Longrightarrow> br_step ow (b, fl) (RespAccepted p) (b', remove1 q fl)"
| SendResp: "s_sendEvent (slavePort b) = Some t \<Longrightarrow>
     s_trySendTiming t ok (b\<lparr>slavePort := (slavePort b)\<lparr>s_sendEvent := None\<rparr>\<rparr>) = Inr (p, r, b') \<Longrightarrow>
     br_step ow (b, fl) (if ok then RespSent p r else RespHeld) (b', fl)"
| RetryResp: "snd ow \<Longrightarrow> s_recvRetry now ok b = Inr (p, r, b') \<Longrightarrow>
     br_step ow (b, fl) (if ok then RespSent p r else RespHeld) (b', fl)"

inductive br_run :: "bridge \<Rightarrow> br_label list \<Rightarrow> bridge \<times> packet list \<Rightarrow> bool" where
  run_nil: "br_run b [] (b, [])"
| run_snoc: "br_run b ls x \<Longrightarrow> br_step (br_owed ls) x l y \<Longrightarrow> br_run b (ls @ [l]) y"

text \<open>
  The invariant: every reserved place is accounted for by a request that waits, one that is being served or a
  response that waits; the queues stay within their limits; a requester that was refused is still owed a
  retry by a full queue; an event is scheduled only for a packet that waits, and not before it is due; and on
  a serial link the packets are due in the order of their arrival.
\<close>

definition reserved :: "bridge \<times> packet list \<Rightarrow> nat" where
  "reserved x = length (filter (\<lambda>(p, t). expects_response p) (mq (fst x))) + length (snd x) + length (sq (fst x))"

definition in_link_order :: "u32 \<Rightarrow> Tick \<Rightarrow> deferred_packet list \<Rightarrow> bool" where
  "in_link_order enable prev q \<longleftrightarrow> (enable \<noteq> 0 \<longrightarrow> sorted_wrt (<) (map snd q) \<and> (\<forall>(p, t) \<in> set q. t \<le> prev))"

definition event_fits :: "Tick option \<Rightarrow> deferred_packet list \<Rightarrow> bool" where
  "event_fits ev q \<longleftrightarrow> (\<forall>t. ev = Some t \<longrightarrow> q \<noteq> [] \<and> snd (hd q) \<le> t)"

definition br_inv :: "bridge \<times> packet list \<Rightarrow> bool" where
  "br_inv x \<longleftrightarrow> (let b = fst x; s = slavePort b; m = masterPort b in
     unat (outstandingResponses s) = reserved x \<and> outstandingResponses s \<le> respQueueLimit s \<and>
     length (mq b) \<le> unat (reqQueueLimit m) \<and>
     (s_retryReq s \<longrightarrow> reqQueueFull b \<or> respQueueFull b) \<and>
     event_fits (m_sendEvent m) (mq b) \<and> event_fits (s_sendEvent s) (sq b) \<and>
     in_link_order (s_serialization_enable s) (s_prev_serial_tick s) (mq b) \<and>
     in_link_order (m_serialization_enable m) (m_prev_serial_tick m) (sq b))"

lemma in_link_order_push:
  assumes "in_link_order en prev q" "link_ok en prev t prev'" "prev \<noteq> - 1"
  shows "in_link_order en prev' (q @ [(p, t)])"
  using assms by (fastforce simp: in_link_order_def link_ok_def sorted_wrt_append)

lemma in_link_order_pop: "in_link_order en prev (x # q) \<Longrightarrow> in_link_order en prev q"
  by (auto simp: in_link_order_def)

lemma event_fits_push: "event_ok q ev t ev' \<Longrightarrow> event_fits ev q \<Longrightarrow> event_fits ev' (q @ [(p, t)])"
  by (auto simp: event_fits_def event_ok_def split: if_splits)

lemma event_fits_next: "next_event rest None ev \<Longrightarrow> event_fits ev rest"
  by (auto simp: event_fits_def next_event_def split: if_splits)

lemma event_fits_None [simp]: "event_fits None q"
  by (simp add: event_fits_def)

lemma unat_inc_below: "(w :: u32) < v \<Longrightarrow> unat (w + 1) = unat w + 1"
proof -
  assume "w < v"
  then have "unat w + 1 < 2 ^ 32" using unsigned_less [of v, where 'a = nat] by (simp add: word_less_nat_alt)
  then have "unat (of_nat (unat w + 1) :: u32) = unat w + 1" by (intro unat_of_nat_small) simp
  moreover have "(of_nat (unat w + 1) :: u32) = w + 1" by (simp add: add.commute)
  ultimately show ?thesis by (simp only:)
qed

lemma br_inv_accept:
  assumes "br_inv (b, fl)" "br_recvTimingReq now p b = Inr (True, b')" "s_prev_serial_tick (slavePort b) \<noteq> - 1"
  shows "br_inv (b', fl)"
  using assms(2)
proof (rule br_recvTimingReq_accept)
  fix c t prev ev
  assume b': "b' = b\<lparr>br_clock := c,
      slavePort := (slavePort b)\<lparr>outstandingResponses := outstandingResponses (slavePort b) + of_bool (expects_response p), s_prev_serial_tick := prev\<rparr>,
      masterPort := (masterPort b)\<lparr>m_sendEvent := ev, m_transmitList := mq b @ [(forwarded p, t)]\<rparr>\<rparr>"
    and g: "\<not> s_retryReq (slavePort b)" "\<not> reqQueueFull b" "expects_response p \<longrightarrow> \<not> respQueueFull b \<and> pk_src p \<noteq> InvalidPortID"
    and l: "link_ok (s_serialization_enable (slavePort b)) (s_prev_serial_tick (slavePort b)) t prev"
    and e: "event_ok (mq b) (m_sendEvent (masterPort b)) t ev"
  have out: "expects_response p \<Longrightarrow> outstandingResponses (slavePort b) < respQueueLimit (slavePort b)"
    using assms(1) g(3) by (auto simp: br_inv_def Let_def respQueueFull_def)
  have inc: "unat (outstandingResponses (slavePort b) + of_bool (expects_response p)) =
      unat (outstandingResponses (slavePort b)) + of_bool (expects_response p)"
    using out unat_inc_below by (cases "expects_response p") auto
  have le: "outstandingResponses (slavePort b) + of_bool (expects_response p) \<le> respQueueLimit (slavePort b)"
    using out inc assms(1) by (cases "expects_response p") (auto simp: br_inv_def Let_def inc_le)
  show ?thesis
    using assms(1) b' g inc le in_link_order_push [OF _ l assms(3), of "mq b" "forwarded p"]
      event_fits_push [OF e, of "forwarded p"]
    by (auto simp: br_inv_def Let_def reserved_def reqQueueFull_def)
qed


lemma br_inv_refuse:
  assumes "br_inv (b, fl)" "br_recvTimingReq now p b = Inr (False, b')"
  shows "br_inv (b', fl)"
  using assms(1) br_recvTimingReq_refuse [OF assms(2)]
  by (auto simp: br_inv_def Let_def reserved_def reqQueueFull_def respQueueFull_def)

lemma br_inv_sendReq:
  assumes "br_inv (b, fl)" "m_trySendTiming now ok (b\<lparr>masterPort := (masterPort b)\<lparr>m_sendEvent := None\<rparr>\<rparr>) = Inr (p, r, b')"
  shows "br_inv (b', passed_on ok p fl)"
proof (cases ok)
  case False
  then have "m_trySendTiming now False (b\<lparr>masterPort := (masterPort b)\<lparr>m_sendEvent := None\<rparr>\<rparr>) = Inr (p, r, b')"
    using assms(2) by simp
  from m_trySend_refused [OF this] show ?thesis using assms(1) False
    by (auto simp: br_inv_def Let_def reserved_def passed_on_def reqQueueFull_def respQueueFull_def)
next
  case True
  then have "m_trySendTiming now True (b\<lparr>masterPort := (masterPort b)\<lparr>m_sendEvent := None\<rparr>\<rparr>) = Inr (p, r, b')"
    using assms(2) by simp
  then show ?thesis
  proof (rule m_trySend_sent)
    fix t rest c ev
    assume q: "mq (b\<lparr>masterPort := (masterPort b)\<lparr>m_sendEvent := None\<rparr>\<rparr>) = (p, t) # rest"
      and b': "b' = b\<lparr>masterPort := (masterPort b)\<lparr>m_sendEvent := None\<rparr>, br_clock := c,
        slavePort := (slavePort (b\<lparr>masterPort := (masterPort b)\<lparr>m_sendEvent := None\<rparr>\<rparr>))\<lparr>s_retryReq := False\<rparr>,
        masterPort := (masterPort (b\<lparr>masterPort := (masterPort b)\<lparr>m_sendEvent := None\<rparr>\<rparr>))\<lparr>m_transmitList := rest, m_sendEvent := ev\<rparr>\<rparr>"
      and n: "next_event rest (m_sendEvent (masterPort (b\<lparr>masterPort := (masterPort b)\<lparr>m_sendEvent := None\<rparr>\<rparr>))) ev"
    then have "event_fits ev rest" using event_fits_next by simp
    then show ?thesis using assms(1) True q b' in_link_order_pop
      by (auto simp: br_inv_def Let_def reserved_def passed_on_def)
  qed
qed

lemma br_inv_response:
  assumes "br_inv (b, fl)" "q \<in> set fl" "br_recvTimingResp now p b = Inr b'" "m_prev_serial_tick (masterPort b) \<noteq> - 1"
  shows "br_inv (b', remove1 q fl)"
  using assms(3)
proof (rule br_recvTimingResp_frame)
  fix c t prev ev
  assume b': "b' = b\<lparr>br_clock := c,
      slavePort := (slavePort b)\<lparr>s_sendEvent := ev, s_transmitList := sq b @ [(returned p, t)]\<rparr>,
      masterPort := (masterPort b)\<lparr>m_prev_serial_tick := prev\<rparr>\<rparr>"
    and l: "link_ok (m_serialization_enable (masterPort b)) (m_prev_serial_tick (masterPort b)) t prev"
    and e: "event_ok (sq b) (s_sendEvent (slavePort b)) t ev"
  have "length fl = Suc (length (remove1 q fl))" using assms(2) length_pos_if_in_set [OF assms(2)] by (simp add: length_remove1)
  then show ?thesis
    using assms(1) b' in_link_order_push [OF _ l assms(4), of "sq b" "returned p"]
      event_fits_push [OF e, of "returned p"]
    by (auto simp: br_inv_def Let_def reserved_def reqQueueFull_def respQueueFull_def)
qed

lemma br_inv_sendResp:
  assumes "br_inv (b, fl)" "s_trySendTiming now ok (b\<lparr>slavePort := (slavePort b)\<lparr>s_sendEvent := None\<rparr>\<rparr>) = Inr (p, r, b')"
  shows "br_inv (b', fl)"
proof (cases ok)
  case False
  then have "s_trySendTiming now False (b\<lparr>slavePort := (slavePort b)\<lparr>s_sendEvent := None\<rparr>\<rparr>) = Inr (p, r, b')"
    using assms(2) by simp
  from s_trySend_refused [OF this] show ?thesis using assms(1) False
    by (auto simp: br_inv_def Let_def reserved_def reqQueueFull_def respQueueFull_def)
next
  case True
  let ?b = "b\<lparr>slavePort := (slavePort b)\<lparr>s_sendEvent := None\<rparr>\<rparr>"
  from True have "s_trySendTiming now True (b\<lparr>slavePort := (slavePort b)\<lparr>s_sendEvent := None\<rparr>\<rparr>) = Inr (p, r, b')"
    using assms(2) by simp
  then show ?thesis
  proof (rule s_trySend_sent)
    fix t rest c ev
    assume q: "sq ?b = (p, t) # rest" and nz: "outstandingResponses (slavePort ?b) \<noteq> 0"
      and b': "b' = ?b\<lparr>br_clock := c, slavePort := (slavePort ?b)\<lparr>s_transmitList := rest,
        outstandingResponses := outstandingResponses (slavePort ?b) - 1,
        s_sendEvent := ev, s_retryReq := s_retryReq (slavePort ?b) \<and> reqQueueFull ?b\<rparr>\<rparr>"
      and n: "next_event rest (s_sendEvent (slavePort ?b)) ev"
    have one: "unat (outstandingResponses (slavePort b) - 1) = unat (outstandingResponses (slavePort b)) - 1"
      "outstandingResponses (slavePort b) - 1 \<le> outstandingResponses (slavePort b)"
      using nz by (simp_all add: unat_minus_one word_le_nat_alt)
    have "event_fits ev rest" using event_fits_next n by simp
    then show ?thesis using assms(1) q b' one in_link_order_pop
      by (auto simp: br_inv_def Let_def reserved_def reqQueueFull_def intro: order_trans)
  qed
qed


text \<open>
  What will move a queue on: while a packet waits, either its send event is scheduled or the peer owes a retry, and never both;
  when no packet waits, neither.
\<close>

definition moves_on :: "Tick option \<Rightarrow> deferred_packet list \<Rightarrow> bool \<Rightarrow> bool" where
  "moves_on ev q ow \<longleftrightarrow> (if q = [] then ev = None \<and> \<not> ow else (ev \<noteq> None) \<noteq> ow)"

definition br_moves :: "bool \<times> bool \<Rightarrow> bridge \<Rightarrow> bool" where
  "br_moves ow b \<longleftrightarrow> moves_on (m_sendEvent (masterPort b)) (mq b) (fst ow) \<and> moves_on (s_sendEvent (slavePort b)) (sq b) (snd ow)"

lemma moves_on_push: "moves_on ev q ow \<Longrightarrow> event_ok q ev t ev' \<Longrightarrow> moves_on ev' (q @ [x]) ow"
  by (auto simp: moves_on_def event_ok_def split: if_splits)

lemma moves_on_sent: "next_event rest None ev \<Longrightarrow> moves_on ev rest False"
  by (auto simp: moves_on_def next_event_def split: if_splits)

lemma br_moves_sendReq:
  assumes "m_trySendTiming now ok (b\<lparr>masterPort := (masterPort b)\<lparr>m_sendEvent := None\<rparr>\<rparr>) = Inr (p, r, b')" "br_moves ow b"
  shows "br_moves (br_owed_step (if ok then ReqSent p r else ReqHeld) ow) b'"
proof (cases ok)
  case True
  from assms(1) [unfolded True] assms(2) True show ?thesis
    by (cases ow) (auto simp: br_moves_def elim!: m_trySend_sent intro: moves_on_sent)
next
  case False
  then have "m_trySendTiming now False (b\<lparr>masterPort := (masterPort b)\<lparr>m_sendEvent := None\<rparr>\<rparr>) = Inr (p, r, b')"
    using assms(1) by simp
  from m_trySend_refused [OF this] assms(2) False show ?thesis
    by (cases ow) (auto simp: br_moves_def moves_on_def)
qed

lemma br_moves_sendResp:
  assumes "s_trySendTiming now ok (b\<lparr>slavePort := (slavePort b)\<lparr>s_sendEvent := None\<rparr>\<rparr>) = Inr (p, r, b')" "br_moves ow b"
  shows "br_moves (br_owed_step (if ok then RespSent p r else RespHeld) ow) b'"
proof (cases ok)
  case True
  from assms(1) [unfolded True] assms(2) True show ?thesis
    by (cases ow) (auto simp: br_moves_def elim!: s_trySend_sent intro: moves_on_sent)
next
  case False
  then have "s_trySendTiming now False (b\<lparr>slavePort := (slavePort b)\<lparr>s_sendEvent := None\<rparr>\<rparr>) = Inr (p, r, b')"
    using assms(1) by simp
  from s_trySend_refused [OF this] assms(2) False show ?thesis
    by (cases ow) (auto simp: br_moves_def moves_on_def)
qed

text \<open>A retry that is owed finds no event scheduled.\<close>

lemma retry_as_event:
  "br_moves ow b \<Longrightarrow> fst ow \<Longrightarrow> m_recvRetry now ok b = m_trySendTiming now ok (b\<lparr>masterPort := (masterPort b)\<lparr>m_sendEvent := None\<rparr>\<rparr>)"
  "br_moves ow b \<Longrightarrow> snd ow \<Longrightarrow> s_recvRetry now ok b = s_trySendTiming now ok (b\<lparr>slavePort := (slavePort b)\<lparr>s_sendEvent := None\<rparr>\<rparr>)"
proof -
  assume "br_moves ow b" "fst ow"
  then have e: "m_sendEvent (masterPort b) = None" by (auto simp: br_moves_def moves_on_def split: if_splits)
  show "m_recvRetry now ok b = m_trySendTiming now ok (b\<lparr>masterPort := (masterPort b)\<lparr>m_sendEvent := None\<rparr>\<rparr>)"
    by (simp add: m_recvRetry_def flip: e)
next
  assume "br_moves ow b" "snd ow"
  then have e: "s_sendEvent (slavePort b) = None" by (auto simp: br_moves_def moves_on_def split: if_splits)
  show "s_recvRetry now ok b = s_trySendTiming now ok (b\<lparr>slavePort := (slavePort b)\<lparr>s_sendEvent := None\<rparr>\<rparr>)"
    by (simp add: s_recvRetry_def flip: e)
qed

lemma br_step_moves: "br_step ow x l y \<Longrightarrow> br_moves ow (fst x) \<Longrightarrow> br_moves (br_owed_step l ow) (fst y)"
proof (induction rule: br_step.induct)
  case (Accept now p b b' fl)
  from Accept(1) show ?case
    by (rule br_recvTimingReq_accept) (use Accept(3) in \<open>auto simp: br_moves_def intro: moves_on_push\<close>)
next
  case (Refuse now p b b' fl)
  then show ?case using br_recvTimingReq_refuse(1) [OF Refuse(1)] by (simp add: br_moves_def)
next
  case (RetryReq now ok b p r b' fl)
  then show ?case using br_moves_sendReq retry_as_event(1) by auto
next
  case (Response q fl p b now b')
  from Response(4) show ?case
    by (rule br_recvTimingResp_frame) (use Response(5) in \<open>auto simp: br_moves_def intro: moves_on_push\<close>)
next
  case (RetryResp now ok b p r b' fl)
  then show ?case using br_moves_sendResp retry_as_event(2) by auto
qed (auto dest: br_moves_sendReq br_moves_sendResp)

lemma br_step_inv: "br_step ow x l y \<Longrightarrow> br_moves ow (fst x) \<Longrightarrow> br_inv x \<Longrightarrow> br_inv y"
proof (induction rule: br_step.induct)
  case (RetryReq now ok b p r b' fl)
  then show ?case using br_inv_sendReq retry_as_event(1) by auto
next
  case (RetryResp now ok b p r b' fl)
  then show ?case using br_inv_sendResp retry_as_event(2) by auto
qed (auto intro: br_inv_accept br_inv_refuse br_inv_sendReq br_inv_response br_inv_sendResp)

lemma mkBridge_inv: "mkBridge per bp = Inr b \<Longrightarrow> br_inv (b, []) \<and> br_moves (False, False) b"
  by (auto simp: mkBridge_def br_inv_def Let_def reserved_def BridgeSlavePort_def BridgeMasterPort_def in_link_order_def
      br_moves_def moves_on_def)

lemma br_run_inv: "br_run b ls x \<Longrightarrow> br_inv (b, []) \<and> br_moves (False, False) b \<Longrightarrow> br_inv x \<and> br_moves (br_owed ls) (fst x)"
  by (induction rule: br_run.induct) (auto intro: br_step_inv br_step_moves)

section \<open>Flow control\<close>

lemma br_inv_reachable: "mkBridge per bp = Inr b0 \<Longrightarrow> br_run b0 ls x \<Longrightarrow> br_inv x"
  and br_moves_reachable: "mkBridge per bp = Inr b0 \<Longrightarrow> br_run b0 ls x \<Longrightarrow> br_moves (br_owed ls) (fst x)"
  using br_run_inv mkBridge_inv by blast+

text \<open>C22: in every reachable state of a bridge the reserved places are exactly those of the requests that wait, are
  being served or have a response that waits. The queues never exceed their limits, so a response always
  finds its place, and on a serial link packets are due strictly in the order in which they arrived.\<close>

theorem bridge_credits:
  assumes "mkBridge per bp = Inr b0" "br_run b0 ls (b, fl)"
  shows "unat (outstandingResponses (slavePort b)) =
      length (filter (\<lambda>(p, t). expects_response p) (mq b)) + length fl + length (sq b) \<and>
    length fl + length (sq b) \<le> unat (respQueueLimit (slavePort b)) \<and>
    length (mq b) \<le> unat (reqQueueLimit (masterPort b)) \<and>
    (s_serialization_enable (slavePort b) \<noteq> 0 \<longrightarrow> sorted_wrt (<) (map snd (mq b))) \<and>
    (m_serialization_enable (masterPort b) \<noteq> 0 \<longrightarrow> sorted_wrt (<) (map snd (sq b)))"
  using br_inv_reachable [OF assms]
  by (auto simp: br_inv_def Let_def reserved_def in_link_order_def word_le_nat_alt)

lemma bridge_retry_step:
  assumes "br_step ow x l y" "br_inv x" "s_retryReq (slavePort (fst x))"
  shows "s_retryReq (slavePort (fst y)) \<or> (\<exists>p. l = ReqSent p True \<or> l = RespSent p True)"
  using assms
proof (induction rule: br_step.induct)
  case (Accept now p b b' fl)
  then show ?case by (auto elim: br_recvTimingReq_accept)
next
  case (SendReq b t ok p r b' fl)
  then show ?case by (cases ok) (auto elim!: m_trySend_sent dest: m_trySend_refused)
next
  case (RetryReq now ok b p r b' fl)
  then show ?case by (cases ok) (auto simp: m_recvRetry_def elim!: m_trySend_sent dest: m_trySend_refused)
next
  case (Response q fl p b now b')
  then show ?case by (auto elim!: br_recvTimingResp_frame)
next
  case (SendResp b t ok p r b' fl)
  then show ?case by (cases ok) (auto elim!: s_trySend_sent dest: s_trySend_refused)
next
  case (RetryResp now ok b p r b' fl)
  then show ?case by (cases ok) (auto simp: s_recvRetry_def elim!: s_trySend_sent dest: s_trySend_refused)
qed (auto dest: br_recvTimingReq_refuse)

text \<open>Which packets that are sent make the bridge send the retry.\<close>

lemma bridge_retry_sent:
  assumes "br_step ow x l y" "s_retryReq (slavePort (fst x))"
  shows "case l of ReqSent p r \<Rightarrow> r | RespSent p r \<Rightarrow> r \<or> reqQueueFull (fst x) | _ \<Rightarrow> True"
  using assms
proof (induction rule: br_step.induct)
  case (SendReq b t ok p r b' fl)
  then show ?case by (cases ok) (auto elim!: m_trySend_sent)
next
  case (RetryReq now ok b p r b' fl)
  then show ?case by (cases ok) (auto simp: m_recvRetry_def elim!: m_trySend_sent)
next
  case (SendResp b t ok p r b' fl)
  then show ?case by (cases ok) (auto simp: reqQueueFull_def elim!: s_trySend_sent)
next
  case (RetryResp now ok b p r b' fl)
  then show ?case by (cases ok) (auto simp: s_recvRetry_def elim!: s_trySend_sent)
qed simp_all

text \<open>An attempt to send the packet in front goes through once it is due, whatever the peer answers, as long as the next clock edge is
  within the range of ticks.\<close>

definition edge_ahead :: "bridge \<Rightarrow> Tick \<Rightarrow> bool" where
  "edge_ahead b now \<longleftrightarrow> (case clockEdge (br_period b) now 0 (br_clock b) of Inr (e, _) \<Rightarrow> now \<le> e | Inl _ \<Rightarrow> False)"

lemma m_trySend_goes:
  assumes "mq b \<noteq> []" "snd (hd (mq b)) \<le> now" "edge_ahead b now"
  shows "\<exists>p r b'. m_trySendTiming now ok (b\<lparr>masterPort := (masterPort b)\<lparr>m_sendEvent := None\<rparr>\<rparr>) = Inr (p, r, b')"
  using assms by (cases "mq b")
    (auto simp: m_trySendTiming_def edge_ahead_def br_clockEdge_def schedule_event_def assertR_def Let_def
      split: list.splits sum.splits prod.splits intro: max.coboundedI2)

lemma s_trySend_goes:
  assumes "sq b \<noteq> []" "snd (hd (sq b)) \<le> now" "edge_ahead b now" "br_inv (b, fl)"
  shows "\<exists>p r b'. s_trySendTiming now ok (b\<lparr>slavePort := (slavePort b)\<lparr>s_sendEvent := None\<rparr>\<rparr>) = Inr (p, r, b')"
proof -
  have "outstandingResponses (slavePort b) \<noteq> 0" using assms(1,4) by (auto simp: br_inv_def Let_def reserved_def)
  then show ?thesis using assms(1-3) by (cases "sq b")
    (auto simp: s_trySendTiming_def edge_ahead_def br_clockEdge_def schedule_event_def assertR_def Let_def
      split: list.splits sum.splits prod.splits intro: max.coboundedI2)
qed

text \<open>C24: a requester that was refused is never forgotten, in a bridge whose queues have room for a packet at all. Until the bridge sends it a
  retry, one of the two queues that can refuse a request is full and there is a packet to send or an answer to come. No queue is stuck: while a
  packet waits, either its send event is scheduled, not before it is due, or its peer, which refused it, owes a retry; and an attempt to send
  it fails no assertion once it is due, as long as ticks do not run out. The next request that the peer takes makes the bridge send the retry, and so
  does the next response, unless the request queue is full; the retry is given up by no other step.\<close>

theorem bridge_refused_is_retried:
  assumes "mkBridge per bp = Inr b0" "br_run b0 ls (b, fl)" "s_retryReq (slavePort b)"
    "reqQueueLimit (masterPort b) \<noteq> 0" "respQueueLimit (slavePort b) \<noteq> 0"
  shows "(reqQueueFull b \<or> respQueueFull b) \<and> (mq b \<noteq> [] \<or> fl \<noteq> [] \<or> sq b \<noteq> []) \<and>
    (mq b \<noteq> [] \<longrightarrow> (\<exists>t \<ge> snd (hd (mq b)). m_sendEvent (masterPort b) = Some t) \<noteq> fst (br_owed ls)) \<and>
    (sq b \<noteq> [] \<longrightarrow> (\<exists>t \<ge> snd (hd (sq b)). s_sendEvent (slavePort b) = Some t) \<noteq> snd (br_owed ls)) \<and>
    (\<forall>now ok. mq b \<noteq> [] \<longrightarrow> snd (hd (mq b)) \<le> now \<longrightarrow> edge_ahead b now \<longrightarrow>
      (\<exists>p r b'. m_trySendTiming now ok (b\<lparr>masterPort := (masterPort b)\<lparr>m_sendEvent := None\<rparr>\<rparr>) = Inr (p, r, b'))) \<and>
    (\<forall>now ok. sq b \<noteq> [] \<longrightarrow> snd (hd (sq b)) \<le> now \<longrightarrow> edge_ahead b now \<longrightarrow>
      (\<exists>p r b'. s_trySendTiming now ok (b\<lparr>slavePort := (slavePort b)\<lparr>s_sendEvent := None\<rparr>\<rparr>) = Inr (p, r, b'))) \<and>
    (\<forall>l b' fl'. br_step (br_owed ls) (b, fl) l (b', fl') \<longrightarrow>
      (case l of ReqSent p r \<Rightarrow> r | RespSent p r \<Rightarrow> r \<or> reqQueueFull b | _ \<Rightarrow> True) \<and>
      (s_retryReq (slavePort b') \<and> (reqQueueFull b' \<or> respQueueFull b') \<or> (\<exists>p. l = ReqSent p True \<or> l = RespSent p True)))"
proof -
  have i: "br_inv (b, fl)" by (rule br_inv_reachable [OF assms(1,2)])
  have mv: "br_moves (br_owed ls) b" using br_moves_reachable [OF assms(1,2)] by simp
  have full: "reqQueueFull b \<or> respQueueFull b" using i assms(3) by (auto simp: br_inv_def Let_def)
  have "reqQueueFull b \<Longrightarrow> mq b \<noteq> []" using assms(4) by (auto simp: reqQueueFull_def unat_eq_0)
  moreover have "unat (respQueueLimit (slavePort b)) \<noteq> 0" using assms(5) by (simp add: unat_eq_0)
  then have "respQueueFull b \<Longrightarrow> reserved (b, fl) \<noteq> 0"
    using i by (auto simp: br_inv_def Let_def respQueueFull_def)
  ultimately have ne: "mq b \<noteq> [] \<or> fl \<noteq> [] \<or> sq b \<noteq> []" using full by (auto simp: reserved_def)
  have ev: "mq b \<noteq> [] \<longrightarrow> (\<exists>t \<ge> snd (hd (mq b)). m_sendEvent (masterPort b) = Some t) \<noteq> fst (br_owed ls)"
    "sq b \<noteq> [] \<longrightarrow> (\<exists>t \<ge> snd (hd (sq b)). s_sendEvent (slavePort b) = Some t) \<noteq> snd (br_owed ls)"
    using mv i by (auto simp: br_moves_def moves_on_def br_inv_def Let_def event_fits_def)
  have "(case l of ReqSent p r \<Rightarrow> r | RespSent p r \<Rightarrow> r \<or> reqQueueFull b | _ \<Rightarrow> True) \<and>
      (s_retryReq (slavePort b') \<and> (reqQueueFull b' \<or> respQueueFull b') \<or> (\<exists>p. l = ReqSent p True \<or> l = RespSent p True))"
    if st: "br_step (br_owed ls) (b, fl) l (b', fl')" for l b' fl'
    using bridge_retry_sent [OF st] bridge_retry_step [OF st i] br_step_inv [OF st _ i] mv assms(3)
    by (cases l) (auto simp: br_inv_def Let_def)
  then show ?thesis using full ne ev m_trySend_goes s_trySend_goes [OF _ _ _ i] by blast
qed


section \<open>Order and routing\<close>

text \<open>The packets that entered and left the bridge in the course of a run.\<close>

fun reqs_in :: "br_label list \<Rightarrow> packet list" where
  "reqs_in [] = []"
| "reqs_in (ReqAccepted p # ls) = p # reqs_in ls"
| "reqs_in (_ # ls) = reqs_in ls"

fun reqs_out :: "br_label list \<Rightarrow> packet list" where
  "reqs_out [] = []"
| "reqs_out (ReqSent p r # ls) = p # reqs_out ls"
| "reqs_out (_ # ls) = reqs_out ls"

fun resps_in :: "br_label list \<Rightarrow> packet list" where
  "resps_in [] = []"
| "resps_in (RespAccepted p # ls) = p # resps_in ls"
| "resps_in (_ # ls) = resps_in ls"

fun resps_out :: "br_label list \<Rightarrow> packet list" where
  "resps_out [] = []"
| "resps_out (RespSent p r # ls) = p # resps_out ls"
| "resps_out (_ # ls) = resps_out ls"

lemma reqs_in_append [simp]: "reqs_in (a @ b) = reqs_in a @ reqs_in b"
  by (induction a rule: reqs_in.induct) simp_all

lemma reqs_out_append [simp]: "reqs_out (a @ b) = reqs_out a @ reqs_out b"
  by (induction a rule: reqs_out.induct) simp_all

lemma resps_in_append [simp]: "resps_in (a @ b) = resps_in a @ resps_in b"
  by (induction a rule: resps_in.induct) simp_all

lemma resps_out_append [simp]: "resps_out (a @ b) = resps_out a @ resps_out b"
  by (induction a rule: resps_out.induct) simp_all

definition queues_move :: "bridge \<Rightarrow> br_label \<Rightarrow> bridge \<Rightarrow> bool" where
  "queues_move b l b' \<longleftrightarrow> reqs_out [l] @ map fst (mq b') = map fst (mq b) @ map forwarded (reqs_in [l]) \<and>
     resps_out [l] @ map fst (sq b') = map fst (sq b) @ map returned (resps_in [l])"

lemma m_trySend_queue:
  assumes "m_trySendTiming now ok b = Inr (p, r, b')"
  shows "queues_move b (if ok then ReqSent p r else ReqHeld) b'"
  using assms by (cases ok) (auto simp: queues_move_def elim!: m_trySend_sent dest: m_trySend_refused)

lemma s_trySend_queue:
  assumes "s_trySendTiming now ok b = Inr (p, r, b')"
  shows "queues_move b (if ok then RespSent p r else RespHeld) b'"
  using assms by (cases ok) (auto simp: queues_move_def elim!: s_trySend_sent dest: s_trySend_refused)

lemma br_step_queues: "br_step ow x l y \<Longrightarrow> queues_move (fst x) l (fst y)"
proof (induction rule: br_step.induct)
  case (SendReq b t ok p r b' fl)
  from m_trySend_queue [OF SendReq(2)] show ?case by (simp add: queues_move_def)
next
  case (SendResp b t ok p r b' fl)
  from s_trySend_queue [OF SendResp(2)] show ?case by (simp add: queues_move_def)
next
  case (RetryReq now ok b p r b' fl)
  then show ?case by (simp add: m_recvRetry_def m_trySend_queue)
next
  case (RetryResp now ok b p r b' fl)
  then show ?case by (simp add: s_recvRetry_def s_trySend_queue)
qed (auto simp: queues_move_def elim!: br_recvTimingReq_accept br_recvTimingResp_frame dest: br_recvTimingReq_refuse)

lemma br_run_queues:
  "br_run b0 ls x \<Longrightarrow> mq b0 = [] \<Longrightarrow> sq b0 = [] \<Longrightarrow>
     map forwarded (reqs_in ls) = reqs_out ls @ map fst (mq (fst x)) \<and> map returned (resps_in ls) = resps_out ls @ map fst (sq (fst x))"
proof (induction rule: br_run.induct)
  case (run_snoc b ls x l y)
  then show ?case using br_step_queues [OF run_snoc(2)]
    by (auto simp: queues_move_def simp flip: append_assoc) (metis append_assoc)+
qed simp

lemma mkBridge_empty: "mkBridge per bp = Inr b \<Longrightarrow> mq b = [] \<and> sq b = []"
  by (auto simp: mkBridge_def BridgeSlavePort_def BridgeMasterPort_def)

text \<open>The requests that are being served were accepted before.\<close>

lemma br_step_inflight:
  assumes "br_step ow x l y" "q \<in> set (snd y)"
  shows "q \<in> set (snd x) \<or> q \<in> set (reqs_out [l]) \<and> expects_response q"
  using assms by (induction rule: br_step.induct) (auto simp: passed_on_def split: if_splits dest: set_remove1_subset [THEN subsetD])

lemma br_run_inflight:
  "br_run b0 ls x \<Longrightarrow> q \<in> set (snd x) \<Longrightarrow> q \<in> set (reqs_out ls) \<and> expects_response q"
  by (induction arbitrary: q rule: br_run.induct) (auto dest: br_step_inflight)

lemma br_step_response: "br_step ow x l y \<Longrightarrow> r \<in> set (resps_in [l]) \<Longrightarrow> \<exists>q \<in> set (snd x). senderState r = senderState q"
  by (induction rule: br_step.induct) (auto split: if_splits)

lemma returned_forwarded:
  assumes "expects_response p" "senderState r = senderState (forwarded p)"
  shows "pk_dest (returned r) = pk_src p \<and> senderState (returned r) = senderState p"
  using assms by (simp add: returned_def forwarded_def Let_def pushSenderState_def)

lemma br_run_answers:
  "br_run b0 ls x \<Longrightarrow> mq b0 = [] \<Longrightarrow> sq b0 = [] \<Longrightarrow> r \<in> set (resps_in ls) \<Longrightarrow>
     \<exists>p \<in> set (reqs_in ls). expects_response p \<and> senderState r = senderState (forwarded p)"
proof (induction rule: br_run.induct)
  case (run_snoc b ls x l y)
  show ?case
  proof (cases "r \<in> set (resps_in ls)")
    case False
    then obtain q where q: "q \<in> set (snd x)" "senderState r = senderState q"
      using run_snoc br_step_response [OF run_snoc(2)] by auto
    have "q \<in> set (reqs_out ls)" "expects_response q" using br_run_inflight [OF run_snoc(1) q(1)] by auto
    moreover have "set (reqs_out ls) \<subseteq> forwarded ` set (reqs_in ls)"
      using br_run_queues [OF run_snoc(1)] run_snoc.prems
      by (metis (no_types, lifting) Un_upper1 list.set_map set_append)
    ultimately obtain p where "p \<in> set (reqs_in ls)" "q = forwarded p" "expects_response p" by auto
    then show ?thesis using q(2) by auto
  qed (use run_snoc in auto)
qed simp

text \<open>C23: the bridge is two queues. Requests leave in the order in which they were accepted, marked with the port
  they came from, and none is lost; so do the responses. Every response that leaves is addressed to the port
  of a request that was accepted and expects an answer, and carries the sender state that request had.\<close>

theorem bridge_in_order:
  assumes "mkBridge per bp = Inr b0" "br_run b0 ls (b, fl)"
  shows "map forwarded (reqs_in ls) = reqs_out ls @ map fst (mq b) \<and>
    map returned (resps_in ls) = resps_out ls @ map fst (sq b) \<and>
    (\<forall>r \<in> set (resps_out ls). \<exists>p \<in> set (reqs_in ls). expects_response p \<and> pk_dest r = pk_src p \<and> senderState r = senderState p)"
proof -
  have e: "mq b0 = []" "sq b0 = []" using mkBridge_empty [OF assms(1)] by auto
  have q: "map forwarded (reqs_in ls) = reqs_out ls @ map fst (mq b)" "map returned (resps_in ls) = resps_out ls @ map fst (sq b)"
    using br_run_queues [OF assms(2) e] by auto
  have "\<exists>p \<in> set (reqs_in ls). expects_response p \<and> pk_dest r = pk_src p \<and> senderState r = senderState p"
    if "r \<in> set (resps_out ls)" for r
  proof -
    have "r \<in> returned ` set (resps_in ls)" using that q(2) by (metis Un_iff list.set_map set_append)
    then show ?thesis using br_run_answers [OF assms(2) e] returned_forwarded by fastforce
  qed
  then show ?thesis using q by blast
qed


section \<open>Examples\<close>

definition ex_req :: packet where
  "ex_req = (plain_packet ReadReq 0x100 (replicate 8 0))\<lparr>pk_src := 3\<rparr>"

definition ex_bp :: bridge_params where
  "ex_bp = \<lparr>bp_delay = 1000, bp_resp_size = 1, bp_req_size = 1, bp_ranges = [], bp_serialization_enable = 1, bp_serialization_unit = 16\<rparr>"

definition ex_br :: bridge where
  "ex_br = \<lparr>br_period = 1000, br_clock = ClockedObject, slavePort = BridgeSlavePort 1 1 [] 1 16, masterPort = BridgeMasterPort 1 1 1 16\<rparr>"

lemma ex_br_mk: "mkBridge 1000 ex_bp = Inr ex_br"
  by (simp add: mkBridge_def ex_bp_def ex_br_def ticksToCycles_def divCeil_def)

lemma ex_req_sel [simp]:
  "expects_response ex_req" "getSize (ex_req\<lparr>firstWordDelay := x, lastWordDelay := y\<rparr>) = Inr 8" "pk_src ex_req = 3"
  "senderState ex_req = []"
  by (simp_all add: ex_req_def expects_response_def getSize_def plain_packet_def Packet_blank_def fl_defs pkt_flag_defs
      pkt_test_defs cmd_defs memInhibitAsserted_def)

definition ex_br1 :: bridge where
  "ex_br1 = ex_br\<lparr>br_clock := \<lparr>co_tick = 1000, co_cycle = 1\<rparr>,
     slavePort := (slavePort ex_br)\<lparr>outstandingResponses := 1, s_prev_serial_tick := 6000\<rparr>,
     masterPort := (masterPort ex_br)\<lparr>m_sendEvent := Some 6000, m_transmitList := [(forwarded ex_req, 6000)]\<rparr>\<rparr>"

lemmas ex_br_defs = ex_br_def BridgeSlavePort_def BridgeMasterPort_def ClockedObject_def
lemmas br_eval = reqQueueFull_def respQueueFull_def link_tick_def br_clockEdge_def clockEdge_def co_update_def Let_def
  getSrc_def schedule_event_def InvalidPortID_def

lemma ex_accept: "br_recvTimingReq 500 ex_req ex_br = Inr (True, ex_br1)"
  by (simp add: br_recvTimingReq_def schedTimingReq_def ex_br1_def ex_br_defs br_eval forwarded_def)

lemma ex_refuse: "br_recvTimingReq 600 ex_req ex_br1 = Inr (False, ex_br1\<lparr>slavePort := (slavePort ex_br1)\<lparr>s_retryReq := True\<rparr>\<rparr>)"
  by (simp add: br_recvTimingReq_def ex_br1_def ex_br_defs br_eval)

lemma ex_run1: "br_run ex_br [ReqAccepted ex_req] (ex_br1, [])"
proof -
  have "br_step (False, False) (ex_br, []) (ReqAccepted ex_req) (ex_br1, [])"
    by (rule br_step.Accept [OF ex_accept]) (simp add: ex_br_defs)
  then show ?thesis using run_snoc [OF run_nil, of ex_br] by simp
qed

theorem bridge_credits_witness:
  "br_run ex_br [ReqAccepted ex_req] (ex_br1, []) \<and> s_serialization_enable (slavePort ex_br1) \<noteq> 0 \<and>
   sorted_wrt (<) (map snd (mq ex_br1)) \<and> unat (outstandingResponses (slavePort ex_br1)) = 1"
  using bridge_credits [OF ex_br_mk ex_run1] ex_run1 by (simp add: ex_br1_def ex_br_defs)

definition ex_br2 :: bridge where
  "ex_br2 = ex_br1\<lparr>slavePort := (slavePort ex_br1)\<lparr>s_retryReq := True\<rparr>\<rparr>"

definition ex_br3 :: bridge where
  "ex_br3 = ex_br1\<lparr>masterPort := (masterPort ex_br1)\<lparr>m_sendEvent := None, m_transmitList := []\<rparr>\<rparr>"

lemma ex_send: "br_step ow (ex_br2, []) (ReqSent (forwarded ex_req) True) (ex_br3, [forwarded ex_req])"
proof -
  have "m_sendEvent (masterPort ex_br2) = Some 6000" by (simp add: ex_br2_def ex_br1_def)
  moreover have "m_trySendTiming 6000 True (ex_br2\<lparr>masterPort := (masterPort ex_br2)\<lparr>m_sendEvent := None\<rparr>\<rparr>) =
      Inr (forwarded ex_req, True, ex_br3)"
    by (simp add: m_trySendTiming_def retryStalledReq_def ex_br3_def ex_br2_def ex_br1_def ex_br_defs Let_def)
  ultimately show ?thesis using br_step.SendReq [of ex_br2 6000 True "forwarded ex_req" True ex_br3 ow "[]"]
    by (simp add: passed_on_def)
qed

lemma ex_run2: "br_run ex_br ([ReqAccepted ex_req] @ [ReqRefused]) (ex_br2, [])"
  by (rule run_snoc [OF ex_run1]) (simp add: ex_br2_def br_step.Refuse [OF ex_refuse])

theorem bridge_refused_is_retried_witness:
  "s_retryReq (slavePort ex_br2) \<and> br_step (False, False) (ex_br2, []) (ReqSent (forwarded ex_req) True) (ex_br3, [forwarded ex_req]) \<and>
   (reqQueueFull ex_br2 \<or> respQueueFull ex_br2) \<and> mq ex_br2 \<noteq> [] \<and> m_sendEvent (masterPort ex_br2) \<noteq> None"
proof -
  have "s_retryReq (slavePort ex_br2)" "reqQueueLimit (masterPort ex_br2) \<noteq> 0" "respQueueLimit (slavePort ex_br2) \<noteq> 0" "sq ex_br2 = []"
    by (simp_all add: ex_br2_def ex_br1_def ex_br_defs)
  moreover have "br_owed ([ReqAccepted ex_req] @ [ReqRefused]) = (False, False)" by (simp add: br_owed_def)
  ultimately show ?thesis using bridge_refused_is_retried [OF ex_br_mk ex_run2] ex_send by (simp, blast)
qed

text \<open>The answer to the request, and the bridge once it is queued.\<close>

definition ex_br_resp :: packet where
  "ex_br_resp = (forwarded ex_req)\<lparr>pk_cmd := ReadResp\<rparr>"

definition ex_br4 :: bridge where
  "ex_br4 = ex_br3\<lparr>br_clock := \<lparr>co_tick = 9000, co_cycle = 9\<rparr>,
     slavePort := (slavePort ex_br3)\<lparr>s_sendEvent := Some 14000, s_transmitList := [(returned ex_br_resp, 14000)]\<rparr>,
     masterPort := (masterPort ex_br3)\<lparr>m_prev_serial_tick := 14000\<rparr>\<rparr>"

lemma ex_response: "br_recvTimingResp 9000 ex_br_resp ex_br3 = Inr ex_br4"
proof -
  have "senderState ex_br_resp = [RequestState 3]"
    by (simp add: ex_br_resp_def forwarded_def Let_def pushSenderState_def)
  moreover have "getSize (ex_br_resp\<lparr>firstWordDelay := 0, lastWordDelay := 0\<rparr>) = Inr 8"
    using ex_req_sel(2) [of 0 0] by (simp add: ex_br_resp_def forwarded_def Let_def pushSenderState_def getSize_def)
  ultimately show ?thesis
    by (simp add: br_recvTimingResp_def schedTimingResp_def popSenderState_def returned_def ex_br4_def ex_br3_def ex_br1_def ex_br_defs
        br_eval divCeil_def)
qed


definition ex_br5 :: bridge where
  "ex_br5 = ex_br4\<lparr>slavePort := (slavePort ex_br4)\<lparr>s_sendEvent := None, s_transmitList := [], outstandingResponses := 0\<rparr>\<rparr>"

lemma ex_run3:
  "br_run ex_br ([ReqAccepted ex_req] @ [ReqRefused] @ [ReqSent (forwarded ex_req) True] @ [RespAccepted ex_br_resp] @
     [RespSent (returned ex_br_resp) False]) (ex_br5, [])"
proof -
  have 1: "br_step ow (ex_br3, [forwarded ex_req]) (RespAccepted ex_br_resp) (ex_br4, [])" for ow
    using br_step.Response [OF _ _ _ ex_response, of "forwarded ex_req" "[forwarded ex_req]"]
    by (simp add: ex_br_resp_def ex_br3_def ex_br1_def ex_br_defs)
  have "s_trySendTiming 14000 True (ex_br4\<lparr>slavePort := (slavePort ex_br4)\<lparr>s_sendEvent := None\<rparr>\<rparr>) = Inr (returned ex_br_resp, False, ex_br5)"
    by (simp add: s_trySendTiming_def ex_br5_def ex_br4_def ex_br3_def ex_br1_def ex_br_defs br_eval)
  then have 2: "br_step ow (ex_br4, []) (RespSent (returned ex_br_resp) False) (ex_br5, [])" for ow
    using br_step.SendResp [of ex_br4 14000 True "returned ex_br_resp" False ex_br5 _ "[]"] by (simp add: ex_br4_def)
  show ?thesis using run_snoc [OF run_snoc [OF run_snoc [OF ex_run2 ex_send] 1] 2] by simp
qed

theorem bridge_in_order_witness:
  "\<exists>ls b. br_run ex_br ls (b, []) \<and> reqs_out ls = [forwarded ex_req] \<and> resps_out ls = [returned ex_br_resp] \<and>
     pk_dest (returned ex_br_resp) = 3 \<and> senderState (returned ex_br_resp) = []"
proof -
  let ?ls = "[ReqAccepted ex_req] @ [ReqRefused] @ [ReqSent (forwarded ex_req) True] @ [RespAccepted ex_br_resp] @ [RespSent (returned ex_br_resp) False]"
  have "\<forall>r \<in> set (resps_out ?ls). \<exists>p \<in> set (reqs_in ?ls). expects_response p \<and> pk_dest r = pk_src p \<and> senderState r = senderState p"
    using bridge_in_order [OF ex_br_mk ex_run3] by blast
  then have "pk_dest (returned ex_br_resp) = 3" "senderState (returned ex_br_resp) = []" by simp_all
  then show ?thesis using ex_run3 by (intro exI [of _ ?ls] exI [of _ ex_br5]) simp
qed

section \<open>Sending\<close>

text \<open>In every reachable state the send events of both ports fire without a failed assertion, whatever the peer
  answers: the packet at the head of the queue is due, a reserved place is released only when there is one,
  and the event for the next packet can be scheduled.\<close>

theorem bridge_sends_safely:
  assumes "mkBridge per bp = Inr b0" "br_run b0 ls (b, fl)" "0 < unat (br_period b)" "unat t + unat (br_period b) < 2 ^ 64"
  shows "(m_sendEvent (masterPort b) = Some t \<longrightarrow>
      (\<exists>p r b'. m_trySendTiming t ok (b\<lparr>masterPort := (masterPort b)\<lparr>m_sendEvent := None\<rparr>\<rparr>) = Inr (p, r, b') \<and> p = fst (hd (mq b)))) \<and>
    (s_sendEvent (slavePort b) = Some t \<longrightarrow>
      (\<exists>p r b'. s_trySendTiming t ok (b\<lparr>slavePort := (slavePort b)\<lparr>s_sendEvent := None\<rparr>\<rparr>) = Inr (p, r, b') \<and> p = fst (hd (sq b))))"
proof -
  have i: "br_inv (b, fl)" by (rule br_inv_reachable [OF assms(1,2)])
  then have fits: "event_fits (m_sendEvent (masterPort b)) (mq b)" "event_fits (s_sendEvent (slavePort b)) (sq b)"
    by (simp_all add: br_inv_def Let_def)
  let ?c = "advance (br_period b) (edges (br_period b) t (co_tick (br_clock b))) (br_clock b)"
  have e: "clockEdge (br_period b) t 0 (br_clock b) = Inr (co_tick ?c, ?c)" and le: "t \<le> co_tick ?c"
    using co_update_edges [OF assms(3,4)] unat_advance(2) [OF assms(3,4)] by (simp_all add: clockEdge_def)
  have "\<exists>p r b'. m_trySendTiming t ok (b\<lparr>masterPort := (masterPort b)\<lparr>m_sendEvent := None\<rparr>\<rparr>) = Inr (p, r, b') \<and> p = fst (hd (mq b))"
    if ev: "m_sendEvent (masterPort b) = Some t"
  proof -
    obtain p u rest where q: "mq b = (p, u) # rest" "u \<le> t"
      using ev fits(1) by (cases "mq b") (auto simp: event_fits_def)
    show ?thesis using q e le
      by (cases rest) (auto simp: m_trySendTiming_def br_clockEdge_def retryStalledReq_def Let_def schedule_event_def le_max_iff_disj)
  qed
  moreover have "\<exists>p r b'. s_trySendTiming t ok (b\<lparr>slavePort := (slavePort b)\<lparr>s_sendEvent := None\<rparr>\<rparr>) = Inr (p, r, b') \<and> p = fst (hd (sq b))"
    if ev: "s_sendEvent (slavePort b) = Some t"
  proof -
    obtain p u rest where q: "sq b = (p, u) # rest" "u \<le> t"
      using ev fits(2) by (cases "sq b") (auto simp: event_fits_def)
    have "unat (outstandingResponses (slavePort b)) \<noteq> 0" using i q by (simp add: br_inv_def Let_def reserved_def)
    then have "outstandingResponses (slavePort b) \<noteq> 0" by (simp add: unat_eq_0)
    then show ?thesis using q e le
      by (cases rest) (auto simp: s_trySendTiming_def br_clockEdge_def Let_def schedule_event_def le_max_iff_disj)
  qed
  ultimately show ?thesis by blast
qed

theorem bridge_sends_safely_witness:
  "m_sendEvent (masterPort ex_br1) = Some 6000 \<and>
   (\<exists>p r b'. m_trySendTiming 6000 True (ex_br1\<lparr>masterPort := (masterPort ex_br1)\<lparr>m_sendEvent := None\<rparr>\<rparr>) = Inr (p, r, b'))"
proof -
  have "0 < unat (br_period ex_br1)" "unat (6000 :: Tick) + unat (br_period ex_br1) < 2 ^ 64" "m_sendEvent (masterPort ex_br1) = Some 6000"
    by (simp_all add: ex_br1_def ex_br_defs)
  then show ?thesis using bridge_sends_safely [OF ex_br_mk ex_run1, of 6000 True] by blast
qed

section \<open>The bridge in front of a memory\<close>

text \<open>A bridge in front of an atomic memory is an atomic memory with a longer latency.\<close>

context atomic_memory
begin

lemma behind_bridge:
  "atomic_memory (br_recvAtomic aacc b) view inv (\<lambda>s. s_delay (slavePort b) * br_period b + lat s)"
proof unfold_locales
  fix s p d bs
  assume "inv s" "plain_request ReadReq p d" "bytes_at (view s) (pk_addr p) bs" "length bs = length d"
  from atomic_read_law [OF this] show "\<exists>q s'. br_recvAtomic aacc b s p = Inr (s_delay (slavePort b) * br_period b + lat s, q, s') \<and>
      isResponse q \<and> same_txn p q \<and> getPtr q = Inr bs \<and> inv s' \<and> view s' = view s \<and>
      s_delay (slavePort b) * br_period b + lat s' = s_delay (slavePort b) * br_period b + lat s"
    by (auto simp: br_recvAtomic_def)
next
  fix s p d old
  assume "inv s" "plain_request WriteReq p d" "bytes_at (view s) (pk_addr p) old" "length old = length d"
  from atomic_write_law [OF this] show "\<exists>q s'. br_recvAtomic aacc b s p = Inr (s_delay (slavePort b) * br_period b + lat s, q, s') \<and>
      isResponse q \<and> same_txn p q \<and> inv s' \<and> view s' = store_at (view s) (pk_addr p) d \<and>
      s_delay (slavePort b) * br_period b + lat s' = s_delay (slavePort b) * br_period b + lat s"
    by (auto simp: br_recvAtomic_def)
qed

end

interpretation bs: atomic_memory "br_recvAtomic (sm_recvAtomic rnd) b" "\<lambda>m. mem_view (sm_mem m)" sm_inv
    "\<lambda>m. s_delay (slavePort b) * br_period b + getLatency m rnd"
  by (rule sm.behind_bridge)

end
