(* ===== verification/XBarLayer.thy ===== *)
theory XBarLayer
  imports Clock SimpleMem
begin

text \<open>
  The layers of a crossbar (the class template \<open>Layer\<close> of \<open>mem/xbar.hh\<close> and \<open>mem/xbar.cc\<close> under
  \<open>src/SMC_original/GEM5/gem5/src\<close>). A layer arbitrates the access to one port. The ports that compete for it are
  their indices. When a layer tells a port to retry, the port may send at once; what it does is the argument
  \<open>react\<close>. The statistics of the occupancy are left out.
\<close>

section \<open>Layers\<close>

datatype layer_state = IDLE | BUSY | RETRY

record layer =
  ly_state :: layer_state
  waitingForLayer :: "nat list"
  waitingForPeer :: "nat option"
  ly_releaseEvent :: "Tick option"
  ly_drainManager :: bool
  ly_drainSignals :: nat

definition Layer :: layer where
  "Layer = \<lparr>ly_state = IDLE, waitingForLayer = [], waitingForPeer = None, ly_releaseEvent = None,
     ly_drainManager = False, ly_drainSignals = 0\<rparr>"

definition occupyLayer :: "Tick \<Rightarrow> Tick \<Rightarrow> layer \<Rightarrow> layer res" where
  "occupyLayer now until l =
     assertR (ly_state l = BUSY) ''state == BUSY''
    (assertR (until \<noteq> 0) ''until != 0''
      (bindR (schedule_event (ly_releaseEvent l) now until) (\<lambda>ev. Inr (l\<lparr>ly_releaseEvent := ev\<rparr>))))"

definition tryTiming :: "nat \<Rightarrow> layer \<Rightarrow> (bool \<times> layer) res" where
  "tryTiming src l =
     (if ly_state l = BUSY \<or> waitingForPeer l \<noteq> None
      then assertR (src \<notin> set (waitingForLayer l)) ''find(waitingForLayer, src_port) == end()''
             (Inr (False, l\<lparr>waitingForLayer := waitingForLayer l @ [src]\<rparr>))
      else Inr (True, l\<lparr>ly_state := BUSY\<rparr>))"

definition succeededTiming :: "Tick \<Rightarrow> Tick \<Rightarrow> layer \<Rightarrow> layer res" where
  "succeededTiming now busy_time l = assertR (ly_state l = BUSY) ''state == BUSY'' (occupyLayer now busy_time l)"

definition failedTiming :: "Tick \<Rightarrow> nat \<Rightarrow> Tick \<Rightarrow> layer \<Rightarrow> layer res" where
  "failedTiming now src busy_time l =
     assertR (waitingForPeer l = None) ''waitingForPeer == NULL''
       (let l1 = l\<lparr>waitingForPeer := Some src\<rparr> in
        assertR (ly_state l1 = BUSY) ''state == BUSY'' (occupyLayer now busy_time l1))"

text \<open>\<open>retryWaiting\<close> up to the call of \<open>sendRetry\<close>, and from there on.\<close>

definition retry_begin :: "layer \<Rightarrow> (nat \<times> layer) res" where
  "retry_begin l =
     (case waitingForLayer l of
        [] \<Rightarrow> Inl (AssertFail ''!waitingForLayer.empty()'')
      | p # ps \<Rightarrow>
          assertR (ly_state l = IDLE) ''state == IDLE''
            (Inr (p, l\<lparr>ly_state := RETRY, waitingForLayer := ps\<rparr>)))"

definition retry_end :: "Tick \<Rightarrow> Tick \<Rightarrow> clocked_object \<times> layer \<Rightarrow> (clocked_object \<times> layer) res" where
  "retry_end per now x =
     (case x of (c, l) \<Rightarrow>
        if ly_state l = RETRY
        then bindR (clockEdge per now 1 c) (\<lambda>(t, c').
             bindR (occupyLayer now t (l\<lparr>ly_state := BUSY\<rparr>)) (\<lambda>l'. Inr (c', l')))
        else Inr (c, l))"

text \<open>What a port does while it is told to retry: nothing yet, or it sends, with the answer of the peer and the time the layer is busy.\<close>

datatype reaction = Later | Sends bool Tick

definition layer_send :: "Tick \<Rightarrow> nat \<Rightarrow> bool \<Rightarrow> Tick \<Rightarrow> layer \<Rightarrow> (bool \<times> layer) res" where
  "layer_send now src ok busy l =
     bindR (tryTiming src l) (\<lambda>(free, l1).
       if \<not> free then Inr (False, l1)
       else if ok then bindR (succeededTiming now busy l1) (\<lambda>l2. Inr (True, l2))
       else bindR (failedTiming now src busy l1) (\<lambda>l2. Inr (False, l2)))"

definition layer_react :: "Tick \<Rightarrow> nat \<Rightarrow> reaction \<Rightarrow> layer \<Rightarrow> layer res" where
  "layer_react now src react l =
     (case react of
        Later \<Rightarrow> Inr l
      | Sends ok busy \<Rightarrow> bindR (layer_send now src ok busy l) (\<lambda>(_, l'). Inr l'))"

definition retryWaiting ::
    "Tick \<Rightarrow> Tick \<Rightarrow> reaction \<Rightarrow> clocked_object \<times> layer \<Rightarrow> (nat \<times> clocked_object \<times> layer) res" where
  "retryWaiting per now react x =
     (case x of (c, l) \<Rightarrow>
        bindR (retry_begin l) (\<lambda>(p, l1).
        bindR (layer_react now p react l1) (\<lambda>l2.
        bindR (retry_end per now (c, l2)) (\<lambda>(c', l3). Inr (p, c', l3)))))"

text \<open>\<open>releaseLayer\<close> up to \<open>retryWaiting\<close>; the flag tells whether that is called.\<close>

definition release_begin :: "layer \<Rightarrow> (bool \<times> layer) res" where
  "release_begin l =
     assertR (ly_state l = BUSY) ''state == BUSY''
    (assertR (ly_releaseEvent l = None) ''!releaseEvent.scheduled()''
      (let l1 = l\<lparr>ly_state := IDLE\<rparr> in
       if waitingForLayer l1 \<noteq> [] then Inr (waitingForPeer l1 = None, l1)
       else if waitingForPeer l1 = None \<and> ly_drainManager l1
       then Inr (False, l1\<lparr>ly_drainManager := False, ly_drainSignals := ly_drainSignals l1 + 1\<rparr>)
       else Inr (False, l1)))"

definition releaseLayer ::
    "Tick \<Rightarrow> Tick \<Rightarrow> reaction \<Rightarrow> clocked_object \<times> layer \<Rightarrow> (nat option \<times> clocked_object \<times> layer) res" where
  "releaseLayer per now react x =
     (case x of (c, l) \<Rightarrow>
        bindR (release_begin l) (\<lambda>(r, l1).
          if r then bindR (retryWaiting per now react (c, l1)) (\<lambda>(p, x'). Inr (Some p, x'))
          else Inr (None, c, l1)))"

definition recvRetry_begin :: "layer \<Rightarrow> (bool \<times> layer) res" where
  "recvRetry_begin l =
     (case waitingForPeer l of
        None \<Rightarrow> Inl (AssertFail ''waitingForPeer != NULL'')
      | Some p \<Rightarrow>
          let l1 = l\<lparr>waitingForLayer := p # waitingForLayer l, waitingForPeer := None\<rparr> in
          if ly_state l1 = IDLE then Inr (True, l1)
          else assertR (ly_state l1 = BUSY) ''state == BUSY'' (Inr (False, l1)))"

definition layer_recvRetry ::
    "Tick \<Rightarrow> Tick \<Rightarrow> reaction \<Rightarrow> clocked_object \<times> layer \<Rightarrow> (nat option \<times> clocked_object \<times> layer) res" where
  "layer_recvRetry per now react x =
     (case x of (c, l) \<Rightarrow>
        bindR (recvRetry_begin l) (\<lambda>(r, l1).
          if r then bindR (retryWaiting per now react (c, l1)) (\<lambda>(p, x'). Inr (Some p, x'))
          else Inr (None, c, l1)))"

definition layer_drain :: "layer \<Rightarrow> nat \<times> layer" where
  "layer_drain l = (if ly_state l \<noteq> IDLE then (1, l\<lparr>ly_drainManager := True\<rparr>) else (0, l))"

section \<open>A layer as a state machine\<close>

text \<open>
  A port that was refused does not send again before it is told to; a peer sends a retry only after a failure.
  The labels are what the ports see.
\<close>

datatype layer_label = Sent nat | Refused nat | Told nat | Quiet

inductive layer_step :: "clocked_object \<times> layer \<Rightarrow> layer_label \<Rightarrow> clocked_object \<times> layer \<Rightarrow> bool" where
  Send: "src \<notin> set (waitingForLayer l) \<Longrightarrow> waitingForPeer l \<noteq> Some src \<Longrightarrow> layer_send now src ok busy l = Inr (b, l') \<Longrightarrow>
     layer_step (c, l) (if b then Sent src else Refused src) (c, l')"
| Release: "ly_releaseEvent l = Some now \<Longrightarrow> releaseLayer per now react (c, l\<lparr>ly_releaseEvent := None\<rparr>) = Inr (p, x') \<Longrightarrow>
     layer_step (c, l) (case p of None \<Rightarrow> Quiet | Some q \<Rightarrow> Told q) x'"
| Retry: "layer_recvRetry per now react (c, l) = Inr (p, x') \<Longrightarrow>
     layer_step (c, l) (case p of None \<Rightarrow> Quiet | Some q \<Rightarrow> Told q) x'"
| Drain: "layer_drain l = (n, l') \<Longrightarrow> layer_step (c, l) Quiet (c, l')"

inductive layer_reachable :: "clocked_object \<times> layer \<Rightarrow> bool" where
  start: "layer_reachable (c, Layer)"
| step: "layer_reachable x \<Longrightarrow> layer_step x l y \<Longrightarrow> layer_reachable y"

definition ports_waiting :: "layer \<Rightarrow> nat list" where
  "ports_waiting l = (case waitingForPeer l of None \<Rightarrow> [] | Some p \<Rightarrow> [p]) @ waitingForLayer l"

definition layer_inv :: "layer \<Rightarrow> bool" where
  "layer_inv l \<longleftrightarrow> ly_state l \<noteq> RETRY \<and> (ly_state l = BUSY \<longleftrightarrow> ly_releaseEvent l \<noteq> None) \<and> distinct (ports_waiting l) \<and>
     (waitingForLayer l \<noteq> [] \<longrightarrow> ly_state l = BUSY \<or> waitingForPeer l \<noteq> None)"

lemmas layer_defs = tryTiming_def succeededTiming_def failedTiming_def occupyLayer_def Let_def

lemma layer_send_inv:
  assumes "layer_send now src ok busy l = Inr (b, l')" "layer_inv l" "src \<notin> set (waitingForLayer l)" "waitingForPeer l \<noteq> Some src"
  shows "layer_inv l'"
  using assms by (auto simp: layer_send_def layer_defs layer_inv_def ports_waiting_def split: if_splits option.splits)

lemma retryWaiting_inv:
  assumes "retryWaiting per now react (c, l) = Inr (p, c', l')" "distinct (ports_waiting l)" "ly_releaseEvent l = None" "waitingForPeer l = None"
  shows "layer_inv l' \<and> p = hd (waitingForLayer l) \<and> waitingForLayer l' = tl (waitingForLayer l)"
  using assms
  by (auto simp: retryWaiting_def retry_begin_def retry_end_def layer_react_def layer_send_def layer_defs layer_inv_def ports_waiting_def
      split: if_splits option.splits list.splits reaction.splits)

lemma releaseLayer_inv:
  assumes "releaseLayer per now react (c, l\<lparr>ly_releaseEvent := None\<rparr>) = Inr (p, c', l')" "layer_inv l" "ly_releaseEvent l = Some now"
  shows "layer_inv l'"
proof -
  obtain r l1 where r: "release_begin (l\<lparr>ly_releaseEvent := None\<rparr>) = Inr (r, l1)"
    using assms(1) by (auto simp: releaseLayer_def)
  then have l1: "distinct (ports_waiting l1)" "ly_releaseEvent l1 = None" "ly_state l1 = IDLE" "waitingForLayer l1 = waitingForLayer l"
    "waitingForPeer l1 = waitingForPeer l" "r \<longleftrightarrow> waitingForLayer l \<noteq> [] \<and> waitingForPeer l = None"
    using assms(2) by (auto simp: release_begin_def layer_inv_def ports_waiting_def Let_def split: if_splits option.splits)
  show ?thesis
  proof (cases r)
    case True
    then show ?thesis using assms(1) r l1 retryWaiting_inv [of per now react c l1] by (auto simp: releaseLayer_def)
  next
    case False
    then have "l' = l1" using assms(1) r by (simp add: releaseLayer_def)
    then show ?thesis using False l1 by (auto simp: layer_inv_def)
  qed
qed

lemma layer_recvRetry_inv:
  assumes "layer_recvRetry per now react (c, l) = Inr (p, c', l')" "layer_inv l"
  shows "layer_inv l'"
proof -
  obtain r l1 where r: "recvRetry_begin l = Inr (r, l1)"
    using assms(1) by (auto simp: layer_recvRetry_def)
  then have l1: "distinct (ports_waiting l1)" "waitingForPeer l1 = None" "ly_state l1 = ly_state l" "ly_releaseEvent l1 = ly_releaseEvent l"
    "r \<longleftrightarrow> ly_state l = IDLE"
    using assms(2) by (auto simp: recvRetry_begin_def layer_inv_def ports_waiting_def Let_def split: if_splits option.splits)
  show ?thesis
  proof (cases r)
    case True
    then have "ly_releaseEvent l1 = None" using l1 assms(2) by (auto simp: layer_inv_def)
    then show ?thesis using True assms(1) r l1 retryWaiting_inv [of per now react c l1] by (auto simp: layer_recvRetry_def)
  next
    case False
    then have "l' = l1" using assms(1) r by (simp add: layer_recvRetry_def)
    then show ?thesis using False l1 assms(2) r by (auto simp: layer_inv_def recvRetry_begin_def Let_def split: option.splits if_splits)
  qed
qed

lemma layer_step_inv: "layer_step x l y \<Longrightarrow> layer_inv (snd x) \<Longrightarrow> layer_inv (snd y)"
proof (induction rule: layer_step.induct)
  case (Drain l n l' c)
  then show ?case by (auto simp: layer_drain_def layer_inv_def ports_waiting_def split: if_splits)
qed (auto intro: layer_send_inv releaseLayer_inv layer_recvRetry_inv)

lemma layer_reachable_inv: "layer_reachable x \<Longrightarrow> layer_inv (snd x)"
proof (induction rule: layer_reachable.induct)
  case (start c)
  then show ?case by (simp add: Layer_def layer_inv_def ports_waiting_def)
qed (rule layer_step_inv)

lemma layer_told:
  assumes "layer_step x lab y" "layer_inv (snd x)" "lab = Told q"
  shows "ports_waiting (snd x) \<noteq> [] \<and> q = hd (ports_waiting (snd x)) \<and> waitingForLayer (snd y) = tl (ports_waiting (snd x))"
  using assms
proof (induction rule: layer_step.induct)
  case (Release l now per react c p x')
  obtain c' l' where x': "x' = (c', l')" by (cases x')
  obtain r l1 where r: "release_begin (l\<lparr>ly_releaseEvent := None\<rparr>) = Inr (r, l1)" and t: "r" "p = Some q"
    using Release by (auto simp: releaseLayer_def split: if_splits option.splits)
  have l1: "distinct (ports_waiting l1)" "ly_releaseEvent l1 = None" "waitingForLayer l1 = waitingForLayer l"
    "waitingForPeer l1 = None" "waitingForPeer l = None" "waitingForLayer l \<noteq> []"
    using r t(1) Release.prems(1) by (auto simp: release_begin_def layer_inv_def ports_waiting_def Let_def split: if_splits option.splits)
  have "retryWaiting per now react (c, l1) = Inr (q, c', l')" using Release(2) r t x' by (auto simp: releaseLayer_def)
  from retryWaiting_inv [OF this l1(1,2,4)] show ?case using l1 x' by (simp add: ports_waiting_def)
next
  case (Retry per now react c l p x')
  obtain c' l' where x': "x' = (c', l')" by (cases x')
  obtain r l1 where r: "recvRetry_begin l = Inr (r, l1)" and t: "r" "p = Some q"
    using Retry by (auto simp: layer_recvRetry_def split: if_splits option.splits)
  have l1: "distinct (ports_waiting l1)" "ly_releaseEvent l1 = None" "waitingForPeer l1 = None" "waitingForLayer l1 = ports_waiting l"
    "waitingForLayer l1 \<noteq> []"
    using r t(1) Retry.prems(1) by (auto simp: recvRetry_begin_def layer_inv_def ports_waiting_def Let_def split: if_splits option.splits)
  have "retryWaiting per now react (c, l1) = Inr (q, c', l')" using Retry(1) r t x' by (auto simp: layer_recvRetry_def)
  from retryWaiting_inv [OF this l1(1,2,3)] show ?case using l1 x' by simp
qed (auto split: if_splits)

text \<open>C29: in every reachable state of a layer no port waits twice, and while ports wait for the layer its release
  is scheduled or a peer owes a retry, so no port waits in vain. The port that is told to retry is the one
  that has waited longest, a port whose packet the peer refused coming first, and the others keep their places.\<close>

theorem layer_serves_in_order:
  assumes "layer_reachable (c, l)" "layer_step (c, l) lab (c', l')"
  shows "distinct (ports_waiting l) \<and>
    (waitingForLayer l \<noteq> [] \<longrightarrow> ly_releaseEvent l \<noteq> None \<or> waitingForPeer l \<noteq> None) \<and>
    (\<forall>q. lab = Told q \<longrightarrow> ports_waiting l = q # waitingForLayer l') \<and>
    (\<forall>q. lab = Refused q \<longrightarrow> ports_waiting l' = ports_waiting l @ [q])"
proof -
  have i: "layer_inv l" using layer_reachable_inv [OF assms(1)] by simp
  have told: "ports_waiting l = q # waitingForLayer l'" if "lab = Told q" for q
    using layer_told [OF assms(2) _ that] i by (cases "ports_waiting l") auto
  have "ports_waiting l' = ports_waiting l @ [q]" if "lab = Refused q" for q
    using assms(2) i that
    by (cases rule: layer_step.cases)
      (auto simp: layer_send_def layer_defs layer_inv_def ports_waiting_def split: if_splits option.splits)
  then show ?thesis using i told by (auto simp: layer_inv_def)
qed

definition ex_layer :: layer where
  "ex_layer = Layer\<lparr>ly_state := BUSY, ly_releaseEvent := Some 2000, waitingForLayer := [1]\<rparr>"

theorem layer_serves_in_order_witness:
  "layer_reachable (ClockedObject, ex_layer) \<and>
   (\<exists>x'. layer_step (ClockedObject, ex_layer) (Told 1) x') \<and> distinct (ports_waiting ex_layer)"
proof -
  have 1: "layer_step (ClockedObject, Layer) (Sent 0) (ClockedObject, Layer\<lparr>ly_state := BUSY, ly_releaseEvent := Some 2000\<rparr>)"
    using layer_step.Send [of 0 Layer 1000 True 2000 True "Layer\<lparr>ly_state := BUSY, ly_releaseEvent := Some 2000\<rparr>" ClockedObject]
    by (simp add: layer_send_def layer_defs Layer_def schedule_event_def)
  have 2: "layer_step (ClockedObject, Layer\<lparr>ly_state := BUSY, ly_releaseEvent := Some 2000\<rparr>) (Refused 1) (ClockedObject, ex_layer)"
    using layer_step.Send [of 1 "Layer\<lparr>ly_state := BUSY, ly_releaseEvent := Some 2000\<rparr>" 1500 True 0 False ex_layer ClockedObject]
    by (simp add: layer_send_def layer_defs Layer_def ex_layer_def)
  have r: "layer_reachable (ClockedObject, ex_layer)"
    by (rule layer_reachable.step [OF layer_reachable.step [OF layer_reachable.start 1] 2])
  have "releaseLayer 1000 2000 Later (ClockedObject, ex_layer\<lparr>ly_releaseEvent := None\<rparr>) =
      Inr (Some 1, \<lparr>co_tick = 2000, co_cycle = 2\<rparr>, Layer\<lparr>ly_state := BUSY, ly_releaseEvent := Some 3000\<rparr>)"
    by (simp add: releaseLayer_def release_begin_def retryWaiting_def retry_begin_def retry_end_def layer_react_def ex_layer_def Layer_def
        layer_defs clockEdge_def co_update_def divCeil_def ClockedObject_def schedule_event_def)
  then have 3: "layer_step (ClockedObject, ex_layer) (Told 1) (\<lparr>co_tick = 2000, co_cycle = 2\<rparr>, Layer\<lparr>ly_state := BUSY, ly_releaseEvent := Some 3000\<rparr>)"
    using layer_step.Release [of ex_layer 2000 1000 Later ClockedObject "Some 1"] by (simp add: ex_layer_def)
  show ?thesis using layer_serves_in_order [OF r 3] r 3 by blast
qed

end
