(* ===== verification/RangeMap.thy ===== *)
theory RangeMap
  imports AddrRange
begin

text \<open>
  The map from address ranges to values (\<open>base/addr_range_map.hh\<close> under \<open>src/SMC_original/GEM5/gem5/src\<close>), with which a
  crossbar finds the port of an address. The underlying \<open>std::map\<close> is the list of its entries in ascending
  order; an iterator is an index, and \<open>None\<close> the end.
\<close>

type_synonym 'v range_map = "(addr_range \<times> 'v) list"

definition upper_bound :: "addr_range \<Rightarrow> 'v range_map \<Rightarrow> nat" where
  "upper_bound r m = length (takeWhile (\<lambda>e. \<not> range_less r (fst e)) m)"

text \<open>The loop back through the stripes of an interleaved range, and the test after it.\<close>

fun step_back :: "addr_range \<Rightarrow> addr_range \<Rightarrow> 'v range_map \<Rightarrow> nat \<Rightarrow> nat option res" where
  "step_back r orig m 0 = bindR (intersects (fst (m ! 0)) r) (\<lambda>b. Inr (if b then Some 0 else None))"
| "step_back r orig m (Suc i) =
     (if mergesWith (fst (m ! Suc i)) orig
      then bindR (intersects (fst (m ! i)) r) (\<lambda>b. if b then Inr (Some i) else step_back r orig m i)
      else bindR (intersects (fst (m ! Suc i)) r) (\<lambda>b. Inr (if b then Some (Suc i) else None)))"

definition find_range :: "addr_range \<Rightarrow> 'v range_map \<Rightarrow> nat option res" where
  "find_range r m =
     (if m = [] then Inr None
      else
        let n = upper_bound r m in
        if n = 0 then bindR (intersects (fst (m ! 0)) r) (\<lambda>b. Inr (if b then Some 0 else None))
        else
          let i = n - 1 in
          bindR (intersects (fst (m ! i)) r) (\<lambda>b.
            if b then Inr (Some i)
            else if interleaved (fst (m ! i)) then step_back r (fst (m ! i)) m i
            else Inr None))"

definition find_addr :: "Addr \<Rightarrow> 'v range_map \<Rightarrow> nat option res" where
  "find_addr a m = find_range (RangeSize a 1) m"

definition map_intersect :: "addr_range \<Rightarrow> 'v range_map \<Rightarrow> bool res" where
  "map_intersect r m = bindR (find_range r m) (\<lambda>i. Inr (i \<noteq> None))"

text \<open>\<open>std::map::insert\<close>, which keeps an entry that is already there.\<close>

fun tree_insert :: "addr_range \<Rightarrow> 'v \<Rightarrow> 'v range_map \<Rightarrow> 'v range_map" where
  "tree_insert r v [] = [(r, v)]"
| "tree_insert r v (e # m) =
     (if range_less r (fst e) then (r, v) # e # m
      else if range_less (fst e) r then e # tree_insert r v m
      else e # m)"

definition map_insert :: "addr_range \<Rightarrow> 'v \<Rightarrow> 'v range_map \<Rightarrow> 'v range_map option res" where
  "map_insert r v m = bindR (map_intersect r m) (\<lambda>b. Inr (if b then None else Some (tree_insert r v m)))"

section \<open>Lookup\<close>

text \<open>
  What the configurations guarantee: an undecorated range has no match value, a stripe begins at a boundary
  of its pattern, and two ranges are disjoint or stripes of the same range.
\<close>

definition range_ok :: "addr_range \<Rightarrow> bool" where
  "range_ok r \<longleftrightarrow> range_valid r \<and> (\<not> interleaved r \<longrightarrow> intlvMatch r = 0) \<and>
     (interleaved r \<longrightarrow> bits (ar_start r) (unat (intlvHighBit r)) (intlvLowBit r) = 0)"

definition range_before :: "addr_range \<Rightarrow> addr_range \<Rightarrow> bool" where
  "range_before r s \<longleftrightarrow> ar_end r < ar_start s \<or> interleaved r \<and> mergesWith r s \<and> intlvMatch r < intlvMatch s"

definition map_ok :: "'v range_map \<Rightarrow> bool" where
  "map_ok m \<longleftrightarrow> sorted_wrt range_before (map fst m) \<and> (\<forall>e \<in> set m. range_ok (fst e))"

lemma map_ok_nth:
  assumes "map_ok m" "i < length m"
  shows "range_ok (fst (m ! i))" "j < i \<Longrightarrow> range_before (fst (m ! j)) (fst (m ! i))"
  using assms sorted_wrt_nth_less [of range_before "map fst m" j i] by (auto simp: map_ok_def)

lemma range_before_less: "range_ok r \<Longrightarrow> range_before r s \<Longrightarrow> range_less r s"
  by (auto simp: range_before_def range_less_def range_ok_def range_valid_def mergesWith_def)

lemma intersects_addr [simp]: "intersects r (RangeSize a 1) = Inr (contains r a)"
  by (auto simp: intersects_def RangeSize_def contains_def)

lemma ucast_byte_inj: "(ucast (x :: byte) :: u64) = ucast y \<longleftrightarrow> x = y"
proof -
  have "unat (ucast z :: u64) = unat z" for z :: byte
    using unsigned_less [of z, where 'a = nat] by (simp add: unsigned_ucast_eq take_bit_nat_eq_self)
  then show ?thesis by (metis word_unat_eq_iff)
qed

lemma range_before_disjoint:
  assumes "range_before r s" "contains r a"
  shows "\<not> contains s a"
proof
  assume s: "contains s a"
  from assms(1) show False unfolding range_before_def
  proof (elim disjE conjE)
    assume "ar_end r < ar_start s"
    then show False using contains_bounds [OF assms(2)] contains_bounds [OF s] by (meson leD order_trans)
  next
    assume h: "interleaved r" "mergesWith r s" "intlvMatch r < intlvMatch s"
    then have "interleaved s" by (simp add: mergesWith_def interleaved_def)
    then have "(ucast (intlvMatch r) :: u64) = ucast (intlvMatch s)"
      using assms(2) s h(1,2) by (simp add: contains_def mergesWith_def intlvLowBit_def)
    then show False using h(3) by (simp add: ucast_byte_inj)
  qed
qed

lemma contains_not_above: "range_ok r \<Longrightarrow> contains r a \<Longrightarrow> \<not> range_less (RangeSize a 1) r"
  using ucast_byte_inj [of "intlvMatch r" 0]
  by (auto simp: range_less_def RangeSize_def mkAddrRange_def range_ok_def contains_def)

lemma upper_bound_less:
  assumes "map_ok m" "i < length m" "\<not> range_less r (fst (m ! i))"
  shows "i < upper_bound r m"
proof (rule ccontr)
  assume "\<not> i < upper_bound r m"
  then have le: "upper_bound r m \<le> i" by simp
  then have "upper_bound r m < length m" using assms(2) by simp
  then have above: "range_less r (fst (m ! upper_bound r m))"
    unfolding upper_bound_def using nth_length_takeWhile [of "\<lambda>e. \<not> range_less r (fst e)" m] by simp
  show False
  proof (cases "upper_bound r m = i")
    case False
    then have "range_before (fst (m ! upper_bound r m)) (fst (m ! i))"
      using le map_ok_nth(2) [OF assms(1,2), of "upper_bound r m"] by simp
    then have "range_less (fst (m ! upper_bound r m)) (fst (m ! i))"
      using map_ok_nth(1) [OF assms(1)] le assms(2) by (intro range_before_less) simp_all
    then show False using above assms(3) range_less_trans by blast
  qed (use above assms(3) in simp)
qed

lemma upper_bound_nth:
  assumes "i < upper_bound r m"
  shows "i < length m \<and> \<not> range_less r (fst (m ! i))"
proof -
  have "i < length m" using assms length_takeWhile_le [of "\<lambda>e. \<not> range_less r (fst e)" m] by (simp add: upper_bound_def)
  moreover have "m ! i \<in> set (takeWhile (\<lambda>e. \<not> range_less r (fst e)) m)"
    using assms by (metis nth_mem takeWhile_nth upper_bound_def)
  ultimately show ?thesis by (auto dest: set_takeWhileD)
qed


lemma step_back_none: "(\<forall>j \<le> i. \<not> contains (fst (m ! j)) a) \<Longrightarrow> step_back (RangeSize a 1) orig m i = Inr None"
  by (induction i) simp_all

lemma step_back_found:
  "contains (fst (m ! j)) a \<Longrightarrow> j < i \<Longrightarrow> (\<forall>x. j < x \<longrightarrow> x \<le> i \<longrightarrow> mergesWith (fst (m ! x)) orig) \<Longrightarrow>
     (\<forall>x \<le> i. x \<noteq> j \<longrightarrow> \<not> contains (fst (m ! x)) a) \<Longrightarrow> step_back (RangeSize a 1) orig m i = Inr (Some j)"
proof (induction i)
  case (Suc i)
  then show ?case by (cases "i = j") (auto simp: less_Suc_eq)
qed simp

text \<open>Entries between the owner of an address and the last entry that starts at or before it are stripes of the same range.\<close>

lemma between_merges:
  assumes "map_ok m" "contains (fst (m ! j)) a" "j < x" "x < upper_bound (RangeSize a 1) m"
  shows "interleaved (fst (m ! x)) \<and> mergesWith (fst (m ! j)) (fst (m ! x))"
proof -
  have x: "x < length m" "\<not> range_less (RangeSize a 1) (fst (m ! x))" using upper_bound_nth [OF assms(4)] by auto
  have "ar_start (fst (m ! x)) \<le> a"
    using x(2) by (auto simp: range_less_def RangeSize_def split: if_splits)
  moreover have "a \<le> ar_end (fst (m ! j))" using contains_bounds [OF assms(2)] by simp
  ultimately have "\<not> ar_end (fst (m ! j)) < ar_start (fst (m ! x))" by simp
  then show ?thesis using map_ok_nth(2) [OF assms(1) x(1) assms(3)]
    by (auto simp: range_before_def mergesWith_def interleaved_def)
qed

lemma find_addr_found:
  assumes "map_ok m" "j < length m" "contains (fst (m ! j)) a"
  shows "find_addr a m = Inr (Some j)"
proof -
  let ?r = "RangeSize a 1" and ?n = "upper_bound (RangeSize a 1) m"
  have other: "\<not> contains (fst (m ! x)) a" if "x < length m" "x \<noteq> j" for x
    using that assms map_ok_nth(2) [OF assms(1), of x j] map_ok_nth(2) [OF assms(1), of j x] range_before_disjoint
    by (metis linorder_neqE_nat)
  have jn: "j < ?n"
    using upper_bound_less [OF assms(1,2)] contains_not_above [OF map_ok_nth(1) [OF assms(1,2)] assms(3)] by simp
  then have last: "?n - 1 < length m" "?n - 1 < ?n" using upper_bound_nth [of "?n - 1" ?r m] by auto
  show ?thesis
  proof (cases "?n - 1 = j")
    case True
    then show ?thesis using jn assms(2,3) by (auto simp: find_addr_def find_range_def Let_def)
  next
    case False
    then have lt: "j < ?n - 1" using jn by simp
    have "\<not> contains (fst (m ! (?n - 1))) a" using other [OF last(1)] False by simp
    moreover have "interleaved (fst (m ! (?n - 1)))" using between_merges [OF assms(1,3) lt last(2)] by simp
    moreover have "step_back ?r (fst (m ! (?n - 1))) m (?n - 1) = Inr (Some j)"
    proof (rule step_back_found [OF assms(3) lt])
      show "\<forall>x. j < x \<longrightarrow> x \<le> ?n - 1 \<longrightarrow> mergesWith (fst (m ! x)) (fst (m ! (?n - 1)))"
        using between_merges [OF assms(1,3)] last(2) lt by (auto simp: mergesWith_def)
      show "\<forall>x \<le> ?n - 1. x \<noteq> j \<longrightarrow> \<not> contains (fst (m ! x)) a" using other last(1) by auto
    qed
    ultimately show ?thesis using jn assms(2) by (auto simp: find_addr_def find_range_def Let_def)
  qed
qed

lemma find_addr_none:
  assumes "\<forall>j < length m. \<not> contains (fst (m ! j)) a"
  shows "find_addr a m = Inr None"
proof (cases "m = [] \<or> upper_bound (RangeSize a 1) m = 0")
  case True
  then show ?thesis using assms by (auto simp: find_addr_def find_range_def Let_def)
next
  case False
  then have "upper_bound (RangeSize a 1) m - 1 < length m" using upper_bound_nth [of "upper_bound (RangeSize a 1) m - 1" "RangeSize a 1" m] by auto
  then show ?thesis using False assms by (auto simp: find_addr_def find_range_def Let_def step_back_none)
qed

text \<open>C31: the search of the address map, which looks at one predecessor and walks back through stripes, finds the
  entry that holds an address exactly when there is one, for all maps of ranges that are disjoint or stripes of
  one range.\<close>

theorem find_addr_exact:
  assumes "map_ok m"
  shows "\<exists>res. find_addr a m = Inr res \<and> (\<forall>j. res = Some j \<longleftrightarrow> j < length m \<and> contains (fst (m ! j)) a)"
proof (cases "\<exists>j < length m. contains (fst (m ! j)) a")
  case True
  then obtain j where j: "j < length m" "contains (fst (m ! j)) a" by blast
  have u: "i < length m \<Longrightarrow> contains (fst (m ! i)) a \<Longrightarrow> i = j" for i
    using find_addr_found [OF assms j] find_addr_found [OF assms, of i a] by simp
  have "Some j = Some i \<longleftrightarrow> i < length m \<and> contains (fst (m ! i)) a" for i using u j by blast
  then show ?thesis using find_addr_found [OF assms j] by blast
next
  case False
  then show ?thesis using find_addr_none [of m a] by auto
qed

definition ex_map :: "nat range_map" where
  "ex_map = [(AddrRange_intlv 0 255 6 1 0, 1), (AddrRange_intlv 0 255 6 1 1, 2), (mkAddrRange 0x1000 0x1fff, 3)]"

theorem find_addr_exact_witness: "find_addr 200 ex_map = Inr (Some 1) \<and> find_addr 0x800 ex_map = Inr None"
proof -
  have ok: "map_ok ex_map"
    by (simp add: map_ok_def ex_map_def range_ok_def range_before_def mergesWith_def AddrRange_intlv_def interleaved_def
        range_valid_def bits_def intlvLowBit_def mkAddrRange_def)
  have 1: "1 < length ex_map \<and> contains (fst (ex_map ! 1)) 200"
    by (simp add: ex_map_def contains_def AddrRange_intlv_def interleaved_def intlvLowBit_def bits_def mask_c_def)
  have "\<forall>e \<in> set ex_map. \<not> contains (fst e) 0x800"
    by (simp add: ex_map_def contains_def AddrRange_intlv_def interleaved_def mkAddrRange_def)
  then have 2: "\<not> (j < length ex_map \<and> contains (fst (ex_map ! j)) 0x800)" for j using nth_mem by blast
  obtain r1 where r1: "find_addr 200 ex_map = Inr r1" "\<forall>j. r1 = Some j \<longleftrightarrow> j < length ex_map \<and> contains (fst (ex_map ! j)) 200"
    using find_addr_exact [OF ok] by blast
  obtain r2 where r2: "find_addr 0x800 ex_map = Inr r2" "\<forall>j. r2 = Some j \<longleftrightarrow> j < length ex_map \<and> contains (fst (ex_map ! j)) 0x800"
    using find_addr_exact [OF ok] by blast
  have "r1 = Some 1" using r1(2) 1 by blast
  moreover have "r2 = None" using r2(2) 2 by (metis not_None_eq)
  ultimately show ?thesis using r1(1) r2(1) by simp
qed

section \<open>Insertion\<close>

definition range_apart :: "addr_range \<Rightarrow> addr_range \<Rightarrow> bool" where
  "range_apart r s \<longleftrightarrow> ar_end r < ar_start s \<or> ar_end s < ar_start r"

lemma intersects_apart: "\<not> interleaved r \<Longrightarrow> range_apart s r \<Longrightarrow> intersects s r = Inr False"
  by (auto simp: intersects_def range_apart_def contains_def)

lemma find_range_none:
  assumes "\<forall>i < length m. intersects (fst (m ! i)) r = Inr False"
  shows "find_range r m = Inr None"
proof -
  have sb: "i < length m \<Longrightarrow> step_back r orig m i = Inr None" for i orig
    using assms by (induction i) auto
  show ?thesis
  proof (cases "m = [] \<or> upper_bound r m = 0")
    case False
    then have "upper_bound r m - 1 < length m" using upper_bound_nth [of "upper_bound r m - 1" r m] by auto
    then show ?thesis using False assms sb by (auto simp: find_range_def Let_def)
  qed (use assms in \<open>auto simp: find_range_def Let_def\<close>)
qed

lemma set_tree_insert:
  "\<forall>e \<in> set m. range_apart (fst e) r \<Longrightarrow> range_valid r \<Longrightarrow> \<forall>e \<in> set m. range_valid (fst e) \<Longrightarrow>
     set (tree_insert r v m) = insert (r, v) (set m)"
  by (induction m) (auto simp: range_less_def range_apart_def range_valid_def)

lemma tree_insert_sorted:
  assumes "map_ok m" "range_ok r" "\<forall>e \<in> set m. range_apart (fst e) r"
  shows "map_ok (tree_insert r v m)"
  using assms
proof (induction m)
  case (Cons e m)
  have ok: "map_ok m" "range_ok (fst e)" "\<forall>x \<in> set m. range_before (fst e) (fst x)"
    using Cons.prems(1) by (auto simp: map_ok_def)
  have valid: "range_valid r" "\<forall>x \<in> set (e # m). range_valid (fst x)"
    using Cons.prems(1,2) by (auto simp: map_ok_def range_ok_def)
  have set: "set (tree_insert r v m) = insert (r, v) (set m)"
    using Cons.prems(3) valid by (intro set_tree_insert) auto
  consider "ar_end r < ar_start (fst e)" | "ar_end (fst e) < ar_start r" using Cons.prems(3) by (auto simp: range_apart_def)
  then show ?case
  proof cases
    case 1
    then have "range_less r (fst e)" using valid by (auto simp: range_less_def range_valid_def)
    moreover have "\<forall>x \<in> set (e # m). range_before r (fst x)"
    proof
      fix x assume "x \<in> set (e # m)"
      then have "x = e \<or> range_before (fst e) (fst x)" using ok(3) by auto
      then have "ar_start (fst e) \<le> ar_start (fst x)"
        using valid(2) by (auto simp: range_before_def range_valid_def mergesWith_def)
      then show "range_before r (fst x)" using less_le_trans [OF 1] by (simp add: range_before_def)
    qed
    ultimately show ?thesis using Cons.prems(1,2) by (auto simp: map_ok_def)
  next
    case 2
    then have "\<not> range_less r (fst e)" "range_less (fst e) r" using valid by (auto simp: range_less_def range_valid_def)
    moreover have "map_ok (tree_insert r v m)" using Cons ok(1) by simp
    moreover have "range_before (fst e) r" using 2 by (simp add: range_before_def)
    ultimately show ?thesis using ok set by (auto simp: map_ok_def)
  qed
qed (simp add: map_ok_def)

lemma map_insert_apart:
  assumes "map_ok m" "range_ok r" "\<not> interleaved r" "\<forall>e \<in> set m. range_apart (fst e) r"
  shows "map_insert r v m = Inr (Some (tree_insert r v m))" "map_ok (tree_insert r v m)"
    "set (tree_insert r v m) = insert (r, v) (set m)"
proof -
  have "find_range r m = Inr None"
    using assms(3,4) by (intro find_range_none) (auto intro: intersects_apart)
  then show "map_insert r v m = Inr (Some (tree_insert r v m))" by (simp add: map_insert_def map_intersect_def)
  show "map_ok (tree_insert r v m)" by (rule tree_insert_sorted [OF assms(1,2,4)])
  show "set (tree_insert r v m) = insert (r, v) (set m)"
    using assms(1,2,4) by (intro set_tree_insert) (auto simp: map_ok_def range_ok_def)
qed

text \<open>The map accepts a range that overlaps one of its entries, when the entry starts inside the new range and
  there is another one below: only the predecessor of the new range is compared with it. An address that both
  hold then belongs to the entry that starts later.\<close>

theorem map_insert_overlap:
  "\<exists>m. map_insert (mkAddrRange 50 150) (3 :: nat) [(mkAddrRange 0 10, 1), (mkAddrRange 100 200, 2)] = Inr (Some m) \<and>
     contains (fst (m ! 1)) 120 \<and> snd (m ! 1) = 3 \<and> contains (fst (m ! 2)) 120 \<and> find_addr 120 m = Inr (Some 2)"
  by (simp add: map_insert_def map_intersect_def find_range_def upper_bound_def range_less_def intersects_def find_addr_def RangeSize_def)

end
