(* ===== verification/XBar.thy ===== *)
theory XBar
  imports XBarLayer RangeMap
begin

text \<open>
  The crossbars: what all of them share (\<open>mem/xbar.hh\<close>, \<open>mem/xbar.cc\<close>), the crossbar without coherence
  (\<open>mem/noncoherent_xbar.cc\<close>) and the distributor over the serial links of the cube (\<open>mem/load_distributor.cc\<close>), all
  under \<open>src/SMC_original/GEM5/gem5/src\<close>. Ports are their indices, the components behind them arguments; the
  packet that a port sends when it is told to retry is the argument \<open>resend\<close>. The operations are generic in
  further fields, because the other crossbars extend this one. Statistics, the packet log and the parameter
  files are left out.
\<close>

section \<open>State\<close>

record port_cache =
  pc_valid :: bool
  pc_id :: nat
  pc_range :: addr_range

record base_xbar =
  xb_period :: Tick
  xb_clock :: clocked_object
  headerCycles :: u64
  width :: u32
  portMap :: "nat range_map"
  xbarRanges :: "addr_range list"
  defaultRange :: addr_range
  portCache :: "port_cache list"
  gotAddrRanges :: "bool list"
  gotAllAddrRanges :: bool
  defaultPortID :: "nat option"
  useDefaultRange :: bool
  reqLayers :: "layer list"
  respLayers :: "layer list"

text \<open>The constructors: \<open>nm\<close> master ports, a default port if \<open>dflt\<close>, and \<open>ns\<close> slave ports.\<close>

definition NoncoherentXBar :: "Tick \<Rightarrow> u64 \<Rightarrow> u32 \<Rightarrow> bool \<Rightarrow> nat \<Rightarrow> bool \<Rightarrow> nat \<Rightarrow> base_xbar" where
  "NoncoherentXBar per hc w use_default nm dflt ns =
     (let n = nm + of_bool dflt in
      \<lparr>xb_period = per, xb_clock = ClockedObject, headerCycles = hc, width = w, portMap = [], xbarRanges = [],
       defaultRange = AddrRange_default, portCache = replicate 3 \<lparr>pc_valid = False, pc_id = 0, pc_range = AddrRange_default\<rparr>,
       gotAddrRanges = replicate n False, gotAllAddrRanges = False, defaultPortID = (if dflt then Some nm else None),
       useDefaultRange = use_default, reqLayers = replicate n Layer, respLayers = replicate ns Layer\<rparr>)"

section \<open>Routing\<close>

definition checkPortCache :: "Addr \<Rightarrow> 'a base_xbar_scheme \<Rightarrow> nat option" where
  "checkPortCache a x = map_option pc_id (List.find (\<lambda>e. pc_valid e \<and> contains (pc_range e) a) (portCache x))"

definition updatePortCache :: "nat \<Rightarrow> addr_range \<Rightarrow> 'a base_xbar_scheme \<Rightarrow> 'a base_xbar_scheme" where
  "updatePortCache i r x =
     x\<lparr>portCache := \<lparr>pc_valid = True, pc_id = i, pc_range = r\<rparr> # take 2 (portCache x)\<rparr>"

definition clearPortCache :: "'a base_xbar_scheme \<Rightarrow> 'a base_xbar_scheme" where
  "clearPortCache x = x\<lparr>portCache := map (\<lambda>e. e\<lparr>pc_valid := False\<rparr>) (portCache x)\<rparr>"

text \<open>The part of \<open>findPort\<close> after the search. Without a default port the index that is returned is invalid, and its use out of range.\<close>

definition default_port :: "Addr \<Rightarrow> 'a base_xbar_scheme \<Rightarrow> nat res" where
  "default_port a x =
     (if useDefaultRange x then
        (if contains (defaultRange x) a then (case defaultPortID x of Some d \<Rightarrow> Inr d | None \<Rightarrow> Inl OutOfRange)
         else Inl (Fatal ''Unable to find destination''))
      else (case defaultPortID x of Some d \<Rightarrow> Inr d | None \<Rightarrow> Inl (Fatal ''Unable to find destination'')))"

definition findPort :: "Addr \<Rightarrow> 'a base_xbar_scheme \<Rightarrow> (nat \<times> 'a base_xbar_scheme) res" where
  "findPort a x =
     assertR (gotAllAddrRanges x) ''gotAllAddrRanges''
       (case checkPortCache a x of
          Some d \<Rightarrow> Inr (d, x)
        | None \<Rightarrow>
            bindR (find_addr a (portMap x)) (\<lambda>i.
              case i of
                Some j \<Rightarrow> (case portMap x ! j of (r, d) \<Rightarrow> Inr (d, updatePortCache d r x))
              | None \<Rightarrow> bindR (default_port a x) (\<lambda>d. Inr (d, x))))"

text \<open>The loop that enters the ranges of a port.\<close>

fun add_ranges :: "nat \<Rightarrow> addr_range list \<Rightarrow> nat range_map \<Rightarrow> nat range_map res" where
  "add_ranges i [] m = Inr m"
| "add_ranges i (r # rs) m =
     bindR (map_insert r i m) (\<lambda>m'.
       case m' of None \<Rightarrow> Inl (Fatal ''two ports responding within range'') | Some m1 \<Rightarrow> add_ranges i rs m1)"

definition keep_range :: "'a base_xbar_scheme \<Rightarrow> addr_range \<Rightarrow> addr_range list \<Rightarrow> addr_range list res" where
  "keep_range x r acc =
     (if useDefaultRange x then bindR (isSubset r (defaultRange x)) (\<lambda>b. Inr (if b then acc else acc @ [r]))
      else Inr (acc @ [r]))"

text \<open>The loop that aggregates the ranges: \<open>il\<close> are the stripes that wait to be merged, \<open>acc\<close> the ranges so far.\<close>

fun aggregate :: "'a base_xbar_scheme \<Rightarrow> addr_range list \<Rightarrow> addr_range list \<Rightarrow> addr_range list \<Rightarrow> addr_range list res" where
  "aggregate x [] il acc =
     (if il \<noteq> [] then bindR (AddrRange_merge il) (\<lambda>r. keep_range x r acc) else Inr acc)"
| "aggregate x (r # rs) il acc =
     (if interleaved r then
        (if il \<noteq> [] \<and> \<not> mergesWith (last il) r
         then bindR (AddrRange_merge il) (\<lambda>mr. bindR (keep_range x mr acc) (\<lambda>acc'. aggregate x rs [r] acc'))
         else aggregate x rs (il @ [r]) acc)
      else bindR (keep_range x r acc) (\<lambda>acc'. aggregate x rs il acc'))"

fun check_default :: "addr_range \<Rightarrow> addr_range list \<Rightarrow> unit res" where
  "check_default d [] = Inr ()"
| "check_default d (r # rs) =
     bindR (intersects r d) (\<lambda>b.
       if b then bindR (isSubset r d) (\<lambda>sub. if sub then check_default d rs else Inl (Fatal ''intersects the default range''))
       else check_default d rs)"

text \<open>\<open>recvRangeChange\<close>: \<open>ranges\<close> is what the peer of the port answers, the flag tells whether the masters are notified.\<close>

definition update_map :: "nat \<Rightarrow> addr_range list \<Rightarrow> 'a base_xbar_scheme \<Rightarrow> 'a base_xbar_scheme res" where
  "update_map i ranges x =
     (if defaultPortID x = Some i then
        (if useDefaultRange x
         then (case ranges of [r] \<Rightarrow> Inr (x\<lparr>defaultRange := r\<rparr>) | _ \<Rightarrow> Inl (Fatal ''may only have a single default range''))
         else Inr x)
      else bindR (add_ranges i ranges (filter (\<lambda>e. snd e \<noteq> i) (portMap x))) (\<lambda>m. Inr (x\<lparr>portMap := m\<rparr>)))"

definition update_ranges :: "'a base_xbar_scheme \<Rightarrow> 'a base_xbar_scheme res" where
  "update_ranges x =
     bindR (if useDefaultRange x
            then (case defaultPortID x of
                    None \<Rightarrow> Inl OutOfRange
                  | Some d \<Rightarrow>
                      if d < length (gotAddrRanges x) \<and> gotAddrRanges x ! d then Inr [defaultRange x]
                      else Inl (Fatal ''uses default range, but none provided''))
            else Inr []) (\<lambda>acc.
     bindR (aggregate x (map fst (portMap x)) [] acc) (\<lambda>rs.
     bindR (if useDefaultRange x then check_default (defaultRange x) rs else Inr ()) (\<lambda>_. Inr (x\<lparr>xbarRanges := rs\<rparr>))))"

definition recvRangeChange :: "nat \<Rightarrow> addr_range list \<Rightarrow> 'a base_xbar_scheme \<Rightarrow> (bool \<times> 'a base_xbar_scheme) res" where
  "recvRangeChange i ranges x =
     (if i \<ge> length (gotAddrRanges x) then Inl OutOfRange
      else
        let got = (gotAddrRanges x)[i := True];
            x1 = x\<lparr>gotAddrRanges := got, gotAllAddrRanges := gotAllAddrRanges x \<or> list_all id got\<rparr> in
        bindR (update_map i ranges x1) (\<lambda>x2.
        bindR (if gotAllAddrRanges x2 then update_ranges x2 else Inr x2) (\<lambda>x3.
          Inr (gotAllAddrRanges x2, clearPortCache x3))))"

definition xb_getAddrRanges :: "'a base_xbar_scheme \<Rightarrow> addr_range list res" where
  "xb_getAddrRanges x = assertR (gotAllAddrRanges x) ''gotAllAddrRanges'' (Inr (xbarRanges x))"

section \<open>Timing accesses\<close>

definition isExpressSnoop :: "packet \<Rightarrow> bool" where
  "isExpressSnoop p = fl_isSet (pk_flags p) EXPRESS_SNOOP"

definition xb_clockEdge :: "Tick \<Rightarrow> u64 \<Rightarrow> 'a base_xbar_scheme \<Rightarrow> (Tick \<times> 'a base_xbar_scheme) res" where
  "xb_clockEdge now n x = bindR (clockEdge (xb_period x) now n (xb_clock x)) (\<lambda>(t, c). Inr (t, x\<lparr>xb_clock := c\<rparr>))"

text \<open>The delays of a packet are 32 bits wide.\<close>

definition calcPacketTiming :: "Tick \<Rightarrow> packet \<Rightarrow> 'a base_xbar_scheme \<Rightarrow> (packet \<times> 'a base_xbar_scheme) res" where
  "calcPacketTiming now p x =
     bindR (xb_clockEdge now 0 x) (\<lambda>(e, x1).
     bindR (if hasData p
            then bindR (getSize p) (\<lambda>n. if width x1 = 0 then Inl DivByZero else Inr ((n + width x1 - 1) div width x1))
            else Inr 0) (\<lambda>dataCycles.
       if firstWordDelay p \<noteq> 0 \<or> lastWordDelay p \<noteq> 0 then Inl (Panic ''Packet already has delay'')
       else
         let offset = e - now in
         Inr (p\<lparr>firstWordDelay := ucast ((headerCycles x1 + 1) * xb_period x1 + offset),
                lastWordDelay := ucast ((headerCycles x1 + ucast dataCycles) * xb_period x1 + offset)\<rparr>, x1)))"

definition req_layer :: "nat \<Rightarrow> 'a base_xbar_scheme \<Rightarrow> layer res" where
  "req_layer i x = (if i < length (reqLayers x) then Inr (reqLayers x ! i) else Inl OutOfRange)"

definition set_req_layer :: "nat \<Rightarrow> layer \<Rightarrow> 'a base_xbar_scheme \<Rightarrow> 'a base_xbar_scheme" where
  "set_req_layer i l x = x\<lparr>reqLayers := (reqLayers x)[i := l]\<rparr>"

definition resp_layer :: "nat \<Rightarrow> 'a base_xbar_scheme \<Rightarrow> layer res" where
  "resp_layer i x = (if i < length (respLayers x) then Inr (respLayers x ! i) else Inl OutOfRange)"

definition set_resp_layer :: "nat \<Rightarrow> layer \<Rightarrow> 'a base_xbar_scheme \<Rightarrow> 'a base_xbar_scheme" where
  "set_resp_layer i l x = x\<lparr>respLayers := (respLayers x)[i := l]\<rparr>"

text \<open>The part of \<open>recvTimingReq\<close> once the destination is known: \<open>send d\<close> is the component behind master port \<open>d\<close>.\<close>

definition xb_forward ::
    "(nat \<Rightarrow> 's timing_peer) \<Rightarrow> Tick \<Rightarrow> nat \<Rightarrow> nat \<Rightarrow> packet \<Rightarrow> 'a base_xbar_scheme \<times> 's \<Rightarrow> (bool \<times> packet \<times> 'a base_xbar_scheme \<times> 's) res" where
  "xb_forward send now src d p xs =
     (case xs of (x, s) \<Rightarrow>
        bindR (req_layer d x) (\<lambda>l.
        bindR (tryTiming src l) (\<lambda>(free, l1).
          let x1 = set_req_layer d l1 x in
          if \<not> free then Inr (False, p, x1, s)
          else
            bindR (calcPacketTiming now (p\<lparr>pk_src := int src\<rparr>) x1) (\<lambda>(p2, x2).
            bindR (send d s p2) (\<lambda>(ok, p3, s').
              if \<not> ok then
                assertR (\<not> memInhibitAsserted p3) ''!pkt->memInhibitAsserted()''
                  (bindR (xb_clockEdge now (headerCycles x2) x2) (\<lambda>(t, x3).
                   bindR (failedTiming now src t l1) (\<lambda>l2.
                     Inr (False, p3\<lparr>firstWordDelay := 0, lastWordDelay := 0\<rparr>, set_req_layer d l2 x3, s'))))
              else
                bindR (succeededTiming now (ucast (lastWordDelay p2) + now) l1) (\<lambda>l2.
                  Inr (True, p3, set_req_layer d l2 x2, s')))))))"

definition nc_recvTimingReq ::
    "(nat \<Rightarrow> 's timing_peer) \<Rightarrow> Tick \<Rightarrow> nat \<Rightarrow> packet \<Rightarrow> 'a base_xbar_scheme \<times> 's \<Rightarrow> (bool \<times> packet \<times> 'a base_xbar_scheme \<times> 's) res" where
  "nc_recvTimingReq send now src p xs =
     (case xs of (x, s) \<Rightarrow>
        if src \<ge> length (respLayers x) then Inl OutOfRange
        else if isExpressSnoop p then Inr (True, p, x, s)
        else bindR (getAddr p) (\<lambda>a. bindR (findPort a x) (\<lambda>(d, x1). xb_forward send now src d p (x1, s))))"

definition nc_recvTimingResp ::
    "(nat \<Rightarrow> 's timing_peer) \<Rightarrow> Tick \<Rightarrow> nat \<Rightarrow> packet \<Rightarrow> 'a base_xbar_scheme \<times> 's \<Rightarrow> (bool \<times> packet \<times> 'a base_xbar_scheme \<times> 's) res" where
  "nc_recvTimingResp send now mport p xs =
     (case xs of (x, s) \<Rightarrow>
        if mport \<ge> length (reqLayers x) then Inl OutOfRange
        else
          bindR (getDest p) (\<lambda>dest.
            if dest < 0 then Inl OutOfRange
            else
              let d = nat dest in
              bindR (resp_layer d x) (\<lambda>l.
              bindR (tryTiming mport l) (\<lambda>(free, l1).
                let x1 = set_resp_layer d l1 x in
                if \<not> free then Inr (False, p, x1, s)
                else
                  bindR (calcPacketTiming now p x1) (\<lambda>(p2, x2).
                  bindR (send d s p2) (\<lambda>(ok, p3, s').
                    assertR ok ''success''
                      (bindR (succeededTiming now (ucast (lastWordDelay p2) + now) l1) (\<lambda>l2.
                         Inr (True, p3, set_resp_layer d l2 x2, s')))))))))"

text \<open>
  \<open>retryWaiting\<close> of a request layer inside the crossbar: the port that is told to retry sends \<open>resend\<close>, if it sends at
  once. The virtual \<open>recvTimingReq\<close> is the argument \<open>recv\<close>.
\<close>

definition xb_retryWaiting ::
    "(nat \<Rightarrow> packet \<Rightarrow> 'a base_xbar_scheme \<times> 's \<Rightarrow> (bool \<times> packet \<times> 'a base_xbar_scheme \<times> 's) res) \<Rightarrow> Tick \<Rightarrow> packet option \<Rightarrow> nat \<Rightarrow>
     'a base_xbar_scheme \<times> 's \<Rightarrow> (nat option \<times> 'a base_xbar_scheme \<times> 's) res" where
  "xb_retryWaiting recv now resend i xs =
     (case xs of (x, s) \<Rightarrow>
        bindR (req_layer i x) (\<lambda>l.
        bindR (retry_begin l) (\<lambda>(src, l1).
        bindR (case resend of
                 None \<Rightarrow> Inr (set_req_layer i l1 x, s)
               | Some p \<Rightarrow> bindR (recv src p (set_req_layer i l1 x, s)) (\<lambda>(_, _, x2, s2). Inr (x2, s2))) (\<lambda>(x2, s2).
        bindR (req_layer i x2) (\<lambda>l2.
        bindR (retry_end (xb_period x2) now (xb_clock x2, l2)) (\<lambda>(c, l3).
          Inr (Some src, set_req_layer i l3 (x2\<lparr>xb_clock := c\<rparr>), s2)))))))"

definition xb_releaseLayer ::
    "(nat \<Rightarrow> packet \<Rightarrow> 'a base_xbar_scheme \<times> 's \<Rightarrow> (bool \<times> packet \<times> 'a base_xbar_scheme \<times> 's) res) \<Rightarrow> Tick \<Rightarrow> packet option \<Rightarrow> nat \<Rightarrow>
     'a base_xbar_scheme \<times> 's \<Rightarrow> (nat option \<times> 'a base_xbar_scheme \<times> 's) res" where
  "xb_releaseLayer recv now resend i xs =
     (case xs of (x, s) \<Rightarrow>
        bindR (req_layer i x) (\<lambda>l.
        bindR (release_begin l) (\<lambda>(r, l1).
          let x1 = set_req_layer i l1 x in
          if r then xb_retryWaiting recv now resend i (x1, s) else Inr (None, x1, s))))"

definition nc_recvRetry ::
    "(nat \<Rightarrow> packet \<Rightarrow> 'a base_xbar_scheme \<times> 's \<Rightarrow> (bool \<times> packet \<times> 'a base_xbar_scheme \<times> 's) res) \<Rightarrow> Tick \<Rightarrow> packet option \<Rightarrow> nat \<Rightarrow>
     'a base_xbar_scheme \<times> 's \<Rightarrow> (nat option \<times> 'a base_xbar_scheme \<times> 's) res" where
  "nc_recvRetry recv now resend i xs =
     (case xs of (x, s) \<Rightarrow>
        bindR (req_layer i x) (\<lambda>l.
        bindR (recvRetry_begin l) (\<lambda>(r, l1).
          let x1 = set_req_layer i l1 x in
          if r then xb_retryWaiting recv now resend i (x1, s) else Inr (None, x1, s))))"

section \<open>Atomic and functional accesses\<close>

definition nc_recvAtomic ::
    "(nat \<Rightarrow> 's atomic_peer) \<Rightarrow> packet \<Rightarrow> 'a base_xbar_scheme \<times> 's \<Rightarrow> (Tick \<times> packet \<times> 'a base_xbar_scheme \<times> 's) res" where
  "nc_recvAtomic send p xs =
     (case xs of (x, s) \<Rightarrow>
        bindR (getAddr p) (\<lambda>a.
        bindR (findPort a x) (\<lambda>(d, x1).
        bindR (send d s p) (\<lambda>(lat, p', s'). Inr (lat, p'\<lparr>lastWordDelay := ucast lat\<rparr>, x1, s')))))"

definition nc_recvFunctional ::
    "(nat \<Rightarrow> 's functional_peer) \<Rightarrow> packet \<Rightarrow> 'a base_xbar_scheme \<times> 's \<Rightarrow> (packet \<times> 'a base_xbar_scheme \<times> 's) res" where
  "nc_recvFunctional send p xs =
     (case xs of (x, s) \<Rightarrow>
        bindR (getAddr p) (\<lambda>a.
        bindR (findPort a x) (\<lambda>(d, x1).
        bindR (send d s p) (\<lambda>(p', s'). Inr (p', x1, s')))))"

definition nc_drain :: "'a base_xbar_scheme \<Rightarrow> nat \<times> 'a base_xbar_scheme" where
  "nc_drain x =
     (let rq = map layer_drain (reqLayers x); rs = map layer_drain (respLayers x) in
      (sum_list (map fst rq) + sum_list (map fst rs), x\<lparr>reqLayers := map snd rq, respLayers := map snd rs\<rparr>))"

section \<open>The distributor over the serial links\<close>

record load_distributor = base_xbar +
  N_MASTER_PORTS :: nat
  ROUND_ROBIN_COUNTER :: nat

definition LoadDistributor :: "Tick \<Rightarrow> u64 \<Rightarrow> u32 \<Rightarrow> bool \<Rightarrow> nat \<Rightarrow> bool \<Rightarrow> nat \<Rightarrow> load_distributor res" where
  "LoadDistributor per hc w use_default nm dflt ns =
     assertR (ns = 1) ''port_slave_connection_count == 1''
       (Inr (base_xbar.extend (NoncoherentXBar per hc w use_default nm dflt ns) (load_distributor.fields nm 0)))"

definition rotate_counter :: "load_distributor \<Rightarrow> nat \<times> load_distributor" where
  "rotate_counter x =
     (let n = ROUND_ROBIN_COUNTER x + 1 in
      (ROUND_ROBIN_COUNTER x, x\<lparr>ROUND_ROBIN_COUNTER := (if n = N_MASTER_PORTS x then 0 else n)\<rparr>))"

definition ld_recvRangeChange :: "nat \<Rightarrow> addr_range list \<Rightarrow> load_distributor \<Rightarrow> (bool \<times> load_distributor) res" where
  "ld_recvRangeChange i ranges x =
     (if i = 0 then recvRangeChange i ranges (x\<lparr>gotAllAddrRanges := True\<rparr>)
      else if i < length (gotAddrRanges x) then Inr (False, x\<lparr>gotAddrRanges := (gotAddrRanges x)[i := True]\<rparr>)
      else Inl OutOfRange)"

definition ld_recvTimingReq ::
    "(nat \<Rightarrow> 's timing_peer) \<Rightarrow> Tick \<Rightarrow> nat \<Rightarrow> packet \<Rightarrow> load_distributor \<times> 's \<Rightarrow> (bool \<times> packet \<times> load_distributor \<times> 's) res" where
  "ld_recvTimingReq send now src p xs =
     (case xs of (x, s) \<Rightarrow>
        if src \<ge> length (respLayers x) then Inl OutOfRange
        else if isExpressSnoop p then Inr (True, p, x, s)
        else case rotate_counter x of (d, x1) \<Rightarrow> xb_forward send now src d p (x1, s))"

section \<open>Routing is by the address map\<close>

text \<open>The reference: the port whose ranges hold the address, or the default port.\<close>

definition route :: "Addr \<Rightarrow> 'a base_xbar_scheme \<Rightarrow> nat res" where
  "route a x =
     (case List.find (\<lambda>e. contains (fst e) a) (portMap x) of Some e \<Rightarrow> Inr (snd e) | None \<Rightarrow> default_port a x)"

definition cache_ok :: "'a base_xbar_scheme \<Rightarrow> bool" where
  "cache_ok x \<longleftrightarrow> (\<forall>e \<in> set (portCache x). pc_valid e \<longrightarrow> (pc_range e, pc_id e) \<in> set (portMap x))"

lemma owner_unique:
  assumes "map_ok m" "e \<in> set m" "contains (fst e) a"
  shows "List.find (\<lambda>e. contains (fst e) a) m = Some e"
proof -
  obtain i where i: "i < length m" "m ! i = e" using assms(2) by (auto simp: in_set_conv_nth)
  have "\<not> contains (fst (m ! j)) a" if "j < i" for j
    using that i assms(1,3) map_ok_nth(2) [OF assms(1) i(1) that] range_before_disjoint by blast
  then show ?thesis using i assms(3) by (auto simp: find_Some_iff)
qed

lemma find_addr_find:
  assumes "map_ok m"
  shows "find_addr a m = Inr None \<and> List.find (\<lambda>e. contains (fst e) a) m = None \<or>
    (\<exists>i < length m. find_addr a m = Inr (Some i) \<and> List.find (\<lambda>e. contains (fst e) a) m = Some (m ! i))"
proof (cases "\<exists>j < length m. contains (fst (m ! j)) a")
  case True
  then obtain j where "j < length m" "contains (fst (m ! j)) a" by blast
  then show ?thesis using find_addr_found [OF assms] owner_unique [OF assms, of "m ! j" a] by auto
next
  case False
  then show ?thesis using find_addr_none [of m a] by (auto simp: find_None_iff in_set_conv_nth)
qed

lemma checkPortCache_route:
  assumes "cache_ok x" "map_ok (portMap x)" "checkPortCache a x = Some d"
  shows "route a x = Inr d"
proof -
  obtain e where e: "e \<in> set (portCache x)" "pc_valid e" "contains (pc_range e) a" "d = pc_id e"
    using assms(3) by (auto simp: checkPortCache_def find_Some_iff intro: nth_mem)
  then have "(pc_range e, d) \<in> set (portMap x)" using assms(1) by (auto simp: cache_ok_def)
  from owner_unique [OF assms(2) this, of a] show ?thesis using e(3) by (simp add: route_def)
qed

lemma cache_ok_update: "cache_ok x \<Longrightarrow> (r, d) \<in> set (portMap x) \<Longrightarrow> cache_ok (updatePortCache d r x)"
  by (auto simp: cache_ok_def updatePortCache_def dest: in_set_takeD)

lemma findPort_cases:
  assumes "gotAllAddrRanges x" "map_ok (portMap x)" "cache_ok x"
  shows "(\<forall>e. route a x = Inl e \<longrightarrow> findPort a x = Inl e) \<and>
    (\<forall>d. route a x = Inr d \<longrightarrow> (\<exists>c. findPort a x = Inr (d, x\<lparr>portCache := c\<rparr>) \<and> cache_ok (x\<lparr>portCache := c\<rparr>)))"
proof (cases "checkPortCache a x")
  case None
  from find_addr_find [OF assms(2), of a] show ?thesis
  proof (elim disjE exE conjE)
    fix i assume i: "i < length (portMap x)" "find_addr a (portMap x) = Inr (Some i)"
      "List.find (\<lambda>e. contains (fst e) a) (portMap x) = Some (portMap x ! i)"
    obtain r d where rd: "portMap x ! i = (r, d)" by force
    then have "(r, d) \<in> set (portMap x)" using i(1) by (metis nth_mem)
    then have "cache_ok (updatePortCache d r x)" by (rule cache_ok_update [OF assms(3)])
    then show ?thesis using None i rd assms(1) by (auto simp: findPort_def route_def updatePortCache_def)
  next
    assume "find_addr a (portMap x) = Inr None" "List.find (\<lambda>e. contains (fst e) a) (portMap x) = None"
    then show ?thesis using None assms(1,3) by (auto simp: findPort_def route_def intro!: exI [of _ "portCache x"])
  qed
next
  case (Some d)
  then show ?thesis using checkPortCache_route [OF assms(3,2) Some] assms(1,3)
    by (auto simp: findPort_def intro!: exI [of _ "portCache x"])
qed

lemma cache_ok_clear [simp]: "cache_ok (clearPortCache x)"
  by (auto simp: cache_ok_def clearPortCache_def)

text \<open>What the peers of the master ports announce: plain ranges, apart from each other and from those of the other ports.\<close>

definition plain_ranges :: "nat \<Rightarrow> addr_range list \<Rightarrow> 'a base_xbar_scheme \<Rightarrow> bool" where
  "plain_ranges i rs x \<longleftrightarrow> (\<forall>r \<in> set rs. range_ok r \<and> \<not> interleaved r) \<and> sorted_wrt range_apart rs \<and>
     (\<forall>e \<in> set (portMap x). snd e \<noteq> i \<longrightarrow> (\<forall>r \<in> set rs. range_apart (fst e) r))"

definition route_inv :: "'a base_xbar_scheme \<Rightarrow> bool" where
  "route_inv x \<longleftrightarrow> map_ok (portMap x) \<and> cache_ok x"

lemma map_ok_filter: "map_ok m \<Longrightarrow> map_ok (filter P m)"
  by (auto simp: map_ok_def sorted_wrt_map sorted_wrt_filter)

lemma add_ranges_ok:
  "map_ok m \<Longrightarrow> \<forall>r \<in> set rs. range_ok r \<and> \<not> interleaved r \<Longrightarrow> sorted_wrt range_apart rs \<Longrightarrow>
     \<forall>e \<in> set m. \<forall>r \<in> set rs. range_apart (fst e) r \<Longrightarrow>
     \<exists>m'. add_ranges i rs m = Inr m' \<and> map_ok m' \<and> set m' = set m \<union> (\<lambda>r. (r, i)) ` set rs"
proof (induction rs arbitrary: m)
  case (Cons r rs)
  have p: "range_ok r" "\<not> interleaved r" "\<forall>e \<in> set m. range_apart (fst e) r" using Cons.prems by auto
  note ins = map_insert_apart [OF Cons.prems(1) p, of i]
  have "\<exists>m'. add_ranges i rs (tree_insert r i m) = Inr m' \<and> map_ok m' \<and>
      set m' = set (tree_insert r i m) \<union> (\<lambda>r. (r, i)) ` set rs"
    using Cons.prems(2-4) ins(2,3) by (intro Cons.IH) auto
  then show ?case using ins by auto
qed simp

lemma update_map_ok:
  assumes "map_ok (portMap x)" "plain_ranges i rs x" "update_map i rs x = Inr x'"
  shows "map_ok (portMap x')"
proof -
  have "\<exists>m'. add_ranges i rs (filter (\<lambda>e. snd e \<noteq> i) (portMap x)) = Inr m' \<and> map_ok m' \<and>
      set m' = set (filter (\<lambda>e. snd e \<noteq> i) (portMap x)) \<union> (\<lambda>r. (r, i)) ` set rs"
    using assms(1,2) by (intro add_ranges_ok map_ok_filter) (auto simp: plain_ranges_def)
  then show ?thesis using assms(1,3) by (auto simp: update_map_def split: if_splits list.splits)
qed

lemma update_ranges_frame: "update_ranges x = Inr x' \<Longrightarrow> portMap x' = portMap x"
  by (auto simp: update_ranges_def)

lemma recvRangeChange_inv:
  assumes "recvRangeChange i rs x = Inr (b, x')" "map_ok (portMap x)" "plain_ranges i rs x"
  shows "route_inv x'"
proof -
  let ?x1 = "x\<lparr>gotAddrRanges := (gotAddrRanges x)[i := True],
    gotAllAddrRanges := gotAllAddrRanges x \<or> list_all id ((gotAddrRanges x)[i := True])\<rparr>"
  obtain x2 x3 where x2: "update_map i rs ?x1 = Inr x2" and x3: "(if gotAllAddrRanges x2 then update_ranges x2 else Inr x2) = Inr x3"
    and x': "x' = clearPortCache x3"
    using assms(1) by (auto simp: recvRangeChange_def Let_def split: if_splits)
  have pm: "portMap x3 = portMap x2" using x3 by (auto dest: update_ranges_frame split: if_splits)
  have "map_ok (portMap x2)"
    using update_map_ok [OF _ _ x2] assms(2,3) by (simp add: plain_ranges_def)
  then show ?thesis using pm x' by (simp add: route_inv_def) (simp add: clearPortCache_def)
qed

lemma route_inv_frame:
  "portMap x' = portMap x \<Longrightarrow> portCache x' = portCache x \<Longrightarrow> route_inv x' = route_inv x"
  by (simp add: route_inv_def cache_ok_def)

lemma findPort_inv: "findPort a x = Inr (d, x') \<Longrightarrow> route_inv x \<Longrightarrow> route_inv x' \<and> route a x = Inr d"
  using findPort_cases [of x a] by (cases "route a x") (auto simp: findPort_def route_inv_def)

lemma calcPacketTiming_frame:
  assumes "calcPacketTiming now p x = Inr (p', x')"
  obtains c where "x' = x\<lparr>xb_clock := c\<rparr>" "pk_src p' = pk_src p" "pk_dest p' = pk_dest p" "pk_cmd p' = pk_cmd p"
    "pk_addr p' = pk_addr p" "pk_data p' = pk_data p"
  using assms by (auto simp: calcPacketTiming_def xb_clockEdge_def Let_def split: if_splits)

text \<open>What a layer's part of a request leaves: the routing state, and the layers of the other ports.\<close>

lemma xb_forward_accepted:
  assumes "xb_forward send now src d p (x, s) = Inr (True, p3, x', s')"
  obtains p2 l2 c where "send d s p2 = Inr (True, p3, s')" "pk_src p2 = int src" "pk_addr p2 = pk_addr p" "pk_data p2 = pk_data p"
    "pk_cmd p2 = pk_cmd p" "d < length (reqLayers x)" "x' = set_req_layer d l2 (x\<lparr>xb_clock := c\<rparr>)"
proof -
  obtain l1 where l1: "d < length (reqLayers x)" "tryTiming src (reqLayers x ! d) = Inr (True, l1)"
    using assms by (auto simp: xb_forward_def req_layer_def Let_def split: if_splits)
  obtain p2 x2 where p2: "calcPacketTiming now (p\<lparr>pk_src := int src\<rparr>) (set_req_layer d l1 x) = Inr (p2, x2)"
    and s: "send d s p2 = Inr (True, p3, s')"
    and l2: "\<exists>l2. succeededTiming now (ucast (lastWordDelay p2) + now) l1 = Inr l2 \<and> x' = set_req_layer d l2 x2"
    using assms l1 by (auto simp: xb_forward_def req_layer_def Let_def split: if_splits)
  obtain l2 where l2: "x' = set_req_layer d l2 x2" using l2 by blast
  show ?thesis
  proof (rule calcPacketTiming_frame [OF p2])
    fix c assume "x2 = set_req_layer d l1 x\<lparr>xb_clock := c\<rparr>" "pk_src p2 = pk_src (p\<lparr>pk_src := int src\<rparr>)"
      "pk_cmd p2 = pk_cmd (p\<lparr>pk_src := int src\<rparr>)" "pk_addr p2 = pk_addr (p\<lparr>pk_src := int src\<rparr>)"
      "pk_data p2 = pk_data (p\<lparr>pk_src := int src\<rparr>)"
    then show ?thesis using that [of p2 l2 c] s l1(1) l2 by (simp add: set_req_layer_def)
  qed
qed

lemma xb_forward_frame:
  assumes "xb_forward send now src d p (x, s) = Inr (b, p3, x', s')"
  shows "portMap x' = portMap x \<and> portCache x' = portCache x"
proof -
  have c: "calcPacketTiming now q y = Inr (q', y') \<Longrightarrow> portMap y' = portMap y \<and> portCache y' = portCache y" for q y q' y'
    by (auto elim: calcPacketTiming_frame)
  have e: "xb_clockEdge now n y = Inr (t, y') \<Longrightarrow> portMap y' = portMap y \<and> portCache y' = portCache y" for n y t y'
    by (auto simp: xb_clockEdge_def)
  show ?thesis using assms
    by (auto simp: xb_forward_def set_req_layer_def assertR_def Let_def split: if_splits dest!: c e)
qed

lemma route_inv_set [simp]:
  "route_inv (set_req_layer i l x) = route_inv x" "route_inv (x\<lparr>xb_clock := c\<rparr>) = route_inv x"
  by (simp_all add: route_inv_def cache_ok_def set_req_layer_def)

lemma nc_recvTimingReq_inv:
  assumes "nc_recvTimingReq send now src p (x, s) = Inr (b, p', x', s')" "route_inv x"
  shows "route_inv x'"
proof (cases "isExpressSnoop p")
  case False
  then obtain a d x1 where "findPort a x = Inr (d, x1)" "xb_forward send now src d p (x1, s) = Inr (b, p', x', s')"
    using assms(1) by (auto simp: nc_recvTimingReq_def split: if_splits)
  then show ?thesis using findPort_inv [OF _ assms(2)] xb_forward_frame route_inv_frame by metis
qed (use assms in \<open>auto simp: nc_recvTimingReq_def split: if_splits\<close>)

lemma nc_recvTimingResp_delivers:
  assumes "nc_recvTimingResp send now m q (x, s) = Inr (b, q', x', s')"
  shows "portMap x' = portMap x \<and> portCache x' = portCache x \<and>
    (b \<longrightarrow> (\<exists>q2. send (nat (pk_dest q)) s q2 = Inr (True, q', s') \<and> pk_cmd q2 = pk_cmd q \<and> pk_addr q2 = pk_addr q \<and> pk_data q2 = pk_data q))"
proof -
  have c: "calcPacketTiming now p y = Inr (p', y') \<Longrightarrow>
      portMap y' = portMap y \<and> portCache y' = portCache y \<and> pk_cmd p' = pk_cmd p \<and> pk_addr p' = pk_addr p \<and> pk_data p' = pk_data p" for p y p' y'
    by (auto elim: calcPacketTiming_frame)
  show ?thesis using assms
    by (auto simp: nc_recvTimingResp_def getDest_def set_resp_layer_def assertR_def Let_def split: if_splits dest!: c) blast
qed

lemma retry_recv_inv:
  assumes "xb_retryWaiting (nc_recvTimingReq send now) now resend i (x, s) = Inr (told, x', s')" "route_inv x"
  shows "route_inv x'"
  using assms by (auto simp: xb_retryWaiting_def split: option.splits dest!: nc_recvTimingReq_inv)

text \<open>The crossbar from its construction on, with any sequence of its operations and any peers.\<close>

inductive xb_reachable :: "base_xbar \<Rightarrow> bool" where
  start: "xb_reachable (NoncoherentXBar per hc w ud nm dflt ns)"
| ranges: "xb_reachable x \<Longrightarrow> plain_ranges i rs x \<Longrightarrow> recvRangeChange i rs x = Inr (b, x') \<Longrightarrow> xb_reachable x'"
| request: "xb_reachable x \<Longrightarrow> nc_recvTimingReq send now src p (x, ()) = Inr (ok, p', x', s') \<Longrightarrow> xb_reachable x'"
| response: "xb_reachable x \<Longrightarrow> nc_recvTimingResp send now m p (x, ()) = Inr (ok, p', x', s') \<Longrightarrow> xb_reachable x'"
| atomic: "xb_reachable x \<Longrightarrow> nc_recvAtomic asend p (x, ()) = Inr (lat, p', x', s') \<Longrightarrow> xb_reachable x'"
| functional: "xb_reachable x \<Longrightarrow> nc_recvFunctional fsend p (x, ()) = Inr (p', x', s') \<Longrightarrow> xb_reachable x'"
| release: "xb_reachable x \<Longrightarrow> xb_releaseLayer (nc_recvTimingReq send now) now resend i (x, ()) = Inr (told, x', s') \<Longrightarrow> xb_reachable x'"
| retry: "xb_reachable x \<Longrightarrow> nc_recvRetry (nc_recvTimingReq send now) now resend i (x, ()) = Inr (told, x', s') \<Longrightarrow> xb_reachable x'"
| drain: "xb_reachable x \<Longrightarrow> xb_reachable (snd (nc_drain x))"

lemma xb_reachable_inv: "xb_reachable x \<Longrightarrow> route_inv x"
proof (induction rule: xb_reachable.induct)
  case (start per hc w ud nm dflt ns)
  then show ?case by (simp add: NoncoherentXBar_def route_inv_def map_ok_def cache_ok_def Let_def)
next
  case (ranges x i rs b x')
  then show ?case using recvRangeChange_inv [of i rs x b x'] by (simp add: route_inv_def)
next
  case (response x send now m p ok p' x' s')
  then show ?case using nc_recvTimingResp_delivers [OF response(2)] route_inv_frame [of x' x] by simp
next
  case (atomic x asend p lat p' x' s')
  then show ?case by (auto simp: nc_recvAtomic_def dest: findPort_inv)
next
  case (functional x fsend p p' x' s')
  then show ?case by (auto simp: nc_recvFunctional_def dest: findPort_inv)
next
  case (release x send now resend i told x' s')
  then show ?case by (auto simp: xb_releaseLayer_def Let_def split: if_splits dest!: retry_recv_inv)
next
  case (retry x send now resend i told x' s')
  then show ?case by (auto simp: nc_recvRetry_def Let_def split: if_splits dest!: retry_recv_inv)
next
  case (drain x)
  then show ?case using route_inv_frame [of "snd (nc_drain x)" x] by (simp add: nc_drain_def Let_def)
qed (rule nc_recvTimingReq_inv)

text \<open>C27: in every state a crossbar can reach, with masters and memories that answer as they like and memories whose
  plain ranges are disjoint, the port that is found through the cache of the last routes is the one of the reference:
  the port whose range holds the address, or else the default port, or else the same error. A lookup changes no route.\<close>

theorem findPort_is_route:
  assumes "xb_reachable x" "gotAllAddrRanges x"
  shows "(\<forall>e. route a x = Inl e \<longrightarrow> findPort a x = Inl e) \<and>
    (\<forall>d. route a x = Inr d \<longrightarrow> (\<exists>x'. findPort a x = Inr (d, x') \<and> (\<forall>b. route b x' = route b x)))"
proof -
  have i: "map_ok (portMap x)" "cache_ok x" using xb_reachable_inv [OF assms(1)] by (simp_all add: route_inv_def)
  have "route b (x\<lparr>portCache := c\<rparr>) = route b x" for b c by (simp add: route_def default_port_def split: option.split)
  then show ?thesis using findPort_cases [OF assms(2) i] by blast
qed

definition ex_xbar :: base_xbar where
  "ex_xbar = (NoncoherentXBar 1000 1 16 False 2 False 2)
     \<lparr>portMap := [(mkAddrRange 0 99, 0), (mkAddrRange 100 199, 1)], xbarRanges := [mkAddrRange 0 99, mkAddrRange 100 199],
      gotAddrRanges := [True, True], gotAllAddrRanges := True\<rparr>"

lemma plain_ranges_one:
  "plain_ranges i [mkAddrRange a b] x \<longleftrightarrow> a \<le> b \<and> (\<forall>e \<in> set (portMap x). snd e \<noteq> i \<longrightarrow> range_apart (fst e) (mkAddrRange a b))"
  by (auto simp: plain_ranges_def range_ok_def mkAddrRange_def range_valid_def interleaved_def)

lemma replicate_small: "replicate 2 v = [v, v]" "replicate 3 v = [v, v, v]"
  by (simp_all add: numeral_2_eq_2 numeral_3_eq_3)

lemma ex_xbar_reachable: "xb_reachable ex_xbar"
proof -
  let ?x0 = "NoncoherentXBar 1000 1 16 False 2 False 2"
  let ?x1 = "?x0\<lparr>portMap := [(mkAddrRange 0 99, 0)], gotAddrRanges := [True, False]\<rparr>"
  note defs = NoncoherentXBar_def recvRangeChange_def update_map_def update_ranges_def keep_range_def clearPortCache_def
    map_insert_def map_intersect_def find_range_def upper_bound_def range_less_def intersects_def
  have "recvRangeChange 0 [mkAddrRange 0 99] ?x0 = Inr (False, ?x1)"
    by (simp add: defs replicate_small)
  then have 1: "xb_reachable ?x1"
    by (rule xb_reachable.ranges [OF xb_reachable.start, rotated]) (simp add: plain_ranges_one NoncoherentXBar_def Let_def)
  have "recvRangeChange 1 [mkAddrRange 100 199] ?x1 = Inr (True, ex_xbar)"
    by (simp add: defs ex_xbar_def replicate_small mkAddrRange_def interleaved_def)
  then show ?thesis
    by (rule xb_reachable.ranges [OF 1, rotated]) (simp add: plain_ranges_one, simp add: range_apart_def mkAddrRange_def)
qed

theorem findPort_is_route_witness: "\<exists>x'. findPort 150 ex_xbar = Inr (1, x') \<and> (\<forall>b. route b x' = route b ex_xbar)"
proof -
  have "gotAllAddrRanges ex_xbar" by (simp add: ex_xbar_def)
  moreover have "route 150 ex_xbar = Inr 1" by (simp add: route_def ex_xbar_def contains_def mkAddrRange_def interleaved_def)
  ultimately show ?thesis using findPort_is_route [OF ex_xbar_reachable, of 150] by blast
qed

text \<open>C28: a request that the crossbar accepts has been taken by the port of its address, with its command, address and
  data, and has touched the layer of that port only. A response made from it, by whatever kept its source, and accepted
  by the crossbar at any later time, is delivered to the port that the request came from.\<close>

theorem xbar_response_returns:
  assumes "xb_reachable x" "\<not> isExpressSnoop p" "getAddr p = Inr a"
    and "nc_recvTimingReq send now src p (x, s) = Inr (True, p', x', s')"
  shows "\<exists>d p2. route a x = Inr d \<and> send d s p2 = Inr (True, p', s') \<and>
    pk_cmd p2 = pk_cmd p \<and> pk_addr p2 = pk_addr p \<and> pk_data p2 = pk_data p \<and>
    (\<forall>i. i \<noteq> d \<longrightarrow> reqLayers x' ! i = reqLayers x ! i) \<and>
    (\<forall>p3 q deliver now' m y t q' y' t'. pk_src p3 = pk_src p2 \<longrightarrow> makeResponse p3 = Inr q \<longrightarrow>
       nc_recvTimingResp deliver now' m q (y, t) = Inr (True, q', y', t') \<longrightarrow>
       (\<exists>q2. deliver src t q2 = Inr (True, q', t') \<and> pk_cmd q2 = pk_cmd q \<and> pk_addr q2 = pk_addr q \<and> pk_data q2 = pk_data q))"
proof -
  obtain d x1 where f: "findPort a x = Inr (d, x1)" "xb_forward send now src d p (x1, s) = Inr (True, p', x', s')"
    using assms by (auto simp: nc_recvTimingReq_def split: if_splits)
  have r: "route a x = Inr d" using findPort_inv [OF f(1) xb_reachable_inv [OF assms(1)]] by simp
  have l: "reqLayers x1 = reqLayers x"
    using f(1) by (auto simp: findPort_def assertR_def updatePortCache_def split: if_splits option.splits prod.splits)
  show ?thesis
  proof (rule xb_forward_accepted [OF f(2)])
    fix p2 l2 c
    assume p2: "send d s p2 = Inr (True, p', s')" "pk_src p2 = int src" "pk_addr p2 = pk_addr p" "pk_data p2 = pk_data p"
      "pk_cmd p2 = pk_cmd p" "x' = set_req_layer d l2 (x1\<lparr>xb_clock := c\<rparr>)"
    have "\<forall>i. i \<noteq> d \<longrightarrow> reqLayers x' ! i = reqLayers x ! i" using p2(6) l by (simp add: set_req_layer_def)
    moreover have "\<exists>q2. deliver src t q2 = Inr (True, q', t') \<and> pk_cmd q2 = pk_cmd q \<and> pk_addr q2 = pk_addr q \<and> pk_data q2 = pk_data q"
      if "pk_src p3 = pk_src p2" "makeResponse p3 = Inr q" "nc_recvTimingResp deliver now' m q (y, t) = Inr (True, q', y', t')"
      for p3 q deliver now' m and y :: "'c base_xbar_scheme" and t :: 'd and q' y' t'
    proof -
      have "pk_dest q = int src" using that(1,2) p2(2) by (auto simp: makeResponse_def assertR_def split: if_splits)
      then show ?thesis using nc_recvTimingResp_delivers [OF that(3)] by simp
    qed
    ultimately show ?thesis using r p2 by blast
  qed
qed

definition ex_peer :: "nat \<Rightarrow> nat list timing_peer" where
  "ex_peer d s p = Inr (True, p, s @ [d])"

theorem xbar_response_returns_witness:
  "\<exists>p' x'. nc_recvTimingReq ex_peer 1000 1 (plain_packet ReadReq 150 [0]) (ex_xbar, []) = Inr (True, p', x', [1])"
proof -
  let ?p = "plain_packet ReadReq 150 [0]"
  have a: "\<not> isExpressSnoop ?p" "getAddr ?p = Inr 150"
    by (simp_all add: isExpressSnoop_def plain_packet_def getAddr_def fl_defs pkt_flag_defs)
  have "\<exists>p' x' s'. nc_recvTimingReq ex_peer 1000 1 ?p (ex_xbar, []) = Inr (True, p', x', s')"
    using a by (simp add: nc_recvTimingReq_def findPort_def checkPortCache_def ex_xbar_def NoncoherentXBar_def replicate_small
        find_addr_def find_range_def upper_bound_def range_less_def RangeSize_def intersects_def contains_def mkAddrRange_def interleaved_def
        updatePortCache_def xb_forward_def req_layer_def set_req_layer_def Layer_def layer_defs calcPacketTiming_def xb_clockEdge_def
        clockEdge_def co_update_def divCeil_def ClockedObject_def schedule_event_def ex_peer_def hasData_def cmd_defs plain_packet_def Packet_blank_def)
  then obtain p' x' s' where r: "nc_recvTimingReq ex_peer 1000 1 ?p (ex_xbar, []) = Inr (True, p', x', s')" by blast
  have "route 150 ex_xbar = Inr 1" by (simp add: route_def ex_xbar_def contains_def mkAddrRange_def interleaved_def)
  then have "\<exists>p2. ex_peer 1 [] p2 = Inr (True, p', s')"
    using xbar_response_returns [OF ex_xbar_reachable a r] by auto
  then have "s' = [1]" by (simp add: ex_peer_def)
  then show ?thesis using r by blast
qed

section \<open>The distributor offers requests to the links in turn\<close>

text \<open>A sequence of requests, each with its time, its port and the answer it gets; the list names the link that each was offered to.\<close>

fun ld_run ::
    "(nat \<Rightarrow> 's timing_peer) \<Rightarrow> (Tick \<times> nat \<times> packet) list \<Rightarrow> load_distributor \<times> 's \<Rightarrow> (nat list \<times> load_distributor \<times> 's) res" where
  "ld_run send [] xs = Inr ([], xs)"
| "ld_run send ((now, src, p) # rs) xs =
     bindR (ld_recvTimingReq send now src p xs) (\<lambda>(_, _, xs').
     bindR (ld_run send rs xs') (\<lambda>(ls, xs''). Inr (ROUND_ROBIN_COUNTER (fst xs) # ls, xs'')))"

lemma ld_forward_frame:
  fixes x :: load_distributor
  assumes "xb_forward send now src d p (x, s) = Inr (b, p3, x', s')"
  shows "ROUND_ROBIN_COUNTER x' = ROUND_ROBIN_COUNTER x \<and> N_MASTER_PORTS x' = N_MASTER_PORTS x \<and>
    (\<forall>i. i \<noteq> d \<longrightarrow> reqLayers x' ! i = reqLayers x ! i)"
proof -
  have c: "calcPacketTiming now q y = Inr (q', y') \<Longrightarrow>
      ROUND_ROBIN_COUNTER y' = ROUND_ROBIN_COUNTER y \<and> N_MASTER_PORTS y' = N_MASTER_PORTS y \<and> reqLayers y' = reqLayers y" for q y q' y'
    by (auto elim: calcPacketTiming_frame)
  have e: "xb_clockEdge now n y = Inr (t, y') \<Longrightarrow>
      ROUND_ROBIN_COUNTER y' = ROUND_ROBIN_COUNTER y \<and> N_MASTER_PORTS y' = N_MASTER_PORTS y \<and> reqLayers y' = reqLayers y"
    for n t and y y' :: load_distributor
    by (auto simp: xb_clockEdge_def)
  show ?thesis using assms
    by (auto simp: xb_forward_def set_req_layer_def assertR_def Let_def split: if_splits dest!: c e)
qed

lemma ld_request:
  assumes "ld_recvTimingReq send now src p (x, s) = Inr (b, p', x', s')" "\<not> isExpressSnoop p" "ROUND_ROBIN_COUNTER x < N_MASTER_PORTS x"
  shows "ROUND_ROBIN_COUNTER x' = Suc (ROUND_ROBIN_COUNTER x) mod N_MASTER_PORTS x" "N_MASTER_PORTS x' = N_MASTER_PORTS x"
    "\<forall>i. i \<noteq> ROUND_ROBIN_COUNTER x \<longrightarrow> reqLayers x' ! i = reqLayers x ! i"
proof -
  let ?n = "Suc (ROUND_ROBIN_COUNTER x)"
  have n: "(if ?n = N_MASTER_PORTS x then 0 else ?n) = ?n mod N_MASTER_PORTS x" using assms(3) by auto
  have f: "xb_forward send now src (ROUND_ROBIN_COUNTER x) p (x\<lparr>ROUND_ROBIN_COUNTER := ?n mod N_MASTER_PORTS x\<rparr>, s) = Inr (b, p', x', s')"
    using assms(1,2) n by (auto simp: ld_recvTimingReq_def rotate_counter_def Let_def split: if_splits)
  show "ROUND_ROBIN_COUNTER x' = ?n mod N_MASTER_PORTS x" "N_MASTER_PORTS x' = N_MASTER_PORTS x"
    "\<forall>i. i \<noteq> ROUND_ROBIN_COUNTER x \<longrightarrow> reqLayers x' ! i = reqLayers x ! i"
    using ld_forward_frame [OF f] by simp_all
qed

lemma ld_run_links:
  "ld_run send rs (x, s) = Inr (ls, x', s') \<Longrightarrow> \<forall>(now, src, p) \<in> set rs. \<not> isExpressSnoop p \<Longrightarrow>
     ROUND_ROBIN_COUNTER x < N_MASTER_PORTS x \<Longrightarrow>
     ls = map (\<lambda>j. (ROUND_ROBIN_COUNTER x + j) mod N_MASTER_PORTS x) [0..<length rs]"
proof (induction rs arbitrary: x s ls)
  case (Cons r rs)
  obtain now src p where r: "r = (now, src, p)" by (cases r)
  obtain b p1 x1 s1 ls1 where s1: "ld_recvTimingReq send now src p (x, s) = Inr (b, p1, x1, s1)"
    "ld_run send rs (x1, s1) = Inr (ls1, x', s')" "ls = ROUND_ROBIN_COUNTER x # ls1"
    using Cons.prems(1) r by auto
  have "\<not> isExpressSnoop p" using Cons.prems(2) r by simp
  note q = ld_request [OF s1(1) this Cons.prems(3)]
  have "ls1 = map (\<lambda>j. (ROUND_ROBIN_COUNTER x1 + j) mod N_MASTER_PORTS x1) [0..<length rs]"
    using Cons.prems(2,3) q by (intro Cons.IH [OF s1(2)]) auto
  also have "\<dots> = map (\<lambda>j. (ROUND_ROBIN_COUNTER x + Suc j) mod N_MASTER_PORTS x) [0..<length rs]"
    using q by (simp add: mod_add_left_eq)
  finally show ?case using s1(3) Cons.prems(3) by (simp add: map_upt_Suc del: upt_Suc)
qed simp

lemma count_distinct: "distinct xs \<Longrightarrow> count_list xs v = of_bool (v \<in> set xs)"
  by (induction xs) auto

lemma round_once: "map (\<lambda>j. (c + j) mod n) [0..<n] = rotate c [0..<n]" for c n :: nat
  by (rule nth_equalityI) (simp_all add: nth_rotate)

lemma rounds_even:
  fixes c n k i :: nat
  assumes "i < n"
  shows "count_list (map (\<lambda>j. (c + j) mod n) [0..<k * n]) i = k"
proof (induction k)
  case (Suc k)
  have "[0..<Suc k * n] = [0..<k * n] @ map (\<lambda>j. k * n + j) [0..<n]"
    using upt_add_eq_append [of 0 "k * n" n] map_add_upt [of "k * n" n] by (simp add: add.commute)
  then have "map (\<lambda>j. (c + j) mod n) [0..<Suc k * n] = map (\<lambda>j. (c + j) mod n) [0..<k * n] @ rotate c [0..<n]"
    using round_once [of c n] by (simp add: comp_def add.left_commute [of c])
  then show ?case using Suc assms by (simp add: count_distinct)
qed simp

text \<open>Of k times N requests to the distributor over N links, accepted or refused, every link is offered exactly k,
  in turn, whatever the links answer. The counter moves on with a
  request that is refused too, so a request that is sent again is offered to another link.\<close>

theorem distributor_even:
  assumes "ld_run send rs (x, s) = Inr (ls, x', s')" "\<forall>(now, src, p) \<in> set rs. \<not> isExpressSnoop p"
    and "ROUND_ROBIN_COUNTER x < N_MASTER_PORTS x" "length rs = k * N_MASTER_PORTS x" "i < N_MASTER_PORTS x"
  shows "count_list ls i = k \<and> (\<forall>j < length rs. ls ! j = (ROUND_ROBIN_COUNTER x + j) mod N_MASTER_PORTS x)"
  using ld_run_links [OF assms(1-3)] rounds_even [OF assms(5)] assms(4) by simp

theorem distributor_even_witness:
  "\<exists>x x' s'. LoadDistributor 1000 1 16 False 2 False 1 = Inr x \<and>
     ld_run ex_peer [(1000, 0, plain_packet ReadReq 150 [0]), (1000, 0, plain_packet ReadReq 8 [0])] (x, []) = Inr ([0, 1], x', s')"
proof -
  let ?rs = "[(1000, 0, plain_packet ReadReq 150 [0]), (1000, 0, plain_packet ReadReq 8 [0])] :: (Tick \<times> nat \<times> packet) list"
  obtain x where x: "LoadDistributor 1000 1 16 False 2 False 1 = Inr x" by (simp add: LoadDistributor_def)
  have f: "\<forall>(now, src, p) \<in> set ?rs. \<not> isExpressSnoop p"
    by (simp add: isExpressSnoop_def plain_packet_def fl_defs pkt_flag_defs)
  have n: "ROUND_ROBIN_COUNTER x = 0" "N_MASTER_PORTS x = 2"
    using x by (auto simp: LoadDistributor_def base_xbar.defs load_distributor.defs)
  have "\<exists>ls x' s'. ld_run ex_peer ?rs (x, []) = Inr (ls, x', s')"
    using x f by (auto simp: LoadDistributor_def base_xbar.defs load_distributor.defs ld_recvTimingReq_def rotate_counter_def NoncoherentXBar_def replicate_small
        xb_forward_def req_layer_def set_req_layer_def Layer_def layer_defs calcPacketTiming_def xb_clockEdge_def
        clockEdge_def co_update_def divCeil_def ClockedObject_def schedule_event_def ex_peer_def hasData_def cmd_defs plain_packet_def Packet_blank_def)
  then obtain ls x' s' where r: "ld_run ex_peer ?rs (x, []) = Inr (ls, x', s')" by blast
  have e: "count_list ls 0 = 1 \<and> (\<forall>j < length ?rs. ls ! j = (ROUND_ROBIN_COUNTER x + j) mod N_MASTER_PORTS x)"
    by (rule distributor_even [OF r f]) (simp_all add: n)
  have "ls ! 0 = 0" "ls ! 1 = 1" using e [THEN conjunct2, rule_format, of 0] e [THEN conjunct2, rule_format, of 1] n by simp_all
  moreover obtain u v where "ls = [u, v]"
    using ld_run_links [OF r f] n by (simp add: upt_rec)
  ultimately have "ls = [0, 1]" by simp
  then show ?thesis using x r by blast
qed

end
