(* ===== verification/PimXBar.thy ===== *)
theory PimXBar
  imports XBar SimpleMem
begin

text \<open>
  The crossbar of the PIM cluster (\<open>mem/pim_xbar.hh\<close>, \<open>mem/pim_xbar.cc\<close> under \<open>src/SMC_original/GEM5/gem5/src\<close>). It is a
  crossbar without coherence which can serve instruction fetches and accesses to the scratchpad ideally: such a
  request is performed at once as an atomic access, its packet is queued, and an event delivers the responses one
  after the other. A port that takes a response may send requests before it returns; these are the argument \<open>rs\<close>
  of \<open>respond\<close>. The packet log, the statistics and the debug event, which does nothing, are left out.
\<close>

section \<open>State and operations\<close>

record pim_xbar = base_xbar +
  ideal_instr_fetch :: bool
  ideal_spm_access :: bool
  spm_master_port :: int
  port_list :: "nat list"
  pkt_list :: "packet list"
  response_scheduled :: bool
  respondEvent :: "Tick option"

definition WAIT_ps :: Tick where "WAIT_ps = 1"

definition PIMXBar :: "Tick \<Rightarrow> u64 \<Rightarrow> u32 \<Rightarrow> bool \<Rightarrow> nat \<Rightarrow> bool \<Rightarrow> nat \<Rightarrow> bool \<Rightarrow> bool \<Rightarrow> pim_xbar" where
  "PIMXBar per hc w use_default nm dflt ns fetch spm =
     base_xbar.extend (NoncoherentXBar per hc w use_default nm dflt ns) (pim_xbar.fields fetch spm (- 1) [] [] False None)"

text \<open>\<open>init\<close> looks for the scratchpad among the names of the peers of the master ports.\<close>

definition is_spm :: "string \<Rightarrow> bool" where
  "is_spm n \<longleftrightarrow> n = ''system.Smon-slave'' \<or> n = ''system.shared_spm.port''"

fun find_spm :: "nat \<Rightarrow> string list \<Rightarrow> int \<Rightarrow> int res" where
  "find_spm i [] port = assertR (port \<noteq> - 1) ''spm_master_port != -1'' (Inr port)"
| "find_spm i (n # ns) port =
     (if is_spm n then assertR (port = - 1) ''spm_master_port == -1'' (find_spm (Suc i) ns (int i))
      else find_spm (Suc i) ns port)"

definition px_init :: "string list \<Rightarrow> pim_xbar \<Rightarrow> pim_xbar res" where
  "px_init names x =
     (if ideal_spm_access x then bindR (find_spm 0 names (spm_master_port x)) (\<lambda>i. Inr (x\<lparr>spm_master_port := i\<rparr>))
      else Inr x)"

text \<open>The operations that are copies of those of the crossbar without coherence.\<close>

definition px_recvAtomic ::
    "(nat \<Rightarrow> 's atomic_peer) \<Rightarrow> packet \<Rightarrow> pim_xbar \<times> 's \<Rightarrow> (Tick \<times> packet \<times> pim_xbar \<times> 's) res" where
  "px_recvAtomic = nc_recvAtomic"

definition px_recvFunctional :: "(nat \<Rightarrow> 's functional_peer) \<Rightarrow> packet \<Rightarrow> pim_xbar \<times> 's \<Rightarrow> (packet \<times> pim_xbar \<times> 's) res" where
  "px_recvFunctional = nc_recvFunctional"

definition px_recvTimingResp ::
    "(nat \<Rightarrow> 's timing_peer) \<Rightarrow> Tick \<Rightarrow> nat \<Rightarrow> packet \<Rightarrow> pim_xbar \<times> 's \<Rightarrow> (bool \<times> packet \<times> pim_xbar \<times> 's) res" where
  "px_recvTimingResp = nc_recvTimingResp"

definition px_drain :: "pim_xbar \<Rightarrow> nat \<times> pim_xbar" where
  "px_drain = nc_drain"

text \<open>An ideal access: the list holds a pointer, so it is the packet after the atomic access that waits in it.\<close>

definition px_ideal ::
    "(nat \<Rightarrow> 's atomic_peer) \<Rightarrow> Tick \<Rightarrow> nat \<Rightarrow> packet \<Rightarrow> pim_xbar \<times> 's \<Rightarrow> (bool \<times> packet \<times> pim_xbar \<times> 's) res" where
  "px_ideal asend now src p xs =
     bindR (px_recvAtomic asend p xs) (\<lambda>(_, p', x, s).
       let x1 = x\<lparr>port_list := port_list x @ [src], pkt_list := pkt_list x @ [p']\<rparr> in
       if response_scheduled x1 then Inr (True, p', x1, s)
       else bindR (schedule_event (respondEvent x1) now (now + WAIT_ps)) (\<lambda>ev.
              Inr (True, p', x1\<lparr>response_scheduled := True, respondEvent := ev\<rparr>, s)))"

definition px_recvTimingReq ::
    "(nat \<Rightarrow> 's atomic_peer) \<Rightarrow> (nat \<Rightarrow> 's timing_peer) \<Rightarrow> Tick \<Rightarrow> nat \<Rightarrow> packet \<Rightarrow> pim_xbar \<times> 's \<Rightarrow>
     (bool \<times> packet \<times> pim_xbar \<times> 's) res" where
  "px_recvTimingReq asend send now src p xs =
     (case xs of (x, s) \<Rightarrow>
        if ideal_instr_fetch x \<and> rq_isInstFetch (pk_req p)
        then assertR (isRead p) ''pkt->isRead()'' (px_ideal asend now src p (x, s))
        else if src \<ge> length (respLayers x) then Inl OutOfRange
        else if isExpressSnoop p then Inr (True, p, x, s)
        else
          bindR (getAddr p) (\<lambda>a.
          bindR (findPort a x) (\<lambda>(d, x1).
            if ideal_spm_access x1 \<and> int d = spm_master_port x1 then px_ideal asend now src p (x1, s)
            else xb_forward send now src d p (x1, s))))"

definition px_recvRetry ::
    "(nat \<Rightarrow> 's atomic_peer) \<Rightarrow> (nat \<Rightarrow> 's timing_peer) \<Rightarrow> Tick \<Rightarrow> packet option \<Rightarrow> nat \<Rightarrow> pim_xbar \<times> 's \<Rightarrow>
     (nat option \<times> pim_xbar \<times> 's) res" where
  "px_recvRetry asend send now resend i xs = nc_recvRetry (px_recvTimingReq asend send now) now resend i xs"

fun px_requests ::
    "(nat \<Rightarrow> 's atomic_peer) \<Rightarrow> (nat \<Rightarrow> 's timing_peer) \<Rightarrow> Tick \<Rightarrow> (nat \<times> packet) list \<Rightarrow> pim_xbar \<times> 's \<Rightarrow> (pim_xbar \<times> 's) res" where
  "px_requests asend send now [] xs = Inr xs"
| "px_requests asend send now ((src, p) # rs) xs =
     bindR (px_recvTimingReq asend send now src p xs) (\<lambda>(_, _, xs'). px_requests asend send now rs xs')"

text \<open>\<open>respond\<close> up to the answer of the port, with the test of \<open>sendTimingResp\<close>, and from there on.\<close>

definition respond_begin :: "pim_xbar \<Rightarrow> (nat \<times> packet) res" where
  "respond_begin x =
     assertR (pkt_list x \<noteq> []) ''pkt_list.size()''
    (assertR (response_scheduled x) ''response_scheduled''
      (case port_list x of
         [] \<Rightarrow> Inl OutOfRange
       | port # _ \<Rightarrow>
           if port \<ge> length (respLayers x) then Inl OutOfRange
           else assertR (isResponse (hd (pkt_list x))) ''pkt->isResponse()'' (Inr (port, hd (pkt_list x)))))"

definition respond_end :: "Tick \<Rightarrow> bool \<Rightarrow> pim_xbar \<Rightarrow> pim_xbar res" where
  "respond_end now success x =
     (let x1 = (if success then x\<lparr>port_list := tl (port_list x), pkt_list := tl (pkt_list x)\<rparr> else x);
          delay = (if success then 0 else 1) in
      if pkt_list x1 \<noteq> [] then
        bindR (schedule_event (respondEvent x1) now (now + delay)) (\<lambda>ev. Inr (x1\<lparr>respondEvent := ev, response_scheduled := True\<rparr>))
      else Inr (x1\<lparr>response_scheduled := False\<rparr>))"

definition respond ::
    "(nat \<Rightarrow> 's atomic_peer) \<Rightarrow> (nat \<Rightarrow> 's timing_peer) \<Rightarrow> (nat \<Rightarrow> 's timing_peer) \<Rightarrow> Tick \<Rightarrow> (nat \<times> packet) list \<Rightarrow>
     pim_xbar \<times> 's \<Rightarrow> (bool \<times> pim_xbar \<times> 's) res" where
  "respond asend send deliver now rs xs =
     (case xs of (x, s) \<Rightarrow>
        bindR (respond_begin x) (\<lambda>(port, p).
        bindR (deliver port s p) (\<lambda>(success, p', s1).
        bindR (px_requests asend send now rs (x\<lparr>pkt_list := p' # tl (pkt_list x)\<rparr>, s1)) (\<lambda>(x2, s2).
        bindR (respond_end now success x2) (\<lambda>x3. Inr (success, x3, s2))))))"

section \<open>Ideal accesses are answered in order\<close>

definition px_queue :: "pim_xbar \<Rightarrow> (nat \<times> packet) list" where
  "px_queue x = zip (port_list x) (pkt_list x)"

text \<open>The part of the state that only ideal accesses change.\<close>

definition ideal_part :: "pim_xbar \<Rightarrow> bool \<times> bool \<times> int \<times> nat list \<times> packet list \<times> bool \<times> Tick option \<times> nat" where
  "ideal_part x = (ideal_instr_fetch x, ideal_spm_access x, spm_master_port x, port_list x, pkt_list x, response_scheduled x, respondEvent x,
     length (respLayers x))"

lemma findPort_ideal: "findPort a x = Inr (d, x') \<Longrightarrow> ideal_part x' = ideal_part x"
  by (auto simp: findPort_def assertR_def updatePortCache_def ideal_part_def split: if_splits option.splits prod.splits)

lemma xb_forward_ideal:
  assumes "xb_forward send now src d p (x, s) = Inr (b, p3, x', s')"
  shows "ideal_part x' = ideal_part x"
proof -
  have c: "calcPacketTiming now q y = Inr (q', y') \<Longrightarrow> ideal_part y' = ideal_part y" for q y q' y'
    by (auto elim!: calcPacketTiming_frame simp: ideal_part_def)
  have e: "xb_clockEdge now n y = Inr (t, y') \<Longrightarrow> ideal_part y' = ideal_part y" for n y t y'
    by (auto simp: xb_clockEdge_def ideal_part_def)
  have l: "ideal_part (set_req_layer i l y) = ideal_part y" for i l y
    by (simp add: set_req_layer_def ideal_part_def)
  show ?thesis using assms
    by (auto simp: xb_forward_def assertR_def Let_def l split: if_splits dest!: c e)
qed

text \<open>
  Which requests are served ideally: a fetch, and an access that is routed to the scratchpad. The ports and packets of those
  among the requests of a sequence, the request of a port that was told to retry, and what a response has to be for the request it answers.
\<close>

definition px_is_ideal :: "packet \<Rightarrow> pim_xbar \<Rightarrow> bool" where
  "px_is_ideal p x \<longleftrightarrow> ideal_instr_fetch x \<and> rq_isInstFetch (pk_req p) \<or>
     ideal_spm_access x \<and> \<not> isExpressSnoop p \<and>
       (case bindR (getAddr p) (\<lambda>a. findPort a x) of Inr (d, _) \<Rightarrow> int d = spm_master_port x | Inl _ \<Rightarrow> False)"

definition ideal_taken :: "nat \<Rightarrow> packet \<Rightarrow> pim_xbar \<Rightarrow> (nat \<times> packet) list" where
  "ideal_taken src p x = (if px_is_ideal p x then [(src, p)] else [])"

fun ideal_requests ::
    "(nat \<Rightarrow> 's atomic_peer) \<Rightarrow> (nat \<Rightarrow> 's timing_peer) \<Rightarrow> Tick \<Rightarrow> (nat \<times> packet) list \<Rightarrow> pim_xbar \<times> 's \<Rightarrow> (nat \<times> packet) list" where
  "ideal_requests asend send now [] xs = []"
| "ideal_requests asend send now ((src, p) # rs) xs =
     ideal_taken src p (fst xs) @
     (case px_recvTimingReq asend send now src p xs of Inl _ \<Rightarrow> [] | Inr (_, _, xs') \<Rightarrow> ideal_requests asend send now rs xs')"

definition ideal_resent :: "nat option \<Rightarrow> packet option \<Rightarrow> pim_xbar \<Rightarrow> (nat \<times> packet) list" where
  "ideal_resent told resend x = (case (told, resend) of (Some src, Some p) \<Rightarrow> ideal_taken src p x | _ \<Rightarrow> [])"

definition answered :: "nat \<times> packet \<Rightarrow> nat \<times> packet \<Rightarrow> bool" where
  "answered r t \<longleftrightarrow> fst r = fst t \<and> (is_owed (snd t) \<longrightarrow> header (snd r) = answer_header (snd t))"

text \<open>A memory that answers the atomic accesses that are owed a response, as the memory of this model does; of other accesses
  nothing is asked.\<close>

definition answers :: "(nat \<Rightarrow> 's atomic_peer) \<Rightarrow> bool" where
  "answers asend \<longleftrightarrow> (\<forall>d s p lat q s'. is_owed p \<longrightarrow> asend d s p = Inr (lat, q, s') \<longrightarrow> header q = answer_header p)"

lemma sm_answers: "answers (\<lambda>d. sm_recvAtomic rnd)"
  unfolding answers_def using sm_recvAtomic_frame access_answers by metis

lemma owed_answer_isResponse: "is_owed p \<Longrightarrow> header q = answer_header p \<Longrightarrow> isResponse q"
  by (cases "pk_cmd p") (simp_all add: is_owed_def header_def answer_header_def pkt_test_defs cmd_defs)

text \<open>What requests do to the queue: \<open>news\<close> are the answers to the ideal accesses among them.\<close>

definition px_grow :: "Tick \<Rightarrow> (nat \<times> packet) list \<Rightarrow> pim_xbar \<Rightarrow> pim_xbar \<Rightarrow> bool" where
  "px_grow now news x x' \<longleftrightarrow> port_list x' = port_list x @ map fst news \<and> pkt_list x' = pkt_list x @ map snd news \<and>
     (\<forall>(src, p) \<in> set news. src < length (respLayers x)) \<and> length (respLayers x') = length (respLayers x) \<and>
     response_scheduled x' = (response_scheduled x \<or> news \<noteq> []) \<and>
     respondEvent x' = (if response_scheduled x \<or> news = [] then respondEvent x else Some (now + 1))"

lemma px_grow_same: "ideal_part x' = ideal_part x \<Longrightarrow> px_grow now [] x x'"
  by (simp add: ideal_part_def px_grow_def)

lemma px_grow_trans: "px_grow now n1 x y \<Longrightarrow> px_grow now n2 y z \<Longrightarrow> px_grow now (n1 @ n2) x z"
  by (auto simp: px_grow_def)

lemma px_ideal_grow:
  assumes "px_ideal asend now src p (x, s) = Inr (ok, p', x', s')" "answers asend" "src < length (respLayers x)"
  shows "px_grow now [(src, p')] x x' \<and> answered (src, p') (src, p)"
proof -
  obtain lat x1 where a: "nc_recvAtomic asend p (x, s) = Inr (lat, p', x1, s')" and
    x1: "if response_scheduled x1 then x' = x1\<lparr>port_list := port_list x1 @ [src], pkt_list := pkt_list x1 @ [p']\<rparr>
       else x' = x1\<lparr>port_list := port_list x1 @ [src], pkt_list := pkt_list x1 @ [p'], response_scheduled := True, respondEvent := Some (now + 1)\<rparr>"
    using assms(1) by (auto simp: px_ideal_def px_recvAtomic_def schedule_event_def assertR_def Let_def WAIT_ps_def split: if_splits)
  have i: "ideal_part x1 = ideal_part x" using a by (auto simp: nc_recvAtomic_def dest: findPort_ideal)
  obtain d q where q: "asend d s p = Inr (lat, q, s')" "p' = q\<lparr>lastWordDelay := ucast lat\<rparr>"
    using a by (auto simp: nc_recvAtomic_def)
  then have "answered (src, p') (src, p)" using assms(2) unfolding answers_def answered_def by (fastforce simp: header_def)
  then show ?thesis using x1 i assms(3) by (auto simp: ideal_part_def px_grow_def split: if_splits)
qed

lemma px_request_grow:
  assumes "px_recvTimingReq asend send now src p (x, s) = Inr (ok, p', x', s')" "answers asend" "src < length (respLayers x)"
  shows "\<exists>news. px_grow now news x x' \<and> list_all2 answered news (ideal_taken src p x)"
proof -
  consider "ideal_instr_fetch x \<and> rq_isInstFetch (pk_req p)" | "\<not> (ideal_instr_fetch x \<and> rq_isInstFetch (pk_req p))" "isExpressSnoop p"
    | "\<not> (ideal_instr_fetch x \<and> rq_isInstFetch (pk_req p))" "\<not> isExpressSnoop p" by blast
  then show ?thesis
  proof cases
    case 1
    then have "px_ideal asend now src p (x, s) = Inr (ok, p', x', s')"
      using assms(1) by (auto simp: px_recvTimingReq_def assertR_def split: if_splits)
    from px_ideal_grow [OF this assms(2,3)] show ?thesis using 1
      by (intro exI [of _ "[(src, p')]"]) (simp add: ideal_taken_def px_is_ideal_def)
  next
    case 2
    then have "x' = x" using assms(1,3) by (auto simp: px_recvTimingReq_def)
    then show ?thesis using 2 by (intro exI [of _ "[]"]) (auto simp: px_grow_same ideal_taken_def px_is_ideal_def)
  next
    case 3
    then obtain a d x1 where a: "getAddr p = Inr a" and f: "findPort a x = Inr (d, x1)" and
      r: "(if ideal_spm_access x1 \<and> int d = spm_master_port x1 then px_ideal asend now src p (x1, s)
           else xb_forward send now src d p (x1, s)) = Inr (ok, p', x', s')"
      using assms(1,3) by (auto simp: px_recvTimingReq_def split: if_splits)
    note i = findPort_ideal [OF f]
    then have s: "src < length (respLayers x1)" "ideal_spm_access x1 = ideal_spm_access x" "spm_master_port x1 = spm_master_port x"
      using assms(3) by (simp_all add: ideal_part_def)
    have t: "ideal_taken src p x = (if ideal_spm_access x1 \<and> int d = spm_master_port x1 then [(src, p)] else [])"
      using 3 a f s by (auto simp: ideal_taken_def px_is_ideal_def)
    have "\<exists>news. px_grow now news x1 x' \<and> list_all2 answered news (ideal_taken src p x)"
    proof (cases "ideal_spm_access x1 \<and> int d = spm_master_port x1")
      case True
      then have "px_ideal asend now src p (x1, s) = Inr (ok, p', x', s')" using r by simp
      from px_ideal_grow [OF this assms(2) s(1)] True t show ?thesis by (intro exI [of _ "[(src, p')]"]) simp
    next
      case False
      then have "ideal_part x' = ideal_part x1" using r xb_forward_ideal by (metis (no_types, lifting))
      then show ?thesis using px_grow_same t False by (intro exI [of _ "[]"]) auto
    qed
    then show ?thesis using px_grow_trans [OF px_grow_same [OF i], of now _ x'] by fastforce
  qed
qed

lemma px_requests_grow:
  "px_requests asend send now rs (x, s) = Inr (x', s') \<Longrightarrow> answers asend \<Longrightarrow> \<forall>(src, p) \<in> set rs. src < length (respLayers x) \<Longrightarrow>
     \<exists>news. px_grow now news x x' \<and> list_all2 answered news (ideal_requests asend send now rs (x, s))"
proof (induction rs arbitrary: x s)
  case Nil
  then show ?case using px_grow_same [of x x now] by auto
next
  case (Cons r rs)
  obtain src p where r: "r = (src, p)" by (cases r)
  obtain ok p' x1 s1 where q: "px_recvTimingReq asend send now src p (x, s) = Inr (ok, p', x1, s1)" "px_requests asend send now rs (x1, s1) = Inr (x', s')"
    using Cons.prems(1) r by auto
  obtain n1 where n1: "px_grow now n1 x x1" "list_all2 answered n1 (ideal_taken src p x)"
    using px_request_grow [OF q(1)] Cons.prems(2,3) r by auto
  then have "\<forall>(src, p) \<in> set rs. src < length (respLayers x1)" using Cons.prems(3) by (simp add: px_grow_def)
  then obtain n2 where "px_grow now n2 x1 x'" "list_all2 answered n2 (ideal_requests asend send now rs (x1, s1))"
    using Cons.IH [OF q(2) Cons.prems(2)] by blast
  then show ?case using px_grow_trans [OF n1(1)] list_all2_appendI [OF n1(2)] r q(1) by (intro exI [of _ "n1 @ n2"]) simp
qed

text \<open>
  The invariant: the two lists have the same length, the event is scheduled exactly while a response waits, and the responses that
  ports have taken, followed by those that wait, answer the ideal requests one for one.
\<close>

definition px_inv :: "pim_xbar \<Rightarrow> bool" where
  "px_inv x \<longleftrightarrow> length (port_list x) = length (pkt_list x) \<and> (response_scheduled x \<longleftrightarrow> pkt_list x \<noteq> []) \<and>
     (respondEvent x \<noteq> None \<longleftrightarrow> pkt_list x \<noteq> []) \<and> (\<forall>src \<in> set (port_list x). src < length (respLayers x))"

definition px_ok :: "pim_xbar \<Rightarrow> (nat \<times> packet) list \<Rightarrow> (nat \<times> packet) list \<Rightarrow> bool" where
  "px_ok x ts gs \<longleftrightarrow> px_inv x \<and> list_all2 answered (gs @ px_queue x) ts"

lemma px_inv_grow: "px_grow now news x x' \<Longrightarrow> px_inv x \<Longrightarrow> px_inv x' \<and> px_queue x' = px_queue x @ news"
  by (auto simp: px_grow_def px_inv_def px_queue_def zip_map_fst_snd split: if_splits)

lemma px_ok_grow:
  assumes "\<exists>news. px_grow now news x x' \<and> list_all2 answered news ns" "px_ok x ts gs"
  shows "px_ok x' (ts @ ns) gs"
proof -
  obtain news where n: "px_grow now news x x'" "list_all2 answered news ns" using assms(1) by blast
  have "list_all2 answered ((gs @ px_queue x) @ news) (ts @ ns)"
    using assms(2) n(2) unfolding px_ok_def by (intro list_all2_appendI) simp_all
  then show ?thesis using px_inv_grow [OF n(1)] assms(2) by (simp add: px_ok_def)
qed

lemma px_ok_ideal: "ideal_part x' = ideal_part x \<Longrightarrow> px_ok x ts gs \<Longrightarrow> px_ok x' ts gs"
  by (simp add: ideal_part_def px_inv_def px_ok_def px_queue_def)

lemma px_recvTimingResp_ideal:
  assumes "px_recvTimingResp deliver now m p (x, s) = Inr (ok, p', x', s')"
  shows "ideal_part x' = ideal_part x"
proof -
  have c: "calcPacketTiming now q y = Inr (q', y') \<Longrightarrow> ideal_part y' = ideal_part y" for q y q' y'
    by (auto elim!: calcPacketTiming_frame simp: ideal_part_def)
  have l: "ideal_part (set_resp_layer i l y) = ideal_part y" for i l y by (simp add: set_resp_layer_def ideal_part_def)
  show ?thesis using assms
    by (auto simp: px_recvTimingResp_def nc_recvTimingResp_def assertR_def Let_def l split: if_splits dest!: c)
qed

lemma recvRangeChange_ideal:
  assumes "recvRangeChange i rs x = Inr (b, x')"
  shows "ideal_part x' = ideal_part x"
proof -
  have u: "update_ranges y = Inr y' \<Longrightarrow> ideal_part y' = ideal_part y" for y y' by (auto simp: update_ranges_def ideal_part_def)
  have m: "update_map j r y = Inr y' \<Longrightarrow> ideal_part y' = ideal_part y" for j r y y'
    by (auto simp: update_map_def ideal_part_def split: if_splits list.splits)
  have c: "ideal_part (clearPortCache y) = ideal_part y" "ideal_part (y\<lparr>gotAddrRanges := g, gotAllAddrRanges := h\<rparr>) = ideal_part y" for y g h
    by (simp_all add: clearPortCache_def ideal_part_def)
  show ?thesis using assms by (auto simp: recvRangeChange_def c Let_def split: if_splits dest!: u m)
qed

lemma px_is_ideal_layer: "px_is_ideal p (set_req_layer i l x) = px_is_ideal p x"
  by (cases "getAddr p")
    (auto simp: px_is_ideal_def set_req_layer_def findPort_def checkPortCache_def default_port_def assertR_def bindR_def
      split: option.splits sum.splits prod.splits)

lemma px_retry_grow:
  assumes "xb_retryWaiting (px_recvTimingReq asend send now) now resend i (x, s) = Inr (told, x', s')" "answers asend"
    and "\<forall>q. told = Some q \<longrightarrow> q < length (respLayers x)"
  shows "\<exists>news. px_grow now news x x' \<and> list_all2 answered news (ideal_resent told resend x)"
proof -
  have l: "ideal_part (set_req_layer i l y) = ideal_part y" "ideal_part (y\<lparr>xb_clock := c\<rparr>) = ideal_part y" for l y c
    by (simp_all add: set_req_layer_def ideal_part_def)
  obtain l0 src l1 x2 c l3 where t: "told = Some src" and x': "x' = set_req_layer i l3 (x2\<lparr>xb_clock := c\<rparr>)"
    and r: "(case resend of None \<Rightarrow> Inr (set_req_layer i l1 x, s)
        | Some p \<Rightarrow> bindR (px_recvTimingReq asend send now src p (set_req_layer i l1 x, s)) (\<lambda>(_, _, x2, s2). Inr (x2, s2))) = Inr (x2, s')"
    using assms(1) by (auto simp: xb_retryWaiting_def)
  have src: "src < length (respLayers (set_req_layer i l1 x))" using assms(3) t by (simp add: set_req_layer_def)
  have "\<exists>news. px_grow now news (set_req_layer i l1 x) x2 \<and> list_all2 answered news (ideal_resent told resend x)"
  proof (cases resend)
    case None
    then show ?thesis using r px_grow_same by (intro exI [of _ "[]"]) (auto simp: ideal_resent_def t)
  next
    case (Some p)
    then obtain ok p' where "px_recvTimingReq asend send now src p (set_req_layer i l1 x, s) = Inr (ok, p', x2, s')" using r by auto
    from px_request_grow [OF this assms(2) src] show ?thesis by (simp add: ideal_resent_def t Some ideal_taken_def px_is_ideal_layer)
  qed
  then obtain news where n: "px_grow now news (set_req_layer i l1 x) x2" "list_all2 answered news (ideal_resent told resend x)" by blast
  have "px_grow now ([] @ (news @ [])) x x'"
    by (rule px_grow_trans [OF px_grow_same px_grow_trans [OF n(1) px_grow_same]]) (simp_all add: l x')
  then show ?thesis using n(2) by auto
qed

lemma px_retry_ok:
  assumes "xb_retryWaiting (px_recvTimingReq asend send now) now resend i (set_req_layer i l x, s) = Inr (told, x', s')" "answers asend"
    and "\<forall>q. told = Some q \<longrightarrow> q < length (respLayers x)" "px_ok x ts gs"
  shows "px_ok x' (ts @ ideal_resent told resend x) gs"
proof -
  have "ideal_resent told resend (set_req_layer i l x) = ideal_resent told resend x"
    by (simp add: ideal_resent_def ideal_taken_def px_is_ideal_layer split: option.splits)
  moreover have "px_ok (set_req_layer i l x) ts gs" by (rule px_ok_ideal [OF _ assms(4)]) (simp add: set_req_layer_def ideal_part_def)
  moreover have "\<forall>q. told = Some q \<longrightarrow> q < length (respLayers (set_req_layer i l x))" using assms(3) by (simp add: set_req_layer_def)
  ultimately show ?thesis using px_ok_grow [OF px_retry_grow [OF assms(1,2)]] by fastforce
qed

lemma respond_begin_head:
  assumes "px_inv x" "px_queue x = (src, p) # rest"
  shows "pkt_list x = p # map snd rest" "port_list x = src # map fst rest"
    "respond_begin (x\<lparr>respondEvent := None\<rparr>) = (if isResponse p then Inr (src, p) else Inl (AssertFail ''pkt->isResponse()''))"
proof -
  obtain ps qs where l: "port_list x = src # ps" "pkt_list x = p # qs" "zip ps qs = rest"
    using assms(2) unfolding px_queue_def by (cases "port_list x"; cases "pkt_list x") auto
  have "length ps = length qs" using assms(1) l by (simp add: px_inv_def)
  then show "pkt_list x = p # map snd rest" "port_list x = src # map fst rest" using l by auto
  show "respond_begin (x\<lparr>respondEvent := None\<rparr>) = (if isResponse p then Inr (src, p) else Inl (AssertFail ''pkt->isResponse()''))"
    using l assms(1) by (auto simp: respond_begin_def px_inv_def not_le assertR_def)
qed

lemma respond_end_queue:
  assumes "port_list x2 = src # ps" "pkt_list x2 = q # qs" "length ps = length qs" "respondEvent x2 = None" "now \<noteq> - 1"
    and "\<forall>src \<in> set (port_list x2). src < length (respLayers x2)"
  shows "\<exists>x'. respond_end now ok x2 = Inr x' \<and> px_queue x' = (if ok then zip ps qs else (src, q) # zip ps qs) \<and> px_inv x'"
proof -
  have "now \<le> now + 1" using assms(5) inc_less_eq_self_iff_eq [of now] linear by blast
  then show ?thesis using assms
    by (auto simp: respond_end_def schedule_event_def assertR_def px_queue_def px_inv_def Let_def)
qed

text \<open>A port that refuses a response leaves it the answer that it is.\<close>

definition gives_back :: "(nat \<Rightarrow> 's timing_peer) \<Rightarrow> bool" where
  "gives_back deliver \<longleftrightarrow> (\<forall>d s p q s'. deliver d s p = Inr (False, q, s') \<longrightarrow> header q = header p)"

lemma respond_ok:
  assumes "px_inv x" "px_queue x = (src, p) # rest" "isResponse p" "now \<noteq> - 1" "deliver src s p = Inr (ok, q, s1)" "answers asend"
    and "\<forall>(src, p) \<in> set rs. src < length (respLayers x)"
    and "px_requests asend send now rs (x\<lparr>respondEvent := None, pkt_list := q # tl (pkt_list x)\<rparr>, s1) = Inr (x2, s2)"
  shows "\<exists>x' news. respond asend send deliver now rs (x\<lparr>respondEvent := None\<rparr>, s) = Inr (ok, x', s2) \<and> px_inv x' \<and>
    px_queue x' = (if ok then rest else (src, q) # rest) @ news \<and>
    list_all2 answered news (ideal_requests asend send now rs (x\<lparr>respondEvent := None, pkt_list := q # tl (pkt_list x)\<rparr>, s1))"
proof -
  note b = respond_begin_head [OF assms(1,2)]
  obtain news where g: "px_grow now news (x\<lparr>respondEvent := None, pkt_list := q # tl (pkt_list x)\<rparr>) x2"
    and n: "list_all2 answered news (ideal_requests asend send now rs (x\<lparr>respondEvent := None, pkt_list := q # tl (pkt_list x)\<rparr>, s1))"
    using px_requests_grow [OF assms(8,6)] assms(7) by auto
  have "\<exists>x'. respond_end now ok x2 = Inr x' \<and>
      px_queue x' = (if ok then zip (map fst rest @ map fst news) (map snd rest @ map snd news)
        else (src, q) # zip (map fst rest @ map fst news) (map snd rest @ map snd news)) \<and> px_inv x'"
    using assms(1,4) b g by (intro respond_end_queue) (auto simp: px_grow_def px_inv_def)
  then obtain x' where x': "respond_end now ok x2 = Inr x'" "px_queue x' = (if ok then rest else (src, q) # rest) @ news" "px_inv x'"
    by (auto simp: zip_map_fst_snd)
  have "respond asend send deliver now rs (x\<lparr>respondEvent := None\<rparr>, s) = Inr (ok, x', s2)"
    using b(3) assms(3,5,8) x'(1) by (simp add: respond_def)
  then show ?thesis using x'(2,3) n by blast
qed

lemma respond_split:
  assumes "respond asend send deliver now rs (x\<lparr>respondEvent := None\<rparr>, s) = Inr (ok, x', s')"
    "respond_begin (x\<lparr>respondEvent := None\<rparr>) = Inr (src, p)" "deliver src s p = Inr (ok', q, s1)"
  obtains x2 where "px_requests asend send now rs (x\<lparr>respondEvent := None, pkt_list := q # tl (pkt_list x)\<rparr>, s1) = Inr (x2, s')"
  using assms by (auto simp: respond_def)

lemma px_ok_respond:
  assumes "px_ok x ts gs" "respond_begin (x\<lparr>respondEvent := None\<rparr>) = Inr (src, p)" "now \<noteq> - 1" "deliver src s p = Inr (ok, q, s1)"
    "answers asend" "gives_back deliver" "\<forall>(src, p) \<in> set rs. src < length (respLayers x)"
    "respond asend send deliver now rs (x\<lparr>respondEvent := None\<rparr>, s) = Inr (ok, x', s')"
  shows "px_ok x' (ts @ ideal_requests asend send now rs (x\<lparr>respondEvent := None, pkt_list := q # tl (pkt_list x)\<rparr>, s1))
    (gs @ (if ok then [(src, p)] else []))"
proof -
  let ?ns = "ideal_requests asend send now rs (x\<lparr>respondEvent := None, pkt_list := q # tl (pkt_list x)\<rparr>, s1)"
  have i: "px_inv x" and a: "list_all2 answered (gs @ px_queue x) ts" using assms(1) by (simp_all add: px_ok_def)
  have "px_queue x \<noteq> []" using assms(2) i by (auto simp: px_queue_def respond_begin_def px_inv_def assertR_def split: if_splits list.splits)
  then obtain src' p' rest where h: "px_queue x = (src', p') # rest" by (cases "px_queue x") auto
  then have e: "src' = src" "p' = p" "isResponse p" using respond_begin_head(3) [OF i h] assms(2) by (auto split: if_splits)
  obtain x2 where "px_requests asend send now rs (x\<lparr>respondEvent := None, pkt_list := q # tl (pkt_list x)\<rparr>, s1) = Inr (x2, s')"
    using respond_split [OF assms(8,2,4)] by blast
  from respond_ok [where deliver = deliver and s = s, OF i h [unfolded e(1,2)] e(3) assms(3,4,5,7) this] assms(8)
  obtain news where n: "px_inv x'" "px_queue x' = (if ok then rest else (src, q) # rest) @ news" "list_all2 answered news ?ns"
    by auto
  have "header q = header p" if "\<not> ok" using assms(4,6) that unfolding gives_back_def by simp blast
  then have "\<not> ok \<Longrightarrow> answered (src, p) t \<Longrightarrow> answered (src, q) t" for t by (simp add: answered_def)
  moreover obtain us t zs where "ts = us @ t # zs" "list_all2 answered gs us" "answered (src, p) t" "list_all2 answered rest zs"
    using a h e by (auto simp: list_all2_append1 list_all2_Cons1)
  ultimately have "list_all2 answered (gs @ (if ok then [(src, p)] else []) @ (if ok then rest else (src, q) # rest)) ts"
    by (cases t) (auto intro!: list_all2_appendI)
  from list_all2_appendI [OF this n(3)] show ?thesis using n(1,2) by (simp add: px_ok_def)
qed

text \<open>
  The crossbar from its construction on, with its two histories: the ideal requests that it has taken and the responses that ports
  have taken from it, with their ports. Requests come from ports that exist, and events fire at their time. What lies
  behind the ports may change its state at any time.
\<close>

inductive px_run ::
    "(nat \<Rightarrow> 's atomic_peer) \<Rightarrow> (nat \<Rightarrow> 's timing_peer) \<Rightarrow> (nat \<Rightarrow> 's timing_peer) \<Rightarrow> pim_xbar \<times> 's \<Rightarrow>
     (nat \<times> packet) list \<Rightarrow> (nat \<times> packet) list \<Rightarrow> bool" for asend send deliver where
  start: "px_init names (PIMXBar per hc w ud nm dflt ns fetch spm) = Inr x \<Longrightarrow> px_run asend send deliver (x, s) [] []"
| peers: "px_run asend send deliver (x, s) ts gs \<Longrightarrow> px_run asend send deliver (x, s') ts gs"
| ranges: "px_run asend send deliver (x, s) ts gs \<Longrightarrow> recvRangeChange i rs x = Inr (b, x') \<Longrightarrow>
     px_run asend send deliver (x', s) ts gs"
| request: "px_run asend send deliver (x, s) ts gs \<Longrightarrow> src < length (respLayers x) \<Longrightarrow>
     px_recvTimingReq asend send now src p (x, s) = Inr (ok, p', x', s') \<Longrightarrow>
     px_run asend send deliver (x', s') (ts @ ideal_taken src p x) gs"
| response: "px_run asend send deliver (x, s) ts gs \<Longrightarrow> px_recvTimingResp deliver now m p (x, s) = Inr (ok, p', x', s') \<Longrightarrow>
     px_run asend send deliver (x', s') ts gs"
| atomic: "px_run asend send deliver (x, s) ts gs \<Longrightarrow> px_recvAtomic asend p (x, s) = Inr (lat, p', x', s') \<Longrightarrow>
     px_run asend send deliver (x', s') ts gs"
| functional: "px_run asend send deliver (x, s) ts gs \<Longrightarrow> px_recvFunctional fsend p (x, s) = Inr (p', x', s') \<Longrightarrow>
     px_run asend send deliver (x', s') ts gs"
| release: "px_run asend send deliver (x, s) ts gs \<Longrightarrow> \<forall>q. told = Some q \<longrightarrow> q < length (respLayers x) \<Longrightarrow>
     xb_releaseLayer (px_recvTimingReq asend send now) now resend i (x, s) = Inr (told, x', s') \<Longrightarrow>
     px_run asend send deliver (x', s') (ts @ ideal_resent told resend x) gs"
| retry: "px_run asend send deliver (x, s) ts gs \<Longrightarrow> \<forall>q. told = Some q \<longrightarrow> q < length (respLayers x) \<Longrightarrow>
     px_recvRetry asend send now resend i (x, s) = Inr (told, x', s') \<Longrightarrow>
     px_run asend send deliver (x', s') (ts @ ideal_resent told resend x) gs"
| respond: "px_run asend send deliver (x, s) ts gs \<Longrightarrow> respondEvent x = Some now \<Longrightarrow> now \<noteq> - 1 \<Longrightarrow>
     respond_begin (x\<lparr>respondEvent := None\<rparr>) = Inr (src, p) \<Longrightarrow> deliver src s p = Inr (ok, q, s1) \<Longrightarrow>
     \<forall>(src, p) \<in> set rs. src < length (respLayers x) \<Longrightarrow>
     respond asend send deliver now rs (x\<lparr>respondEvent := None\<rparr>, s) = Inr (ok, x', s') \<Longrightarrow>
     px_run asend send deliver (x', s')
       (ts @ ideal_requests asend send now rs (x\<lparr>respondEvent := None, pkt_list := q # tl (pkt_list x)\<rparr>, s1))
       (gs @ (if ok then [(src, p)] else []))"
| drain: "px_run asend send deliver (x, s) ts gs \<Longrightarrow> px_run asend send deliver (snd (px_drain x), s) ts gs"

lemma px_run_ok:
  "px_run asend send deliver xs ts gs \<Longrightarrow> answers asend \<Longrightarrow> gives_back deliver \<Longrightarrow> px_ok (fst xs) ts gs"
proof (induction rule: px_run.induct)
  case (start names per hc w ud nm dflt ns fetch spm x s)
  then show ?case
    by (auto simp: px_init_def PIMXBar_def base_xbar.defs pim_xbar.defs px_inv_def px_ok_def px_queue_def split: if_splits)
next
  case (ranges x s ts gs i rs b x')
  then show ?case using px_ok_ideal [OF recvRangeChange_ideal] by fastforce
next
  case (request x s ts gs src now p ok p' x' s')
  then show ?case using px_ok_grow [OF px_request_grow [OF request(3)]] by simp
next
  case (response x s ts gs now m p ok p' x' s')
  then show ?case using px_ok_ideal [OF px_recvTimingResp_ideal [OF response(2)]] by simp
next
  case (atomic x s ts gs p lat p' x' s')
  then have "ideal_part x' = ideal_part x" by (auto simp: px_recvAtomic_def nc_recvAtomic_def dest: findPort_ideal)
  then show ?case using px_ok_ideal atomic by simp
next
  case (functional x s ts gs fsend p p' x' s')
  then have "ideal_part x' = ideal_part x" by (auto simp: px_recvFunctional_def nc_recvFunctional_def dest: findPort_ideal)
  then show ?case using px_ok_ideal functional by simp
next
  case (release x s ts gs told now resend i x' s')
  then have o: "px_ok x ts gs" by simp
  have "px_ok (set_req_layer i l x) (ts @ ideal_resent None resend x) gs" for l
    by (simp add: ideal_resent_def) (rule px_ok_ideal [OF _ o], simp add: set_req_layer_def ideal_part_def)
  then show ?case using release(3) px_retry_ok [OF _ release(5,2) o]
    by (auto simp: xb_releaseLayer_def Let_def split: if_splits)
next
  case (retry x s ts gs told now resend i x' s')
  then have o: "px_ok x ts gs" by simp
  have "px_ok (set_req_layer i l x) (ts @ ideal_resent None resend x) gs" for l
    by (simp add: ideal_resent_def) (rule px_ok_ideal [OF _ o], simp add: set_req_layer_def ideal_part_def)
  then show ?case using retry(3) px_retry_ok [OF _ retry(5,2) o]
    by (auto simp: px_recvRetry_def nc_recvRetry_def Let_def split: if_splits)
next
  case (respond x s ts gs now src p ok q s1 rs x' s')
  then show ?case using px_ok_respond [where deliver = deliver and s = s, OF _ respond(4,3,5) _ _ respond(6,7)] by simp
next
  case (drain x s ts gs)
  then show ?case using px_ok_ideal [of "snd (px_drain x)" x] by (simp add: px_drain_def nc_drain_def ideal_part_def Let_def)
qed simp

text \<open>C30: the ideal accesses form a queue. At any time the responses that ports have taken, followed by those that wait,
  answer the ideal requests taken so far, one for one, in order and each at the port it came from: a request that is owed a response
  has one with the command, address, size, destination and sender state of its answer. The memories behind the crossbar are
  assumed to answer in this way the atomic accesses that are owed a response, and a port that refuses a response to leave it as it is. While
  responses wait, the event that delivers them is scheduled. When it fires, the oldest is offered to its port, whatever that port
  requests in the meantime, and the crossbar goes on; only a packet that is no response, and whose request therefore was owed none, fails
  the assertion of the delivery.\<close>

theorem ideal_responses_in_order:
  assumes "px_run asend send deliver (x, s) ts gs" "answers asend" "gives_back deliver"
  shows "list_all2 answered (gs @ px_queue x) ts \<and> length (px_queue x) = length (pkt_list x) \<and>
    (\<forall>src p rest. px_queue x = (src, p) # rest \<longrightarrow> (is_owed (snd (ts ! length gs)) \<longrightarrow> isResponse p) \<and>
      (\<exists>now. respondEvent x = Some now \<and> (\<forall>ok q s1 rs x2 s2. now \<noteq> - 1 \<longrightarrow> deliver src s p = Inr (ok, q, s1) \<longrightarrow>
        (\<forall>(i, r) \<in> set rs. i < length (respLayers x)) \<longrightarrow>
        px_requests asend send now rs (x\<lparr>respondEvent := None, pkt_list := q # tl (pkt_list x)\<rparr>, s1) = Inr (x2, s2) \<longrightarrow>
        (if isResponse p then
           \<exists>x'. respond asend send deliver now rs (x\<lparr>respondEvent := None\<rparr>, s) = Inr (ok, x', s2) \<and>
             px_run asend send deliver (x', s2)
               (ts @ ideal_requests asend send now rs (x\<lparr>respondEvent := None, pkt_list := q # tl (pkt_list x)\<rparr>, s1))
               (gs @ (if ok then [(src, p)] else []))
         else respond asend send deliver now rs (x\<lparr>respondEvent := None\<rparr>, s) = Inl (AssertFail ''pkt->isResponse()'')))))"
proof -
  have i: "px_inv x" and a: "list_all2 answered (gs @ px_queue x) ts"
    using px_run_ok [OF assms] by (simp_all add: px_ok_def)
  have l: "length (px_queue x) = length (pkt_list x)" using i by (simp add: px_queue_def px_inv_def)
  have head: "(is_owed (snd (ts ! length gs)) \<longrightarrow> isResponse p) \<and> (\<exists>now. respondEvent x = Some now)"
    if h: "px_queue x = (src, p) # rest" for src p rest
  proof -
    have "answered (src, p) (ts ! length gs)" using list_all2_nthD [OF a, of "length gs"] h by simp
    moreover have "pkt_list x \<noteq> []" using h by (auto simp: px_queue_def)
    ultimately show ?thesis using i owed_answer_isResponse by (auto simp: answered_def px_inv_def)
  qed
  have go: "if isResponse p then \<exists>x'. respond asend send deliver now rs (x\<lparr>respondEvent := None\<rparr>, s) = Inr (ok, x', s2) \<and>
        px_run asend send deliver (x', s2)
          (ts @ ideal_requests asend send now rs (x\<lparr>respondEvent := None, pkt_list := q # tl (pkt_list x)\<rparr>, s1))
          (gs @ (if ok then [(src, p)] else []))
      else respond asend send deliver now rs (x\<lparr>respondEvent := None\<rparr>, s) = Inl (AssertFail ''pkt->isResponse()'')"
    if h: "px_queue x = (src, p) # rest" and n: "respondEvent x = Some now" "now \<noteq> - 1" and d: "deliver src s p = Inr (ok, q, s1)"
      and rs: "\<forall>(i, r) \<in> set rs. i < length (respLayers x)"
      and r: "px_requests asend send now rs (x\<lparr>respondEvent := None, pkt_list := q # tl (pkt_list x)\<rparr>, s1) = Inr (x2, s2)"
    for src p rest now ok q s1 rs x2 s2
  proof (cases "isResponse p")
    case True
    then have b: "respond_begin (x\<lparr>respondEvent := None\<rparr>) = Inr (src, p)" using respond_begin_head(3) [OF i h] by simp
    obtain x' where x': "respond asend send deliver now rs (x\<lparr>respondEvent := None\<rparr>, s) = Inr (ok, x', s2)"
      using respond_ok [where deliver = deliver and s = s, OF i h True n(2) d assms(2) rs r] by blast
    show ?thesis using px_run.respond [OF assms(1) n b d rs x'] x' True by auto
  next
    case False
    then show ?thesis using respond_begin_head(3) [OF i h] by (simp add: respond_def)
  qed
  show ?thesis
  proof (intro conjI allI impI a l)
    fix src p rest
    assume h: "px_queue x = (src, p) # rest"
    then show "is_owed (snd (ts ! length gs)) \<Longrightarrow> isResponse p" using head by blast
    obtain now where n: "respondEvent x = Some now" using head [OF h] by blast
    show "\<exists>now. respondEvent x = Some now \<and> (\<forall>ok q s1 rs x2 s2. now \<noteq> - 1 \<longrightarrow> deliver src s p = Inr (ok, q, s1) \<longrightarrow>
        (\<forall>(i, r) \<in> set rs. i < length (respLayers x)) \<longrightarrow>
        px_requests asend send now rs (x\<lparr>respondEvent := None, pkt_list := q # tl (pkt_list x)\<rparr>, s1) = Inr (x2, s2) \<longrightarrow>
        (if isResponse p then
           \<exists>x'. respond asend send deliver now rs (x\<lparr>respondEvent := None\<rparr>, s) = Inr (ok, x', s2) \<and>
             px_run asend send deliver (x', s2)
               (ts @ ideal_requests asend send now rs (x\<lparr>respondEvent := None, pkt_list := q # tl (pkt_list x)\<rparr>, s1))
               (gs @ (if ok then [(src, p)] else []))
         else respond asend send deliver now rs (x\<lparr>respondEvent := None\<rparr>, s) = Inl (AssertFail ''pkt->isResponse()'')))"
      by (intro exI [of _ now] conjI allI impI n) (rule go [OF h n])
  qed
qed

text \<open>A fetch from the memory of the model through a crossbar with ideal fetches.\<close>

definition ex_mem :: "nat \<Rightarrow> simple_mem atomic_peer" where
  "ex_mem d = sm_recvAtomic 0"

definition ex_taker :: "nat \<Rightarrow> simple_mem timing_peer" where
  "ex_taker d s p = Inr (True, p, s)"

definition ex_fetch :: packet where
  "ex_fetch = (plain_packet ReadReq 4 [9])\<lparr>pk_req := Request0\<lparr>rq_flags := INST_FETCH\<rparr>\<rparr>"

definition ex_px :: pim_xbar where
  "ex_px = (PIMXBar 1000 1 16 False 0 True 1 True False)\<lparr>gotAddrRanges := [True], gotAllAddrRanges := True\<rparr>"

definition ex_px_busy :: "packet \<Rightarrow> pim_xbar" where
  "ex_px_busy q = ex_px\<lparr>port_list := [0], pkt_list := [q], response_scheduled := True, respondEvent := Some 1001\<rparr>"

lemma ex_answers: "answers ex_mem" "gives_back ex_taker"
proof -
  have "ex_mem = (\<lambda>d. sm_recvAtomic 0)" by (simp add: ex_mem_def fun_eq_iff)
  then show "answers ex_mem" using sm_answers by metis
qed (simp add: gives_back_def ex_taker_def)

lemma ex_fetch_sel: "isRead ex_fetch" "getAddr ex_fetch = Inr 4" "rq_isInstFetch (pk_req ex_fetch)" "\<not> isWrite ex_fetch" "isRequest ex_fetch"
  "needsResponse ex_fetch" "\<not> memInhibitAsserted ex_fetch" "payload_ok ex_fetch [9]" "pk_addr ex_fetch = 4"
  by (simp_all add: ex_fetch_def plain_packet_def Packet_blank_def getAddr_def getPtr_def payload_ok_def fl_defs pkt_flag_defs pkt_test_defs cmd_defs
      memInhibitAsserted_def rq_isInstFetch_def rq_flag_defs)

lemma ex_fetch_answer: obtains q am where "px_recvTimingReq ex_mem ex_taker 1000 0 ex_fetch (ex_px, example_sm) = Inr (True, q, ex_px_busy q, example_sm\<lparr>sm_mem := am\<rparr>)"
    "getPtr q = Inr [0]"
proof -
  have "\<not> isLLSC ex_fetch" by (simp add: ex_fetch_def pkt_test_defs cmd_defs)
  moreover have at: "bytes_at (mem_view example_mem) (pk_addr ex_fetch) [0]" using example_mem_zero [of 4 "Suc 0"] ex_fetch_sel(9) by simp
  ultimately obtain q am where a: "access example_mem ex_fetch = Inr (q, am)" "getPtr q = Inr [0]"
    using access_load_spec [OF example_mem_inv(1) ex_fetch_sel(1,4,5,6,7,8) at] by auto
  have r: "sm_recvAtomic 0 example_sm ex_fetch = Inr (if memInhibitAsserted q then 0 else 10, q, example_sm\<lparr>sm_mem := am\<rparr>)"
    using a(1) by (simp add: sm_recvAtomic_def sm_access_def getLatency_def example_sm_def SimpleMemory_def)
  have "px_recvTimingReq ex_mem ex_taker 1000 0 ex_fetch (ex_px, example_sm) =
      Inr (True, q\<lparr>lastWordDelay := if memInhibitAsserted q then 0 else 10\<rparr>,
        ex_px_busy (q\<lparr>lastWordDelay := if memInhibitAsserted q then 0 else 10\<rparr>), example_sm\<lparr>sm_mem := am\<rparr>)"
    by (simp add: r px_recvTimingReq_def px_ideal_def px_recvAtomic_def nc_recvAtomic_def ex_px_def ex_px_busy_def PIMXBar_def NoncoherentXBar_def
      base_xbar.defs pim_xbar.defs replicate_small findPort_def checkPortCache_def find_addr_def find_range_def default_port_def
      ex_fetch_sel ex_mem_def schedule_event_def WAIT_ps_def)
  moreover have "getPtr (q\<lparr>lastWordDelay := if memInhibitAsserted q then 0 else 10\<rparr>) = Inr [0]" using a(2) by (simp add: getPtr_def)
  ultimately show ?thesis by (rule that)
qed

lemma ex_px_run: obtains q am where "px_run ex_mem ex_taker ex_taker (ex_px_busy q, example_sm\<lparr>sm_mem := am\<rparr>) [(0, ex_fetch)] []" "getPtr q = Inr [0]"
proof -
  let ?run = "px_run ex_mem ex_taker ex_taker"
  have 1: "?run (PIMXBar 1000 1 16 False 0 True 1 True False, example_sm) [] []"
    by (rule px_run.start [of "[]" 1000 1 16 False 0 True 1 True False]) (simp add: px_init_def PIMXBar_def base_xbar.defs pim_xbar.defs)
  have "recvRangeChange 0 [] (PIMXBar 1000 1 16 False 0 True 1 True False) = Inr (True, ex_px)"
    by (simp add: recvRangeChange_def update_map_def update_ranges_def clearPortCache_def ex_px_def PIMXBar_def NoncoherentXBar_def
        base_xbar.defs pim_xbar.defs replicate_small)
  then have 2: "?run (ex_px, example_sm) [] []" by (rule px_run.ranges [OF 1])
  obtain q am where r: "px_recvTimingReq ex_mem ex_taker 1000 0 ex_fetch (ex_px, example_sm) = Inr (True, q, ex_px_busy q, example_sm\<lparr>sm_mem := am\<rparr>)"
    "getPtr q = Inr [0]" by (rule ex_fetch_answer)
  have t: "ideal_taken 0 ex_fetch ex_px = [(0, ex_fetch)]" "0 < length (respLayers ex_px)"
    by (simp_all add: ideal_taken_def px_is_ideal_def ex_fetch_sel ex_px_def PIMXBar_def NoncoherentXBar_def base_xbar.defs pim_xbar.defs)
  from px_run.request [OF 2 t(2) r(1)] t(1) have "?run (ex_px_busy q, example_sm\<lparr>sm_mem := am\<rparr>) [(0, ex_fetch)] []" by simp
  then show ?thesis using r(2) that by blast
qed

theorem ideal_responses_in_order_witness:
  "\<exists>q s x'. px_run ex_mem ex_taker ex_taker (ex_px_busy q, s) [(0, ex_fetch)] [] \<and> is_owed ex_fetch \<and>
     header q = answer_header ex_fetch \<and> getPtr q = Inr [0] \<and>
     respond ex_mem ex_taker ex_taker 1001 [] ((ex_px_busy q)\<lparr>respondEvent := None\<rparr>, s) = Inr (True, x', s) \<and>
     px_run ex_mem ex_taker ex_taker (x', s) [(0, ex_fetch)] [(0, q)]"
proof -
  obtain q am where run: "px_run ex_mem ex_taker ex_taker (ex_px_busy q, example_sm\<lparr>sm_mem := am\<rparr>) [(0, ex_fetch)] []" "getPtr q = Inr [0]"
    by (rule ex_px_run)
  let ?s = "example_sm\<lparr>sm_mem := am\<rparr>"
  have o: "is_owed ex_fetch" by (simp add: is_owed_def ex_fetch_sel)
  have q: "px_queue (ex_px_busy q) = (0, q) # []" "respondEvent (ex_px_busy q) = Some 1001" by (simp_all add: px_queue_def ex_px_busy_def)
  note th = ideal_responses_in_order [OF run(1) ex_answers]
  have h: "header q = answer_header ex_fetch" using conjunct1 [OF th] q o by (simp add: answered_def)
  have r: "isResponse q" using h o owed_answer_isResponse by blast
  let ?x = "(ex_px_busy q)\<lparr>respondEvent := None, pkt_list := q # tl (pkt_list (ex_px_busy q))\<rparr>"
  from conjunct2 [OF mp [OF spec [OF spec [OF spec [OF conjunct2 [OF conjunct2 [OF th]]]]] q(1)]] q(2) r
  have "\<exists>x'. respond ex_mem ex_taker ex_taker 1001 [] ((ex_px_busy q)\<lparr>respondEvent := None\<rparr>, ?s) = Inr (True, x', ?s) \<and>
      px_run ex_mem ex_taker ex_taker (x', ?s) [(0, ex_fetch)] [(0, q)]"
    apply (elim exE conjE)
    apply (drule spec [of _ True], drule spec [of _ q], drule spec [of _ ?s], drule spec [of _ "[]"], drule spec [of _ ?x], drule spec [of _ ?s])
    apply (simp add: ex_taker_def)
    done
  then show ?thesis using run o h by blast
qed

text \<open>Draining counts the layers only: a crossbar that can be reached reports that it is drained while the response
  to a fetch is still in its queue.\<close>

theorem px_drain_pending: "\<exists>x s ts gs. px_run ex_mem ex_taker ex_taker (x, s) ts gs \<and> pkt_list x \<noteq> [] \<and> px_drain x = (0, x)"
proof -
  have "px_drain (ex_px_busy q) = (0, ex_px_busy q)" for q
    by (simp add: px_drain_def nc_drain_def layer_drain_def Layer_def ex_px_busy_def ex_px_def PIMXBar_def NoncoherentXBar_def
        base_xbar.defs pim_xbar.defs)
  moreover have "pkt_list (ex_px_busy q) \<noteq> []" for q by (simp add: ex_px_busy_def)
  ultimately show ?thesis using ex_px_run by metis
qed

end
