(* ===== verification/PortProxy.thy ===== *)
theory PortProxy
  imports AbstractMem DmaPort
begin

text \<open>
  The proxy through which loaders, the debugger and system calls read and write memory (\<open>mem/port_proxy.cc\<close>,
  \<open>mem/port_proxy.hh\<close> under \<open>src/SMC_original/GEM5/gem5/src\<close>): a buffer is cut at the borders of cache lines and each
  piece is one functional access. The proxy relies on the contract \<open>functional_memory\<close> of its port. The
  conversion of byte order for guests is left out.
\<close>

definition funcMasterId :: nat where "funcMasterId = 1"

text \<open>A packet with static data points into the buffer of the caller: what the memory leaves in it is in the buffer.\<close>

definition piece_after :: "packet \<Rightarrow> byte list \<Rightarrow> byte list" where
  "piece_after p d = (case pk_data p of Some d' \<Rightarrow> d' | None \<Rightarrow> d)"

fun blob_loop ::
    "'s functional_peer \<Rightarrow> Tick \<Rightarrow> mem_cmd \<Rightarrow> chunk_generator list \<Rightarrow> request \<Rightarrow> byte list \<Rightarrow> 's \<Rightarrow> (byte list \<times> 's) res" where
  "blob_loop sendFunctional now cmd [] req p s = Inr (p, s)"
| "blob_loop sendFunctional now cmd (g # gs) req p s =
     (let n = unat (curSize g) in
      bindR (setPhys req (curAddr g) (sint (curSize g)) 0 funcMasterId now) (\<lambda>req'.
        if length p < n then Inl OutOfRange
        else
          bindR (dataStatic (Packet_new req' cmd) (take n p)) (\<lambda>pkt.
          bindR (sendFunctional s pkt) (\<lambda>(pkt', s').
          bindR (blob_loop sendFunctional now cmd gs req' (drop n p) s') (\<lambda>(rest, s'').
            Inr (piece_after pkt' (take n p) @ rest, s''))))))"

definition blobHelper ::
    "'s functional_peer \<Rightarrow> Tick \<Rightarrow> u32 \<Rightarrow> Addr \<Rightarrow> byte list \<Rightarrow> u32 \<Rightarrow> mem_cmd \<Rightarrow> 's \<Rightarrow> (byte list \<times> 's) res" where
  "blobHelper sendFunctional now line a p sz cmd s =
     bindR (ChunkGenerator a sz line) (\<lambda>g. blob_loop sendFunctional now cmd (chunks g) Request0 p s)"

definition readBlob ::
    "'s functional_peer \<Rightarrow> Tick \<Rightarrow> u32 \<Rightarrow> Addr \<Rightarrow> byte list \<Rightarrow> u32 \<Rightarrow> 's \<Rightarrow> (byte list \<times> 's) res" where
  "readBlob sendFunctional now line a p sz s = blobHelper sendFunctional now line a p sz ReadReq s"

definition writeBlob ::
    "'s functional_peer \<Rightarrow> Tick \<Rightarrow> u32 \<Rightarrow> Addr \<Rightarrow> byte list \<Rightarrow> u32 \<Rightarrow> 's \<Rightarrow> (byte list \<times> 's) res" where
  "writeBlob sendFunctional now line a p sz s = blobHelper sendFunctional now line a p sz WriteReq s"

definition memsetBlob :: "'s functional_peer \<Rightarrow> Tick \<Rightarrow> u32 \<Rightarrow> Addr \<Rightarrow> byte \<Rightarrow> u32 \<Rightarrow> 's \<Rightarrow> 's res" where
  "memsetBlob sendFunctional now line a v sz s =
     bindR (blobHelper sendFunctional now line a (replicate (unat sz) v) sz WriteReq s) (\<lambda>(_, s'). Inr s')"

text \<open>Access to a value of \<open>n\<close> bytes; the host is little-endian, and \<open>junk\<close> is what the variable on the stack holds.\<close>

definition proxy_read :: "'s functional_peer \<Rightarrow> Tick \<Rightarrow> u32 \<Rightarrow> Addr \<Rightarrow> nat \<Rightarrow> byte list \<Rightarrow> 's \<Rightarrow> (nat \<times> 's) res" where
  "proxy_read sendFunctional now line a n junk s =
     bindR (readBlob sendFunctional now line a junk (of_nat n) s) (\<lambda>(d, s'). Inr (le_to_nat d, s'))"

definition proxy_write :: "'s functional_peer \<Rightarrow> Tick \<Rightarrow> u32 \<Rightarrow> Addr \<Rightarrow> nat \<Rightarrow> nat \<Rightarrow> 's \<Rightarrow> 's res" where
  "proxy_write sendFunctional now line a n v s =
     bindR (writeBlob sendFunctional now line a (nat_to_le n v) (of_nat n) s) (\<lambda>(_, s'). Inr s')"

section \<open>One piece\<close>

lemma valid_bits: "(x OR 3) AND 2 \<noteq> (0 :: 8 word)" "(x OR 3) AND 1 \<noteq> (0 :: 8 word)"
proof -
  have "bit ((x OR 3) AND 2) 1" "bit ((x OR 3) AND 1) 0" by (simp_all add: bit_simps flip: numeral_2_eq_2)
  then show "(x OR 3) AND 2 \<noteq> (0 :: 8 word)" "(x OR 3) AND 1 \<noteq> (0 :: 8 word)" by auto
qed

lemma blob_packet:
  assumes t: "tiles a tot c n (g # gs)" and sz: "tot < 2 ^ 31" "unat a + tot \<le> 2 ^ 64" and d: "length p = tot - n"
  obtains req' pkt where "setPhys req (curAddr g) (sint (curSize g)) 0 funcMasterId now = Inr req'"
    "dataStatic (Packet_new req' cmd) (take (unat (curSize g)) p) = Inr pkt" "pk_cmd pkt = cmd" "wf_packet pkt"
    "pk_addr pkt = a + of_nat n" "payload_ok pkt (take (unat (curSize g)) p)"
proof -
  note td = tiles_ConsD [OF t]
  have k: "unat (curSize g) < 2 ^ 31" using td(2) sz(1) by linarith
  have nz: "0 < unat (curSize g)" using td(5) by (simp add: unat_gt_0)
  have s: "sint (curSize g) = int (unat (curSize g))" by (rule sint_u32_small [OF k])
  obtain r where r: "setPhys req (curAddr g) (sint (curSize g)) 0 funcMasterId now = Inr r" "rq_paddr r = curAddr g"
    "rq_size r = int (unat (curSize g))" "hasPaddr r" "hasSize r"
    by (simp add: setPhys_def s hasPaddr_def hasSize_def fl_defs rq_flag_defs valid_bits)
  let ?p = "(Packet_new r cmd)\<lparr>pk_data := Some (take (unat (curSize g)) p), pk_flags := fl_set (pk_flags (Packet_new r cmd)) STATIC_DATA\<rparr>"
  have q: "dataStatic (Packet_new r cmd) (take (unat (curSize g)) p) = Inr ?p"
    using r by (simp add: dataStatic_def Packet_new_def Packet_blank_def fl_defs pkt_flag_defs)
  have "unat (a + of_nat n) = unat a + n" using sz(2) td(2) nz by (intro unat_add_of_nat) linarith
  then have "payload_ok ?p (take (unat (curSize g)) p)" using r td d nz sz
    by (auto simp: payload_ok_def getPtr_def Packet_new_def Packet_blank_def Let_def fl_defs pkt_flag_defs min_def)
  moreover have "wf_packet ?p" using r by (simp add: wf_packet_def Packet_new_def Packet_blank_def Let_def fl_defs pkt_flag_defs)
  ultimately show thesis using that [OF r(1) q] r td(4) by (simp add: Packet_new_def Packet_blank_def Let_def)
qed

section \<open>All pieces, over any functional memory\<close>

lemma blob_cmds:
  "pk_cmd p = WriteReq \<Longrightarrow> isWrite p \<and> \<not> isRead p \<and> isRequest p \<and> needsResponse p"
  "pk_cmd p = ReadReq \<Longrightarrow> isRead p \<and> isRequest p \<and> needsResponse p"
  by (simp_all add: pkt_test_defs cmd_defs)

lemma blob_loop_Cons:
  assumes "setPhys req (curAddr g) (sint (curSize g)) 0 funcMasterId now = Inr req'" "unat (curSize g) \<le> length p"
    "dataStatic (Packet_new req' cmd) (take (unat (curSize g)) p) = Inr pkt" "send s pkt = Inr (pkt', s')"
    "blob_loop send now cmd gs req' (drop (unat (curSize g)) p) s' = Inr (rest, s'')"
  shows "blob_loop send now cmd (g # gs) req p s = Inr (piece_after pkt' (take (unat (curSize g)) p) @ rest, s'')"
  using assms by (simp add: Let_def)

context functional_memory
begin

lemma blob_write:
  assumes "tiles a tot c n gs" "tot < 2 ^ 31" "unat a + tot \<le> 2 ^ 64" "n + length p = tot" "inv s" "backed (view s) a tot"
  shows "\<exists>p' s'. blob_loop facc now WriteReq gs req p s = Inr (p', s') \<and> inv s' \<and>
    view s' = store_at (view s) (a + of_nat n) p"
  using assms
proof (induction gs arbitrary: n p s req)
  case Nil
  then have "length p = 0" using tiles_NilD [OF Nil.prems(1)] by linarith
  then have "p = []" by simp
  then show ?case using Nil by (auto simp: store_at_def)
next
  case (Cons g gs)
  note t = tiles_ConsD [OF Cons.prems(1)]
  let ?k = "unat (curSize g)" and ?d = "take (unat (curSize g)) p" and ?e = "drop (unat (curSize g)) p"
  have lp: "length p = tot - n" "?k \<le> length p" using Cons.prems(4) t(2) by linarith+
  obtain req' pkt where k: "setPhys req (curAddr g) (sint (curSize g)) 0 funcMasterId now = Inr req'"
    "dataStatic (Packet_new req' WriteReq) ?d = Inr pkt" "pk_cmd pkt = WriteReq" "wf_packet pkt"
    "pk_addr pkt = a + of_nat n" "payload_ok pkt ?d"
    by (rule blob_packet [OF Cons.prems(1-3) lp(1)])
  have ld: "length ?d = ?k" using lp(2) by simp
  obtain old where o: "bytes_at (view s) (pk_addr pkt) old" "length old = length ?d"
    using backed_bytes [OF Cons.prems(6) t(2)] ld k(5) by auto
  obtain q s1 where s1: "facc s pkt = Inr (q, s1)" "inv s1" "view s1 = store_at (view s) (a + of_nat n) ?d"
    using write_law [OF Cons.prems(5) k(4) _ _ _ _ k(6) o] blob_cmds(1) [OF k(3)] k(5) by auto
  have "n + ?k + length ?e = tot" using Cons.prems(4) lp(2) by simp
  moreover have "backed (view s1) a tot" using backed_store [OF Cons.prems(6)] s1(3) by simp
  ultimately obtain p' s2 where s2: "blob_loop facc now WriteReq gs req' ?e s1 = Inr (p', s2)" "inv s2"
    "view s2 = store_at (view s1) (a + of_nat (n + ?k)) ?e"
    using Cons.IH [OF t(3) Cons.prems(2,3) _ s1(2)] by blast
  have "length (?d @ ?e) < 2 ^ 64" using Cons.prems(2,4) by simp
  then have "view s2 = store_at (view s) (a + of_nat n) p"
    using store_at_append [of ?d ?e "view s" "a + of_nat n"] ld s2(3) s1(3) by (simp add: add.assoc)
  then show ?case using blob_loop_Cons [OF k(1) lp(2) k(2) s1(1) s2(1)] s2(2) by blast
qed

lemma blob_read:
  assumes "tiles a tot c n gs" "tot < 2 ^ 31" "unat a + tot \<le> 2 ^ 64" "n + length p = tot" "inv s"
    "bytes_at (view s) a bs" "length bs = tot"
  shows "blob_loop facc now ReadReq gs req p s = Inr (drop n bs, s)"
  using assms
proof (induction gs arbitrary: n p req)
  case Nil
  then have "length p = 0" using tiles_NilD [OF Nil.prems(1)] by linarith
  moreover have "drop n bs = []" using tiles_NilD [OF Nil.prems(1)] Nil.prems(7) by simp
  ultimately have "p = []" "drop n bs = []" by simp_all
  then show ?case by simp
next
  case (Cons g gs)
  note t = tiles_ConsD [OF Cons.prems(1)]
  let ?k = "unat (curSize g)" and ?d = "take (unat (curSize g)) p" and ?e = "drop (unat (curSize g)) p"
  let ?b = "take (unat (curSize g)) (drop n bs)"
  have lp: "length p = tot - n" "?k \<le> length p" using Cons.prems(4) t(2) by linarith+
  obtain req' pkt where k: "setPhys req (curAddr g) (sint (curSize g)) 0 funcMasterId now = Inr req'"
    "dataStatic (Packet_new req' ReadReq) ?d = Inr pkt" "pk_cmd pkt = ReadReq" "wf_packet pkt"
    "pk_addr pkt = a + of_nat n" "payload_ok pkt ?d"
    by (rule blob_packet [OF Cons.prems(1-3) lp(1)])
  have at: "bytes_at (view s) (pk_addr pkt) ?b" using bytes_at_drop [OF Cons.prems(6)] Cons.prems(4,7) k(5) by simp
  have lb: "length ?b = length ?d" using Cons.prems(4,7) by simp
  obtain q where q: "facc s pkt = Inr (q, s)" "getPtr q = Inr ?b"
    using read_law [OF Cons.prems(5) k(4) _ _ _ k(6) at lb] blob_cmds(2) [OF k(3)] by auto
  then have pa: "piece_after q ?d = ?b" by (auto simp: getPtr_def piece_after_def split: option.splits)
  have "n + ?k + length ?e = tot" using Cons.prems(4) lp(2) by simp
  then have s2: "blob_loop facc now ReadReq gs req' ?e s = Inr (drop (n + ?k) bs, s)"
    using Cons.IH [OF t(3) Cons.prems(2,3) _ Cons.prems(5-7)] by blast
  have "?b @ drop (n + ?k) bs = drop n bs" using append_take_drop_id [of ?k "drop n bs"] by (simp add: add.commute)
  then show ?case using blob_loop_Cons [OF k(1) lp(2) k(2) q(1) s2] pa by simp
qed

lemma proxy_writes:
  assumes "line = 0 \<or> isPowerOf2 line" "length d < 2 ^ 31" "unat a + length d \<le> 2 ^ 64" "inv s" "backed (view s) a (length d)"
  shows "\<exists>p' s'. writeBlob facc now line a d (of_nat (length d)) s = Inr (p', s') \<and> inv s' \<and> view s' = store_at (view s) a d"
proof -
  have u: "unat (of_nat (length d) :: u32) = length d" using assms(2) by (intro unat_of_nat_small) simp
  obtain g where g: "ChunkGenerator a (of_nat (length d)) line = Inr g"
    using assms(1) by (simp add: ChunkGenerator_def Let_def)
  have "tiles a (length d) (unat line) 0 (chunks g)" using chunks_tile [OF g] by (simp only: u)
  from blob_write [OF this assms(2,3) _ assms(4,5), of d now Request0] g show ?thesis
    by (simp add: writeBlob_def blobHelper_def)
qed

lemma proxy_reads:
  assumes "line = 0 \<or> isPowerOf2 line" "length bs < 2 ^ 31" "unat a + length bs \<le> 2 ^ 64" "inv s" "bytes_at (view s) a bs"
    "length p = length bs"
  shows "readBlob facc now line a p (of_nat (length bs)) s = Inr (bs, s)"
proof -
  have u: "unat (of_nat (length bs) :: u32) = length bs" using assms(2) by (intro unat_of_nat_small) simp
  obtain g where g: "ChunkGenerator a (of_nat (length bs)) line = Inr g"
    using assms(1) by (simp add: ChunkGenerator_def Let_def)
  have "tiles a (length bs) (unat line) 0 (chunks g)" using chunks_tile [OF g] by (simp only: u)
  from blob_read [OF this assms(2,3) _ assms(4,5), of p now Request0] g assms(6) show ?thesis
    by (simp add: readBlob_def blobHelper_def)
qed

lemma proxy_value:
  assumes "line = 0 \<or> isPowerOf2 line" "n < 2 ^ 31" "unat a + n \<le> 2 ^ 64" "inv s" "backed (view s) a n" "length junk = n"
  shows "\<exists>s'. proxy_write facc now line a n v s = Inr s' \<and> proxy_read facc now line a n junk s' = Inr (v mod 256 ^ n, s')"
proof -
  have l: "length (nat_to_le n v) = n" by simp
  obtain p' s' where w: "writeBlob facc now line a (nat_to_le n v) (of_nat n) s = Inr (p', s')" "inv s'"
    "view s' = store_at (view s) a (nat_to_le n v)"
    using proxy_writes [of line "nat_to_le n v" a s now] assms by auto
  have "bytes_at (view s') a (nat_to_le n v)" unfolding w(3) using assms(3) by (intro bytes_at_store_at) simp
  then have "readBlob facc now line a junk (of_nat n) s' = Inr (nat_to_le n v, s')"
    using proxy_reads [of line "nat_to_le n v" a s' junk] assms w(2) by simp
  then show ?thesis using w(1) by (simp add: proxy_write_def proxy_read_def le_to_nat_of_nat_to_le)
qed

end

section \<open>Properties\<close>

text \<open>C14: Through the proxy the memory is a byte array, whatever the cache line size and however the buffers lie across lines:
  a write stores the buffer and nothing else, a following read of the region returns it, filling stores the byte everywhere,
  and a value that is written reads back, cut to its number of bytes.\<close>

theorem proxy_write_read:
  assumes "mem_inv m" "line = 0 \<or> isPowerOf2 line" "length d < 2 ^ 31" "unat a + length d \<le> 2 ^ 64"
    "bytes_at (mem_view m) a old" "length old = length d" "length buf = length d"
  shows "(\<exists>p' m1. writeBlob functionalAccess now line a d (of_nat (length d)) m = Inr (p', m1) \<and>
      mem_view m1 = store_at (mem_view m) a d \<and>
      readBlob functionalAccess now line a buf (of_nat (length d)) m1 = Inr (d, m1)) \<and>
    (\<exists>m2. memsetBlob functionalAccess now line a v (of_nat (length d)) m = Inr m2 \<and>
      mem_view m2 = store_at (mem_view m) a (replicate (length d) v)) \<and>
    (\<exists>m3. proxy_write functionalAccess now line a (length d) x m = Inr m3 \<and>
      proxy_read functionalAccess now line a (length d) buf m3 = Inr (x mod 256 ^ length d, m3))"
proof -
  have b: "backed (mem_view m) a (length d)" using bytes_at_backed [OF assms(5)] assms(6) by simp
  obtain p' m1 where w: "writeBlob functionalAccess now line a d (of_nat (length d)) m = Inr (p', m1)" "mem_inv m1"
    "mem_view m1 = store_at (mem_view m) a d" using am.proxy_writes [OF assms(2-4,1) b, of now] by blast
  have "bytes_at (mem_view m1) a d" unfolding w(3) using assms(4) by (intro bytes_at_store_at) simp
  then have "readBlob functionalAccess now line a buf (of_nat (length d)) m1 = Inr (d, m1)"
    by (rule am.proxy_reads [OF assms(2-4) w(2) _ assms(7)])
  then have 1: "\<exists>p' m1. writeBlob functionalAccess now line a d (of_nat (length d)) m = Inr (p', m1) \<and>
      mem_view m1 = store_at (mem_view m) a d \<and>
      readBlob functionalAccess now line a buf (of_nat (length d)) m1 = Inr (d, m1)" using w by blast
  have "unat (of_nat (length d) :: u32) = length d" using assms(3) by (intro unat_of_nat_small) simp
  moreover obtain p2 m2 where "writeBlob functionalAccess now line a (replicate (length d) v) (of_nat (length d)) m = Inr (p2, m2)"
    "mem_view m2 = store_at (mem_view m) a (replicate (length d) v)"
    using am.proxy_writes [OF assms(2) _ _ assms(1), of "replicate (length d) v" a now] assms(3,4) b by auto
  ultimately have 2: "\<exists>m2. memsetBlob functionalAccess now line a v (of_nat (length d)) m = Inr m2 \<and>
      mem_view m2 = store_at (mem_view m) a (replicate (length d) v)"
    by (simp add: memsetBlob_def writeBlob_def)
  show ?thesis using 1 2 am.proxy_value [OF assms(2-4,1) b assms(7), of now x] by blast
qed

theorem proxy_write_read_witness:
  "\<exists>p' m1 m2. writeBlob functionalAccess 0 4 2 [1, 2, 3, 4, 5] 5 example_mem = Inr (p', m1) \<and>
     readBlob functionalAccess 0 4 2 [0, 0, 0, 0, 0] 5 m1 = Inr ([1, 2, 3, 4, 5], m1) \<and>
     memsetBlob functionalAccess 0 4 2 7 5 example_mem = Inr m2"
proof -
  have i: "mem_inv example_mem" using example_mem_inv(1) by (simp add: am_inv_def)
  have b: "bytes_at (mem_view example_mem) 2 (replicate 5 0)" by (rule example_mem_zero) simp
  have "isPowerOf2 (4 :: u32)" by (simp add: isPowerOf2_def)
  with proxy_write_read [of example_mem 4 "[1, 2, 3, 4, 5]" 2 "replicate 5 0" "[0, 0, 0, 0, 0]" 0 7 0] i b show ?thesis by auto
qed

end
