(* ===== verification/Cells.thy ===== *)
theory Cells
  imports Prelude
begin

text \<open>
  Objects that the code links by pointers: a store of cells, in which a pointer is an index and a deleted object is an
  empty cell. A loop along pointers gets as much fuel as the store has cells; a chain without cycles never
  uses it up, and on a cycle the loop would not end.
\<close>

type_synonym 'a cells = "'a option list"

definition cell :: "'a cells \<Rightarrow> nat \<Rightarrow> 'a res" where
  "cell h a = (if a < length h then (case h ! a of Some v \<Rightarrow> Inr v | None \<Rightarrow> Inl BadPtr) else Inl BadPtr)"

definition set_cell :: "'a cells \<Rightarrow> nat \<Rightarrow> 'a \<Rightarrow> 'a cells" where
  "set_cell h a v = h[a := Some v]"

definition upd_cell :: "'a cells \<Rightarrow> nat \<Rightarrow> ('a \<Rightarrow> 'a) \<Rightarrow> 'a cells res" where
  "upd_cell h a f = bindR (cell h a) (\<lambda>v. Inr (set_cell h a (f v)))"

definition new_cell :: "'a cells \<Rightarrow> 'a \<Rightarrow> nat \<times> 'a cells" where
  "new_cell h v = (length h, h @ [Some v])"

definition free_cell :: "'a cells \<Rightarrow> nat \<Rightarrow> 'a cells" where
  "free_cell h a = h[a := None]"

lemma cell_lt: "cell h a = Inr v \<Longrightarrow> a < length h"
  by (simp add: cell_def split: if_splits)

lemma cell_set: "cell h a = Inr w \<Longrightarrow> cell (set_cell h a v) b = (if b = a then Inr v else cell h b)"
  by (auto simp: cell_def set_cell_def nth_list_update split: if_splits)

lemma cell_set_other [simp]: "b \<noteq> a \<Longrightarrow> cell (set_cell h a v) b = cell h b"
  by (auto simp: cell_def set_cell_def nth_list_update)

lemma length_set_cell [simp]: "length (set_cell h a v) = length h" "length (free_cell h a) = length h"
  by (simp_all add: set_cell_def free_cell_def)

lemma cell_new: "cell (h @ [Some v]) b = (if b = length h then Inr v else cell h b)"
  by (auto simp: cell_def nth_append)

lemma cell_free: "cell (free_cell h a) b = (if b = a then Inl BadPtr else cell h b)"
  by (auto simp: cell_def free_cell_def nth_list_update)

lemma upd_cell_Inr: "cell h a = Inr v \<Longrightarrow> upd_cell h a f = Inr (set_cell h a (f v))"
  by (simp add: upd_cell_def)

lemma distinct_cells:
  assumes "distinct as" "\<forall>a \<in> set as. \<exists>v. cell h a = Inr v"
  shows "length as \<le> length h"
proof -
  have "set as \<subseteq> {..<length h}" using assms(2) cell_lt by fastforce
  then have "card (set as) \<le> card {..<length h}" by (intro card_mono) simp_all
  then show ?thesis using distinct_card [OF assms(1)] by simp
qed

end
