(* ===== verification/PacketQueue.thy ===== *)
theory PacketQueue
  imports Cells XBar
begin

text \<open>
  The queue of packets that a port sends later (\<open>mem/packet_queue.cc\<close>, \<open>mem/packet_queue.hh\<close> under
  \<open>src/SMC_original/GEM5/gem5/src\<close>). A packet is a pointer. The peer that a packet is sent to may schedule further packets on
  the queue before it answers, as the source allows for: the argument \<open>send\<close> returns them with its answer.
\<close>

section \<open>The queue\<close>

definition MaxTick :: Tick where "MaxTick = 0xffffffffffffffff"

record deferred_packet =
  dp_tick :: Tick
  dp_pkt :: nat
  sendAsSnoop :: bool

record packet_queue =
  pq_list :: "deferred_packet list"
  pq_event :: "Tick option"
  pq_drainManager :: bool
  pq_signals :: nat
  waitingOnRetry :: bool

definition PacketQueue :: packet_queue where
  "PacketQueue = \<lparr>pq_list = [], pq_event = None, pq_drainManager = False, pq_signals = 0, waitingOnRetry = False\<rparr>"

definition deferredPacketReady :: "Tick \<Rightarrow> packet_queue \<Rightarrow> bool" where
  "deferredPacketReady now q \<longleftrightarrow> (case pq_list q of [] \<Rightarrow> False | d # _ \<Rightarrow> dp_tick d \<le> now)"

definition deferredPacketReadyTime :: "packet_queue \<Rightarrow> Tick" where
  "deferredPacketReadyTime q = (case pq_list q of [] \<Rightarrow> MaxTick | d # _ \<Rightarrow> dp_tick d)"

text \<open>The scheduling of the send event, with the assertion of the event queue.\<close>

definition pq_schedule :: "Tick \<Rightarrow> Tick \<Rightarrow> packet_queue \<Rightarrow> packet_queue res" where
  "pq_schedule now w q = assertR (w \<ge> now) ''when >= getCurTick()'' (Inr (q\<lparr>pq_event := Some w\<rparr>))"

definition schedSendEvent :: "Tick \<Rightarrow> Tick \<Rightarrow> packet_queue \<Rightarrow> packet_queue res" where
  "schedSendEvent now w q =
     (if waitingOnRetry q then assertR (pq_event q = None) ''!sendEvent.scheduled()'' (Inr q)
      else case pq_event q of
             None \<Rightarrow> pq_schedule now w q
           | Some e \<Rightarrow> if e > w then pq_schedule now w q else Inr q)"

text \<open>The insertion after the first element; \<open>i\<close> runs along the list.\<close>

fun pq_insert :: "deferred_packet \<Rightarrow> deferred_packet list \<Rightarrow> deferred_packet list" where
  "pq_insert d [] = [d]"
| "pq_insert d (c # cs) = (if dp_tick d \<ge> dp_tick c then c # pq_insert d cs else d # c # cs)"

text \<open>\<open>v\<close> is the packet that \<open>p\<close> points to.\<close>

definition schedSendTiming :: "Tick \<Rightarrow> nat \<Rightarrow> packet \<Rightarrow> Tick \<Rightarrow> bool \<Rightarrow> packet_queue \<Rightarrow> packet_queue res" where
  "schedSendTiming now p v w snoop q =
     assertR (w \<ge> now) ''when >= curTick()''
     (assertR (\<not> isExpressSnoop v) ''!pkt->isExpressSnoop()''
       (if length (pq_list q) > 100 then Inl (Panic ''Packet queue has grown beyond 100 packets'')
        else
          let d = \<lparr>dp_tick = w, dp_pkt = p, sendAsSnoop = snoop\<rparr> in
          case pq_list q of
            [] \<Rightarrow> schedSendEvent now w (q\<lparr>pq_list := [d]\<rparr>)
          | c # cs \<Rightarrow>
              if w < dp_tick c then schedSendEvent now w (q\<lparr>pq_list := d # c # cs\<rparr>)
              else if w \<ge> dp_tick (last (c # cs)) then Inr (q\<lparr>pq_list := (c # cs) @ [d]\<rparr>)
              else Inr (q\<lparr>pq_list := c # pq_insert d cs\<rparr>)))"

text \<open>Sending. A push is a call of \<open>schedSendTiming\<close> that happens while the packet is being sent.\<close>

type_synonym push = "nat \<times> packet \<times> Tick \<times> bool"
type_synonym 's pq_peer = "'s \<Rightarrow> nat \<Rightarrow> bool \<Rightarrow> (bool \<times> push list \<times> 's) res"

fun pushes :: "Tick \<Rightarrow> push list \<Rightarrow> packet_queue \<Rightarrow> packet_queue res" where
  "pushes now [] q = Inr q"
| "pushes now ((p, v, w, snoop) # ps) q = bindR (schedSendTiming now p v w snoop q) (pushes now ps)"

definition trySendTiming :: "'s pq_peer \<Rightarrow> Tick \<Rightarrow> packet_queue \<Rightarrow> 's \<Rightarrow> (packet_queue \<times> 's) res" where
  "trySendTiming send now q s =
     assertR (deferredPacketReady now q) ''deferredPacketReady()''
       (let dp = hd (pq_list q) in
        bindR (send s (dp_pkt dp) (sendAsSnoop dp)) (\<lambda>(ok, ps, s').
        bindR (pushes now ps q) (\<lambda>q1.
          let q2 = q1\<lparr>waitingOnRetry := \<not> ok\<rparr> in
          Inr (if ok then q2\<lparr>pq_list := tl (pq_list q2)\<rparr> else q2, s'))))"

definition scheduleSend :: "Tick \<Rightarrow> Tick \<Rightarrow> packet_queue \<Rightarrow> packet_queue res" where
  "scheduleSend now time q =
     (let nextReady = max (min (deferredPacketReadyTime q) time) (now + 1) in
      if nextReady \<noteq> MaxTick then
        (case pq_event q of
           None \<Rightarrow> pq_schedule now nextReady q
         | Some e \<Rightarrow> if nextReady < e then pq_schedule now nextReady q else Inr q)
      else if pq_drainManager q \<and> pq_list q = [] \<and> pq_event q = None
      then Inr (q\<lparr>pq_signals := pq_signals q + 1, pq_drainManager := False\<rparr>)
      else Inr q)"

definition sendDeferredPacket :: "'s pq_peer \<Rightarrow> Tick \<Rightarrow> packet_queue \<Rightarrow> 's \<Rightarrow> (packet_queue \<times> 's) res" where
  "sendDeferredPacket send now q s =
     bindR (trySendTiming send now q s) (\<lambda>(q1, s1).
       if \<not> waitingOnRetry q1 then bindR (scheduleSend now MaxTick q1) (\<lambda>q2. Inr (q2, s1)) else Inr (q1, s1))"

text \<open>The send event has left the event queue when it is processed.\<close>

definition processSendEvent :: "'s pq_peer \<Rightarrow> Tick \<Rightarrow> packet_queue \<Rightarrow> 's \<Rightarrow> (packet_queue \<times> 's) res" where
  "processSendEvent send now q s =
     assertR (\<not> waitingOnRetry q) ''!waitingOnRetry'' (sendDeferredPacket send now (q\<lparr>pq_event := None\<rparr>) s)"

definition pq_retry :: "'s pq_peer \<Rightarrow> Tick \<Rightarrow> packet_queue \<Rightarrow> 's \<Rightarrow> (packet_queue \<times> 's) res" where
  "pq_retry send now q s = assertR (waitingOnRetry q) ''waitingOnRetry'' (sendDeferredPacket send now q s)"

definition pq_drain :: "packet_queue \<Rightarrow> nat \<times> packet_queue" where
  "pq_drain q = (if pq_list q = [] then (0, q) else (1, q\<lparr>pq_drainManager := True\<rparr>))"

text \<open>The functional check runs along the queued packets until one answers.\<close>

fun pq_check :: "packet \<Rightarrow> deferred_packet list \<Rightarrow> packet cells \<Rightarrow> (bool \<times> packet \<times> packet cells) res" where
  "pq_check v [] h = Inr (False, v, h)"
| "pq_check v (d # ds) h =
     bindR (cell h (dp_pkt d)) (\<lambda>other.
     bindR (checkFunctional_pkt v other) (\<lambda>(found, v', other').
       let h' = set_cell h (dp_pkt d) other' in if found then Inr (True, v', h') else pq_check v' ds h'))"

definition pq_checkFunctional :: "packet \<Rightarrow> packet_queue \<Rightarrow> packet cells \<Rightarrow> (bool \<times> packet \<times> packet cells) res" where
  "pq_checkFunctional v q h = pq_check v (pq_list q) h"

text \<open>The two kinds of queue send through their port.\<close>

definition MasterPacketQueue_send :: "('s \<Rightarrow> nat \<Rightarrow> 'r) \<Rightarrow> ('s \<Rightarrow> nat \<Rightarrow> 'r) \<Rightarrow> 's \<Rightarrow> nat \<Rightarrow> bool \<Rightarrow> 'r" where
  "MasterPacketQueue_send sendTimingReq sendTimingSnoopResp s p snoop =
     (if \<not> snoop then sendTimingReq s p else sendTimingSnoopResp s p)"

definition SlavePacketQueue_send :: "('s \<Rightarrow> nat \<Rightarrow> 'r res) \<Rightarrow> 's \<Rightarrow> nat \<Rightarrow> bool \<Rightarrow> 'r res" where
  "SlavePacketQueue_send sendTimingResp s p snoop = assertR (\<not> snoop) ''!send_as_snoop'' (sendTimingResp s p)"

section \<open>Insertion\<close>

text \<open>A packet goes behind all packets that are due no later than it.\<close>

abbreviation due :: "Tick \<Rightarrow> deferred_packet \<Rightarrow> bool" where
  "due w c \<equiv> dp_tick c \<le> w"

definition insert_due :: "deferred_packet \<Rightarrow> deferred_packet list \<Rightarrow> deferred_packet list" where
  "insert_due d cs = takeWhile (due (dp_tick d)) cs @ d # dropWhile (due (dp_tick d)) cs"

abbreviation in_order :: "deferred_packet list \<Rightarrow> bool" where
  "in_order cs \<equiv> sorted (map dp_tick cs)"

lemma pq_insert_due: "pq_insert d cs = insert_due d cs"
  by (induction cs) (simp_all add: insert_due_def)

lemma insert_due_in_order: "in_order cs \<Longrightarrow> in_order (insert_due d cs)"
proof (induction cs)
  case (Cons c cs)
  then show ?case by (auto simp: insert_due_def dest: set_takeWhileD set_dropWhileD)
qed (simp add: insert_due_def)

lemma insert_due_last:
  assumes "in_order cs" "cs \<noteq> []" "dp_tick (last cs) \<le> dp_tick d"
  shows "insert_due d cs = cs @ [d]"
proof -
  obtain bs l where cs: "cs = bs @ [l]" using assms(2) by (cases cs rule: rev_cases) auto
  have "\<forall>c \<in> set cs. due (dp_tick d) c" using assms(1,3) by (fastforce simp: cs sorted_append)
  then show ?thesis by (simp add: insert_due_def takeWhile_eq_all_conv [THEN iffD2] dropWhile_eq_Nil_conv [THEN iffD2])
qed

lemma insert_due_filter:
  assumes "in_order cs"
  shows "filter (\<lambda>c. dp_tick c = k) (insert_due d cs) = filter (\<lambda>c. dp_tick c = k) cs @ filter (\<lambda>c. dp_tick c = k) [d]"
proof (cases "dp_tick d = k")
  case False
  have "filter (\<lambda>c. dp_tick c = k) (takeWhile (due (dp_tick d)) cs) @ filter (\<lambda>c. dp_tick c = k) (dropWhile (due (dp_tick d)) cs)
      = filter (\<lambda>c. dp_tick c = k) cs" by (simp flip: filter_append)
  then show ?thesis using False by (simp add: insert_due_def)
next
  case True
  have "in_order (takeWhile (due k) cs @ dropWhile (due k) cs)" using assms by simp
  then have "filter (\<lambda>c. dp_tick c = k) (dropWhile (due k) cs) = []"
  proof (cases "dropWhile (due k) cs")
    case (Cons c ds)
    then have "\<not> due k c" using hd_dropWhile [of "due k" cs] by simp
    moreover have "\<forall>e \<in> set ds. dp_tick c \<le> dp_tick e" using \<open>in_order (takeWhile _ _ @ _)\<close> Cons by (simp add: sorted_append)
    ultimately show ?thesis using Cons by (auto simp: filter_empty_conv)
  next
    case Nil
    then show ?thesis by (simp only: filter.simps)
  qed
  moreover have "filter (\<lambda>c. dp_tick c = k) (takeWhile (due k) cs) @ filter (\<lambda>c. dp_tick c = k) (dropWhile (due k) cs)
      = filter (\<lambda>c. dp_tick c = k) cs" by (simp flip: filter_append)
  ultimately show ?thesis using True by (simp add: insert_due_def)
qed

definition dp_of :: "push \<Rightarrow> deferred_packet" where
  "dp_of x = (case x of (p, v, w, snoop) \<Rightarrow> \<lparr>dp_tick = w, dp_pkt = p, sendAsSnoop = snoop\<rparr>)"

definition push_ok :: "Tick \<Rightarrow> push \<Rightarrow> bool" where
  "push_ok now x \<longleftrightarrow> (case x of (p, v, w, snoop) \<Rightarrow> now \<le> w \<and> w < MaxTick \<and> \<not> isExpressSnoop v)"

text \<open>An accepted packet is put in its place; the event changes only if the packet comes first.\<close>

lemma schedSendEvent_list: "schedSendEvent now w q = Inr q' \<Longrightarrow> \<exists>e. q' = q\<lparr>pq_event := e\<rparr>"
  by (auto simp: schedSendEvent_def pq_schedule_def assertR_eq_Inr split: if_splits option.splits
      intro: exI [of _ "pq_event q"])

lemma insert_due_front: "\<not> due (dp_tick d) c \<Longrightarrow> insert_due d (c # cs) = d # c # cs"
  "due (dp_tick d) c \<Longrightarrow> insert_due d (c # cs) = c # insert_due d cs"
  by (simp_all add: insert_due_def)

lemma insert_due_size [simp]: "length (insert_due d cs) = Suc (length cs)" "set (insert_due d cs) = insert d (set cs)"
  by (induction cs) (auto simp: insert_due_def)

lemma schedSendTiming_list:
  assumes "schedSendTiming now p v w snoop q = Inr q'" "in_order (pq_list q)"
  shows "\<exists>e. q' = q\<lparr>pq_list := insert_due \<lparr>dp_tick = w, dp_pkt = p, sendAsSnoop = snoop\<rparr> (pq_list q), pq_event := e\<rparr>"
    "now \<le> w" "\<not> isExpressSnoop v" "length (pq_list q) \<le> 100"
proof -
  let ?d = "\<lparr>dp_tick = w, dp_pkt = p, sendAsSnoop = snoop\<rparr>"
  have c: "now \<le> w" "\<not> isExpressSnoop v" "length (pq_list q) \<le> 100"
    using assms(1) by (auto simp: schedSendTiming_def assertR_eq_Inr split: if_splits)
  then show "now \<le> w" "\<not> isExpressSnoop v" "length (pq_list q) \<le> 100" by simp_all
  show "\<exists>e. q' = q\<lparr>pq_list := insert_due ?d (pq_list q), pq_event := e\<rparr>"
  proof (cases "pq_list q")
    case Nil
    then have "schedSendEvent now w (q\<lparr>pq_list := [?d]\<rparr>) = Inr q'" using assms(1) c by (simp add: schedSendTiming_def)
    then show ?thesis using schedSendEvent_list Nil by (fastforce simp: insert_due_def)
  next
    case (Cons a as)
    consider "w < dp_tick a" | "dp_tick a \<le> w" "dp_tick (last (a # as)) \<le> w" | "dp_tick a \<le> w" "\<not> dp_tick (last (a # as)) \<le> w"
      by force
    then show ?thesis
    proof cases
      case 1
      then have "schedSendEvent now w (q\<lparr>pq_list := ?d # a # as\<rparr>) = Inr q'" using assms(1) c Cons by (simp add: schedSendTiming_def)
      then show ?thesis using schedSendEvent_list Cons 1 by (fastforce simp: insert_due_front not_le)
    next
      case 2
      then have "q' = q\<lparr>pq_list := (a # as) @ [?d]\<rparr>" using assms(1) c Cons by (auto simp: schedSendTiming_def Let_def split: if_splits)
      then show ?thesis using insert_due_last [of "a # as" ?d] assms(2) Cons 2
        by (intro exI [of _ "pq_event q"]) simp
    next
      case 3
      then have "q' = q\<lparr>pq_list := a # pq_insert ?d as\<rparr>" using assms(1) c Cons by (auto simp: schedSendTiming_def not_le Let_def split: if_splits)
      then show ?thesis using Cons 3 by (intro exI [of _ "pq_event q"]) (simp add: pq_insert_due insert_due_front)
    qed
  qed
qed

text \<open>While the packet at the front is due, further packets go behind it.\<close>

lemma schedSendTiming_behind:
  assumes "pq_list q = c # cs" "dp_tick c \<le> now" "push_ok now (p, v, w, snoop)" "length (pq_list q) \<le> 100" "in_order (pq_list q)"
  shows "schedSendTiming now p v w snoop q =
    Inr (q\<lparr>pq_list := insert_due \<lparr>dp_tick = w, dp_pkt = p, sendAsSnoop = snoop\<rparr> (pq_list q)\<rparr>)"
proof -
  let ?d = "\<lparr>dp_tick = w, dp_pkt = p, sendAsSnoop = snoop\<rparr>"
  have w: "now \<le> w" "\<not> isExpressSnoop v" "\<not> w < dp_tick c" "dp_tick c \<le> w" using assms(2,3) by (auto simp: push_ok_def)
  show ?thesis
  proof (cases "dp_tick (last (c # cs)) \<le> w")
    case True
    then show ?thesis using assms(1,4,5) w insert_due_last [of "c # cs" ?d] by (simp add: schedSendTiming_def)
  next
    case False
    then show ?thesis using assms(1,4) w by (simp add: schedSendTiming_def pq_insert_due insert_due_front Let_def)
  qed
qed

lemma pushes_behind:
  assumes "pq_list q = c # cs" "dp_tick c \<le> now" "\<forall>x \<in> set ps. push_ok now x" "length (pq_list q) + length ps \<le> 101"
    "in_order (pq_list q)"
  shows "\<exists>cs'. pushes now ps q = Inr (q\<lparr>pq_list := c # cs'\<rparr>) \<and> c # cs' = fold insert_due (map dp_of ps) (c # cs)"
  using assms
proof (induction ps arbitrary: q cs)
  case Nil
  then show ?case by (intro exI [of _ cs]) simp
next
  case (Cons x ps)
  obtain p v w snoop where x: "x = (p, v, w, snoop)" by (cases x)
  let ?q = "q\<lparr>pq_list := insert_due (dp_of x) (pq_list q)\<rparr>"
  have s: "schedSendTiming now p v w snoop q = Inr ?q"
    using schedSendTiming_behind [OF Cons.prems(1,2), of p v w snoop] Cons.prems(3-5) by (simp add: x dp_of_def)
  have "dp_tick c \<le> dp_tick (dp_of x)" using Cons.prems(2,3) by (auto simp: x dp_of_def push_ok_def)
  then have l: "pq_list ?q = c # insert_due (dp_of x) cs" using Cons.prems(1) by (simp add: insert_due_front)
  have "in_order (pq_list ?q)" using insert_due_in_order [OF Cons.prems(5)] by simp
  then obtain cs' where "pushes now ps ?q = Inr (?q\<lparr>pq_list := c # cs'\<rparr>)"
    "c # cs' = fold insert_due (map dp_of ps) (c # insert_due (dp_of x) cs)"
    using Cons.IH [OF l Cons.prems(2)] Cons.prems(1,3,4) l by auto
  then show ?case using s l Cons.prems(1) by (intro exI [of _ cs']) (simp add: x)
qed

lemma pushes_all_ok:
  "pushes now ps q = Inr q' \<Longrightarrow> in_order (pq_list q) \<Longrightarrow> \<forall>x \<in> set ps. dp_tick (dp_of x) < MaxTick \<Longrightarrow>
     length (pq_list q) \<le> 101 \<Longrightarrow> (\<forall>x \<in> set ps. push_ok now x) \<and> length (pq_list q) + length ps \<le> 101"
proof (induction ps arbitrary: q)
  case (Cons x ps)
  obtain p v w snoop where x: "x = (p, v, w, snoop)" by (cases x)
  obtain q1 where q1: "schedSendTiming now p v w snoop q = Inr q1" "pushes now ps q1 = Inr q'" using Cons.prems(1) by (auto simp: x)
  obtain e where e: "q1 = q\<lparr>pq_list := insert_due \<lparr>dp_tick = w, dp_pkt = p, sendAsSnoop = snoop\<rparr> (pq_list q), pq_event := e\<rparr>"
    and c: "now \<le> w" "\<not> isExpressSnoop v" "length (pq_list q) \<le> 100"
    using schedSendTiming_list [OF q1(1) Cons.prems(2)] by blast
  have len: "length (pq_list q1) = Suc (length (pq_list q))" by (simp add: e)
  have "in_order (pq_list q1)" using insert_due_in_order [OF Cons.prems(2)] by (simp add: e)
  then have "(\<forall>x \<in> set ps. push_ok now x) \<and> length (pq_list q1) + length ps \<le> 101"
    using Cons.IH [OF q1(2)] Cons.prems(3) c(3) len by simp
  then show ?case using c len Cons.prems(3) by (auto simp: x push_ok_def dp_of_def)
qed simp

lemma fold_insert_due:
  "in_order cs \<Longrightarrow> in_order (fold insert_due ds cs)"
  "in_order cs \<Longrightarrow> filter (\<lambda>c. dp_tick c = k) (fold insert_due ds cs) = filter (\<lambda>c. dp_tick c = k) (cs @ ds)"
  "set (fold insert_due ds cs) = set cs \<union> set ds" "length (fold insert_due ds cs) = length cs + length ds"
proof -
  show o: "in_order cs \<Longrightarrow> in_order (fold insert_due ds cs)" for cs ds
    by (induction ds arbitrary: cs) (simp_all add: insert_due_in_order)
  show "in_order cs \<Longrightarrow> filter (\<lambda>c. dp_tick c = k) (fold insert_due ds cs) = filter (\<lambda>c. dp_tick c = k) (cs @ ds)"
  proof (induction ds arbitrary: cs)
    case (Cons d ds)
    then show ?case using insert_due_in_order [OF Cons.prems] insert_due_filter [OF Cons.prems, of k d] by simp
  qed simp
  show "set (fold insert_due ds cs) = set cs \<union> set ds" by (induction ds arbitrary: cs) auto
  show "length (fold insert_due ds cs) = length cs + length ds" by (induction ds arbitrary: cs) auto
qed

section \<open>The queue over time\<close>

text \<open>
  What can happen to a queue, with the packets scheduled so far and those sent so far. A peer is
  its answer: whether it takes the packet, and what it schedules meanwhile. Time passes up to the next event; ticks stay below \<open>MaxTick\<close>, which stands for never.
\<close>

inductive pq_run :: "Tick \<Rightarrow> packet_queue \<Rightarrow> deferred_packet list \<Rightarrow> deferred_packet list \<Rightarrow> bool" where
  pq_start: "now < MaxTick - 1 \<Longrightarrow> pq_run now PacketQueue [] []"
| pq_time: "pq_run now q A B \<Longrightarrow> now \<le> now' \<Longrightarrow> now' < MaxTick - 1 \<Longrightarrow> (\<And>e. pq_event q = Some e \<Longrightarrow> now' \<le> e) \<Longrightarrow>
    pq_run now' q A B"
| pq_sched: "pq_run now q A B \<Longrightarrow> schedSendTiming now p v w snoop q = Inr q' \<Longrightarrow> w < MaxTick \<Longrightarrow>
    pq_run now q' (A @ [\<lparr>dp_tick = w, dp_pkt = p, sendAsSnoop = snoop\<rparr>]) B"
| pq_fire: "pq_run now q A B \<Longrightarrow> pq_event q = Some now \<Longrightarrow> \<forall>x \<in> set ps. dp_tick (dp_of x) < MaxTick \<Longrightarrow>
    processSendEvent (\<lambda>_ _ _. Inr (ok, ps, ())) now q () = Inr (q', ()) \<Longrightarrow>
    pq_run now q' (A @ map dp_of ps) (if ok then B @ [hd (pq_list q)] else B)"
| pq_retried: "pq_run now q A B \<Longrightarrow> waitingOnRetry q \<Longrightarrow> \<forall>x \<in> set ps. dp_tick (dp_of x) < MaxTick \<Longrightarrow>
    pq_retry (\<lambda>_ _ _. Inr (ok, ps, ())) now q () = Inr (q', ()) \<Longrightarrow>
    pq_run now q' (A @ map dp_of ps) (if ok then B @ [hd (pq_list q)] else B)"
| pq_drained: "pq_run now q A B \<Longrightarrow> pq_run now (snd (pq_drain q)) A B"

definition pq_inv :: "Tick \<Rightarrow> packet_queue \<Rightarrow> bool" where
  "pq_inv now q \<longleftrightarrow> in_order (pq_list q) \<and> (\<forall>c \<in> set (pq_list q). dp_tick c < MaxTick) \<and> length (pq_list q) \<le> 101 \<and>
     now < MaxTick - 1 \<and> (pq_drainManager q \<longrightarrow> pq_list q \<noteq> []) \<and>
     (if waitingOnRetry q then pq_list q \<noteq> [] \<and> dp_tick (hd (pq_list q)) \<le> now \<and> pq_event q = None
      else case pq_event q of None \<Rightarrow> pq_list q = [] | Some e \<Rightarrow> pq_list q \<noteq> [] \<and> now \<le> e \<and> dp_tick (hd (pq_list q)) \<le> e)"

lemma next_tick:
  assumes "now < MaxTick - 1"
  shows "now + 1 < MaxTick" "now < now + 1"
proof -
  have n: "unat now < 2 ^ 64 - 2" using assms by (simp add: word_less_nat_alt MaxTick_def)
  then have "unat (now + 1) = unat now + 1" by (simp add: unat_word_ariths)
  then show "now + 1 < MaxTick" "now < now + 1" using n by (simp_all add: word_less_nat_alt MaxTick_def)
qed

text \<open>The outcome of sending the packet at the front, when no event is scheduled.\<close>

definition sent_queue :: "Tick \<Rightarrow> bool \<Rightarrow> push list \<Rightarrow> packet_queue \<Rightarrow> packet_queue" where
  "sent_queue now ok ps q =
     (let L = fold insert_due (map dp_of ps) (pq_list q) in
      if \<not> ok then q\<lparr>pq_list := L, waitingOnRetry := True\<rparr>
      else if tl L = [] then q\<lparr>pq_list := [], waitingOnRetry := False, pq_signals := pq_signals q + of_bool (pq_drainManager q),
        pq_drainManager := False\<rparr>
      else q\<lparr>pq_list := tl L, waitingOnRetry := False, pq_event := Some (max (dp_tick (hd (tl L))) (now + 1))\<rparr>)"

definition pq_ready :: "Tick \<Rightarrow> packet_queue \<Rightarrow> push list \<Rightarrow> bool" where
  "pq_ready now q ps \<longleftrightarrow> pq_list q \<noteq> [] \<and> dp_tick (hd (pq_list q)) \<le> now \<and> in_order (pq_list q) \<and>
     (\<forall>c \<in> set (pq_list q). dp_tick c < MaxTick) \<and> now < MaxTick - 1 \<and> pq_event q = None \<and>
     (\<forall>x \<in> set ps. push_ok now x) \<and> length (pq_list q) + length ps \<le> 101"

lemma sendDeferred_outcome:
  assumes r: "pq_ready now q ps" and s: "send s (dp_pkt (hd (pq_list q))) (sendAsSnoop (hd (pq_list q))) = Inr (ok, ps, s')"
  shows "sendDeferredPacket send now q s = Inr (sent_queue now ok ps q, s')"
proof -
  obtain c cs where l: "pq_list q = c # cs" "dp_tick c \<le> now" "in_order (pq_list q)" "\<forall>c \<in> set (pq_list q). dp_tick c < MaxTick"
    and n: "now < MaxTick - 1" "pq_event q = None"
    and p: "\<forall>x \<in> set ps. push_ok now x" "length (pq_list q) + length ps \<le> 101"
    using r unfolding pq_ready_def by (metis list.collapse)
  obtain cs' where c: "pushes now ps q = Inr (q\<lparr>pq_list := c # cs'\<rparr>)" "c # cs' = fold insert_due (map dp_of ps) (pq_list q)"
    using pushes_behind [OF l(1,2) p l(3)] l(1) by auto
  have rd: "deferredPacketReady now q" using l by (simp add: deferredPacketReady_def)
  have t: "trySendTiming send now q s = Inr (if ok then q\<lparr>pq_list := cs', waitingOnRetry := False\<rparr>
      else q\<lparr>pq_list := c # cs', waitingOnRetry := True\<rparr>, s')"
    using rd s c(1) l(1) by (simp add: trySendTiming_def Let_def)
  have mx: "max MaxTick (now + 1) = MaxTick" using next_tick(1) [OF n(1)] by (auto simp: max_def)
  show ?thesis
  proof (cases "ok \<and> cs' \<noteq> []")
    case True
    then obtain d ds where d: "cs' = d # ds" by (cases cs') auto
    have "d \<in> set (fold insert_due (map dp_of ps) (pq_list q))" unfolding c(2) [symmetric] by (simp add: d)
    then have "dp_tick d < MaxTick" using l(4) p(1) by (auto simp: fold_insert_due(3) push_ok_def dp_of_def)
    then have m: "max (dp_tick d) (now + 1) \<noteq> MaxTick" "now \<le> max (dp_tick d) (now + 1)" "min (dp_tick d) MaxTick = dp_tick d"
      using next_tick [OF n(1)] by (auto simp: max_def min_def)
    then show ?thesis using t True d n(2) c(2) [symmetric]
      by (simp add: sendDeferredPacket_def scheduleSend_def sent_queue_def deferredPacketReadyTime_def pq_schedule_def Let_def)
  next
    case False
    then show ?thesis using t n(2) c(2) [symmetric] mx
      by (cases ok) (auto simp: sendDeferredPacket_def scheduleSend_def sent_queue_def deferredPacketReadyTime_def Let_def)
  qed
qed

lemma sent_queue_inv:
  assumes r: "pq_ready now q ps"
  shows "pq_inv now (sent_queue now ok ps q)"
    "filter (\<lambda>d. dp_tick d = k) ((if ok then B @ [hd (pq_list q)] else B) @ pq_list (sent_queue now ok ps q)) =
      filter (\<lambda>d. dp_tick d = k) (B @ pq_list q @ map dp_of ps)"
proof -
  obtain c cs where l: "pq_list q = c # cs" "dp_tick c \<le> now" "in_order (pq_list q)" "\<forall>c \<in> set (pq_list q). dp_tick c < MaxTick"
    and n: "now < MaxTick - 1" "pq_event q = None"
    and p: "\<forall>x \<in> set ps. push_ok now x" "length (pq_list q) + length ps \<le> 101"
    using r unfolding pq_ready_def by (metis list.collapse)
  obtain cs' where c: "c # cs' = fold insert_due (map dp_of ps) (pq_list q)"
    using pushes_behind [OF l(1,2) p l(3)] l(1) by auto
  have L: "in_order (c # cs')" "length (c # cs') \<le> 101" "\<forall>d \<in> set (c # cs'). dp_tick d < MaxTick"
    using fold_insert_due(1) [OF l(3)] l(4) p unfolding c by (auto simp: fold_insert_due(3,4) push_ok_def dp_of_def)
  have t: "now < now + 1" using next_tick [OF n(1)] by simp
  show "pq_inv now (sent_queue now ok ps q)"
  proof (cases "ok \<and> cs' \<noteq> []")
    case True
    then obtain d ds where d: "cs' = d # ds" by (cases cs') auto
    then show ?thesis using True L n t by (auto simp: pq_inv_def sent_queue_def Let_def max_def simp flip: c)
  next
    case False
    then show ?thesis using L n l(2) by (auto simp: pq_inv_def sent_queue_def Let_def simp flip: c)
  qed
  have "(if ok then B @ [c] else B) @ pq_list (sent_queue now ok ps q) = B @ c # cs'"
    by (cases cs') (simp_all add: sent_queue_def Let_def flip: c)
  moreover have "filter (\<lambda>d. dp_tick d = k) (c # cs') = filter (\<lambda>d. dp_tick d = k) (pq_list q @ map dp_of ps)"
    unfolding c by (rule fold_insert_due(2) [OF l(3)])
  ultimately show "filter (\<lambda>d. dp_tick d = k) ((if ok then B @ [hd (pq_list q)] else B) @ pq_list (sent_queue now ok ps q)) =
      filter (\<lambda>d. dp_tick d = k) (B @ pq_list q @ map dp_of ps)"
    unfolding l(1) list.sel by (simp only: filter_append)
qed

lemma pq_sched_inv:
  assumes i: "pq_inv now q" and s: "schedSendTiming now p v w snoop q = Inr q'" and w: "w < MaxTick"
  shows "pq_inv now q'"
    "pq_list q' = insert_due \<lparr>dp_tick = w, dp_pkt = p, sendAsSnoop = snoop\<rparr> (pq_list q)"
proof -
  let ?d = "\<lparr>dp_tick = w, dp_pkt = p, sendAsSnoop = snoop\<rparr>"
  have o: "in_order (pq_list q)" using i by (simp add: pq_inv_def)
  note sl = schedSendTiming_list [OF s o]
  obtain e where e: "q' = q\<lparr>pq_list := insert_due ?d (pq_list q), pq_event := e\<rparr>" using sl(1) by blast
  then show "pq_list q' = insert_due ?d (pq_list q)" by simp
  have "insert_due ?d (pq_list q) \<noteq> []" by (metis insert_due_size(1) list.size(3) nat.distinct(1))
  then have base: "in_order (pq_list q')" "\<forall>c \<in> set (pq_list q'). dp_tick c < MaxTick" "length (pq_list q') \<le> 101" "pq_list q' \<noteq> []"
    using insert_due_in_order [OF o] i w sl(4) by (simp_all add: e pq_inv_def)
  show "pq_inv now q'"
  proof (cases "pq_list q \<noteq> [] \<and> dp_tick (hd (pq_list q)) \<le> w")
    case True
    then obtain c cs where c: "pq_list q = c # cs" "dp_tick c \<le> w" by (cases "pq_list q") auto
    have "q' = q\<lparr>pq_list := c # insert_due ?d cs\<rparr>"
    proof (cases "dp_tick (last (c # cs)) \<le> w")
      case True
      then show ?thesis using s c sl(2-4) insert_due_last [of "c # cs" ?d] o insert_due_front(2) [of c ?d cs]
        by (auto simp: schedSendTiming_def Let_def split: if_splits)
    next
      case False
      then show ?thesis using s c sl(2-4) by (auto simp: schedSendTiming_def pq_insert_due Let_def split: if_splits)
    qed
    then show ?thesis using i base c by (auto simp: pq_inv_def split: option.splits if_splits)
  next
    case False
    have nw: "\<not> waitingOnRetry q" using i False sl(2) by (auto simp: pq_inv_def)
    have l: "pq_list q' = ?d # pq_list q"
      using False by (cases "pq_list q") (auto simp: e insert_due_def)
    have "schedSendEvent now w (q\<lparr>pq_list := ?d # pq_list q\<rparr>) = Inr q'"
      using s False sl(2-4) by (cases "pq_list q") (simp_all add: schedSendTiming_def Let_def not_le)
    moreover have "w < x" if "pq_event q = Some x" for x
      using i nw that False by (auto simp: pq_inv_def)
    ultimately have "pq_event q' = Some w" "waitingOnRetry q' = False" "pq_drainManager q' = pq_drainManager q"
      using nw sl(2) by (auto simp: schedSendEvent_def pq_schedule_def split: option.splits)
    then show ?thesis using base l sl(2) i by (simp add: pq_inv_def)
  qed
qed

lemma pq_ready_of:
  assumes i: "in_order (pq_list q)" "\<forall>c \<in> set (pq_list q). dp_tick c < MaxTick" "length (pq_list q) \<le> 101" "now < MaxTick - 1"
      "pq_list q \<noteq> []" "dp_tick (hd (pq_list q)) \<le> now" "pq_event q = None"
    and s: "send s (dp_pkt (hd (pq_list q))) (sendAsSnoop (hd (pq_list q))) = Inr (ok, ps, s1)"
    and p: "\<forall>x \<in> set ps. dp_tick (dp_of x) < MaxTick" and r: "sendDeferredPacket send now q s = Inr (q', s')"
  shows "pq_ready now q ps" "q' = sent_queue now ok ps q"
proof -
  have "deferredPacketReady now q" using i by (cases "pq_list q") (auto simp: deferredPacketReady_def)
  then obtain q1 where "pushes now ps q = Inr q1" using r s by (auto simp: sendDeferredPacket_def trySendTiming_def Let_def)
  then show rd: "pq_ready now q ps" using pushes_all_ok [OF _ i(1) p i(3)] i by (auto simp: pq_ready_def)
  show "q' = sent_queue now ok ps q" using sendDeferred_outcome [OF rd, of send s ok s1] s r by simp
qed

lemma sent_queue_history:
  assumes "pq_ready now q ps" "\<forall>k. filter (\<lambda>d. dp_tick d = k) (B @ pq_list q) = filter (\<lambda>d. dp_tick d = k) A"
  shows "\<forall>k. filter (\<lambda>d. dp_tick d = k) ((if ok then B @ [hd (pq_list q)] else B) @ pq_list (sent_queue now ok ps q)) =
    filter (\<lambda>d. dp_tick d = k) (A @ map dp_of ps)"
proof
  fix k
  have "filter (\<lambda>d. dp_tick d = k) (B @ pq_list q @ map dp_of ps) = filter (\<lambda>d. dp_tick d = k) (B @ pq_list q) @ filter (\<lambda>d. dp_tick d = k) (map dp_of ps)"
    by simp
  also have "\<dots> = filter (\<lambda>d. dp_tick d = k) (A @ map dp_of ps)" using assms(2) by (simp only: filter_append)
  finally show "filter (\<lambda>d. dp_tick d = k) ((if ok then B @ [hd (pq_list q)] else B) @ pq_list (sent_queue now ok ps q)) =
      filter (\<lambda>d. dp_tick d = k) (A @ map dp_of ps)" using sent_queue_inv(2) [OF assms(1), of k ok B] by (simp only:)
qed

lemma pq_run_inv:
  assumes "pq_run now q A B"
  shows "pq_inv now q \<and> (\<forall>k. filter (\<lambda>d. dp_tick d = k) (B @ pq_list q) = filter (\<lambda>d. dp_tick d = k) A)"
  using assms
proof (induction rule: pq_run.induct)
  case (pq_start now)
  then show ?case by (simp add: pq_inv_def PacketQueue_def)
next
  case (pq_time now q A B now')
  then show ?case by (auto simp: pq_inv_def split: if_splits option.splits)
next
  case (pq_sched now q A B p v w snoop q')
  have i: "pq_inv now q" using pq_sched by simp
  note s = pq_sched_inv [OF i pq_sched.hyps(2,3)]
  have "in_order (pq_list q)" using i by (simp add: pq_inv_def)
  then show ?case using s pq_sched.IH by (simp add: insert_due_filter)
next
  case (pq_fire now q A B ps ok q')
  let ?q = "q\<lparr>pq_event := None\<rparr>"
  have i: "pq_inv now q" and f: "\<forall>k. filter (\<lambda>d. dp_tick d = k) (B @ pq_list ?q) = filter (\<lambda>d. dp_tick d = k) A"
    using pq_fire.IH by simp_all
  have nw: "\<not> waitingOnRetry q" using i pq_fire.hyps(2) by (auto simp: pq_inv_def)
  have r: "pq_ready now ?q ps" "q' = sent_queue now ok ps ?q"
    using pq_ready_of [of ?q now "\<lambda>_ _ _. Inr (ok, ps, ())" "()" ok ps "()" q' "()"] i nw pq_fire.hyps(2-4) by (auto simp: pq_inv_def processSendEvent_def)
  have l: "pq_list ?q = pq_list q" by simp
  show ?case using sent_queue_inv(1) [OF r(1), of ok] sent_queue_history [OF r(1) f, of ok] unfolding r(2) l by blast
next
  case (pq_retried now q A B ps ok q')
  have i: "pq_inv now q" and f: "\<forall>k. filter (\<lambda>d. dp_tick d = k) (B @ pq_list q) = filter (\<lambda>d. dp_tick d = k) A"
    using pq_retried.IH by simp_all
  have r: "pq_ready now q ps" "q' = sent_queue now ok ps q"
    using pq_ready_of [of q now "\<lambda>_ _ _. Inr (ok, ps, ())" "()" ok ps "()" q' "()"] i pq_retried.hyps(2-4) by (auto simp: pq_inv_def pq_retry_def)
  show ?case using sent_queue_inv(1) [OF r(1), of ok] sent_queue_history [OF r(1) f, of ok] unfolding r(2) by blast
next
  case (pq_drained now q A B)
  then show ?case by (cases "pq_list q = []") (auto simp: pq_drain_def pq_inv_def split: option.splits if_splits)
qed

section \<open>Properties\<close>

text \<open>C35: In every reachable state a packet queue is ordered by tick and, for each tick, the packets sent so far and those
  that wait are exactly the packets scheduled for it, in the order of their scheduling. While the
  queue waits for a retry, the refused packet is still at its front and no event is scheduled; otherwise
  its event is scheduled exactly when packets wait, for a time when the first one is due.\<close>

theorem packet_queue_order:
  assumes "pq_run now q A B"
  shows "sorted (map dp_tick (pq_list q)) \<and> length (pq_list q) \<le> 101 \<and>
    (\<forall>k. filter (\<lambda>d. dp_tick d = k) (B @ pq_list q) = filter (\<lambda>d. dp_tick d = k) A) \<and>
    (if waitingOnRetry q then pq_list q \<noteq> [] \<and> dp_tick (hd (pq_list q)) \<le> now \<and> pq_event q = None
     else case pq_event q of None \<Rightarrow> pq_list q = [] | Some e \<Rightarrow> pq_list q \<noteq> [] \<and> now \<le> e \<and> dp_tick (hd (pq_list q)) \<le> e)"
  using pq_run_inv [OF assms] by (simp add: pq_inv_def)

text \<open>C36: When the event of a packet queue fires or the awaited retry comes, the first packet is offered to the port
  without a failed assertion, also when the peer schedules more packets before it answers. If it is taken, exactly it leaves the
  queue, and when that was the last one a draining queue signals once; if it is refused it stays first and the queue waits.\<close>

theorem packet_queue_sends:
  assumes "pq_run now q A B" "waitingOnRetry q \<or> pq_event q = Some now"
    and s: "send s (dp_pkt (hd (pq_list q))) (sendAsSnoop (hd (pq_list q))) = Inr (ok, ps, s')"
    and p: "\<forall>x \<in> set ps. push_ok now x" "length (pq_list q) + length ps \<le> 101"
  shows "\<exists>q'. (if waitingOnRetry q then pq_retry send now q s else processSendEvent send now q s) = Inr (q', s') \<and>
    waitingOnRetry q' = (\<not> ok) \<and>
    (if ok then hd (pq_list q) # pq_list q' else pq_list q') = fold insert_due (map dp_of ps) (pq_list q) \<and>
    pq_signals q' = pq_signals q + of_bool (pq_drainManager q \<and> pq_list q' = [])"
proof -
  let ?q = "if waitingOnRetry q then q else q\<lparr>pq_event := None\<rparr>"
  have i: "pq_inv now q" using pq_run_inv [OF assms(1)] by simp
  have r: "pq_ready now ?q ps" using i assms(2) p by (auto simp: pq_inv_def pq_ready_def split: if_splits)
  have e: "(if waitingOnRetry q then pq_retry send now q s else processSendEvent send now q s) = Inr (sent_queue now ok ps ?q, s')"
    using sendDeferred_outcome [OF r, of send s ok s'] s by (cases "waitingOnRetry q") (simp_all add: pq_retry_def processSendEvent_def)
  obtain c cs where c: "pq_list q = c # cs" "dp_tick c \<le> now" "in_order (pq_list q)" using r by (cases "pq_list q") (auto simp: pq_ready_def split: if_splits)
  obtain cs' where cs': "c # cs' = fold insert_due (map dp_of ps) (c # cs)"
    using pushes_behind [OF c(1,2) p c(3)] by blast
  have sq: "waitingOnRetry (sent_queue now ok ps ?q) = (\<not> ok)"
    "pq_list (sent_queue now ok ps ?q) = (if ok then cs' else c # cs')"
    "pq_signals (sent_queue now ok ps ?q) = pq_signals q + of_bool (pq_drainManager q \<and> pq_list (sent_queue now ok ps ?q) = [])"
    using c(1) cs' [symmetric] by (auto simp: sent_queue_def Let_def)
  show ?thesis by (rule exI [of _ "sent_queue now ok ps ?q"]) (use e sq c(1) cs' in auto)
qed

text \<open>Two packets are queued for ticks 5 and 3; the one for tick 3 goes first, is refused, and is taken on the retry while the
  peer schedules a third.\<close>

definition ex_pq :: packet_queue where
  "ex_pq = \<lparr>pq_list = [\<lparr>dp_tick = 3, dp_pkt = 1, sendAsSnoop = False\<rparr>, \<lparr>dp_tick = 5, dp_pkt = 0, sendAsSnoop = False\<rparr>],
     pq_event = Some 3, pq_drainManager = False, pq_signals = 0, waitingOnRetry = False\<rparr>"

lemma ex_pq_run: "pq_run 3 ex_pq [\<lparr>dp_tick = 5, dp_pkt = 0, sendAsSnoop = False\<rparr>, \<lparr>dp_tick = 3, dp_pkt = 1, sendAsSnoop = False\<rparr>] []"
proof -
  let ?v = "plain_packet ReadReq 0 [0]"
  have e: "\<not> isExpressSnoop ?v" by (simp add: isExpressSnoop_def plain_packet_def Packet_blank_def fl_defs pkt_flag_defs)
  have "pq_run 0 PacketQueue [] []" by (rule pq_start) (simp add: MaxTick_def)
  moreover have "schedSendTiming 0 0 ?v 5 False PacketQueue =
      Inr (PacketQueue\<lparr>pq_list := [\<lparr>dp_tick = 5, dp_pkt = 0, sendAsSnoop = False\<rparr>], pq_event := Some 5\<rparr>)"
    using e by (simp add: schedSendTiming_def PacketQueue_def schedSendEvent_def pq_schedule_def)
  ultimately have "pq_run 0 (PacketQueue\<lparr>pq_list := [\<lparr>dp_tick = 5, dp_pkt = 0, sendAsSnoop = False\<rparr>], pq_event := Some 5\<rparr>)
      ([] @ [\<lparr>dp_tick = 5, dp_pkt = 0, sendAsSnoop = False\<rparr>]) []" by (rule pq_sched) (simp add: MaxTick_def)
  moreover have "schedSendTiming 0 1 ?v 3 False (PacketQueue\<lparr>pq_list := [\<lparr>dp_tick = 5, dp_pkt = 0, sendAsSnoop = False\<rparr>], pq_event := Some 5\<rparr>) =
      Inr ex_pq"
    using e by (simp add: schedSendTiming_def PacketQueue_def schedSendEvent_def pq_schedule_def ex_pq_def)
  ultimately have "pq_run 0 ex_pq (([] @ [\<lparr>dp_tick = 5, dp_pkt = 0, sendAsSnoop = False\<rparr>]) @ [\<lparr>dp_tick = 3, dp_pkt = 1, sendAsSnoop = False\<rparr>]) []"
    by (rule pq_sched) (simp add: MaxTick_def)
  then have "pq_run 0 ex_pq [\<lparr>dp_tick = 5, dp_pkt = 0, sendAsSnoop = False\<rparr>, \<lparr>dp_tick = 3, dp_pkt = 1, sendAsSnoop = False\<rparr>] []" by simp
  then show ?thesis by (rule pq_time) (simp_all add: MaxTick_def ex_pq_def)
qed

theorem packet_queue_order_witness:
  "sorted (map dp_tick (pq_list ex_pq)) \<and> filter (\<lambda>d. dp_tick d = 3) (pq_list ex_pq) = [\<lparr>dp_tick = 3, dp_pkt = 1, sendAsSnoop = False\<rparr>]"
  using packet_queue_order [OF ex_pq_run] by simp

theorem packet_queue_sends_witness:
  "\<exists>q'. processSendEvent (\<lambda>s p snoop. Inr (True, [(2, plain_packet ReadReq 0 [0], 4, False)], s)) 3 ex_pq () = Inr (q', ()) \<and>
     map dp_pkt (pq_list q') = [2, 0]"
proof -
  let ?send = "\<lambda>s p snoop. Inr (True, [(2, plain_packet ReadReq 0 [0], 4, False)], s)"
  have "push_ok 3 (2, plain_packet ReadReq 0 [0], 4, False)"
    by (simp add: push_ok_def MaxTick_def isExpressSnoop_def plain_packet_def Packet_blank_def fl_defs pkt_flag_defs)
  then obtain q' where "processSendEvent ?send 3 ex_pq () = Inr (q', ())"
    "hd (pq_list ex_pq) # pq_list q' = fold insert_due (map dp_of [(2, plain_packet ReadReq 0 [0], 4, False)]) (pq_list ex_pq)"
    using packet_queue_sends [OF ex_pq_run, of ?send "()" True "[(2, plain_packet ReadReq 0 [0], 4, False)]" "()"]
    by (auto simp: ex_pq_def)
  then show ?thesis by (intro exI [of _ q']) (simp add: ex_pq_def insert_due_def dp_of_def)
qed

section \<open>A port that answers atomic accesses later\<close>

text \<open>
  The timing port of simple devices (\<open>mem/tport.cc\<close>, with the queued ports of \<open>mem/qport.hh\<close>): a request is served at once by the
  atomic access of the device, and the response is queued for its latency. Packets that need no response are deleted when
  the next request comes.
\<close>

record timing_port =
  tp_queue :: packet_queue
  tp_pendingDelete :: "nat list"

definition SimpleTimingPort :: timing_port where
  "SimpleTimingPort = \<lparr>tp_queue = PacketQueue, tp_pendingDelete = []\<rparr>"

definition qp_schedTimingResp :: "Tick \<Rightarrow> nat \<Rightarrow> packet \<Rightarrow> Tick \<Rightarrow> timing_port \<Rightarrow> timing_port res" where
  "qp_schedTimingResp now p v w t = bindR (schedSendTiming now p v w False (tp_queue t)) (\<lambda>q. Inr (t\<lparr>tp_queue := q\<rparr>))"

definition tp_recvTimingReq ::
    "'s atomic_peer \<Rightarrow> Tick \<Rightarrow> nat \<Rightarrow> timing_port \<times> packet cells \<times> 's \<Rightarrow> (bool \<times> timing_port \<times> packet cells \<times> 's) res" where
  "tp_recvTimingReq recvAtomic now p x =
     (case x of (t, h, s) \<Rightarrow>
        let h1 = fold (\<lambda>a g. free_cell g a) (tp_pendingDelete t) h; t1 = t\<lparr>tp_pendingDelete := []\<rparr> in
        bindR (cell h1 p) (\<lambda>v.
          if memInhibitAsserted v then Inl (Panic ''SimpleTimingPort should never see an inhibited request'')
          else
            bindR (recvAtomic s v) (\<lambda>(latency, v', s').
              let h2 = set_cell h1 p v' in
              if needsResponse v then
                assertR (isResponse v') ''pkt->isResponse()''
                  (bindR (qp_schedTimingResp now p v' (now + latency) t1) (\<lambda>t2. Inr (True, t2, h2, s')))
              else Inr (True, t1\<lparr>tp_pendingDelete := [p]\<rparr>, h2, s'))))"

definition tp_recvFunctional ::
    "'s atomic_peer \<Rightarrow> nat \<Rightarrow> timing_port \<times> packet cells \<times> 's \<Rightarrow> (timing_port \<times> packet cells \<times> 's) res" where
  "tp_recvFunctional recvAtomic p x =
     (case x of (t, h, s) \<Rightarrow>
        bindR (cell h p) (\<lambda>v.
        bindR (pq_checkFunctional v (tp_queue t) h) (\<lambda>(found, v', h').
          if found then Inr (t, set_cell h' p v', s)
          else bindR (recvAtomic s v') (\<lambda>(_, v'', s'). Inr (t, set_cell h' p v'', s')))))"

text \<open>In front of a memory the port queues the response with the data for the time of the access plus its latency.\<close>

context atomic_memory
begin

lemma timing_port_read:
  assumes i: "inv s" and p: "cell h p = Inr v" "plain_request ReadReq v d" and b: "bytes_at (view s) (pk_addr v) bs" "length bs = length d"
    and q: "pq_inv now (tp_queue t)" "length (pq_list (tp_queue t)) \<le> 100" "now \<le> now + lat s" "now + lat s < MaxTick"
    and pd: "tp_pendingDelete t = []"
    and ne: "\<And>r s'. aacc s v = Inr (lat s, r, s') \<Longrightarrow> \<not> isExpressSnoop r"
  shows "\<exists>t' h' s' r. tp_recvTimingReq aacc now p (t, h, s) = Inr (True, t', h', s') \<and> cell h' p = Inr r \<and> getPtr r = Inr bs \<and>
    pq_list (tp_queue t') = insert_due \<lparr>dp_tick = now + lat s, dp_pkt = p, sendAsSnoop = False\<rparr> (pq_list (tp_queue t)) \<and>
    pq_inv now (tp_queue t') \<and> view s' = view s"
proof -
  obtain r s' where r: "aacc s v = Inr (lat s, r, s')" "isResponse r" "getPtr r = Inr bs" "view s' = view s"
    using atomic_read_law [OF i p(2) b] by blast
  have v: "\<not> memInhibitAsserted v" "needsResponse v" using p(2) by (auto simp: plain_request_def pkt_test_defs cmd_defs)
  let ?q = "tp_queue t" and ?w = "now + lat s"
  have "\<exists>q'. schedSendTiming now p r ?w False ?q = Inr q'"
    using q ne [OF r(1)] by (cases "pq_list ?q")
      (auto simp: schedSendTiming_def schedSendEvent_def pq_schedule_def pq_inv_def Let_def split: option.splits if_splits)
  then obtain q' where q': "schedSendTiming now p r ?w False ?q = Inr q'" by blast
  note s = pq_sched_inv [OF q(1) q' q(4)]
  have "tp_recvTimingReq aacc now p (t, h, s) = Inr (True, t\<lparr>tp_pendingDelete := [], tp_queue := q'\<rparr>, set_cell h p r, s')"
    using p(1) v r(1,2) q' pd by (simp add: tp_recvTimingReq_def qp_schedTimingResp_def Let_def)
  then show ?thesis using r(3,4) s p(1) 
    by (intro exI [of _ "t\<lparr>tp_pendingDelete := [], tp_queue := q'\<rparr>"] exI [of _ "set_cell h p r"] exI [of _ s'] exI [of _ r])
      (auto simp: cell_set)
qed

end

end
