(* ===== verification/EventQ.thy ===== *)
theory EventQ
  imports Cells Request "HOL-Library.Product_Lexorder"
begin

text \<open>
  The event queue (\<open>sim/eventq.hh\<close>, \<open>sim/eventq.cc\<close>, \<open>sim/eventq_impl.hh\<close> under \<open>src/SMC_original/GEM5/gem5/src\<close>) and the loop of the
  simulation over it (\<open>sim/simulate.cc\<close>). The queue is a list of bins linked by \<open>nextBin\<close>, and a bin is a stack of
  the events of one tick and priority linked by \<open>nextInBin\<close>; only the event on top of a bin has a valid \<open>nextBin\<close>.
  Events are cells. The action of an event is the argument \<open>process\<close>. Tracing and the printing of the queue
  are left out, and so are checkpoints.
\<close>

section \<open>Events\<close>

record event =
  nextBin :: "nat option"
  nextInBin :: "nat option"
  ev_when :: Tick
  ev_priority :: "8 word"
  ev_flags :: u16
  ev_queue :: "nat option"

definition PublicWrite :: u16 where "PublicWrite = 0x001d"
definition Squashed :: u16 where "Squashed = 0x0001"
definition Scheduled :: u16 where "Scheduled = 0x0002"
definition AutoDelete :: u16 where "AutoDelete = 0x0004"
definition IsExitEvent :: u16 where "IsExitEvent = 0x0010"
definition IsMainQueue :: u16 where "IsMainQueue = 0x0020"
definition Initialized :: u16 where "Initialized = 0x7a40"
definition InitMask :: u16 where "InitMask = 0xffc0"

lemmas ev_flag_defs = PublicWrite_def Squashed_def Scheduled_def AutoDelete_def IsExitEvent_def IsMainQueue_def
  Initialized_def InitMask_def

definition Event :: "8 word \<Rightarrow> u16 \<Rightarrow> event res" where
  "Event p f =
     assertR (fl_noneSet f (NOT PublicWrite)) ''f.noneSet(~PublicWrite)''
       (Inr \<lparr>nextBin = None, nextInBin = None, ev_when = 0, ev_priority = p, ev_flags = Initialized OR f, ev_queue = None\<rparr>)"

definition setWhen :: "Tick \<Rightarrow> nat \<Rightarrow> event \<Rightarrow> event" where
  "setWhen w q v = v\<lparr>ev_when := w, ev_queue := Some q\<rparr>"

definition initialized :: "event \<Rightarrow> bool" where "initialized v \<longleftrightarrow> ev_flags v AND InitMask = Initialized"
definition scheduled :: "event \<Rightarrow> bool" where "scheduled v \<longleftrightarrow> fl_isSet (ev_flags v) Scheduled"
definition squash :: "event \<Rightarrow> event" where "squash v = v\<lparr>ev_flags := fl_set (ev_flags v) Squashed\<rparr>"
definition squashed :: "event \<Rightarrow> bool" where "squashed v \<longleftrightarrow> fl_isSet (ev_flags v) Squashed"
definition isExitEvent :: "event \<Rightarrow> bool" where "isExitEvent v \<longleftrightarrow> fl_isSet (ev_flags v) IsExitEvent"

text \<open>The comparisons; the priority is a signed byte.\<close>

definition ev_less :: "event \<Rightarrow> event \<Rightarrow> bool" where
  "ev_less l r \<longleftrightarrow> ev_when l < ev_when r \<or> ev_when l = ev_when r \<and> sint (ev_priority l) < sint (ev_priority r)"

definition ev_le :: "event \<Rightarrow> event \<Rightarrow> bool" where
  "ev_le l r \<longleftrightarrow> ev_when l < ev_when r \<or> ev_when l = ev_when r \<and> sint (ev_priority l) \<le> sint (ev_priority r)"

definition ev_eq :: "event \<Rightarrow> event \<Rightarrow> bool" where
  "ev_eq l r \<longleftrightarrow> ev_when l = ev_when r \<and> ev_priority l = ev_priority r"

text \<open>The destructor, with the freeing of the memory.\<close>

definition delete_event :: "nat \<Rightarrow> event cells \<Rightarrow> event cells res" where
  "delete_event e h = bindR (cell h e) (\<lambda>v. assertR (\<not> scheduled v) ''!scheduled()'' (Inr (free_cell h e)))"

section \<open>Queues\<close>

record event_queue =
  eq_id :: nat
  eq_head :: "nat option"
  eq_curTick :: Tick
  async_queue :: "nat list"

definition EventQueue :: "nat \<Rightarrow> event_queue" where
  "EventQueue i = \<lparr>eq_id = i, eq_head = None, eq_curTick = 0, async_queue = []\<rparr>"

type_synonym eq_state = "event_queue \<times> event cells"

definition insertBefore :: "nat \<Rightarrow> nat option \<Rightarrow> event cells \<Rightarrow> (nat \<times> event cells) res" where
  "insertBefore e cu h =
     bindR (cell h e) (\<lambda>ve.
       case cu of
         None \<Rightarrow> Inr (e, set_cell h e (ve\<lparr>nextBin := None, nextInBin := None\<rparr>))
       | Some c \<Rightarrow>
           bindR (cell h c) (\<lambda>vc.
             if ev_less ve vc then Inr (e, set_cell h e (ve\<lparr>nextBin := Some c, nextInBin := None\<rparr>))
             else Inr (e, set_cell h e (ve\<lparr>nextBin := nextBin vc, nextInBin := Some c\<rparr>))))"

text \<open>The loop along the bins, of \<open>insert\<close> and of \<open>remove\<close>.\<close>

fun find_bin :: "nat \<Rightarrow> event cells \<Rightarrow> event \<Rightarrow> nat \<Rightarrow> nat option \<Rightarrow> (nat \<times> nat option) res" where
  "find_bin n h ve prev None = Inr (prev, None)"
| "find_bin 0 h ve prev (Some c) = Inl Diverges"
| "find_bin (Suc n) h ve prev (Some c) =
     bindR (cell h c) (\<lambda>vc. if ev_less vc ve then find_bin n h ve c (nextBin vc) else Inr (prev, Some c))"

definition eq_insert :: "nat \<Rightarrow> eq_state \<Rightarrow> eq_state res" where
  "eq_insert e x =
     (case x of (q, h) \<Rightarrow>
        case eq_head q of
          None \<Rightarrow> bindR (insertBefore e None h) (\<lambda>(t, h1). Inr (q\<lparr>eq_head := Some t\<rparr>, h1))
        | Some d \<Rightarrow>
            bindR (cell h e) (\<lambda>ve. bindR (cell h d) (\<lambda>vd.
              if ev_le ve vd then bindR (insertBefore e (Some d) h) (\<lambda>(t, h1). Inr (q\<lparr>eq_head := Some t\<rparr>, h1))
              else
                bindR (find_bin (length h) h ve d (nextBin vd)) (\<lambda>(prev, cu).
                bindR (insertBefore e cu h) (\<lambda>(t, h1).
                bindR (upd_cell h1 prev (\<lambda>v. v\<lparr>nextBin := Some t\<rparr>)) (\<lambda>h2. Inr (q, h2)))))))"

fun item_loop :: "nat \<Rightarrow> event cells \<Rightarrow> nat \<Rightarrow> nat \<Rightarrow> nat option \<Rightarrow> nat res" where
  "item_loop n h e cu None = Inl (Panic ''event not found!'')"
| "item_loop 0 h e cu (Some x) = (if x = e then Inr cu else Inl Diverges)"
| "item_loop (Suc n) h e cu (Some x) =
     (if x = e then Inr cu else bindR (cell h x) (\<lambda>vx. item_loop n h e x (nextInBin vx)))"

definition removeItem :: "nat \<Rightarrow> nat \<Rightarrow> event cells \<Rightarrow> (nat option \<times> event cells) res" where
  "removeItem e tp h =
     bindR (cell h tp) (\<lambda>vt.
       if e = tp then
         (case nextInBin vt of
            None \<Rightarrow> Inr (nextBin vt, h)
          | Some nx \<Rightarrow> bindR (upd_cell h nx (\<lambda>v. v\<lparr>nextBin := nextBin vt\<rparr>)) (\<lambda>h1. Inr (Some nx, h1)))
       else
         bindR (item_loop (length h) h e tp (nextInBin vt)) (\<lambda>cu.
         bindR (cell h e) (\<lambda>ve.
         bindR (upd_cell h cu (\<lambda>v. v\<lparr>nextInBin := nextInBin ve\<rparr>)) (\<lambda>h1. Inr (Some tp, h1)))))"

definition eq_remove :: "nat \<Rightarrow> eq_state \<Rightarrow> eq_state res" where
  "eq_remove e x =
     (case x of (q, h) \<Rightarrow>
        case eq_head q of
          None \<Rightarrow> Inl (Panic ''event not found!'')
        | Some d \<Rightarrow>
            bindR (cell h e) (\<lambda>ve.
            assertR (ev_queue ve = Some (eq_id q)) ''event->queue == this''
             (bindR (cell h d) (\<lambda>vd.
                if ev_eq vd ve then bindR (removeItem e d h) (\<lambda>(t, h1). Inr (q\<lparr>eq_head := t\<rparr>, h1))
                else
                  bindR (find_bin (length h) h ve d (nextBin vd)) (\<lambda>(prev, cu).
                    case cu of
                      None \<Rightarrow> Inl (Panic ''event not found!'')
                    | Some c \<Rightarrow>
                        bindR (cell h c) (\<lambda>vc.
                          if \<not> ev_eq vc ve then Inl (Panic ''event not found!'')
                          else
                            bindR (removeItem e c h) (\<lambda>(t, h1).
                            bindR (upd_cell h1 prev (\<lambda>v. v\<lparr>nextBin := t\<rparr>)) (\<lambda>h2. Inr (q, h2)))))))))"

definition asyncInsert :: "nat \<Rightarrow> event_queue \<Rightarrow> event_queue" where
  "asyncInsert e q = q\<lparr>async_queue := async_queue q @ [e]\<rparr>"

text \<open>The scheduling interface; \<open>par\<close> is \<open>inParallelMode\<close> and \<open>cur\<close> the queue of the running thread.\<close>

definition eq_schedule :: "bool \<Rightarrow> nat \<Rightarrow> bool \<Rightarrow> nat \<Rightarrow> Tick \<Rightarrow> eq_state \<Rightarrow> eq_state res" where
  "eq_schedule par cur global e when x =
     (case x of (q, h) \<Rightarrow>
        assertR (when \<ge> eq_curTick q) ''when >= getCurTick()''
         (bindR (cell h e) (\<lambda>v.
            assertR (\<not> scheduled v) ''!event->scheduled()''
           (assertR (initialized v) ''event->initialized()''
             (let h1 = set_cell h e (setWhen when (eq_id q) v) in
              bindR (if par \<and> (eq_id q \<noteq> cur \<or> global) then Inr (asyncInsert e q, h1) else eq_insert e (q, h1)) (\<lambda>(q2, h2).
              bindR (upd_cell h2 e (\<lambda>v. v\<lparr>ev_flags := fl_set (ev_flags v) Scheduled\<rparr>)) (\<lambda>h3. Inr (q2, h3))))))))"

definition eq_deschedule :: "bool \<Rightarrow> nat \<Rightarrow> nat \<Rightarrow> eq_state \<Rightarrow> eq_state res" where
  "eq_deschedule par cur e x =
     (case x of (q, h) \<Rightarrow>
        bindR (cell h e) (\<lambda>v.
          assertR (scheduled v) ''event->scheduled()''
         (assertR (initialized v) ''event->initialized()''
         (assertR (\<not> par \<or> eq_id q = cur) ''!inParallelMode || this == curEventQueue()''
           (bindR (eq_remove e (q, h)) (\<lambda>(q1, h1).
            bindR (upd_cell h1 e (\<lambda>v. v\<lparr>ev_flags := fl_clear (fl_clear (ev_flags v) Squashed) Scheduled\<rparr>)) (\<lambda>h2.
            bindR (cell h2 e) (\<lambda>v2.
              if fl_isSet (ev_flags v2) AutoDelete then bindR (delete_event e h2) (\<lambda>h3. Inr (q1, h3)) else Inr (q1, h2)))))))))"

definition eq_reschedule :: "bool \<Rightarrow> nat \<Rightarrow> nat \<Rightarrow> Tick \<Rightarrow> bool \<Rightarrow> eq_state \<Rightarrow> eq_state res" where
  "eq_reschedule par cur e when always x =
     (case x of (q, h) \<Rightarrow>
        assertR (when \<ge> eq_curTick q) ''when >= getCurTick()''
         (bindR (cell h e) (\<lambda>v.
            assertR (always \<or> scheduled v) ''always || event->scheduled()''
           (assertR (initialized v) ''event->initialized()''
           (assertR (\<not> par \<or> eq_id q = cur) ''!inParallelMode || this == curEventQueue()''
             (bindR (if scheduled v then eq_remove e (q, h) else Inr (q, h)) (\<lambda>(q1, h1).
              bindR (upd_cell h1 e (setWhen when (eq_id q))) (\<lambda>h2.
              bindR (eq_insert e (q1, h2)) (\<lambda>(q3, h3).
              bindR (upd_cell h3 e (\<lambda>v. v\<lparr>ev_flags := fl_set (fl_clear (ev_flags v) Squashed) Scheduled\<rparr>)) (\<lambda>h4.
                Inr (q3, h4)))))))))))"

fun handleAsync :: "nat list \<Rightarrow> eq_state \<Rightarrow> eq_state res" where
  "handleAsync [] x = Inr x"
| "handleAsync (e # es) x = bindR (eq_insert e x) (\<lambda>(q, h). handleAsync es (q\<lparr>async_queue := es\<rparr>, h))"

definition handleAsyncInsertions :: "nat \<Rightarrow> eq_state \<Rightarrow> eq_state res" where
  "handleAsyncInsertions cur x =
     assertR (eq_id (fst x) = cur) ''this == curEventQueue()'' (handleAsync (async_queue (fst x)) x)"

section \<open>Servicing\<close>

text \<open>\<open>serviceOne\<close> up to the action.\<close>

definition eq_pop :: "eq_state \<Rightarrow> (nat \<times> eq_state) res" where
  "eq_pop x =
     (case x of (q, h) \<Rightarrow>
        case eq_head q of
          None \<Rightarrow> Inl BadPtr
        | Some e \<Rightarrow>
            bindR (cell h e) (\<lambda>v.
              let h1 = set_cell h e (v\<lparr>ev_flags := fl_clear (ev_flags v) Scheduled\<rparr>) in
              case nextInBin v of
                Some nx \<Rightarrow> bindR (upd_cell h1 nx (\<lambda>w. w\<lparr>nextBin := nextBin v\<rparr>)) (\<lambda>h2. Inr (e, q\<lparr>eq_head := Some nx\<rparr>, h2))
              | None \<Rightarrow> Inr (e, q\<lparr>eq_head := nextBin v\<rparr>, h1)))"

definition auto_delete :: "nat \<Rightarrow> eq_state \<Rightarrow> (nat option \<times> eq_state) res" where
  "auto_delete e x =
     (case x of (q, h) \<Rightarrow>
        bindR (cell h e) (\<lambda>v.
          if fl_isSet (ev_flags v) AutoDelete \<and> \<not> scheduled v then bindR (delete_event e h) (\<lambda>h1. Inr (None, q, h1))
          else Inr (None, q, h)))"

definition serviceOne :: "(nat \<Rightarrow> eq_state \<Rightarrow> eq_state res) \<Rightarrow> eq_state \<Rightarrow> (nat option \<times> eq_state) res" where
  "serviceOne process x =
     bindR (eq_pop x) (\<lambda>(e, q, h).
     bindR (cell h e) (\<lambda>v.
       if \<not> squashed v then
         bindR (process e (q\<lparr>eq_curTick := ev_when v\<rparr>, h)) (\<lambda>(q2, h2).
         bindR (cell h2 e) (\<lambda>v2.
           if isExitEvent v2 then
             assertR (\<not> fl_isSet (ev_flags v2) AutoDelete \<or> \<not> fl_isSet (ev_flags v2) IsMainQueue) ''!AutoDelete || !IsMainQueue''
               (Inr (Some e, q2, h2))
           else auto_delete e (q2, h2)))
       else auto_delete e (q, set_cell h e (v\<lparr>ev_flags := fl_clear (ev_flags v) Squashed\<rparr>))))"

text \<open>The loops over the queue take fuel, since the actions may schedule events for ever; \<open>Diverges\<close> is a loop that has not ended.\<close>

definition eq_nextTick :: "eq_state \<Rightarrow> Tick res" where
  "eq_nextTick x = (case eq_head (fst x) of None \<Rightarrow> Inl BadPtr | Some e \<Rightarrow> bindR (cell (snd x) e) (\<lambda>v. Inr (ev_when v)))"

fun serviceEvents :: "nat \<Rightarrow> (nat \<Rightarrow> eq_state \<Rightarrow> eq_state res) \<Rightarrow> Tick \<Rightarrow> eq_state \<Rightarrow> eq_state res" where
  "serviceEvents n process when x =
     (if eq_head (fst x) = None then Inr ((fst x)\<lparr>eq_curTick := when\<rparr>, snd x)
      else bindR (eq_nextTick x) (\<lambda>t.
        if t > when then Inr ((fst x)\<lparr>eq_curTick := when\<rparr>, snd x)
        else case n of
               0 \<Rightarrow> Inl Diverges
             | Suc m \<Rightarrow> bindR (serviceOne process x) (\<lambda>(_, x1). serviceEvents m process when x1)))"

declare serviceEvents.simps [simp del]

text \<open>\<open>doSimLoop\<close> without the signals from outside: it ends with an exit event.\<close>

fun sim_loop :: "nat \<Rightarrow> (nat \<Rightarrow> eq_state \<Rightarrow> eq_state res) \<Rightarrow> eq_state \<Rightarrow> (nat \<times> eq_state) res" where
  "sim_loop 0 process x = Inl Diverges"
| "sim_loop (Suc n) process x =
     assertR (eq_head (fst x) \<noteq> None) ''!eventq->empty()''
       (bindR (eq_nextTick x) (\<lambda>t.
        assertR (eq_curTick (fst x) \<le> t) ''curTick() <= eventq->nextTick()''
         (bindR (serviceOne process x) (\<lambda>(ex, x1).
            case ex of Some e \<Rightarrow> Inr (e, x1) | None \<Rightarrow> sim_loop n process x1))))"

definition doSimLoop :: "nat \<Rightarrow> (nat \<Rightarrow> eq_state \<Rightarrow> eq_state res) \<Rightarrow> eq_state \<Rightarrow> (nat \<times> eq_state) res" where
  "doSimLoop n process x = bindR (handleAsyncInsertions (eq_id (fst x)) x) (sim_loop n process)"

section \<open>What the pointers represent\<close>

text \<open>The fields of the cells as partial functions, and the order of service as a lexicographic key.\<close>

definition ev_key :: "event \<Rightarrow> Tick \<times> int" where
  "ev_key v = (ev_when v, sint (ev_priority v))"

definition field :: "(event \<Rightarrow> 'b) \<Rightarrow> event cells \<Rightarrow> nat \<Rightarrow> 'b option" where
  "field f h a = (case cell h a of Inr v \<Rightarrow> Some (f v) | Inl _ \<Rightarrow> None)"

definition key_of :: "event cells \<Rightarrow> nat \<Rightarrow> Tick \<times> int" where
  "key_of h a = (case field ev_key h a of Some k \<Rightarrow> k | None \<Rightarrow> (0, 0))"

lemma ev_key_cmp: "ev_less l r \<longleftrightarrow> ev_key l < ev_key r" "ev_le l r \<longleftrightarrow> ev_key l \<le> ev_key r" "ev_eq l r \<longleftrightarrow> ev_key l = ev_key r"
  by (auto simp: ev_less_def ev_le_def ev_eq_def ev_key_def intro: signed_word_eqI)

lemma field_Some: "field f h a = Some y \<longleftrightarrow> (\<exists>v. cell h a = Inr v \<and> y = f v)"
  by (auto simp: field_def split: sum.splits)

lemma field_set: "cell h a = Inr w \<Longrightarrow> field f (set_cell h a v) = (field f h)(a := Some (f v))"
  by (auto simp: field_def cell_set fun_eq_iff)

lemma key_of_cell: "cell h a = Inr v \<Longrightarrow> key_of h a = ev_key v"
  by (simp add: key_of_def field_def)

fun in_chain :: "(nat \<Rightarrow> nat option option) \<Rightarrow> nat option \<Rightarrow> nat list \<Rightarrow> bool" where
  "in_chain N p [] \<longleftrightarrow> p = None"
| "in_chain N p (e # es) \<longleftrightarrow> p = Some e \<and> (\<exists>n. N e = Some n \<and> in_chain N n es)"

fun bin_path :: "(nat \<Rightarrow> nat option option) \<Rightarrow> (nat \<Rightarrow> nat option option) \<Rightarrow> nat option \<Rightarrow> nat list list \<Rightarrow> nat option \<Rightarrow> bool" where
  "bin_path N M p [] q \<longleftrightarrow> p = q"
| "bin_path N M p (b # bs) q \<longleftrightarrow> b \<noteq> [] \<and> in_chain N p b \<and> (\<exists>n. M (hd b) = Some n \<and> bin_path N M n bs q)"

lemma in_chain_cong: "\<forall>e \<in> set es. N' e = N e \<Longrightarrow> in_chain N' p es = in_chain N p es"
  by (induction es arbitrary: p) auto

lemma bin_path_cong:
  "\<forall>b \<in> set bs. M' (hd b) = M (hd b) \<and> (\<forall>e \<in> set b. N' e = N e) \<Longrightarrow> bin_path N' M' p bs q = bin_path N M p bs q"
proof (induction bs arbitrary: p)
  case (Cons b bs)
  then have "in_chain N' p b = in_chain N p b" by (intro in_chain_cong) simp
  then show ?case using Cons by simp
qed simp

lemma bin_path_append: "bin_path N M p (bs @ cs) q \<longleftrightarrow> (\<exists>r. bin_path N M p bs r \<and> bin_path N M r cs q)"
  by (induction bs arbitrary: p) auto

lemma in_chain_hd: "in_chain N p b \<Longrightarrow> b \<noteq> [] \<Longrightarrow> p = Some (hd b)"
  by (cases b) auto

lemma bin_path_hd: "bin_path N M p (b # bs) q \<Longrightarrow> p = Some (hd b)"
  using in_chain_hd by auto

text \<open>The events of a queue that starts at \<open>p\<close>, as a list of stacks.\<close>

definition same_key :: "(nat \<Rightarrow> Tick \<times> int) \<Rightarrow> nat list \<Rightarrow> bool" where
  "same_key k b \<longleftrightarrow> (\<forall>e \<in> set b. k e = k (hd b))"

lemma same_keyD: "same_key k b \<Longrightarrow> e \<in> set b \<Longrightarrow> k e = k (hd b)"
  unfolding same_key_def by blast

lemma same_key_sub: "same_key k b \<Longrightarrow> set c \<subseteq> set b \<Longrightarrow> c \<noteq> [] \<Longrightarrow> same_key k c"
  unfolding same_key_def by (metis hd_in_set subsetD)

lemma same_key_Cons: "same_key k b \<Longrightarrow> b = [] \<or> k e = k (hd b) \<Longrightarrow> same_key k (e # b)"
  by (auto simp: same_key_def)

definition bins_ok :: "(nat \<Rightarrow> Tick \<times> int) \<Rightarrow> nat list list \<Rightarrow> bool" where
  "bins_ok k bs \<longleftrightarrow> [] \<notin> set bs \<and> distinct (concat bs) \<and> (\<forall>b \<in> set bs. same_key k b) \<and> sorted_wrt (<) (map (\<lambda>b. k (hd b)) bs)"

definition eq_rep :: "event cells \<Rightarrow> nat option \<Rightarrow> nat list list \<Rightarrow> bool" where
  "eq_rep h p bs \<longleftrightarrow> bin_path (field nextInBin h) (field nextBin h) p bs None \<and> bins_ok (key_of h) bs"

fun bins_insert :: "(nat \<Rightarrow> Tick \<times> int) \<Rightarrow> nat \<Rightarrow> nat list list \<Rightarrow> nat list list" where
  "bins_insert k e [] = [[e]]"
| "bins_insert k e (b # bs) =
     (if k e < k (hd b) then [e] # b # bs else if k e = k (hd b) then (e # b) # bs else b # bins_insert k e bs)"

fun bins_remove :: "nat \<Rightarrow> nat list list \<Rightarrow> nat list list" where
  "bins_remove e [] = []"
| "bins_remove e (b # bs) = (if e \<in> set b then (if b = [e] then bs else remove1 e b # bs) else b # bins_remove e bs)"

lemma bins_insert_append: "\<forall>b \<in> set bs. k (hd b) < k e \<Longrightarrow> bins_insert k e (bs @ cs) = bs @ bins_insert k e cs"
  by (induction bs) auto

lemma bins_remove_append: "\<forall>b \<in> set bs. e \<notin> set b \<Longrightarrow> bins_remove e (bs @ cs) = bs @ bins_remove e cs"
  by (induction bs) auto

lemma set_bins_insert: "set (concat (bins_insert k e bs)) = insert e (set (concat bs))"
  by (induction bs) auto

lemma bin_path_nonempty: "bin_path N M p bs q \<Longrightarrow> [] \<notin> set bs"
  by (induction bs arbitrary: p) auto

lemma bins_ok_Nil [simp]: "bins_ok k []"
  by (simp add: bins_ok_def)

lemma bins_ok_Cons: "bins_ok k (b # bs) \<longleftrightarrow> b \<noteq> [] \<and> distinct b \<and> set b \<inter> set (concat bs) = {} \<and>
    same_key k b \<and> (\<forall>c \<in> set bs. k (hd b) < k (hd c)) \<and> bins_ok k bs"
  by (auto simp: bins_ok_def)

lemma bins_insert_keys: "c \<in> set (bins_insert k e bs) \<Longrightarrow> k (hd c) = k e \<or> (\<exists>d \<in> set bs. k (hd c) = k (hd d))"
  by (induction bs) (auto split: if_splits)

lemma bins_insert_ok:
  assumes "bins_ok k bs" "e \<notin> set (concat bs)"
  shows "bins_ok k (bins_insert k e bs)"
  using assms
proof (induction bs)
  case Nil
  then show ?case by (simp add: bins_ok_Cons same_key_def)
next
  case (Cons b bs)
  consider "k e < k (hd b)" | "k e = k (hd b)" | "k (hd b) < k e" by (meson linorder_less_linear)
  then show ?case
  proof cases
    case 1
    have "\<forall>c \<in> set bs. k (hd b) < k (hd c)" using Cons.prems(1) unfolding bins_ok_Cons by blast
    then have "\<forall>c \<in> set (b # bs). k e < k (hd c)" using less_trans [OF 1] 1 by simp
    moreover have "bins_insert k e (b # bs) = [e] # b # bs" using 1 by simp
    ultimately show ?thesis using Cons.prems by (simp add: bins_ok_Cons [of k "[e]"] same_key_def)
  next
    case 2
    then show ?thesis using Cons.prems by (simp add: bins_ok_Cons same_key_Cons)
  next
    case 3
    have "bins_ok k (bins_insert k e bs)" using Cons by (simp add: bins_ok_Cons)
    moreover have "k (hd b) < k (hd c)" if "c \<in> set (bins_insert k e bs)" for c
    proof -
      have "\<forall>d \<in> set bs. k (hd b) < k (hd d)" using Cons.prems(1) by (simp add: bins_ok_Cons)
      then show ?thesis using bins_insert_keys [OF that] 3 by metis
    qed
    moreover have "set b \<inter> set (concat (bins_insert k e bs)) = {}"
      using Cons.prems unfolding set_bins_insert by (auto simp: bins_ok_Cons)
    ultimately show ?thesis using 3 less_not_sym [OF 3] Cons.prems by (simp add: bins_ok_Cons less_imp_neq [symmetric])
  qed
qed

text \<open>Updates that touch the pointers of events only.\<close>

definition ev_core :: "event \<Rightarrow> event" where
  "ev_core v = v\<lparr>nextBin := None, nextInBin := None\<rparr>"

definition same_core :: "event cells \<Rightarrow> event cells \<Rightarrow> bool" where
  "same_core h h' \<longleftrightarrow> length h' = length h \<and> (\<forall>a. field ev_core h' a = field ev_core h a)"

lemma same_core_refl [simp]: "same_core h h"
  by (simp add: same_core_def)

lemma same_core_trans: "same_core h h1 \<Longrightarrow> same_core h1 h2 \<Longrightarrow> same_core h h2"
  by (simp add: same_core_def)

lemma same_core_set: "cell h a = Inr v \<Longrightarrow> ev_core w = ev_core v \<Longrightarrow> same_core h (set_cell h a w)"
  by (auto simp: same_core_def field_set) (auto simp: field_def)

lemma ev_core_key: "ev_key (ev_core v) = ev_key v"
  by (simp add: ev_core_def ev_key_def)

lemma same_core_key: "same_core h h' \<Longrightarrow> key_of h' = key_of h"
proof
  fix a assume "same_core h h'"
  then have "field ev_core h' a = field ev_core h a" by (simp add: same_core_def)
  then show "key_of h' a = key_of h a"
    by (auto simp: key_of_def field_def split: sum.splits) (metis ev_core_key)
qed

lemma same_core_cell: "same_core h h' \<Longrightarrow> cell h a = Inr v \<Longrightarrow> \<exists>v'. cell h' a = Inr v' \<and> ev_core v' = ev_core v"
proof -
  assume "same_core h h'" "cell h a = Inr v"
  then have "field ev_core h' a = Some (ev_core v)" by (simp add: same_core_def field_def)
  then show ?thesis by (auto simp: field_Some)
qed

lemma insertBefore_front:
  assumes path: "bin_path (field nextInBin h) (field nextBin h) p bs None" and e: "cell h e = Inr ve" "e \<notin> set (concat bs)"
    and le: "bs \<noteq> [] \<Longrightarrow> key_of h e \<le> key_of h (hd (hd bs))"
  shows "\<exists>w. insertBefore e p h = Inr (e, set_cell h e w) \<and> ev_core w = ev_core ve \<and>
    bin_path (field nextInBin (set_cell h e w)) (field nextBin (set_cell h e w)) (Some e) (bins_insert (key_of h) e bs) None"
proof (cases bs)
  case Nil
  then show ?thesis using path e by (auto simp: insertBefore_def ev_core_def field_set)
next
  case (Cons b cs)
  obtain c b' where b: "b = c # b'" using path Cons by (cases b) auto
  have p: "p = Some c" using path Cons b by simp
  obtain vc where vc: "cell h c = Inr vc" using path Cons b by (auto simp: field_Some)
  have n: "field nextInBin h c = Some (nextInBin vc)" "field nextBin h c = Some (nextBin vc)" using vc by (simp_all add: field_def)
  have rest: "in_chain (field nextInBin h) (nextInBin vc) b'" "bin_path (field nextInBin h) (field nextBin h) (nextBin vc) cs None"
    using path Cons b n by auto
  have ne: "e \<noteq> c" "e \<notin> set b'" "\<forall>d \<in> set cs. e \<notin> set d" using e(2) Cons b by auto
  have hd: "\<forall>d \<in> set cs. hd d \<noteq> e" using ne(3) bin_path_nonempty [OF rest(2)] by (metis hd_in_set)
  let ?w = "if ev_less ve vc then ve\<lparr>nextBin := Some c, nextInBin := None\<rparr> else ve\<lparr>nextBin := nextBin vc, nextInBin := Some c\<rparr>"
  have ins: "insertBefore e p h = Inr (e, set_cell h e ?w)" using e(1) p vc by (simp add: insertBefore_def)
  have k: "key_of h e = ev_key ve" "key_of h c = ev_key vc" using e(1) vc by (simp_all add: key_of_cell)
  have "in_chain ((field nextInBin h)(e := x)) (nextInBin vc) b'" "bin_path ((field nextInBin h)(e := x)) ((field nextBin h)(e := y)) (nextBin vc) cs None" for x y
    using rest ne hd in_chain_cong [of b' "(field nextInBin h)(e := x)" "field nextInBin h"]
      bin_path_cong [of cs "(field nextBin h)(e := y)" "field nextBin h" "(field nextInBin h)(e := x)" "field nextInBin h"] by auto
  then have "bin_path (field nextInBin (set_cell h e ?w)) (field nextBin (set_cell h e ?w)) (Some e) (bins_insert (key_of h) e bs) None"
    using Cons b ne n le k by (auto simp: field_set [OF e(1)] ev_key_cmp)
  moreover have "ev_core ?w = ev_core ve" by (simp add: ev_core_def)
  ultimately show ?thesis using ins by blast
qed

lemma bin_path_relink:
  assumes "bin_path N M p (bs @ [b]) r" "\<forall>c \<in> set bs. hd c \<noteq> hd b"
  shows "bin_path N (M(hd b := Some r')) p (bs @ [b]) r'"
proof -
  obtain s where s: "bin_path N M p bs s" "b \<noteq> []" "in_chain N s b" using assms(1) by (auto simp: bin_path_append)
  have "bin_path N (M(hd b := Some r')) p bs s" using s(1) assms(2) bin_path_cong [of bs "M(hd b := Some r')" M N N p s] by simp
  then show ?thesis using s by (auto simp: bin_path_append)
qed

text \<open>Linking a new tail behind the bin \<open>d\<close>.\<close>

lemma bin_path_splice:
  assumes "bin_path N M p (ds @ [d]) r" "\<forall>x \<in> set ds. hd x \<noteq> hd d" "bin_path N M p' cs None" "\<forall>x \<in> set cs. hd x \<noteq> hd d"
  shows "bin_path N (M(hd d := Some p')) p ((ds @ [d]) @ cs) None"
  using bin_path_relink [OF assms(1,2), of p'] assms(3,4) bin_path_cong [of cs "M(hd d := Some p')" M N N p' None]
  by (auto simp: bin_path_append simp del: append_assoc bin_path.simps)

lemma find_bin_spec:
  assumes "bin_path (field nextInBin h) (field nextBin h) p bs None" "length bs \<le> n"
  shows "\<exists>bs1 bs2 p'. bs = bs1 @ bs2 \<and> find_bin n h ve prev p = Inr (hd (last ([prev] # bs1)), p') \<and>
    bin_path (field nextInBin h) (field nextBin h) p bs1 p' \<and> bin_path (field nextInBin h) (field nextBin h) p' bs2 None \<and>
    (\<forall>b \<in> set bs1. key_of h (hd b) < ev_key ve) \<and> (bs2 \<noteq> [] \<longrightarrow> ev_key ve \<le> key_of h (hd (hd bs2)))"
  using assms
proof (induction bs arbitrary: p n prev)
  case Nil
  then show ?case by (intro exI [of _ "[]"]) auto
next
  case (Cons b bs)
  obtain m where n: "n = Suc m" using Cons.prems(2) by (cases n) auto
  have p: "p = Some (hd b)" using bin_path_hd [OF Cons.prems(1)] .
  obtain vc where vc: "cell h (hd b) = Inr vc" using Cons.prems(1) by (auto simp: field_Some)
  have k: "key_of h (hd b) = ev_key vc" using vc by (rule key_of_cell)
  have nb: "field nextBin h (hd b) = Some (nextBin vc)" using vc by (simp add: field_def)
  show ?case
  proof (cases "ev_less vc ve")
    case True
    have "bin_path (field nextInBin h) (field nextBin h) (nextBin vc) bs None" using Cons.prems(1) nb by simp
    moreover have "length bs \<le> m" using Cons.prems(2) n by simp
    ultimately obtain bs1 bs2 p' where I: "bs = bs1 @ bs2" "find_bin m h ve (hd b) (nextBin vc) = Inr (hd (last ([hd b] # bs1)), p')"
      "bin_path (field nextInBin h) (field nextBin h) (nextBin vc) bs1 p'" "bin_path (field nextInBin h) (field nextBin h) p' bs2 None"
      "\<forall>b \<in> set bs1. key_of h (hd b) < ev_key ve" "bs2 \<noteq> [] \<longrightarrow> ev_key ve \<le> key_of h (hd (hd bs2))"
      using Cons.IH by blast
    have "hd (last ([hd b] # bs1)) = hd (last ([prev] # b # bs1))" by simp
    then show ?thesis using I True n p vc k nb Cons.prems(1)
      by (intro exI [of _ "b # bs1"] exI [of _ bs2] exI [of _ p']) (simp add: ev_key_cmp)
  next
    case False
    then have "find_bin n h ve prev p = Inr (prev, p)" using n p vc by simp
    then show ?thesis using False Cons.prems(1) k
      by (intro exI [of _ "[]"] exI [of _ "b # bs"] exI [of _ p]) (simp add: ev_key_cmp not_less)
  qed
qed

lemma bin_path_cells: "bin_path (field f h) M p bs q \<Longrightarrow> a \<in> set (concat bs) \<Longrightarrow> \<exists>v. cell h a = Inr v"
proof -
  have "in_chain (field f h) p b \<Longrightarrow> a \<in> set b \<Longrightarrow> \<exists>v. cell h a = Inr v" for p b
    by (induction b arbitrary: p) (auto simp: field_Some)
  then show "bin_path (field f h) M p bs q \<Longrightarrow> a \<in> set (concat bs) \<Longrightarrow> \<exists>v. cell h a = Inr v"
    by (induction bs arbitrary: p) auto
qed

lemma length_concat_nonempty: "[] \<notin> set bs \<Longrightarrow> length bs \<le> length (concat bs)"
proof (induction bs)
  case (Cons b bs)
  then have "1 \<le> length b" by (cases b) auto
  then show ?case using Cons by simp
qed simp

lemma eq_rep_length:
  assumes "eq_rep h p bs"
  shows "length bs \<le> length h"
proof -
  have "length bs \<le> length (concat bs)" using assms by (intro length_concat_nonempty) (simp add: eq_rep_def bins_ok_def)
  moreover have "length (concat bs) \<le> length h"
    using assms bin_path_cells [of nextInBin h "field nextBin h" p bs None] by (intro distinct_cells) (simp_all add: eq_rep_def bins_ok_def)
  ultimately show ?thesis by simp
qed

lemma hd_in_concat: "[] \<notin> set bs \<Longrightarrow> b \<in> set bs \<Longrightarrow> hd b \<in> set (concat bs)"
  by (metis hd_in_set in_set_conv_decomp_first concat.simps(2) concat_append Un_iff set_append)

text \<open>The heads of the bins are distinct.\<close>

lemma bins_heads:
  assumes "bins_ok k (bs @ b # cs)" "c \<in> set bs \<union> set cs"
  shows "hd c \<noteq> hd b"
  using assms by (auto simp: bins_ok_def sorted_wrt_append)

lemma bins_insert_heads: "c \<in> set (bins_insert k e bs) \<Longrightarrow> hd c = e \<or> c \<in> set bs"
  by (induction bs) (auto split: if_splits)

lemma eq_insert_rep:
  assumes rep: "eq_rep h (eq_head q) bs" and e: "cell h e = Inr ve" "e \<notin> set (concat bs)"
  shows "\<exists>p' h'. eq_insert e (q, h) = Inr (q\<lparr>eq_head := p'\<rparr>, h') \<and> same_core h h' \<and> eq_rep h' p' (bins_insert (key_of h) e bs)"
proof -
  let ?N = "field nextInBin" and ?M = "field nextBin"
  have path: "bin_path (?N h) (?M h) (eq_head q) bs None" and ok: "bins_ok (key_of h) bs" using rep by (simp_all add: eq_rep_def)
  have ok': "bins_ok (key_of h) (bins_insert (key_of h) e bs)" by (rule bins_insert_ok [OF ok e(2)])
  show ?thesis
  proof (cases "bs = [] \<or> key_of h e \<le> key_of h (hd (hd bs))")
    case True
    then obtain w where w: "insertBefore e (eq_head q) h = Inr (e, set_cell h e w)" "ev_core w = ev_core ve"
      "bin_path (?N (set_cell h e w)) (?M (set_cell h e w)) (Some e) (bins_insert (key_of h) e bs) None"
      using insertBefore_front [OF path e] by blast
    have sc: "same_core h (set_cell h e w)" by (rule same_core_set [OF e(1) w(2)])
    have "eq_insert e (q, h) = Inr (q\<lparr>eq_head := Some e\<rparr>, set_cell h e w)"
    proof (cases bs)
      case Nil
      then show ?thesis using path w(1) by (simp add: eq_insert_def)
    next
      case (Cons b cs)
      obtain vd where "cell h (hd b) = Inr vd" using path Cons by (auto simp: field_Some)
      moreover have "eq_head q = Some (hd b)" using path Cons bin_path_hd by blast
      ultimately show ?thesis using Cons w(1) e(1) True
        by (auto simp: eq_insert_def ev_key_cmp key_of_cell)
    qed
    then show ?thesis using sc w(3) ok' same_core_key [OF sc] by (auto simp: eq_rep_def)
  next
    case False
    then obtain b cs where bs: "bs = b # cs" by (cases bs) auto
    have hd: "eq_head q = Some (hd b)" using path bs bin_path_hd by blast
    obtain vd where vd: "cell h (hd b) = Inr vd" using path bs by (auto simp: field_Some)
    have gt: "key_of h (hd b) < key_of h e" "\<not> ev_le ve vd" using False bs vd e(1) by (auto simp: ev_key_cmp key_of_cell not_le)
    have "bin_path (?N h) (?M h) (nextBin vd) cs None" using path bs vd by (auto simp: field_def)
    then obtain bs1 bs2 p' where f: "cs = bs1 @ bs2" "find_bin (length h) h ve (hd b) (nextBin vd) = Inr (hd (last ([hd b] # bs1)), p')"
      "bin_path (?N h) (?M h) (nextBin vd) bs1 p'" "bin_path (?N h) (?M h) p' bs2 None"
      "\<forall>b \<in> set bs1. key_of h (hd b) < ev_key ve" "bs2 \<noteq> [] \<longrightarrow> ev_key ve \<le> key_of h (hd (hd bs2))"
      using find_bin_spec [of h "nextBin vd" cs "length h" ve "hd b"] eq_rep_length [OF rep] bs by auto
    obtain ds d where ds: "b # bs1 = ds @ [d]" by (metis append_butlast_last_id list.discI)
    have prev: "hd (last ([hd b] # bs1)) = hd d" using ds by (cases bs1 rule: rev_cases) auto
    obtain w where w: "insertBefore e p' h = Inr (e, set_cell h e w)" "ev_core w = ev_core ve"
      "bin_path (?N (set_cell h e w)) (?M (set_cell h e w)) (Some e) (bins_insert (key_of h) e bs2) None"
      using insertBefore_front [OF f(4) e(1)] e(2) f(6) bs f(1) e(1) by (auto simp: key_of_cell)
    let ?h1 = "set_cell h e w"
    have ne: "[] \<notin> set bs" "d \<in> set bs" using ok bs f(1) ds by (auto simp: bins_ok_def)
        (metis Un_iff in_set_conv_decomp list.set_intros(1) set_ConsD set_append)
    have "hd d \<noteq> e" using e(2) hd_in_concat [OF ne] by blast
    obtain v1 where v: "cell h (hd d) = Inr v1" using bin_path_cells [OF path hd_in_concat [OF ne]] by blast
    have v1: "cell ?h1 (hd d) = Inr v1" using v \<open>hd d \<noteq> e\<close> by simp
    let ?h2 = "set_cell ?h1 (hd d) (v1\<lparr>nextBin := Some e\<rparr>)"
    have N: "?N ?h2 = ?N ?h1" "?M ?h2 = (?M ?h1)(hd d := Some (Some e))"
      using v1 by (auto simp: field_set [OF v1] fun_eq_iff field_def)
    have dis: "e \<notin> set (concat (b # bs1))" "\<forall>c \<in> set (b # bs1). hd c \<noteq> e" "\<forall>c \<in> set ds. hd c \<noteq> hd d" "\<forall>c \<in> set bs2. hd c \<noteq> hd d"
    proof -
      show "e \<notin> set (concat (b # bs1))" using e(2) bs f(1) by simp
      show "\<forall>c \<in> set (b # bs1). hd c \<noteq> e" using e(2) hd_in_concat [OF ne(1)] bs f(1) by auto
      have "bins_ok (key_of h) (ds @ d # bs2)" using ok bs f(1) ds by (metis append.assoc append_Cons append_Nil)
      from bins_heads [OF this] show "\<forall>c \<in> set ds. hd c \<noteq> hd d" "\<forall>c \<in> set bs2. hd c \<noteq> hd d" by blast+
    qed
    have "bin_path (?N h) (?M h) (eq_head q) (b # bs1) p'" using path bs f(3) vd by (auto simp: field_def)
    then have "bin_path (?N ?h1) (?M ?h1) (eq_head q) (ds @ [d]) p'"
      using bin_path_cong [of "b # bs1" "?M ?h1" "?M h" "?N ?h1" "?N h" "eq_head q" p'] dis(1,2) ds
      by (auto simp: field_set [OF e(1)])
    moreover have "hd c \<noteq> hd d" if "c \<in> set (bins_insert (key_of h) e bs2)" for c
      using bins_insert_heads [OF that] dis(4) \<open>hd d \<noteq> e\<close> by auto
    ultimately have "bin_path (?N ?h2) (?M ?h2) (eq_head q) ((ds @ [d]) @ bins_insert (key_of h) e bs2) None"
      unfolding N using bin_path_splice [OF _ dis(3) w(3)] by blast
    moreover have "bins_insert (key_of h) e ((b # bs1) @ bs2) = (b # bs1) @ bins_insert (key_of h) e bs2"
      using gt(1) f(5) e(1) by (intro bins_insert_append) (auto simp: key_of_cell)
    then have "bins_insert (key_of h) e bs = (ds @ [d]) @ bins_insert (key_of h) e bs2" using bs f(1) ds by (metis append_Cons)
    ultimately have path2: "bin_path (?N ?h2) (?M ?h2) (eq_head q) (bins_insert (key_of h) e bs) None" by simp
    have sc: "same_core h ?h2"
      by (rule same_core_trans [OF same_core_set [OF e(1) w(2)] same_core_set [OF v1]]) (simp add: ev_core_def)
    have "eq_insert e (q, h) = Inr (q, ?h2)"
      using hd e(1) vd gt(2) f(2) w(1) v1 prev by (simp add: eq_insert_def upd_cell_Inr [OF v1])
    moreover have "eq_rep ?h2 (eq_head q) (bins_insert (key_of h) e bs)" using path2 ok' same_core_key [OF sc] by (simp add: eq_rep_def)
    ultimately show ?thesis using sc by (intro exI [of _ "eq_head q"] exI [of _ ?h2]) simp
  qed
qed

section \<open>Removing\<close>

lemma bins_remove_hd: "b \<noteq> [] \<Longrightarrow> e \<in> set b \<Longrightarrow> b \<noteq> [e] \<Longrightarrow> distinct b \<Longrightarrow> remove1 e b \<noteq> [] \<and> set (remove1 e b) = set b - {e}"
  by (cases b) (auto simp: set_remove1_eq remove1_split)

lemma in_chain_split:
  "in_chain N p (es @ fs) \<Longrightarrow> es \<noteq> [] \<Longrightarrow> N (last es) = Some (case fs of [] \<Rightarrow> None | f # _ \<Rightarrow> Some f) \<and> in_chain N (case fs of [] \<Rightarrow> None | f # _ \<Rightarrow> Some f) fs"
proof (induction es arbitrary: p)
  case (Cons e es)
  then show ?case by (cases es; cases fs) auto
qed simp

lemma item_loop_spec:
  assumes "in_chain (field nextInBin h) p es" "e \<in> set es" "length es \<le> Suc n"
  shows "\<exists>as bs. es = as @ e # bs \<and> e \<notin> set as \<and> item_loop n h e cu p = Inr (last (cu # as))"
  using assms
proof (induction es arbitrary: p n cu)
  case (Cons x es)
  show ?case
  proof (cases "x = e")
    case True
    then show ?thesis using Cons.prems by (intro exI [of _ "[]"] exI [of _ es]) (cases n; simp)
  next
    case False
    then have ee: "e \<in> set es" using Cons.prems(2) by simp
    then obtain m where n: "n = Suc m" using Cons.prems(3) by (cases n; cases es) auto
    obtain vx where vx: "cell h x = Inr vx" "in_chain (field nextInBin h) (nextInBin vx) es" using Cons.prems(1) by (auto simp: field_Some)
    obtain as bs where "es = as @ e # bs" "e \<notin> set as" "item_loop m h e x (nextInBin vx) = Inr (last (x # as))"
      using Cons.IH [OF vx(2) ee] Cons.prems(3) n by fastforce
    then show ?thesis using False n vx Cons.prems(1) by (intro exI [of _ "x # as"] exI [of _ bs]) auto
  qed
qed simp

lemma in_chain_unlink:
  assumes "in_chain N p (as @ a # e # cs)" "distinct (as @ a # e # cs)"
  shows "\<exists>n. N e = Some n \<and> in_chain (N(a := Some n)) p (as @ a # cs)"
  using assms
proof (induction as arbitrary: p)
  case Nil
  then obtain n where n: "N e = Some n" "in_chain N n cs" by auto
  have "in_chain (N(a := Some n)) n cs" using Nil.prems(2) n(2) in_chain_cong [of cs "N(a := Some n)" N n] by auto
  then show ?case using Nil.prems n by (intro exI [of _ n]) (auto simp del: fun_upd_apply simp: fun_upd_same)
qed auto

lemma removeItem_top:
  assumes path: "bin_path (field nextInBin h) (field nextBin h) p ((e # b) # bs) None" and ok: "bins_ok k ((e # b) # bs)"
  shows "\<exists>p' h'. removeItem e e h = Inr (p', h') \<and> same_core h h' \<and>
    bin_path (field nextInBin h') (field nextBin h') p' (if b = [] then bs else b # bs) None \<and> (\<forall>a. a \<notin> set b \<longrightarrow> cell h' a = cell h a)"
proof -
  obtain vt where vt: "cell h e = Inr vt" using path by (auto simp: field_Some)
  have p: "in_chain (field nextInBin h) (nextInBin vt) b" "bin_path (field nextInBin h) (field nextBin h) (nextBin vt) bs None"
    using path vt by (auto simp: field_def)
  show ?thesis
  proof (cases b)
    case Nil
    then show ?thesis using p vt by (intro exI [of _ "nextBin vt"] exI [of _ h]) (simp add: removeItem_def)
  next
    case (Cons x xs)
    obtain vx where vx: "cell h x = Inr vx" using p(1) Cons by (auto simp: field_Some)
    let ?h = "set_cell h x (vx\<lparr>nextBin := nextBin vt\<rparr>)"
    have N: "field nextInBin ?h = field nextInBin h" "field nextBin ?h = (field nextBin h)(x := Some (nextBin vt))"
      using vx by (auto simp: field_set [OF vx] fun_eq_iff field_def)
    have "\<forall>c \<in> set bs. hd c \<noteq> x"
      using ok Cons bin_path_nonempty [OF p(2)] by (auto simp: bins_ok_Cons disjoint_iff) (metis hd_in_set)
    then have "bin_path (field nextInBin ?h) (field nextBin ?h) (nextBin vt) bs None"
      unfolding N using p(2) bin_path_cong [of bs "(field nextBin h)(x := Some (nextBin vt))" "field nextBin h" "field nextInBin h" "field nextInBin h"] by simp
    then have "bin_path (field nextInBin ?h) (field nextBin ?h) (Some x) (b # bs) None" using p(1) Cons N by auto
    moreover have "same_core h ?h" by (rule same_core_set [OF vx]) (simp add: ev_core_def)
    moreover have "removeItem e e h = Inr (Some x, ?h)" using vt p(1) Cons vx by (simp add: removeItem_def upd_cell_Inr)
    ultimately show ?thesis using Cons by (intro exI [of _ "Some x"] exI [of _ ?h]) simp
  qed
qed

lemma removeItem_inner:
  assumes path: "bin_path (field nextInBin h) (field nextBin h) p (b # bs) None" and ok: "bins_ok k (b # bs)" and e: "e \<in> set b" "e \<noteq> hd b"
    and len: "length b \<le> length h"
  shows "\<exists>h'. removeItem e (hd b) h = Inr (p, h') \<and> same_core h h' \<and>
    bin_path (field nextInBin h') (field nextBin h') p (remove1 e b # bs) None \<and> (\<forall>a. a \<notin> set b \<longrightarrow> cell h' a = cell h a)"
proof -
  obtain d b' where b: "b = d # b'" using e(1) by (cases b) auto
  obtain vt where vt: "cell h d = Inr vt" "in_chain (field nextInBin h) (nextInBin vt) b'" using path b by (auto simp: field_Some)
  have "e \<in> set b'" using e b by simp
  then obtain as cs where l: "b' = as @ e # cs" "e \<notin> set as" "item_loop (length h) h e d (nextInBin vt) = Inr (last (d # as))"
    using item_loop_spec [OF vt(2), of e "length h" d] len b by auto
  obtain ds a where a: "d # as = ds @ [a]" by (metis append_butlast_last_id list.discI)
  have la: "last (d # as) = a" using a by simp
  have bb: "b = ds @ a # e # cs" using b l(1) a by (metis append.assoc append_Cons append_Nil)
  have dist: "distinct b" using ok by (simp add: bins_ok_Cons)
  have ch: "in_chain (field nextInBin h) p b" using path by simp
  obtain ve where ve: "field nextInBin h e = Some ve" "in_chain ((field nextInBin h)(a := Some ve)) p (ds @ a # cs)"
    using in_chain_unlink [of "field nextInBin h" p ds a e cs] ch dist bb by auto
  obtain we where we: "cell h e = Inr we" "ve = nextInBin we" using ve(1) by (auto simp: field_Some)
  have "a \<in> set (concat (b # bs))" using bb by simp
  then obtain wa where wa: "cell h a = Inr wa" using bin_path_cells [OF path] by blast
  let ?h = "set_cell h a (wa\<lparr>nextInBin := ve\<rparr>)"
  have N: "field nextInBin ?h = (field nextInBin h)(a := Some ve)" "field nextBin ?h = field nextBin h"
    using wa by (auto simp: field_set [OF wa] fun_eq_iff field_def)
  have r1: "remove1 e b = ds @ a # cs" using bb dist by (auto simp: remove1_append)
  have hd: "hd (ds @ a # cs) = hd b" using bb by (cases ds) auto
  have "\<forall>c \<in> set bs. a \<notin> set c" using ok bb by (auto simp: bins_ok_Cons)
  then have "bin_path ((field nextInBin h)(a := Some ve)) (field nextBin h) n bs None = bin_path (field nextInBin h) (field nextBin h) n bs None" for n
    by (intro bin_path_cong) auto
  then have "bin_path (field nextInBin ?h) (field nextBin ?h) p (remove1 e b # bs) None"
    unfolding N r1 using path ve(2) hd by simp
  moreover have "same_core h ?h" by (rule same_core_set [OF wa]) (simp add: ev_core_def)
  moreover have "removeItem e (hd b) h = Inr (p, ?h)"
    using b e vt(1) l(3) la we wa ch by (simp add: removeItem_def upd_cell_Inr)
  moreover have "\<forall>c. c \<notin> set b \<longrightarrow> cell ?h c = cell h c" using bb by auto
  ultimately show ?thesis by blast
qed

lemma removeItem_rep:
  assumes rep: "eq_rep h p (b # bs)" and e: "e \<in> set b"
  shows "\<exists>p' h'. removeItem e (hd b) h = Inr (p', h') \<and> same_core h h' \<and>
    bin_path (field nextInBin h') (field nextBin h') p' (bins_remove e (b # bs)) None \<and> (\<forall>a. a \<notin> set b \<longrightarrow> cell h' a = cell h a)"
proof -
  have path: "bin_path (field nextInBin h) (field nextBin h) p (b # bs) None" and ok: "bins_ok (key_of h) (b # bs)"
    using rep by (simp_all add: eq_rep_def)
  have ne: "b \<noteq> []" "distinct b" using ok by (simp_all add: bins_ok_Cons)
  show ?thesis
  proof (cases "e = hd b")
    case True
    then obtain b' where b: "b = e # b'" using ne(1) by (cases b) auto
    have "e \<notin> set b'" using ne(2) b by simp
    then have "bins_remove e (b # bs) = (if b' = [] then bs else b' # bs)" using b by simp
    then show ?thesis using removeItem_top [of h p e b' bs] path ok b by fastforce
  next
    case False
    have "length b \<le> length h"
      using bin_path_cells [OF path] ne(2) by (intro distinct_cells) simp_all
    then obtain h' where h': "removeItem e (hd b) h = Inr (p, h')" "same_core h h'"
      "bin_path (field nextInBin h') (field nextBin h') p (remove1 e b # bs) None" "\<forall>a. a \<notin> set b \<longrightarrow> cell h' a = cell h a"
      using removeItem_inner [OF path ok e False] by blast
    moreover have "b \<noteq> [e]" using False by auto
    ultimately show ?thesis using e by auto
  qed
qed

lemma set_bins_remove: "bins_ok k bs \<Longrightarrow> set (concat (bins_remove e bs)) = set (concat bs) - {e}"
  by (induction bs) (auto simp: bins_ok_Cons set_remove1_eq)

lemma bins_remove_sub: "bins_ok k bs \<Longrightarrow> c \<in> set (bins_remove e bs) \<Longrightarrow> c \<noteq> [] \<and> (\<exists>d \<in> set bs. set c \<subseteq> set d \<and> same_key k d)"
proof (induction bs)
  case (Cons b bs)
  then show ?case using bins_remove_hd [of b e] by (fastforce simp: bins_ok_Cons bins_ok_def split: if_splits)
qed simp

lemma bins_remove_ok: "bins_ok k bs \<Longrightarrow> bins_ok k (bins_remove e bs)"
proof (induction bs)
  case (Cons b bs)
  note ok = Cons.prems
  show ?case
  proof (cases "e \<in> set b")
    case True
    have r: "remove1 e b \<noteq> [] \<and> set (remove1 e b) = set b - {e}" if "b \<noteq> [e]"
      using bins_remove_hd [of b e] ok that True by (simp add: bins_ok_Cons)
    then have "k (hd (remove1 e b)) = k (hd b)" if "b \<noteq> [e]"
      using same_keyD [of k b "hd (remove1 e b)"] ok that by (metis DiffD1 bins_ok_Cons hd_in_set)
    then show ?thesis using True ok r same_key_sub [of k b "remove1 e b"] by (auto simp: bins_ok_Cons)
  next
    case False
    have IH: "bins_ok k (bins_remove e bs)" using Cons by (simp add: bins_ok_Cons)
    have "k (hd b) < k (hd c)" if m: "c \<in> set (bins_remove e bs)" for c
    proof -
      obtain d where d: "c \<noteq> []" "d \<in> set bs" "set c \<subseteq> set d" "same_key k d" using bins_remove_sub [of k bs c e] m ok by (auto simp: bins_ok_Cons)
      then have "k (hd c) = k (hd d)" using same_keyD by (metis hd_in_set subsetD)
      then show ?thesis using ok d(2) by (simp add: bins_ok_Cons)
    qed
    then show ?thesis using False IH ok set_bins_remove [of k bs e] by (auto simp: bins_ok_Cons)
  qed
qed simp

text \<open>The bin of an event is where the search for its key stops.\<close>

lemma bins_split:
  assumes "bins_ok k bs" "e \<in> set (concat bs)"
  shows "\<exists>bs1 c bs2. bs = bs1 @ c # bs2 \<and> e \<in> set c \<and> k (hd c) = k e \<and> (\<forall>b \<in> set bs1. k (hd b) < k e \<and> e \<notin> set b)"
  using assms
proof (induction bs)
  case (Cons b bs)
  show ?case
  proof (cases "e \<in> set b")
    case True
    then show ?thesis using same_keyD [of k b e] Cons.prems(1) by (intro exI [of _ "[]"] exI [of _ b] exI [of _ bs]) (simp add: bins_ok_Cons)
  next
    case False
    then obtain bs1 c bs2 where "bs = bs1 @ c # bs2" "e \<in> set c" "k (hd c) = k e" "\<forall>b \<in> set bs1. k (hd b) < k e \<and> e \<notin> set b"
      using Cons by (auto simp: bins_ok_Cons)
    moreover have "k (hd b) < k e" using Cons.prems(1) calculation by (auto simp: bins_ok_Cons)
    ultimately show ?thesis using False by (intro exI [of _ "b # bs1"] exI [of _ c] exI [of _ bs2]) simp
  qed
qed simp

lemma sorted_split_unique:
  assumes "bins_ok k (bs1 @ c # bs2)" "k (hd c) = x" "bs1 @ c # bs2 = cs1 @ cs2" "\<forall>b \<in> set cs1. k (hd b) < x" "cs2 \<noteq> [] \<Longrightarrow> x \<le> k (hd (hd cs2))"
  shows "cs1 = bs1 \<and> cs2 = c # bs2"
proof -
  have lt: "\<forall>b \<in> set bs1. k (hd b) < x" using assms(1,2) by (auto simp: bins_ok_def sorted_wrt_append)
  consider us where "bs1 = cs1 @ us" "us @ c # bs2 = cs2" | us where "cs1 = bs1 @ us" "c # bs2 = us @ cs2"
    using assms(3) by (auto simp: append_eq_append_conv2)
  then show ?thesis
  proof cases
    case 1
    have "us = []"
    proof (cases us)
      case (Cons u us')
      then have "x \<le> k (hd u)" "k (hd u) < x" using assms(5) 1 lt by auto
      then show ?thesis by simp
    qed
    then show ?thesis using 1 by simp
  next
    case 2
    have "us = []"
    proof (cases us)
      case (Cons u us')
      then have "u = c" "k (hd u) < x" using assms(4) 2 by auto
      then show ?thesis using assms(2) by simp
    qed
    then show ?thesis using 2 by simp
  qed
qed

lemma eq_remove_rep:
  assumes rep: "eq_rep h (eq_head q) bs" and e: "e \<in> set (concat bs)" "field ev_queue h e = Some (Some (eq_id q))"
  shows "\<exists>p' h'. eq_remove e (q, h) = Inr (q\<lparr>eq_head := p'\<rparr>, h') \<and> same_core h h' \<and> eq_rep h' p' (bins_remove e bs)"
proof -
  let ?N = "field nextInBin" and ?M = "field nextBin"
  have path: "bin_path (?N h) (?M h) (eq_head q) bs None" and ok: "bins_ok (key_of h) bs" using rep by (simp_all add: eq_rep_def)
  have ok': "bins_ok (key_of h) (bins_remove e bs)" by (rule bins_remove_ok [OF ok])
  obtain ve where ve: "cell h e = Inr ve" "ev_queue ve = Some (eq_id q)" using e(2) by (auto simp: field_Some)
  obtain bs1 c bs2 where sp: "bs = bs1 @ c # bs2" "e \<in> set c" "key_of h (hd c) = key_of h e" "\<forall>b \<in> set bs1. key_of h (hd b) < key_of h e \<and> e \<notin> set b"
    using bins_split [OF ok e(1)] by blast
  have kve: "key_of h e = ev_key ve" using ve(1) by (rule key_of_cell)
  show ?thesis
  proof (cases bs1)
    case Nil
    then have bs: "bs = c # bs2" using sp(1) by simp
    have hd: "eq_head q = Some (hd c)" using path bs bin_path_hd by blast
    obtain vd where vd: "cell h (hd c) = Inr vd" using path bs by (auto simp: field_Some)
    have "ev_eq vd ve" using sp(3) kve vd by (simp add: ev_key_cmp key_of_cell)
    obtain p' h' where r: "removeItem e (hd c) h = Inr (p', h')" "same_core h h'" "bin_path (?N h') (?M h') p' (bins_remove e bs) None"
      using removeItem_rep [OF _ sp(2)] rep bs by blast
    have "eq_remove e (q, h) = Inr (q\<lparr>eq_head := p'\<rparr>, h')" using hd ve vd \<open>ev_eq vd ve\<close> r(1) by (simp add: eq_remove_def)
    then show ?thesis using r ok' same_core_key [OF r(2)] by (auto simp: eq_rep_def)
  next
    case (Cons b us)
    have hd: "eq_head q = Some (hd b)" using path sp(1) Cons bin_path_hd by fastforce
    obtain vd where vd: "cell h (hd b) = Inr vd" using path sp(1) Cons by (auto simp: field_Some)
    have neq: "\<not> ev_eq vd ve" using sp(4) Cons kve vd by (auto simp: ev_key_cmp key_of_cell)
    have "bin_path (?N h) (?M h) (nextBin vd) (us @ c # bs2) None" using path sp(1) Cons vd by (auto simp: field_def)
    then obtain cs1 cs2 r where f: "us @ c # bs2 = cs1 @ cs2" "find_bin (length h) h ve (hd b) (nextBin vd) = Inr (hd (last ([hd b] # cs1)), r)"
      "bin_path (?N h) (?M h) (nextBin vd) cs1 r" "bin_path (?N h) (?M h) r cs2 None"
      "\<forall>b \<in> set cs1. key_of h (hd b) < ev_key ve" "cs2 \<noteq> [] \<longrightarrow> ev_key ve \<le> key_of h (hd (hd cs2))"
      using find_bin_spec [of h "nextBin vd" "us @ c # bs2" "length h" ve "hd b"] eq_rep_length [OF rep] sp(1) Cons by auto
    have u: "cs1 = us" "cs2 = c # bs2"
      using sorted_split_unique [of "key_of h" us c bs2 "ev_key ve" cs1 cs2] ok sp(1,3) Cons f kve by (auto simp: bins_ok_Cons)
    obtain ds d where ds: "b # us = ds @ [d]" by (metis append_butlast_last_id list.discI)
    have prev: "hd (last ([hd b] # cs1)) = hd d" using ds u(1) by (cases us rule: rev_cases) auto
    have okd: "bins_ok (key_of h) (ds @ d # c # bs2)" using ok sp(1) Cons ds by (metis append.assoc append_Cons append_Nil)
    have rc: "r = Some (hd c)" using f(4) u(2) bin_path_hd by blast
    obtain vc where vc: "cell h (hd c) = Inr vc" using f(4) u(2) by (auto simp: field_Some)
    have eqc: "ev_eq vc ve" using sp(3) kve vc by (simp add: ev_key_cmp key_of_cell)
    have repc: "eq_rep h r (c # bs2)" using f(4) u(2) ok sp(1) by (auto simp: eq_rep_def bins_ok_def sorted_wrt_append)
    obtain p' h' where rm: "removeItem e (hd c) h = Inr (p', h')" "same_core h h'"
      "bin_path (?N h') (?M h') p' (bins_remove e (c # bs2)) None" "\<forall>a. a \<notin> set c \<longrightarrow> cell h' a = cell h a"
      using removeItem_rep [OF repc sp(2)] by blast
    have dist: "distinct (concat (ds @ d # c # bs2))" "[] \<notin> set (ds @ d # c # bs2)" using okd by (auto simp: bins_ok_def)
    have dn: "hd d \<in> set d" using dist(2) by (metis hd_in_set in_set_conv_decomp)
    then have nd: "hd d \<notin> set (concat (c # bs2))" "\<forall>x \<in> set (ds @ [d]). set x \<inter> set c = {}" using dist(1) by auto
    have "hd d \<in> set (concat bs)" using dn sp(1) Cons ds by (metis Un_iff append_Cons concat.simps(2) concat_append set_append)
    then obtain v where v: "cell h (hd d) = Inr v" using bin_path_cells [OF path] by blast
    have v': "cell h' (hd d) = Inr v" using v rm(4) nd(1) by auto
    let ?h = "set_cell h' (hd d) (v\<lparr>nextBin := p'\<rparr>)"
    have N: "?N ?h = ?N h'" "?M ?h = (?M h')(hd d := Some p')" using v' by (auto simp: field_set [OF v'] fun_eq_iff field_def)
    have fld: "\<forall>x \<in> set (ds @ [d]). ?M h' (hd x) = ?M h (hd x) \<and> (\<forall>y \<in> set x. ?N h' y = ?N h y)"
    proof
      fix x assume x: "x \<in> set (ds @ [d])"
      then have "hd x \<in> set x" using dist(2) by (metis append_Cons append_assoc hd_in_set in_set_conv_decomp self_append_conv2 Un_iff set_append)
      moreover have "\<forall>y \<in> set x. cell h' y = cell h y" using x nd(2) rm(4) by (meson disjoint_iff)
      ultimately show "?M h' (hd x) = ?M h (hd x) \<and> (\<forall>y \<in> set x. ?N h' y = ?N h y)" by (simp add: field_def)
    qed
    have "bin_path (?N h) (?M h) (eq_head q) (b # us) r" using path sp(1) Cons f(3) u(1) vd by (auto simp: field_def)
    then have "bin_path (?N h) (?M h) (eq_head q) (ds @ [d]) r" unfolding ds .
    then have "bin_path (?N h') (?M h') (eq_head q) (ds @ [d]) r" using bin_path_cong [OF fld] by simp
    moreover have "\<forall>x \<in> set ds. hd x \<noteq> hd d" using bins_heads [OF okd] by blast
    moreover have "hd x \<noteq> hd d" if m: "x \<in> set (bins_remove e (c # bs2))" for x
    proof -
      obtain y where "x \<noteq> []" "y \<in> set (c # bs2)" "set x \<subseteq> set y" using bins_remove_sub [OF _ m, of "key_of h"] repc by (auto simp: eq_rep_def)
      then have "hd x \<in> set (concat (c # bs2))" using hd_in_set by fastforce
      then show ?thesis using nd(1) by metis
    qed
    ultimately have "bin_path (?N ?h) (?M ?h) (eq_head q) ((ds @ [d]) @ bins_remove e (c # bs2)) None"
      unfolding N using bin_path_splice [OF _ _ rm(3)] by blast
    moreover have "bins_remove e ((b # us) @ c # bs2) = (b # us) @ bins_remove e (c # bs2)"
      using sp(4) Cons by (intro bins_remove_append) auto
    then have "bins_remove e bs = (ds @ [d]) @ bins_remove e (c # bs2)" using sp(1) Cons ds by (metis append_Cons)
    ultimately have path2: "bin_path (?N ?h) (?M ?h) (eq_head q) (bins_remove e bs) None" by simp
    have sc: "same_core h ?h" by (rule same_core_trans [OF rm(2) same_core_set [OF v']]) (simp add: ev_core_def)
    have "eq_remove e (q, h) = Inr (q, ?h)"
      using hd ve vd neq f(2) prev rc vc eqc rm(1) v' by (simp add: eq_remove_def upd_cell_Inr)
    moreover have "eq_rep ?h (eq_head q) (bins_remove e bs)" using path2 ok' same_core_key [OF sc] by (simp add: eq_rep_def)
    ultimately show ?thesis using sc by (intro exI [of _ "eq_head q"] exI [of _ ?h]) simp
  qed
qed

section \<open>Reachable queues\<close>

lemma fl_mask_set: "m AND n = 0 \<Longrightarrow> fl_set f m AND n = f AND n"
  by (simp add: fl_set_def bit.conj_disj_distrib2)

lemma fl_mask_clear: "m AND n = 0 \<Longrightarrow> fl_clear f m AND n = f AND n"
proof -
  assume d: "m AND n = 0"
  show ?thesis
  proof (rule bit_word_eqI)
    fix i assume i: "i < LENGTH('a)"
    have "\<not> bit (m AND n) i" by (simp add: d)
    then show "bit (fl_clear f m AND n) i = bit (f AND n) i" using i by (auto simp: fl_clear_def bit_simps)
  qed
qed

lemma initialized_flags [simp]:
  "initialized (v\<lparr>ev_flags := fl_set f Scheduled\<rparr>) = initialized (v\<lparr>ev_flags := f\<rparr>)"
  "initialized (v\<lparr>ev_flags := fl_clear f Scheduled\<rparr>) = initialized (v\<lparr>ev_flags := f\<rparr>)"
  "initialized (v\<lparr>ev_flags := fl_clear f Squashed\<rparr>) = initialized (v\<lparr>ev_flags := f\<rparr>)"
  "initialized (v\<lparr>ev_flags := fl_set f Squashed\<rparr>) = initialized (v\<lparr>ev_flags := f\<rparr>)"
proof -
  have "Scheduled AND InitMask = 0" "Squashed AND InitMask = 0" by (simp_all add: ev_flag_defs)
  then show "initialized (v\<lparr>ev_flags := fl_set f Scheduled\<rparr>) = initialized (v\<lparr>ev_flags := f\<rparr>)"
    "initialized (v\<lparr>ev_flags := fl_clear f Scheduled\<rparr>) = initialized (v\<lparr>ev_flags := f\<rparr>)"
    "initialized (v\<lparr>ev_flags := fl_clear f Squashed\<rparr>) = initialized (v\<lparr>ev_flags := f\<rparr>)"
    "initialized (v\<lparr>ev_flags := fl_set f Squashed\<rparr>) = initialized (v\<lparr>ev_flags := f\<rparr>)"
    by (simp_all add: initialized_def fl_mask_set fl_mask_clear)
qed

lemma scheduled_flags [simp]:
  "scheduled (v\<lparr>ev_flags := fl_set f Scheduled\<rparr>)" "\<not> scheduled (v\<lparr>ev_flags := fl_clear f Scheduled\<rparr>)"
  "scheduled (v\<lparr>ev_flags := fl_clear f Squashed\<rparr>) = scheduled (v\<lparr>ev_flags := f\<rparr>)"
  "scheduled (v\<lparr>ev_flags := fl_set f Squashed\<rparr>) = scheduled (v\<lparr>ev_flags := f\<rparr>)"
  by (simp_all add: scheduled_def fl_isSet_set fl_isSet_clear_self fl_isSet_clear_other ev_flag_defs)

lemma flag_update_id [simp]:
  "initialized (v\<lparr>ev_flags := ev_flags v\<rparr>) = initialized v" "scheduled (v\<lparr>ev_flags := ev_flags v\<rparr>) = scheduled v"
  by simp_all

lemma bins_ok_cong:
  assumes "\<forall>e \<in> set (concat bs). k' e = k e" "bins_ok k bs"
  shows "bins_ok k' bs"
proof -
  have hd: "b \<in> set bs \<Longrightarrow> k' (hd b) = k (hd b)" for b
    using assms(1) hd_in_concat [of bs b] assms(2) unfolding bins_ok_def by blast
  then have "map (\<lambda>b. k' (hd b)) bs = map (\<lambda>b. k (hd b)) bs" by simp
  moreover have "same_key k' b" if "b \<in> set bs" for b
  proof -
    have "same_key k b" using assms(2) that by (simp add: bins_ok_def)
    then show ?thesis using hd [OF that] that assms(1) unfolding same_key_def by auto
  qed
  ultimately show ?thesis using assms(2) unfolding bins_ok_def by (simp only:) blast
qed

lemma eq_rep_cong:
  assumes "\<forall>a \<in> set (concat bs). field nextInBin h' a = field nextInBin h a \<and> field nextBin h' a = field nextBin h a \<and> field ev_key h' a = field ev_key h a"
    and "eq_rep h p bs"
  shows "eq_rep h' p bs"
proof -
  have ne: "[] \<notin> set bs" using assms(2) by (simp add: eq_rep_def bins_ok_def)
  have "field nextBin h' (hd b) = field nextBin h (hd b) \<and> (\<forall>e \<in> set b. field nextInBin h' e = field nextInBin h e)" if "b \<in> set bs" for b
    using assms(1) hd_in_concat [OF ne that] that unfolding set_concat by blast
  then have "bin_path (field nextInBin h') (field nextBin h') p bs None"
    using assms(2) bin_path_cong [of bs "field nextBin h'" "field nextBin h" "field nextInBin h'" "field nextInBin h" p None]
    by (simp add: eq_rep_def)
  moreover have "\<forall>e \<in> set (concat bs). key_of h' e = key_of h e" unfolding key_of_def using assms(1) by metis
  then have "bins_ok (key_of h') bs" using assms(2) bins_ok_cong unfolding eq_rep_def by blast
  ultimately show ?thesis by (simp add: eq_rep_def)
qed

definition eq_inv :: "eq_state \<Rightarrow> nat list list \<Rightarrow> bool" where
  "eq_inv x bs \<longleftrightarrow> eq_rep (snd x) (eq_head (fst x)) bs \<and>
     (\<forall>e v. cell (snd x) e = Inr v \<longrightarrow> initialized v \<and> (scheduled v \<longleftrightarrow> e \<in> set (concat bs)) \<and>
        (e \<in> set (concat bs) \<longrightarrow> ev_queue v = Some (eq_id (fst x)) \<and> eq_curTick (fst x) \<le> ev_when v))"

text \<open>The order in which the traversals of the queue meet its events, as in \<open>dump\<close> and \<open>serialize\<close>.\<close>

fun walk_bin :: "nat \<Rightarrow> event cells \<Rightarrow> nat option \<Rightarrow> nat list res" where
  "walk_bin n h None = Inr []"
| "walk_bin 0 h (Some e) = Inl Diverges"
| "walk_bin (Suc n) h (Some e) = bindR (cell h e) (\<lambda>v. bindR (walk_bin n h (nextInBin v)) (\<lambda>es. Inr (e # es)))"

fun walk_bins :: "nat \<Rightarrow> event cells \<Rightarrow> nat option \<Rightarrow> nat list res" where
  "walk_bins n h None = Inr []"
| "walk_bins 0 h (Some e) = Inl Diverges"
| "walk_bins (Suc n) h (Some e) =
     bindR (walk_bin (length h) h (Some e)) (\<lambda>es. bindR (cell h e) (\<lambda>v. bindR (walk_bins n h (nextBin v)) (\<lambda>r. Inr (es @ r))))"

definition eq_dump :: "eq_state \<Rightarrow> nat list res" where
  "eq_dump x = walk_bins (length (snd x)) (snd x) (eq_head (fst x))"

lemma walk_bin_chain: "in_chain (field nextInBin h) p es \<Longrightarrow> length es \<le> n \<Longrightarrow> walk_bin n h p = Inr es"
proof (induction es arbitrary: p n)
  case (Cons e es)
  then show ?case by (cases n) (auto simp: field_Some)
qed simp

lemma walk_bins_path:
  "bin_path (field nextInBin h) (field nextBin h) p bs None \<Longrightarrow> \<forall>b \<in> set bs. length b \<le> length h \<Longrightarrow> length bs \<le> n \<Longrightarrow> walk_bins n h p = Inr (concat bs)"
proof (induction bs arbitrary: p n)
  case (Cons b bs)
  obtain m where n: "n = Suc m" using Cons.prems(3) by (cases n) auto
  have p: "p = Some (hd b)" "in_chain (field nextInBin h) (Some (hd b)) b" using Cons.prems(1) in_chain_hd by auto
  obtain v where v: "cell h (hd b) = Inr v" "bin_path (field nextInBin h) (field nextBin h) (nextBin v) bs None"
    using Cons.prems(1) by (auto simp: field_Some)
  show ?case using Cons.IH [OF v(2)] Cons.prems(2,3) n p v(1) walk_bin_chain [OF p(2), of "length h"] by simp
qed simp

lemma eq_dump_rep:
  assumes "eq_rep h (eq_head q) bs"
  shows "eq_dump (q, h) = Inr (concat bs)"
proof -
  have path: "bin_path (field nextInBin h) (field nextBin h) (eq_head q) bs None" and d: "distinct (concat bs)" using assms by (auto simp: eq_rep_def bins_ok_def)
  have "length b \<le> length h" if "b \<in> set bs" for b
    using bin_path_cells [OF path] d that by (intro distinct_cells) (auto simp: distinct_concat_iff)
  then show ?thesis using walk_bins_path [OF path] eq_rep_length [OF assms] by (simp add: eq_dump_def)
qed

lemma concat_bins_insert:
  "bins_ok k bs \<Longrightarrow> concat (bins_insert k e bs) = takeWhile (\<lambda>f. k f < k e) (concat bs) @ e # dropWhile (\<lambda>f. k f < k e) (concat bs)"
proof (induction bs)
  case (Cons b bs)
  have all: "\<forall>f \<in> set b. k f = k (hd b)" using Cons.prems same_keyD by (metis bins_ok_Cons)
  show ?case
  proof (cases "k (hd b) < k e")
    case True
    then have "\<forall>f \<in> set b. k f < k e" using all by metis
    then show ?thesis using Cons True less_not_sym [OF True] by (simp add: bins_ok_Cons less_imp_neq [symmetric])
  next
    case False
    obtain x xs where b: "b = x # xs" using Cons.prems by (cases b) (auto simp: bins_ok_Cons)
    then show ?thesis using False by auto
  qed
qed simp

lemma concat_bins_remove: "bins_ok k bs \<Longrightarrow> concat (bins_remove e bs) = remove1 e (concat bs)"
  by (induction bs) (auto simp: bins_ok_Cons remove1_append)

lemma same_core_fields:
  assumes "same_core h h'" "cell h' a = Inr v'"
  obtains v where "cell h a = Inr v" "ev_flags v' = ev_flags v" "ev_when v' = ev_when v" "ev_queue v' = ev_queue v" "ev_priority v' = ev_priority v"
    "initialized v' = initialized v" "scheduled v' = scheduled v"
proof -
  have "field ev_core h' a = Some (ev_core v')" using assms(2) by (simp add: field_def)
  then have "field ev_core h a = Some (ev_core v')" using assms(1) by (simp add: same_core_def)
  then obtain v where v: "cell h a = Inr v" "ev_core v' = ev_core v" by (auto simp: field_Some)
  then have "ev_flags v' = ev_flags v" "ev_when v' = ev_when v" "ev_queue v' = ev_queue v" "ev_priority v' = ev_priority v"
    unfolding ev_core_def by (metis event.select_convs event.surjective event.update_convs)+
  then show ?thesis using that v(1) by (simp add: initialized_def scheduled_def)
qed

lemma eq_rep_flags: "cell h e = Inr v \<Longrightarrow> eq_rep h p bs \<Longrightarrow> eq_rep (set_cell h e (v\<lparr>ev_flags := f\<rparr>)) p bs"
  by (rule eq_rep_cong) (auto simp: field_def cell_set ev_key_def)

text \<open>Changing the key of an event that is not in the queue.\<close>

lemma eq_rep_outside:
  assumes "eq_rep h p bs" "cell h e = Inr v" "e \<notin> set (concat bs)"
  shows "eq_rep (set_cell h e w) p bs" "key_of (set_cell h e w) = (key_of h)(e := ev_key w)"
proof -
  show "eq_rep (set_cell h e w) p bs"
  proof (rule eq_rep_cong [OF _ assms(1)], intro ballI conjI)
    fix a assume "a \<in> set (concat bs)"
    then have "a \<noteq> e" using assms(3) by blast
    then show "field nextInBin (set_cell h e w) a = field nextInBin h a" "field nextBin (set_cell h e w) a = field nextBin h a"
      "field ev_key (set_cell h e w) a = field ev_key h a" by (simp_all add: field_def)
  qed
  show "key_of (set_cell h e w) = (key_of h)(e := ev_key w)"
    using assms(2) by (simp add: key_of_def field_def cell_set fun_eq_iff)
qed

text \<open>What holds of the events other than \<open>e\<close>.\<close>

definition others_ok :: "event_queue \<Rightarrow> nat list list \<Rightarrow> nat \<Rightarrow> event cells \<Rightarrow> bool" where
  "others_ok q bs e h \<longleftrightarrow> (\<forall>a v. a \<noteq> e \<longrightarrow> cell h a = Inr v \<longrightarrow> initialized v \<and> (scheduled v \<longleftrightarrow> a \<in> set (concat bs)) \<and>
        (a \<in> set (concat bs) \<longrightarrow> ev_queue v = Some (eq_id q) \<and> eq_curTick q \<le> ev_when v))"

lemma insert_inv:
  assumes inv: "eq_rep h (eq_head q) bs" "others_ok q bs e h"
    and e: "cell h e = Inr v" "e \<notin> set (concat bs)" "initialized v" "when \<ge> eq_curTick q"
  shows "\<exists>p' h' w. bindR (eq_insert e (q, set_cell h e (setWhen when (eq_id q) v))) (\<lambda>(q2, h2).
      bindR (upd_cell h2 e (\<lambda>v. v\<lparr>ev_flags := g (ev_flags v)\<rparr>)) (\<lambda>h3. Inr (q2, h3))) = Inr (q\<lparr>eq_head := p'\<rparr>, h') \<and>
    eq_rep h' p' (bins_insert ((key_of h)(e := (when, sint (ev_priority v)))) e bs) \<and>
    cell h' e = Inr w \<and> ev_flags w = g (ev_flags v) \<and> ev_queue w = Some (eq_id q) \<and> ev_when w = when \<and> ev_priority w = ev_priority v \<and>
    others_ok q bs e h'"
proof -
  let ?v = "setWhen when (eq_id q) v"
  let ?h1 = "set_cell h e ?v"
  have k: "ev_key ?v = (when, sint (ev_priority v))" by (simp add: setWhen_def ev_key_def)
  have c1: "cell ?h1 e = Inr ?v" using e(1) by (simp add: cell_set)
  note o = eq_rep_outside [OF inv(1) e(1,2), of ?v]
  obtain p' h2 where i: "eq_insert e (q, ?h1) = Inr (q\<lparr>eq_head := p'\<rparr>, h2)" "same_core ?h1 h2"
    "eq_rep h2 p' (bins_insert ((key_of h)(e := (when, sint (ev_priority v)))) e bs)"
    using eq_insert_rep [OF o(1) c1 e(2)] o(2) k by auto
  obtain w2 where w2: "cell h2 e = Inr w2" "ev_core w2 = ev_core ?v" using same_core_cell [OF i(2) c1] by blast
  obtain u where u: "cell ?h1 e = Inr u" "ev_flags w2 = ev_flags u" "ev_when w2 = ev_when u" "ev_queue w2 = ev_queue u" "ev_priority w2 = ev_priority u"
    using same_core_fields [OF i(2) w2(1)] by blast
  let ?w = "w2\<lparr>ev_flags := g (ev_flags w2)\<rparr>"
  have w: "ev_flags ?w = g (ev_flags v)" "ev_queue ?w = Some (eq_id q)" "ev_when ?w = when" "ev_priority ?w = ev_priority v"
    using u c1 by (simp_all add: setWhen_def)
  have rep: "eq_rep (set_cell h2 e ?w) p' (bins_insert ((key_of h)(e := (when, sint (ev_priority v)))) e bs)"
    by (rule eq_rep_flags [OF w2(1) i(3)])
  have others: "others_ok q bs e (set_cell h2 e ?w)"
    unfolding others_ok_def
  proof (intro allI impI)
    fix a x assume a: "a \<noteq> e" "cell (set_cell h2 e ?w) a = Inr x"
    then have "cell h2 a = Inr x" by simp
    then obtain y where y: "cell ?h1 a = Inr y" "ev_when x = ev_when y" "ev_queue x = ev_queue y" "initialized x = initialized y" "scheduled x = scheduled y"
      using same_core_fields [OF i(2)] by metis
    then have "cell h a = Inr y" using a(1) by simp
    then show "initialized x \<and> (scheduled x \<longleftrightarrow> a \<in> set (concat bs)) \<and>
        (a \<in> set (concat bs) \<longrightarrow> ev_queue x = Some (eq_id q) \<and> eq_curTick q \<le> ev_when x)" using inv(2) a(1) y by (simp add: others_ok_def)
  qed
  show ?thesis
    by (rule exI [of _ p'], rule exI [of _ "set_cell h2 e ?w"], rule exI [of _ ?w])
      (use i(1) w2(1) w rep others in \<open>simp add: upd_cell_Inr cell_set\<close>)
qed

lemma eq_invD:
  assumes "eq_inv (q, h) bs" "cell h a = Inr v"
  shows "initialized v" "scheduled v \<longleftrightarrow> a \<in> set (concat bs)" "a \<in> set (concat bs) \<Longrightarrow> ev_queue v = Some (eq_id q)"
    "a \<in> set (concat bs) \<Longrightarrow> eq_curTick q \<le> ev_when v"
  using assms unfolding eq_inv_def by auto

lemma eq_inv_bins: "eq_inv (q, h) bs \<Longrightarrow> bins_ok (key_of h) bs"
  by (simp add: eq_inv_def eq_rep_def)

lemma eq_inv_cells: "eq_inv (q, h) bs \<Longrightarrow> a \<in> set (concat bs) \<Longrightarrow> \<exists>v. cell h a = Inr v"
  using bin_path_cells unfolding eq_inv_def eq_rep_def fst_conv snd_conv by metis

definition new_key :: "event cells \<Rightarrow> nat \<Rightarrow> Tick \<Rightarrow> nat \<Rightarrow> Tick \<times> int" where
  "new_key h e when = (key_of h)(e := (when, snd (key_of h e)))"

lemma new_key_cell: "cell h e = Inr v \<Longrightarrow> new_key h e when = (key_of h)(e := (when, sint (ev_priority v)))"
  by (simp add: new_key_def key_of_cell ev_key_def)

lemma inserted_inv:
  assumes "eq_rep h' p' (bins_insert k e bs)" "cell h' e = Inr w" "scheduled w" "initialized w" "ev_queue w = Some (eq_id q)"
    "eq_curTick q \<le> ev_when w" "others_ok q bs e h'"
  shows "eq_inv (q\<lparr>eq_head := p'\<rparr>, h') (bins_insert k e bs)"
  unfolding eq_inv_def fst_conv snd_conv set_bins_insert
proof (intro conjI allI impI)
  fix a u assume u: "cell h' a = Inr u"
  show "initialized u" "scheduled u = (a \<in> insert e (set (concat bs)))" using assms(2-7) u unfolding others_ok_def by (cases "a = e"; auto)+
  assume "a \<in> insert e (set (concat bs))"
  then show "ev_queue u = Some (eq_id (q\<lparr>eq_head := p'\<rparr>))" "eq_curTick (q\<lparr>eq_head := p'\<rparr>) \<le> ev_when u"
    using assms(2-7) u unfolding others_ok_def by (cases "a = e"; auto)+
qed (use assms(1) in simp)

lemma schedule_inv:
  assumes inv: "eq_inv (q, h) bs" and e: "cell h e = Inr v" "\<not> scheduled v" "when \<ge> eq_curTick q"
  shows "\<exists>p' h'. eq_schedule False cur g e when (q, h) = Inr (q\<lparr>eq_head := p'\<rparr>, h') \<and>
    eq_inv (q\<lparr>eq_head := p'\<rparr>, h') (bins_insert (new_key h e when) e bs)"
proof -
  have n: "e \<notin> set (concat bs)" "initialized v" using eq_invD [OF inv e(1)] e(2) by blast+
  have rep: "eq_rep h (eq_head q) bs" using inv by (simp add: eq_inv_def)
  have others: "others_ok q bs e h" using eq_invD [OF inv] unfolding others_ok_def by blast
  obtain p' h' w where r: "bindR (eq_insert e (q, set_cell h e (setWhen when (eq_id q) v))) (\<lambda>(q2, h2).
      bindR (upd_cell h2 e (\<lambda>v. v\<lparr>ev_flags := fl_set (ev_flags v) Scheduled\<rparr>)) (\<lambda>h3. Inr (q2, h3))) = Inr (q\<lparr>eq_head := p'\<rparr>, h')"
    "eq_rep h' p' (bins_insert ((key_of h)(e := (when, sint (ev_priority v)))) e bs)"
    "cell h' e = Inr w" "ev_flags w = fl_set (ev_flags v) Scheduled" "ev_queue w = Some (eq_id q)" "ev_when w = when"
    "others_ok q bs e h'"
    using insert_inv [OF rep others e(1) n e(3), of "\<lambda>f. fl_set f Scheduled"] by (elim exE conjE) (rule that)
  have "eq_schedule False cur g e when (q, h) = Inr (q\<lparr>eq_head := p'\<rparr>, h')"
    using e n(2) r(1) by (simp add: eq_schedule_def Let_def)
  moreover have w: "scheduled w" "initialized w"
    using r(4) n(2) fl_mask_set [of Scheduled InitMask "ev_flags v"]
    by (auto simp: scheduled_def initialized_def fl_isSet_set ev_flag_defs)
  have "eq_inv (q\<lparr>eq_head := p'\<rparr>, h') (bins_insert (new_key h e when) e bs)"
    using inserted_inv [OF r(2,3) w r(5) _ r(7)] r(6) e(3) new_key_cell [OF e(1)] by simp
  ultimately show ?thesis by blast
qed

lemma remove_inv:
  assumes inv: "eq_inv (q, h) bs" and e: "e \<in> set (concat bs)"
  shows "\<exists>p' h'. eq_remove e (q, h) = Inr (q\<lparr>eq_head := p'\<rparr>, h') \<and> same_core h h' \<and> eq_rep h' p' (bins_remove e bs) \<and>
    e \<notin> set (concat (bins_remove e bs)) \<and> set (concat (bins_remove e bs)) = set (concat bs) - {e}"
proof -
  obtain v where v: "cell h e = Inr v" using eq_inv_cells [OF inv e] by blast
  have "field ev_queue h e = Some (Some (eq_id q))" using v eq_invD(3) [OF inv v e] by (simp add: field_def)
  moreover have "eq_rep h (eq_head q) bs" using inv by (simp add: eq_inv_def)
  ultimately show ?thesis using eq_remove_rep [OF _ e] set_bins_remove [OF eq_inv_bins [OF inv], of e] by blast
qed

text \<open>What an operation has to show of the cells other than \<open>e\<close>.\<close>

lemma eq_inv_rest:
  assumes inv: "eq_inv (q, h) bs" and same: "same_core h h'" and rep: "eq_rep h'' p (bins_remove e bs)"
    and others: "\<forall>a. a \<noteq> e \<longrightarrow> cell h'' a = cell h' a" and e: "\<forall>w. cell h'' e = Inr w \<longrightarrow> initialized w \<and> \<not> scheduled w"
    and tick: "\<forall>a v. a \<in> set (concat (bins_remove e bs)) \<longrightarrow> cell h a = Inr v \<longrightarrow> t \<le> ev_when v"
  shows "eq_inv (q\<lparr>eq_head := p, eq_curTick := t\<rparr>, h'') (bins_remove e bs)"
  unfolding eq_inv_def fst_conv snd_conv
proof (intro conjI allI impI)
  have s: "set (concat (bins_remove e bs)) = set (concat bs) - {e}" by (rule set_bins_remove [OF eq_inv_bins [OF inv]])
  fix a u assume u: "cell h'' a = Inr u"
  have o: "initialized u \<and> (scheduled u = (a \<in> set (concat bs))) \<and> (a \<in> set (concat bs) \<longrightarrow> ev_queue u = Some (eq_id q)) \<and>
      (\<exists>v. cell h a = Inr v \<and> ev_when u = ev_when v)" if "a \<noteq> e"
  proof -
    have "cell h' a = Inr u" using others that u by simp
    then obtain v where "cell h a = Inr v" "ev_when u = ev_when v" "ev_queue u = ev_queue v" "initialized u = initialized v" "scheduled u = scheduled v"
      using same_core_fields [OF same] by metis
    then show ?thesis using eq_invD [OF inv] by auto
  qed
  show "initialized u" using o e u by (cases "a = e") auto
  show "scheduled u = (a \<in> set (concat (bins_remove e bs)))" unfolding s using o e u by (cases "a = e") auto
  assume a: "a \<in> set (concat (bins_remove e bs))"
  then have "a \<noteq> e" "a \<in> set (concat bs)" unfolding s by auto
  then show "ev_queue u = Some (eq_id (q\<lparr>eq_head := p, eq_curTick := t\<rparr>))" "eq_curTick (q\<lparr>eq_head := p, eq_curTick := t\<rparr>) \<le> ev_when u"
    using o tick a by auto
qed (use rep in simp)

lemma eq_rep_free: "eq_rep h p bs \<Longrightarrow> e \<notin> set (concat bs) \<Longrightarrow> eq_rep (free_cell h e) p bs"
proof (rule eq_rep_cong)
  assume n: "e \<notin> set (concat bs)"
  show "\<forall>a \<in> set (concat bs). field nextInBin (free_cell h e) a = field nextInBin h a \<and>
      field nextBin (free_cell h e) a = field nextBin h a \<and> field ev_key (free_cell h e) a = field ev_key h a"
  proof
    fix a assume "a \<in> set (concat bs)"
    then have "a \<noteq> e" using n by blast
    then show "field nextInBin (free_cell h e) a = field nextInBin h a \<and>
      field nextBin (free_cell h e) a = field nextBin h a \<and> field ev_key (free_cell h e) a = field ev_key h a"
      by (simp add: field_def cell_free)
  qed
qed

lemma deschedule_inv:
  assumes inv: "eq_inv (q, h) bs" and e: "e \<in> set (concat bs)"
  shows "\<exists>p' h'. eq_deschedule False cur e (q, h) = Inr (q\<lparr>eq_head := p'\<rparr>, h') \<and> eq_inv (q\<lparr>eq_head := p'\<rparr>, h') (bins_remove e bs)"
proof -
  obtain v where v: "cell h e = Inr v" using eq_inv_cells [OF inv e] by blast
  have f: "scheduled v" "initialized v" using eq_invD [OF inv v] e by blast+
  obtain p' h1 where r: "eq_remove e (q, h) = Inr (q\<lparr>eq_head := p'\<rparr>, h1)" "same_core h h1" "eq_rep h1 p' (bins_remove e bs)"
    "e \<notin> set (concat (bins_remove e bs))" "set (concat (bins_remove e bs)) = set (concat bs) - {e}"
    using remove_inv [OF inv e] by blast
  obtain v1 where v1: "cell h1 e = Inr v1" "ev_core v1 = ev_core v" using same_core_cell [OF r(2) v] by blast
  obtain v0 where "cell h e = Inr v0" "initialized v1 = initialized v0" using same_core_fields [OF r(2) v1(1)] by metis
  then have i1: "initialized v1" using f(2) v by simp
  let ?w = "v1\<lparr>ev_flags := fl_clear (fl_clear (ev_flags v1) Squashed) Scheduled\<rparr>"
  let ?h2 = "set_cell h1 e ?w"
  have w: "initialized ?w" "\<not> scheduled ?w" using i1 by simp_all
  have c2: "cell ?h2 e = Inr ?w" using v1(1) by (simp add: cell_set)
  have t: "\<forall>a v. a \<in> set (concat (bins_remove e bs)) \<longrightarrow> cell h a = Inr v \<longrightarrow> eq_curTick q \<le> ev_when v"
    using eq_invD(4) [OF inv] r(5) by blast
  let ?h3 = "if fl_isSet (ev_flags ?w) AutoDelete then free_cell ?h2 e else ?h2"
  have "eq_deschedule False cur e (q, h) = Inr (q\<lparr>eq_head := p'\<rparr>, ?h3)"
    using v f r(1) v1(1) c2 w(2) by (simp add: eq_deschedule_def upd_cell_Inr delete_event_def)
  moreover have "eq_inv (q\<lparr>eq_head := p', eq_curTick := eq_curTick q\<rparr>, ?h3) (bins_remove e bs)"
  proof (rule eq_inv_rest [OF inv r(2) _ _ _ t])
    show "eq_rep ?h3 p' (bins_remove e bs)" using eq_rep_flags [OF v1(1) r(3)] eq_rep_free r(4) by simp
    show "\<forall>a. a \<noteq> e \<longrightarrow> cell ?h3 a = cell h1 a" by (simp add: cell_free)
    show "\<forall>u. cell ?h3 e = Inr u \<longrightarrow> initialized u \<and> \<not> scheduled u" using c2 w by (simp add: cell_free)
  qed
  ultimately show ?thesis by (intro exI [of _ p'] exI [of _ ?h3]) simp
qed

lemma eq_inv_head: "eq_inv (q, h) ((e # b) # bs) \<Longrightarrow> eq_head q = Some e"
  by (auto simp: eq_inv_def eq_rep_def)

text \<open>The first event has the least key.\<close>

lemma bins_first: "bins_ok k ((e # b) # bs) \<Longrightarrow> a \<in> set (concat ((e # b) # bs)) \<Longrightarrow> k e \<le> k a"
proof -
  assume ok: "bins_ok k ((e # b) # bs)" and a: "a \<in> set (concat ((e # b) # bs))"
  then consider "a \<in> set (e # b)" | c where "c \<in> set bs" "a \<in> set c" by auto
  then show "k e \<le> k a"
  proof cases
    case 1
    then have "k a = k (hd (e # b))" using ok same_keyD [of k "e # b" a] unfolding bins_ok_Cons by blast
    then show ?thesis by simp
  next
    case 2
    then have "k a = k (hd c)" "k e < k (hd c)" using ok same_keyD [of k c a] unfolding bins_ok_Cons bins_ok_def by auto
    then show ?thesis by simp
  qed
qed

lemma pop_inv:
  assumes inv: "eq_inv (q, h) ((e # b) # bs)"
  shows "\<exists>p' h' w v. eq_pop (q, h) = Inr (e, q\<lparr>eq_head := p'\<rparr>, h') \<and> cell h e = Inr v \<and> cell h' e = Inr w \<and> ev_when w = ev_when v \<and>
    ev_flags w = fl_clear (ev_flags v) Scheduled \<and> initialized w \<and>
    (\<forall>t. t = eq_curTick q \<or> t = ev_when v \<longrightarrow> eq_inv (q\<lparr>eq_head := p', eq_curTick := t\<rparr>, h') (bins_remove e ((e # b) # bs)))"
proof -
  let ?bs = "(e # b) # bs"
  have e: "e \<in> set (concat ?bs)" by simp
  have ok: "bins_ok (key_of h) ?bs" by (rule eq_inv_bins [OF inv])
  obtain v where v: "cell h e = Inr v" using eq_inv_cells [OF inv e] by blast
  have iv: "initialized v" using eq_invD [OF inv v] by blast
  let ?w = "v\<lparr>ev_flags := fl_clear (ev_flags v) Scheduled\<rparr>"
  let ?h1 = "set_cell h e ?w"
  have c1: "cell ?h1 e = Inr ?w" using v by (simp add: cell_set)
  have rep: "eq_rep ?h1 (eq_head q) ?bs" using inv by (intro eq_rep_flags [OF v]) (simp add: eq_inv_def)
  have nb: "e \<notin> set b" using ok by (simp add: bins_ok_Cons)
  have br: "bins_remove e ?bs = (if b = [] then bs else b # bs)" using nb by simp
  obtain p' h2 where r: "removeItem e e ?h1 = Inr (p', h2)" "same_core ?h1 h2"
    "bin_path (field nextInBin h2) (field nextBin h2) p' (if b = [] then bs else b # bs) None" "\<forall>a. a \<notin> set b \<longrightarrow> cell h2 a = cell ?h1 a"
    using removeItem_top [of ?h1 "eq_head q" e b bs "key_of ?h1"] rep by (auto simp: eq_rep_def)
  have pop: "eq_pop (q, h) = Inr (e, q\<lparr>eq_head := p'\<rparr>, h2)"
    using r(1) v c1 eq_inv_head [OF inv] by (auto simp: eq_pop_def removeItem_def Let_def split: option.splits)
  have c2: "cell h2 e = Inr ?w" using r(4) nb c1 by simp
  have rep2: "eq_rep h2 p' (bins_remove e ?bs)"
    using r(3) br bins_remove_ok [of "key_of h2" ?bs e] rep same_core_key [OF r(2)] by (simp only: eq_rep_def)
  have set: "set (concat (bins_remove e ?bs)) = set (concat ?bs) - {e}" by (rule set_bins_remove [OF ok])
  have le: "ev_when v \<le> ev_when u" if "a \<in> set (concat ?bs)" "cell h a = Inr u" for a u
    using bins_first [OF ok that(1)] v that(2) by (auto simp: key_of_cell ev_key_def less_eq_prod_def)
  have "eq_inv (q\<lparr>eq_head := p', eq_curTick := t\<rparr>, h2) (bins_remove e ?bs)" if t: "t = eq_curTick q \<or> t = ev_when v" for t
  proof (rule eq_inv_rest [OF inv _ rep2])
    show "same_core h (set_cell h2 e v)"
      using r(2) v by (auto simp: same_core_def field_set [OF c2] field_set [OF v]) (simp add: field_def)
    show "\<forall>a u. a \<in> set (concat (bins_remove e ?bs)) \<longrightarrow> cell h a = Inr u \<longrightarrow> t \<le> ev_when u"
      using t le eq_invD(4) [OF inv] set by blast
    show "\<forall>w. cell h2 e = Inr w \<longrightarrow> initialized w \<and> \<not> scheduled w" using c2 iv by simp
  qed simp
  then show ?thesis using pop v c2 iv by (intro exI [of _ p'] exI [of _ h2] exI [of _ ?w] exI [of _ v]) simp
qed

lemma reschedule_inv:
  assumes inv: "eq_inv (q, h) bs" and e: "cell h e = Inr v" "always \<or> scheduled v" "when \<ge> eq_curTick q"
  shows "\<exists>p' h' cs. eq_reschedule False cur e when always (q, h) = Inr (q\<lparr>eq_head := p'\<rparr>, h') \<and> eq_inv (q\<lparr>eq_head := p'\<rparr>, h') cs \<and>
    concat cs = (let es = remove1 e (concat bs); k = new_key h e when in takeWhile (\<lambda>f. k f < k e) es @ e # dropWhile (\<lambda>f. k f < k e) es)"
proof -
  have iv: "initialized v" using eq_invD [OF inv e(1)] by blast
  have ok: "bins_ok (key_of h) bs" by (rule eq_inv_bins [OF inv])
  have "\<exists>p1 h1. (if scheduled v then eq_remove e (q, h) else Inr (q, h)) = Inr (q\<lparr>eq_head := p1\<rparr>, h1) \<and> same_core h h1 \<and> eq_rep h1 p1 (bins_remove e bs)"
  proof (cases "scheduled v")
    case True
    then have "e \<in> set (concat bs)" using eq_invD(2) [OF inv e(1)] by blast
    from remove_inv [OF inv this] True show ?thesis by (simp only: if_True) blast
  next
    case False
    then have "e \<notin> set (concat bs)" using eq_invD(2) [OF inv e(1)] by blast
    then have "bins_remove e bs = bs" by (induction bs) auto
    then show ?thesis using False inv by (intro exI [of _ "eq_head q"] exI [of _ h]) (simp add: eq_inv_def)
  qed
  then obtain p1 h1 where r: "(if scheduled v then eq_remove e (q, h) else Inr (q, h)) = Inr (q\<lparr>eq_head := p1\<rparr>, h1)" "same_core h h1" "eq_rep h1 p1 (bins_remove e bs)"
    by blast
  obtain v1 where v1: "cell h1 e = Inr v1" using same_core_cell [OF r(2) e(1)] by blast
  obtain v0 where v0: "cell h e = Inr v0" "initialized v1 = initialized v0" "ev_priority v1 = ev_priority v0" using same_core_fields [OF r(2) v1] by metis
  have set: "set (concat (bins_remove e bs)) = set (concat bs) - {e}" by (rule set_bins_remove [OF ok])
  let ?q = "q\<lparr>eq_head := p1\<rparr>" and ?cs = "bins_remove e bs" and ?k = "new_key h e when"
  have o: "others_ok ?q ?cs e h1" unfolding others_ok_def
  proof (intro allI impI)
    fix a u assume a: "a \<noteq> e" "cell h1 a = Inr u"
    then obtain y where y: "cell h a = Inr y" "ev_when u = ev_when y" "ev_queue u = ev_queue y" "initialized u = initialized y" "scheduled u = scheduled y"
      using same_core_fields [OF r(2)] by metis
    then show "initialized u \<and> (scheduled u = (a \<in> set (concat ?cs))) \<and> (a \<in> set (concat ?cs) \<longrightarrow> ev_queue u = Some (eq_id ?q) \<and> eq_curTick ?q \<le> ev_when u)"
      using eq_invD [OF inv y(1)] a(1) unfolding set by auto
  qed
  have n: "e \<notin> set (concat ?cs)" "initialized v1" "eq_curTick ?q \<le> when" "eq_rep h1 (eq_head ?q) ?cs" using set v0 e iv r(3) by auto
  obtain p' h' w where i: "bindR (eq_insert e (?q, set_cell h1 e (setWhen when (eq_id ?q) v1))) (\<lambda>(q2, h2).
      bindR (upd_cell h2 e (\<lambda>v. v\<lparr>ev_flags := fl_set (fl_clear (ev_flags v) Squashed) Scheduled\<rparr>)) (\<lambda>h3. Inr (q2, h3))) = Inr (?q\<lparr>eq_head := p'\<rparr>, h')"
    "eq_rep h' p' (bins_insert ((key_of h1)(e := (when, sint (ev_priority v1)))) e ?cs)"
    "cell h' e = Inr w" "ev_flags w = fl_set (fl_clear (ev_flags v1) Squashed) Scheduled" "ev_queue w = Some (eq_id ?q)" "ev_when w = when" "others_ok ?q ?cs e h'"
    using insert_inv [OF n(4) o v1 n(1,2,3), of "\<lambda>f. fl_set (fl_clear f Squashed) Scheduled"] by (elim exE conjE) (rule that)
  have k: "(key_of h1)(e := (when, sint (ev_priority v1))) = ?k" using same_core_key [OF r(2)] v0 e(1) by (simp add: new_key_cell)
  have "initialized (v1\<lparr>ev_flags := ev_flags w\<rparr>)" "scheduled (v1\<lparr>ev_flags := ev_flags w\<rparr>)" using n(2) unfolding i(4) by simp_all
  then have w: "scheduled w" "initialized w" by (simp_all add: scheduled_def initialized_def)
  have "eq_inv (?q\<lparr>eq_head := p'\<rparr>, h') (bins_insert ?k e ?cs)"
    using inserted_inv [OF i(2,3) w i(5) _ i(7)] i(6) n(3) k by simp
  moreover have "eq_reschedule False cur e when always (q, h) = Inr (q\<lparr>eq_head := p'\<rparr>, h')"
    using e iv r(1) v1 i(1) by (simp add: eq_reschedule_def upd_cell_Inr)
  moreover have "bins_ok ?k ?cs" using bins_ok_cong [OF _ bins_remove_ok [OF ok]] n(1) by (auto simp: new_key_def)
  then have "concat (bins_insert ?k e ?cs) = (let es = remove1 e (concat bs); k = ?k in takeWhile (\<lambda>f. k f < k e) es @ e # dropWhile (\<lambda>f. k f < k e) es)"
    unfolding Let_def concat_bins_remove [OF ok, symmetric] by (rule concat_bins_insert)
  ultimately show ?thesis by (intro exI [of _ p'] exI [of _ h'] exI [of _ "bins_insert ?k e ?cs"]) simp
qed

text \<open>
  The states of a queue in a simulation with one queue: events are created, squashed, scheduled, moved, taken off
  and served in any order, which covers whatever the action of an event does.
\<close>

inductive eq_reachable :: "eq_state \<Rightarrow> bool" where
  start: "eq_reachable (EventQueue i, [])"
| create: "eq_reachable (q, h) \<Longrightarrow> Event p f = Inr v \<Longrightarrow> eq_reachable (q, snd (new_cell h v))"
| squash: "eq_reachable (q, h) \<Longrightarrow> cell h e = Inr v \<Longrightarrow> eq_reachable (q, set_cell h e (squash v))"
| schedule: "eq_reachable x \<Longrightarrow> eq_schedule False cur g e t x = Inr x' \<Longrightarrow> eq_reachable x'"
| deschedule: "eq_reachable x \<Longrightarrow> eq_deschedule False cur e x = Inr x' \<Longrightarrow> eq_reachable x'"
| reschedule: "eq_reachable x \<Longrightarrow> eq_reschedule False cur e t always x = Inr x' \<Longrightarrow> eq_reachable x'"
| serve: "eq_reachable x \<Longrightarrow> eq_pop x = Inr (e, q, h) \<Longrightarrow> cell h e = Inr v \<Longrightarrow> \<not> squashed v \<Longrightarrow> eq_reachable (q\<lparr>eq_curTick := ev_when v\<rparr>, h)"
| skip: "eq_reachable x \<Longrightarrow> eq_pop x = Inr (e, q, h) \<Longrightarrow> cell h e = Inr v \<Longrightarrow> squashed v \<Longrightarrow>
     eq_reachable (q, set_cell h e (v\<lparr>ev_flags := fl_clear (ev_flags v) Squashed\<rparr>))"
| delete: "eq_reachable x \<Longrightarrow> auto_delete e x = Inr (r, x') \<Longrightarrow> eq_reachable x'"

lemma Event_flags:
  assumes "Event p f = Inr v"
  shows "initialized v" "\<not> scheduled v"
proof -
  have f: "f AND NOT PublicWrite = 0" "ev_flags v = Initialized OR f" using assms by (auto simp: Event_def fl_noneSet_def)
  have sub: "f AND m = 0" if "NOT PublicWrite AND m = m" for m
    using f(1) that by (metis and_zero_eq bit.conj_zero_left word_bw_assocs(1))
  have "f AND InitMask = 0" "f AND Scheduled = 0" by (rule sub; simp add: ev_flag_defs)+
  then show "initialized v" "\<not> scheduled v"
    unfolding initialized_def scheduled_def fl_isSet_def f(2) bit.conj_disj_distrib2 by (simp_all add: ev_flag_defs)
qed

text \<open>A change to one event that keeps its pointers, its key and its flags but \<open>Squashed\<close>.\<close>

lemma eq_inv_flag:
  assumes inv: "eq_inv (q, h) bs" and v: "cell h e = Inr v" and f: "initialized (v\<lparr>ev_flags := f\<rparr>)" "scheduled (v\<lparr>ev_flags := f\<rparr>) = scheduled v"
  shows "eq_inv (q, set_cell h e (v\<lparr>ev_flags := f\<rparr>)) bs"
  unfolding eq_inv_def fst_conv snd_conv
proof (intro conjI allI impI)
  show "eq_rep (set_cell h e (v\<lparr>ev_flags := f\<rparr>)) (eq_head q) bs" using inv by (intro eq_rep_flags [OF v]) (simp add: eq_inv_def)
  fix a u assume u: "cell (set_cell h e (v\<lparr>ev_flags := f\<rparr>)) a = Inr u"
  show "initialized u" "scheduled u = (a \<in> set (concat bs))" using u v f eq_invD(1,2) [OF inv] by (cases "a = e"; auto simp: cell_set)+
  assume "a \<in> set (concat bs)"
  then show "ev_queue u = Some (eq_id q)" "eq_curTick q \<le> ev_when u" using u v eq_invD(3,4) [OF inv] by (cases "a = e"; auto simp: cell_set)+
qed

lemma eq_inv_new:
  assumes inv: "eq_inv (q, h) bs" and v: "initialized v" "\<not> scheduled v"
  shows "eq_inv (q, h @ [Some v]) bs"
  unfolding eq_inv_def fst_conv snd_conv
proof (intro conjI allI impI)
  have n: "length h \<notin> set (concat bs)" using eq_inv_cells [OF inv, of "length h"] cell_lt [of h "length h"] by auto
  show "eq_rep (h @ [Some v]) (eq_head q) bs"
  proof (rule eq_rep_cong [of bs _ h])
    show "\<forall>a \<in> set (concat bs). field nextInBin (h @ [Some v]) a = field nextInBin h a \<and>
      field nextBin (h @ [Some v]) a = field nextBin h a \<and> field ev_key (h @ [Some v]) a = field ev_key h a"
    proof
      fix a assume "a \<in> set (concat bs)"
      then have "a \<noteq> length h" using n by blast
      then show "field nextInBin (h @ [Some v]) a = field nextInBin h a \<and>
        field nextBin (h @ [Some v]) a = field nextBin h a \<and> field ev_key (h @ [Some v]) a = field ev_key h a" by (simp add: field_def cell_new)
    qed
  qed (use inv in \<open>simp add: eq_inv_def\<close>)
  fix a u assume u: "cell (h @ [Some v]) a = Inr u"
  show "initialized u" "scheduled u = (a \<in> set (concat bs))" using u v n eq_invD(1,2) [OF inv] by (cases "a = length h"; auto simp: cell_new)+
  assume a: "a \<in> set (concat bs)"
  then have "cell h a = Inr u" using u n by (auto simp: cell_new split: if_splits)
  then show "ev_queue u = Some (eq_id q)" "eq_curTick q \<le> ev_when u" using a eq_invD(3,4) [OF inv] by blast+
qed

lemma eq_inv_free:
  assumes inv: "eq_inv (q, h) bs" and e: "e \<notin> set (concat bs)"
  shows "eq_inv (q, free_cell h e) bs"
  unfolding eq_inv_def fst_conv snd_conv
proof (intro conjI allI impI)
  show "eq_rep (free_cell h e) (eq_head q) bs" using inv e by (intro eq_rep_free) (simp_all add: eq_inv_def)
  fix a u assume "cell (free_cell h e) a = Inr u"
  then have u: "cell h a = Inr u" by (simp add: cell_free split: if_splits)
  show "initialized u" "scheduled u = (a \<in> set (concat bs))" using eq_invD(1,2) [OF inv u] by blast+
  assume "a \<in> set (concat bs)"
  then show "ev_queue u = Some (eq_id q)" "eq_curTick q \<le> ev_when u" using eq_invD(3,4) [OF inv u] by blast+
qed

lemma eq_inv_nonempty:
  assumes "eq_inv (q, h) bs" "eq_head q = Some e"
  obtains b cs where "bs = (e # b) # cs"
proof -
  have "bin_path (field nextInBin h) (field nextBin h) (Some e) bs None" using assms by (simp add: eq_inv_def eq_rep_def)
  then show ?thesis using that by (cases bs) (auto simp: neq_Nil_conv)
qed

lemma eq_reachable_inv: "eq_reachable x \<Longrightarrow> \<exists>bs. eq_inv x bs"
proof (induction rule: eq_reachable.induct)
  case (start i)
  show ?case by (intro exI [of _ "[]"]) (simp add: eq_inv_def eq_rep_def EventQueue_def cell_def)
next
  case (create q h p f v)
  then show ?case using eq_inv_new Event_flags by (fastforce simp: new_cell_def)
next
  case (squash q h e v)
  then obtain bs where bs: "eq_inv (q, h) bs" by blast
  show ?case using eq_inv_flag [OF bs squash(2), of "fl_set (ev_flags v) Squashed"] eq_invD(1) [OF bs squash(2)] by (auto simp: squash_def)
next
  case (schedule x cur g e t x')
  obtain q h where x: "x = (q, h)" by (cases x)
  obtain bs where bs: "eq_inv (q, h) bs" using schedule x by blast
  obtain v where v: "cell h e = Inr v" "\<not> scheduled v" "eq_curTick q \<le> t" using schedule(2) x by (auto simp: eq_schedule_def)
  show ?case using schedule_inv [OF bs v, of cur g] schedule(2) x by auto
next
  case (deschedule x cur e x')
  obtain q h where x: "x = (q, h)" by (cases x)
  obtain bs where bs: "eq_inv (q, h) bs" using deschedule x by blast
  obtain v where v: "cell h e = Inr v" "scheduled v" using deschedule(2) x by (auto simp: eq_deschedule_def)
  then have "e \<in> set (concat bs)" using eq_invD(2) [OF bs] by blast
  then show ?case using deschedule_inv [OF bs, of e cur] deschedule(2) x by auto
next
  case (reschedule x cur e t always x')
  obtain q h where x: "x = (q, h)" by (cases x)
  obtain bs where bs: "eq_inv (q, h) bs" using reschedule x by blast
  obtain v where v: "cell h e = Inr v" "always \<or> scheduled v" "eq_curTick q \<le> t" using reschedule(2) x by (auto simp: eq_reschedule_def)
  show ?case using reschedule_inv [OF bs v, of cur] reschedule(2) x by auto
next
  case (serve x e q h v)
  obtain q0 h0 where x: "x = (q0, h0)" by (cases x)
  obtain bs where bs: "eq_inv (q0, h0) bs" using serve x by blast
  have "eq_head q0 = Some e" using serve(2) x by (auto simp: eq_pop_def Let_def split: option.splits)
  then obtain b cs where "bs = (e # b) # cs" using eq_inv_nonempty [OF bs] by metis
  then show ?case using pop_inv [of q0 h0 e b cs] bs serve(2,3) x by fastforce
next
  case (skip x e q h v)
  obtain q0 h0 where x: "x = (q0, h0)" by (cases x)
  obtain bs where bs: "eq_inv (q0, h0) bs" using skip x by blast
  have "eq_head q0 = Some e" using skip(2) x by (auto simp: eq_pop_def Let_def split: option.splits)
  then obtain b cs where bb: "bs = (e # b) # cs" using eq_inv_nonempty [OF bs] by metis
  then have inv: "\<exists>bs. eq_inv (q, h) bs" using pop_inv [of q0 h0 e b cs] bs skip(2) x by fastforce
  then show ?case using eq_inv_flag [OF _ skip(3), of q _ "fl_clear (ev_flags v) Squashed"] eq_invD(1) [OF _ skip(3)] by fastforce
next
  case (delete x e r x')
  obtain q h where x: "x = (q, h)" by (cases x)
  obtain bs where bs: "eq_inv (q, h) bs" using delete x by blast
  obtain v where v: "cell h e = Inr v" using delete(2) x by (auto simp: auto_delete_def)
  have "x' = x \<or> \<not> scheduled v \<and> x' = (q, free_cell h e)" using delete(2) x v by (auto simp: auto_delete_def delete_event_def split: if_splits)
  then show ?case using bs x eq_inv_free [OF bs] eq_invD(2) [OF bs v] by blast
qed

section \<open>Properties of the queue\<close>

lemma bins_sorted: "bins_ok k bs \<Longrightarrow> sorted_wrt (\<lambda>a b. k a \<le> k b) (concat bs)"
proof (induction bs)
  case (Cons b bs)
  have all: "k f = k (hd b)" if "f \<in> set b" for f using Cons.prems same_keyD [OF _ that] unfolding bins_ok_Cons by blast
  have "k (b ! i) \<le> k (b ! j)" if "i < length b" "j < length b" for i j
    using all [OF nth_mem [OF that(1)]] all [OF nth_mem [OF that(2)]] by (metis order_refl)
  then have "sorted_wrt (\<lambda>a b. k a \<le> k b) b" by (simp add: sorted_wrt_iff_nth_less)
  moreover have "k a \<le> k c" if ab: "a \<in> set b" "c \<in> set (concat bs)" for a c
  proof -
    obtain d where d: "d \<in> set bs" "c \<in> set d" using ab(2) by auto
    have "same_key k d" "k (hd b) < k (hd d)" using Cons.prems d(1) by (simp_all add: bins_ok_def)
    then show ?thesis using all [OF ab(1)] same_keyD [of k d c] d(2) by simp
  qed
  ultimately show ?case using Cons by (simp add: sorted_wrt_append bins_ok_Cons)
qed simp

text \<open>C5: in every reachable state the pointers of the queue, stale ones included, represent a sequence that holds exactly
  the scheduled events, each once, ordered by tick and then by priority and none in the past. Serving takes
  the first event of the sequence and leaves the others.\<close>

theorem eventq_serves_earliest:
  assumes "eq_reachable (q, h)"
  shows "\<exists>es. eq_dump (q, h) = Inr es \<and> distinct es \<and> sorted_wrt (\<lambda>a b. key_of h a \<le> key_of h b) es \<and>
    (\<forall>a. a \<in> set es \<longleftrightarrow> (\<exists>v. cell h a = Inr v \<and> scheduled v)) \<and> (\<forall>a \<in> set es. eq_curTick q \<le> fst (key_of h a)) \<and>
    (\<forall>e es'. es = e # es' \<longrightarrow> (\<exists>p h'. eq_pop (q, h) = Inr (e, q\<lparr>eq_head := p\<rparr>, h') \<and> eq_dump (q\<lparr>eq_head := p\<rparr>, h') = Inr es'))"
proof -
  obtain bs where bs: "eq_inv (q, h) bs" using eq_reachable_inv [OF assms] by blast
  have ok: "bins_ok (key_of h) bs" by (rule eq_inv_bins [OF bs])
  have rep: "eq_rep h (eq_head q) bs" using bs by (simp add: eq_inv_def)
  have d: "eq_dump (q, h) = Inr (concat bs)" by (rule eq_dump_rep [OF rep])
  have m: "a \<in> set (concat bs) \<longleftrightarrow> (\<exists>v. cell h a = Inr v \<and> scheduled v)" for a
    using eq_invD(2) [OF bs] eq_inv_cells [OF bs] by blast
  have t: "eq_curTick q \<le> fst (key_of h a)" if a: "a \<in> set (concat bs)" for a
  proof -
    obtain v where v: "cell h a = Inr v" using eq_inv_cells [OF bs a] by blast
    show ?thesis using eq_invD(4) [OF bs v a] v by (simp add: key_of_cell ev_key_def)
  qed
  have p: "\<exists>p h'. eq_pop (q, h) = Inr (e, q\<lparr>eq_head := p\<rparr>, h') \<and> eq_dump (q\<lparr>eq_head := p\<rparr>, h') = Inr es'" if es: "concat bs = e # es'" for e es'
  proof -
    obtain b cs where b: "bs = (e # b) # cs" using es ok by (cases bs; cases "hd bs") (auto simp: bins_ok_Cons)
    obtain p h' where r: "eq_pop (q, h) = Inr (e, q\<lparr>eq_head := p\<rparr>, h')" "eq_inv (q\<lparr>eq_head := p, eq_curTick := eq_curTick q\<rparr>, h') (bins_remove e bs)"
      using pop_inv [of q h e b cs] bs b by blast
    have "eq_dump (q\<lparr>eq_head := p\<rparr>, h') = Inr (concat (bins_remove e bs))" using r(2) by (intro eq_dump_rep) (simp add: eq_inv_def)
    then show ?thesis using r(1) concat_bins_remove [OF ok, of e] es by auto
  qed
  have "distinct (concat bs)" using ok by (simp add: bins_ok_def)
  then show ?thesis using d m t p bins_sorted [OF ok] by (intro exI [of _ "concat bs"]) blast
qed

text \<open>C34: an event that is not scheduled can be scheduled for any tick that is not in the past. It then stands behind
  exactly the events with an earlier tick, or the same tick and a lower priority value, that is before the events
  of its own tick and priority; the order of the others does not change. Descheduling it restores the
  sequence.\<close>

theorem schedule_position:
  assumes "eq_reachable (q, h)" "cell h e = Inr v" "\<not> scheduled v" "eq_curTick q \<le> t" "eq_dump (q, h) = Inr es"
  shows "\<exists>x' x''. eq_schedule False cur g e t (q, h) = Inr x' \<and>
    (let k = new_key h e t in eq_dump x' = Inr (takeWhile (\<lambda>f. k f < k e) es @ e # dropWhile (\<lambda>f. k f < k e) es)) \<and>
    eq_deschedule False cur e x' = Inr x'' \<and> eq_dump x'' = Inr es"
proof -
  obtain bs where bs: "eq_inv (q, h) bs" using eq_reachable_inv [OF assms(1)] by blast
  have rep: "eq_rep h (eq_head q) bs" using bs by (simp add: eq_inv_def)
  have es: "es = concat bs" using eq_dump_rep [OF rep] assms(5) by simp
  have n: "e \<notin> set (concat bs)" using eq_invD(2) [OF bs assms(2)] assms(3) by blast
  let ?k = "new_key h e t" and ?cs = "bins_insert (new_key h e t) e bs"
  have ok: "bins_ok ?k bs" using bins_ok_cong [OF _ eq_inv_bins [OF bs]] n by (auto simp: new_key_def)
  obtain p' h' where s: "eq_schedule False cur g e t (q, h) = Inr (q\<lparr>eq_head := p'\<rparr>, h')" "eq_inv (q\<lparr>eq_head := p'\<rparr>, h') ?cs"
    using schedule_inv [OF bs assms(2,3,4)] by blast
  have d1: "eq_dump (q\<lparr>eq_head := p'\<rparr>, h') = Inr (concat ?cs)" using s(2) by (intro eq_dump_rep) (simp add: eq_inv_def)
  have e: "e \<in> set (concat ?cs)" unfolding set_bins_insert by simp
  obtain p'' h'' where r: "eq_deschedule False cur e (q\<lparr>eq_head := p'\<rparr>, h') = Inr (q\<lparr>eq_head := p''\<rparr>, h'')" "eq_inv (q\<lparr>eq_head := p''\<rparr>, h'') (bins_remove e ?cs)"
    using deschedule_inv [OF s(2) e, of cur] by auto
  have d2: "eq_dump (q\<lparr>eq_head := p''\<rparr>, h'') = Inr (concat (bins_remove e ?cs))" using r(2) by (intro eq_dump_rep) (simp add: eq_inv_def)
  have c: "concat ?cs = takeWhile (\<lambda>f. ?k f < ?k e) es @ e # dropWhile (\<lambda>f. ?k f < ?k e) es"
    unfolding es by (rule concat_bins_insert [OF ok])
  have "e \<notin> set (takeWhile (\<lambda>f. ?k f < ?k e) es)" using n es set_takeWhileD by metis
  then have "concat (bins_remove e ?cs) = es"
    using concat_bins_remove [OF eq_inv_bins [OF s(2)], of e] c by (simp add: remove1_append)
  then show ?thesis using s(1) d1 c r(1) d2
    by (intro exI [of _ "(q\<lparr>eq_head := p'\<rparr>, h')"] exI [of _ "(q\<lparr>eq_head := p''\<rparr>, h'')"]) (simp add: Let_def)
qed

text \<open>Three events: two for tick 500, of which the second was scheduled later, and one for tick 300 that is not scheduled yet.\<close>

definition ex_event :: event where
  "ex_event = \<lparr>nextBin = None, nextInBin = None, ev_when = 0, ev_priority = 0, ev_flags = Initialized, ev_queue = None\<rparr>"

definition ex_eq :: eq_state where
  "ex_eq = ((EventQueue 0)\<lparr>eq_head := Some 1\<rparr>,
     [Some (ex_event\<lparr>ev_when := 500, ev_flags := 0x7a42, ev_queue := Some 0\<rparr>),
      Some (ex_event\<lparr>nextInBin := Some 0, ev_when := 500, ev_flags := 0x7a42, ev_queue := Some 0\<rparr>), Some ex_event])"

lemmas eq_eval = cell_def set_cell_def upd_cell_def eq_schedule_def eq_insert_def insertBefore_def setWhen_def scheduled_def initialized_def
  ev_less_def ev_le_def ev_eq_def fl_defs ev_flag_defs EventQueue_def Let_def

lemma ex_eq_reachable: "eq_reachable ex_eq"
proof -
  have ev: "Event 0 0 = Inr ex_event" by (simp add: Event_def ex_event_def fl_noneSet_def Initialized_def)
  have c: "eq_reachable (q, h) \<Longrightarrow> eq_reachable (q, h @ [Some ex_event])" for q h using eq_reachable.create [OF _ ev] by (simp add: new_cell_def)
  have 1: "eq_reachable (EventQueue 0, [Some ex_event, Some ex_event, Some ex_event])"
    using c [OF c [OF c [OF eq_reachable.start [of 0]]]] by simp
  have "eq_schedule False 0 False 0 500 (EventQueue 0, [Some ex_event, Some ex_event, Some ex_event]) =
      Inr ((EventQueue 0)\<lparr>eq_head := Some 0\<rparr>, [Some (ex_event\<lparr>ev_when := 500, ev_flags := 0x7a42, ev_queue := Some 0\<rparr>), Some ex_event, Some ex_event])"
    by (simp add: eq_eval ex_event_def)
  from eq_reachable.schedule [OF 1 this]
  have 2: "eq_reachable ((EventQueue 0)\<lparr>eq_head := Some 0\<rparr>, [Some (ex_event\<lparr>ev_when := 500, ev_flags := 0x7a42, ev_queue := Some 0\<rparr>), Some ex_event, Some ex_event])" .
  have "eq_schedule False 0 False 1 500 ((EventQueue 0)\<lparr>eq_head := Some 0\<rparr>, [Some (ex_event\<lparr>ev_when := 500, ev_flags := 0x7a42, ev_queue := Some 0\<rparr>), Some ex_event, Some ex_event]) = Inr ex_eq"
    by (simp add: eq_eval ex_event_def ex_eq_def)
  from eq_reachable.schedule [OF 2 this] show ?thesis .
qed

lemma ex_eq_dump: "eq_dump ex_eq = Inr [1, 0]"
  by (simp add: eq_dump_def ex_eq_def ex_event_def cell_def EventQueue_def numeral_3_eq_3)

theorem eventq_serves_earliest_witness: "\<exists>x'. eq_pop ex_eq = Inr (1, x') \<and> eq_dump x' = Inr [0]"
proof -
  obtain q h where x: "ex_eq = (q, h)" by (cases ex_eq)
  show ?thesis using eventq_serves_earliest [of q h] ex_eq_reachable ex_eq_dump unfolding x by auto
qed

theorem schedule_position_witness:
  "\<exists>x' x''. eq_schedule False 0 False 2 300 ex_eq = Inr x' \<and> eq_dump x' = Inr [2, 1, 0] \<and> eq_deschedule False 0 2 x' = Inr x'' \<and> eq_dump x'' = Inr [1, 0]"
proof -
  obtain q h where x: "ex_eq = (q, h)" by (cases ex_eq)
  have v: "cell h 2 = Inr ex_event" "\<not> scheduled ex_event" "eq_curTick q \<le> 300"
    using x by (auto simp: ex_eq_def cell_def ex_event_def scheduled_def fl_defs ev_flag_defs EventQueue_def)
  have k: "\<not> new_key h 2 300 1 < new_key h 2 300 2"
    using x by (auto simp: ex_eq_def new_key_def key_of_def field_def cell_def ev_key_def ex_event_def)
  show ?thesis using schedule_position [of q h 2 ex_event 300 "[1, 0]" 0 False] ex_eq_reachable ex_eq_dump v k unfolding x by (auto simp: Let_def)
qed

section \<open>The self-check of the queue\<close>

text \<open>
  The state of \<open>debugVerify\<close> are the tick and the priority of the last event and the events seen so far. Its fuel is one
  more than the number of cells, since a cycle is noticed at the first event seen twice.
\<close>

type_synonym verify_state = "(Tick \<times> int) \<times> nat list"

fun verify_bin :: "nat \<Rightarrow> event cells \<Rightarrow> nat option \<Rightarrow> verify_state \<Rightarrow> (bool \<times> verify_state) res" where
  "verify_bin n h None s = Inr (True, s)"
| "verify_bin 0 h (Some e) s = Inl Diverges"
| "verify_bin (Suc n) h (Some e) s =
     (case s of ((time, prio), seen) \<Rightarrow>
        bindR (cell h e) (\<lambda>v.
          if ev_when v < time then Inr (False, s)
          else if ev_when v = time \<and> sint (ev_priority v) < prio then Inr (False, s)
          else if e \<in> set seen then Inr (False, s)
          else verify_bin n h (nextInBin v) ((ev_when v, sint (ev_priority v)), e # seen)))"

fun verify_bins :: "nat \<Rightarrow> event cells \<Rightarrow> nat option \<Rightarrow> verify_state \<Rightarrow> bool res" where
  "verify_bins n h None s = Inr True"
| "verify_bins 0 h (Some e) s = Inl Diverges"
| "verify_bins (Suc n) h (Some e) s =
     bindR (verify_bin (Suc (length h)) h (Some e) s) (\<lambda>(ok, s').
       if \<not> ok then Inr False else bindR (cell h e) (\<lambda>v. verify_bins n h (nextBin v) s'))"

definition debugVerify :: "eq_state \<Rightarrow> bool res" where
  "debugVerify x = verify_bins (Suc (length (snd x))) (snd x) (eq_head (fst x)) ((0, 0), [])"

lemma verify_bin_chain:
  "in_chain (field nextInBin h) p es \<Longrightarrow> length es \<le> n \<Longrightarrow> sorted_wrt (\<lambda>a b. key_of h a \<le> key_of h b) es \<Longrightarrow> distinct es \<Longrightarrow> set es \<inter> set seen = {} \<Longrightarrow>
     (es \<noteq> [] \<Longrightarrow> t \<le> key_of h (hd es)) \<Longrightarrow>
     verify_bin n h p (t, seen) = Inr (True, if es = [] then t else key_of h (last es), rev es @ seen)"
proof (induction es arbitrary: p n t seen)
  case (Cons e es)
  obtain m where n: "n = Suc m" using Cons.prems(2) by (cases n) auto
  obtain v where v: "cell h e = Inr v" "in_chain (field nextInBin h) (nextInBin v) es" using Cons.prems(1) by (auto simp: field_Some)
  have k: "key_of h e = (ev_when v, sint (ev_priority v))" using v(1) by (simp add: key_of_cell ev_key_def)
  have "t \<le> key_of h e" using Cons.prems(6) by simp
  then have ok: "\<not> ev_when v < fst t" "\<not> (ev_when v = fst t \<and> sint (ev_priority v) < snd t)" unfolding k by (auto simp: less_eq_prod_def)
  have "es \<noteq> [] \<Longrightarrow> key_of h e \<le> key_of h (hd es)" using Cons.prems(3) by (cases es) auto
  then have "verify_bin m h (nextInBin v) (key_of h e, e # seen) = Inr (True, if es = [] then key_of h e else key_of h (last es), rev es @ e # seen)"
    using Cons.prems n by (intro Cons.IH [OF v(2)]) auto
  then show ?case using n v(1) ok Cons.prems(1,5) k by (cases t) auto
qed simp

lemma verify_bins_path:
  "bin_path (field nextInBin h) (field nextBin h) p bs None \<Longrightarrow> bins_ok (key_of h) bs \<Longrightarrow> length bs \<le> n \<Longrightarrow> \<forall>b \<in> set bs. length b \<le> length h \<Longrightarrow>
     set (concat bs) \<inter> set seen = {} \<Longrightarrow> (bs \<noteq> [] \<Longrightarrow> t \<le> key_of h (hd (hd bs))) \<Longrightarrow> verify_bins n h p (t, seen) = Inr True"
proof (induction bs arbitrary: p n t seen)
  case (Cons b bs)
  obtain m where n: "n = Suc m" using Cons.prems(3) by (cases n) auto
  have p: "p = Some (hd b)" "in_chain (field nextInBin h) (Some (hd b)) b" using Cons.prems(1) in_chain_hd by auto
  obtain v where v: "cell h (hd b) = Inr v" "bin_path (field nextInBin h) (field nextBin h) (nextBin v) bs None"
    using Cons.prems(1) by (auto simp: field_Some)
  have ok: "b \<noteq> []" "distinct b" "bins_ok (key_of h) bs" "\<forall>c \<in> set bs. key_of h (hd b) < key_of h (hd c)" "set b \<inter> set (concat bs) = {}" "same_key (key_of h) b"
    using Cons.prems(2) unfolding bins_ok_Cons by blast+
  have "bins_ok (key_of h) [b]" using ok by (simp add: bins_ok_Cons)
  then have s: "sorted_wrt (\<lambda>a c. key_of h a \<le> key_of h c) b" using bins_sorted by fastforce
  have l: "key_of h (last b) = key_of h (hd b)" using same_keyD [OF ok(6) last_in_set [OF ok(1)]] .
  have r: "verify_bin (Suc (length h)) h (Some (hd b)) (t, seen) = Inr (True, key_of h (hd b), rev b @ seen)"
    using verify_bin_chain [OF p(2) _ s ok(2), of "Suc (length h)" seen t] Cons.prems(4-6) ok(1) l by auto
  have "verify_bins m h (nextBin v) (key_of h (hd b), rev b @ seen) = Inr True"
  proof (rule Cons.IH [OF v(2) ok(3)])
    show "bs \<noteq> [] \<Longrightarrow> key_of h (hd b) \<le> key_of h (hd (hd bs))" using ok(4) by (simp add: less_imp_le)
  qed (use Cons.prems(3-5) n ok(5) in auto)
  then show ?case using n p(1) r v(1) by simp
qed simp

text \<open>C38: the self-check of the queue accepts every reachable state, except when the first event is for tick 0 and has a
  negative priority: the check starts with priority 0 and reports an inversion there, although the order is right.\<close>

theorem debugVerify_reachable:
  assumes "eq_reachable (q, h)" "eq_dump (q, h) = Inr es"
  shows "debugVerify (q, h) = Inr (es = [] \<or> \<not> key_of h (hd es) < (0, 0))"
proof -
  obtain bs where bs: "eq_inv (q, h) bs" using eq_reachable_inv [OF assms(1)] by blast
  have rep: "eq_rep h (eq_head q) bs" using bs by (simp add: eq_inv_def)
  have es: "es = concat bs" using eq_dump_rep [OF rep] assms(2) by simp
  have path: "bin_path (field nextInBin h) (field nextBin h) (eq_head q) bs None" and ok: "bins_ok (key_of h) bs" using rep by (simp_all add: eq_rep_def)
  have len: "\<forall>b \<in> set bs. length b \<le> length h"
    using bin_path_cells [OF path] ok by (intro ballI distinct_cells) (auto simp: bins_ok_def distinct_concat_iff)
  show ?thesis
  proof (cases bs)
    case Nil
    then show ?thesis using path es by (simp add: debugVerify_def)
  next
    case (Cons b cs)
    obtain e b' where b: "b = e # b'" using ok Cons by (cases b) (auto simp: bins_ok_Cons)
    have hd: "hd es = e" "es \<noteq> []" using es Cons b by simp_all
    show ?thesis
    proof (cases "key_of h e < (0, 0)")
      case True
      obtain v where v: "cell h e = Inr v" using eq_inv_cells [OF bs, of e] Cons b by auto
      have "eq_head q = Some e" using bs Cons b eq_inv_head by blast
      moreover have "ev_when v < 0 \<or> ev_when v = 0 \<and> sint (ev_priority v) < 0" using True v by (auto simp: key_of_cell ev_key_def less_prod_def)
      ultimately show ?thesis using True v hd by (simp add: debugVerify_def)
    next
      case False
      have "verify_bins (Suc (length h)) h (eq_head q) ((0, 0), []) = Inr True"
        using verify_bins_path [OF path ok _ len, of "Suc (length h)" "[]" "(0, 0)"] eq_rep_length [OF rep] Cons b False by (simp add: not_less)
      then show ?thesis using False hd by (simp add: debugVerify_def)
    qed
  qed
qed

theorem debugVerify_reachable_witness: "debugVerify ex_eq = Inr True"
proof -
  obtain q h where x: "ex_eq = (q, h)" by (cases ex_eq)
  have k: "\<not> key_of h 1 < (0, 0)" using x by (auto simp: ex_eq_def key_of_def field_def cell_def ev_key_def ex_event_def)
  show ?thesis using debugVerify_reachable [of q h "[1, 0]"] ex_eq_reachable ex_eq_dump k unfolding x by simp
qed

end
