(* ===== verification/LinkedList.thy ===== *)
theory LinkedList
  imports Cells
begin

text \<open>
  The sorted linked list (\<open>src/All_Summer2017/Jack/LinkedList.h\<close>) and its version with one lock
  (\<open>CoarseLinkedList.h\<close>). Nodes are cells; a list has a head and a tail node of its own, between which the nodes of
  its values stand in ascending order. A loop that follows a null or freed pointer, or a cycle, ends in an error.
  The contract of both lists is the locale \<open>set_object\<close>: a set with \<open>add\<close>, \<open>remove\<close> and \<open>contains\<close>.
\<close>

section \<open>The plain list\<close>

record node =
  nd_data :: u64
  nd_next :: "nat option"

record linked_list =
  ll_head :: nat
  ll_tail :: nat

type_synonym 'a ll_state = "linked_list \<times> 'a node_scheme cells"

definition UINT32_MAX :: u64 where "UINT32_MAX = 0xffffffff"

text \<open>
  The constructor, with what the two nodes hold besides their value and their pointer. The pointer of the first
  node is set last.
\<close>

definition LinkedList_with :: "'a \<Rightarrow> 'a \<Rightarrow> 'a node_scheme cells \<Rightarrow> 'a ll_state" where
  "LinkedList_with m1 m2 h =
     (let (n1, h1) = new_cell h \<lparr>nd_data = 0, nd_next = None, \<dots> = m1\<rparr>;
          (n2, h2) = new_cell h1 \<lparr>nd_data = UINT32_MAX, nd_next = None, \<dots> = m2\<rparr> in
      (\<lparr>ll_head = n1, ll_tail = n2\<rparr>, set_cell h2 n1 \<lparr>nd_data = 0, nd_next = Some n2, \<dots> = m1\<rparr>))"

definition LinkedList :: "node cells \<Rightarrow> unit ll_state" where
  "LinkedList = LinkedList_with () ()"

text \<open>A pointer that is followed must not be null.\<close>

definition follow :: "'a node_scheme cells \<Rightarrow> nat \<Rightarrow> nat res" where
  "follow h a = bindR (cell h a) (\<lambda>v. case nd_next v of Some n \<Rightarrow> Inr n | None \<Rightarrow> Inl BadPtr)"

text \<open>The loop of the destructor of the plain list stops at the node before the tail.\<close>

fun destroy_loop :: "nat \<Rightarrow> nat \<Rightarrow> nat \<Rightarrow> 'a node_scheme cells \<Rightarrow> (nat \<times> 'a node_scheme cells) res" where
  "destroy_loop n t a h =
     bindR (follow h a) (\<lambda>b.
       if b = t then Inr (a, h)
       else case n of 0 \<Rightarrow> Inl Diverges | Suc m \<Rightarrow> destroy_loop m t b (free_cell h a))"

definition destroy :: "unit ll_state \<Rightarrow> unit ll_state res" where
  "destroy s =
     (case s of (l, h) \<Rightarrow>
        bindR (destroy_loop (length h) (ll_tail l) (ll_head l) h) (\<lambda>(a, h'). Inr (l\<lparr>ll_head := a\<rparr>, h')))"

fun contains_loop :: "nat \<Rightarrow> 'a node_scheme cells \<Rightarrow> nat \<Rightarrow> u64 \<Rightarrow> nat \<Rightarrow> bool res" where
  "contains_loop n h t x c =
     (if c = t then Inr False
      else bindR (cell h c) (\<lambda>v.
        if x < nd_data v then Inr False
        else if nd_data v = x then Inr True
        else case n of 0 \<Rightarrow> Inl Diverges | Suc m \<Rightarrow> bindR (follow h c) (contains_loop m h t x)))"

definition ll_contains :: "u64 \<Rightarrow> 'a ll_state \<Rightarrow> bool res" where
  "ll_contains x s = (case s of (l, h) \<Rightarrow> bindR (follow h (ll_head l)) (contains_loop (length h) h (ll_tail l) x))"

text \<open>
  The loop of \<open>add\<close> and of \<open>remove\<close> with \<open>pred\<close> and \<open>curr\<close>: it ends at the tail, at the first larger value or at \<open>x\<close>.
\<close>

fun find_loop :: "nat \<Rightarrow> 'a node_scheme cells \<Rightarrow> nat \<Rightarrow> u64 \<Rightarrow> nat \<Rightarrow> nat \<Rightarrow> (bool \<times> nat \<times> nat) res" where
  "find_loop n h t x p c =
     (if c = t then Inr (False, p, c)
      else bindR (cell h c) (\<lambda>v.
        if x < nd_data v then Inr (False, p, c)
        else if nd_data v = x then Inr (True, p, c)
        else case n of 0 \<Rightarrow> Inl Diverges | Suc m \<Rightarrow> bindR (follow h c) (find_loop m h t x c)))"

fun print_loop :: "nat \<Rightarrow> 'a node_scheme cells \<Rightarrow> nat \<Rightarrow> nat \<Rightarrow> u64 list res" where
  "print_loop n h t c =
     (if c = t then Inr []
      else bindR (cell h c) (\<lambda>v. case n of 0 \<Rightarrow> Inl Diverges
         | Suc m \<Rightarrow> bindR (follow h c) (\<lambda>d. bindR (print_loop m h t d) (\<lambda>vs. Inr (nd_data v # vs)))))"

declare destroy_loop.simps [simp del] contains_loop.simps [simp del] find_loop.simps [simp del] print_loop.simps [simp del]

definition insert_node :: "'a \<Rightarrow> u64 \<Rightarrow> nat \<Rightarrow> nat \<Rightarrow> 'a node_scheme cells \<Rightarrow> 'a node_scheme cells res" where
  "insert_node m x p c h =
     (let (n, h1) = new_cell h \<lparr>nd_data = x, nd_next = Some c, \<dots> = m\<rparr> in upd_cell h1 p (\<lambda>v. v\<lparr>nd_next := Some n\<rparr>))"

definition unlink_node :: "nat \<Rightarrow> nat \<Rightarrow> 'a node_scheme cells \<Rightarrow> 'a node_scheme cells res" where
  "unlink_node p c h =
     bindR (cell h c) (\<lambda>v. bindR (upd_cell h p (\<lambda>w. w\<lparr>nd_next := nd_next v\<rparr>)) (\<lambda>h1. Inr (free_cell h1 c)))"

definition ll_add :: "u64 \<Rightarrow> unit ll_state \<Rightarrow> (bool \<times> unit ll_state) res" where
  "ll_add x s =
     (case s of (l, h) \<Rightarrow>
        bindR (cell h (ll_head l)) (\<lambda>v.
          if x = nd_data v then Inr (False, s)
          else if x < nd_data v then Inr (True, s)
          else
            bindR (follow h (ll_head l)) (\<lambda>c0.
            bindR (find_loop (length h) h (ll_tail l) x (ll_head l) c0) (\<lambda>(found, p, c).
              if found then Inr (False, s) else bindR (insert_node () x p c h) (\<lambda>h'. Inr (True, l, h'))))))"

definition ll_remove :: "u64 \<Rightarrow> unit ll_state \<Rightarrow> (bool \<times> unit ll_state) res" where
  "ll_remove x s =
     (case s of (l, h) \<Rightarrow>
        bindR (cell h (ll_head l)) (\<lambda>v.
          if nd_data v = x then Inr (False, s)
          else
            bindR (follow h (ll_head l)) (\<lambda>c0.
            bindR (find_loop (length h) h (ll_tail l) x (ll_head l) c0) (\<lambda>(found, p, c).
              if found then bindR (unlink_node p c h) (\<lambda>h'. Inr (True, l, h')) else Inr (False, s)))))"

text \<open>What \<open>print\<close> writes: the values, and whether it writes \<open>nothing yet\<close>.\<close>

definition ll_print :: "'a ll_state \<Rightarrow> (u64 list \<times> bool) res" where
  "ll_print s =
     (case s of (l, h) \<Rightarrow>
        bindR (follow h (ll_head l)) (\<lambda>c.
        bindR (print_loop (length h) h (ll_tail l) c) (\<lambda>vs. Inr (vs, c = ll_tail l))))"

section \<open>The list with one lock\<close>

text \<open>
  A mutex before \<open>pthread_mutex_init\<close> has no defined state. A thread that locks a mutex held by somebody waits, here
  for ever, since an operation is run alone; unlocking a mutex that the thread does not hold is undefined.
\<close>

datatype mutex = Uninit | Unlocked | LockedBy nat

record lnode = node +
  nd_lock :: mutex

type_synonym lk_state = "linked_list \<times> lnode cells"

definition mutex_lock :: "nat \<Rightarrow> nat \<Rightarrow> lnode cells \<Rightarrow> lnode cells res" where
  "mutex_lock i a h =
     bindR (cell h a) (\<lambda>v. case nd_lock v of
       Uninit \<Rightarrow> Inl (Panic ''lock of a mutex that is not initialised'')
     | LockedBy _ \<Rightarrow> Inl Diverges
     | Unlocked \<Rightarrow> Inr (set_cell h a (v\<lparr>nd_lock := LockedBy i\<rparr>)))"

definition mutex_unlock :: "nat \<Rightarrow> nat \<Rightarrow> lnode cells \<Rightarrow> lnode cells res" where
  "mutex_unlock i a h =
     bindR (cell h a) (\<lambda>v.
       if nd_lock v = LockedBy i then Inr (set_cell h a (v\<lparr>nd_lock := Unlocked\<rparr>))
       else Inl (Panic ''unlock of a mutex that is not held''))"

definition mutex_destroy :: "nat \<Rightarrow> lnode cells \<Rightarrow> lnode cells res" where
  "mutex_destroy a h =
     bindR (cell h a) (\<lambda>v.
       if nd_lock v = Unlocked then Inr (set_cell h a (v\<lparr>nd_lock := Uninit\<rparr>))
       else Inl (Panic ''destruction of a mutex that is in use''))"

text \<open>The constructor initialises the mutex of the first node only, the one that every operation takes.\<close>

definition CoarseLinkedList :: "lnode cells \<Rightarrow> lk_state" where
  "CoarseLinkedList = LinkedList_with (lnode.fields Unlocked) (lnode.fields Uninit)"

fun co_destroy_loop :: "nat \<Rightarrow> nat \<Rightarrow> nat \<Rightarrow> lnode cells \<Rightarrow> lnode cells res" where
  "co_destroy_loop n t a h =
     (if a = t then Inr (free_cell h a)
      else case n of 0 \<Rightarrow> Inl Diverges
       | Suc m \<Rightarrow> bindR (follow h a) (\<lambda>b. co_destroy_loop m t b (free_cell h a)))"

declare co_destroy_loop.simps [simp del]

definition co_destroy :: "nat \<Rightarrow> lk_state \<Rightarrow> lk_state res" where
  "co_destroy i s =
     (case s of (l, h) \<Rightarrow>
        bindR (mutex_unlock i (ll_head l) h) (\<lambda>h1.
        bindR (mutex_destroy (ll_head l) h1) (\<lambda>h2.
        bindR (co_destroy_loop (length h2) (ll_tail l) (ll_head l) h2) (\<lambda>h3. Inr (l\<lparr>ll_head := ll_tail l\<rparr>, h3)))))"

text \<open>The operations of thread \<open>i\<close>. They do not test the value of the head.\<close>

definition co_contains :: "nat \<Rightarrow> u64 \<Rightarrow> lk_state \<Rightarrow> (bool \<times> lk_state) res" where
  "co_contains i x s =
     (case s of (l, h) \<Rightarrow>
        bindR (mutex_lock i (ll_head l) h) (\<lambda>h1.
        bindR (follow h1 (ll_head l)) (\<lambda>c0.
        bindR (contains_loop (length h1) h1 (ll_tail l) x c0) (\<lambda>found.
        bindR (mutex_unlock i (ll_head l) h1) (\<lambda>h2. Inr (found, l, h2))))))"

definition co_add :: "nat \<Rightarrow> u64 \<Rightarrow> lk_state \<Rightarrow> (bool \<times> lk_state) res" where
  "co_add i x s =
     (case s of (l, h) \<Rightarrow>
        bindR (mutex_lock i (ll_head l) h) (\<lambda>h1.
        bindR (follow h1 (ll_head l)) (\<lambda>c0.
        bindR (find_loop (length h1) h1 (ll_tail l) x (ll_head l) c0) (\<lambda>(found, p, c).
          if found then bindR (mutex_unlock i (ll_head l) h1) (\<lambda>h2. Inr (False, l, h2))
          else
            bindR (insert_node (lnode.fields Uninit) x p c h1) (\<lambda>h2.
            bindR (mutex_unlock i (ll_head l) h2) (\<lambda>h3. Inr (True, l, h3)))))))"

definition co_remove :: "nat \<Rightarrow> u64 \<Rightarrow> lk_state \<Rightarrow> (bool \<times> lk_state) res" where
  "co_remove i x s =
     (case s of (l, h) \<Rightarrow>
        bindR (mutex_lock i (ll_head l) h) (\<lambda>h1.
        bindR (follow h1 (ll_head l)) (\<lambda>c0.
        bindR (find_loop (length h1) h1 (ll_tail l) x (ll_head l) c0) (\<lambda>(found, p, c).
          if found then
            bindR (unlink_node p c h1) (\<lambda>h2.
            bindR (mutex_unlock i (ll_head l) h2) (\<lambda>h3. Inr (True, l, h3)))
          else bindR (mutex_unlock i (ll_head l) h1) (\<lambda>h2. Inr (False, l, h2))))))"

definition co_print :: "nat \<Rightarrow> lk_state \<Rightarrow> ((u64 list \<times> bool) \<times> lk_state) res" where
  "co_print i s =
     (case s of (l, h) \<Rightarrow>
        bindR (mutex_lock i (ll_head l) h) (\<lambda>h1.
        bindR (ll_print (l, h1)) (\<lambda>out.
        bindR (mutex_unlock i (ll_head l) h1) (\<lambda>h2. Inr (out, l, h2)))))"

section \<open>The set that a list represents\<close>

text \<open>
  The nodes of a list from its head to its tail, each pointing to the next, are all different, and the values between
  them ascend.
\<close>

definition data_of :: "'a node_scheme cells \<Rightarrow> nat \<Rightarrow> u64" where
  "data_of h a = (case cell h a of Inr v \<Rightarrow> nd_data v | Inl _ \<Rightarrow> 0)"

definition nodes :: "linked_list \<Rightarrow> nat list \<Rightarrow> nat list" where
  "nodes l as = ll_head l # as @ [ll_tail l]"

definition linked :: "'a node_scheme cells \<Rightarrow> nat list \<Rightarrow> bool" where
  "linked h as \<longleftrightarrow> successively (\<lambda>a b. follow h a = Inr b) as"

definition ll_inv :: "'a ll_state \<Rightarrow> nat list \<Rightarrow> bool" where
  "ll_inv s as \<longleftrightarrow>
     (case s of (l, h) \<Rightarrow>
        linked h (nodes l as) \<and> distinct (nodes l as) \<and> (\<forall>a \<in> set (nodes l as). \<exists>v. cell h a = Inr v) \<and>
        sorted_wrt (<) (map (data_of h) as) \<and> data_of h (ll_head l) = 0)"

lemma linked_append: "linked h (as @ b # bs) \<longleftrightarrow> linked h (as @ [b]) \<and> linked h (b # bs)"
  by (auto simp: linked_def successively_append_iff)

lemma linked_Cons2: "linked h (a # b # bs) \<longleftrightarrow> follow h a = Inr b \<and> linked h (b # bs)"
  by (simp add: linked_def)

lemma linked_cong: "(\<And>a. a \<in> set (butlast as) \<Longrightarrow> follow h a = follow h' a) \<Longrightarrow> linked h as = linked h' as"
  unfolding linked_def by (induction as rule: induct_list012) auto

lemma follow_cell: "follow h a = Inr b \<longleftrightarrow> (\<exists>v. cell h a = Inr v \<and> nd_next v = Some b)"
  by (auto simp: follow_def bindR_eq_Inr split: option.splits)

lemma data_of_cell: "cell h a = Inr v \<Longrightarrow> data_of h a = nd_data v"
  by (simp add: data_of_def)

text \<open>Where the loop of \<open>add\<close> and \<open>remove\<close> stops.\<close>

lemma find_loop_splits:
  assumes "linked h (p # bs @ [t])" "t \<notin> set bs" "sorted_wrt (<) (map (data_of h) bs)" "length bs \<le> n"
  shows "\<exists>xs ys. bs = xs @ ys \<and> (\<forall>a \<in> set xs. data_of h a < x) \<and> (\<forall>a \<in> set ys. x \<le> data_of h a) \<and>
    find_loop n h t x p (hd (bs @ [t])) =
      Inr (ys \<noteq> [] \<and> data_of h (hd ys) = x, last (p # xs), hd (ys @ [t]))"
  using assms
proof (induction bs arbitrary: n p)
  case Nil
  then show ?case by (simp add: find_loop.simps)
next
  case (Cons b bs)
  obtain v where v: "cell h b = Inr v" "nd_next v = Some (hd (bs @ [t]))"
    using Cons.prems(1) by (cases bs) (auto simp: linked_Cons2 follow_cell)
  have d: "data_of h b = nd_data v" using v by (simp add: data_of_cell)
  have fb: "follow h b = Inr (hd (bs @ [t]))" using v by (simp add: follow_cell)
  show ?case
  proof (cases "nd_data v < x")
    case False
    have up: "\<forall>a \<in> set (b # bs). x \<le> data_of h a" using False Cons.prems(3) d by fastforce
    have "find_loop n h t x p b = Inr (data_of h b = x, p, b)"
      using Cons.prems(2) False v d by (subst find_loop.simps) auto
    with up show ?thesis by (intro exI [of _ "[]"] exI [of _ "b # bs"]) simp
  next
    case True
    obtain m where m: "n = Suc m" using Cons.prems(4) by (cases n) auto
    have "linked h (b # bs @ [t])" using Cons.prems(1) by (simp add: linked_Cons2)
    from Cons.IH [OF this, of m] Cons.prems m obtain xs ys where
      i: "bs = xs @ ys" "\<forall>a \<in> set xs. data_of h a < x" "\<forall>a \<in> set ys. x \<le> data_of h a"
      "find_loop m h t x b (hd (bs @ [t])) = Inr (ys \<noteq> [] \<and> data_of h (hd ys) = x, last (b # xs), hd (ys @ [t]))"
      by auto
    have "find_loop n h t x p b = find_loop m h t x b (hd (bs @ [t]))"
      using Cons.prems(2) True v fb m by (subst find_loop.simps) auto
    with i True d show ?thesis by (intro exI [of _ "b # xs"] exI [of _ ys]) simp
  qed
qed

lemma contains_loop_find: "contains_loop n h t x c = bindR (find_loop n h t x p c) (\<lambda>(found, _). Inr found)"
proof (induction n arbitrary: p c)
  case 0
  show ?case
    by (subst contains_loop.simps, subst find_loop.simps, cases "cell h c") auto
next
  case (Suc n)
  have "bindR (follow h c) (contains_loop n h t x) =
      bindR (bindR (follow h c) (find_loop n h t x c)) (\<lambda>(found, _). Inr found)"
    by (cases "follow h c") (simp_all add: Suc [of _ c])
  then show ?case
    by (subst contains_loop.simps, subst find_loop.simps, cases "cell h c") auto
qed

text \<open>A new node between two neighbours, and a node taken out from between its neighbours.\<close>

lemma insert_node_links:
  assumes l: "linked h (us @ p # c # vs)" and d: "distinct (us @ p # c # vs)"
    and v: "\<forall>a \<in> set (us @ p # c # vs). \<exists>v. cell h a = Inr v"
  obtains h' w where "insert_node m x p c h = Inr h'" "cell h p = Inr w"
    "\<forall>a. cell h' a = (if a = p then Inr (w\<lparr>nd_next := Some (length h)\<rparr>)
       else if a = length h then Inr \<lparr>nd_data = x, nd_next = Some c, \<dots> = m\<rparr> else cell h a)"
    "linked h' (us @ p # length h # c # vs)" "distinct (us @ p # length h # c # vs)"
proof -
  from v obtain w where w: "cell h p = Inr w" by auto
  have fresh: "length h \<notin> set (us @ p # c # vs)" using v cell_lt by fastforce
  let ?h1 = "h @ [Some \<lparr>nd_data = x, nd_next = Some c, \<dots> = m\<rparr>]"
  let ?h = "set_cell ?h1 p (w\<lparr>nd_next := Some (length h)\<rparr>)"
  have p1: "cell ?h1 p = Inr w" using w fresh by (auto simp: cell_new)
  have e: "insert_node m x p c h = Inr ?h"
    using p1 by (simp add: insert_node_def new_cell_def upd_cell_Inr)
  have c: "cell ?h a = (if a = p then Inr (w\<lparr>nd_next := Some (length h)\<rparr>)
       else if a = length h then Inr \<lparr>nd_data = x, nd_next = Some c, \<dots> = m\<rparr> else cell h a)" for a
    by (simp add: cell_set [OF p1] cell_new)
  have f: "follow ?h a = (if a = p then Inr (length h) else if a = length h then Inr c else follow h a)" for a
    by (simp add: follow_def c)
  have l': "linked h (us @ [p])" "linked h (c # vs)" using l linked_append [of h us p "c # vs"] by (simp_all add: linked_Cons2)
  have "linked ?h (us @ [p])" using l'(1) d fresh by (subst linked_cong [of _ ?h h]) (auto simp: f)
  moreover have "linked ?h (c # vs)"
    using l'(2) d fresh by (subst linked_cong [of _ ?h h]) (auto simp: f dest: in_set_butlastD split: if_splits)
  ultimately have "linked ?h (us @ p # length h # c # vs)"
    using fresh by (subst linked_append) (simp add: linked_Cons2 f)
  moreover have "distinct (us @ p # length h # c # vs)" using d fresh by auto
  ultimately show thesis using that [OF e w] c by blast
qed

lemma unlink_node_links:
  assumes l: "linked h (us @ p # c # e # vs)" and d: "distinct (us @ p # c # e # vs)"
    and v: "\<forall>a \<in> set (us @ p # c # e # vs). \<exists>v. cell h a = Inr v"
  obtains h' w where "unlink_node p c h = Inr h'" "cell h p = Inr w"
    "\<forall>a. cell h' a = (if a = c then Inl BadPtr else if a = p then Inr (w\<lparr>nd_next := Some e\<rparr>) else cell h a)"
    "linked h' (us @ p # e # vs)" "length h' = length h"
proof -
  from v obtain w u where w: "cell h p = Inr w" and u: "cell h c = Inr u" by auto
  have l': "linked h (us @ [p])" "follow h c = Inr e" "linked h (e # vs)"
    using l linked_append [of h us p "c # e # vs"] by (simp_all add: linked_Cons2)
  then have n: "nd_next u = Some e" using u by (simp add: follow_cell)
  let ?h = "free_cell (set_cell h p (w\<lparr>nd_next := Some e\<rparr>)) c"
  have e: "unlink_node p c h = Inr ?h" using w u n by (simp add: unlink_node_def upd_cell_Inr)
  have c: "cell ?h a = (if a = c then Inl BadPtr else if a = p then Inr (w\<lparr>nd_next := Some e\<rparr>) else cell h a)" for a
    by (simp add: cell_free cell_set [OF w])
  have f: "follow ?h a = (if a = c then Inl BadPtr else if a = p then Inr e else follow h a)" for a
    by (simp add: follow_def c)
  have "linked ?h (us @ [p])" using l'(1) d by (subst linked_cong [of _ ?h h]) (auto simp: f)
  moreover have "linked ?h (e # vs)"
    using l'(3) d by (subst linked_cong [of _ ?h h]) (auto simp: f dest: in_set_butlastD split: if_splits)
  ultimately have "linked ?h (us @ p # e # vs)"
    using d by (subst linked_append) (auto simp: linked_Cons2 f)
  then show thesis using that [OF e w] c by simp
qed

text \<open>The neighbours that the loop ends with, as a split of the nodes.\<close>

lemma nodes_split:
  obtains us vs where "nodes l (xs @ ys) = us @ last (ll_head l # xs) # hd (ys @ [ll_tail l]) # vs"
    "us @ [last (ll_head l # xs)] = ll_head l # xs" "hd (ys @ [ll_tail l]) # vs = ys @ [ll_tail l]"
proof -
  have 1: "butlast (ll_head l # xs) @ [last (ll_head l # xs)] = ll_head l # xs" by (rule append_butlast_last_id) simp
  have 2: "hd (ys @ [ll_tail l]) # tl (ys @ [ll_tail l]) = ys @ [ll_tail l]" by (rule hd_Cons_tl) simp
  have "nodes l (xs @ ys) = (ll_head l # xs) @ ys @ [ll_tail l]" by (simp add: nodes_def)
  also have "\<dots> = (butlast (ll_head l # xs) @ [last (ll_head l # xs)]) @ hd (ys @ [ll_tail l]) # tl (ys @ [ll_tail l])"
    by (simp only: 1 2)
  finally show thesis using that [OF _ 1 2] by simp
qed

lemma ll_inv_find:
  assumes "ll_inv (l, h) as"
  obtains xs ys c0 where "as = xs @ ys" "\<forall>a \<in> set xs. data_of h a < x" "\<forall>a \<in> set ys. x \<le> data_of h a"
    "follow h (ll_head l) = Inr c0"
    "find_loop (length h) h (ll_tail l) x (ll_head l) c0 =
       Inr (x \<in> data_of h ` set as, last (ll_head l # xs), hd (ys @ [ll_tail l]))"
    "x \<in> data_of h ` set as \<longleftrightarrow> ys \<noteq> [] \<and> data_of h (hd ys) = x"
proof -
  have i: "linked h (ll_head l # as @ [ll_tail l])" "distinct (ll_head l # as @ [ll_tail l])"
    "\<forall>a \<in> set (ll_head l # as @ [ll_tail l]). \<exists>v. cell h a = Inr v" "sorted_wrt (<) (map (data_of h) as)"
    using assms by (simp_all add: ll_inv_def nodes_def)
  have n: "length as \<le> length h" using i(2,3) distinct_cells [of as h] by simp
  have c0: "follow h (ll_head l) = Inr (hd (as @ [ll_tail l]))" using i(1) by (cases as) (simp_all add: linked_Cons2)
  obtain xs ys where s: "as = xs @ ys" "\<forall>a \<in> set xs. data_of h a < x" "\<forall>a \<in> set ys. x \<le> data_of h a"
    "find_loop (length h) h (ll_tail l) x (ll_head l) (hd (as @ [ll_tail l])) =
      Inr (ys \<noteq> [] \<and> data_of h (hd ys) = x, last (ll_head l # xs), hd (ys @ [ll_tail l]))"
  proof -
    have "ll_tail l \<notin> set as" using i(2) by simp
    from find_loop_splits [OF i(1) this i(4) n, of x] that show thesis by (elim exE conjE) metis
  qed
  have "x \<in> data_of h ` set as \<longleftrightarrow> ys \<noteq> [] \<and> data_of h (hd ys) = x"
  proof
    assume "x \<in> data_of h ` set as"
    then obtain a where a: "a \<in> set ys" "data_of h a = x" using s(1,2) by fastforce
    then obtain y zs where y: "ys = y # zs" by (cases ys) auto
    have "data_of h y \<le> data_of h a" using i(4) a s(1) y by (auto simp: sorted_wrt_append)
    with a y s(3) show "ys \<noteq> [] \<and> data_of h (hd ys) = x" by force
  next
    assume "ys \<noteq> [] \<and> data_of h (hd ys) = x"
    then show "x \<in> data_of h ` set as" using s(1) by (cases ys) auto
  qed
  with s c0 show thesis by (intro that [of xs ys "hd (as @ [ll_tail l])"]) simp_all
qed

lemma ll_inv_found:
  assumes i: "ll_inv (l, h) as" and c0: "follow h (ll_head l) = Inr c0"
    and f: "find_loop (length h) h (ll_tail l) x (ll_head l) c0 = Inr (b, p, c)"
  obtains xs ys us vs where "as = xs @ ys" "\<forall>a \<in> set xs. data_of h a < x" "\<forall>a \<in> set ys. x \<le> data_of h a"
    "x \<in> data_of h ` set as \<longleftrightarrow> ys \<noteq> [] \<and> data_of h (hd ys) = x"
    "nodes l as = us @ p # c # vs" "us @ [p] = ll_head l # xs" "c # vs = ys @ [ll_tail l]"
proof -
  obtain xs ys c1 where s: "as = xs @ ys" "\<forall>a \<in> set xs. data_of h a < x" "\<forall>a \<in> set ys. x \<le> data_of h a"
    "follow h (ll_head l) = Inr c1"
    "find_loop (length h) h (ll_tail l) x (ll_head l) c1 =
       Inr (x \<in> data_of h ` set as, last (ll_head l # xs), hd (ys @ [ll_tail l]))"
    "x \<in> data_of h ` set as \<longleftrightarrow> ys \<noteq> [] \<and> data_of h (hd ys) = x"
    by (rule ll_inv_find [OF i, of x])
  have "c1 = c0" using s(4) c0 by simp
  then have pc: "p = last (ll_head l # xs)" "c = hd (ys @ [ll_tail l])" using s(5) f by (simp_all only: sum.inject prod.inject)
  obtain us vs where n: "nodes l (xs @ ys) = us @ p # c # vs" "us @ [p] = ll_head l # xs" "c # vs = ys @ [ll_tail l]"
    using nodes_split [of l xs ys] unfolding pc [symmetric] .
  then show thesis using that [OF s(1-3,6) _ n(2,3)] s(1) by simp
qed

lemma ll_inv_insert:
  assumes i: "ll_inv (l, h) as" and x: "x \<notin> data_of h ` set as" and c0: "follow h (ll_head l) = Inr c0"
    and f: "find_loop (length h) h (ll_tail l) x (ll_head l) c0 = Inr (b, p, c)"
  obtains h' as' where "insert_node m x p c h = Inr h'" "ll_inv (l, h') as'"
    "data_of h' ` set as' = insert x (data_of h ` set as)"
    "\<And>v. cell h (ll_head l) = Inr v \<Longrightarrow> \<exists>n. cell h' (ll_head l) = Inr (v\<lparr>nd_next := n\<rparr>)"
proof -
  obtain xs ys us vs where s: "as = xs @ ys" "\<forall>a \<in> set xs. data_of h a < x" "\<forall>a \<in> set ys. x \<le> data_of h a"
    and n: "nodes l as = us @ p # c # vs" "us @ [p] = ll_head l # xs" "c # vs = ys @ [ll_tail l]"
    by (rule ll_inv_found [OF i c0 f])
  have i': "linked h (us @ p # c # vs)" "distinct (us @ p # c # vs)" "\<forall>a \<in> set (us @ p # c # vs). \<exists>v. cell h a = Inr v"
    "sorted_wrt (<) (map (data_of h) as)" "data_of h (ll_head l) = 0"
    using i by (simp_all add: ll_inv_def flip: n(1))
  obtain h' w where h: "insert_node m x p c h = Inr h'" "cell h p = Inr w"
    "\<forall>a. cell h' a = (if a = p then Inr (w\<lparr>nd_next := Some (length h)\<rparr>)
       else if a = length h then Inr \<lparr>nd_data = x, nd_next = Some c, \<dots> = m\<rparr> else cell h a)"
    "linked h' (us @ p # length h # c # vs)" "distinct (us @ p # length h # c # vs)"
    by (rule insert_node_links [OF i'(1-3), of m x])
  let ?as = "xs @ length h # ys"
  have "nodes l ?as = (us @ [p]) @ length h # c # vs" by (simp only: n(2,3)) (simp add: nodes_def)
  then have nn: "nodes l ?as = us @ p # length h # c # vs" by simp
  have dd: "data_of h' a = (if a = length h then x else data_of h a)" for a
    using h(2,5) by (auto simp: data_of_def h(3))
  have fresh: "length h \<notin> set (nodes l as)" using h(5) n(1) by auto
  have sub: "set as \<subseteq> set (nodes l as)" "ll_head l \<in> set (nodes l as)" by (auto simp: nodes_def)
  have m: "map (data_of h') ?as = map (data_of h) xs @ x # map (data_of h) ys" using fresh sub s(1) by (auto simp: dd)
  have "\<forall>a \<in> set ys. x < data_of h a" using s(1,3) x by force
  then have "sorted_wrt (<) (map (data_of h') ?as)"
    using i'(4) s(1,2) unfolding m by (auto simp: sorted_wrt_append)
  moreover have "\<forall>a \<in> set (nodes l ?as). \<exists>v. cell h' a = Inr v" using i'(3) by (auto simp: nn h(3))
  ultimately have "ll_inv (l, h') ?as" using h(4,5) i'(5) fresh sub by (auto simp: ll_inv_def nn dd)
  moreover have "data_of h' ` set ?as = insert x (data_of h ` set as)"
    using fresh sub s(1) by (auto simp: dd image_iff)
  moreover have "\<exists>n. cell h' (ll_head l) = Inr (v\<lparr>nd_next := n\<rparr>)" if v: "cell h (ll_head l) = Inr v" for v
  proof (cases "ll_head l = p")
    case True
    then show ?thesis using v h(2,3) by auto
  next
    case False
    then show ?thesis using v h(3) fresh sub by (intro exI [of _ "nd_next v"]) auto
  qed
  ultimately show thesis using that h(1) by blast
qed

lemma ll_inv_unlink:
  assumes i: "ll_inv (l, h) as" and x: "x \<in> data_of h ` set as" and c0: "follow h (ll_head l) = Inr c0"
    and f: "find_loop (length h) h (ll_tail l) x (ll_head l) c0 = Inr (b, p, c)"
  obtains h' as' where "unlink_node p c h = Inr h'" "ll_inv (l, h') as'"
    "data_of h' ` set as' = data_of h ` set as - {x}"
    "\<And>v. cell h (ll_head l) = Inr v \<Longrightarrow> \<exists>n. cell h' (ll_head l) = Inr (v\<lparr>nd_next := n\<rparr>)"
proof -
  obtain xs ys us vs where s: "as = xs @ ys" "\<forall>a \<in> set xs. data_of h a < x" "\<forall>a \<in> set ys. x \<le> data_of h a"
    and y: "x \<in> data_of h ` set as \<longleftrightarrow> ys \<noteq> [] \<and> data_of h (hd ys) = x"
    and n: "nodes l as = us @ p # c # vs" "us @ [p] = ll_head l # xs" "c # vs = ys @ [ll_tail l]"
    by (rule ll_inv_found [OF i c0 f])
  obtain zs where z: "ys = c # zs" "data_of h c = x" using y x n(3) by (cases ys) auto
  obtain e ws where e: "vs = e # ws" "e # ws = zs @ [ll_tail l]" using n(3) z(1) by (cases vs) auto
  have i': "linked h (us @ p # c # e # ws)" "distinct (us @ p # c # e # ws)"
    "\<forall>a \<in> set (us @ p # c # e # ws). \<exists>v. cell h a = Inr v"
    "sorted_wrt (<) (map (data_of h) as)" "data_of h (ll_head l) = 0"
    using i n(1) e(1) by (simp_all add: ll_inv_def)
  obtain h' w where h: "unlink_node p c h = Inr h'" "cell h p = Inr w"
    "\<forall>a. cell h' a = (if a = c then Inl BadPtr else if a = p then Inr (w\<lparr>nd_next := Some e\<rparr>) else cell h a)"
    "linked h' (us @ p # e # ws)"
    by (rule unlink_node_links [OF i'(1-3)])
  let ?as = "xs @ zs"
  have "nodes l ?as = (us @ [p]) @ e # ws" by (simp only: n(2) e(2)) (simp add: nodes_def)
  then have nn: "nodes l ?as = us @ p # e # ws" by simp
  have notin: "c \<notin> set (nodes l ?as)" using i'(2) by (auto simp: nn)
  have dd: "data_of h' a = data_of h a" if "a \<noteq> c" for a
    using h(2) that by (auto simp: data_of_def h(3))
  have sub: "set ?as \<subseteq> set (nodes l ?as)" "ll_head l \<in> set (nodes l ?as)" by (auto simp: nodes_def)
  have m: "map (data_of h') ?as = map (data_of h) ?as" using notin sub by (intro map_cong refl dd) auto
  have "sorted_wrt (<) (map (data_of h') ?as)" using i'(4) s(1) z unfolding m by (simp add: sorted_wrt_append)
  moreover have "\<forall>a \<in> set (nodes l ?as). \<exists>v. cell h' a = Inr v" using i'(3) notin by (auto simp: nn h(3))
  moreover have "data_of h' (ll_head l) = 0" using i'(5) notin sub(2) dd by metis
  ultimately have "ll_inv (l, h') ?as" using h(4) i'(2) by (simp add: ll_inv_def nn)
  moreover have "data_of h' ` set ?as = data_of h ` set as - {x}"
  proof -
    have "data_of h' ` set ?as = data_of h ` set ?as" using notin sub by (intro image_cong refl dd) auto
    moreover have "x \<notin> data_of h ` set ?as"
      using s(2) i'(4) z(2) by (auto simp: s(1) z(1) sorted_wrt_append)
    ultimately show ?thesis using z(2) by (auto simp: s(1) z(1))
  qed
  moreover have "\<exists>n. cell h' (ll_head l) = Inr (v\<lparr>nd_next := n\<rparr>)" if v: "cell h (ll_head l) = Inr v" for v
  proof (cases "ll_head l = p")
    case True
    then show ?thesis using v h(2,3) i'(2) by auto
  next
    case False
    then show ?thesis using v h(3) notin sub by (intro exI [of _ "nd_next v"]) auto
  qed
  ultimately show thesis using that h(1) by blast
qed

section \<open>The contract of a set\<close>

text \<open>
  A call of one of the three operations, and its effect on the set that the list stands for; \<open>ok\<close> says which values
  the list accepts. A sequence of calls, of one thread or of several that take turns, gives the results of the set.
\<close>

datatype set_op = OpAdd u64 | OpRemove u64 | OpContains u64

fun set_spec :: "(u64 \<Rightarrow> bool) \<Rightarrow> set_op \<Rightarrow> u64 set \<Rightarrow> bool \<times> u64 set" where
  "set_spec ok (OpAdd x) S = (if ok x then (x \<notin> S, insert x S) else (False, S))"
| "set_spec ok (OpRemove x) S = (x \<in> S, S - {x})"
| "set_spec ok (OpContains x) S = (x \<in> S, S)"

fun run_spec :: "(u64 \<Rightarrow> bool) \<Rightarrow> set_op list \<Rightarrow> u64 set \<Rightarrow> bool list \<times> u64 set" where
  "run_spec ok [] S = ([], S)"
| "run_spec ok (q # qs) S = (let (r, S1) = set_spec ok q S; (rs, S2) = run_spec ok qs S1 in (r # rs, S2))"

fun run_ops :: "('q \<Rightarrow> 's \<Rightarrow> (bool \<times> 's) res) \<Rightarrow> 'q list \<Rightarrow> 's \<Rightarrow> (bool list \<times> 's) res" where
  "run_ops f [] s = Inr ([], s)"
| "run_ops f (q # qs) s = bindR (f q s) (\<lambda>(r, s1). bindR (run_ops f qs s1) (\<lambda>(rs, s2). Inr (r # rs, s2)))"

locale set_object =
  fixes call :: "'q \<Rightarrow> 's \<Rightarrow> (bool \<times> 's) res"
    and op_of :: "'q \<Rightarrow> set_op"
    and represents :: "'s \<Rightarrow> u64 set \<Rightarrow> bool"
    and ok :: "u64 \<Rightarrow> bool"
  assumes call_spec: "represents s S \<Longrightarrow>
    \<exists>s'. call q s = Inr (fst (set_spec ok (op_of q) S), s') \<and> represents s' (snd (set_spec ok (op_of q) S))"
begin

lemma run_refines:
  "represents s S \<Longrightarrow>
     \<exists>s'. run_ops call qs s = Inr (fst (run_spec ok (map op_of qs) S), s') \<and> represents s' (snd (run_spec ok (map op_of qs) S))"
proof (induction qs arbitrary: s S)
  case Nil
  then show ?case by simp
next
  case (Cons q qs)
  obtain s1 where 1: "call q s = Inr (fst (set_spec ok (op_of q) S), s1)" "represents s1 (snd (set_spec ok (op_of q) S))"
    using call_spec [OF Cons.prems] by blast
  from Cons.IH [OF 1(2)] 1(1) show ?case by (auto split: prod.splits)
qed

end

section \<open>The plain list is a set\<close>

definition ll_call :: "set_op \<Rightarrow> unit ll_state \<Rightarrow> (bool \<times> unit ll_state) res" where
  "ll_call q s = (case q of OpAdd x \<Rightarrow> ll_add x s | OpRemove x \<Rightarrow> ll_remove x s
     | OpContains x \<Rightarrow> bindR (ll_contains x s) (\<lambda>b. Inr (b, s)))"

definition ll_represents :: "'a ll_state \<Rightarrow> u64 set \<Rightarrow> bool" where
  "ll_represents s S \<longleftrightarrow> (\<exists>as. ll_inv s as \<and> S = data_of (snd s) ` set as)"

lemma ll_invD:
  assumes "ll_inv (l, h) as"
  obtains v where "cell h (ll_head l) = Inr v" "nd_data v = 0"
  using assms by (auto simp: ll_inv_def nodes_def data_of_cell)

lemma ll_contains_spec:
  assumes "ll_inv (l, h) as"
  shows "ll_contains x (l, h) = Inr (x \<in> data_of h ` set as)"
    "follow h (ll_head l) = Inr c0 \<Longrightarrow> contains_loop (length h) h (ll_tail l) x c0 = Inr (x \<in> data_of h ` set as)"
  by (rule ll_inv_find [OF assms, of x];
    simp add: ll_contains_def contains_loop_find [where p = "ll_head l"])+

lemma ll_add_spec:
  assumes i: "ll_inv (l, h) as" and z: "0 \<notin> data_of h ` set as"
  shows "\<exists>s' as'. ll_add x (l, h) = Inr (x \<noteq> 0 \<and> x \<notin> data_of h ` set as, s') \<and> ll_inv s' as' \<and>
    data_of (snd s') ` set as' = (if x = 0 then data_of h ` set as else insert x (data_of h ` set as))"
proof -
  obtain v where v: "cell h (ll_head l) = Inr v" "nd_data v = 0" by (rule ll_invD [OF i])
  obtain c0 p c where f: "follow h (ll_head l) = Inr c0"
    "find_loop (length h) h (ll_tail l) x (ll_head l) c0 = Inr (x \<in> data_of h ` set as, p, c)"
    by (rule ll_inv_find [OF i, of x]) metis
  show ?thesis
  proof (cases "x = 0 \<or> x \<in> data_of h ` set as")
    case True
    have "ll_add x (l, h) = Inr (False, l, h)" using True v f by (auto simp: ll_add_def)
    then show ?thesis using True i by (intro exI [of _ "(l, h)"] exI [of _ as]) auto
  next
    case False
    obtain h' as' where h: "insert_node () x p c h = Inr h'" "ll_inv (l, h') as'"
      "data_of h' ` set as' = insert x (data_of h ` set as)"
      using ll_inv_insert [OF i _ f] False by metis
    have "ll_add x (l, h) = Inr (True, l, h')" using False v f h(1) by (simp add: ll_add_def)
    then show ?thesis using False h(2,3) by (intro exI [of _ "(l, h')"] exI [of _ as']) simp
  qed
qed

lemma ll_remove_spec:
  assumes i: "ll_inv (l, h) as" and z: "0 \<notin> data_of h ` set as"
  shows "\<exists>s' as'. ll_remove x (l, h) = Inr (x \<in> data_of h ` set as, s') \<and> ll_inv s' as' \<and>
    data_of (snd s') ` set as' = data_of h ` set as - {x}"
proof -
  obtain v where v: "cell h (ll_head l) = Inr v" "nd_data v = 0" by (rule ll_invD [OF i])
  obtain c0 p c where f: "follow h (ll_head l) = Inr c0"
    "find_loop (length h) h (ll_tail l) x (ll_head l) c0 = Inr (x \<in> data_of h ` set as, p, c)"
    by (rule ll_inv_find [OF i, of x]) metis
  show ?thesis
  proof (cases "x \<in> data_of h ` set as")
    case True
    obtain h' as' where h: "unlink_node p c h = Inr h'" "ll_inv (l, h') as'"
      "data_of h' ` set as' = data_of h ` set as - {x}"
      using ll_inv_unlink [OF i True f] by metis
    have "x \<noteq> 0" using True z by metis
    then have "ll_remove x (l, h) = Inr (True, l, h')" using True v f h(1) by (simp add: ll_remove_def)
    then show ?thesis using True h(2,3) by (intro exI [of _ "(l, h')"] exI [of _ as']) simp
  next
    case False
    have "ll_remove x (l, h) = Inr (False, l, h)" using False v f by (simp add: ll_remove_def)
    then show ?thesis using False i by (intro exI [of _ "(l, h)"] exI [of _ as]) auto
  qed
qed

interpretation ll: set_object ll_call "\<lambda>q. q" "\<lambda>s S. ll_represents s S \<and> 0 \<notin> S" "\<lambda>x. x \<noteq> 0"
proof unfold_locales
  fix s :: "unit ll_state" and S q
  assume a: "ll_represents s S \<and> 0 \<notin> S"
  obtain l h where s: "s = (l, h)" by (cases s)
  obtain as where i: "ll_inv (l, h) as" "S = data_of h ` set as" using a s by (auto simp: ll_represents_def)
  have z: "0 \<notin> data_of h ` set as" using a i by simp
  show "\<exists>s'. ll_call q s = Inr (fst (set_spec (\<lambda>x. x \<noteq> 0) q S), s') \<and>
      ll_represents s' (snd (set_spec (\<lambda>x. x \<noteq> 0) q S)) \<and> 0 \<notin> snd (set_spec (\<lambda>x. x \<noteq> 0) q S)"
  proof (cases q)
    case (OpAdd x)
    from ll_add_spec [OF i(1) z, of x] obtain s' as' where
      "ll_add x (l, h) = Inr (x \<noteq> 0 \<and> x \<notin> data_of h ` set as, s')" "ll_inv s' as'"
      "data_of (snd s') ` set as' = (if x = 0 then data_of h ` set as else insert x (data_of h ` set as))"
      by (elim exE conjE) (rule that)
    then show ?thesis using a unfolding OpAdd s i(2) ll_call_def ll_represents_def
      by (intro exI [of _ s']) (auto intro!: exI [of _ as'])
  next
    case (OpRemove x)
    from ll_remove_spec [OF i(1) z, of x] obtain s' as' where
      "ll_remove x (l, h) = Inr (x \<in> data_of h ` set as, s')" "ll_inv s' as'"
      "data_of (snd s') ` set as' = data_of h ` set as - {x}"
      by (elim exE conjE) (rule that)
    then show ?thesis using a unfolding OpRemove s i(2) ll_call_def ll_represents_def
      by (intro exI [of _ s']) (auto intro!: exI [of _ as'])
  next
    case (OpContains x)
    then show ?thesis using a i ll_contains_spec(1) [OF i(1), of x] by (auto simp: s ll_call_def)
  qed
qed

lemma LinkedList_inv: "ll_inv (LinkedList_with m1 m2 h) []"
proof -
  let ?v = "\<lparr>nd_data = 0, nd_next = None, \<dots> = m1\<rparr>" and ?w = "\<lparr>nd_data = UINT32_MAX, nd_next = None, \<dots> = m2\<rparr>"
  have "cell ((h @ [Some ?v]) @ [Some ?w]) (length h) = Inr ?v" by (simp add: cell_def nth_append)
  note c = cell_set [OF this, of "?v\<lparr>nd_next := Some (Suc (length h))\<rparr>"]
  have t: "cell (h @ [Some ?v, Some ?w]) (Suc (length h)) = Inr ?w" by (simp add: cell_def nth_append)
  show ?thesis using c t
    by (simp add: LinkedList_with_def new_cell_def ll_inv_def nodes_def linked_def follow_def data_of_def)
qed

lemma LinkedList_represents [simp]: "ll_represents (LinkedList_with m1 m2 h) {}"
  using LinkedList_inv [of m1 m2 h] by (auto simp: ll_represents_def)

section \<open>The list with one lock is a set\<close>

definition co_call :: "nat \<times> set_op \<Rightarrow> lk_state \<Rightarrow> (bool \<times> lk_state) res" where
  "co_call iq s = (case iq of (i, q) \<Rightarrow> case q of OpAdd x \<Rightarrow> co_add i x s | OpRemove x \<Rightarrow> co_remove i x s | OpContains x \<Rightarrow> co_contains i x s)"

definition head_lock :: "lk_state \<Rightarrow> mutex res" where
  "head_lock s = (case s of (l, h) \<Rightarrow> bindR (cell h (ll_head l)) (\<lambda>v. Inr (nd_lock v)))"

lemma set_lock_shape:
  assumes "cell h a = Inr v"
  shows "follow (set_cell h a (v\<lparr>nd_lock := m\<rparr>)) = follow h" "data_of (set_cell h a (v\<lparr>nd_lock := m\<rparr>)) = data_of h"
  using assms by (auto simp: fun_eq_iff follow_def data_of_def cell_set [OF assms])

lemma set_lock_inv:
  assumes "cell h a = Inr v"
  shows "ll_inv (l, set_cell h a (v\<lparr>nd_lock := m\<rparr>)) as = ll_inv (l, h) as"
proof -
  have "(\<exists>w. cell (set_cell h a (v\<lparr>nd_lock := m\<rparr>)) b = Inr w) = (\<exists>w. cell h b = Inr w)" for b
    using assms by (auto simp: cell_set [OF assms])
  then show ?thesis by (simp add: ll_inv_def linked_def set_lock_shape [OF assms])
qed

lemma mutex_lock_free:
  assumes "ll_inv (l, h) as" "head_lock (l, h) = Inr Unlocked"
  obtains h1 where "mutex_lock i (ll_head l) h = Inr h1" "ll_inv (l, h1) as" "data_of h1 = data_of h"
    "head_lock (l, h1) = Inr (LockedBy i)"
proof -
  obtain v where v: "cell h (ll_head l) = Inr v" by (rule ll_invD [OF assms(1)])
  show thesis
    by (rule that [of "set_cell h (ll_head l) (v\<lparr>nd_lock := LockedBy i\<rparr>)"])
      (use assms v in \<open>simp_all add: mutex_lock_def head_lock_def set_lock_inv set_lock_shape cell_set\<close>)
qed

lemma mutex_unlock_held:
  assumes "ll_inv (l, h) as" "head_lock (l, h) = Inr (LockedBy i)"
  obtains h1 where "mutex_unlock i (ll_head l) h = Inr h1" "ll_inv (l, h1) as" "data_of h1 = data_of h"
    "head_lock (l, h1) = Inr Unlocked"
proof -
  obtain v where v: "cell h (ll_head l) = Inr v" by (rule ll_invD [OF assms(1)])
  show thesis
    by (rule that [of "set_cell h (ll_head l) (v\<lparr>nd_lock := Unlocked\<rparr>)"])
      (use assms v in \<open>simp_all add: mutex_unlock_def head_lock_def set_lock_inv set_lock_shape cell_set\<close>)
qed

lemma head_lock_next:
  assumes "ll_inv (l, h) as" "\<And>v. cell h (ll_head l) = Inr v \<Longrightarrow> \<exists>n. cell h' (ll_head l) = Inr (v\<lparr>nd_next := n\<rparr>)"
  shows "head_lock (l, h') = head_lock (l, h)"
proof -
  obtain v where v: "cell h (ll_head l) = Inr v" by (rule ll_invD [OF assms(1)])
  then obtain n where "cell h' (ll_head l) = Inr (v\<lparr>nd_next := n\<rparr>)" using assms(2) by blast
  then show ?thesis using v by (simp add: head_lock_def)
qed

text \<open>What holds while an operation has the lock.\<close>

lemma co_found:
  assumes "ll_inv (l, h) as" "head_lock (l, h) = Inr Unlocked"
  obtains h1 c0 p c where "mutex_lock i (ll_head l) h = Inr h1" "ll_inv (l, h1) as" "data_of h1 = data_of h"
    "head_lock (l, h1) = Inr (LockedBy i)" "follow h1 (ll_head l) = Inr c0"
    "find_loop (length h1) h1 (ll_tail l) x (ll_head l) c0 = Inr (x \<in> data_of h ` set as, p, c)"
proof -
  obtain h1 where h1: "mutex_lock i (ll_head l) h = Inr h1" "ll_inv (l, h1) as" "data_of h1 = data_of h"
    "head_lock (l, h1) = Inr (LockedBy i)" by (rule mutex_lock_free [OF assms])
  show thesis by (rule ll_inv_find [OF h1(2), of x]) (use that [OF h1] h1(3) in simp)
qed

lemma co_add_spec:
  assumes "ll_inv (l, h) as" "head_lock (l, h) = Inr Unlocked"
  shows "\<exists>h' as'. co_add i x (l, h) = Inr (x \<notin> data_of h ` set as, l, h') \<and> ll_inv (l, h') as' \<and>
    data_of h' ` set as' = insert x (data_of h ` set as) \<and> head_lock (l, h') = Inr Unlocked"
proof -
  obtain h1 c0 p c where 1: "mutex_lock i (ll_head l) h = Inr h1" "ll_inv (l, h1) as" "data_of h1 = data_of h"
    "head_lock (l, h1) = Inr (LockedBy i)" "follow h1 (ll_head l) = Inr c0"
    "find_loop (length h1) h1 (ll_tail l) x (ll_head l) c0 = Inr (x \<in> data_of h ` set as, p, c)"
    by (rule co_found [OF assms])
  show ?thesis
  proof (cases "x \<in> data_of h ` set as")
    case True
    obtain h2 where h2: "mutex_unlock i (ll_head l) h1 = Inr h2" "ll_inv (l, h2) as" "data_of h2 = data_of h1"
      "head_lock (l, h2) = Inr Unlocked" by (rule mutex_unlock_held [OF 1(2,4)])
    show ?thesis using True 1 h2 by (intro exI [of _ h2] exI [of _ as]) (simp add: co_add_def insert_absorb)
  next
    case False
    then have nin: "x \<notin> data_of h1 ` set as" using 1(3) by simp
    obtain h2 as2 where h2: "insert_node (lnode.fields Uninit) x p c h1 = Inr h2" "ll_inv (l, h2) as2"
      "data_of h2 ` set as2 = insert x (data_of h1 ` set as)"
      "\<And>v. cell h1 (ll_head l) = Inr v \<Longrightarrow> \<exists>n. cell h2 (ll_head l) = Inr (v\<lparr>nd_next := n\<rparr>)"
      by (rule ll_inv_insert [OF 1(2) nin 1(5,6)]) blast
    have "head_lock (l, h2) = Inr (LockedBy i)" using head_lock_next [OF 1(2) h2(4)] 1(4) by simp
    then obtain h3 where "mutex_unlock i (ll_head l) h2 = Inr h3" "ll_inv (l, h3) as2" "data_of h3 = data_of h2"
      "head_lock (l, h3) = Inr Unlocked" by (rule mutex_unlock_held [OF h2(2)])
    then show ?thesis using False 1 h2(1,3) by (intro exI [of _ h3] exI [of _ as2]) (simp add: co_add_def)
  qed
qed

lemma co_remove_spec:
  assumes "ll_inv (l, h) as" "head_lock (l, h) = Inr Unlocked"
  shows "\<exists>h' as'. co_remove i x (l, h) = Inr (x \<in> data_of h ` set as, l, h') \<and> ll_inv (l, h') as' \<and>
    data_of h' ` set as' = data_of h ` set as - {x} \<and> head_lock (l, h') = Inr Unlocked"
proof -
  obtain h1 c0 p c where 1: "mutex_lock i (ll_head l) h = Inr h1" "ll_inv (l, h1) as" "data_of h1 = data_of h"
    "head_lock (l, h1) = Inr (LockedBy i)" "follow h1 (ll_head l) = Inr c0"
    "find_loop (length h1) h1 (ll_tail l) x (ll_head l) c0 = Inr (x \<in> data_of h ` set as, p, c)"
    by (rule co_found [OF assms])
  show ?thesis
  proof (cases "x \<in> data_of h ` set as")
    case False
    obtain h2 where h2: "mutex_unlock i (ll_head l) h1 = Inr h2" "ll_inv (l, h2) as" "data_of h2 = data_of h1"
      "head_lock (l, h2) = Inr Unlocked" by (rule mutex_unlock_held [OF 1(2,4)])
    show ?thesis using False 1 h2 by (intro exI [of _ h2] exI [of _ as]) (simp add: co_remove_def)
  next
    case True
    then have inl: "x \<in> data_of h1 ` set as" using 1(3) by simp
    obtain h2 as2 where h2: "unlink_node p c h1 = Inr h2" "ll_inv (l, h2) as2"
      "data_of h2 ` set as2 = data_of h1 ` set as - {x}"
      "\<And>v. cell h1 (ll_head l) = Inr v \<Longrightarrow> \<exists>n. cell h2 (ll_head l) = Inr (v\<lparr>nd_next := n\<rparr>)"
      by (rule ll_inv_unlink [OF 1(2) inl 1(5,6)]) blast
    have "head_lock (l, h2) = Inr (LockedBy i)" using head_lock_next [OF 1(2) h2(4)] 1(4) by simp
    then obtain h3 where "mutex_unlock i (ll_head l) h2 = Inr h3" "ll_inv (l, h3) as2" "data_of h3 = data_of h2"
      "head_lock (l, h3) = Inr Unlocked" by (rule mutex_unlock_held [OF h2(2)])
    then show ?thesis using True 1 h2(1,3) by (intro exI [of _ h3] exI [of _ as2]) (simp add: co_remove_def)
  qed
qed

lemma co_contains_spec:
  assumes "ll_inv (l, h) as" "head_lock (l, h) = Inr Unlocked"
  shows "\<exists>h'. co_contains i x (l, h) = Inr (x \<in> data_of h ` set as, l, h') \<and> ll_inv (l, h') as \<and>
    data_of h' = data_of h \<and> head_lock (l, h') = Inr Unlocked"
proof -
  obtain h1 c0 p c where 1: "mutex_lock i (ll_head l) h = Inr h1" "ll_inv (l, h1) as" "data_of h1 = data_of h"
    "head_lock (l, h1) = Inr (LockedBy i)" "follow h1 (ll_head l) = Inr c0"
    "find_loop (length h1) h1 (ll_tail l) x (ll_head l) c0 = Inr (x \<in> data_of h ` set as, p, c)"
    by (rule co_found [OF assms])
  obtain h2 where "mutex_unlock i (ll_head l) h1 = Inr h2" "ll_inv (l, h2) as" "data_of h2 = data_of h1"
    "head_lock (l, h2) = Inr Unlocked" by (rule mutex_unlock_held [OF 1(2,4)])
  then show ?thesis using 1 ll_contains_spec(2) [OF 1(2,5), of x] by (intro exI [of _ h2]) (simp add: co_contains_def)
qed

interpretation co: set_object co_call snd "\<lambda>s S. ll_represents s S \<and> head_lock s = Inr Unlocked" "\<lambda>x. True"
proof unfold_locales
  fix s :: lk_state and S and iq :: "nat \<times> set_op"
  assume a: "ll_represents s S \<and> head_lock s = Inr Unlocked"
  obtain l h where s: "s = (l, h)" by (cases s)
  obtain as where i: "ll_inv (l, h) as" "S = data_of h ` set as" using a s by (auto simp: ll_represents_def)
  have u: "head_lock (l, h) = Inr Unlocked" using a s by simp
  obtain t q where iq: "iq = (t, q)" by (cases iq)
  show "\<exists>s'. co_call iq s = Inr (fst (set_spec (\<lambda>x. True) (snd iq) S), s') \<and>
      ll_represents s' (snd (set_spec (\<lambda>x. True) (snd iq) S)) \<and> head_lock s' = Inr Unlocked"
  proof (cases q)
    case (OpAdd x)
    from co_add_spec [OF i(1) u, of t x] obtain h' as' where
      "co_add t x (l, h) = Inr (x \<notin> data_of h ` set as, l, h')" "ll_inv (l, h') as'"
      "data_of h' ` set as' = insert x (data_of h ` set as)" "head_lock (l, h') = Inr Unlocked"
      by (elim exE conjE) (rule that)
    then show ?thesis unfolding iq OpAdd s i(2) co_call_def ll_represents_def
      by (intro exI [of _ "(l, h')"]) (auto intro!: exI [of _ as'])
  next
    case (OpRemove x)
    from co_remove_spec [OF i(1) u, of t x] obtain h' as' where
      "co_remove t x (l, h) = Inr (x \<in> data_of h ` set as, l, h')" "ll_inv (l, h') as'"
      "data_of h' ` set as' = data_of h ` set as - {x}" "head_lock (l, h') = Inr Unlocked"
      by (elim exE conjE) (rule that)
    then show ?thesis unfolding iq OpRemove s i(2) co_call_def ll_represents_def
      by (intro exI [of _ "(l, h')"]) (auto intro!: exI [of _ as'])
  next
    case (OpContains x)
    from co_contains_spec [OF i(1) u, of t x] obtain h' where
      "co_contains t x (l, h) = Inr (x \<in> data_of h ` set as, l, h')" "ll_inv (l, h') as"
      "data_of h' = data_of h" "head_lock (l, h') = Inr Unlocked"
      by (elim exE conjE) (rule that)
    then show ?thesis unfolding iq OpContains s i(2) co_call_def ll_represents_def
      by (intro exI [of _ "(l, h')"]) (auto intro!: exI [of _ as])
  qed
qed

section \<open>Printing and destruction\<close>

lemma print_loop_values:
  assumes "linked h (bs @ [t])" "t \<notin> set bs" "length bs \<le> n"
  shows "print_loop n h t (hd (bs @ [t])) = Inr (map (data_of h) bs)"
  using assms
proof (induction bs arbitrary: n)
  case Nil
  then show ?case by (simp add: print_loop.simps)
next
  case (Cons b bs)
  obtain v where v: "cell h b = Inr v" "follow h b = Inr (hd (bs @ [t]))"
    using Cons.prems(1) by (cases bs) (auto simp: linked_Cons2 follow_cell)
  obtain m where m: "n = Suc m" using Cons.prems(3) by (cases n) auto
  have "linked h (bs @ [t])" using Cons.prems(1) by (cases bs) (simp_all add: linked_Cons2)
  then have "print_loop m h t (hd (bs @ [t])) = Inr (map (data_of h) bs)" using Cons m by simp
  then show ?case using v m Cons.prems(2) by (subst print_loop.simps) (auto simp: data_of_cell)
qed

lemma ll_print_sorted:
  assumes "ll_represents s S"
  shows "ll_print s = Inr (sorted_list_of_set S, S = {})"
proof -
  obtain l h where s: "s = (l, h)" by (cases s)
  obtain as where i: "ll_inv (l, h) as" "S = data_of h ` set as" using assms s by (auto simp: ll_represents_def)
  have i': "linked h (ll_head l # as @ [ll_tail l])" "distinct (ll_head l # as @ [ll_tail l])"
    "\<forall>a \<in> set (ll_head l # as @ [ll_tail l]). \<exists>v. cell h a = Inr v" "sorted_wrt (<) (map (data_of h) as)"
    using i(1) by (simp_all add: ll_inv_def nodes_def)
  have n: "length as \<le> length h" using i'(2,3) distinct_cells [of as h] by simp
  have l: "follow h (ll_head l) = Inr (hd (as @ [ll_tail l]))" "linked h (as @ [ll_tail l])"
    using i'(1) by (cases as; simp add: linked_Cons2)+
  have "print_loop (length h) h (ll_tail l) (hd (as @ [ll_tail l])) = Inr (map (data_of h) as)"
    using print_loop_values [OF l(2) _ n] i'(2) by simp
  moreover have "sorted_list_of_set S = map (data_of h) as"
    using i'(4) i(2) by (metis set_map sorted_list_of_set.idem_if_sorted_distinct strict_sorted_iff)
  moreover have "(hd (as @ [ll_tail l]) = ll_tail l) = (S = {})" using i'(2) i(2) by (cases as) auto
  ultimately show ?thesis using l(1) by (simp add: s ll_print_def)
qed

lemma destroy_loop_frees:
  assumes "linked h (a # bs @ [t])" "distinct (a # bs @ [t])" "length bs \<le> n"
  shows "destroy_loop n t a h = Inr (last (a # bs), fold (\<lambda>b g. free_cell g b) (butlast (a # bs)) h)"
  using assms
proof (induction bs arbitrary: a n h)
  case Nil
  then show ?case by (simp add: destroy_loop.simps linked_def)
next
  case (Cons b bs)
  obtain m where m: "n = Suc m" using Cons.prems(3) by (cases n) auto
  have f: "follow h a = Inr b" "linked h (b # bs @ [t])" using Cons.prems(1) by (simp_all add: linked_Cons2)
  have "linked (free_cell h a) (b # bs @ [t])"
    using f(2) Cons.prems(2) by (subst linked_cong [of _ _ h]) (auto simp: follow_def cell_free butlast_append)
  then have "destroy_loop m t b (free_cell h a) =
      Inr (last (b # bs), fold (\<lambda>b g. free_cell g b) (butlast (b # bs)) (free_cell h a))"
    using Cons m by simp
  then show ?case using f(1) m Cons.prems(2) by (subst destroy_loop.simps) auto
qed

lemma cell_fold_free: "cell (fold (\<lambda>b g. free_cell g b) bs h) a = (if a \<in> set bs then Inl BadPtr else cell h a)"
  by (induction bs arbitrary: h) (auto simp: cell_free)

text \<open>The destructor of the plain list frees the nodes from the head on except the last one and the tail.\<close>

lemma destroy_leaks:
  assumes "ll_inv (l, h) as"
  obtains h' where "destroy (l, h) = Inr (l\<lparr>ll_head := last (ll_head l # as)\<rparr>, h')"
    "\<forall>a. cell h' a = (if a \<in> set (butlast (ll_head l # as)) then Inl BadPtr else cell h a)"
    "\<exists>v. cell h' (ll_tail l) = Inr v" "\<exists>v. cell h' (last (ll_head l # as)) = Inr v"
proof -
  let ?bs = "ll_head l # as"
  have i: "linked h (ll_head l # as @ [ll_tail l])" "distinct (ll_head l # as @ [ll_tail l])"
    "\<forall>a \<in> set (ll_head l # as @ [ll_tail l]). \<exists>v. cell h a = Inr v"
    using assms by (simp_all add: ll_inv_def nodes_def)
  have n: "length as \<le> length h" using i(2,3) distinct_cells [of as h] by simp
  note c = cell_fold_free [of "butlast ?bs" h]
  have "distinct ?bs" using i(2) by simp
  then have last: "last ?bs \<notin> set (butlast ?bs)" by (metis append_butlast_last_id distinct_butlast list.distinct(1) not_distinct_conv_prefix)
  have lin: "last ?bs \<in> set ?bs" by (rule last_in_set) simp
  have "ll_tail l \<notin> set ?bs" using i(2) by auto
  then have tail: "ll_tail l \<notin> set (butlast ?bs)" using in_set_butlastD by metis
  show thesis
  proof (rule that)
    show "destroy (l, h) = Inr (l\<lparr>ll_head := last ?bs\<rparr>, fold (\<lambda>b g. free_cell g b) (butlast ?bs) h)"
      using destroy_loop_frees [OF i(1,2) n] by (simp add: destroy_def)
    show "\<exists>v. cell (fold (\<lambda>b g. free_cell g b) (butlast ?bs) h) (ll_tail l) = Inr v" using i(3) tail unfolding c by simp
    show "\<exists>v. cell (fold (\<lambda>b g. free_cell g b) (butlast ?bs) h) (last ?bs) = Inr v" using i(3) last lin unfolding c by simp
  qed (use c in blast)
qed

text \<open>The destructor of the list with one lock unlocks a mutex that nobody holds.\<close>

lemma co_destroy_undefined:
  assumes "head_lock s = Inr Unlocked"
  shows "co_destroy i s = Inl (Panic ''unlock of a mutex that is not held'')"
  using assms by (cases s) (auto simp: head_lock_def co_destroy_def mutex_unlock_def bindR_eq_Inr)

section \<open>Properties\<close>

text \<open>C37: Whatever calls are made on a new sorted list, each returns what it returns on a set of numbers that
  refuses zero, no call follows a null or freed pointer or runs in a circle, and the list then prints its set in ascending order.\<close>

theorem list_implements_set:
  "\<exists>s. run_ops ll_call qs (LinkedList h) = Inr (fst (run_spec (\<lambda>x. x \<noteq> 0) qs {}), s) \<and>
     ll_print s = Inr (sorted_list_of_set (snd (run_spec (\<lambda>x. x \<noteq> 0) qs {})), snd (run_spec (\<lambda>x. x \<noteq> 0) qs {}) = {})"
proof -
  have "ll_represents (LinkedList h) {} \<and> (0 :: u64) \<notin> {}" by (simp add: LinkedList_def)
  from ll.run_refines [OF this, of qs] ll_print_sorted show ?thesis by fastforce
qed

text \<open>On the list with one lock, calls of any threads in any order, one after the other, return what they
  return on a set of numbers; each releases the lock on every path, so that none waits for ever, and the list prints its set in
  ascending order.\<close>

theorem coarse_list_implements_set:
  "\<exists>s. run_ops co_call iqs (CoarseLinkedList h) = Inr (fst (run_spec (\<lambda>x. True) (map snd iqs) {}), s) \<and>
     head_lock s = Inr Unlocked \<and>
     ll_print s = Inr (sorted_list_of_set (snd (run_spec (\<lambda>x. True) (map snd iqs) {})), snd (run_spec (\<lambda>x. True) (map snd iqs) {}) = {})"
proof -
  have "head_lock (CoarseLinkedList h) = Inr Unlocked"
    by (simp add: CoarseLinkedList_def LinkedList_with_def new_cell_def head_lock_def cell_def set_cell_def lnode.defs)
  then have "ll_represents (CoarseLinkedList h) {} \<and> head_lock (CoarseLinkedList h) = Inr Unlocked"
    by (simp add: CoarseLinkedList_def)
  from co.run_refines [OF this, of iqs] ll_print_sorted show ?thesis by fastforce
qed

end
