(* ===== verification/FGLockList.thy ===== *)
theory FGLockList
  imports LinkedList
begin

text \<open>
  The sorted list with one lock per node (\<open>src/All_Summer2017/Jack/FGLockLinkedList.h\<close>), used by several threads at once.
  A thread's place in the code is a value of \<open>fg_pc\<close>; one step of a thread is one lock call or one access to
  shared nodes, and the threads' steps interleave in any order. The specification is a set on which each call takes
  effect in one step between its invocation and its return.
\<close>

section \<open>The code of a thread\<close>

text \<open>
  The places in the code with the local variables \<open>pred\<close> and \<open>curr\<close>, each named after what the thread does next. \<open>FRelease\<close> is
  the release of \<open>pred\<close> that \<open>contains\<close> does before it looks at \<open>curr\<close>, \<open>FAdvance\<close> the one that \<open>add\<close> and \<open>remove\<close> do
  after it.
\<close>

datatype fg_pc =
    FIdle
  | FLockHead set_op
  | FReadNext set_op nat
  | FLockCurr set_op nat nat
  | FRelease set_op nat nat
  | FTest set_op nat nat
  | FAdvance set_op nat nat
  | FAlloc u64 nat nat
  | FLink u64 nat nat nat
  | FUnlink u64 nat nat
  | FUnlockRemoved nat nat
  | FDestroyRemoved nat nat
  | FDeleteRemoved nat nat
  | FUnlockPred bool nat nat
  | FUnlockCurr bool nat
  | FReturn bool

record fg_state =
  fg_list :: linked_list
  fg_heap :: "lnode cells"
  fg_pcs :: "fg_pc list"

text \<open>
  The constructor initialises the mutex of the first node twice and that of the second not at all; \<open>m\<close> is what the memory of
  that mutex happens to hold.
\<close>

definition FGLinkedList :: "mutex \<Rightarrow> lnode cells \<Rightarrow> lk_state" where
  "FGLinkedList m = LinkedList_with (lnode.fields Unlocked) (lnode.fields m)"

text \<open>A thread that finds a mutex held waits: it has no step.\<close>

definition lock_or_wait :: "nat \<Rightarrow> nat \<Rightarrow> fg_pc \<Rightarrow> lnode cells \<Rightarrow> (fg_pc \<times> lnode cells) option res" where
  "lock_or_wait i a pc h =
     (case mutex_lock i a h of
        Inr h' \<Rightarrow> Inr (Some (pc, h'))
      | Inl e \<Rightarrow> if e = Diverges then Inr None else Inl e)"

definition go :: "fg_pc \<Rightarrow> lnode cells res \<Rightarrow> (fg_pc \<times> lnode cells) option res" where
  "go pc r = bindR r (\<lambda>h. Inr (Some (pc, h)))"

fun op_value :: "set_op \<Rightarrow> u64" where
  "op_value (OpAdd x) = x"
| "op_value (OpRemove x) = x"
| "op_value (OpContains x) = x"

text \<open>The body of the loops: the test for the tail and the comparisons with the value at \<open>curr\<close>.\<close>

fun fg_test :: "linked_list \<Rightarrow> set_op \<Rightarrow> nat \<Rightarrow> nat \<Rightarrow> lnode cells \<Rightarrow> fg_pc res" where
  "fg_test l (OpContains x) p c h =
     (if c = ll_tail l then Inr (FUnlockCurr False c)
      else bindR (cell h c) (\<lambda>v.
        if x < nd_data v then Inr (FUnlockCurr False c)
        else if nd_data v = x then Inr (FUnlockCurr True c)
        else Inr (FReadNext (OpContains x) c)))"
| "fg_test l (OpAdd x) p c h =
     (if c = ll_tail l then Inr (FAlloc x p c)
      else bindR (cell h c) (\<lambda>v.
        if x < nd_data v then Inr (FAlloc x p c)
        else if x = nd_data v then Inr (FUnlockPred False p c)
        else Inr (FAdvance (OpAdd x) p c)))"
| "fg_test l (OpRemove x) p c h =
     (if c = ll_tail l then Inr (FUnlockPred False p c)
      else bindR (cell h c) (\<lambda>v.
        if x < nd_data v then Inr (FUnlockPred False p c)
        else if x = nd_data v then Inr (FUnlink x p c)
        else Inr (FAdvance (OpRemove x) p c)))"

fun fg_step :: "linked_list \<Rightarrow> nat \<Rightarrow> fg_pc \<Rightarrow> lnode cells \<Rightarrow> (fg_pc \<times> lnode cells) option res" where
  "fg_step l i FIdle h = Inr None"
| "fg_step l i (FLockHead q) h = lock_or_wait i (ll_head l) (FReadNext q (ll_head l)) h"
| "fg_step l i (FReadNext q p) h = bindR (follow h p) (\<lambda>c. Inr (Some (FLockCurr q p c, h)))"
| "fg_step l i (FLockCurr q p c) h =
     lock_or_wait i c (case q of OpContains _ \<Rightarrow> FRelease q p c | _ \<Rightarrow> FTest q p c) h"
| "fg_step l i (FRelease q p c) h = go (FTest q p c) (mutex_unlock i p h)"
| "fg_step l i (FTest q p c) h = bindR (fg_test l q p c h) (\<lambda>pc. Inr (Some (pc, h)))"
| "fg_step l i (FAdvance q p c) h = go (FReadNext q c) (mutex_unlock i p h)"
| "fg_step l i (FAlloc x p c) h =
     (let (n, h') = new_cell h \<lparr>nd_data = x, nd_next = Some c, nd_lock = Unlocked\<rparr> in Inr (Some (FLink x p c n, h')))"
| "fg_step l i (FLink x p c n) h = go (FUnlockPred True p c) (upd_cell h p (\<lambda>v. v\<lparr>nd_next := Some n\<rparr>))"
| "fg_step l i (FUnlink x p c) h =
     go (FUnlockRemoved p c) (bindR (cell h c) (\<lambda>v. upd_cell h p (\<lambda>w. w\<lparr>nd_next := nd_next v\<rparr>)))"
| "fg_step l i (FUnlockRemoved p c) h = go (FDestroyRemoved p c) (mutex_unlock i c h)"
| "fg_step l i (FDestroyRemoved p c) h = go (FDeleteRemoved p c) (mutex_destroy c h)"
| "fg_step l i (FDeleteRemoved p c) h = go (FUnlockCurr True p) (bindR (cell h c) (\<lambda>_. Inr (free_cell h c)))"
| "fg_step l i (FUnlockPred r p c) h = go (FUnlockCurr r c) (mutex_unlock i p h)"
| "fg_step l i (FUnlockCurr r c) h = go (FReturn r) (mutex_unlock i c h)"
| "fg_step l i (FReturn r) h = Inr None"

section \<open>Executions\<close>

datatype set_event = Call nat set_op | Ret nat bool

inductive fg_trans :: "fg_state \<Rightarrow> set_event option \<Rightarrow> fg_state \<Rightarrow> bool" where
  fg_call: "i < length (fg_pcs s) \<Longrightarrow> fg_pcs s ! i = FIdle \<Longrightarrow>
    fg_trans s (Some (Call i q)) (s\<lparr>fg_pcs := (fg_pcs s)[i := FLockHead q]\<rparr>)"
| fg_move: "i < length (fg_pcs s) \<Longrightarrow> fg_step (fg_list s) i (fg_pcs s ! i) (fg_heap s) = Inr (Some (pc, h)) \<Longrightarrow>
    fg_trans s None (s\<lparr>fg_pcs := (fg_pcs s)[i := pc], fg_heap := h\<rparr>)"
| fg_ret: "i < length (fg_pcs s) \<Longrightarrow> fg_pcs s ! i = FReturn r \<Longrightarrow>
    fg_trans s (Some (Ret i r)) (s\<lparr>fg_pcs := (fg_pcs s)[i := FIdle]\<rparr>)"

definition fg_init :: "nat \<Rightarrow> mutex \<Rightarrow> lnode cells \<Rightarrow> fg_state" where
  "fg_init n m h = (let (l, h') = FGLinkedList m h in \<lparr>fg_list = l, fg_heap = h', fg_pcs = replicate n FIdle\<rparr>)"

text \<open>The calls and returns that an execution shows, in their order.\<close>

inductive exec :: "('s \<Rightarrow> 'e option \<Rightarrow> 's \<Rightarrow> bool) \<Rightarrow> 's \<Rightarrow> 'e list \<Rightarrow> 's \<Rightarrow> bool" for T s where
  exec_refl: "exec T s [] s"
| exec_silent: "exec T s es s1 \<Longrightarrow> T s1 None s2 \<Longrightarrow> exec T s es s2"
| exec_event: "exec T s es s1 \<Longrightarrow> T s1 (Some e) s2 \<Longrightarrow> exec T s (es @ [e]) s2"

section \<open>The specification\<close>

text \<open>
  A set shared by threads: a thread is idle, has called an operation that has not taken effect, or waits for
  the return of one that has. The effect is one silent step.
\<close>

datatype call_state = NoCall | Pending set_op | Done bool

record set_state =
  ss_set :: "u64 set"
  ss_calls :: "call_state list"

inductive set_trans :: "set_state \<Rightarrow> set_event option \<Rightarrow> set_state \<Rightarrow> bool" where
  set_call: "i < length (ss_calls a) \<Longrightarrow> ss_calls a ! i = NoCall \<Longrightarrow>
    set_trans a (Some (Call i q)) (a\<lparr>ss_calls := (ss_calls a)[i := Pending q]\<rparr>)"
| set_effect: "i < length (ss_calls a) \<Longrightarrow> ss_calls a ! i = Pending q \<Longrightarrow> set_spec (\<lambda>x. True) q (ss_set a) = (r, S) \<Longrightarrow>
    set_trans a None (a\<lparr>ss_calls := (ss_calls a)[i := Done r], ss_set := S\<rparr>)"
| set_ret: "i < length (ss_calls a) \<Longrightarrow> ss_calls a ! i = Done r \<Longrightarrow>
    set_trans a (Some (Ret i r)) (a\<lparr>ss_calls := (ss_calls a)[i := NoCall]\<rparr>)"

definition set_init :: "nat \<Rightarrow> set_state" where
  "set_init n = \<lparr>ss_set = {}, ss_calls = replicate n NoCall\<rparr>"

locale simulation =
  fixes T :: "'c \<Rightarrow> 'e option \<Rightarrow> 'c \<Rightarrow> bool" and A :: "'a \<Rightarrow> 'e option \<Rightarrow> 'a \<Rightarrow> bool" and R :: "'c \<Rightarrow> 'a \<Rightarrow> bool"
  assumes sim: "R c a \<Longrightarrow> T c e c' \<Longrightarrow> \<exists>a'. (A a e a' \<or> e = None \<and> a' = a) \<and> R c' a'"
begin

lemma exec_simulates:
  assumes "exec T c es c'" "R c a"
  shows "\<exists>a'. exec A a es a' \<and> R c' a'"
  using assms
proof (induction rule: exec.induct)
  case exec_refl
  then show ?case by (blast intro: exec.exec_refl)
next
  case (exec_silent es s1 s2)
  then show ?case using sim by (metis exec.exec_silent)
next
  case (exec_event es s1 e s2)
  then obtain a1 where a1: "exec A a es a1" "R s1 a1" by blast
  from sim [OF a1(2) exec_event.hyps(2)] a1(1) show ?case by (metis exec.exec_event option.distinct(1))
qed

end

section \<open>The invariant\<close>

definition is_contains :: "set_op \<Rightarrow> bool" where
  "is_contains q \<longleftrightarrow> (case q of OpContains _ \<Rightarrow> True | _ \<Rightarrow> False)"

text \<open>
  The nodes whose mutex a thread holds, and the nodes that only it can reach: a new node before it is linked, and a removed
  one until it is deleted.
\<close>

fun held :: "fg_pc \<Rightarrow> nat set" where
  "held (FReadNext q p) = {p}"
| "held (FLockCurr q p c) = {p}"
| "held (FRelease q p c) = {p, c}"
| "held (FTest q p c) = (if is_contains q then {c} else {p, c})"
| "held (FAdvance q p c) = {p, c}"
| "held (FAlloc x p c) = {p, c}"
| "held (FLink x p c n) = {p, c}"
| "held (FUnlink x p c) = {p, c}"
| "held (FUnlockRemoved p c) = {p, c}"
| "held (FDestroyRemoved p c) = {p}"
| "held (FDeleteRemoved p c) = {p}"
| "held (FUnlockPred r p c) = {p, c}"
| "held (FUnlockCurr r c) = {c}"
| "held pc = {}"

fun own :: "fg_pc \<Rightarrow> nat set" where
  "own (FLink x p c n) = {n}"
| "own (FUnlockRemoved p c) = {c}"
| "own (FDestroyRemoved p c) = {c}"
| "own (FDeleteRemoved p c) = {c}"
| "own pc = {}"

definition locked_by :: "lnode cells \<Rightarrow> nat \<Rightarrow> mutex \<Rightarrow> bool" where
  "locked_by h a m \<longleftrightarrow> (\<exists>v. cell h a = Inr v \<and> nd_lock v = m)"

text \<open>What a thread knows at each place: \<open>pred\<close> stands before the value, and \<open>curr\<close> is the node after it.\<close>

definition before :: "linked_list \<Rightarrow> lnode cells \<Rightarrow> u64 \<Rightarrow> nat \<Rightarrow> bool" where
  "before l h x p \<longleftrightarrow> p = ll_head l \<or> p \<noteq> ll_tail l \<and> data_of h p < x"

definition neighbours :: "linked_list \<Rightarrow> lnode cells \<Rightarrow> u64 \<Rightarrow> nat \<Rightarrow> nat \<Rightarrow> bool" where
  "neighbours l h x p c \<longleftrightarrow> before l h x p \<and> follow h p = Inr c"

fun pc_local :: "linked_list \<Rightarrow> lnode cells \<Rightarrow> fg_pc \<Rightarrow> bool" where
  "pc_local l h (FReadNext q p) = before l h (op_value q) p"
| "pc_local l h (FLockCurr q p c) = neighbours l h (op_value q) p c"
| "pc_local l h (FRelease q p c) = (neighbours l h (op_value q) p c \<and> is_contains q)"
| "pc_local l h (FTest q p c) = (is_contains q \<or> neighbours l h (op_value q) p c)"
| "pc_local l h (FAdvance q p c) =
     (neighbours l h (op_value q) p c \<and> \<not> is_contains q \<and> c \<noteq> ll_tail l \<and> data_of h c < op_value q)"
| "pc_local l h (FAlloc x p c) = (neighbours l h x p c \<and> (c = ll_tail l \<or> x < data_of h c))"
| "pc_local l h (FLink x p c n) = (neighbours l h x p c \<and> (c = ll_tail l \<or> x < data_of h c) \<and>
     cell h n = Inr \<lparr>nd_data = x, nd_next = Some c, nd_lock = Unlocked\<rparr>)"
| "pc_local l h (FUnlink x p c) = (neighbours l h x p c \<and> c \<noteq> ll_tail l \<and> data_of h c = x)"
| "pc_local l h (FUnlockRemoved p c) = (p \<noteq> c)"
| "pc_local l h (FDestroyRemoved p c) = (p \<noteq> c \<and> locked_by h c Unlocked)"
| "pc_local l h (FDeleteRemoved p c) = (p \<noteq> c)"
| "pc_local l h (FUnlockPred r p c) = (p \<noteq> c)"
| "pc_local l h pc = True"

definition pc_ok :: "linked_list \<Rightarrow> lnode cells \<Rightarrow> nat list \<Rightarrow> nat \<Rightarrow> fg_pc \<Rightarrow> bool" where
  "pc_ok l h as i pc \<longleftrightarrow>
     (\<forall>a \<in> held pc. locked_by h a (LockedBy i)) \<and> held pc - own pc \<subseteq> set (nodes l as) \<and>
     own pc \<inter> set (nodes l as) = {} \<and> (\<forall>a \<in> own pc. \<exists>v. cell h a = Inr v) \<and> pc_local l h pc"

definition fg_inv :: "linked_list \<Rightarrow> lnode cells \<Rightarrow> fg_pc list \<Rightarrow> nat list \<Rightarrow> bool" where
  "fg_inv l h pcs as \<longleftrightarrow>
     ll_inv (l, h) as \<and> (\<forall>i < length pcs. pc_ok l h as i (pcs ! i)) \<and>
     (\<forall>a \<in> set (nodes l as). locked_by h a Unlocked \<or> (\<exists>i < length pcs. a \<in> held (pcs ! i))) \<and>
     (\<forall>i < length pcs. \<forall>j < length pcs. i \<noteq> j \<longrightarrow> own (pcs ! i) \<inter> own (pcs ! j) = {})"

text \<open>
  The state of a call in the specification. A \<open>contains\<close> has taken effect once it holds both neighbours of its value's place:
  after it has released \<open>pred\<close> the value may come or go before it looks.
\<close>

fun status :: "linked_list \<Rightarrow> lnode cells \<Rightarrow> fg_pc \<Rightarrow> call_state" where
  "status l h FIdle = NoCall"
| "status l h (FLockHead q) = Pending q"
| "status l h (FReadNext q p) = Pending q"
| "status l h (FLockCurr q p c) = Pending q"
| "status l h (FRelease q p c) =
     (if c = ll_tail l \<or> op_value q \<le> data_of h c then Done (c \<noteq> ll_tail l \<and> data_of h c = op_value q) else Pending q)"
| "status l h (FTest q p c) =
     (if is_contains q \<and> (c = ll_tail l \<or> op_value q \<le> data_of h c)
      then Done (c \<noteq> ll_tail l \<and> data_of h c = op_value q) else Pending q)"
| "status l h (FAdvance q p c) = Pending q"
| "status l h (FAlloc x p c) = Pending (OpAdd x)"
| "status l h (FLink x p c n) = Pending (OpAdd x)"
| "status l h (FUnlink x p c) = Pending (OpRemove x)"
| "status l h (FUnlockRemoved p c) = Done True"
| "status l h (FDestroyRemoved p c) = Done True"
| "status l h (FDeleteRemoved p c) = Done True"
| "status l h (FUnlockPred r p c) = Done r"
| "status l h (FUnlockCurr r c) = Done r"
| "status l h (FReturn r) = Done r"

lemma cell_cong_shape:
  "cell h' a = cell h a \<Longrightarrow> follow h' a = follow h a"
  "cell h' a = cell h a \<Longrightarrow> data_of h' a = data_of h a"
  "cell h' a = cell h a \<Longrightarrow> locked_by h' a m = locked_by h a m"
  by (simp_all add: follow_def data_of_def locked_by_def)

lemma locked_by_unique: "locked_by h a m \<Longrightarrow> locked_by h a m' \<Longrightarrow> m = m'"
  by (auto simp: locked_by_def)

lemma pc_frame:
  assumes "\<forall>a \<in> held pc \<union> own pc. cell h' a = cell h a" "pc_ok l h as i pc"
    "held pc \<inter> set (nodes l as) \<subseteq> set (nodes l as')" "own pc \<inter> set (nodes l as') = {}"
  shows "pc_ok l h' as' i pc" "status l h' pc = status l h pc"
proof -
  have "pc_local l h' pc = pc_local l h pc" using assms(1)
    by (cases pc) (auto simp: before_def neighbours_def cell_cong_shape [of h' _ h] split: if_splits)
  moreover have "\<forall>a \<in> held pc. locked_by h' a m = locked_by h a m" for m using assms(1) by (simp add: locked_by_def)
  ultimately show "pc_ok l h' as' i pc" using assms unfolding pc_ok_def by auto
  show "status l h' pc = status l h pc" using assms(1)
    by (cases pc) (auto simp: cell_cong_shape [of h' _ h] split: if_splits)
qed

lemma fg_exclusive:
  assumes "fg_inv l h pcs as" "i < length pcs" "j < length pcs" "i \<noteq> j"
  shows "(held (pcs ! i) \<union> own (pcs ! i)) \<inter> (held (pcs ! j) \<union> own (pcs ! j)) = {}"
proof -
  have ok: "pc_ok l h as i (pcs ! i)" "pc_ok l h as j (pcs ! j)" and pv: "own (pcs ! i) \<inter> own (pcs ! j) = {}"
    using assms by (auto simp: fg_inv_def)
  have "held (pcs ! i) \<inter> held (pcs ! j) = {}" using ok assms(4) locked_by_unique unfolding pc_ok_def by blast
  with ok pv show ?thesis unfolding pc_ok_def by blast
qed

lemma fg_inv_update:
  assumes inv: "fg_inv l h pcs as" and j: "j < length pcs"
    and ll: "ll_inv (l, h') as'" and ok: "pc_ok l h' as' j pc'"
    and fr: "\<And>a. a \<notin> held (pcs ! j) \<union> own (pcs ! j) \<Longrightarrow> cell h' a = cell h a \<or>
      a = length h \<or> a \<in> set (nodes l as) \<and> locked_by h a Unlocked"
    and nd: "set (nodes l as) - (held (pcs ! j) \<union> own (pcs ! j)) \<subseteq> set (nodes l as')"
      "set (nodes l as') \<subseteq> set (nodes l as) \<union> own (pcs ! j)"
    and lk: "\<forall>a \<in> set (nodes l as'). locked_by h' a Unlocked \<or> a \<in> held pc' \<or>
      a \<in> set (nodes l as) \<and> a \<notin> held (pcs ! j) \<and> \<not> locked_by h a Unlocked"
    and pv: "own pc' \<subseteq> held (pcs ! j) \<union> own (pcs ! j) \<union> {length h}"
  shows "fg_inv l h' (pcs[j := pc']) as'"
    "map (status l h') (pcs[j := pc']) = (map (status l h) pcs)[j := status l h' pc']"
proof -
  have i: "(\<forall>a \<in> held (pcs ! i) \<union> own (pcs ! i). cell h' a = cell h a) \<and>
      held (pcs ! i) \<inter> set (nodes l as) \<subseteq> set (nodes l as') \<and> own (pcs ! i) \<inter> set (nodes l as') = {} \<and>
      pc_ok l h as i (pcs ! i) \<and> length h \<notin> own (pcs ! i)" if "i < length pcs" "i \<noteq> j" for i
  proof -
    have ok: "pc_ok l h as i (pcs ! i)" using inv that by (simp add: fg_inv_def)
    note ex = fg_exclusive [OF inv that(1) j that(2)]
    have val: "\<exists>v. cell h a = Inr v" if "a \<in> held (pcs ! i) \<union> own (pcs ! i)" for a
      using ok that unfolding pc_ok_def locked_by_def by blast
    have len: "length h \<notin> held (pcs ! i) \<union> own (pcs ! i)" using val [of "length h"] cell_lt [of h "length h"] by auto
    have "cell h' a = cell h a" if a: "a \<in> held (pcs ! i) \<union> own (pcs ! i)" for a
    proof -
      have "a \<notin> held (pcs ! j) \<union> own (pcs ! j)" using a ex by blast
      moreover have "\<not> (a \<in> set (nodes l as) \<and> locked_by h a Unlocked)"
      proof
        assume u: "a \<in> set (nodes l as) \<and> locked_by h a Unlocked"
        then have "a \<notin> own (pcs ! i)" using ok by (auto simp: pc_ok_def)
        then have "locked_by h a (LockedBy i)" using a ok by (simp add: pc_ok_def)
        with u show False using locked_by_unique by fastforce
      qed
      ultimately show ?thesis using fr len a by blast
    qed
    moreover have "held (pcs ! i) \<inter> set (nodes l as) \<subseteq> set (nodes l as')" using nd(1) ex by blast
    moreover have "own (pcs ! i) \<inter> set (nodes l as') = {}" using nd(2) ex ok unfolding pc_ok_def by blast
    ultimately show ?thesis using ok len by blast
  qed
  have f: "pc_ok l h' as' i (pcs ! i) \<and> status l h' (pcs ! i) = status l h (pcs ! i)" if "i < length pcs" "i \<noteq> j" for i
    using pc_frame [of "pcs ! i" h' h l as i as'] i [OF that] by blast
  have "pc_ok l h' as' i (pcs[j := pc'] ! i)" if "i < length pcs" for i
    using f ok that j by (cases "i = j") auto
  moreover have "locked_by h' a Unlocked \<or> (\<exists>i < length pcs. a \<in> held (pcs[j := pc'] ! i))" if "a \<in> set (nodes l as')" for a
  proof -
    have "\<exists>i < length pcs. a \<in> held (pcs ! i)" if "a \<in> set (nodes l as)" "\<not> locked_by h a Unlocked"
      using inv that by (auto simp: fg_inv_def)
    with lk that j show ?thesis by (metis nth_list_update)
  qed
  moreover have "own (pcs[j := pc'] ! i) \<inter> own (pcs[j := pc'] ! k) = {}"
    if "i < length pcs" "k < length pcs" "i \<noteq> k" for i k
  proof -
    have n: "own pc' \<inter> own (pcs ! m) = {}" if m: "m < length pcs" "m \<noteq> j" for m
      using pv fg_exclusive [OF inv m(1) j m(2)] i [OF m] by blast
    have "own (pcs ! i) \<inter> own (pcs ! k) = {}" using inv that by (auto simp: fg_inv_def)
    then show ?thesis using n that j by (cases "i = j"; cases "k = j") (auto simp: Int_commute)
  qed
  ultimately show "fg_inv l h' (pcs[j := pc']) as'" using ll by (simp add: fg_inv_def)
  show "map (status l h') (pcs[j := pc']) = (map (status l h) pcs)[j := status l h' pc']"
  proof (rule nth_equalityI)
    fix i assume "i < length (map (status l h') (pcs[j := pc']))"
    then show "map (status l h') (pcs[j := pc']) ! i = (map (status l h) pcs)[j := status l h' pc'] ! i"
      using f j by (cases "i = j") simp_all
  qed simp
qed

section \<open>Steps that only move a thread or a lock\<close>

lemma fg_invD:
  assumes "fg_inv l h pcs as"
  shows "ll_inv (l, h) as" "j < length pcs \<Longrightarrow> pc_ok l h as j (pcs ! j)"
    "a \<in> set (nodes l as) \<Longrightarrow> locked_by h a Unlocked \<or> (\<exists>i < length pcs. a \<in> held (pcs ! i) \<and> locked_by h a (LockedBy i))"
  using assms by (auto simp: fg_inv_def pc_ok_def)

lemma pc_okD:
  assumes "pc_ok l h as j pc"
  shows "a \<in> held pc \<Longrightarrow> locked_by h a (LockedBy j)" "a \<in> held pc \<Longrightarrow> a \<notin> own pc \<Longrightarrow> a \<in> set (nodes l as)"
    "a \<in> own pc \<Longrightarrow> a \<notin> set (nodes l as)" "a \<in> own pc \<Longrightarrow> \<exists>v. cell h a = Inr v" "pc_local l h pc"
  using assms by (auto simp: pc_ok_def)

lemma fg_move_thread:
  assumes inv: "fg_inv l h pcs as" and j: "j < length pcs"
    and pc: "held pc' = held (pcs ! j)" "own pc' = own (pcs ! j)" "pc_local l h pc'"
  shows "fg_inv l h (pcs[j := pc']) as" "map (status l h) (pcs[j := pc']) = (map (status l h) pcs)[j := status l h pc']"
proof -
  have ok: "pc_ok l h as j (pcs ! j)" using inv j by (simp add: fg_inv_def)
  have ok': "pc_ok l h as j pc'" using ok pc unfolding pc_ok_def by simp
  show "fg_inv l h (pcs[j := pc']) as" "map (status l h) (pcs[j := pc']) = (map (status l h) pcs)[j := status l h pc']"
    by (rule fg_inv_update [OF inv j fg_invD(1) [OF inv] ok']; use ok pc(1,2) in \<open>auto simp: pc_ok_def\<close>)+
qed

lemma fg_move_lock:
  assumes inv: "fg_inv l h pcs as" and j: "j < length pcs" and a: "a \<in> set (nodes l as)" and v: "cell h a = Inr v"
    and m: "m = LockedBy j \<and> nd_lock v = Unlocked \<and> held pc' = insert a (held (pcs ! j)) \<or>
      m = Unlocked \<and> a \<in> held (pcs ! j) \<and> held pc' = held (pcs ! j) - {a}"
    and pc: "own pc' = own (pcs ! j)" "pc_local l (set_cell h a (v\<lparr>nd_lock := m\<rparr>)) pc'"
  shows "fg_inv l (set_cell h a (v\<lparr>nd_lock := m\<rparr>)) (pcs[j := pc']) as"
    "map (status l (set_cell h a (v\<lparr>nd_lock := m\<rparr>))) (pcs[j := pc']) =
       (map (status l h) pcs)[j := status l (set_cell h a (v\<lparr>nd_lock := m\<rparr>)) pc']"
proof -
  let ?h = "set_cell h a (v\<lparr>nd_lock := m\<rparr>)"
  have ok: "pc_ok l h as j (pcs ! j)" using inv j by (simp add: fg_inv_def)
  have c: "cell ?h b = (if b = a then Inr (v\<lparr>nd_lock := m\<rparr>) else cell h b)" for b by (rule cell_set [OF v])
  have lb: "locked_by ?h b k = (if b = a then k = m else locked_by h b k)" for b k by (auto simp: locked_by_def c)
  have ll: "ll_inv (l, ?h) as" using fg_invD(1) [OF inv] by (simp add: set_lock_inv [OF v])
  have ok': "pc_ok l ?h as j pc'" using ok pc m a by (auto simp: pc_ok_def lb c)
  have fr: "cell ?h b = cell h b \<or> b = length h \<or> b \<in> set (nodes l as) \<and> locked_by h b Unlocked"
    if "b \<notin> held (pcs ! j) \<union> own (pcs ! j)" for b using that m a v by (auto simp: c locked_by_def)
  have lk: "\<forall>b \<in> set (nodes l as). locked_by ?h b Unlocked \<or> b \<in> held pc' \<or>
      b \<in> set (nodes l as) \<and> b \<notin> held (pcs ! j) \<and> \<not> locked_by h b Unlocked"
    using m by (auto simp: lb)
  show "fg_inv l ?h (pcs[j := pc']) as"
    "map (status l ?h) (pcs[j := pc']) = (map (status l h) pcs)[j := status l ?h pc']"
    by (rule fg_inv_update [OF inv j ll ok' fr _ _ lk]; use pc(1) in auto)+
qed

lemma lock_or_wait_node:
  assumes "fg_inv l h pcs as" "a \<in> set (nodes l as)" "cell h a = Inr v"
  shows "lock_or_wait j a pc' h =
    (if nd_lock v = Unlocked then Inr (Some (pc', set_cell h a (v\<lparr>nd_lock := LockedBy j\<rparr>))) else Inr None)"
  using fg_invD(3) [OF assms(1,2)] assms(3) by (auto simp: lock_or_wait_def mutex_lock_def locked_by_def)

lemma fg_nodes_valid: "fg_inv l h pcs as \<Longrightarrow> a \<in> set (nodes l as) \<Longrightarrow> \<exists>v. cell h a = Inr v"
  by (auto simp: fg_inv_def ll_inv_def)

section \<open>The places of a value\<close>

text \<open>A node with its successor splits the list.\<close>

lemma ll_inv_split:
  assumes i: "ll_inv (l, h) as" and p: "p \<in> set (nodes l as)" "p \<noteq> ll_tail l" and f: "follow h p = Inr c"
  obtains xs ys us vs where "as = xs @ ys" "nodes l as = us @ p # c # vs" "us @ [p] = ll_head l # xs" "c # vs = ys @ [ll_tail l]"
proof -
  from p have "p \<in> set (ll_head l # as)" by (auto simp: nodes_def)
  then obtain us ws where w: "ll_head l # as = us @ p # ws" by (meson split_list)
  then have n: "nodes l as = us @ p # ws @ [ll_tail l]" by (simp add: nodes_def)
  obtain e vs where e: "ws @ [ll_tail l] = e # vs" by (cases ws) auto
  have "linked h (us @ p # e # vs)" using i n e by (simp add: ll_inv_def)
  then have "follow h p = Inr e" using linked_append [of h us p "e # vs"] by (simp add: linked_Cons2)
  then have ec: "e = c" using f by simp
  obtain xs where xs: "us @ [p] = ll_head l # xs" using w by (cases us) auto
  have "ll_head l # as = (us @ [p]) @ ws" using w by simp
  then have "as = xs @ ws" by (simp add: xs)
  moreover have "nodes l as = us @ p # c # vs" "c # vs = ws @ [ll_tail l]" using n e ec by simp_all
  ultimately show thesis using that [of xs ws us vs] xs by blast
qed

lemma ll_inv_place:
  assumes i: "ll_inv (l, h) as" and p: "p \<in> set (nodes l as)" and n: "neighbours l h x p c"
    and c: "c = ll_tail l \<or> x \<le> data_of h c"
  obtains xs ys us vs where "as = xs @ ys" "nodes l as = us @ p # c # vs" "us @ [p] = ll_head l # xs" "c # vs = ys @ [ll_tail l]"
    "\<forall>a \<in> set xs. data_of h a < x" "\<forall>a \<in> set ys. x \<le> data_of h a"
    "x \<in> data_of h ` set as \<longleftrightarrow> c \<noteq> ll_tail l \<and> data_of h c = x" "p \<noteq> c" "c \<in> set (nodes l as)"
proof -
  have d: "distinct (nodes l as)" and s: "sorted_wrt (<) (map (data_of h) as)" using i by (auto simp: ll_inv_def)
  have "p \<noteq> ll_tail l" using n d by (auto simp: neighbours_def before_def nodes_def)
  moreover have "follow h p = Inr c" using n by (simp add: neighbours_def)
  ultimately obtain xs ys us vs where sp: "as = xs @ ys" "nodes l as = us @ p # c # vs" "us @ [p] = ll_head l # xs"
    "c # vs = ys @ [ll_tail l]" by (rule ll_inv_split [OF i p])
  have lo: "\<forall>a \<in> set xs. data_of h a < x"
  proof (cases "xs = []")
    case False
    then obtain zs where zs: "xs = zs @ [p]" using sp(3) by (cases xs rule: rev_cases) auto
    have "p \<noteq> ll_head l" using d sp(2,3) zs by (cases us) auto
    then have "data_of h p < x" using n by (simp add: neighbours_def before_def)
    moreover have "\<forall>a \<in> set zs. data_of h a < data_of h p" using s by (auto simp: sp(1) zs sorted_wrt_append)
    ultimately show ?thesis using zs by force
  qed simp
  have tl: "ys = [] \<longleftrightarrow> c = ll_tail l"
  proof
    assume "c = ll_tail l"
    then show "ys = []" using d sp(2,4) by (cases ys) auto
  qed (use sp(4) in simp)
  have hi: "\<forall>a \<in> set ys. x \<le> data_of h a \<and> (a \<noteq> c \<longrightarrow> data_of h c < data_of h a)"
  proof (cases ys)
    case (Cons y zs)
    then have "y = c" "x \<le> data_of h c" using sp(4) tl c by auto
    then show ?thesis using s by (auto simp: sp(1) Cons sorted_wrt_append)
  qed simp
  have "x \<in> data_of h ` set as \<longleftrightarrow> c \<noteq> ll_tail l \<and> data_of h c = x"
  proof
    assume "x \<in> data_of h ` set as"
    then obtain a where a: "a \<in> set ys" "data_of h a = x" using lo sp(1) by fastforce
    then have nt: "c \<noteq> ll_tail l" using tl by auto
    then have "x \<le> data_of h c" using c by simp
    then show "c \<noteq> ll_tail l \<and> data_of h c = x" using nt a hi by (metis not_less)
  next
    assume "c \<noteq> ll_tail l \<and> data_of h c = x"
    then show "x \<in> data_of h ` set as" using tl sp(1,4) by (cases ys) auto
  qed
  moreover have "p \<noteq> c" "c \<in> set (nodes l as)" using d sp(2) by auto
  ultimately show thesis using that [OF sp lo] hi by blast
qed

section \<open>Steps that change the list\<close>

lemma ll_inv_frame:
  assumes "ll_inv (l, h) as" "\<forall>a \<in> set (nodes l as). cell h' a = cell h a"
  shows "ll_inv (l, h') as" "data_of h' ` set as = data_of h ` set as"
proof -
  have d: "data_of h' a = data_of h a" if "a \<in> set (nodes l as)" for a using assms(2) that by (simp add: data_of_def)
  have sub: "set as \<subseteq> set (nodes l as)" "ll_head l \<in> set (nodes l as)" by (auto simp: nodes_def)
  have "map (data_of h') as = map (data_of h) as" using d sub by (intro map_cong) auto
  then have "sorted_wrt (<) (map (data_of h') as) = sorted_wrt (<) (map (data_of h) as)" by (simp only:)
  moreover have "linked h' (nodes l as) = linked h (nodes l as)"
    using assms(2) by (intro linked_cong) (auto simp: follow_def dest: in_set_butlastD)
  ultimately show "ll_inv (l, h') as" using assms d sub(2) unfolding ll_inv_def prod.case by auto
  show "data_of h' ` set as = data_of h ` set as" using d sub by (intro image_cong) auto
qed

lemma ll_inv_link:
  assumes i: "ll_inv (l, h) as" and p: "p \<in> set (nodes l as)" and nb: "neighbours l h x p c"
    and c: "c = ll_tail l \<or> x < data_of h c" and w: "cell h p = Inr w"
    and n: "cell h n = Inr u" "nd_data u = x" "nd_next u = Some c" "n \<notin> set (nodes l as)"
  obtains as' where "ll_inv (l, set_cell h p (w\<lparr>nd_next := Some n\<rparr>)) as'"
    "set (nodes l as') = insert n (set (nodes l as))"
    "data_of (set_cell h p (w\<lparr>nd_next := Some n\<rparr>)) = data_of h"
    "data_of h ` set as' = insert x (data_of h ` set as)" "x \<notin> data_of h ` set as"
proof -
  have c': "c = ll_tail l \<or> x \<le> data_of h c" using c by auto
  obtain xs ys us vs where s: "as = xs @ ys" "nodes l as = us @ p # c # vs" "us @ [p] = ll_head l # xs"
    "c # vs = ys @ [ll_tail l]" "\<forall>a \<in> set xs. data_of h a < x" "\<forall>a \<in> set ys. x \<le> data_of h a"
    "x \<in> data_of h ` set as \<longleftrightarrow> c \<noteq> ll_tail l \<and> data_of h c = x" "p \<noteq> c" "c \<in> set (nodes l as)"
    by (rule ll_inv_place [OF i p nb c'])
  have notin: "x \<notin> data_of h ` set as" using s(7) c by auto
  let ?h = "set_cell h p (w\<lparr>nd_next := Some n\<rparr>)" and ?as = "xs @ n # ys"
  have i': "linked h (us @ p # c # vs)" "distinct (us @ p # c # vs)" "sorted_wrt (<) (map (data_of h) as)" "data_of h (ll_head l) = 0"
    "\<forall>a \<in> set (nodes l as). \<exists>v. cell h a = Inr v"
    using i s(2) by (simp_all add: ll_inv_def)
  have cc: "cell ?h a = (if a = p then Inr (w\<lparr>nd_next := Some n\<rparr>) else cell h a)" for a by (rule cell_set [OF w])
  have dd: "data_of ?h = data_of h" using w by (auto simp: data_of_def cc)
  have ff: "follow ?h a = (if a = p then Inr n else follow h a)" for a by (simp add: follow_def cc)
  have "nodes l ?as = (us @ [p]) @ n # c # vs" by (simp only: s(3,4)) (simp add: nodes_def)
  then have nn: "nodes l ?as = us @ p # n # c # vs" by simp
  have l': "linked h (us @ [p])" "linked h (c # vs)"
    using i'(1) linked_append [of h us p "c # vs"] by (simp_all add: linked_Cons2)
  have "linked ?h (us @ [p])" using l'(1) i'(2) by (subst linked_cong [of _ ?h h]) (auto simp: ff)
  moreover have "linked ?h (c # vs)"
    using l'(2) i'(2) by (subst linked_cong [of _ ?h h]) (auto simp: ff dest: in_set_butlastD split: if_splits)
  moreover have "follow ?h n = Inr c" using n s(2) by (auto simp: ff follow_cell)
  ultimately have "linked ?h (nodes l ?as)" unfolding nn by (subst linked_append) (simp add: linked_Cons2 ff)
  moreover have "distinct (nodes l ?as)" using i'(2) n(4) s(2) unfolding nn by auto
  moreover have "\<forall>a \<in> set ys. x < data_of h a" using s(1,6) notin by force
  then have "sorted_wrt (<) (map (data_of ?h) ?as)"
    using i'(3) s(1,5) n(1,2) unfolding dd by (auto simp: sorted_wrt_append data_of_cell)
  moreover have "\<forall>a \<in> set (nodes l ?as). \<exists>v. cell ?h a = Inr v" using i'(5) n(1) s(2) unfolding nn by (auto simp: cc)
  ultimately have "ll_inv (l, ?h) ?as" using i'(4) by (simp add: ll_inv_def dd)
  then show thesis
    by (rule that) (use dd notin s(1,2) n(1,2) in \<open>auto simp: nn data_of_cell\<close>)
qed

lemma ll_inv_unlinked:
  assumes i: "ll_inv (l, h) as" and p: "p \<in> set (nodes l as)" and nb: "neighbours l h x p c"
    and c: "c \<noteq> ll_tail l" "data_of h c = x" and w: "cell h p = Inr w"
  obtains as' u where "cell h c = Inr u" "ll_inv (l, set_cell h p (w\<lparr>nd_next := nd_next u\<rparr>)) as'"
    "set (nodes l as') = set (nodes l as) - {c}"
    "data_of (set_cell h p (w\<lparr>nd_next := nd_next u\<rparr>)) = data_of h"
    "data_of h ` set as' = data_of h ` set as - {x}" "x \<in> data_of h ` set as"
proof -
  have c': "c = ll_tail l \<or> x \<le> data_of h c" using c by auto
  obtain xs ys us vs where s: "as = xs @ ys" "nodes l as = us @ p # c # vs" "us @ [p] = ll_head l # xs"
    "c # vs = ys @ [ll_tail l]" "\<forall>a \<in> set xs. data_of h a < x" "\<forall>a \<in> set ys. x \<le> data_of h a"
    "x \<in> data_of h ` set as \<longleftrightarrow> c \<noteq> ll_tail l \<and> data_of h c = x" "p \<noteq> c" "c \<in> set (nodes l as)"
    by (rule ll_inv_place [OF i p nb c'])
  obtain zs where z: "ys = c # zs" using s(4) c(1) by (cases ys) auto
  obtain e ws where e: "vs = e # ws" "e # ws = zs @ [ll_tail l]" using s(4) z by (cases vs) auto
  have i': "linked h (us @ p # c # e # ws)" "distinct (us @ p # c # e # ws)" "sorted_wrt (<) (map (data_of h) as)"
    "data_of h (ll_head l) = 0" "\<forall>a \<in> set (nodes l as). \<exists>v. cell h a = Inr v"
    using i s(2) e(1) by (simp_all add: ll_inv_def)
  have l': "linked h (us @ [p])" "follow h c = Inr e" "linked h (e # ws)"
    using i'(1) linked_append [of h us p "c # e # ws"] by (simp_all add: linked_Cons2)
  then obtain u where u: "cell h c = Inr u" "nd_next u = Some e" by (auto simp: follow_cell)
  let ?h = "set_cell h p (w\<lparr>nd_next := nd_next u\<rparr>)" and ?as = "xs @ zs"
  have cc: "cell ?h a = (if a = p then Inr (w\<lparr>nd_next := Some e\<rparr>) else cell h a)" for a by (simp add: cell_set [OF w] u)
  have dd: "data_of ?h = data_of h" using w by (auto simp: data_of_def cc)
  have ff: "follow ?h a = (if a = p then Inr e else follow h a)" for a by (simp add: follow_def cc)
  have "nodes l ?as = (us @ [p]) @ e # ws" by (simp only: s(3) e(2)) (simp add: nodes_def)
  then have nn: "nodes l ?as = us @ p # e # ws" by simp
  have "linked ?h (us @ [p])" using l'(1) i'(2) by (subst linked_cong [of _ ?h h]) (auto simp: ff)
  moreover have "linked ?h (e # ws)"
    using l'(3) i'(2) by (subst linked_cong [of _ ?h h]) (auto simp: ff dest: in_set_butlastD split: if_splits)
  ultimately have "linked ?h (nodes l ?as)" unfolding nn by (subst linked_append) (simp add: linked_Cons2 ff)
  moreover have "distinct (nodes l ?as)" using i'(2) unfolding nn by auto
  moreover have "sorted_wrt (<) (map (data_of ?h) ?as)" using i'(3) s(1) z unfolding dd by (simp add: sorted_wrt_append)
  moreover have "\<forall>a \<in> set (nodes l ?as). \<exists>v. cell ?h a = Inr v" using i'(5) s(2) e(1) unfolding nn by (auto simp: cc)
  ultimately have inv: "ll_inv (l, ?h) ?as" using i'(4) by (simp add: ll_inv_def dd)
  have "x \<notin> data_of h ` set ?as" using s(5) i'(3) c(2) by (auto simp: s(1) z sorted_wrt_append)
  then have "data_of h ` set ?as = data_of h ` set as - {x}" using c(2) by (auto simp: s(1) z)
  moreover have "set (nodes l ?as) = set (nodes l as) - {c}" using i'(2) unfolding nn s(2) e(1) by auto
  ultimately show thesis using that [OF u(1) inv] dd s(7) c by blast
qed

section \<open>Every step is a step of the set\<close>

definition effect :: "linked_list \<Rightarrow> lnode cells \<Rightarrow> nat list \<Rightarrow> fg_pc \<Rightarrow> lnode cells \<Rightarrow> nat list \<Rightarrow> fg_pc \<Rightarrow> bool" where
  "effect l h as pc h' as' pc' \<longleftrightarrow>
     data_of h' ` set as' = data_of h ` set as \<and> status l h' pc' = status l h pc \<or>
     (\<exists>q r. status l h pc = Pending q \<and> set_spec (\<lambda>x. True) q (data_of h ` set as) = (r, data_of h' ` set as') \<and>
        status l h' pc' = Done r)"

definition fg_good :: "linked_list \<Rightarrow> lnode cells \<Rightarrow> fg_pc list \<Rightarrow> nat list \<Rightarrow> nat \<Rightarrow> fg_pc \<Rightarrow> lnode cells \<Rightarrow> bool" where
  "fg_good l h pcs as j pc' h' \<longleftrightarrow> (\<exists>as'. fg_inv l h' (pcs[j := pc']) as' \<and>
     map (status l h') (pcs[j := pc']) = (map (status l h) pcs)[j := status l h' pc'] \<and> effect l h as (pcs ! j) h' as' pc')"

lemma good_move:
  assumes "fg_inv l h pcs as" "j < length pcs" "held pc' = held (pcs ! j)" "own pc' = own (pcs ! j)" "pc_local l h pc'"
    "effect l h as (pcs ! j) h as pc'"
  shows "fg_good l h pcs as j pc' h"
  using fg_move_thread [OF assms(1-5)] assms(6) unfolding fg_good_def by blast

lemma good_unlock:
  assumes inv: "fg_inv l h pcs as" and j: "j < length pcs"
    and a: "a \<in> held (pcs ! j)" "a \<notin> own (pcs ! j)" "held pc' = held (pcs ! j) - {a}" "own pc' = own (pcs ! j)"
    and pc: "\<And>h'. follow h' = follow h \<Longrightarrow> data_of h' = data_of h \<Longrightarrow>
      pc_local l h' pc' \<and> status l h' pc' = status l h (pcs ! j)"
  shows "\<exists>h'. go pc' (mutex_unlock j a h) = Inr (Some (pc', h')) \<and> fg_good l h pcs as j pc' h'"
proof -
  have ok: "pc_ok l h as j (pcs ! j)" by (rule fg_invD(2) [OF inv j])
  have n: "a \<in> set (nodes l as)" using pc_okD(2) [OF ok] a by blast
  obtain v where v: "cell h a = Inr v" "nd_lock v = LockedBy j" using pc_okD(1) [OF ok a(1)] by (auto simp: locked_by_def)
  let ?h = "set_cell h a (v\<lparr>nd_lock := Unlocked\<rparr>)"
  note sh = set_lock_shape [OF v(1), of Unlocked]
  note p = pc [OF sh]
  have "fg_inv l ?h (pcs[j := pc']) as"
    "map (status l ?h) (pcs[j := pc']) = (map (status l h) pcs)[j := status l ?h pc']"
    by (rule fg_move_lock [OF inv j n v(1)]; use a p in simp)+
  moreover have "effect l h as (pcs ! j) ?h as pc'" using p sh by (simp add: effect_def)
  ultimately have "fg_good l h pcs as j pc' ?h" unfolding fg_good_def by blast
  moreover have "go pc' (mutex_unlock j a h) = Inr (Some (pc', ?h))" using v by (simp add: go_def mutex_unlock_def)
  ultimately show ?thesis by blast
qed

lemma good_lock:
  assumes inv: "fg_inv l h pcs as" and j: "j < length pcs" and n: "a \<in> set (nodes l as)"
    and a: "held pc' = insert a (held (pcs ! j))" "own pc' = own (pcs ! j)"
    and pc: "\<And>h'. follow h' = follow h \<Longrightarrow> data_of h' = data_of h \<Longrightarrow>
      pc_local l h' pc' \<and> effect l h as (pcs ! j) h' as pc'"
  shows "lock_or_wait j a pc' h = Inr None \<and> \<not> locked_by h a Unlocked \<or>
    (\<exists>h'. lock_or_wait j a pc' h = Inr (Some (pc', h')) \<and> fg_good l h pcs as j pc' h')"
proof -
  obtain v where v: "cell h a = Inr v" using fg_nodes_valid [OF inv n] by blast
  note lw = lock_or_wait_node [OF inv n v, of j pc']
  show ?thesis
  proof (cases "nd_lock v = Unlocked")
    case True
    let ?h = "set_cell h a (v\<lparr>nd_lock := LockedBy j\<rparr>)"
    note sh = set_lock_shape [OF v, of "LockedBy j"]
    note p = pc [OF sh]
    have "fg_inv l ?h (pcs[j := pc']) as"
      "map (status l ?h) (pcs[j := pc']) = (map (status l h) pcs)[j := status l ?h pc']"
      by (rule fg_move_lock [OF inv j n v]; use a p True in simp)+
    then have "fg_good l h pcs as j pc' ?h" using p unfolding fg_good_def by blast
    then show ?thesis using lw True by simp
  next
    case False
    then show ?thesis using lw v by (auto simp: locked_by_def)
  qed
qed

text \<open>Steps on nodes that only the thread can reach leave the list alone.\<close>

lemma good_own:
  assumes inv: "fg_inv l h pcs as" and j: "j < length pcs"
    and fr: "\<And>a. a \<notin> own (pcs ! j) \<Longrightarrow> a \<noteq> length h \<Longrightarrow> cell h' a = cell h a"
    and ok: "pc_ok l h' as j pc'" and hd: "held (pcs ! j) - own (pcs ! j) \<subseteq> held pc'"
    and ow: "own pc' \<subseteq> own (pcs ! j) \<union> {length h}"
    and st: "status l h' pc' = status l h (pcs ! j)"
  shows "fg_good l h pcs as j pc' h'"
proof -
  have okj: "pc_ok l h as j (pcs ! j)" by (rule fg_invD(2) [OF inv j])
  have len: "length h \<notin> set (nodes l as)" using fg_nodes_valid [OF inv, of "length h"] cell_lt [of h "length h"] by auto
  have nd: "\<forall>a \<in> set (nodes l as). cell h' a = cell h a" using fr len pc_okD(3) [OF okj] by metis
  note ll = ll_inv_frame [OF fg_invD(1) [OF inv] nd]
  have lk: "\<forall>a \<in> set (nodes l as). locked_by h' a Unlocked \<or> a \<in> held pc' \<or>
      a \<in> set (nodes l as) \<and> a \<notin> held (pcs ! j) \<and> \<not> locked_by h a Unlocked"
    using hd nd pc_okD(3) [OF okj] by (auto simp: locked_by_def)
  have "fg_inv l h' (pcs[j := pc']) as"
    "map (status l h') (pcs[j := pc']) = (map (status l h) pcs)[j := status l h' pc']"
    by (rule fg_inv_update [OF inv j ll(1) ok _ _ _ lk]; use fr ow in blast)+
  then show ?thesis using ll(2) st unfolding fg_good_def effect_def by blast
qed

fun waits :: "linked_list \<Rightarrow> lnode cells \<Rightarrow> fg_pc \<Rightarrow> bool" where
  "waits l h FIdle = True"
| "waits l h (FReturn r) = True"
| "waits l h (FLockHead q) = (\<not> locked_by h (ll_head l) Unlocked)"
| "waits l h (FLockCurr q p c) = (\<not> locked_by h c Unlocked)"
| "waits l h pc = False"

definition fg_steps :: "linked_list \<Rightarrow> lnode cells \<Rightarrow> fg_pc list \<Rightarrow> nat list \<Rightarrow> nat \<Rightarrow> bool" where
  "fg_steps l h pcs as j \<longleftrightarrow>
     fg_step l j (pcs ! j) h = Inr None \<and> waits l h (pcs ! j) \<or>
     (\<exists>pc' h'. fg_step l j (pcs ! j) h = Inr (Some (pc', h')) \<and> fg_good l h pcs as j pc' h')"

lemma fg_stepsI:
  "fg_step l j (pcs ! j) h = Inr (Some (pc', h')) \<Longrightarrow> fg_good l h pcs as j pc' h' \<Longrightarrow> fg_steps l h pcs as j"
  by (auto simp: fg_steps_def)

lemma neighbours_cong: "follow h' = follow h \<Longrightarrow> data_of h' = data_of h \<Longrightarrow> neighbours l h' x p c = neighbours l h x p c"
  "data_of h' = data_of h \<Longrightarrow> before l h' x p = before l h x p"
  by (simp_all add: neighbours_def before_def)

lemma steps_LockHead:
  assumes inv: "fg_inv l h pcs as" and j: "j < length pcs" and pc: "pcs ! j = FLockHead q"
  shows "fg_steps l h pcs as j"
proof -
  have n: "ll_head l \<in> set (nodes l as)" by (simp add: nodes_def)
  have "lock_or_wait j (ll_head l) (FReadNext q (ll_head l)) h = Inr None \<and> \<not> locked_by h (ll_head l) Unlocked \<or>
    (\<exists>h'. lock_or_wait j (ll_head l) (FReadNext q (ll_head l)) h = Inr (Some (FReadNext q (ll_head l), h')) \<and>
      fg_good l h pcs as j (FReadNext q (ll_head l)) h')"
    by (rule good_lock [OF inv j n]) (simp_all add: pc before_def effect_def)
  then show ?thesis by (auto simp: fg_steps_def pc)
qed

lemma steps_ReadNext:
  assumes inv: "fg_inv l h pcs as" and j: "j < length pcs" and pc: "pcs ! j = FReadNext q p"
  shows "fg_steps l h pcs as j"
proof -
  have ok: "pc_ok l h as j (FReadNext q p)" using fg_invD(2) [OF inv j] pc by simp
  have b: "before l h (op_value q) p" and p: "p \<in> set (nodes l as)" using pc_okD(2,5) [OF ok] by auto
  have ll: "linked h (nodes l as)" "distinct (nodes l as)" using fg_invD(1) [OF inv] by (auto simp: ll_inv_def)
  have "p \<noteq> ll_tail l" using b ll(2) by (auto simp: before_def nodes_def)
  then have "p \<in> set (ll_head l # as)" using p by (auto simp: nodes_def)
  then obtain us ws where "ll_head l # as = us @ p # ws" by (meson split_list)
  then have "nodes l as = us @ p # ws @ [ll_tail l]" by (simp add: nodes_def)
  then have "linked h (p # ws @ [ll_tail l])" using ll(1) linked_append [of h us p "ws @ [ll_tail l]"] by simp
  then obtain c where c: "follow h p = Inr c" by (cases ws) (auto simp: linked_Cons2)
  have "fg_good l h pcs as j (FLockCurr q p c) h"
    by (rule good_move [OF inv j]) (simp_all add: pc b c neighbours_def effect_def)
  then show ?thesis using c by (intro fg_stepsI [of l j pcs h "FLockCurr q p c" h]) (simp_all add: pc)
qed

lemma neighbours_nodes:
  assumes "ll_inv (l, h) as" "p \<in> set (nodes l as)" "neighbours l h x p c"
  shows "c \<in> set (nodes l as)" "p \<noteq> c"
proof -
  have d: "distinct (nodes l as)" using assms(1) by (simp add: ll_inv_def)
  then have "p \<noteq> ll_tail l" "follow h p = Inr c" using assms(3) by (auto simp: neighbours_def before_def nodes_def)
  then obtain us vs where "nodes l as = us @ p # c # vs" by (rule ll_inv_split [OF assms(1,2)])
  then show "c \<in> set (nodes l as)" "p \<noteq> c" using d by auto
qed

lemma steps_LockCurr:
  assumes inv: "fg_inv l h pcs as" and j: "j < length pcs" and pc: "pcs ! j = FLockCurr q p c"
  shows "fg_steps l h pcs as j"
proof -
  have ok: "pc_ok l h as j (FLockCurr q p c)" using fg_invD(2) [OF inv j] pc by simp
  have nb: "neighbours l h (op_value q) p c" and p: "p \<in> set (nodes l as)" using pc_okD(2,5) [OF ok] by auto
  note ll = fg_invD(1) [OF inv]
  note cn = neighbours_nodes [OF ll p nb]
  let ?pc = "case q of OpContains _ \<Rightarrow> FRelease q p c | _ \<Rightarrow> FTest q p c"
  have "lock_or_wait j c ?pc h = Inr None \<and> \<not> locked_by h c Unlocked \<or>
    (\<exists>h'. lock_or_wait j c ?pc h = Inr (Some (?pc, h')) \<and> fg_good l h pcs as j ?pc h')"
  proof (rule good_lock [OF inv j cn(1)])
    show "held ?pc = insert c (held (pcs ! j))" by (auto simp: pc is_contains_def split: set_op.splits)
    show "own ?pc = own (pcs ! j)" by (simp add: pc split: set_op.splits)
    fix h' :: "lnode cells"
    assume h': "follow h' = follow h" "data_of h' = data_of h"
    have "effect l h as (pcs ! j) h' as ?pc"
    proof (cases "is_contains q \<and> (c = ll_tail l \<or> op_value q \<le> data_of h c)")
      case True
      then obtain x where q: "q = OpContains x" by (cases q) (auto simp: is_contains_def)
      have c: "c = ll_tail l \<or> op_value q \<le> data_of h c" using True by simp
      have "op_value q \<in> data_of h ` set as \<longleftrightarrow> c \<noteq> ll_tail l \<and> data_of h c = op_value q"
        by (rule ll_inv_place [OF ll p nb c])
      then show ?thesis using True q h' by (auto simp: effect_def pc)
    next
      case False
      then show ?thesis using h' by (cases q) (auto simp: effect_def pc is_contains_def)
    qed
    then show "pc_local l h' ?pc \<and> effect l h as (pcs ! j) h' as ?pc"
      using nb h' by (cases q) (simp_all add: neighbours_cong(1) [OF h'] is_contains_def)
  qed
  then show ?thesis by (auto simp: fg_steps_def pc)
qed

lemma steps_unlocks:
  assumes inv: "fg_inv l h pcs as" and j: "j < length pcs"
  shows "pcs ! j = FRelease q p c \<Longrightarrow> fg_steps l h pcs as j" "pcs ! j = FAdvance q p c \<Longrightarrow> fg_steps l h pcs as j"
    "pcs ! j = FUnlockPred r p c \<Longrightarrow> fg_steps l h pcs as j" "pcs ! j = FUnlockCurr r c \<Longrightarrow> fg_steps l h pcs as j"
proof -
  note ok = fg_invD(2) [OF inv j]
  note ll = fg_invD(1) [OF inv]
  { assume pc: "pcs ! j = FRelease q p c"
    have nb: "neighbours l h (op_value q) p c" "is_contains q" "p \<in> set (nodes l as)"
      using pc_okD(2,5) [OF ok] pc by auto
    have "\<exists>h'. go (FTest q p c) (mutex_unlock j p h) = Inr (Some (FTest q p c, h')) \<and> fg_good l h pcs as j (FTest q p c) h'"
      by (rule good_unlock [OF inv j]) (use nb neighbours_nodes(2) [OF ll nb(3,1)] in \<open>auto simp: pc\<close>)
    then show "fg_steps l h pcs as j" by (auto simp: fg_steps_def pc) }
  { assume pc: "pcs ! j = FAdvance q p c"
    have nb: "neighbours l h (op_value q) p c" "p \<in> set (nodes l as)" "c \<noteq> ll_tail l" "data_of h c < op_value q"
      using pc_okD(2,5) [OF ok] pc by auto
    have "\<exists>h'. go (FReadNext q c) (mutex_unlock j p h) = Inr (Some (FReadNext q c, h')) \<and> fg_good l h pcs as j (FReadNext q c) h'"
      by (rule good_unlock [OF inv j]) (use nb neighbours_nodes(2) [OF ll nb(2,1)] in \<open>auto simp: pc before_def\<close>)
    then show "fg_steps l h pcs as j" by (auto simp: fg_steps_def pc) }
  { assume pc: "pcs ! j = FUnlockPred r p c"
    have ne: "p \<noteq> c" using pc_okD(5) [OF ok] pc by simp
    have "\<exists>h'. go (FUnlockCurr r c) (mutex_unlock j p h) = Inr (Some (FUnlockCurr r c, h')) \<and>
        fg_good l h pcs as j (FUnlockCurr r c) h'"
      by (rule good_unlock [OF inv j]) (use ne in \<open>auto simp: pc\<close>)
    then show "fg_steps l h pcs as j" by (auto simp: fg_steps_def pc) }
  { assume pc: "pcs ! j = FUnlockCurr r c"
    have "\<exists>h'. go (FReturn r) (mutex_unlock j c h) = Inr (Some (FReturn r, h')) \<and> fg_good l h pcs as j (FReturn r) h'"
      by (rule good_unlock [OF inv j]) (auto simp: pc)
    then show "fg_steps l h pcs as j" by (auto simp: fg_steps_def pc) }
qed

lemma steps_Test:
  assumes inv: "fg_inv l h pcs as" and j: "j < length pcs" and pc: "pcs ! j = FTest q p c"
  shows "fg_steps l h pcs as j"
proof -
  note ll = fg_invD(1) [OF inv]
  have ok: "pc_ok l h as j (FTest q p c)" using fg_invD(2) [OF inv j] pc by simp
  have "c \<in> held (FTest q p c)" by simp
  then obtain v where v: "cell h c = Inr v" using pc_okD(1) [OF ok] by (force simp: locked_by_def)
  have d: "data_of h c = nd_data v" using v by (simp add: data_of_cell)
  have nb: "neighbours l h (op_value q) p c" and p: "p \<in> set (nodes l as)" if "\<not> is_contains q"
    using pc_okD(2,5) [OF ok] that by auto
  have ne: "p \<noteq> c" if "\<not> is_contains q" using neighbours_nodes(2) [OF ll p [OF that] nb [OF that]] .
  have pl: "op_value q \<in> data_of h ` set as \<longleftrightarrow> c \<noteq> ll_tail l \<and> nd_data v = op_value q"
    if nc: "\<not> is_contains q" and c: "c = ll_tail l \<or> op_value q \<le> nd_data v"
    using c unfolding d [symmetric] by (rule ll_inv_place [OF ll p [OF nc] nb [OF nc]])
  have "\<exists>pc'. fg_test l q p c h = Inr pc'" using v by (cases q) simp_all
  then obtain pc' where t: "fg_test l q p c h = Inr pc'" by blast
  have "held pc' = held (FTest q p c) \<and> own pc' = {} \<and> pc_local l h pc' \<and> effect l h as (FTest q p c) h as pc'"
  proof (cases q)
    case (OpContains x)
    then have "held pc' = held (FTest q p c) \<and> own pc' = {}" using t v by (auto simp: is_contains_def split: if_splits)
    moreover have "pc_local l h pc' \<and> status l h pc' = status l h (FTest q p c)"
      using t v d OpContains by (auto simp: is_contains_def before_def split: if_splits)
    ultimately show ?thesis by (simp add: effect_def)
  next
    case (OpAdd x)
    then have nc: "\<not> is_contains q" by (simp add: is_contains_def)
    have "held pc' = held (FTest q p c) \<and> own pc' = {}" using t v OpAdd by (auto simp: is_contains_def split: if_splits)
    moreover have "pc_local l h pc'"
      using t v d OpAdd nb [OF nc] ne [OF nc] nc by (auto simp: split: if_splits)
    moreover have "effect l h as (FTest q p c) h as pc'"
      using t v d OpAdd pl [OF nc] nc by (auto simp: effect_def insert_absorb split: if_splits)
    ultimately show ?thesis by blast
  next
    case (OpRemove x)
    then have nc: "\<not> is_contains q" by (simp add: is_contains_def)
    have "held pc' = held (FTest q p c) \<and> own pc' = {}" using t v OpRemove by (auto simp: is_contains_def split: if_splits)
    moreover have "pc_local l h pc'"
      using t v d OpRemove nb [OF nc] ne [OF nc] nc by (auto simp: split: if_splits)
    moreover have "effect l h as (FTest q p c) h as pc'"
      using t v d OpRemove pl [OF nc] nc by (auto simp: effect_def split: if_splits)
    ultimately show ?thesis by blast
  qed
  then have "fg_good l h pcs as j pc' h" by (intro good_move [OF inv j]) (simp_all add: pc)
  then show ?thesis using t by (intro fg_stepsI [of l j pcs h pc' h]) (simp_all add: pc)
qed

lemma steps_Alloc:
  assumes inv: "fg_inv l h pcs as" and j: "j < length pcs" and pc: "pcs ! j = FAlloc x p c"
  shows "fg_steps l h pcs as j"
proof -
  have ok: "pc_ok l h as j (FAlloc x p c)" using fg_invD(2) [OF inv j] pc by simp
  let ?v = "\<lparr>nd_data = x, nd_next = Some c, nd_lock = Unlocked\<rparr>" and ?pc = "FLink x p c (length h)"
  let ?h = "h @ [Some ?v]"
  have lt: "p < length h" "c < length h" using pc_okD(1) [OF ok, of p] pc_okD(1) [OF ok, of c] by (auto simp: locked_by_def dest: cell_lt)
  have len: "length h \<notin> set (nodes l as)" using fg_nodes_valid [OF inv, of "length h"] cell_lt [of h "length h"] by auto
  have cc: "cell ?h a = (if a = length h then Inr ?v else cell h a)" for a by (rule cell_new)
  have "pc_local l ?h ?pc" using pc_okD(5) [OF ok] lt
    by (auto simp: neighbours_def before_def cell_cong_shape [of ?h _ h] cc)
  moreover have "\<forall>a \<in> {p, c}. locked_by ?h a (LockedBy j)" using pc_okD(1) [OF ok] lt by (auto simp: locked_by_def cc)
  ultimately have ok': "pc_ok l ?h as j ?pc" using ok len lt by (auto simp: pc_ok_def cc)
  have "fg_good l h pcs as j ?pc ?h"
    by (rule good_own [OF inv j _ ok']) (simp_all add: pc cc)
  then show ?thesis by (intro fg_stepsI [of l j pcs h ?pc ?h]) (simp_all add: pc new_cell_def)
qed

lemma steps_Link:
  assumes inv: "fg_inv l h pcs as" and j: "j < length pcs" and pc: "pcs ! j = FLink x p c n"
  shows "fg_steps l h pcs as j"
proof -
  note ll = fg_invD(1) [OF inv]
  have ok: "pc_ok l h as j (FLink x p c n)" using fg_invD(2) [OF inv j] pc by simp
  have loc: "neighbours l h x p c" "c = ll_tail l \<or> x < data_of h c"
    "cell h n = Inr \<lparr>nd_data = x, nd_next = Some c, nd_lock = Unlocked\<rparr>" using pc_okD(5) [OF ok] by auto
  have n: "n \<notin> set (nodes l as)" using pc_okD(3) [OF ok] by simp
  obtain w where w: "cell h p = Inr w" "nd_lock w = LockedBy j" using pc_okD(1) [OF ok, of p] by (auto simp: locked_by_def)
  have np: "p \<noteq> n" "c \<noteq> n" using pc_okD(1) [OF ok, of p] pc_okD(1) [OF ok, of c] loc(3) by (auto simp: locked_by_def)
  then have p: "p \<in> set (nodes l as)" and c: "c \<in> set (nodes l as)" using pc_okD(2) [OF ok] by auto
  let ?h = "set_cell h p (w\<lparr>nd_next := Some n\<rparr>)" and ?pc = "FUnlockPred True p c"
  have "nd_data \<lparr>nd_data = x, nd_next = Some c, nd_lock = Unlocked\<rparr> = x"
    "nd_next \<lparr>nd_data = x, nd_next = Some c, nd_lock = Unlocked\<rparr> = Some c" by simp_all
  then obtain as' where a: "ll_inv (l, ?h) as'" "set (nodes l as') = insert n (set (nodes l as))" "data_of ?h = data_of h"
    "data_of h ` set as' = insert x (data_of h ` set as)" "x \<notin> data_of h ` set as"
    by (rule ll_inv_link [OF ll p loc(1,2) w(1) loc(3) _ _ n])
  have cc: "cell ?h a = (if a = p then Inr (w\<lparr>nd_next := Some n\<rparr>) else cell h a)" for a by (rule cell_set [OF w(1)])
  have lb: "locked_by ?h a m = locked_by h a m" for a m using w by (auto simp: locked_by_def cc)
  have ok': "pc_ok l ?h as' j ?pc"
    using pc_okD(1) [OF ok] p c a(2) neighbours_nodes(2) [OF ll p loc(1)] by (auto simp: pc_ok_def lb)
  have un: "locked_by h n Unlocked" using loc(3) by (simp add: locked_by_def)
  have "fg_inv l ?h (pcs[j := ?pc]) as'"
    "map (status l ?h) (pcs[j := ?pc]) = (map (status l h) pcs)[j := status l ?h ?pc]"
    by (rule fg_inv_update [OF inv j a(1) ok']; use a(2) un in \<open>auto simp: pc cc lb\<close>)+
  moreover have "effect l h as (pcs ! j) ?h as' ?pc" using a(3-5) by (auto simp: effect_def pc)
  ultimately have "fg_good l h pcs as j ?pc ?h" unfolding fg_good_def by blast
  then show ?thesis using w by (intro fg_stepsI [of l j pcs h ?pc ?h]) (simp_all add: pc go_def upd_cell_Inr)
qed

lemma steps_Unlink:
  assumes inv: "fg_inv l h pcs as" and j: "j < length pcs" and pc: "pcs ! j = FUnlink x p c"
  shows "fg_steps l h pcs as j"
proof -
  note ll = fg_invD(1) [OF inv]
  have ok: "pc_ok l h as j (FUnlink x p c)" using fg_invD(2) [OF inv j] pc by simp
  have loc: "neighbours l h x p c" "c \<noteq> ll_tail l" "data_of h c = x" using pc_okD(5) [OF ok] by auto
  obtain w where w: "cell h p = Inr w" "nd_lock w = LockedBy j" using pc_okD(1) [OF ok, of p] by (auto simp: locked_by_def)
  have p: "p \<in> set (nodes l as)" using pc_okD(2) [OF ok] by auto
  have ne: "p \<noteq> c" by (rule neighbours_nodes(2) [OF ll p loc(1)])
  obtain as' u where a: "cell h c = Inr u" "ll_inv (l, set_cell h p (w\<lparr>nd_next := nd_next u\<rparr>)) as'"
    "set (nodes l as') = set (nodes l as) - {c}" "data_of (set_cell h p (w\<lparr>nd_next := nd_next u\<rparr>)) = data_of h"
    "data_of h ` set as' = data_of h ` set as - {x}" "x \<in> data_of h ` set as"
    by (rule ll_inv_unlinked [OF ll p loc w(1)])
  let ?h = "set_cell h p (w\<lparr>nd_next := nd_next u\<rparr>)" and ?pc = "FUnlockRemoved p c"
  have cc: "cell ?h a = (if a = p then Inr (w\<lparr>nd_next := nd_next u\<rparr>) else cell h a)" for a by (rule cell_set [OF w(1)])
  have lb: "locked_by ?h a m = locked_by h a m" for a m using w by (auto simp: locked_by_def cc)
  have ok': "pc_ok l ?h as' j ?pc" using pc_okD(1) [OF ok] p a(1,3) ne by (auto simp: pc_ok_def lb cc)
  have "fg_inv l ?h (pcs[j := ?pc]) as'"
    "map (status l ?h) (pcs[j := ?pc]) = (map (status l h) pcs)[j := status l ?h ?pc]"
    by (rule fg_inv_update [OF inv j a(2) ok']; use a(3) in \<open>auto simp: pc cc lb\<close>)+
  moreover have "effect l h as (pcs ! j) ?h as' ?pc" using a(4-6) by (auto simp: effect_def pc)
  ultimately have "fg_good l h pcs as j ?pc ?h" unfolding fg_good_def by blast
  then show ?thesis using w a(1) by (intro fg_stepsI [of l j pcs h ?pc ?h]) (simp_all add: pc go_def upd_cell_Inr)
qed

lemma steps_removed:
  assumes inv: "fg_inv l h pcs as" and j: "j < length pcs"
  shows "pcs ! j = FUnlockRemoved p c \<Longrightarrow> fg_steps l h pcs as j"
    "pcs ! j = FDestroyRemoved p c \<Longrightarrow> fg_steps l h pcs as j"
    "pcs ! j = FDeleteRemoved p c \<Longrightarrow> fg_steps l h pcs as j"
proof -
  note ok = fg_invD(2) [OF inv j]
  { assume pc: "pcs ! j = FUnlockRemoved p c"
    have okj: "pc_ok l h as j (FUnlockRemoved p c)" and ne: "p \<noteq> c" using ok pc by (auto simp: pc_ok_def)
    obtain v where v: "cell h c = Inr v" "nd_lock v = LockedBy j" using pc_okD(1) [OF okj, of c] by (auto simp: locked_by_def)
    let ?h = "set_cell h c (v\<lparr>nd_lock := Unlocked\<rparr>)"
    have "pc_ok l ?h as j (FDestroyRemoved p c)" using okj ne by (auto simp: pc_ok_def locked_by_def cell_set [OF v(1)])
    then have "fg_good l h pcs as j (FDestroyRemoved p c) ?h"
      by (rule good_own [OF inv j, rotated]) (auto simp: pc)
    then show "fg_steps l h pcs as j" using v
      by (intro fg_stepsI [of l j pcs h "FDestroyRemoved p c" ?h]) (simp_all add: pc go_def mutex_unlock_def) }
  { assume pc: "pcs ! j = FDestroyRemoved p c"
    have okj: "pc_ok l h as j (FDestroyRemoved p c)" and ne: "p \<noteq> c" using ok pc by (auto simp: pc_ok_def)
    obtain v where v: "cell h c = Inr v" "nd_lock v = Unlocked" using pc_okD(5) [OF okj] by (auto simp: locked_by_def)
    let ?h = "set_cell h c (v\<lparr>nd_lock := Uninit\<rparr>)"
    have "pc_ok l ?h as j (FDeleteRemoved p c)" using okj ne by (auto simp: pc_ok_def locked_by_def cell_set [OF v(1)])
    then have "fg_good l h pcs as j (FDeleteRemoved p c) ?h"
      by (rule good_own [OF inv j, rotated]) (auto simp: pc)
    then show "fg_steps l h pcs as j" using v
      by (intro fg_stepsI [of l j pcs h "FDeleteRemoved p c" ?h]) (simp_all add: pc go_def mutex_destroy_def) }
  { assume pc: "pcs ! j = FDeleteRemoved p c"
    have okj: "pc_ok l h as j (FDeleteRemoved p c)" and ne: "p \<noteq> c" using ok pc by (auto simp: pc_ok_def)
    obtain v where v: "cell h c = Inr v" using pc_okD(4) [OF okj] by auto
    let ?h = "free_cell h c"
    have "pc_ok l ?h as j (FUnlockCurr True p)" using okj ne by (auto simp: pc_ok_def locked_by_def cell_free)
    then have "fg_good l h pcs as j (FUnlockCurr True p) ?h"
      by (rule good_own [OF inv j, rotated]) (auto simp: pc cell_free)
    then show "fg_steps l h pcs as j" using v
      by (intro fg_stepsI [of l j pcs h "FUnlockCurr True p" ?h]) (simp_all add: pc go_def) }
qed

lemma fg_step_good:
  assumes "fg_inv l h pcs as" "j < length pcs"
  shows "fg_steps l h pcs as j"
proof (cases "pcs ! j")
  case FIdle
  then show ?thesis by (simp add: fg_steps_def)
next
  case (FReturn r)
  then show ?thesis by (simp add: fg_steps_def)
qed (erule steps_LockHead [OF assms] steps_ReadNext [OF assms] steps_LockCurr [OF assms] steps_unlocks [OF assms]
  steps_Test [OF assms] steps_Alloc [OF assms] steps_Link [OF assms] steps_Unlink [OF assms] steps_removed [OF assms])+

section \<open>Simulation\<close>

definition fg_refines :: "fg_state \<Rightarrow> set_state \<Rightarrow> bool" where
  "fg_refines s a \<longleftrightarrow> (\<exists>as. fg_inv (fg_list s) (fg_heap s) (fg_pcs s) as \<and>
     a = \<lparr>ss_set = data_of (fg_heap s) ` set as, ss_calls = map (status (fg_list s) (fg_heap s)) (fg_pcs s)\<rparr>)"

inductive_cases fg_transE: "fg_trans s e s'"

interpretation fg: simulation fg_trans set_trans fg_refines
proof unfold_locales
  fix s a e s'
  assume r: "fg_refines s a" and t: "fg_trans s e s'"
  obtain as where inv: "fg_inv (fg_list s) (fg_heap s) (fg_pcs s) as"
    and a: "a = \<lparr>ss_set = data_of (fg_heap s) ` set as, ss_calls = map (status (fg_list s) (fg_heap s)) (fg_pcs s)\<rparr>"
    using r by (auto simp: fg_refines_def)
  from t show "\<exists>a'. (set_trans a e a' \<or> e = None \<and> a' = a) \<and> fg_refines s' a'"
  proof (rule fg_transE)
    fix i q
    assume e: "e = Some (Call i q)" and s': "s' = s\<lparr>fg_pcs := (fg_pcs s)[i := FLockHead q]\<rparr>"
      and i: "i < length (fg_pcs s)" and pc: "fg_pcs s ! i = FIdle"
    note m = fg_move_thread [OF inv i, of "FLockHead q"]
    have "set_trans a e (a\<lparr>ss_calls := (ss_calls a)[i := Pending q]\<rparr>)"
      unfolding e by (rule set_call) (simp_all add: a i pc)
    moreover have "fg_refines s' (a\<lparr>ss_calls := (ss_calls a)[i := Pending q]\<rparr>)"
      using m by (auto simp: fg_refines_def s' a pc)
    ultimately show ?thesis by blast
  next
    fix i pc h
    assume e: "e = None" and s': "s' = s\<lparr>fg_pcs := (fg_pcs s)[i := pc], fg_heap := h\<rparr>"
      and i: "i < length (fg_pcs s)" and st: "fg_step (fg_list s) i (fg_pcs s ! i) (fg_heap s) = Inr (Some (pc, h))"
    have "fg_good (fg_list s) (fg_heap s) (fg_pcs s) as i pc h" using fg_step_good [OF inv i] st by (auto simp: fg_steps_def)
    then obtain as' where g: "fg_inv (fg_list s) h ((fg_pcs s)[i := pc]) as'"
      "map (status (fg_list s) h) ((fg_pcs s)[i := pc]) =
         (map (status (fg_list s) (fg_heap s)) (fg_pcs s))[i := status (fg_list s) h pc]"
      "effect (fg_list s) (fg_heap s) as (fg_pcs s ! i) h as' pc" by (auto simp: fg_good_def)
    let ?a = "\<lparr>ss_set = data_of h ` set as', ss_calls = (ss_calls a)[i := status (fg_list s) h pc]\<rparr>"
    have "fg_refines s' ?a" using g(1,2) by (auto simp: fg_refines_def s' a)
    moreover from g(3) have "set_trans a e ?a \<or> e = None \<and> ?a = a" unfolding effect_def
    proof (elim disjE exE conjE)
      assume "data_of h ` set as' = data_of (fg_heap s) ` set as" "status (fg_list s) h pc = status (fg_list s) (fg_heap s) (fg_pcs s ! i)"
      then show ?thesis using e i by (simp add: a list_update_same_conv)
    next
      fix q r
      assume "status (fg_list s) (fg_heap s) (fg_pcs s ! i) = Pending q"
        "set_spec (\<lambda>x. True) q (data_of (fg_heap s) ` set as) = (r, data_of h ` set as')" "status (fg_list s) h pc = Done r"
      then have "set_trans a None (a\<lparr>ss_calls := (ss_calls a)[i := Done r], ss_set := data_of h ` set as'\<rparr>)"
        using i by (intro set_effect) (simp_all add: a)
      then show ?thesis using \<open>status (fg_list s) h pc = Done r\<close> by (simp add: e a)
    qed
    ultimately show ?thesis by blast
  next
    fix i r
    assume e: "e = Some (Ret i r)" and s': "s' = s\<lparr>fg_pcs := (fg_pcs s)[i := FIdle]\<rparr>"
      and i: "i < length (fg_pcs s)" and pc: "fg_pcs s ! i = FReturn r"
    note m = fg_move_thread [OF inv i, of FIdle]
    have "set_trans a e (a\<lparr>ss_calls := (ss_calls a)[i := NoCall]\<rparr>)"
      unfolding e by (rule set_ret) (simp_all add: a i pc)
    moreover have "fg_refines s' (a\<lparr>ss_calls := (ss_calls a)[i := NoCall]\<rparr>)"
      using m by (auto simp: fg_refines_def s' a pc)
    ultimately show ?thesis by blast
  qed
qed

lemma fg_init_refines: "fg_refines (fg_init n Unlocked h) (set_init n)"
proof -
  let ?l = "fg_list (fg_init n Unlocked h)" and ?h = "fg_heap (fg_init n Unlocked h)"
  have e: "(?l, ?h) = LinkedList_with (lnode.fields Unlocked) (lnode.fields Unlocked) h"
    "fg_pcs (fg_init n Unlocked h) = replicate n FIdle"
    by (simp_all add: fg_init_def FGLinkedList_def split: prod.splits)
  have ll: "ll_inv (?l, ?h) []" unfolding e(1) by (rule LinkedList_inv)
  have "locked_by ?h (ll_head ?l) Unlocked" "locked_by ?h (ll_tail ?l) Unlocked"
    by (simp_all add: locked_by_def fg_init_def FGLinkedList_def LinkedList_with_def new_cell_def cell_def set_cell_def
      nth_append lnode.defs)
  then have "fg_inv ?l ?h (replicate n FIdle) []" using ll by (auto simp: fg_inv_def pc_ok_def nodes_def)
  then show ?thesis by (auto simp: fg_refines_def e(2) set_init_def intro!: exI [of _ "[]"])
qed

lemma fg_reachable_inv:
  assumes "exec fg_trans (fg_init n Unlocked h) es s"
  obtains as where "fg_inv (fg_list s) (fg_heap s) (fg_pcs s) as"
  using fg.exec_simulates [OF assms fg_init_refines] that by (auto simp: fg_refines_def)

section \<open>Waiting\<close>

text \<open>
  A thread that holds a node waits only for the next node of the list. So of the threads that hold a node the one
  furthest down the list does not wait, and the threads at the head do not wait for ever for nobody.
\<close>

lemma waiting_holds:
  assumes "waits l h pc" "a \<in> held pc"
  obtains q c where "pc = FLockCurr q a c"
  using assms by (cases pc) auto

lemma fg_no_chain:
  assumes inv: "fg_inv l h pcs as" and w: "\<forall>i < length pcs. waits l h (pcs ! i)"
  shows "i < length pcs \<Longrightarrow> pcs ! i = FLockCurr q p c \<Longrightarrow> nodes l as = us @ p # vs \<Longrightarrow> False"
proof (induction vs arbitrary: i q p c us rule: length_induct)
  case (1 vs)
  note ll = fg_invD(1) [OF inv]
  have d: "distinct (nodes l as)" using ll by (simp add: ll_inv_def)
  have ok: "pc_ok l h as i (FLockCurr q p c)" using fg_invD(2) [OF inv 1(2)] 1(3) by simp
  have nb: "neighbours l h (op_value q) p c" and p: "p \<in> set (nodes l as)" using pc_okD(2,5) [OF ok] by auto
  have "p \<noteq> ll_tail l" "follow h p = Inr c" using nb d by (auto simp: neighbours_def before_def nodes_def)
  then obtain us' vs' where n: "nodes l as = us' @ p # c # vs'" by (rule ll_inv_split [OF ll p])
  then have vs: "us @ [p] @ vs = us' @ [p] @ (c # vs')" using 1(4) by simp
  have "p \<notin> set us" "p \<notin> set vs" using d unfolding 1(4) by auto
  then have eq: "us = us'" "vs = c # vs'" using vs append_Cons_eq_iff [of p us vs us' "c # vs'"] by auto
  have "\<not> locked_by h c Unlocked" using w 1(2,3) by force
  moreover have "c \<in> set (nodes l as)" using n by simp
  ultimately obtain k where k: "k < length pcs" "c \<in> held (pcs ! k)" using fg_invD(3) [OF inv] by blast
  then obtain q' c' where "pcs ! k = FLockCurr q' c c'" using w waiting_holds by blast
  moreover have "nodes l as = (us @ [p]) @ c # vs'" using n eq(1) by simp
  ultimately show False using 1(1) k(1) eq(2) by (metis length_Cons lessI)
qed

lemma fg_all_wait:
  assumes inv: "fg_inv l h pcs as" and w: "\<forall>i < length pcs. waits l h (pcs ! i)" and i: "i < length pcs"
  shows "pcs ! i = FIdle \<or> (\<exists>r. pcs ! i = FReturn r)"
proof -
  have nc: "pcs ! k \<noteq> FLockCurr q p c" if k: "k < length pcs" for k q p c
  proof
    assume e: "pcs ! k = FLockCurr q p c"
    have "p \<in> set (nodes l as)" using pc_okD(2) [OF fg_invD(2) [OF inv k]] e by simp
    then obtain us vs where "nodes l as = us @ p # vs" by (meson split_list)
    then show False by (rule fg_no_chain [OF inv w k e])
  qed
  have "pcs ! i \<noteq> FLockHead q" for q
  proof
    assume "pcs ! i = FLockHead q"
    then have "\<not> locked_by h (ll_head l) Unlocked" using w i by force
    moreover have "ll_head l \<in> set (nodes l as)" by (simp add: nodes_def)
    ultimately obtain k where k: "k < length pcs" "ll_head l \<in> held (pcs ! k)" using fg_invD(3) [OF inv] by blast
    then show False using w waiting_holds nc by metis
  qed
  moreover have "waits l h (pcs ! i)" using w i by blast
  ultimately show ?thesis using nc [OF i] by (cases "pcs ! i") auto
qed

section \<open>A tail whose mutex is not free\<close>

text \<open>
  If the mutex that the constructor leaves out is not by chance an unlocked one, no thread gets past it: the calls come as far as
  the lock of the tail, and the list stays empty.
\<close>

fun stuck_pc :: "linked_list \<Rightarrow> fg_pc \<Rightarrow> bool" where
  "stuck_pc l FIdle = True"
| "stuck_pc l (FLockHead q) = True"
| "stuck_pc l (FReadNext q p) = (p = ll_head l)"
| "stuck_pc l (FLockCurr q p c) = (p = ll_head l \<and> c = ll_tail l)"
| "stuck_pc l pc = False"

definition stuck_inv :: "mutex \<Rightarrow> linked_list \<Rightarrow> lnode cells \<Rightarrow> fg_pc list \<Rightarrow> bool" where
  "stuck_inv m l h pcs \<longleftrightarrow> m \<noteq> Unlocked \<and> ll_inv (l, h) [] \<and> locked_by h (ll_tail l) m \<and> \<not> locked_by h (ll_head l) Uninit \<and>
     (\<forall>pc \<in> set pcs. stuck_pc l pc)"

definition stuck_refines :: "mutex \<Rightarrow> fg_state \<Rightarrow> set_state \<Rightarrow> bool" where
  "stuck_refines m s a \<longleftrightarrow> stuck_inv m (fg_list s) (fg_heap s) (fg_pcs s) \<and> ss_set a = {} \<and>
     ss_calls a = map (status (fg_list s) (fg_heap s)) (fg_pcs s)"

lemma stuck_status: "stuck_pc l pc \<Longrightarrow> status l h' pc = status l h pc"
  by (cases pc) auto

lemma stuck_step_error:
  assumes "stuck_inv m l h pcs" "stuck_pc l pc"
  shows "fg_step l j pc h = Inl e \<longleftrightarrow>
    m = Uninit \<and> (\<exists>q. pc = FLockCurr q (ll_head l) (ll_tail l)) \<and> e = Panic ''lock of a mutex that is not initialised''"
proof -
  obtain v w where v: "cell h (ll_head l) = Inr v" "nd_lock v \<noteq> Uninit" "cell h (ll_tail l) = Inr w" "nd_lock w = m" "m \<noteq> Unlocked"
    and f: "follow h (ll_head l) = Inr (ll_tail l)"
    using assms(1) by (auto simp: stuck_inv_def locked_by_def ll_inv_def nodes_def linked_def)
  show ?thesis using assms(2) v f by (cases pc) (auto simp: lock_or_wait_def mutex_lock_def split: mutex.splits)
qed

lemma stuck_step:
  assumes "stuck_inv m l h pcs" "stuck_pc l pc" "fg_step l j pc h = Inr (Some (pc', h'))"
  shows "stuck_inv m l h' (pcs[j := pc'])" "status l h' pc' = status l h pc"
proof -
  obtain v w where v: "cell h (ll_head l) = Inr v" "nd_lock v \<noteq> Uninit" "cell h (ll_tail l) = Inr w" "nd_lock w = m" "m \<noteq> Unlocked"
    and f: "follow h (ll_head l) = Inr (ll_tail l)" and i: "ll_inv (l, h) []" "ll_head l \<noteq> ll_tail l" "\<forall>pc \<in> set pcs. stuck_pc l pc"
    using assms(1) by (auto simp: stuck_inv_def locked_by_def ll_inv_def nodes_def linked_def)
  consider (lock) q where "pc = FLockHead q" "nd_lock v = Unlocked" "pc' = FReadNext q (ll_head l)"
      "h' = set_cell h (ll_head l) (v\<lparr>nd_lock := LockedBy j\<rparr>)"
    | (read) q where "pc = FReadNext q (ll_head l)" "pc' = FLockCurr q (ll_head l) (ll_tail l)" "h' = h"
    using assms(2,3) v f by (cases pc) (auto simp: lock_or_wait_def mutex_lock_def split: mutex.splits)
  then have "ll_inv (l, h') [] \<and> locked_by h' (ll_tail l) m \<and> \<not> locked_by h' (ll_head l) Uninit \<and> stuck_pc l pc' \<and>
      status l h' pc' = status l h pc"
    by cases (use v i in \<open>auto simp: locked_by_def cell_set [OF v(1)] set_lock_inv [OF v(1)]\<close>)
  then show "stuck_inv m l h' (pcs[j := pc'])" "status l h' pc' = status l h pc"
    using v(5) i(3) set_update_subset_insert [of pcs j pc'] by (auto simp: stuck_inv_def)
qed

interpretation stuck: simulation fg_trans set_trans "stuck_refines m" for m
proof unfold_locales
  fix s a e s'
  assume r: "stuck_refines m s a" and t: "fg_trans s e s'"
  let ?l = "fg_list s" and ?h = "fg_heap s" and ?pcs = "fg_pcs s"
  have i: "stuck_inv m ?l ?h ?pcs" "ss_set a = {}" "ss_calls a = map (status ?l ?h) ?pcs" using r by (auto simp: stuck_refines_def)
  have pc: "stuck_pc ?l (?pcs ! k)" if "k < length ?pcs" for k using i(1) that by (auto simp: stuck_inv_def)
  from t show "\<exists>a'. (set_trans a e a' \<or> e = None \<and> a' = a) \<and> stuck_refines m s' a'"
  proof cases
    case (fg_call k q)
    have "set_trans a e (a\<lparr>ss_calls := (ss_calls a)[k := Pending q]\<rparr>)"
      unfolding fg_call(1) by (rule set_call) (simp_all add: i fg_call)
    moreover have "stuck_refines m s' (a\<lparr>ss_calls := (ss_calls a)[k := Pending q]\<rparr>)"
      using i set_update_subset_insert [of ?pcs k "FLockHead q"] by (auto simp: stuck_refines_def stuck_inv_def fg_call map_update)
    ultimately show ?thesis by blast
  next
    case (fg_move k pc' h')
    note st = stuck_step [OF i(1) pc [OF fg_move(3)] fg_move(4)]
    have eq: "map (status ?l h') ?pcs = map (status ?l ?h) ?pcs"
      using i(1) by (auto simp: stuck_inv_def intro: stuck_status)
    have "map (status ?l h') (?pcs[k := pc']) = (map (status ?l ?h) ?pcs)[k := status ?l ?h (?pcs ! k)]"
      by (simp only: map_update eq st(2))
    also have "\<dots> = map (status ?l ?h) ?pcs" using fg_move(3) by (simp add: list_update_same_conv)
    finally have "stuck_refines m s' a" using st(1) i by (simp add: stuck_refines_def fg_move)
    then show ?thesis using fg_move(1) by blast
  next
    case (fg_ret k r)
    then show ?thesis using pc [OF fg_ret(3)] by simp
  qed
qed

lemma stuck_init: "m \<noteq> Unlocked \<Longrightarrow> stuck_refines m (fg_init n m h) (set_init n)"
proof -
  assume m: "m \<noteq> Unlocked"
  let ?l = "fg_list (fg_init n m h)" and ?h = "fg_heap (fg_init n m h)"
  have e: "(?l, ?h) = LinkedList_with (lnode.fields Unlocked) (lnode.fields m) h" "fg_pcs (fg_init n m h) = replicate n FIdle"
    by (simp_all add: fg_init_def FGLinkedList_def split: prod.splits)
  have "ll_inv (?l, ?h) []" unfolding e(1) by (rule LinkedList_inv)
  moreover have "\<not> locked_by ?h (ll_head ?l) Uninit" "locked_by ?h (ll_tail ?l) m"
    by (simp_all add: locked_by_def fg_init_def FGLinkedList_def LinkedList_with_def new_cell_def cell_def set_cell_def
      nth_append lnode.defs)
  ultimately show ?thesis using m by (simp add: stuck_refines_def stuck_inv_def e(2) set_init_def)
qed

lemma stuck_reachable:
  assumes "exec fg_trans (fg_init n m h) es s" "m \<noteq> Unlocked"
  shows "stuck_inv m (fg_list s) (fg_heap s) (fg_pcs s)"
  using stuck.exec_simulates [OF assms(1) stuck_init [OF assms(2)]] by (auto simp: stuck_refines_def)

lemma stuck_no_return:
  assumes "exec fg_trans (fg_init n m h) es s" "m \<noteq> Unlocked"
  shows "Ret i r \<notin> set es"
  using assms
proof (induction rule: exec.induct)
  case (exec_event es s1 e s2)
  have "e \<noteq> Ret i r"
  proof
    assume "e = Ret i r"
    with exec_event.hyps(2) have "fg_pcs s1 ! i = FReturn r" "i < length (fg_pcs s1)" by (auto elim: fg_transE)
    then show False using stuck_reachable [OF exec_event.hyps(1) exec_event.prems]
      by (metis nth_mem stuck_inv_def stuck_pc.simps(16))
  qed
  then show ?case using exec_event by auto
qed simp_all

section \<open>Running an interleaving\<close>

datatype fg_action = Invoke nat set_op | Move nat | Finish nat

definition fg_act :: "fg_action \<Rightarrow> fg_state \<Rightarrow> (set_event list \<times> fg_state) option" where
  "fg_act act s =
     (case act of
        Invoke i q \<Rightarrow> (if i < length (fg_pcs s) \<and> fg_pcs s ! i = FIdle
          then Some ([Call i q], s\<lparr>fg_pcs := (fg_pcs s)[i := FLockHead q]\<rparr>) else None)
      | Move i \<Rightarrow> (if i < length (fg_pcs s)
          then case fg_step (fg_list s) i (fg_pcs s ! i) (fg_heap s) of
            Inr (Some (pc, h)) \<Rightarrow> Some ([], s\<lparr>fg_pcs := (fg_pcs s)[i := pc], fg_heap := h\<rparr>)
          | _ \<Rightarrow> None else None)
      | Finish i \<Rightarrow> (if i < length (fg_pcs s)
          then case fg_pcs s ! i of FReturn r \<Rightarrow> Some ([Ret i r], s\<lparr>fg_pcs := (fg_pcs s)[i := FIdle]\<rparr>) | _ \<Rightarrow> None
          else None))"

fun fg_drive :: "fg_action list \<Rightarrow> fg_state \<Rightarrow> (set_event list \<times> fg_state) option" where
  "fg_drive [] s = Some ([], s)"
| "fg_drive (a # as) s =
     (case fg_act a s of None \<Rightarrow> None
      | Some (es, s1) \<Rightarrow> (case fg_drive as s1 of None \<Rightarrow> None | Some (fs, s2) \<Rightarrow> Some (es @ fs, s2)))"

lemma fg_act_exec:
  assumes "fg_act a s = Some (fs, s')" "exec fg_trans s0 es s"
  shows "exec fg_trans s0 (es @ fs) s'"
proof (cases a)
  case (Invoke i q)
  then have "fs = [Call i q] \<and> fg_trans s (Some (Call i q)) s'" using assms(1)
    by (auto simp: fg_act_def intro: fg_call split: if_splits)
  then show ?thesis using assms(2) exec_event by metis
next
  case (Move i)
  then have "fs = [] \<and> fg_trans s None s'" using assms(1)
    by (auto simp: fg_act_def intro: fg_move split: if_splits sum.splits option.splits prod.splits)
  then show ?thesis using assms(2) exec_silent by fastforce
next
  case (Finish i)
  then have "\<exists>r. fs = [Ret i r] \<and> fg_trans s (Some (Ret i r)) s'" using assms(1)
    by (auto simp: fg_act_def intro: fg_ret split: if_splits fg_pc.splits)
  then show ?thesis using assms(2) exec_event by metis
qed

lemma fg_drive_exec: "fg_drive as s = Some (fs, s') \<Longrightarrow> exec fg_trans s0 es s \<Longrightarrow> exec fg_trans s0 (es @ fs) s'"
proof (induction as arbitrary: s es fs)
  case (Cons a as)
  from Cons.prems(1) obtain f1 s1 f2 where a: "fg_act a s = Some (f1, s1)" "fg_drive as s1 = Some (f2, s')" "fs = f1 @ f2"
    by (auto split: option.splits)
  from Cons.IH [OF a(2) fg_act_exec [OF a(1) Cons.prems(2)]] a(3) show ?case by simp
qed simp

lemma fg_drive_reaches:
  assumes "(case fg_drive as s of Some (fs, s') \<Rightarrow> fs = es | None \<Rightarrow> False)"
  obtains s' where "exec fg_trans s es s'" "fg_drive as s = Some (es, s')"
  using assms fg_drive_exec [OF _ exec_refl, of as s] by (auto split: option.splits)

section \<open>Printing and destruction\<close>

text \<open>
  \<open>print\<close> holds the mutex of the head only and walks along the list without taking the mutexes of the nodes. Its places carry
  what it has written.
\<close>

datatype pr_pc = PLock | PFirst | PAt nat "u64 list" | PUnlock "u64 list" bool | PDone "u64 list" bool

fun pr_step :: "linked_list \<Rightarrow> nat \<Rightarrow> pr_pc \<Rightarrow> lnode cells \<Rightarrow> (pr_pc \<times> lnode cells) option res" where
  "pr_step l i PLock h =
     (case mutex_lock i (ll_head l) h of
        Inr h' \<Rightarrow> Inr (Some (PFirst, h')) | Inl e \<Rightarrow> if e = Diverges then Inr None else Inl e)"
| "pr_step l i PFirst h = bindR (follow h (ll_head l)) (\<lambda>c. Inr (Some (PAt c [], h)))"
| "pr_step l i (PAt a vs) h =
     (if a = ll_tail l then bindR (follow h (ll_head l)) (\<lambda>c. Inr (Some (PUnlock vs (c = ll_tail l), h)))
      else bindR (cell h a) (\<lambda>v. bindR (follow h a) (\<lambda>b. Inr (Some (PAt b (vs @ [nd_data v]), h)))))"
| "pr_step l i (PUnlock vs e) h = bindR (mutex_unlock i (ll_head l) h) (\<lambda>h'. Inr (Some (PDone vs e, h')))"
| "pr_step l i (PDone vs e) h = Inr None"

fun pr_steps :: "nat \<Rightarrow> linked_list \<Rightarrow> nat \<Rightarrow> pr_pc \<Rightarrow> lnode cells \<Rightarrow> (pr_pc \<times> lnode cells) res" where
  "pr_steps 0 l i pc h = Inr (pc, h)"
| "pr_steps (Suc n) l i pc h =
     bindR (pr_step l i pc h) (\<lambda>r. case r of None \<Rightarrow> Inr (pc, h) | Some (pc', h') \<Rightarrow> pr_steps n l i pc' h')"

fun fg_destroy_loop :: "nat \<Rightarrow> nat \<Rightarrow> nat \<Rightarrow> nat \<Rightarrow> lnode cells \<Rightarrow> lnode cells res" where
  "fg_destroy_loop n i t a h =
     (if a = t then
        bindR (mutex_unlock i a h) (\<lambda>h1. bindR (mutex_destroy a h1) (\<lambda>h2. Inr (free_cell h2 a)))
      else
        bindR (follow h a) (\<lambda>b.
        bindR (mutex_unlock i a h) (\<lambda>h1. bindR (mutex_destroy a h1) (\<lambda>h2.
          case n of 0 \<Rightarrow> Inl Diverges | Suc m \<Rightarrow> fg_destroy_loop m i t b (free_cell h2 a)))))"

declare fg_destroy_loop.simps [simp del]

definition fg_destroy :: "nat \<Rightarrow> lk_state \<Rightarrow> lk_state res" where
  "fg_destroy i s =
     (case s of (l, h) \<Rightarrow>
        bindR (fg_destroy_loop (length h) i (ll_tail l) (ll_head l) h) (\<lambda>h'. Inr (l\<lparr>ll_head := ll_tail l\<rparr>, h')))"

text \<open>
  A thread removes \<open>7\<close> from the list of \<open>5\<close> and \<open>7\<close> and is past the head when another begins to print. The node of \<open>7\<close> is deleted
  while the printer stands before it, and the printer reads it.
\<close>

definition add_alone :: "u64 \<Rightarrow> nat \<Rightarrow> fg_action list" where
  "add_alone x n = Invoke 0 (OpAdd x) # replicate n (Move 0) @ [Finish 0]"

lemma print_reads_deleted_node:
  "\<exists>s1 s2 es fs h. exec fg_trans (fg_init 2 Unlocked []) es s1 \<and>
     pr_steps 3 (fg_list s1) 1 PLock (fg_heap s1) = Inr (PAt 3 [5], h) \<and>
     exec fg_trans (s1\<lparr>fg_heap := h\<rparr>) fs s2 \<and>
     pr_step (fg_list s2) 1 (PAt 3 [5]) (fg_heap s2) = Inl BadPtr"
proof -
  let ?as = "add_alone 5 8 @ add_alone 7 12 @ Invoke 0 (OpRemove 7) # replicate 5 (Move 0)"
  let ?ok = "case fg_drive ?as (fg_init 2 Unlocked []) of None \<Rightarrow> False
    | Some (es, s1) \<Rightarrow> (case pr_steps 3 (fg_list s1) 1 PLock (fg_heap s1) of Inl _ \<Rightarrow> False
      | Inr (pc, h) \<Rightarrow> pc = PAt 3 [5] \<and> (case fg_drive (replicate 7 (Move 0)) (s1\<lparr>fg_heap := h\<rparr>) of None \<Rightarrow> False
        | Some (fs, s2) \<Rightarrow> pr_step (fg_list s2) 1 pc (fg_heap s2) = Inl BadPtr))"
  have ok: ?ok by code_simp
  then obtain es s1 where 1: "fg_drive ?as (fg_init 2 Unlocked []) = Some (es, s1)" by (auto split: option.splits)
  then obtain h where 2: "pr_steps 3 (fg_list s1) 1 PLock (fg_heap s1) = Inr (PAt 3 [5], h)"
    using ok by (auto split: sum.splits)
  then obtain fs s2 where 3: "fg_drive (replicate 7 (Move 0)) (s1\<lparr>fg_heap := h\<rparr>) = Some (fs, s2)"
    "pr_step (fg_list s2) 1 (PAt 3 [5]) (fg_heap s2) = Inl BadPtr"
    using ok 1 by (auto split: option.splits)
  have "exec fg_trans (fg_init 2 Unlocked []) es s1" "exec fg_trans (s1\<lparr>fg_heap := h\<rparr>) fs s2"
    using fg_drive_exec [OF 1 exec_refl] fg_drive_exec [OF 3(1) exec_refl] by simp_all
  then show ?thesis using 2 3(2) by blast
qed

lemma fg_destroy_undefined:
  assumes "ll_inv (l, h) as" "head_lock (l, h) = Inr Unlocked"
  shows "fg_destroy i (l, h) = Inl (Panic ''unlock of a mutex that is not held'')"
proof -
  have "ll_head l \<noteq> ll_tail l" "\<exists>b. follow h (ll_head l) = Inr b"
    using assms(1) by (cases as; auto simp: ll_inv_def nodes_def linked_def)+
  moreover have "mutex_unlock i (ll_head l) h = Inl (Panic ''unlock of a mutex that is not held'')"
    using assms(2) by (auto simp: head_lock_def mutex_unlock_def bindR_eq_Inr)
  ultimately show ?thesis by (auto simp: fg_destroy_def fg_destroy_loop.simps)
qed

text \<open>The first call on a new list meets the mutex that the constructor has left out.\<close>

lemma FGLinkedList_tail_uninitialised:
  "(case fg_drive [Invoke 0 (OpAdd 5), Move 0, Move 0] (fg_init 1 Uninit []) of None \<Rightarrow> False
    | Some (es, s) \<Rightarrow> fg_step (fg_list s) 0 (fg_pcs s ! 0) (fg_heap s) = Inl (Panic ''lock of a mutex that is not initialised''))"
  by code_simp

section \<open>Properties\<close>

text \<open>C4: Threads that add, remove and look up on the list with a lock per node, in any interleaving of their
  steps, cannot be told apart from threads on a set whose operations each take effect in one step: every
  sequence of calls and returns of the list is one of the set, and the list holds the set's values. This holds whatever the
  mutex of the tail, which the constructor does not initialise, holds (\<open>m\<close>); unless it is by chance an unlocked one no call
  returns at all.\<close>

theorem fg_list_linearizable:
  assumes "exec fg_trans (fg_init n m h) es s"
  shows "\<exists>a. exec set_trans (set_init n) es a \<and> ll_represents (fg_list s, fg_heap s) (ss_set a)"
proof (cases "m = Unlocked")
  case True
  then obtain a where "exec set_trans (set_init n) es a" "fg_refines s a"
    using fg.exec_simulates [OF _ fg_init_refines] assms by blast
  moreover from this(2) have "ll_represents (fg_list s, fg_heap s) (ss_set a)"
    by (auto simp: fg_refines_def ll_represents_def fg_inv_def)
  ultimately show ?thesis by blast
next
  case False
  obtain a where a: "exec set_trans (set_init n) es a" "stuck_refines m s a"
    using stuck.exec_simulates [OF assms stuck_init [OF False]] by blast
  then have "ll_represents (fg_list s, fg_heap s) (ss_set a)"
    by (auto simp: stuck_refines_def stuck_inv_def ll_represents_def)
  with a(1) show ?thesis by blast
qed

text \<open>Two calls at once: thread 1 waits at the head and looks up the value while thread 0 adds it.\<close>

definition overlapping :: "fg_action list" where
  "overlapping = [Invoke 0 (OpAdd 5), Move 0, Invoke 1 (OpContains 5)] @ replicate 7 (Move 0) @ [Finish 0] @
     replicate 6 (Move 1) @ [Finish 1]"

theorem fg_list_linearizable_witness:
  "\<exists>s a. exec fg_trans (fg_init 2 Unlocked []) [Call 0 (OpAdd 5), Call 1 (OpContains 5), Ret 0 True, Ret 1 True] s \<and>
     exec set_trans (set_init 2) [Call 0 (OpAdd 5), Call 1 (OpContains 5), Ret 0 True, Ret 1 True] a \<and>
     ll_represents (fg_list s, fg_heap s) (ss_set a)"
proof -
  have "(case fg_drive overlapping (fg_init 2 Unlocked []) of
      Some (fs, s') \<Rightarrow> fs = [Call 0 (OpAdd 5), Call 1 (OpContains 5), Ret 0 True, Ret 1 True] | None \<Rightarrow> False)"
    by code_simp
  then obtain s where s: "exec fg_trans (fg_init 2 Unlocked []) [Call 0 (OpAdd 5), Call 1 (OpContains 5), Ret 0 True, Ret 1 True] s"
    by (rule fg_drive_reaches)
  from fg_list_linearizable [OF this] s show ?thesis by blast
qed

text \<open>C6: The one thing that can go wrong for a thread on the list with a lock per node, in any interleaving, is the
  mutex of the tail that the constructor forgets to initialise: a step fails exactly if that mutex is still in its undefined state
  and the thread locks it, having come from the head. In particular, when its memory happens to hold an unlocked mutex, no thread
  ever follows a null pointer, touches a deleted node, locks a mutex that is not initialised, unlocks one that it does not
  hold or destroys one that is in use.\<close>

theorem fg_list_safe:
  assumes "exec fg_trans (fg_init n m h) es s" "i < length (fg_pcs s)"
  shows "fg_step (fg_list s) i (fg_pcs s ! i) (fg_heap s) = Inl e \<longleftrightarrow>
    m = Uninit \<and> (\<exists>q. fg_pcs s ! i = FLockCurr q (ll_head (fg_list s)) (ll_tail (fg_list s))) \<and>
    e = Panic ''lock of a mutex that is not initialised''"
proof (cases "m = Unlocked")
  case True
  then obtain as where "fg_inv (fg_list s) (fg_heap s) (fg_pcs s) as" using fg_reachable_inv assms(1) by blast
  from fg_step_good [OF this assms(2)] show ?thesis using True by (auto simp: fg_steps_def)
next
  case False
  note i = stuck_reachable [OF assms(1) False]
  show ?thesis by (rule stuck_step_error [OF i]) (use i assms(2) in \<open>auto simp: stuck_inv_def\<close>)
qed

lemma waiting_at_head:
  "\<exists>s. exec fg_trans (fg_init 2 Unlocked []) [Call 0 (OpAdd 5), Call 1 (OpContains 5)] s \<and> length (fg_pcs s) = 2 \<and>
     fg_pcs s ! 1 = FLockHead (OpContains 5) \<and> fg_step (fg_list s) 1 (fg_pcs s ! 1) (fg_heap s) = Inr None"
proof -
  let ?as = "[Invoke 0 (OpAdd 5), Move 0, Invoke 1 (OpContains 5)]"
  have ok: "case fg_drive ?as (fg_init 2 Unlocked []) of None \<Rightarrow> False
    | Some (fs, s) \<Rightarrow> fs = [Call 0 (OpAdd 5), Call 1 (OpContains 5)] \<and> length (fg_pcs s) = 2 \<and>
        fg_pcs s ! 1 = FLockHead (OpContains 5) \<and> fg_step (fg_list s) 1 (fg_pcs s ! 1) (fg_heap s) = Inr None" by code_simp
  then obtain s where s: "fg_drive ?as (fg_init 2 Unlocked []) = Some ([Call 0 (OpAdd 5), Call 1 (OpContains 5)], s)"
    by (auto split: option.splits)
  have "exec fg_trans (fg_init 2 Unlocked []) [Call 0 (OpAdd 5), Call 1 (OpContains 5)] s"
    using fg_drive_exec [OF s exec_refl] by simp
  with ok s show ?thesis by auto
qed

text \<open>A thread that moves on a list whose tail has an unlocked mutex, and one that has come to the tail of a list as it is built.\<close>

theorem fg_list_safe_witness:
  "(\<exists>s. exec fg_trans (fg_init 2 Unlocked []) [Call 0 (OpAdd 5), Call 1 (OpContains 5)] s \<and>
     fg_step (fg_list s) 0 (fg_pcs s ! 0) (fg_heap s) \<noteq> Inl BadPtr) \<and>
   (\<exists>s. exec fg_trans (fg_init 1 Uninit []) [Call 0 (OpAdd 5)] s \<and>
     fg_step (fg_list s) 0 (fg_pcs s ! 0) (fg_heap s) = Inl (Panic ''lock of a mutex that is not initialised''))"
proof
  obtain s where s: "exec fg_trans (fg_init 2 Unlocked []) [Call 0 (OpAdd 5), Call 1 (OpContains 5)] s" "length (fg_pcs s) = 2"
    using waiting_at_head by blast
  from fg_list_safe [OF s(1), of 0 BadPtr] s show "\<exists>s. exec fg_trans (fg_init 2 Unlocked []) [Call 0 (OpAdd 5), Call 1 (OpContains 5)] s \<and>
     fg_step (fg_list s) 0 (fg_pcs s ! 0) (fg_heap s) \<noteq> Inl BadPtr" by auto
  let ?as = "[Invoke 0 (OpAdd 5), Move 0, Move 0]"
  have ok: "case fg_drive ?as (fg_init 1 Uninit []) of None \<Rightarrow> False
    | Some (fs, s) \<Rightarrow> fs = [Call 0 (OpAdd 5)] \<and> length (fg_pcs s) = 1 \<and>
        fg_pcs s ! 0 = FLockCurr (OpAdd 5) (ll_head (fg_list s)) (ll_tail (fg_list s))" by code_simp
  then obtain s' where s': "fg_drive ?as (fg_init 1 Uninit []) = Some ([Call 0 (OpAdd 5)], s')" by (auto split: option.splits)
  have e: "exec fg_trans (fg_init 1 Uninit []) [Call 0 (OpAdd 5)] s'" using fg_drive_exec [OF s' exec_refl] by simp
  from ok s' have "length (fg_pcs s') = 1" "fg_pcs s' ! 0 = FLockCurr (OpAdd 5) (ll_head (fg_list s')) (ll_tail (fg_list s'))" by simp_all
  then have "fg_step (fg_list s') 0 (fg_pcs s' ! 0) (fg_heap s') = Inl (Panic ''lock of a mutex that is not initialised'')"
    by (intro iffD2 [OF fg_list_safe [OF e, of 0]]) auto
  with e show "\<exists>s. exec fg_trans (fg_init 1 Uninit []) [Call 0 (OpAdd 5)] s \<and>
     fg_step (fg_list s) 0 (fg_pcs s ! 0) (fg_heap s) = Inl (Panic ''lock of a mutex that is not initialised'')" by blast
qed

text \<open>C7: When the mutex of the tail, which the constructor does not initialise, happens to be an unlocked one, the threads on the
  list with a lock per node never all wait for each other: as long as some call has not
  come to its return, some thread can take a step. In every other case no call ever returns.\<close>

theorem fg_list_deadlock_free:
  assumes "exec fg_trans (fg_init n m h) es s" "i < length (fg_pcs s)"
    "fg_pcs s ! i \<noteq> FIdle" "\<And>r. fg_pcs s ! i \<noteq> FReturn r"
  shows "if m = Unlocked then \<exists>s'. fg_trans s None s' else \<forall>k r. Ret k r \<notin> set es"
proof (cases "m = Unlocked")
  case True
  then obtain as where inv: "fg_inv (fg_list s) (fg_heap s) (fg_pcs s) as" using fg_reachable_inv assms(1) by blast
  from fg_all_wait [OF inv _ assms(2)] assms(3,4) obtain k where
    k: "k < length (fg_pcs s)" "\<not> waits (fg_list s) (fg_heap s) (fg_pcs s ! k)" by blast
  from fg_step_good [OF inv k(1)] k(2) obtain pc h where
    "fg_step (fg_list s) k (fg_pcs s ! k) (fg_heap s) = Inr (Some (pc, h))" by (auto simp: fg_steps_def)
  from fg_move [OF k(1) this] True show ?thesis by auto
qed (use stuck_no_return [OF assms(1)] in simp)

theorem fg_list_deadlock_free_witness:
  "\<exists>s s'. exec fg_trans (fg_init 2 Unlocked []) [Call 0 (OpAdd 5), Call 1 (OpContains 5)] s \<and>
     fg_step (fg_list s) 1 (fg_pcs s ! 1) (fg_heap s) = Inr None \<and> fg_trans s None s'"
proof -
  obtain s where s: "exec fg_trans (fg_init 2 Unlocked []) [Call 0 (OpAdd 5), Call 1 (OpContains 5)] s" "length (fg_pcs s) = 2"
    "fg_pcs s ! 1 = FLockHead (OpContains 5)" "fg_step (fg_list s) 1 (fg_pcs s ! 1) (fg_heap s) = Inr None"
    using waiting_at_head by blast
  have "\<exists>s'. fg_trans s None s'" using fg_list_deadlock_free [OF s(1), of 1] s(2,3) by simp
  with s(1,4) show ?thesis by blast
qed

end
