(* ===== verification/Spec2Isabelle.thy ===== *)
theory Spec2Isabelle
  imports PimMemory PimApi Bridge PimXBar PortProxy PacketQueue EventQ FGLockList
begin

text \<open>
  A verification of the simulator core of SMCSim, a model of a smart memory cube with a processing-in-memory (PIM)
  device, in the repository under \<open>src/\<close>. The program is gem5 (\<open>src/SMC_original/GEM5/gem5/src\<close>, below \<open>G\<close>) extended by
  the components of the cube, and the software of the host (\<open>src/SMC_original/SW/HOST\<close>). Beside it the repository has the
  concurrent lists with which the device is compared (\<open>src/All_Summer2017/Jack\<close>).

  \<^bold>\<open>How the parts interact.\<close> Components exchange packets through ports in three ways: timing accesses, which may be
  refused and retried and whose response comes later, atomic accesses, which perform the whole access in one
  call, and functional accesses, which bypass time. A host program hands a task to the device: its library
  computes the pages of the data, fills registers through the mapped window of the device and starts it. A write to a
  register of the PIM memory goes to the TLB (the slice table of the task), to the DMA engine, or to the
  coprocessor. The DMA engine cuts a transfer at slice borders, translates each piece with the TLB and moves
  it through a DMA port, which cuts it into packets. The bridges between the crossbars model the serial links.

  \<^bold>\<open>Theories.\<close> Each models the named files, with one definition for each class, constructor and method, under the
  name of the source where possible.

  \<^item> \<open>Prelude\<close>: words, errors as values (\<open>err + 'a\<close> with one constructor for each way in which the program stops),
    little-endian buffers and the shared collections of simplification rules.
  \<^item> \<open>AddrRange\<close> (\<open>G/base/addr_range.hh\<close>): ranges with interleaving; merging stripes partitions their union.
  \<^item> \<open>Request\<close>, \<open>Packet\<close> (\<open>G/mem/request.hh\<close>, \<open>G/mem/packet.hh\<close>, \<open>packet.cc\<close>): requests, the command table, packets and
    their functional checks.
  \<^item> \<open>Ports\<close> (\<open>G/mem/port.hh\<close>): what a component sees of its peer, and the two contracts of a memory, the locales
    \<open>functional_memory\<close> and \<open>atomic_memory\<close>, with the clients' lemmas proved once.
  \<^item> \<open>AddrMapper\<close> (\<open>G/mem/addr_mapper.cc\<close>): remapping on all paths, and the response that restores the address, also of a
    request that was refused before.
  \<^item> \<open>Float32\<close>: the float operations of the program on their IEEE 754 encodings.
  \<^item> \<open>AbstractMem\<close> (\<open>G/mem/abstract_mem.cc\<close>): the store with load-locked reservations, swaps and the atomic commands of
    the cube; it interprets \<open>functional_memory\<close>.
  \<^item> \<open>SimpleMem\<close> (\<open>G/mem/simple_mem.cc\<close>): the timed memory as a step relation with its timing and functional accesses; each request that
    is owed a response has one, in order; progress; it interprets \<open>atomic_memory\<close>.
  \<^item> \<open>EthzTLB\<close> (\<open>G/mem/ethz_tlb.cc\<close>): translation, LRU replacement, refills from the slice table.
  \<^item> \<open>ChunkGen\<close>, \<open>DmaPort\<close> (\<open>G/base/chunk_generator.hh\<close>, \<open>G/dev/dma_device.cc\<close>): cutting a region, and the port that moves
    it; a step relation with the accounting of all bytes.
  \<^item> \<open>PortProxy\<close> (\<open>G/mem/port_proxy.cc\<close>): reading, writing and filling regions over any \<open>functional_memory\<close>.
  \<^item> \<open>EthzDMA\<close> (\<open>G/dev/ethz_dma.cc\<close>): requests, resources and the state machine of the engine.
  \<^item> \<open>PimCoproc\<close>, \<open>PimMemory\<close> (\<open>G/mem/ethz_pim_memory.cc\<close>): the coprocessor and the device; outside its registers it
    interprets \<open>atomic_memory\<close>.
  \<^item> \<open>Clock\<close> (\<open>G/sim/clocked_object.hh\<close>, \<open>clock_domain.cc\<close>, \<open>voltage_domain.cc\<close>): lazy clocks against a closed form, and
    switching of operating points.
  \<^item> \<open>Bridge\<close> (\<open>G/mem/bridge.cc\<close>): the queues and the serial link as a step relation (of timing accesses; functional accesses may
    rewrite the payload of a waiting packet and are modelled apart from it); reservation of places, order, retries; a bridge in front of an \<open>atomic_memory\<close> is one.
  \<^item> \<open>RangeMap\<close> (\<open>G/base/addr_range_map.hh\<close>): the map from ranges to ports; its search against plain membership.
  \<^item> \<open>XBarLayer\<close>, \<open>XBar\<close> (\<open>G/mem/xbar.cc\<close>, \<open>noncoherent_xbar.cc\<close>, \<open>load_distributor.cc\<close>): the layers of a crossbar as a step
    relation with its order of service; routing with its cache against a reference, and the way back of
    responses; the distributor over the serial links.
  \<^item> \<open>PimXBar\<close> (\<open>G/mem/pim_xbar.cc\<close>): the crossbar of the PIM cluster as a step relation with its histories; each ideal access that is
    owed a response has one, in order and at its port.
  \<^item> \<open>PimTask\<close>, \<open>PimApi\<close> (\<open>src/SMC_original/SW/HOST/api\<close>): the regions of a task, and the host library.
  \<^item> \<open>Cells\<close>: objects linked by pointers, as a store of cells.
  \<^item> \<open>PacketQueue\<close> (\<open>G/mem/packet_queue.cc\<close>, \<open>tport.cc\<close>): the queue of packets to be sent later, as a step relation in which
    the peer may queue more packets while one is sent; order, sending and draining; the timing port over an
    \<open>atomic_memory\<close>.
  \<^item> \<open>EventQ\<close> (\<open>G/sim/eventq.cc\<close>, \<open>simulate.cc\<close>): the queue of events as linked bins with stale pointers, and the loop that
    serves it; it holds exactly the scheduled events in order.
  \<^item> \<open>LinkedList\<close> (\<open>LinkedList.h\<close>, \<open>CoarseLinkedList.h\<close>): the sorted list, alone and under one lock; both interpret the
    contract \<open>set_object\<close>.
  \<^item> \<open>FGLockList\<close> (\<open>FGLockLinkedList.h\<close>): the list with a lock per node under any interleaving of threads; it interprets
    \<open>simulation\<close>, which makes it a set with atomic operations. The constructor forgets the mutex of the tail, so the theorems are for
    any state of that mutex: with an unlocked one there are no bad accesses and no deadlock, with any other no call returns.

  This theory holds the properties that span them: the device behind its link.

  \<^bold>\<open>Conventions.\<close> The simulation time, random numbers, and the answers of peers outside the model are arguments.
  To the components an event is the tick for which it is scheduled; the queue of events is modelled on its own. Objects that the code shares through pointers are in an explicit
  heap where sharing matters (the states of DMA actions, the requests of the engine, events and list nodes). Every assertion,
  \<open>panic\<close>, \<open>fatal\<close>, access out of range and division by zero is an error value, so a theorem that an
  operation equals \<open>Inr\<close> of a result says that none of them happens. Theorems about reachable states quantify over all
  interleavings of the operations and events of the component.

  \<^bold>\<open>Fuel.\<close> Loops of the source are recursive functions with a termination proof. Loops along pointers get as much fuel
  as the store has cells, which a chain without cycles cannot use up; that it is enough is part of the theorems about them. Otherwise
  fuel appears where the program itself need not stop: \<open>wait_loop\<close> polls the device until it reports completion, and the theorem
  about it says how much fuel is enough (one more than the number of the first successful poll); \<open>dma_run\<close> runs the events of the
  DMA engine a given number of times, to state what happens after any number of them;
  \<open>serviceEvents\<close> and \<open>sim_loop\<close> serve events, whose actions may schedule others for ever.

  \<^bold>\<open>Not modelled.\<close> Printing, statistics and parameter files, whose only effect is output. \<open>G/mem/ethz_pim_if.cc\<close>, an
  early stub of the device that answers no access. The coherent crossbar, the caches and the processor models of gem5, which the
  components meet at their ports. Checkpoints of the event queue and the barrier between its threads. The power and DRAM models under \<open>ext\<close>, third-party code.
  The kernel driver, which is C code behind \<open>ioctl\<close>: an argument of the host library. The flat-combining and lock-free
  structures under \<open>src/All_Summer2017/testProject\<close>, which rest on the memory model of the host and come from another
  project. The list with a lock per node does not depend on it: the invariant says that a thread reads and writes a node of the list
  only while it holds the node's mutex.
\<close>

interpretation bp: atomic_memory "br_recvAtomic (pim_recvAtomic env rnd now) b" pim_view sm_inv
    "\<lambda>m. s_delay (slavePort b) * br_period b + getLatency m rnd"
  by (rule atomic_memory.behind_bridge [OF pm.atomic_memory_axioms])

text \<open>C26: the PIM device behind the bridge that models its serial link is still memory outside its command
  registers: a read returns what the preceding write stored, and each access costs the delay of the link on
  top of the latency of the device.\<close>

theorem bridged_pim_write_read:
  assumes "sm_inv m" "plain_request WriteReq w d" "bytes_at (pim_view m) (pk_addr w) old" "length old = length d"
    and "plain_request ReadReq p e" "pk_addr p = pk_addr w" "length e = length d"
  shows "\<exists>q m1 r m2. br_recvAtomic (pim_recvAtomic env rnd now) b m w =
      Inr (s_delay (slavePort b) * br_period b + getLatency m rnd, q, m1) \<and>
    pim_view m1 = store_at (pim_view m) (pk_addr w) d \<and>
    br_recvAtomic (pim_recvAtomic env rnd now) b m1 p =
      Inr (s_delay (slavePort b) * br_period b + getLatency m rnd, r, m2) \<and> getPtr r = Inr d \<and> pim_view m2 = pim_view m1"
  by (rule bp.atomic_read_after_write [OF assms])

theorem bridged_pim_write_read_witness:
  "\<exists>q m1 r m2. br_recvAtomic (pim_recvAtomic ex_env 0 0) ex_br ex_pim (ctx_packet WriteReq 0x20 [1, 2] 0) = Inr (1010, q, m1) \<and>
    br_recvAtomic (pim_recvAtomic ex_env 0 0) ex_br m1 (ctx_packet ReadReq 0x20 [0, 0] 0) = Inr (1010, r, m2) \<and> getPtr r = Inr [1, 2]"
proof -
  have at: "bytes_at (pim_view ex_pim) (pk_addr (ctx_packet WriteReq 0x20 [1, 2] 0)) (replicate 2 0)"
  proof -
    have "(0x20 :: Addr) + of_nat i \<notin> set (command_addrs (pm_params ex_pim))" if "i < 2" for i
      using that by (cases i) (auto simp: ex_pim_facts command_addrs_def ex_pp_def)
    then show ?thesis using ex_pim_zero [of "0x20" 2] by (simp add: bytes_at_def pim_view_def ex_pim_facts)
  qed
  have lat: "s_delay (slavePort ex_br) * br_period ex_br + getLatency ex_pim 0 = 1010"
    by (simp add: ex_br_defs ex_pim_def ethz_PIMMemory_def simple_mem.defs SimpleMemory_def getLatency_def)
  have p: "plain_request WriteReq (ctx_packet WriteReq 0x20 [1, 2] 0) [1, 2]"
    "plain_request ReadReq (ctx_packet ReadReq 0x20 [0, 0] 0) [0, 0]" by (rule ex_plain; simp)+
  show ?thesis using bridged_pim_write_read [OF ex_pim_facts(1) p(1) at _ p(2), where env = ex_env and rnd = 0 and now = 0 and b = ex_br]
    unfolding lat by auto
qed

end
